(* ===== verification/Partha_Prelude.thy ===== *)
theory Partha_Prelude
  imports Main "HOL-Library.Multiset" "HOL-Library.Char_ord" "HOL-Library.List_Lexorder"
    "HOL-Library.Product_Lexorder" "HOL-Library.AList"
begin

text \<open>
  Shared vocabulary of the development: results of fallible Python code, the
  state-and-exception shape of code that talks to the database session, the string
  operations the sources call, and the stable sort with de-duplication that every
  canonical ordering uses.

  Python's \<^verbatim>\<open>str\<close> is represented by its UTF-8 byte sequence (a \<^typ>\<open>string\<close>), with a lone
  surrogate as the three bytes UTF-8 would give its code point. The code only ever
  compares, splits, joins and searches for ASCII text, which works byte for byte on
  this form, and the byte order of UTF-8 is the code-point order Python sorts by. Where
  the code counts code points or asks for UTF-16 order, the model decodes.
\<close>

section \<open>Collections of facts\<close>

named_theorems result_simps \<open>rewriting of results, exceptions and loops that may raise\<close>
named_theorems string_simps \<open>splitting, joining and searching Python strings\<close>

section \<open>Results\<close>

text \<open>A Python call that may raise: \<^term>\<open>Inl e\<close> is the exception, \<^term>\<open>Inr x\<close> the value.\<close>

fun bindR :: "'e + 'a \<Rightarrow> ('a \<Rightarrow> 'e + 'b) \<Rightarrow> 'e + 'b" where
  "bindR (Inl e) f = Inl e"
| "bindR (Inr x) f = f x"

text \<open>A list comprehension whose element expression may raise: the first exception ends it.\<close>

fun mapR :: "('a \<Rightarrow> 'e + 'b) \<Rightarrow> 'a list \<Rightarrow> 'e + 'b list" where
  "mapR f [] = Inr []"
| "mapR f (x # xs) = bindR (f x) (\<lambda>y. bindR (mapR f xs) (\<lambda>ys. Inr (y # ys)))"

text \<open>A loop whose body may raise and has no other effect: a sequence of checks.\<close>

fun checkR :: "('a \<Rightarrow> 'e option) \<Rightarrow> 'a list \<Rightarrow> 'e + unit" where
  "checkR f [] = Inr ()"
| "checkR f (x # xs) = (case f x of Some e \<Rightarrow> Inl e | None \<Rightarrow> checkR f xs)"

definition guardR :: "bool \<Rightarrow> 'e \<Rightarrow> 'e + unit" where
  "guardR b e = (if b then Inr () else Inl e)"

lemma bindR_Inr [result_simps]: "bindR m f = Inr y \<longleftrightarrow> (\<exists>x. m = Inr x \<and> f x = Inr y)"
  by (cases m) auto

lemma bindR_Inl [result_simps]:
  "bindR m f = Inl e \<longleftrightarrow> m = Inl e \<or> (\<exists>x. m = Inr x \<and> f x = Inl e)"
  by (cases m) auto

lemma guardR_Inr [result_simps]: "guardR b e = Inr u \<longleftrightarrow> b"
  by (simp add: guardR_def)

lemma guardR_Inl [result_simps]: "guardR b e = Inl e' \<longleftrightarrow> \<not> b \<and> e' = e"
  by (auto simp: guardR_def)

lemma bindR_cong [fundef_cong]:
  "m = m' \<Longrightarrow> (\<And>x. m' = Inr x \<Longrightarrow> f x = g x) \<Longrightarrow> bindR m f = bindR m' g"
  by (cases m') auto

lemma mapR_cong [fundef_cong]:
  "xs = ys \<Longrightarrow> (\<And>x. x \<in> set ys \<Longrightarrow> f x = g x) \<Longrightarrow> mapR f xs = mapR g ys"
  by (induction ys arbitrary: xs) auto

lemma mapR_Inr: "mapR f xs = Inr ys \<longleftrightarrow> list_all2 (\<lambda>x y. f x = Inr y) xs ys"
  by (induction xs arbitrary: ys) (auto simp: result_simps list_all2_Cons1)

lemma mapR_pure: "mapR (\<lambda>x. Inr (f x)) xs = Inr (map f xs)"
  by (induction xs) auto

lemma mapR_Inr_map: "(\<And>x. x \<in> set xs \<Longrightarrow> f x = Inr (g x)) \<Longrightarrow> mapR f xs = Inr (map g xs)"
  by (induction xs) auto

lemma mapR_Inr_length: "mapR f xs = Inr ys \<Longrightarrow> length ys = length xs"
  by (auto simp: mapR_Inr dest: list_all2_lengthD)

lemma mapR_Inr_set: "mapR f xs = Inr ys \<Longrightarrow> y \<in> set ys \<longleftrightarrow> (\<exists>x \<in> set xs. f x = Inr y)"
  by (induction xs arbitrary: ys) (auto simp: result_simps)

lemma mapR_Inr_all: "mapR f xs = Inr ys \<Longrightarrow> x \<in> set xs \<Longrightarrow> \<exists>y \<in> set ys. f x = Inr y"
  by (induction xs arbitrary: ys) (auto simp: result_simps)

lemma mapR_total: "(\<And>x. x \<in> set xs \<Longrightarrow> \<exists>y. f x = Inr y) \<Longrightarrow> \<exists>ys. mapR f xs = Inr ys"
proof (induction xs)
  case (Cons x xs)
  then obtain y ys where "f x = Inr y" "mapR f xs = Inr ys"
    by force
  then show ?case by simp
qed simp

lemma mapR_perm:
  assumes "mapR f xs = Inr ys" and "mset xs' = mset xs"
  shows "\<exists>ys'. mapR f xs' = Inr ys' \<and> mset ys' = mset ys"
proof -
  define g where "g x = projr (f x)" for x
  have all: "\<forall>x \<in> set xs. f x = Inr (g x)"
    using mapR_Inr_all [OF assms(1)] by (force simp: g_def)
  have set_eq: "set xs' = set xs" using assms(2) by (rule mset_eq_setD)
  have pure: "mapR f zs = Inr (map g zs)" if "set zs \<subseteq> set xs" for zs
    using that all by (induction zs) auto
  have "ys = map g xs" using pure [of xs] assms(1) by simp
  moreover have "mapR f xs' = Inr (map g xs')" using pure set_eq by simp
  ultimately show ?thesis using assms(2) by simp
qed

lemma checkR_Inr [result_simps]: "checkR f xs = Inr u \<longleftrightarrow> (\<forall>x \<in> set xs. f x = None)"
  by (induction xs) (auto split: option.splits)

lemma checkR_Inl_ex: "checkR f xs = Inl e \<Longrightarrow> \<exists>x \<in> set xs. f x = Some e"
  by (induction xs) (auto split: option.splits)

text \<open>The same loop with a body given as a result.\<close>

fun forR :: "('a \<Rightarrow> 'e + unit) \<Rightarrow> 'a list \<Rightarrow> 'e + unit" where
  "forR f [] = Inr ()"
| "forR f (x # xs) = bindR (f x) (\<lambda>_. forR f xs)"

lemma forR_Inr [result_simps]: "forR f xs = Inr u \<longleftrightarrow> (\<forall>x \<in> set xs. f x = Inr ())"
  by (induction xs) (auto simp: result_simps)

section \<open>State with exceptions\<close>

text \<open>
  Code that writes through a session and may raise half way: the state it leaves behind
  is part of the result in both cases.
\<close>

type_synonym ('s, 'e, 'a) action = "'s \<Rightarrow> ('e + 'a) \<times> 's"

definition returnS :: "'a \<Rightarrow> ('s, 'e, 'a) action" where
  "returnS x s = (Inr x, s)"

definition raiseS :: "'e \<Rightarrow> ('s, 'e, 'a) action" where
  "raiseS e s = (Inl e, s)"

definition bindS :: "('s, 'e, 'a) action \<Rightarrow> ('a \<Rightarrow> ('s, 'e, 'b) action) \<Rightarrow> ('s, 'e, 'b) action" where
  "bindS m f s = (case m s of (Inl e, s') \<Rightarrow> (Inl e, s') | (Inr x, s') \<Rightarrow> f x s')"

definition liftS :: "'e + 'a \<Rightarrow> ('s, 'e, 'a) action" where
  "liftS r s = (r, s)"

definition getS :: "('s \<Rightarrow> 'a) \<Rightarrow> ('s, 'e, 'a) action" where
  "getS f s = (Inr (f s), s)"

fun forS :: "('a \<Rightarrow> ('s, 'e, 'b) action) \<Rightarrow> 'a list \<Rightarrow> ('s, 'e, unit) action" where
  "forS f [] = returnS ()"
| "forS f (x # xs) = bindS (f x) (\<lambda>_. forS f xs)"

lemmas action_defs = returnS_def raiseS_def bindS_def liftS_def getS_def

text \<open>What an action keeps true of the state, whether or not it raises.\<close>

definition keeps :: "('s \<Rightarrow> bool) \<Rightarrow> ('s, 'e, 'a) action \<Rightarrow> bool" where
  "keeps P m \<longleftrightarrow> (\<forall>s. P s \<longrightarrow> P (snd (m s)))"

named_theorems keeps_intros \<open>rules that build a preserved property of an action from its parts\<close>

lemma keepsI: "(\<And>s. P s \<Longrightarrow> P (snd (m s))) \<Longrightarrow> keeps P m"
  by (simp add: keeps_def)

lemma keepsD: "keeps P m \<Longrightarrow> P s \<Longrightarrow> m s = (r, s') \<Longrightarrow> P s'"
  unfolding keeps_def by (metis snd_conv)

lemma keeps_returnS [keeps_intros]: "keeps P (returnS x)"
  by (simp add: keeps_def returnS_def)

lemma keeps_raiseS [keeps_intros]: "keeps P (raiseS e)"
  by (simp add: keeps_def raiseS_def)

lemma keeps_liftS [keeps_intros]: "keeps P (liftS r)"
  by (simp add: keeps_def liftS_def)

lemma keeps_getS [keeps_intros]: "keeps P (getS f)"
  by (simp add: keeps_def getS_def)

lemma keeps_bindS [keeps_intros]: "keeps P m \<Longrightarrow> (\<And>x. keeps P (f x)) \<Longrightarrow> keeps P (bindS m f)"
  by (auto simp: keeps_def bindS_def split: prod.splits sum.splits)

lemma keeps_forS [keeps_intros]: "(\<And>x. x \<in> set xs \<Longrightarrow> keeps P (f x)) \<Longrightarrow> keeps P (forS f xs)"
  by (induction xs) (auto intro!: keeps_intros)

lemma keeps_if [keeps_intros]: "(b \<Longrightarrow> keeps P m) \<Longrightarrow> (\<not> b \<Longrightarrow> keeps P m') \<Longrightarrow> keeps P (if b then m else m')"
  by simp

lemma keeps_case_option [keeps_intros]:
  "keeps P m \<Longrightarrow> (\<And>x. keeps P (f x)) \<Longrightarrow> keeps P (case r of None \<Rightarrow> m | Some x \<Rightarrow> f x)"
  by (cases r) auto

lemma keeps_conj: "keeps P m \<Longrightarrow> keeps Q m \<Longrightarrow> keeps (\<lambda>s. P s \<and> Q s) m"
  by (simp add: keeps_def)

section \<open>Python strings\<close>

fun startswith :: "string \<Rightarrow> string \<Rightarrow> bool" where
  "startswith [] s = True"
| "startswith (p # ps) [] = False"
| "startswith (p # ps) (x # s) = (p = x \<and> startswith ps s)"

definition endswith :: "string \<Rightarrow> string \<Rightarrow> bool" where
  "endswith p s = startswith (rev p) (rev s)"

text \<open>\<^verbatim>\<open>needle in s\<close>\<close>

fun occurs_in :: "string \<Rightarrow> string \<Rightarrow> bool" where
  "occurs_in p [] = (p = [])"
| "occurs_in p (x # s) = (startswith p (x # s) \<or> occurs_in p s)"

definition removeprefix :: "string \<Rightarrow> string \<Rightarrow> string" where
  "removeprefix p s = (if startswith p s then drop (length p) s else s)"

text \<open>\<^verbatim>\<open>s.split(c)\<close> on one ASCII character: never empty.\<close>

fun split_char :: "char \<Rightarrow> string \<Rightarrow> string list" where
  "split_char c [] = [[]]"
| "split_char c (x # s) =
     (if x = c then [] # split_char c s
      else (case split_char c s of [] \<Rightarrow> [[x]] | y # ys \<Rightarrow> (x # y) # ys))"

text \<open>\<^verbatim>\<open>s.split(sep, 1)\<close>: the parts around the first occurrence, if there is one.\<close>

fun split_once :: "string \<Rightarrow> string \<Rightarrow> (string \<times> string) option" where
  "split_once sep [] = (if sep = [] then Some ([], []) else None)"
| "split_once sep (x # s) =
     (if startswith sep (x # s) then Some ([], drop (length sep) (x # s))
      else map_option (\<lambda>(a, b). (x # a, b)) (split_once sep s))"

fun join :: "string \<Rightarrow> string list \<Rightarrow> string" where
  "join sep [] = []"
| "join sep [x] = x"
| "join sep (x # y # zs) = x @ sep @ join sep (y # zs)"

definition replace_char :: "char \<Rightarrow> char \<Rightarrow> string \<Rightarrow> string" where
  "replace_char a b s = map (\<lambda>x. if x = a then b else x) s"

lemma startswith_iff [string_simps]: "startswith p s \<longleftrightarrow> (\<exists>r. s = p @ r)"
  by (induction p s rule: startswith.induct) auto

lemma endswith_iff [string_simps]: "endswith p s \<longleftrightarrow> (\<exists>r. s = r @ p)"
proof
  assume "endswith p s"
  then obtain r where "rev s = rev p @ r" by (auto simp: endswith_def string_simps)
  then have "s = rev r @ p" by (metis rev_append rev_rev_ident)
  then show "\<exists>r. s = r @ p" by blast
qed (auto simp: endswith_def string_simps)

lemma occurs_in_iff [string_simps]: "occurs_in p s \<longleftrightarrow> (\<exists>a b. s = a @ p @ b)"
proof (induction s)
  case (Cons x s)
  show ?case
  proof
    assume "occurs_in p (x # s)"
    then consider r where "x # s = p @ r" | a b where "s = a @ p @ b"
      using Cons by (auto simp: string_simps)
    then show "\<exists>a b. x # s = a @ p @ b"
      by cases (metis append_Nil, metis append_Cons)
  next
    assume "\<exists>a b. x # s = a @ p @ b"
    then obtain a b where "x # s = a @ p @ b" by blast
    then consider "x # s = p @ b" | a' where "s = a' @ p @ b" by (cases a) auto
    then show "occurs_in p (x # s)"
      by cases (metis occurs_in.simps(2) startswith_iff, use Cons in auto)
  qed
qed auto

lemma split_char_not_Nil [simp]: "split_char c s \<noteq> []"
  by (induction s) (auto split: list.splits)

lemma split_char_no_sep: "seg \<in> set (split_char c s) \<Longrightarrow> c \<notin> set seg"
  by (induction s arbitrary: seg) (auto split: if_splits list.splits)

lemma split_char_id: "c \<notin> set s \<Longrightarrow> split_char c s = [s]"
  by (induction s) auto

lemma split_char_append: "c \<notin> set a \<Longrightarrow> split_char c (a @ c # b) = a # split_char c b"
  by (induction a) auto

lemma split_char_set: "seg \<in> set (split_char c s) \<Longrightarrow> set seg \<subseteq> set s"
  by (induction s arbitrary: seg) (fastforce split: if_splits list.splits)+

lemma join_Cons: "xs \<noteq> [] \<Longrightarrow> join sep (x # xs) = x @ sep @ join sep xs"
  by (cases xs) auto

lemma split_join [string_simps]:
  "xs \<noteq> [] \<Longrightarrow> (\<forall>x \<in> set xs. c \<notin> set x) \<Longrightarrow> split_char c (join [c] xs) = xs"
  by (induction xs rule: list_nonempty_induct)
    (auto simp: split_char_id join_Cons split_char_append)

lemma join_split [string_simps]: "join [c] (split_char c s) = s"
proof (induction s)
  case (Cons x s)
  obtain y ys where sp: "split_char c s = y # ys" by (cases "split_char c s") auto
  with Cons show ?case by (cases ys) auto
qed simp

lemma set_join: "set (join sep xs) \<subseteq> \<Union> (set ` set xs) \<union> set sep"
  by (induction sep xs rule: join.induct) auto

lemma split_once_Some:
  "split_once sep s = Some (a, b) \<Longrightarrow> s = a @ sep @ b"
  by (induction s arbitrary: a) (auto simp: string_simps split: if_splits)

lemma split_once_None: "split_once sep s = None \<longleftrightarrow> \<not> occurs_in sep s"
  by (induction s) auto

section \<open>Sorting and de-duplication\<close>

text \<open>The first element of each class of equal keys, in order: \<^verbatim>\<open>if k in seen: continue\<close>.\<close>

fun dedup_by :: "('a \<Rightarrow> 'k) \<Rightarrow> 'k list \<Rightarrow> 'a list \<Rightarrow> 'a list" where
  "dedup_by k seen [] = []"
| "dedup_by k seen (x # xs) =
     (if k x \<in> set seen then dedup_by k seen xs else x # dedup_by k (k x # seen) xs)"

lemma dedup_by_keys: "k ` set (dedup_by k seen xs) = k ` set xs - set seen"
  by (induction xs arbitrary: seen) auto

lemma dedup_by_subset: "x \<in> set (dedup_by k seen xs) \<Longrightarrow> x \<in> set xs"
  by (induction xs arbitrary: seen) (auto split: if_splits)

lemma dedup_by_distinct: "distinct (map k (dedup_by k seen xs))"
proof (induction xs arbitrary: seen)
  case (Cons x xs)
  have "k x \<notin> k ` set (dedup_by k (k x # seen) xs)"
    by (simp add: dedup_by_keys)
  with Cons show ?case by simp
qed simp

lemma dedup_by_id: "distinct (map k xs) \<Longrightarrow> set seen \<inter> k ` set xs = {} \<Longrightarrow> dedup_by k seen xs = xs"
  by (induction xs arbitrary: seen) auto

lemma insort_key_map: "map g (insort_key (\<lambda>x. f (g x)) x xs) = insort_key f (g x) (map g xs)"
  by (induction xs) auto

lemma sort_key_map: "map g (sort_key (\<lambda>x. f (g x)) xs) = sort_key f (map g xs)"
  by (induction xs) (auto simp: insort_key_map)

lemma map_of_sort_key: "distinct (map fst xs) \<Longrightarrow> map_of (sort_key f xs) = map_of xs"
  by (subst map_of_inject_set) (simp_all add: distinct_map)

lemma sort_map_key: "sort (map f xs) = map f (sort_key f xs)"
  by (rule properties_for_sort) simp_all

text \<open>
  Sorting by a key in which equal keys only come from equal elements gives a result that
  depends on the multiset of elements alone.
\<close>

lemma sort_key_mset_unique:
  assumes inj: "inj_on f (set xs)" and eq: "mset ys = mset xs"
  shows "sort_key f ys = sort_key f xs"
proof -
  have "sort (map f ys) = sort (map f xs)"
    using eq by (intro properties_for_sort) simp_all
  then have "map f (sort_key f ys) = map f (sort_key f xs)"
    by (simp add: sort_map_key)
  moreover have "inj_on f (set (sort_key f ys) \<union> set (sort_key f xs))"
    using inj mset_eq_setD [OF eq] by simp
  ultimately show ?thesis by (rule map_inj_on)
qed

text \<open>A stable sort that computes every key once: an equation for evaluation.\<close>

lemma insort_key_pairs:
  "insort_key fst (f x, x) (map (\<lambda>x. (f x, x)) ys) = map (\<lambda>x. (f x, x)) (insort_key f x ys)"
  by (induction ys) simp_all

lemma sort_key_code [code]:
  "sort_key f xs = map snd (foldr (insort_key fst) (map (\<lambda>x. (f x, x)) xs) [])"
proof -
  have "foldr (insort_key fst) (map (\<lambda>x. (f x, x)) xs) [] = map (\<lambda>x. (f x, x)) (foldr (insort_key f) xs [])"
    by (induction xs) (simp_all add: insort_key_pairs)
  then show ?thesis by (simp add: sort_key_def comp_def)
qed

end
