(* ===== verification/Py_Values.thy ===== *)
theory Py_Values
  imports Partha_Prelude
begin

text \<open>
  The dynamically typed values that reach canonicalization, the Unicode database the
  code consults, and the textual forms (decimal integers, JSON string literals, UTF-16
  keys) the canonical encoding is built from.
\<close>

section \<open>Values\<close>

text \<open>
  A dictionary is an association list in insertion order with distinct keys. A float
  carries its \<^verbatim>\<open>repr\<close>, any other object its type name: the code only tells them apart
  from the supported types.
\<close>

datatype pyval =
    PNone
  | PBool bool
  | PInt int
  | PFloat string
  | PStr string
  | PList "pyval list"
  | PDict "(string \<times> pyval) list"
  | POther string

text \<open>
  The Unicode character database behind \<^verbatim>\<open>unicodedata.normalize\<close>, \<^verbatim>\<open>str.isalpha\<close> and
  \<^verbatim>\<open>str.lower\<close>: data tables outside the repository, so a parameter of the model.
\<close>

record unicode =
  u_nfc :: "string \<Rightarrow> string"
  u_isalpha :: "string \<Rightarrow> bool"
  u_lower :: "string \<Rightarrow> string"

definition ascii :: "string \<Rightarrow> bool" where
  "ascii s \<longleftrightarrow> (\<forall>c \<in> set s. (of_char c :: int) < 128)"

definition ascii_letter :: "char \<Rightarrow> bool" where
  "ascii_letter c \<longleftrightarrow> (let n = (of_char c :: int) in 65 \<le> n \<and> n \<le> 90 \<or> 97 \<le> n \<and> n \<le> 122)"

text \<open>
  What the development relies on where it needs more than "some function": NFC is
  idempotent and leaves ASCII alone, a string is in NFC exactly when the parts around a
  solidus, backslash or colon are (none of them composes with anything), and an ASCII
  character is alphabetic exactly when it is a letter. All are documented facts of the
  Unicode standard (UAX 15).
\<close>

definition nfc_idem :: "unicode \<Rightarrow> bool" where
  "nfc_idem U \<longleftrightarrow> (\<forall>s. u_nfc U (u_nfc U s) = u_nfc U s)"

definition nfc_ascii :: "unicode \<Rightarrow> bool" where
  "nfc_ascii U \<longleftrightarrow> (\<forall>s. ascii s \<longrightarrow> u_nfc U s = s)"

definition is_nfc :: "unicode \<Rightarrow> string \<Rightarrow> bool" where
  "is_nfc U s \<longleftrightarrow> u_nfc U s = s"

definition nfc_splits :: "unicode \<Rightarrow> char \<Rightarrow> bool" where
  "nfc_splits U c \<longleftrightarrow> (\<forall>a b. is_nfc U (a @ c # b) \<longleftrightarrow> is_nfc U a \<and> is_nfc U b)"

definition isalpha_ascii :: "unicode \<Rightarrow> bool" where
  "isalpha_ascii U \<longleftrightarrow> (\<forall>c. (of_char c :: int) < 128 \<longrightarrow> u_isalpha U [c] = ascii_letter c)"

definition unicode_ok :: "unicode \<Rightarrow> bool" where
  "unicode_ok U \<longleftrightarrow> nfc_idem U \<and> nfc_ascii U \<and> nfc_splits U (CHR ''/'') \<and> nfc_splits U (CHR '':'')
     \<and> nfc_splits U (CHR 0x5C) \<and> isalpha_ascii U"

text \<open>
  A database restricted to the Latin letters that need no composition; it satisfies the
  laws above and evaluates.
\<close>

definition ascii_unicode :: unicode where
  "ascii_unicode = \<lparr> u_nfc = (\<lambda>s. s),
     u_isalpha = (\<lambda>s. case s of [c] \<Rightarrow> ascii_letter c | _ \<Rightarrow> False),
     u_lower = map (\<lambda>c. let n = (of_char c :: int) in if 65 \<le> n \<and> n \<le> 90 then char_of (n + 32) else c) \<rparr>"

lemma unicode_ok_ascii: "unicode_ok ascii_unicode"
  by (simp add: unicode_ok_def nfc_idem_def nfc_ascii_def nfc_splits_def is_nfc_def
      isalpha_ascii_def ascii_unicode_def)

lemma unicode_okD:
  assumes "unicode_ok U"
  shows "nfc_idem U" "nfc_ascii U" "nfc_splits U (CHR ''/'')" "nfc_splits U (CHR '':'')"
    "nfc_splits U (CHR 0x5C)" "isalpha_ascii U"
  using assms by (auto simp: unicode_ok_def)

section \<open>Equality of values\<close>

text \<open>
  Python's \<^verbatim>\<open>==\<close>: booleans are the integers 0 and 1, and dictionaries compare as maps.
  Values that are not one of the supported types are compared by their carried text.
\<close>

lemma size_pyval_elem: "x \<in> set xs \<Longrightarrow> size x < Suc (size_list size xs)"
  by (induction xs) auto

lemma size_pyval_item: "(k, x) \<in> set xs \<Longrightarrow> size x < Suc (size_list (size_prod (\<lambda>_. 0) size) xs)"
  by (induction xs) auto

function py_eq :: "pyval \<Rightarrow> pyval \<Rightarrow> bool" where
  "py_eq PNone v = (v = PNone)"
| "py_eq (PBool b) v = (case v of PBool c \<Rightarrow> b = c | PInt i \<Rightarrow> i = of_bool b | _ \<Rightarrow> False)"
| "py_eq (PInt i) v = (case v of PInt j \<Rightarrow> i = j | PBool b \<Rightarrow> i = of_bool b | _ \<Rightarrow> False)"
| "py_eq (PFloat r) v = (v = PFloat r)"
| "py_eq (PStr s) v = (v = PStr s)"
| "py_eq (PList xs) v =
     (case v of PList ys \<Rightarrow> length xs = length ys \<and> list_all (\<lambda>(x, y). py_eq x y) (zip xs ys)
      | _ \<Rightarrow> False)"
| "py_eq (PDict xs) v =
     (case v of PDict ys \<Rightarrow> length xs = length ys \<and>
          list_all (\<lambda>(k, x). case map_of ys k of None \<Rightarrow> False | Some y \<Rightarrow> py_eq x y) xs
      | _ \<Rightarrow> False)"
| "py_eq (POther t) v = (v = POther t)"
  by pat_completeness auto
termination
  by (relation "measure (\<lambda>(x, y). size x)")
    (auto intro: size_pyval_elem size_pyval_item dest: set_zip_leftD)

section \<open>Code points\<close>

text \<open>The number of bytes of the code point that starts with a given byte.\<close>

definition cp_len :: "char \<Rightarrow> nat" where
  "cp_len c = (let n = (of_char c :: int) in
     if n < 192 then 1 else if n < 224 then 2 else if n < 240 then 3 else 4)"

definition cp_value :: "string \<Rightarrow> int" where
  "cp_value bs = (case map of_char bs of
       [] \<Rightarrow> 0
     | [a] \<Rightarrow> a
     | [a, b] \<Rightarrow> (a mod 32) * 64 + b mod 64
     | [a, b, c] \<Rightarrow> (a mod 16) * 4096 + (b mod 64) * 64 + c mod 64
     | a # b # c # d # _ \<Rightarrow> (a mod 8) * 262144 + (b mod 64) * 4096 + (c mod 64) * 64 + d mod 64)"

function code_points :: "string \<Rightarrow> int list" where
  "code_points [] = []"
| "code_points (c # s) = cp_value (take (cp_len c) (c # s)) # code_points (drop (cp_len c) (c # s))"
  by pat_completeness auto
termination
  by (relation "measure length") (auto simp: cp_len_def Let_def)

text \<open>A byte below 128 is a code point of its own: an equation for evaluation.\<close>

lemma code_points_nil [code]: "code_points [] = []"
  by simp

lemma code_points_code [code]:
  "code_points (c # s) = (if (of_char c :: int) < 128 then of_char c # code_points s
     else cp_value (take (cp_len c) (c # s)) # code_points (drop (cp_len c) (c # s)))"
  by (simp add: cp_len_def cp_value_def Let_def)

definition is_surrogate :: "int \<Rightarrow> bool" where
  "is_surrogate n \<longleftrightarrow> 55296 \<le> n \<and> n \<le> 57343"

text \<open>Encoding to UTF-8 or UTF-16 raises on a lone surrogate.\<close>

definition has_surrogate :: "string \<Rightarrow> bool" where
  "has_surrogate s = list_ex is_surrogate (code_points s)"

definition utf16_units :: "int \<Rightarrow> int list" where
  "utf16_units n = (if n < 65536 then [n]
     else [55296 + (n - 65536) div 1024, 56320 + (n - 65536) mod 1024])"

text \<open>\<^verbatim>\<open>key.encode("utf-16be")\<close> as the list of its bytes.\<close>

definition utf16be :: "string \<Rightarrow> int list" where
  "utf16be s = concat (map (\<lambda>u. [u div 256, u mod 256]) (concat (map utf16_units (code_points s))))"

lemma of_char_int_bounds: "0 \<le> (of_char c :: int)" "(of_char c :: int) < 256"
proof -
  have "(of_char c :: int) = int (of_char c)" by (simp add: of_nat_of_char)
  moreover have "(of_char c :: nat) < 256" by simp
  ultimately show "0 \<le> (of_char c :: int)" "(of_char c :: int) < 256" by linarith+
qed

section \<open>White space\<close>

text \<open>\<^verbatim>\<open>str.strip\<close>: the UTF-8 forms of the characters that Python counts as whitespace.\<close>

definition py_whitespace :: "string list" where
  "py_whitespace = map (\<lambda>n. [char_of (n :: nat)]) ([9..<14] @ [28..<33])
     @ [[CHR 0xC2, CHR 0x85], [CHR 0xC2, CHR 0xA0], [CHR 0xE1, CHR 0x9A, CHR 0x80]]
     @ map (\<lambda>n. [CHR 0xE2, CHR 0x80, char_of n]) ([128..<139] @ [168, 169, 175 :: nat])
     @ [[CHR 0xE2, CHR 0x81, CHR 0x9F], [CHR 0xE3, CHR 0x80, CHR 0x80]]"

fun drop_spaces :: "nat \<Rightarrow> string list \<Rightarrow> string \<Rightarrow> string" where
  "drop_spaces 0 ws s = s"
| "drop_spaces (Suc k) ws s = (case find (\<lambda>w. startswith w s) ws of None \<Rightarrow> s | Some w \<Rightarrow> drop_spaces k ws (drop (length w) s))"

definition strip :: "string \<Rightarrow> string" where
  "strip s = (let l = drop_spaces (length s) py_whitespace s in
     rev (drop_spaces (length l) (map rev py_whitespace) (rev l)))"

section \<open>Decimal integers\<close>

definition digit_char :: "int \<Rightarrow> char" where
  "digit_char d = char_of (48 + d)"

text \<open>The decimal digits of a non-negative integer.\<close>

function show_digits :: "int \<Rightarrow> string" where
  "show_digits n = (if n < 10 then [digit_char n] else show_digits (n div 10) @ [digit_char (n mod 10)])"
  by pat_completeness auto
termination
  by (relation "measure nat") auto

declare show_digits.simps [simp del]

definition show_int :: "int \<Rightarrow> string" where
  "show_int i = (if i < 0 then CHR ''-'' # show_digits (- i) else show_digits i)"

section \<open>JSON string literals\<close>

definition hex_char :: "int \<Rightarrow> char" where
  "hex_char d = (if d < 10 then char_of (48 + d) else char_of (87 + d))"

text \<open>
  \<^verbatim>\<open>json.dumps(s, ensure_ascii=False)\<close>: the quote, the backslash and the control
  characters are escaped, everything else is copied.
\<close>

definition json_escape :: "char \<Rightarrow> string" where
  "json_escape c = (let n = (of_char c :: int) in
     if n = 34 then [CHR 0x5C, CHR 0x22]
     else if n = 92 then [CHR 0x5C, CHR 0x5C]
     else if n = 8 then [CHR 0x5C, CHR ''b'']
     else if n = 9 then [CHR 0x5C, CHR ''t'']
     else if n = 10 then [CHR 0x5C, CHR ''n'']
     else if n = 12 then [CHR 0x5C, CHR ''f'']
     else if n = 13 then [CHR 0x5C, CHR ''r'']
     else if n < 32 then [CHR 0x5C, CHR ''u'', CHR ''0'', CHR ''0'', hex_char (n div 16), hex_char (n mod 16)]
     else [c])"

definition json_string :: "string \<Rightarrow> string" where
  "json_string s = CHR 0x22 # concat (map json_escape s) @ [CHR 0x22]"

end
