(* ===== verification/Canonical_Path.thy ===== *)
theory Canonical_Path
  imports Py_Values
begin

text \<open>
  Repository-relative paths (\<^verbatim>\<open>normalize_repo_path\<close> of \<^verbatim>\<open>app/intelligence/canonical.py\<close>):
  the function itself, the shape of what it returns, exactly when it raises, and when a
  returned path is accepted again unchanged.
\<close>

section \<open>Model\<close>

datatype canon_error =
    CanonicalizationError string
  | PathEscapeError string
  | UnicodeEncodeError

text \<open>
  \<^verbatim>\<open>len(text) >= 2 and text[1] == ":" and text[0].isalpha()\<close>: the first code point is a
  letter and the second is a colon.
\<close>

definition has_drive :: "unicode \<Rightarrow> string \<Rightarrow> bool" where
  "has_drive U text = (case text of [] \<Rightarrow> False | c # _ \<Rightarrow>
     (let n = cp_len c in n < length text \<and> text ! n = CHR '':'' \<and> u_isalpha U (take n text)))"

text \<open>The loop over the segments, with \<^verbatim>\<open>resolved\<close> as its state.\<close>

fun resolve_segments :: "string list \<Rightarrow> string list \<Rightarrow> canon_error + string list" where
  "resolve_segments resolved [] = Inr resolved"
| "resolve_segments resolved (seg # segs) =
     (if seg = '''' \<or> seg = ''.'' then resolve_segments resolved segs
      else if seg = ''..'' then
        (if resolved = [] then Inl (PathEscapeError ''path escapes the repository root'')
         else resolve_segments (butlast resolved) segs)
      else resolve_segments (resolved @ [seg]) segs)"

definition normalize_repo_path :: "unicode \<Rightarrow> string \<Rightarrow> canon_error + string" where
  "normalize_repo_path U raw =
     (let text = u_nfc U raw in
      if has_drive U text then Inl (PathEscapeError ''absolute path is not repository-relative'')
      else
        let text = replace_char (CHR 0x5C) (CHR ''/'') text in
        if startswith ''/'' text then Inl (PathEscapeError ''absolute path is not repository-relative'')
        else bindR (resolve_segments [] (split_char (CHR ''/'') text)) (\<lambda>resolved. Inr (join ''/'' resolved)))"

definition is_valid_repo_path :: "unicode \<Rightarrow> string \<Rightarrow> bool" where
  "is_valid_repo_path U raw = (case normalize_repo_path U raw of
     Inl (PathEscapeError _) \<Rightarrow> False | _ \<Rightarrow> True)"

section \<open>Specification\<close>

text \<open>A segment that names a file or a directory.\<close>

definition plain_segment :: "string \<Rightarrow> bool" where
  "plain_segment seg \<longleftrightarrow> seg \<noteq> '''' \<and> seg \<noteq> ''.'' \<and> seg \<noteq> ''..'' \<and>
     CHR ''/'' \<notin> set seg \<and> CHR 0x5C \<notin> set seg"

definition repo_path :: "string \<Rightarrow> bool" where
  "repo_path p \<longleftrightarrow> p = [] \<or> (\<forall>seg \<in> set (split_char (CHR ''/'') p). plain_segment seg)"

text \<open>How far below the root a list of segments ends; it escapes when a prefix ends above it.\<close>

definition seg_weight :: "string \<Rightarrow> int" where
  "seg_weight seg = (if seg = '''' \<or> seg = ''.'' then 0 else if seg = ''..'' then - 1 else 1)"

definition depth :: "string list \<Rightarrow> int" where
  "depth segs = sum_list (map seg_weight segs)"

definition escapes :: "string list \<Rightarrow> bool" where
  "escapes segs \<longleftrightarrow> (\<exists>n \<le> length segs. depth (take n segs) < 0)"

section \<open>Lemmas\<close>

text \<open>One step of the loop, by the kind of segment.\<close>

lemma resolve_skip:
  "seg = [] \<or> seg = ''.'' \<Longrightarrow> resolve_segments acc (seg # segs) = resolve_segments acc segs"
  by simp

lemma resolve_up:
  "resolve_segments acc (''..'' # segs) =
     (if acc = [] then Inl (PathEscapeError ''path escapes the repository root'')
      else resolve_segments (butlast acc) segs)"
  by simp

lemma resolve_name:
  "seg \<noteq> [] \<Longrightarrow> seg \<noteq> ''.'' \<Longrightarrow> seg \<noteq> ''..'' \<Longrightarrow>
     resolve_segments acc (seg # segs) = resolve_segments (acc @ [seg]) segs"
  by simp

lemma segment_kinds:
  obtains (skip) "seg = [] \<or> seg = ''.''" | (up) "seg = ''..''"
  | (name) "seg \<noteq> []" "seg \<noteq> ''.''" "seg \<noteq> ''..''"
  by blast

declare resolve_segments.simps(2) [simp del]

lemma resolve_segments_plain:
  assumes "resolve_segments acc segs = Inr r"
    and "\<forall>s \<in> set acc. plain_segment s"
    and "\<forall>s \<in> set segs. CHR ''/'' \<notin> set s \<and> CHR 0x5C \<notin> set s"
  shows "\<forall>s \<in> set r. plain_segment s"
  using assms
proof (induction segs arbitrary: acc)
  case (Cons seg segs)
  show ?case
  proof (cases seg rule: segment_kinds)
    case skip
    with Cons show ?thesis by (metis resolve_skip list.set_intros(2))
  next
    case up
    with Cons.prems(1) have "resolve_segments (butlast acc) segs = Inr r"
      by (simp add: resolve_up split: if_splits)
    moreover have "\<forall>s \<in> set (butlast acc). plain_segment s"
      using Cons.prems(2) by (meson in_set_butlastD)
    ultimately show ?thesis using Cons.IH Cons.prems(3) by simp
  next
    case name
    with Cons.prems(3) have "plain_segment seg" by (simp add: plain_segment_def)
    with Cons.prems Cons.IH [of "acc @ [seg]"] name show ?thesis by (simp add: resolve_name)
  qed
qed simp

lemma depth_Cons: "depth (s # segs) = seg_weight s + depth segs"
  by (simp add: depth_def)

lemma escapes_Nil: "\<not> escapes []"
  by (simp add: escapes_def depth_def)

text \<open>The general form of the escape test, for a walk that starts \<open>k\<close> levels down.\<close>

definition escapes_from :: "int \<Rightarrow> string list \<Rightarrow> bool" where
  "escapes_from k segs \<longleftrightarrow> (\<exists>n \<le> length segs. k + depth (take n segs) < 0)"

lemma escapes_from_Nil: "escapes_from k [] \<longleftrightarrow> k < 0"
  by (simp add: escapes_from_def depth_def)

lemma escapes_from_Cons:
  "0 \<le> k \<Longrightarrow> escapes_from k (s # segs) \<longleftrightarrow> escapes_from (k + seg_weight s) segs"
proof
  assume "0 \<le> k" "escapes_from k (s # segs)"
  then obtain n where n: "n \<le> Suc (length segs)" "k + depth (take n (s # segs)) < 0"
    by (auto simp: escapes_from_def)
  with \<open>0 \<le> k\<close> obtain m where "n = Suc m" by (cases n) (auto simp: depth_def)
  with n show "escapes_from (k + seg_weight s) segs"
    by (auto simp: escapes_from_def depth_Cons intro!: exI [of _ m])
next
  assume "escapes_from (k + seg_weight s) segs"
  then obtain n where n: "n \<le> length segs" "k + seg_weight s + depth (take n segs) < 0"
    by (auto simp: escapes_from_def)
  then show "escapes_from k (s # segs)"
    unfolding escapes_from_def by (intro exI [of _ "Suc n"]) (simp add: depth_Cons)
qed

lemma resolve_segments_Inl:
  "(\<exists>e. resolve_segments acc segs = Inl e) \<longleftrightarrow> escapes_from (int (length acc)) segs"
proof (induction segs arbitrary: acc)
  case Nil
  then show ?case by (simp add: escapes_from_Nil)
next
  case (Cons seg segs)
  show ?case
  proof (cases seg rule: segment_kinds)
    case skip
    then have "seg_weight seg = 0" by (auto simp: seg_weight_def)
    with skip Cons show ?thesis by (simp add: resolve_skip escapes_from_Cons)
  next
    case up
    have stop: "escapes_from (- 1) segs"
      unfolding escapes_from_def by (intro exI [of _ 0]) (simp add: depth_def)
    have "int (length acc) - 1 = int (length (butlast acc))" if "acc \<noteq> []"
      using that by (cases acc) auto
    with up stop Cons show ?thesis
      by (cases "acc = []") (simp_all add: resolve_up escapes_from_Cons seg_weight_def del: length_butlast)
  next
    case name
    with Cons [of "acc @ [seg]"] show ?thesis
      by (simp add: resolve_name escapes_from_Cons seg_weight_def add.commute)
  qed
qed

lemma resolve_segments_Inl_kind:
  "resolve_segments acc segs = Inl e \<Longrightarrow> e = PathEscapeError ''path escapes the repository root''"
proof (induction segs arbitrary: acc)
  case (Cons seg segs)
  then show ?case
    by (cases seg rule: segment_kinds)
      (auto simp: resolve_skip resolve_up resolve_name split: if_splits)
qed simp

lemma resolve_segments_id:
  "\<forall>s \<in> set segs. plain_segment s \<Longrightarrow> resolve_segments acc segs = Inr (acc @ segs)"
  by (induction segs arbitrary: acc) (simp_all add: plain_segment_def resolve_name)

lemma replace_char_notin: "a \<noteq> b \<Longrightarrow> a \<notin> set (replace_char a b s)"
  by (auto simp: replace_char_def)

lemma replace_char_id: "a \<notin> set s \<Longrightarrow> replace_char a b s = s"
  by (induction s) (auto simp: replace_char_def)

lemma normalize_repo_path_Inr:
  "normalize_repo_path U raw = Inr p \<longleftrightarrow>
     \<not> has_drive U (u_nfc U raw) \<and>
     \<not> startswith ''/'' (replace_char (CHR 0x5C) (CHR ''/'') (u_nfc U raw)) \<and>
     (\<exists>r. resolve_segments [] (split_char (CHR ''/'') (replace_char (CHR 0x5C) (CHR ''/'') (u_nfc U raw))) = Inr r
        \<and> p = join ''/'' r)"
  by (auto simp: normalize_repo_path_def Let_def result_simps)

lemma plain_join_split:
  assumes "\<forall>s \<in> set r. plain_segment s" and "r \<noteq> []"
  shows "split_char (CHR ''/'') (join ''/'' r) = r"
  using assms by (intro split_join) (simp_all add: plain_segment_def)

lemma repo_path_join: "\<forall>s \<in> set r. plain_segment s \<Longrightarrow> repo_path (join ''/'' r)"
  by (cases "r = []") (auto simp: repo_path_def plain_join_split)

lemma normalize_repo_path_segments:
  assumes "normalize_repo_path U raw = Inr p"
  obtains r where "p = join ''/'' r" and "\<forall>s \<in> set r. plain_segment s"
    and "resolve_segments [] (split_char (CHR ''/'') (replace_char (CHR 0x5C) (CHR ''/'') (u_nfc U raw))) = Inr r"
proof -
  let ?t = "replace_char (CHR 0x5C) (CHR ''/'') (u_nfc U raw)"
  obtain r where r: "resolve_segments [] (split_char (CHR ''/'') ?t) = Inr r" "p = join ''/'' r"
    using assms by (auto simp: normalize_repo_path_Inr)
  have "CHR 0x5C \<notin> set ?t" by (rule replace_char_notin) simp
  then have "\<forall>s \<in> set (split_char (CHR ''/'') ?t). CHR ''/'' \<notin> set s \<and> CHR 0x5C \<notin> set s"
    by (meson split_char_no_sep split_char_set subsetD)
  then have "\<forall>s \<in> set r. plain_segment s"
    using resolve_segments_plain [OF r(1)] by simp
  with r that show thesis by blast
qed

lemma normalize_repo_path_repo_path: "normalize_repo_path U raw = Inr p \<Longrightarrow> repo_path p"
  by (metis normalize_repo_path_segments repo_path_join)

lemma repo_path_no_leading_slash:
  assumes "repo_path p" shows "\<not> startswith ''/'' p"
proof
  assume "startswith ''/'' p"
  then obtain r where p: "p = CHR ''/'' # r" by (auto simp: startswith_iff)
  then have "plain_segment []" using assms by (simp add: repo_path_def)
  then show False by (simp add: plain_segment_def)
qed

lemma repo_path_no_backslash:
  assumes "repo_path p" shows "CHR 0x5C \<notin> set p"
proof (cases "p = []")
  case False
  let ?S = "split_char (CHR ''/'') p"
  have "set (join ''/'' ?S) \<subseteq> \<Union> (set ` set ?S) \<union> set ''/''" by (rule set_join)
  with assms False show ?thesis
    by (auto simp: repo_path_def plain_segment_def join_split)
qed simp

text \<open>A path already in normal form, in NFC and without a drive prefix, is returned unchanged.\<close>

lemma normalize_repo_path_id:
  assumes "repo_path p" and "u_nfc U p = p" and "\<not> has_drive U p"
  shows "normalize_repo_path U p = Inr p"
proof (cases "p = []")
  case True
  with assms show ?thesis
    by (simp add: normalize_repo_path_def replace_char_def resolve_skip)
next
  case False
  with assms(1) have plain: "\<forall>s \<in> set (split_char (CHR ''/'') p). plain_segment s"
    by (simp add: repo_path_def)
  have "replace_char (CHR 0x5C) (CHR ''/'') p = p"
    using repo_path_no_backslash [OF assms(1)] by (rule replace_char_id)
  with assms repo_path_no_leading_slash [OF assms(1)] show ?thesis
    by (simp add: normalize_repo_path_def Let_def resolve_segments_id [OF plain] join_split)
qed

text \<open>What normalization returns is in NFC: it only drops and joins NFC segments.\<close>

lemma is_nfc_join:
  "xs \<noteq> [] \<Longrightarrow> nfc_splits U c \<Longrightarrow> is_nfc U (join [c] xs) \<longleftrightarrow> (\<forall>x \<in> set xs. is_nfc U x)"
  by (induction xs rule: list_nonempty_induct) (auto simp: join_Cons nfc_splits_def)

lemma nfc_segments:
  "nfc_splits U c \<Longrightarrow> is_nfc U s \<longleftrightarrow> (\<forall>seg \<in> set (split_char c s). is_nfc U seg)"
  using is_nfc_join [of "split_char c s" U c] by (simp add: join_split)

lemma resolve_segments_subset:
  "resolve_segments acc segs = Inr r \<Longrightarrow> set r \<subseteq> set acc \<union> set segs"
proof (induction segs arbitrary: acc)
  case (Cons seg segs)
  show ?case
  proof (cases seg rule: segment_kinds)
    case skip
    with Cons show ?thesis by (force simp: resolve_skip)
  next
    case up
    with Cons.prems have "resolve_segments (butlast acc) segs = Inr r"
      by (simp add: resolve_up split: if_splits)
    then show ?thesis using Cons.IH by (fastforce dest: in_set_butlastD)
  next
    case name
    with Cons.prems Cons.IH [of "acc @ [seg]"] show ?thesis by (simp add: resolve_name)
  qed
qed simp

lemma replace_char_join: "replace_char a b s = join [b] (split_char a s)"
proof (induction s)
  case (Cons x s)
  obtain y ys where sp: "split_char a s = y # ys" by (cases "split_char a s") auto
  with Cons show ?case by (cases ys) (auto simp: replace_char_def)
qed (simp add: replace_char_def)


lemma normalize_repo_path_nfc:
  assumes "unicode_ok U" and "normalize_repo_path U raw = Inr p"
  shows "is_nfc U p"
proof -
  let ?t = "u_nfc U raw"
  obtain r where p: "p = join ''/'' r"
    and r: "resolve_segments [] (split_char (CHR ''/'') (replace_char (CHR 0x5C) (CHR ''/'') ?t)) = Inr r"
    using normalize_repo_path_segments [OF assms(2)] by blast
  note law = unicode_okD [OF assms(1)]
  have "is_nfc U ?t" using law(1) by (simp add: is_nfc_def nfc_idem_def)
  then have "\<forall>seg \<in> set (split_char (CHR 0x5C) ?t). is_nfc U seg"
    using nfc_segments [OF law(5)] by blast
  then have "is_nfc U (replace_char (CHR 0x5C) (CHR ''/'') ?t)"
    using is_nfc_join [OF split_char_not_Nil law(3)] by (simp add: replace_char_join)
  then have segs: "\<forall>s \<in> set r. is_nfc U s"
    using resolve_segments_subset [OF r] nfc_segments [OF law(3)] by (metis Un_iff empty_iff empty_set subsetD)
  have "is_nfc U []" using law(2) by (simp add: is_nfc_def nfc_ascii_def ascii_def)
  with segs show ?thesis
    by (cases "r = []") (simp_all add: p is_nfc_join [OF _ law(3)])
qed

section \<open>Properties\<close>

text \<open>
  A path that \<^verbatim>\<open>normalize_repo_path\<close> returns is repository-relative: it is the root, or
  its segments are all plain names, with no empty, \<^verbatim>\<open>.\<close> or \<^verbatim>\<open>..\<close> segment, no backslash and
  no leading slash, so no evidence path can leave the repository.
\<close>

theorem normalize_repo_path_safe:
  assumes "normalize_repo_path U raw = Inr p"
  shows "repo_path p \<and> \<not> startswith ''/'' p \<and> CHR 0x5C \<notin> set p"
  using normalize_repo_path_repo_path [OF assms]
  by (simp add: repo_path_no_leading_slash repo_path_no_backslash)

theorem normalize_repo_path_safe_witness:
  "normalize_repo_path ascii_unicode ''a/./b//../c.py'' = Inr ''a/c.py'' \<and> repo_path ''a/c.py''
     \<and> \<not> startswith ''/'' ''a/c.py'' \<and> CHR 0x5C \<notin> set ''a/c.py''"
proof -
  have h: "normalize_repo_path ascii_unicode ''a/./b//../c.py'' = Inr ''a/c.py''" by code_simp
  show ?thesis using h normalize_repo_path_safe [OF h] by simp
qed

text \<open>
  \<^verbatim>\<open>normalize_repo_path\<close> raises exactly when the (normalized) text has a drive prefix, or
  starts with a slash or backslash, or walks above the repository root at some point, that
  is, some prefix of its segments has more \<^verbatim>\<open>..\<close> than names.
\<close>

theorem normalize_repo_path_raises_iff:
  "(\<exists>e. normalize_repo_path U raw = Inl e) =
     (let text = u_nfc U raw; slashed = replace_char (CHR 0x5C) (CHR ''/'') text
      in has_drive U text \<or> startswith ''/'' slashed \<or> escapes (split_char (CHR ''/'') slashed))"
proof -
  have "escapes segs \<longleftrightarrow> (\<exists>e. resolve_segments [] segs = Inl e)" for segs
    by (simp add: resolve_segments_Inl escapes_def escapes_from_def)
  then show ?thesis
    by (auto simp: normalize_repo_path_def Let_def result_simps)
qed

text \<open>
  Normalizing a path twice is the same as normalizing it once, as long as the first
  result has no drive prefix: what is stored passes the re-check made when a snapshot is
  sealed.
\<close>

theorem normalize_repo_path_idempotent:
  assumes "unicode_ok U" and "normalize_repo_path U raw = Inr p" and "\<not> has_drive U p"
  shows "normalize_repo_path U p = Inr p"
proof (rule normalize_repo_path_id)
  show "repo_path p" using assms(2) by (rule normalize_repo_path_repo_path)
  show "u_nfc U p = p" using normalize_repo_path_nfc [OF assms(1,2)] by (simp add: is_nfc_def)
qed (rule assms(3))

theorem normalize_repo_path_idempotent_witness:
  "normalize_repo_path ascii_unicode ''src//app/../main.py'' = Inr ''src/main.py''
     \<and> normalize_repo_path ascii_unicode ''src/main.py'' = Inr ''src/main.py''"
proof -
  have h: "normalize_repo_path ascii_unicode ''src//app/../main.py'' = Inr ''src/main.py''" by code_simp
  have "\<not> has_drive ascii_unicode ''src/main.py''" by code_simp
  then show ?thesis
    using h normalize_repo_path_idempotent [OF unicode_ok_ascii h] by simp
qed

text \<open>
  The drive-prefix check looks only at the start of the raw text, so a path such as
  \<^verbatim>\<open>./C:/Users\<close> is accepted and normalizes to \<^verbatim>\<open>C:/Users\<close>, a Windows absolute path, which
  the same function rejects when it is normalized again.
\<close>

theorem drive_prefix_survives_normalization:
  assumes "unicode_ok U"
  shows "normalize_repo_path U ''./C:/Users'' = Inr ''C:/Users'' \<and>
    normalize_repo_path U ''C:/Users'' =
      Inl (PathEscapeError ''absolute path is not repository-relative'')"
proof -
  note law = unicode_okD [OF assms]
  have nfc: "u_nfc U ''./C:/Users'' = ''./C:/Users''" "u_nfc U ''C:/Users'' = ''C:/Users''"
    using law(2) by (simp_all add: nfc_ascii_def ascii_def)
  have "u_isalpha U ''C''" "\<not> u_isalpha U ''.''"
    using law(6) by (simp_all add: isalpha_ascii_def ascii_letter_def)
  then show ?thesis
    by (simp add: normalize_repo_path_def nfc has_drive_def cp_len_def replace_char_def
        resolve_skip resolve_name)
qed

theorem drive_prefix_survives_normalization_witness:
  "normalize_repo_path ascii_unicode ''./C:/Users'' = Inr ''C:/Users'' \<and>
    normalize_repo_path ascii_unicode ''C:/Users'' =
      Inl (PathEscapeError ''absolute path is not repository-relative'')"
  using drive_prefix_survives_normalization [OF unicode_ok_ascii] by simp

end
