(* ===== verification/Canonical_Json.thy ===== *)
theory Canonical_Json
  imports Canonical_Path
begin

text \<open>
  Canonical JSON (\<^verbatim>\<open>_normalize\<close>, \<^verbatim>\<open>canonical_json_bytes\<close> and the declared-array
  normalization of \<^verbatim>\<open>app/intelligence/canonical.py\<close>). The main result is that the encoding is
  faithful: two values get the same bytes exactly when they normalize to the same JSON
  value, whatever the insertion order of their dictionaries.
\<close>

section \<open>Model\<close>

text \<open>\<^verbatim>\<open>_normalize\<close>, its loop over a mapping (with the dictionary built so far) and over a sequence.\<close>

function (sequential) normalize :: "unicode \<Rightarrow> pyval \<Rightarrow> canon_error + pyval"
  and normalize_items :: "unicode \<Rightarrow> (string \<times> pyval) list \<Rightarrow> (string \<times> pyval) list
    \<Rightarrow> canon_error + (string \<times> pyval) list" where
  "normalize U (PStr s) = Inr (PStr (u_nfc U s))"
| "normalize U (PBool b) = Inr (PBool b)"
| "normalize U (PInt i) =
     (if - (2 ^ 53) + 1 \<le> i \<and> i \<le> 2 ^ 53 - 1 then Inr (PInt i)
      else Inl (CanonicalizationError ''integers outside the exact JSON/IEEE-754 range are not permitted''))"
| "normalize U PNone = Inr PNone"
| "normalize U (PFloat r) = Inl (CanonicalizationError ''floats are not permitted in canonical content'')"
| "normalize U (PDict kvs) = bindR (normalize_items U [] kvs) (\<lambda>d. Inr (PDict d))"
| "normalize U (PList xs) = bindR (mapR (normalize U) xs) (\<lambda>ys. Inr (PList ys))"
| "normalize U (POther t) = Inl (CanonicalizationError ''unsupported type in canonical content'')"
| "normalize_items U normalized [] = Inr normalized"
| "normalize_items U normalized ((key, item) # kvs) =
     (let normalized_key = u_nfc U key in
      if normalized_key \<in> fst ` set normalized
      then Inl (CanonicalizationError ''object keys collide after Unicode normalization'')
      else bindR (normalize U item) (\<lambda>w. normalize_items U (normalized @ [(normalized_key, w)]) kvs))"
  by pat_completeness auto
termination
  by (relation "measure (\<lambda>x. case x of Inl (U, v) \<Rightarrow> size v
        | Inr (U, acc, kvs) \<Rightarrow> size_list (size_prod (\<lambda>_. 0) size) kvs)")
    (auto intro: size_pyval_elem)

text \<open>The inner \<^verbatim>\<open>serialize\<close>; object members are ordered by the UTF-16 form of their names.\<close>

function (sequential) serialize :: "pyval \<Rightarrow> canon_error + string" where
  "serialize PNone = Inr ''null''"
| "serialize (PBool b) = Inr (if b then ''true'' else ''false'')"
| "serialize (PInt i) = Inr (show_int i)"
| "serialize (PStr s) = Inr (json_string s)"
| "serialize (PList xs) = bindR (mapR serialize xs) (\<lambda>ss. Inr (''['' @ join '','' ss @ '']''))"
| "serialize (PDict kvs) =
     bindR (mapR (\<lambda>(k, v). bindR (serialize v) (\<lambda>s. Inr (json_string k @ '':'' @ s)))
              (sort_key (\<lambda>kv. utf16be (fst kv)) kvs))
       (\<lambda>ss. Inr (''{'' @ join '','' ss @ ''}''))"
| "serialize _ = Inl (CanonicalizationError ''unsupported normalized type'')"
  by pat_completeness auto
termination
  by (relation "measure size") (auto intro: size_pyval_elem size_pyval_item)

definition canonical_json_bytes :: "unicode \<Rightarrow> pyval \<Rightarrow> canon_error + string" where
  "canonical_json_bytes U v =
     bindR (normalize U v) (\<lambda>n. bindR (serialize n) (\<lambda>s.
       if has_surrogate s then Inl (CanonicalizationError ''canonical content contains an invalid Unicode surrogate'')
       else Inr s))"

definition normalize_content :: "unicode \<Rightarrow> pyval \<Rightarrow> canon_error + pyval" where
  "normalize_content U v = normalize U v"

text \<open>
  \<^verbatim>\<open>{canonical_json_bytes(e): e for e in elements}\<close>: a later element with the same bytes
  replaces the value under the key, not its place.
\<close>

fun by_bytes :: "unicode \<Rightarrow> (string \<times> pyval) list \<Rightarrow> pyval list \<Rightarrow> canon_error + (string \<times> pyval) list" where
  "by_bytes U d [] = Inr d"
| "by_bytes U d (e # es) = bindR (canonical_json_bytes U e) (\<lambda>b. by_bytes U (AList.update b e d) es)"

definition set_array :: "unicode \<Rightarrow> pyval list \<Rightarrow> canon_error + pyval list" where
  "set_array U elements = bindR (by_bytes U [] elements) (\<lambda>d. Inr (map snd (sort_key fst d)))"

text \<open>The inner \<^verbatim>\<open>prepare\<close> of \<^verbatim>\<open>normalize_declared_arrays\<close> and its loop over a mapping.\<close>

function (sequential) prepare_declared ::
    "unicode \<Rightarrow> string list \<Rightarrow> string list \<Rightarrow> pyval \<Rightarrow> string option \<Rightarrow> canon_error + pyval"
  and prepare_declared_items ::
    "unicode \<Rightarrow> string list \<Rightarrow> string list \<Rightarrow> (string \<times> pyval) list \<Rightarrow> (string \<times> pyval) list
      \<Rightarrow> canon_error + (string \<times> pyval) list" where
  "prepare_declared U sets ordered (PDict kvs) key =
     bindR (prepare_declared_items U sets ordered [] kvs) (\<lambda>d. Inr (PDict d))"
| "prepare_declared U sets ordered (PList xs) key =
     (if key \<notin> Some ` set sets \<and> key \<notin> Some ` set ordered
      then Inl (CanonicalizationError ''array has no declared set/order semantics'')
      else bindR (mapR (\<lambda>x. prepare_declared U sets ordered x None) xs) (\<lambda>elements.
        if key \<in> Some ` set sets then bindR (set_array U elements) (\<lambda>ys. Inr (PList ys))
        else Inr (PList elements)))"
| "prepare_declared U sets ordered v key = normalize U v"
| "prepare_declared_items U sets ordered prepared [] = Inr prepared"
| "prepare_declared_items U sets ordered prepared ((raw_key, nested) # kvs) =
     (let normalized_key = u_nfc U raw_key in
      if normalized_key \<in> fst ` set prepared
      then Inl (CanonicalizationError ''keys collide after Unicode normalization'')
      else bindR (prepare_declared U sets ordered nested (Some normalized_key)) (\<lambda>w.
        prepare_declared_items U sets ordered (prepared @ [(normalized_key, w)]) kvs))"
  by pat_completeness auto
termination
  by (relation "measure (\<lambda>x. case x of Inl (U, ss, os, v, k) \<Rightarrow> size v
        | Inr (U, ss, os, acc, kvs) \<Rightarrow> size_list (size_prod (\<lambda>_. 0) size) kvs)")
    (auto intro: size_pyval_elem)

definition normalize_declared_arrays ::
    "unicode \<Rightarrow> string list \<Rightarrow> string list \<Rightarrow> pyval \<Rightarrow> canon_error + pyval" where
  "normalize_declared_arrays U sets ordered value =
     (if set sets \<inter> set ordered \<noteq> {}
      then Inl (CanonicalizationError ''array keys cannot be both set and ordered'')
      else prepare_declared U sets ordered value None)"

section \<open>Specification: JSON values\<close>

text \<open>
  Values \<^verbatim>\<open>_normalize\<close> can return: JSON only, integers in the exact range, strings in NFC and
  distinct member names.
\<close>

function (sequential) normal :: "unicode \<Rightarrow> pyval \<Rightarrow> bool" where
  "normal U PNone = True"
| "normal U (PBool b) = True"
| "normal U (PInt i) = (- (2 ^ 53) + 1 \<le> i \<and> i \<le> 2 ^ 53 - 1)"
| "normal U (PStr s) = is_nfc U s"
| "normal U (PList xs) = list_all (normal U) xs"
| "normal U (PDict kvs) = (distinct (map fst kvs) \<and> list_all (\<lambda>(k, v). is_nfc U k \<and> normal U v) kvs)"
| "normal U _ = False"
  by pat_completeness auto
termination
  by (relation "measure (\<lambda>(U, v). size v)") (auto intro: size_pyval_elem size_pyval_item)

text \<open>The representative of a JSON value in which every object is ordered by name.\<close>

function (sequential) canon :: "pyval \<Rightarrow> pyval" where
  "canon (PList xs) = PList (map canon xs)"
| "canon (PDict kvs) = PDict (sort_key (\<lambda>kv. utf16be (fst kv)) (map (\<lambda>(k, v). (k, canon v)) kvs))"
| "canon v = v"
  by pat_completeness auto
termination
  by (relation "measure size") (auto intro: size_pyval_elem size_pyval_item)

text \<open>Plain JSON text, members in the order they have.\<close>

fun emit :: "pyval \<Rightarrow> string"
  and emit_elems :: "pyval list \<Rightarrow> string"
  and emit_members :: "(string \<times> pyval) list \<Rightarrow> string" where
  "emit PNone = ''null''"
| "emit (PBool b) = (if b then ''true'' else ''false'')"
| "emit (PInt i) = show_int i"
| "emit (PStr s) = json_string s"
| "emit (PList []) = ''[]''"
| "emit (PList (x # xs)) = ''['' @ emit x @ emit_elems xs"
| "emit (PDict []) = ''{}''"
| "emit (PDict ((k, v) # kvs)) = ''{'' @ json_string k @ '':'' @ emit v @ emit_members kvs"
| "emit (PFloat r) = []"
| "emit (POther t) = []"
| "emit_elems [] = '']''"
| "emit_elems (x # xs) = '','' @ emit x @ emit_elems xs"
| "emit_members [] = ''}''"
| "emit_members ((k, v) # kvs) = '','' @ json_string k @ '':'' @ emit v @ emit_members kvs"

section \<open>Decimal and string literals are unambiguous\<close>

definition is_digit :: "char \<Rightarrow> bool" where
  "is_digit c \<longleftrightarrow> 48 \<le> (of_char c :: int) \<and> (of_char c :: int) \<le> 57"

lemma of_char_digit: "0 \<le> d \<Longrightarrow> d < 10 \<Longrightarrow> (of_char (digit_char d) :: int) = 48 + d"
  by (simp add: digit_char_def)

lemma show_digits_digits: "0 \<le> n \<Longrightarrow> \<forall>c \<in> set (show_digits n). is_digit c"
proof (induction n rule: show_digits.induct)
  case (1 n)
  then show ?case
    by (subst show_digits.simps) (auto simp: is_digit_def of_char_digit)
qed

lemma show_digits_not_Nil: "show_digits n \<noteq> []"
  by (subst show_digits.simps) simp

text \<open>Reading the digits back.\<close>

definition read_digits :: "string \<Rightarrow> int" where
  "read_digits s = foldl (\<lambda>n c. n * 10 + (of_char c - 48)) 0 s"

lemma read_show_digits: "0 \<le> n \<Longrightarrow> read_digits (show_digits n) = n"
proof (induction n rule: show_digits.induct)
  case (1 n)
  then show ?case
    by (subst show_digits.simps) (auto simp: read_digits_def of_char_digit)
qed

lemma show_digits_inj: "0 \<le> m \<Longrightarrow> 0 \<le> n \<Longrightarrow> show_digits m = show_digits n \<Longrightarrow> m = n"
  by (metis read_show_digits)

lemma show_digits_no_minus: "0 \<le> n \<Longrightarrow> CHR ''-'' \<notin> set (show_digits n)"
  using show_digits_digits [of n] by (auto simp: is_digit_def)

lemma show_int_inj:
  assumes eq: "show_int i = show_int j" shows "i = j"
proof -
  have no: "CHR ''-'' # s \<noteq> show_digits n" if "0 \<le> n" for s n
    using show_digits_no_minus [OF that] by (metis list.set_intros(1))
  consider "i < 0" "j < 0" | "0 \<le> i" "0 \<le> j" | "i < 0" "0 \<le> j" | "0 \<le> i" "j < 0" by linarith
  then show ?thesis
  proof cases
    case 1
    with eq show ?thesis using show_digits_inj [of "- i" "- j"] by (simp add: show_int_def)
  next
    case 2
    with eq show ?thesis using show_digits_inj by (simp add: show_int_def)
  qed (use eq no no [THEN not_sym] in \<open>force simp: show_int_def\<close>)+
qed

text \<open>The text that can follow a value: the end, a comma or a closing bracket.\<close>

definition delim :: "string \<Rightarrow> bool" where
  "delim r \<longleftrightarrow> r = [] \<or> hd r = CHR '','' \<or> hd r = CHR '']'' \<or> hd r = CHR ''}''"

abbreviation numeral_char :: "char \<Rightarrow> bool" where
  "numeral_char c \<equiv> c = CHR ''-'' \<or> is_digit c"

lemma takeWhile_show_int: "delim r \<Longrightarrow> takeWhile numeral_char (show_int i @ r) = show_int i"
proof -
  assume "delim r"
  then have "takeWhile numeral_char r = []"
    by (cases r) (auto simp: delim_def is_digit_def)
  moreover have "\<forall>c \<in> set (show_int i). numeral_char c"
    using show_digits_digits [of i] show_digits_digits [of "- i"] by (auto simp: show_int_def)
  ultimately show ?thesis by (simp add: takeWhile_append2)
qed

lemma show_int_prefix:
  assumes "show_int i @ r = show_int j @ s" and "delim r" and "delim s"
  shows "i = j \<and> r = s"
  using assms takeWhile_show_int [OF assms(2), of i] takeWhile_show_int [OF assms(3), of j]
  by (metis append_same_eq same_append_eq show_int_inj)

text \<open>A reader for string literals, which inverts the escaping.\<close>

definition unhex :: "char \<Rightarrow> int" where
  "unhex c = (let n = of_char c in if n < 58 then n - 48 else n - 87)"

fun read_string :: "string \<Rightarrow> (string \<times> string) option" where
  "read_string [] = None"
| "read_string (c # s) =
     (if c = CHR 0x22 then Some ([], s)
      else if c = CHR 0x5C then
        (case s of
           [] \<Rightarrow> None
         | e # t \<Rightarrow>
             if e = CHR ''u'' then
               (case t of a # b # h # l # t' \<Rightarrow>
                  map_option (\<lambda>(x, r). (char_of (16 * unhex h + unhex l) # x, r)) (read_string t')
                | _ \<Rightarrow> None)
             else map_option (\<lambda>(x, r). ((if e = CHR ''b'' then char_of (8::int)
                     else if e = CHR ''t'' then char_of (9::int)
                     else if e = CHR ''n'' then char_of (10::int) else if e = CHR ''f'' then char_of (12::int)
                     else if e = CHR ''r'' then char_of (13::int) else e) # x, r)) (read_string t))
      else map_option (\<lambda>(x, r). (c # x, r)) (read_string s))"

lemma unhex_hex: "0 \<le> d \<Longrightarrow> d < 16 \<Longrightarrow> unhex (hex_char d) = d"
  by (auto simp: unhex_def hex_char_def Let_def)

lemma read_string_escape:
  "read_string (json_escape c @ t) = map_option (\<lambda>(x, r). (c # x, r)) (read_string t)"
proof -
  define n where "n = (of_char c :: int)"
  then have c: "c = char_of n" and "n < 256" "0 \<le> n" by (simp_all add: of_char_int_bounds)
  have hex: "char_of (16 * unhex (hex_char (n div 16)) + unhex (hex_char (n mod 16))) = c"
    using \<open>n < 256\<close> \<open>0 \<le> n\<close> by (simp add: unhex_hex c)
  consider (quote) "n = 34" | (esc) "n = 92 \<or> n = 8 \<or> n = 9 \<or> n = 10 \<or> n = 12 \<or> n = 13"
    | (ctl) "n < 32" "n \<notin> {8, 9, 10, 12, 13}" | (raw) "n \<ge> 32" "n \<noteq> 34" "n \<noteq> 92"
    by force
  then show ?thesis
  proof cases
    case raw
    then have "c \<noteq> CHR 0x22" "c \<noteq> CHR 0x5C" using n_def by auto
    with raw show ?thesis by (simp add: json_escape_def Let_def flip: n_def)
  next
    case ctl
    with hex show ?thesis by (simp add: json_escape_def Let_def flip: n_def)
  next
    case quote
    then have "c = CHR 0x22" by (simp add: c char_of_def bit_Suc_0_iff)
    then show ?thesis by (simp add: json_escape_def)
  next
    case esc
    then have "c \<in> {CHR 0x5C, CHR 0x08, CHR 0x09, CHR 0x0A, CHR 0x0C, CHR 0x0D}"
      by (elim disjE) (simp_all add: c char_of_def bit_Suc_0_iff)
    then show ?thesis
      by (elim insertE emptyE) (simp_all add: json_escape_def char_of_def bit_Suc_0_iff)
  qed
qed

lemma read_json_string: "read_string (concat (map json_escape s) @ CHR 0x22 # r) = Some (s, r)"
  by (induction s) (simp_all add: read_string_escape)

lemma json_string_prefix: "json_string a @ r = json_string b @ s \<Longrightarrow> a = b \<and> r = s"
proof -
  assume "json_string a @ r = json_string b @ s"
  then have "concat (map json_escape a) @ CHR 0x22 # r = concat (map json_escape b) @ CHR 0x22 # s"
    by (simp add: json_string_def)
  then show "a = b \<and> r = s" using read_json_string by (metis option.inject prod.inject)
qed

section \<open>The encoding is faithful\<close>

text \<open>JSON values proper: no float and no foreign object inside.\<close>

fun is_json :: "pyval \<Rightarrow> bool"
  and are_json :: "pyval list \<Rightarrow> bool"
  and members_json :: "(string \<times> pyval) list \<Rightarrow> bool" where
  "is_json (PFloat r) = False"
| "is_json (POther t) = False"
| "is_json (PList xs) = are_json xs"
| "is_json (PDict kvs) = members_json kvs"
| "is_json v = True"
| "are_json [] = True"
| "are_json (x # xs) = (is_json x \<and> are_json xs)"
| "members_json [] = True"
| "members_json ((k, v) # kvs) = (is_json v \<and> members_json kvs)"

lemma are_json_iff: "are_json xs \<longleftrightarrow> (\<forall>x \<in> set xs. is_json x)"
  by (induction xs) auto

lemma members_json_iff: "members_json kvs \<longleftrightarrow> (\<forall>(k, v) \<in> set kvs. is_json v)"
  by (induction kvs) auto

lemma delim_emit_elems: "delim (emit_elems xs @ r)"
  by (cases xs) (auto simp: delim_def)

lemma delim_emit_members: "delim (emit_members kvs @ r)"
  by (cases kvs) (auto simp: delim_def)

text \<open>The first character tells the kind of value.\<close>

definition kind_char :: "pyval \<Rightarrow> char \<Rightarrow> bool" where
  "kind_char v c = (case v of PNone \<Rightarrow> c = CHR ''n'' | PBool b \<Rightarrow> c = (if b then CHR ''t'' else CHR ''f'')
     | PInt i \<Rightarrow> numeral_char c | PStr s \<Rightarrow> c = CHR 0x22 | PList xs \<Rightarrow> c = CHR ''[''
     | PDict kvs \<Rightarrow> c = CHR ''{'' | _ \<Rightarrow> False)"

lemma emit_kind: "is_json v \<Longrightarrow> \<exists>c s. emit v = c # s \<and> kind_char v c"
proof (cases v)
  case (PInt i)
  obtain c s where c: "show_digits i = c # s" by (meson list.exhaust show_digits_not_Nil)
  then have "0 \<le> i \<Longrightarrow> is_digit c" using show_digits_digits [of i] by simp
  with c show ?thesis by (auto simp: PInt kind_char_def show_int_def)
next
  case (PList xs)
  then show ?thesis by (cases xs) (auto simp: kind_char_def)
next
  case (PDict kvs)
  then show ?thesis by (cases kvs) (auto simp: kind_char_def)
qed (auto simp: kind_char_def json_string_def)

fun kind_no :: "pyval \<Rightarrow> nat" where
  "kind_no PNone = 0" | "kind_no (PBool b) = (if b then 1 else 2)" | "kind_no (PInt i) = 3"
| "kind_no (PStr s) = 4" | "kind_no (PList xs) = 5" | "kind_no (PDict kvs) = 6" | "kind_no _ = 7"

lemma kind_char_no: "kind_char a c \<Longrightarrow> kind_char b c \<Longrightarrow> kind_no a = kind_no b"
  by (cases a; cases b) (auto simp: kind_char_def is_digit_def split: if_splits)

lemma kind_same:
  assumes "emit a @ r = emit b @ s" and "is_json a" and "is_json b"
  shows "kind_no b = kind_no a"
proof -
  obtain c where "kind_char a c" "kind_char b c"
    using emit_kind [OF assms(2)] emit_kind [OF assms(3)] assms(1) by force
  then show ?thesis by (rule kind_char_no [symmetric])
qed

lemma kind_no_inv:
  "kind_no b = 0 \<Longrightarrow> b = PNone" "kind_no b = 3 \<Longrightarrow> \<exists>i. b = PInt i" "kind_no b = 4 \<Longrightarrow> \<exists>x. b = PStr x"
  "kind_no b = 5 \<Longrightarrow> \<exists>xs. b = PList xs" "kind_no b = 6 \<Longrightarrow> \<exists>kvs. b = PDict kvs"
  "kind_no b = (if x then 1 else 2) \<Longrightarrow> b = PBool x"
  by (cases b; auto split: if_splits)+

lemma bracket_not_value:
  assumes "c = CHR '']'' \<or> c = CHR ''}'' \<or> c = CHR '',''" and "is_json v"
  shows "c # t \<noteq> emit v @ s"
proof -
  obtain d u where "emit v = d # u" "kind_char v d" using emit_kind [OF assms(2)] by blast
  with assms(1) show ?thesis
    by (auto simp: kind_char_def is_digit_def split: pyval.splits if_splits)
qed

lemma json_string_member:
  assumes "json_string k @ '':'' @ u = json_string l @ '':'' @ w"
  shows "k = l" and "u = w"
  using json_string_prefix [OF assms] by simp_all

lemma emit_prefix_unique:
  "is_json a \<Longrightarrow> is_json b \<Longrightarrow> emit a @ r = emit b @ s \<Longrightarrow> delim r \<Longrightarrow> delim s \<Longrightarrow> a = b \<and> r = s"
  "are_json xs \<Longrightarrow> are_json ys \<Longrightarrow> emit_elems xs @ r = emit_elems ys @ s \<Longrightarrow> xs = ys \<and> r = s"
  "members_json ks \<Longrightarrow> members_json ls \<Longrightarrow> emit_members ks @ r = emit_members ls @ s \<Longrightarrow> ks = ls \<and> r = s"
proof (induction a and xs and ks arbitrary: b r s and ys r s and ls r s
    rule: emit_emit_elems_emit_members.induct)
  case 1
  then show ?case using kind_no_inv(1) [of b] kind_same [OF 1(3) 1(1,2)] by simp
next
  case (2 x)
  have b: "b = PBool x" by (rule kind_no_inv(6)) (use kind_same [OF 2(3) 2(1,2)] in simp)
  show ?case using 2(3) unfolding b by simp
next
  case (3 i)
  then obtain j where b: "b = PInt j" using kind_no_inv(2) [of b] kind_same [OF 3(3) 3(1,2)] by auto
  with 3 show ?case using show_int_prefix [of i r j s] by simp
next
  case (4 x)
  then obtain y where b: "b = PStr y" using kind_no_inv(3) [of b] kind_same [OF 4(3) 4(1,2)] by auto
  with 4 show ?case using json_string_prefix [of x r y s] by simp
next
  case 5
  then obtain ys where b: "b = PList ys" using kind_no_inv(4) [of b] kind_same [OF 5(3) 5(1,2)] by auto
  show ?case
  proof (cases ys)
    case (Cons y zs)
    have "CHR '']'' # r = emit y @ emit_elems zs @ s" using 5(3) unfolding b Cons by simp
    moreover have "is_json y" using 5(2) unfolding b Cons by simp
    ultimately show ?thesis using bracket_not_value by blast
  qed (use 5 b in simp)
next
  case (6 x xs)
  then obtain ys where b: "b = PList ys" using kind_no_inv(4) [of b] kind_same [OF 6(5) 6(3,4)] by auto
  show ?case
  proof (cases ys)
    case Nil
    have "CHR '']'' # s = emit x @ emit_elems xs @ r" using 6(5) unfolding b Nil by simp
    moreover have "is_json x" using 6(3) by simp
    ultimately show ?thesis using bracket_not_value by blast
  next
    case (Cons y zs)
    have eq: "emit x @ emit_elems xs @ r = emit y @ emit_elems zs @ s" using 6(5) unfolding b Cons by simp
    have j: "is_json x" "is_json y" "are_json xs" "are_json zs" using 6(3,4) unfolding b Cons by simp_all
    have xy: "x = y \<and> emit_elems xs @ r = emit_elems zs @ s"
      by (rule 6(1) [OF j(1,2) eq delim_emit_elems delim_emit_elems])
    have "xs = zs \<and> r = s" using xy by (intro 6(2) [OF j(3,4)]) simp
    then show ?thesis using xy unfolding b Cons by simp
  qed
next
  case 7
  then obtain ys where b: "b = PDict ys" using kind_no_inv(5) [of b] kind_same [OF 7(3) 7(1,2)] by auto
  show ?case using 7(3) unfolding b by (cases ys) (auto simp: json_string_def)
next
  case (8 k v kvs)
  then obtain ys where b: "b = PDict ys" using kind_no_inv(5) [of b] kind_same [OF 8(5) 8(3,4)] by auto
  show ?case
  proof (cases ys)
    case Nil
    show ?thesis using 8(5) unfolding b Nil by (simp add: json_string_def)
  next
    case (Cons y zs)
    obtain l w where y: "y = (l, w)" by force
    have "json_string k @ '':'' @ emit v @ emit_members kvs @ r
        = json_string l @ '':'' @ emit w @ emit_members zs @ s" using 8(5) unfolding b Cons y by simp
    note mem = json_string_member [OF this]
    have j: "is_json v" "is_json w" "members_json kvs" "members_json zs"
      using 8(3,4) unfolding b Cons y by simp_all
    have vw: "v = w \<and> emit_members kvs @ r = emit_members zs @ s"
      by (rule 8(1) [OF j(1,2) mem(2) delim_emit_members delim_emit_members])
    have "kvs = zs \<and> r = s" using vw by (intro 8(2) [OF j(3,4)]) simp
    then show ?thesis using vw mem(1) unfolding b Cons y by simp
  qed
next
  case 11
  then show ?case by (cases ys) simp_all
next
  case (12 x xs)
  show ?case
  proof (cases ys)
    case (Cons y zs)
    have eq: "emit x @ emit_elems xs @ r = emit y @ emit_elems zs @ s" using 12(5) unfolding Cons by simp
    have j: "is_json x" "is_json y" "are_json xs" "are_json zs" using 12(3,4) unfolding Cons by simp_all
    have xy: "x = y \<and> emit_elems xs @ r = emit_elems zs @ s"
      by (rule 12(1) [OF j(1,2) eq delim_emit_elems delim_emit_elems])
    have "xs = zs \<and> r = s" using xy by (intro 12(2) [OF j(3,4)]) simp
    then show ?thesis using xy unfolding Cons by simp
  qed (use 12(5) in simp)
next
  case 13
  then show ?case by (cases ls) auto
next
  case (14 k v kvs)
  show ?case
  proof (cases ls)
    case (Cons y zs)
    obtain l w where y: "y = (l, w)" by force
    have "json_string k @ '':'' @ emit v @ emit_members kvs @ r
        = json_string l @ '':'' @ emit w @ emit_members zs @ s" using 14(5) unfolding Cons y by simp
    note mem = json_string_member [OF this]
    have j: "is_json v" "is_json w" "members_json kvs" "members_json zs"
      using 14(3,4) unfolding Cons y by simp_all
    have vw: "v = w \<and> emit_members kvs @ r = emit_members zs @ s"
      by (rule 14(1) [OF j(1,2) mem(2) delim_emit_members delim_emit_members])
    have "kvs = zs \<and> r = s" using vw by (intro 14(2) [OF j(3,4)]) simp
    then show ?thesis using vw mem(1) unfolding Cons y by simp
  qed (use 14(5) in simp)
qed simp_all

lemma emit_PList: "emit (PList xs) = ''['' @ join '','' (map emit xs) @ '']''"
proof (cases xs)
  case (Cons x ys)
  have "emit y @ emit_elems zs = join '','' (map emit (y # zs)) @ '']''" for y zs
    by (induction zs arbitrary: y) auto
  then show ?thesis by (simp add: Cons)
qed simp

abbreviation emit_member :: "string \<times> pyval \<Rightarrow> string" where
  "emit_member kv \<equiv> json_string (fst kv) @ '':'' @ emit (snd kv)"

lemma emit_PDict: "emit (PDict kvs) = ''{'' @ join '','' (map emit_member kvs) @ ''}''"
proof (cases kvs)
  case (Cons x ys)
  have "json_string k @ '':'' @ emit v @ emit_members zs = join '','' (map emit_member ((k, v) # zs)) @ ''}''" for k v zs
  proof (induction zs arbitrary: k v)
    case (Cons z zs)
    then show ?case by (cases z) auto
  qed simp
  then show ?thesis by (cases x) (simp add: Cons)
qed simp

lemma sort_key_canon:
  "sort_key (\<lambda>kv. utf16be (fst kv)) (map (\<lambda>(k, v). (k, g v)) kvs)
     = map (\<lambda>(k, v). (k, g v)) (sort_key (\<lambda>kv. utf16be (fst kv)) kvs)"
  by (subst sort_key_map [symmetric]) (simp add: comp_def case_prod_beta)

lemma serialize_emit: "is_json v \<Longrightarrow> serialize v = Inr (emit (canon v))"
proof (induction v rule: serialize.induct)
  case (5 xs)
  then have "mapR serialize xs = Inr (map (\<lambda>x. emit (canon x)) xs)"
    by (intro mapR_Inr_map) (simp add: are_json_iff)
  then show ?case by (simp add: emit_PList comp_def del: emit.simps)
next
  case (6 kvs)
  let ?s = "sort_key (\<lambda>kv. utf16be (fst kv)) kvs"
  have "(case x of (k, v) \<Rightarrow> bindR (serialize v) (\<lambda>s. Inr (json_string k @ '':'' @ s)))
      = Inr (json_string (fst x) @ '':'' @ emit (canon (snd x)))" if "x \<in> set ?s" for x
  proof -
    obtain k v where x: "x = (k, v)" by force
    with that 6(2) have j: "is_json v" by (auto simp: members_json_iff)
    have "serialize v = Inr (emit (canon v))" by (rule 6(1) [OF that _ j]) (simp add: x)
    then show ?thesis by (simp add: x)
  qed
  then have "mapR (\<lambda>(k, v). bindR (serialize v) (\<lambda>s. Inr (json_string k @ '':'' @ s))) ?s
      = Inr (map (\<lambda>x. json_string (fst x) @ '':'' @ emit (canon (snd x))) ?s)"
    by (rule mapR_Inr_map)
  then show ?case
    by (simp add: emit_PDict sort_key_canon comp_def case_prod_beta del: emit.simps)
qed simp_all

section \<open>Normal forms\<close>

lemma normal_is_json: "normal U v \<Longrightarrow> is_json v"
  by (induction U v rule: normal.induct)
    (auto simp: are_json_iff members_json_iff list_all_iff)

lemma normalize_normal:
  assumes "nfc_idem U"
  shows "normalize U v = Inr w \<Longrightarrow> normal U w"
    and "normalize_items U acc kvs = Inr d \<Longrightarrow> normal U (PDict acc) \<Longrightarrow> normal U (PDict d)"
  using assms
proof (induction U v and U acc kvs arbitrary: w and d rule: normalize_normalize_items.induct)
  case (7 U xs)
  then obtain ys where "w = PList ys" and ys: "mapR (normalize U) xs = Inr ys"
    by (auto simp: result_simps)
  then show ?case using 7(1) [OF _ _ 7(3)] mapR_Inr_set [OF ys] by (auto simp: list_all_iff)
next
  case (10 U acc key item kvs)
  then show ?case
    by (auto simp: result_simps Let_def nfc_idem_def is_nfc_def split: if_splits)
qed (auto simp: result_simps is_nfc_def nfc_idem_def split: if_splits)

lemma normal_normalize:
  "normal U v \<Longrightarrow> normalize U v = Inr v"
  "normal U (PDict (acc @ kvs)) \<Longrightarrow> normalize_items U acc kvs = Inr (acc @ kvs)"
proof (induction U v and U acc kvs rule: normalize_normalize_items.induct)
  case (7 U xs)
  then have "mapR (normalize U) xs = Inr (map (\<lambda>x. x) xs)"
    by (intro mapR_Inr_map) (simp add: list_all_iff)
  then show ?case by simp
next
  case (10 U acc key item kvs)
  then have "u_nfc U key = key" "key \<notin> fst ` set acc" "normal U item"
    by (auto simp: is_nfc_def)
  with 10 show ?case by simp
qed (auto simp: is_nfc_def)

lemma normalize_idem: "nfc_idem U \<Longrightarrow> normalize U v = Inr w \<Longrightarrow> normalize U w = Inr w"
  by (intro normal_normalize normalize_normal)

lemma canonical_json_bytes_Inr:
  assumes "nfc_idem U"
  shows "canonical_json_bytes U v = Inr s \<longleftrightarrow>
    (\<exists>n. normalize U v = Inr n \<and> s = emit (canon n) \<and> \<not> has_surrogate s)"
  using normalize_normal(1) [OF assms, of v] normal_is_json serialize_emit
  by (fastforce simp: canonical_json_bytes_def result_simps split: if_splits)

lemma canon_json: "is_json v \<Longrightarrow> is_json (canon v)"
  by (induction v rule: canon.induct) (auto simp: are_json_iff members_json_iff)

lemma emit_canon_inj:
  assumes "is_json a" and "is_json b" and "emit (canon a) = emit (canon b)"
  shows "canon a = canon b"
proof -
  have d: "delim []" by (simp add: delim_def)
  have "emit (canon a) @ [] = emit (canon b) @ []" using assms(3) by simp
  with emit_prefix_unique(1) [OF canon_json canon_json this d d] assms(1,2) show ?thesis by simp
qed

text \<open>
  C5: The canonical encoding is faithful. Two values that both encode get the same bytes exactly
  when their normal forms are the same JSON value once every object is ordered by member
  name: no two different values share an encoding, and the insertion order of dictionaries
  never shows.
\<close>

theorem canonical_json_faithful:
  assumes "nfc_idem U" and "canonical_json_bytes U a = Inr s" and "canonical_json_bytes U b = Inr t"
  shows "s = t \<longleftrightarrow> map_sum id canon (normalize U a) = map_sum id canon (normalize U b)"
proof -
  obtain na nb where a: "normalize U a = Inr na" "s = emit (canon na)"
    and b: "normalize U b = Inr nb" "t = emit (canon nb)"
    using assms(2,3) canonical_json_bytes_Inr [OF assms(1)] by blast
  have "is_json na" "is_json nb"
    using a b normalize_normal(1) [OF assms(1)] normal_is_json by blast+
  then show ?thesis using a b emit_canon_inj by auto
qed

theorem canonical_json_faithful_witness:
  "canonical_json_bytes ascii_unicode (PDict [(''b'', PInt 1), (''a'', PList [PNone, PBool True])])
     = Inr (''{'' @ json_string ''a'' @ '':[null,true],'' @ json_string ''b'' @ '':1}'') \<and>
   canonical_json_bytes ascii_unicode (PDict [(''a'', PList [PNone, PBool True]), (''b'', PInt 1)])
     = canonical_json_bytes ascii_unicode (PDict [(''b'', PInt 1), (''a'', PList [PNone, PBool True])])"
proof -
  let ?a = "PDict [(''b'', PInt 1), (''a'', PList [PNone, PBool True])]"
  let ?b = "PDict [(''a'', PList [PNone, PBool True]), (''b'', PInt 1)]"
  let ?s = "''{'' @ json_string ''a'' @ '':[null,true],'' @ json_string ''b'' @ '':1}''"
  have a: "canonical_json_bytes ascii_unicode ?a = Inr ?s" by code_simp
  have b: "canonical_json_bytes ascii_unicode ?b = Inr ?s" by code_simp
  have "nfc_idem ascii_unicode" using unicode_ok_ascii by (rule unicode_okD)
  from canonical_json_faithful [OF this b a] show ?thesis using a b by simp
qed

text \<open>
  Normalized content is a fixed point: whatever \<^verbatim>\<open>normalize_content\<close> returns normalizes to
  itself, which is the comparison sealing makes for every stored property, value and detail.
\<close>

theorem normalize_content_fixpoint:
  assumes "nfc_idem U" and "normalize_content U v = Inr w"
  shows "normal U w \<and> normalize_content U w = Inr w"
  using assms normalize_idem normalize_normal(1) by (auto simp: normalize_content_def)

theorem normalize_content_fixpoint_witness:
  "normal ascii_unicode (PDict [(''k'', PInt 3)]) \<and>
   normalize_content ascii_unicode (PDict [(''k'', PInt 3)]) = Inr (PDict [(''k'', PInt 3)])"
proof -
  have i: "nfc_idem ascii_unicode" using unicode_ok_ascii by (rule unicode_okD)
  have h: "normalize_content ascii_unicode (PDict [(''k'', PInt 3)]) = Inr (PDict [(''k'', PInt 3)])"
    by (simp add: normalize_content_def ascii_unicode_def)
  show ?thesis using normalize_content_fixpoint [OF i h] by simp
qed

end
