(* ===== verification/Canonical_Keys.thy ===== *)
theory Canonical_Keys
  imports Canonical_Json
begin

text \<open>
  Stable keys, predicates, content identities, the configuration hash and the producer set
  (\<^verbatim>\<open>app/intelligence/canonical.py\<close>). SHA-256 is the parameter \<open>H\<close>, from bytes to the
  lowercase hexadecimal digest; theorems about identities say what a coincidence of two
  digests would mean instead of assuming it away.
\<close>

section \<open>Model\<close>

type_synonym digest = "string \<Rightarrow> string"

definition SCHEMA_VERSION :: string where
  "SCHEMA_VERSION = ''ri.v1''"

definition unit_separator :: char where
  "unit_separator = CHR 0x1F"

definition sha256_prefixed :: "digest \<Rightarrow> string \<Rightarrow> string" where
  "sha256_prefixed H data = ''sha256:'' @ H data"

text \<open>\<^verbatim>\<open>text.encode("utf-8")\<close>\<close>

definition encode_utf8 :: "string \<Rightarrow> canon_error + string" where
  "encode_utf8 s = (if has_surrogate s then Inl UnicodeEncodeError else Inr s)"

subsection \<open>Tokens and stable keys\<close>

definition lower_char :: "char \<Rightarrow> bool" where
  "lower_char c \<longleftrightarrow> (let n = (of_char c :: int) in 97 \<le> n \<and> n \<le> 122)"

definition token_char :: "char \<Rightarrow> bool" where
  "token_char c \<longleftrightarrow> lower_char c \<or> c = CHR ''_'' \<or> (let n = (of_char c :: int) in 48 \<le> n \<and> n \<le> 57)"

definition is_token :: "string \<Rightarrow> bool" where
  "is_token s = (case s of [] \<Rightarrow> False | c # cs \<Rightarrow> lower_char c \<and> list_all token_char cs)"

definition control_char :: "char \<Rightarrow> bool" where
  "control_char c \<longleftrightarrow> (of_char c :: int) < 32"

definition normalize_stable_key :: "unicode \<Rightarrow> string \<Rightarrow> string \<Rightarrow> canon_error + string" where
  "normalize_stable_key U node_kind stable_key =
     (let kind = u_nfc U node_kind; key = u_nfc U stable_key in
      if \<not> is_token kind \<or> key = []
      then Inl (CanonicalizationError ''node kind and stable key must be non-empty canonical tokens'')
      else if unit_separator \<in> set key \<or> list_ex control_char key
      then Inl (CanonicalizationError ''stable keys cannot contain control characters'')
      else if kind = ''repository'' then
        (if key \<noteq> ''repo:root''
         then Inl (CanonicalizationError ''the repository stable key must be repo:root'')
         else Inr key)
      else if kind = ''module'' then
        (if \<not> startswith ''mod:'' key
         then Inl (CanonicalizationError ''module stable keys must start with mod:'')
         else bindR (normalize_repo_path U (drop 4 key)) (\<lambda>path. Inr (''mod:'' @ path)))
      else if kind = ''file'' then
        (if \<not> startswith ''file:'' key
         then Inl (CanonicalizationError ''file stable keys must start with file:'')
         else bindR (normalize_repo_path U (drop 5 key)) (\<lambda>path.
           if path = [] then Inl (CanonicalizationError ''file stable keys require a repository-relative path'')
           else Inr (''file:'' @ path)))
      else if kind = ''symbol'' then
        (case split_once ''::'' key of
           None \<Rightarrow> Inl (CanonicalizationError ''symbol stable keys require <path>::<qualified-name>'')
         | Some (path, qualified_name) \<Rightarrow>
             bindR (normalize_repo_path U path) (\<lambda>normalized_path.
               if normalized_path = [] \<or> qualified_name = []
               then Inl (CanonicalizationError ''symbol stable keys require a path and qualified name'')
               else Inr (normalized_path @ ''::'' @ qualified_name)))
      else if kind = ''dependency'' then
        (if \<not> startswith ''dep:'' key \<or> count_list key (CHR '':'') < 2
         then Inl (CanonicalizationError ''dependency stable keys require dep:<ecosystem>:<name>'')
         else Inr key)
      else if kind = ''service'' then
        (if \<not> startswith ''svc:'' key \<or> \<not> occurs_in ''://'' (drop 4 key)
         then Inl (CanonicalizationError ''service stable keys require svc:<scheme>://<host>[:<port>]'')
         else Inr key)
      else if kind = ''iac_resource'' then
        (if \<not> startswith ''iac:'' key
         then Inl (CanonicalizationError ''iac_resource stable keys require iac:<manifest-path>::<type>/<name>'')
         else case split_once ''::'' (drop 4 key) of
           None \<Rightarrow> Inl (CanonicalizationError ''iac_resource stable keys require iac:<manifest-path>::<type>/<name>'')
         | Some (path, qualified) \<Rightarrow>
             bindR (normalize_repo_path U path) (\<lambda>normalized_path.
               if normalized_path = [] \<or> CHR ''/'' \<notin> set qualified
               then Inl (CanonicalizationError ''iac_resource stable keys require a manifest path and <type>/<name>'')
               else Inr (''iac:'' @ normalized_path @ ''::'' @ qualified)))
      else Inr key)"

definition validate_predicate :: "unicode \<Rightarrow> string \<Rightarrow> canon_error + string" where
  "validate_predicate U predicate =
     (let normalized = u_nfc U predicate in
      if is_token normalized then Inr normalized
      else Inl (CanonicalizationError ''predicates must be lowercase snake_case tokens''))"

subsection \<open>Content identities\<close>

definition compute_edge_id :: "unicode \<Rightarrow> digest \<Rightarrow> string \<Rightarrow> string \<Rightarrow> string \<Rightarrow> canon_error + string" where
  "compute_edge_id U H subject_key predicate object_key =
     (let pre_image = join [unit_separator] [u_nfc U subject_key, u_nfc U predicate, u_nfc U object_key] in
      bindR (encode_utf8 pre_image) (\<lambda>b. Inr (''edge:'' @ sha256_prefixed H b)))"

text \<open>One evidence mapping, as \<^verbatim>\<open>Evidence.as_mapping\<close> and \<^verbatim>\<open>_evidence_dict\<close> build it.\<close>

record evidence =
  ev_path :: string
  ev_start_line :: int
  ev_end_line :: int
  ev_granularity :: string
  ev_extractor :: string
  ev_extractor_version :: string

definition identity_evidence :: "unicode \<Rightarrow> evidence \<Rightarrow> canon_error + pyval" where
  "identity_evidence U e =
     bindR (normalize_repo_path U (ev_path e)) (\<lambda>path. Inr (PDict [
       (''extractor'', PStr (ev_extractor e)),
       (''extractor_version'', PStr (ev_extractor_version e)),
       (''path'', PStr path),
       (''start_line'', PInt (ev_start_line e)),
       (''end_line'', PInt (ev_end_line e))]))"

definition opt_str :: "string option \<Rightarrow> pyval" where
  "opt_str x = (case x of None \<Rightarrow> PNone | Some s \<Rightarrow> PStr s)"

definition compute_observation_id :: "unicode \<Rightarrow> digest \<Rightarrow> string \<Rightarrow> string \<Rightarrow> string \<Rightarrow> string \<Rightarrow> string
    \<Rightarrow> string option \<Rightarrow> int \<Rightarrow> evidence \<Rightarrow> string \<Rightarrow> canon_error + string" where
  "compute_observation_id U H revision_kind revision_value observed_kind subject_kind subject_key
       referent_text ordinal ev schema_version =
     bindR (identity_evidence U ev) (\<lambda>evd.
       bindR (canonical_json_bytes U (PDict [
           (''evidence'', evd),
           (''observed_kind'', PStr observed_kind),
           (''ordinal'', PInt ordinal),
           (''referent_text'', opt_str referent_text),
           (''revision'', PDict [(''kind'', PStr revision_kind), (''value'', PStr revision_value)]),
           (''schema_version'', PStr schema_version),
           (''subject'', PDict [(''kind'', PStr subject_kind), (''stable_key'', PStr subject_key)])]))
         (\<lambda>b. Inr (''obs:'' @ sha256_prefixed H b)))"

subsection \<open>Derivation references\<close>

text \<open>A tagged reference is a mapping from strings to strings.\<close>

type_synonym reference = "(string \<times> string) list"

definition reference_rank :: "string \<Rightarrow> int option" where
  "reference_rank kind = map_of [(''observation'', 0), (''node'', 1), (''edge'', 2), (''assertion'', 3)] kind"

definition reference_identity_field :: "string \<Rightarrow> string option" where
  "reference_identity_field kind = map_of [(''observation'', ''observation_id''), (''node'', ''stable_key''),
     (''edge'', ''edge_id''), (''assertion'', ''assertion_id'')] kind"

definition reference_value :: "reference \<Rightarrow> pyval" where
  "reference_value r = PDict (map (\<lambda>(k, v). (k, PStr v)) r)"

definition pget :: "string \<Rightarrow> pyval \<Rightarrow> pyval option" where
  "pget k v = (case v of PDict kvs \<Rightarrow> map_of kvs k | _ \<Rightarrow> None)"

definition str_at :: "string \<Rightarrow> pyval \<Rightarrow> string" where
  "str_at k v = (case pget k v of Some (PStr s) \<Rightarrow> s | _ \<Rightarrow> [])"

definition int_at :: "string \<Rightarrow> pyval \<Rightarrow> int" where
  "int_at k v = (case pget k v of Some (PInt i) \<Rightarrow> i | _ \<Rightarrow> 0)"

definition dict_keys :: "pyval \<Rightarrow> string list" where
  "dict_keys v = (case v of PDict kvs \<Rightarrow> map fst kvs | _ \<Rightarrow> [])"

text \<open>One iteration of the loop of \<^verbatim>\<open>sort_derived_from\<close>: the normalized record and its bytes.\<close>

definition check_reference :: "unicode \<Rightarrow> reference \<Rightarrow> canon_error + pyval \<times> string" where
  "check_reference U r =
     bindR (normalize U (reference_value r)) (\<lambda>record.
       case reference_identity_field (str_at ''kind'' record) of
         None \<Rightarrow> Inl (CanonicalizationError ''derived_from contains an unsupported reference kind'')
       | Some identity_field \<Rightarrow>
           if set (dict_keys record) \<noteq> {''kind'', identity_field} \<or> str_at identity_field record = []
           then Inl (CanonicalizationError ''derived_from reference does not match the RFC tagged shape'')
           else bindR (canonical_json_bytes U record) (\<lambda>encoded. Inr (record, encoded)))"

definition reference_identity :: "pyval \<Rightarrow> string" where
  "reference_identity record =
     (case reference_identity_field (str_at ''kind'' record) of None \<Rightarrow> [] | Some f \<Rightarrow> str_at f record)"

definition reference_key :: "pyval \<Rightarrow> int \<times> string" where
  "reference_key record =
     ((case reference_rank (str_at ''kind'' record) of None \<Rightarrow> 0 | Some n \<Rightarrow> n), reference_identity record)"

definition sort_derived_from :: "unicode \<Rightarrow> reference list \<Rightarrow> canon_error + pyval list" where
  "sort_derived_from U references =
     bindR (mapR (check_reference U) references) (\<lambda>pairs.
       Inr (map fst (sort_key (\<lambda>(record, encoded). (reference_key record, encoded)) (dedup_by snd [] pairs))))"

definition compute_assertion_id :: "unicode \<Rightarrow> digest \<Rightarrow> string \<Rightarrow> string \<Rightarrow> string \<Rightarrow> pyval \<Rightarrow> string
    \<Rightarrow> string \<Rightarrow> string \<Rightarrow> reference list \<Rightarrow> string \<Rightarrow> canon_error + string" where
  "compute_assertion_id U H subject_kind subject_key predicate val truth_class producer producer_version
       derived_from schema_version =
     bindR (sort_derived_from U derived_from) (\<lambda>refs.
       bindR (canonical_json_bytes U (PDict [
           (''derived_from'', PList refs),
           (''predicate'', PStr predicate),
           (''producer'', PStr producer),
           (''producer_version'', PStr producer_version),
           (''schema_version'', PStr schema_version),
           (''subject'', PDict [(''kind'', PStr subject_kind), (''stable_key'', PStr subject_key)]),
           (''truth_class'', PStr truth_class),
           (''value'', val)]))
         (\<lambda>b. Inr (''assertion:'' @ sha256_prefixed H b)))"

subsection \<open>Configuration hash and producer set\<close>

text \<open>The inner \<^verbatim>\<open>prepare\<close> of \<^verbatim>\<open>compute_config_hash\<close> and its loop over a mapping.\<close>

function (sequential) prepare_config ::
    "unicode \<Rightarrow> string list \<Rightarrow> string list \<Rightarrow> pyval \<Rightarrow> string option \<Rightarrow> canon_error + pyval"
  and prepare_config_items ::
    "unicode \<Rightarrow> string list \<Rightarrow> string list \<Rightarrow> (string \<times> pyval) list \<Rightarrow> (string \<times> pyval) list
      \<Rightarrow> canon_error + (string \<times> pyval) list" where
  "prepare_config U sets paths (PDict kvs) key =
     bindR (prepare_config_items U sets paths [] kvs) (\<lambda>d. Inr (PDict d))"
| "prepare_config U sets paths (PList xs) key =
     bindR (mapR (\<lambda>x. prepare_config U sets paths x key) xs) (\<lambda>elements.
       if key \<in> Some ` set sets then bindR (set_array U elements) (\<lambda>ys. Inr (PList ys))
       else Inr (PList elements))"
| "prepare_config U sets paths (PStr s) key =
     (if key \<in> Some ` set paths then bindR (normalize_repo_path U s) (\<lambda>p. Inr (PStr p)) else Inr (PStr s))"
| "prepare_config U sets paths v key = Inr v"
| "prepare_config_items U sets paths prepared [] = Inr prepared"
| "prepare_config_items U sets paths prepared ((raw_key, val) # kvs) =
     (let normalized_key = u_nfc U raw_key in
      if normalized_key \<in> fst ` set prepared
      then Inl (CanonicalizationError ''config keys collide after Unicode normalization'')
      else bindR (prepare_config U sets paths val (Some normalized_key)) (\<lambda>w.
        prepare_config_items U sets paths (prepared @ [(normalized_key, w)]) kvs))"
  by pat_completeness auto
termination
  by (relation "measure (\<lambda>x. case x of Inl (U, ss, ps, v, k) \<Rightarrow> size v
        | Inr (U, ss, ps, acc, kvs) \<Rightarrow> size_list (size_prod (\<lambda>_. 0) size) kvs)")
    (auto intro: size_pyval_elem)

definition compute_config_hash :: "unicode \<Rightarrow> digest \<Rightarrow> (string \<times> pyval) list option \<Rightarrow> string list
    \<Rightarrow> string list \<Rightarrow> canon_error + string" where
  "compute_config_hash U H config set_array_keys path_keys =
     (case config of
        None \<Rightarrow> Inr (sha256_prefixed H ''{}'')
      | Some [] \<Rightarrow> Inr (sha256_prefixed H ''{}'')
      | Some kvs \<Rightarrow> bindR (prepare_config U set_array_keys path_keys (PDict kvs) None) (\<lambda>prepared.
          bindR (canonical_json_bytes U prepared) (\<lambda>b. Inr (sha256_prefixed H b))))"

definition normalize_producer_version_set :: "unicode \<Rightarrow> string list \<Rightarrow> canon_error + string list" where
  "normalize_producer_version_set U producers =
     mapR encode_utf8 (sort (remdups (map (u_nfc U) producers)))"

definition producer_set_hash :: "unicode \<Rightarrow> digest \<Rightarrow> string list \<Rightarrow> canon_error + string" where
  "producer_set_hash U H producers =
     bindR (normalize_producer_version_set U producers) (\<lambda>normalized.
       bindR (canonical_json_bytes U (PList (map PStr normalized))) (\<lambda>b. Inr (sha256_prefixed H b)))"

section \<open>Lemmas\<close>

lemma pget_canon: "normal U v \<Longrightarrow> pget k (canon v) = map_option canon (pget k v)"
proof (cases v)
  case (PDict kvs)
  assume "normal U v"
  then have d: "distinct (map fst kvs)" by (simp add: PDict)
  let ?m = "map (\<lambda>(k, v). (k, canon v)) kvs"
  have "map fst ?m = map fst kvs" by (simp add: comp_def case_prod_beta)
  then have "map_of (sort_key (\<lambda>kv. utf16be (fst kv)) ?m) = map_of ?m"
    using d by (metis map_of_sort_key)
  then show ?thesis by (simp add: pget_def PDict map_of_map)
qed (auto simp: pget_def)

lemma canon_atom [simp]:
  "canon v = PStr s \<longleftrightarrow> v = PStr s" "canon v = PInt i \<longleftrightarrow> v = PInt i" "canon v = PNone \<longleftrightarrow> v = PNone"
  by (cases v; simp)+

lemma str_at_canon: "normal U v \<Longrightarrow> str_at k (canon v) = str_at k v"
  by (auto simp: str_at_def pget_canon split: option.splits pyval.splits)

lemma int_at_canon: "normal U v \<Longrightarrow> int_at k (canon v) = int_at k v"
  by (auto simp: int_at_def pget_canon split: option.splits pyval.splits)

lemma startswith_drop: "startswith p s \<Longrightarrow> n = length p \<Longrightarrow> s = p @ drop n s"
  by (auto simp: startswith_iff)

text \<open>The shapes of an accepted stable key: unchanged, or with its path part normalized.\<close>

definition key_form :: "unicode \<Rightarrow> string \<Rightarrow> string \<Rightarrow> bool" where
  "key_form U key k \<longleftrightarrow> k = key \<or> (\<exists>pre path p post. key = pre @ path @ post \<and> k = pre @ p @ post
     \<and> normalize_repo_path U path = Inr p \<and> pre \<in> {[], ''mod:'', ''file:'', ''iac:''}
     \<and> (post = [] \<or> (\<exists>q. post = ''::'' @ q)))"

lemma key_formI:
  assumes "key = pre @ path @ post" "normalize_repo_path U path = Inr p"
    "pre \<in> {[], ''mod:'', ''file:'', ''iac:''}" "post = [] \<or> (\<exists>q. post = ''::'' @ q)"
  shows "key_form U key (pre @ p @ post)"
  unfolding key_form_def using assms by blast

lemma normalize_stable_key_form:
  assumes "normalize_stable_key U node_kind stable_key = Inr k"
  shows "key_form U (u_nfc U stable_key) k" and "\<forall>c \<in> set (u_nfc U stable_key). \<not> control_char c"
    and "is_token (u_nfc U node_kind)"
proof -
  let ?key = "u_nfc U stable_key" and ?kind = "u_nfc U node_kind"
  have pre: "is_token ?kind" "\<not> list_ex control_char ?key"
    using assms by (simp_all add: normalize_stable_key_def Let_def split: if_splits)
  then show "\<forall>c \<in> set ?key. \<not> control_char c" "is_token ?kind"
    by (auto simp: list_ex_iff)
  note body = assms [unfolded normalize_stable_key_def Let_def]
  consider (k_module) "?kind = ''module''" | (k_file) "?kind = ''file''" | (k_symbol) "?kind = ''symbol''"
    | (k_iac) "?kind = ''iac_resource''"
    | (k_other) "?kind \<noteq> ''module''" "?kind \<noteq> ''file''" "?kind \<noteq> ''symbol''" "?kind \<noteq> ''iac_resource''"
    by blast
  then show "key_form U ?key k"
  proof cases
    case k_module
    with body obtain p where "startswith ''mod:'' ?key" "normalize_repo_path U (drop 4 ?key) = Inr p" "k = ''mod:'' @ p"
      by (auto simp: result_simps split: if_splits)
    then show ?thesis using key_formI [of ?key "''mod:''" "drop 4 ?key" "[]"] startswith_drop [of "''mod:''" ?key 4] by simp
  next
    case k_file
    with body obtain p where "startswith ''file:'' ?key" "normalize_repo_path U (drop 5 ?key) = Inr p" "k = ''file:'' @ p"
      by (auto simp: result_simps split: if_splits)
    then show ?thesis using key_formI [of ?key "''file:''" "drop 5 ?key" "[]"] startswith_drop [of "''file:''" ?key 5] by simp
  next
    case k_symbol
    with body obtain path q p where h: "split_once ''::'' ?key = Some (path, q)" "normalize_repo_path U path = Inr p"
      "k = p @ ''::'' @ q"
      by (auto simp: result_simps split: if_splits option.splits)
    then have "?key = [] @ path @ ''::'' @ q" using split_once_Some [OF h(1)] by simp
    from key_formI [OF this h(2)] h(3) show ?thesis by simp
  next
    case k_iac
    with body obtain path q p where h: "split_once ''::'' (drop 4 ?key) = Some (path, q)" "startswith ''iac:'' ?key"
      "normalize_repo_path U path = Inr p" "k = ''iac:'' @ p @ ''::'' @ q"
      by (auto simp: result_simps split: if_splits option.splits)
    then have "?key = ''iac:'' @ path @ ''::'' @ q"
      using split_once_Some [OF h(1)] startswith_drop [OF h(2), of 4] by simp
    from key_formI [OF this h(3)] h(4) show ?thesis by simp
  next
    case k_other
    with body have "k = ?key" by (simp split: if_splits)
    then show ?thesis by (simp add: key_form_def)
  qed
qed

lemma normalize_repo_path_set:
  assumes "normalize_repo_path U raw = Inr p"
  shows "set p \<subseteq> set (u_nfc U raw) \<union> {CHR ''/''}"
proof -
  let ?t = "replace_char (CHR 0x5C) (CHR ''/'') (u_nfc U raw)"
  obtain r where p: "p = join ''/'' r" and r: "resolve_segments [] (split_char (CHR ''/'') ?t) = Inr r"
    using normalize_repo_path_segments [OF assms] by blast
  have "set s \<subseteq> set ?t" if "s \<in> set r" for s
  proof -
    have "s \<in> set (split_char (CHR ''/'') ?t)" using that resolve_segments_subset [OF r] by auto
    then show ?thesis by (rule split_char_set)
  qed
  moreover have "set ?t \<subseteq> set (u_nfc U raw) \<union> {CHR ''/''}" by (auto simp: replace_char_def)
  ultimately show ?thesis using set_join [of "''/''" r] unfolding p by fastforce
qed

lemma is_nfc_pre:
  assumes "unicode_ok U" and "pre \<in> {[], ''mod:'', ''file:'', ''iac:''}"
  shows "is_nfc U (pre @ s) \<longleftrightarrow> is_nfc U s"
proof -
  have "is_nfc U x" if "ascii x" for x
    using that unicode_okD(2) [OF assms(1)] by (simp add: is_nfc_def nfc_ascii_def)
  then have "is_nfc U ''mod''" "is_nfc U ''file''" "is_nfc U ''iac''" by (simp_all add: ascii_def)
  moreover have "is_nfc U (a @ '':'' @ s) \<longleftrightarrow> is_nfc U a \<and> is_nfc U s" for a
    using unicode_okD(4) [OF assms(1)] by (simp add: nfc_splits_def)
  ultimately show ?thesis
    using assms(2) by (elim insertE emptyE) (metis append.assoc append_Cons append_Nil)+
qed

lemma is_nfc_post:
  assumes "unicode_ok U" shows "is_nfc U (p @ ''::'' @ q) \<longleftrightarrow> is_nfc U p \<and> is_nfc U q"
proof -
  have sp: "is_nfc U (a @ CHR '':'' # b) \<longleftrightarrow> is_nfc U a \<and> is_nfc U b" for a b
    using unicode_okD(4) [OF assms] by (simp add: nfc_splits_def)
  have "is_nfc U []" using unicode_okD(2) [OF assms] by (simp add: is_nfc_def nfc_ascii_def ascii_def)
  then show ?thesis using sp [of p "CHR '':'' # q"] sp [of "[]" q] by simp
qed

lemma stable_key_clean:
  assumes "unicode_ok U" and "normalize_stable_key U node_kind stable_key = Inr k"
  shows "is_nfc U k" and "\<forall>c \<in> set k. \<not> control_char c"
proof -
  let ?key = "u_nfc U stable_key"
  have nkey: "is_nfc U ?key" using unicode_okD(1) [OF assms(1)] by (simp add: is_nfc_def nfc_idem_def)
  note form = normalize_stable_key_form [OF assms(2)]
  have "is_nfc U k \<and> (\<forall>c \<in> set k. \<not> control_char c)"
  proof (cases "k = ?key")
    case True
    then show ?thesis using nkey form(2) by simp
  next
    case False
    then obtain pre path p post where f: "?key = pre @ path @ post" "k = pre @ p @ post"
      "normalize_repo_path U path = Inr p" "pre \<in> {[], ''mod:'', ''file:'', ''iac:''}"
      "post = [] \<or> (\<exists>q. post = ''::'' @ q)"
      using form(1) unfolding key_form_def by blast
    have "is_nfc U (path @ post)" using nkey is_nfc_pre [OF assms(1) f(4)] f(1) by simp
    then have path: "is_nfc U path" and post: "\<And>x. is_nfc U x \<Longrightarrow> is_nfc U (x @ post)"
      using f(5) is_nfc_post [OF assms(1)] by auto
    have "is_nfc U p" by (rule normalize_repo_path_nfc [OF assms(1) f(3)])
    then have "is_nfc U k" using post is_nfc_pre [OF assms(1) f(4)] by (simp add: f(2))
    moreover have "set p \<subseteq> set path \<union> {CHR ''/''}"
      using normalize_repo_path_set [OF f(3)] path by (simp add: is_nfc_def)
    moreover have "\<not> control_char (CHR ''/'')" by (simp add: control_char_def)
    ultimately show ?thesis using form(2) f(1,2) by auto
  qed
  then show "is_nfc U k" and "\<forall>c \<in> set k. \<not> control_char c" by simp_all
qed

text \<open>A field separator that does not occur in the fields makes the joined text unambiguous.\<close>

lemma join_sep_inj:
  assumes "join [c] xs = join [c] ys" and "\<forall>x \<in> set xs \<union> set ys. c \<notin> set x" and "xs \<noteq> []" and "ys \<noteq> []"
  shows "xs = ys"
  using assms by (metis UnCI split_join)

lemma token_clean: "is_token s \<Longrightarrow> unit_separator \<notin> set s"
proof -
  have "\<not> token_char unit_separator" "\<not> lower_char unit_separator" by code_simp+
  then show "is_token s \<Longrightarrow> unit_separator \<notin> set s"
    unfolding is_token_def list_all_iff by (cases s) (simp_all, blast)
qed

section \<open>Properties\<close>

text \<open>
  An accepted stable key is in NFC and holds no control character, in particular not the
  unit separator that \<^verbatim>\<open>compute_edge_id\<close> puts between its fields.
\<close>

theorem stable_key_accepted_clean:
  assumes "unicode_ok U" and "normalize_stable_key U node_kind stable_key = Inr k"
  shows "is_nfc U k \<and> unit_separator \<notin> set k \<and> (\<forall>c. c \<in> set k \<longrightarrow> \<not> control_char c)"
  using stable_key_clean [OF assms] by (auto simp: unit_separator_def control_char_def)

theorem stable_key_accepted_clean_witness:
  "normalize_stable_key ascii_unicode ''symbol'' ''src/./app.py::Main.run'' = Inr ''src/app.py::Main.run'' \<and>
   is_nfc ascii_unicode ''src/app.py::Main.run'' \<and> unit_separator \<notin> set ''src/app.py::Main.run''"
proof -
  have h: "normalize_stable_key ascii_unicode ''symbol'' ''src/./app.py::Main.run'' = Inr ''src/app.py::Main.run''"
    by code_simp
  show ?thesis using h stable_key_accepted_clean [OF unicode_ok_ascii h] by blast
qed

text \<open>
  Edge identities do not confuse relationships: if two triples of accepted keys and
  predicates get the same edge id, they are the same triple, or the digest function maps two
  different byte strings to one value.
\<close>

theorem edge_id_injective:
  assumes "unicode_ok U"
    and "normalize_stable_key U sk s0 = Inr s" and "validate_predicate U p0 = Inr p"
    and "normalize_stable_key U ok o0 = Inr t"
    and "normalize_stable_key U sk' s0' = Inr s'" and "validate_predicate U p0' = Inr p'"
    and "normalize_stable_key U ok' o0' = Inr t'"
    and "compute_edge_id U H s p t = Inr i" and "compute_edge_id U H s' p' t' = Inr i"
  shows "(s, p, t) = (s', p', t') \<or> (\<exists>m m'. m \<noteq> m' \<and> H m = H m')"
proof -
  let ?m = "join [unit_separator] [s, p, t]" and ?m' = "join [unit_separator] [s', p', t']"
  have pred: "u_nfc U q = q \<and> unit_separator \<notin> set q" if "validate_predicate U q0 = Inr q" for q q0
    using that unicode_okD(1) [OF assms(1)] token_clean
    by (auto simp: validate_predicate_def Let_def nfc_idem_def split: if_splits)
  have key: "u_nfc U k = k \<and> unit_separator \<notin> set k" if "normalize_stable_key U nk k0 = Inr k" for nk k0 k
    using stable_key_clean [OF assms(1) that]
    by (auto simp: is_nfc_def unit_separator_def control_char_def)
  note facts = key [OF assms(2)] pred [OF assms(3)] key [OF assms(4)]
    key [OF assms(5)] pred [OF assms(6)] key [OF assms(7)]
  have "i = ''edge:sha256:'' @ H ?m" "i = ''edge:sha256:'' @ H ?m'"
    using assms(8,9) facts
    by (simp_all add: compute_edge_id_def Let_def sha256_prefixed_def encode_utf8_def split: if_splits)
  then have "H ?m = H ?m'" by simp
  moreover have "[s, p, t] = [s', p', t']" if "?m = ?m'"
    by (rule join_sep_inj [OF that]) (use facts in auto)
  ultimately show ?thesis by blast
qed

theorem edge_id_injective_witness:
  "compute_edge_id ascii_unicode id ''file:a.py'' ''imports'' ''file:b.py''
     = Inr (''edge:sha256:file:a.py'' @ [unit_separator] @ ''imports'' @ [unit_separator] @ ''file:b.py'') \<and>
   (''file:a.py'', ''imports'', ''file:b.py'') = (''file:a.py'', ''imports'', ''file:b.py'')"
proof -
  have a: "normalize_stable_key ascii_unicode ''file'' ''file:./a.py'' = Inr ''file:a.py''" by code_simp
  have b: "normalize_stable_key ascii_unicode ''file'' ''file:b.py'' = Inr ''file:b.py''" by code_simp
  have p: "validate_predicate ascii_unicode ''imports'' = Inr ''imports''" by code_simp
  have e: "compute_edge_id ascii_unicode id ''file:a.py'' ''imports'' ''file:b.py''
     = Inr (''edge:sha256:file:a.py'' @ [unit_separator] @ ''imports'' @ [unit_separator] @ ''file:b.py'')"
    by code_simp
  from edge_id_injective [OF unicode_ok_ascii a p b a p b e e] e show ?thesis by simp
qed

text \<open>
  The keys of file nodes are stable: a key that was accepted, and whose path has no drive
  prefix, is accepted again and unchanged, so the re-validation at sealing time accepts
  what \<^verbatim>\<open>add_node\<close> stored.
\<close>

theorem file_key_idempotent:
  assumes "unicode_ok U" and "normalize_stable_key U ''file'' stable_key = Inr k"
    and "\<not> has_drive U (drop 5 k)"
  shows "normalize_stable_key U ''file'' k = Inr k"
proof -
  have tok: "u_nfc U ''file'' = ''file''" "is_token ''file''"
    using unicode_okD(2) [OF assms(1)] by (simp add: nfc_ascii_def ascii_def) code_simp
  obtain p where p: "normalize_repo_path U (drop 5 (u_nfc U stable_key)) = Inr p" "k = ''file:'' @ p" "p \<noteq> []"
    using assms(2) by (auto simp: normalize_stable_key_def Let_def tok result_simps split: if_splits)
  have "normalize_repo_path U p = Inr p"
  proof (rule normalize_repo_path_id)
    show "repo_path p" by (rule normalize_repo_path_repo_path [OF p(1)])
    show "u_nfc U p = p" using normalize_repo_path_nfc [OF assms(1) p(1)] by (simp add: is_nfc_def)
    show "\<not> has_drive U p" using assms(3) p(2) by simp
  qed
  moreover have "u_nfc U k = k" "\<not> list_ex control_char k" "unit_separator \<notin> set k"
    using stable_key_clean [OF assms(1,2)]
    by (auto simp: is_nfc_def list_ex_iff unit_separator_def control_char_def)
  ultimately show ?thesis
    using p(2,3) tok by (simp add: normalize_stable_key_def Let_def)
qed

theorem file_key_idempotent_witness:
  "normalize_stable_key ascii_unicode ''file'' ''file:src//m.py'' = Inr ''file:src/m.py'' \<and>
   normalize_stable_key ascii_unicode ''file'' ''file:src/m.py'' = Inr ''file:src/m.py''"
proof -
  have h: "normalize_stable_key ascii_unicode ''file'' ''file:src//m.py'' = Inr ''file:src/m.py''" by code_simp
  have "\<not> has_drive ascii_unicode (drop 5 ''file:src/m.py'')" by code_simp
  then show ?thesis using h file_key_idempotent [OF unicode_ok_ascii h] by simp
qed

end
