(* ===== verification/Canonical_Graph.thy ===== *)
theory Canonical_Graph
  imports Canonical_Keys
begin

text \<open>
  Canonical record builders, the total order of records, consolidation of edges and the
  canonical graph hash (\<^verbatim>\<open>app/intelligence/canonical.py\<close>). The main result is that the order in
  which facts were inserted does not reach the hash.
\<close>

section \<open>Model\<close>

subsection \<open>Inputs\<close>

text \<open>The mappings \<^verbatim>\<open>SnapshotStore._compute_hash\<close> builds, one record type per kind of fact.\<close>

record node_input =
  ni_node_kind :: string
  ni_stable_key :: string
  ni_truth_class :: string
  ni_name :: "string option"
  ni_language :: "string option"
  ni_properties :: "(string \<times> pyval) list option"
  ni_evidence :: "evidence list"

record edge_input =
  ei_edge_id :: string
  ei_subject_kind :: string
  ei_subject_key :: string
  ei_predicate :: string
  ei_object_kind :: string
  ei_object_key :: string
  ei_truth_class :: string
  ei_producer :: string
  ei_producer_version :: string
  ei_evidence :: "evidence list"
  ei_derived_from :: "reference list"

record assertion_input =
  ai_assertion_id :: string
  ai_subject_kind :: string
  ai_subject_key :: string
  ai_predicate :: string
  ai_value :: pyval
  ai_truth_class :: string
  ai_producer :: string
  ai_producer_version :: string
  ai_derived_from :: "reference list"

record observation_input =
  oi_observation_id :: string
  oi_observed_kind :: string
  oi_subject_kind :: string
  oi_subject_key :: string
  oi_referent_text :: "string option"
  oi_ordinal :: int
  oi_evidence :: evidence

record diagnostic_input =
  di_code :: string
  di_category :: string
  di_severity :: string
  di_message :: string
  di_producer :: string
  di_path :: "string option"
  di_span :: "(int \<times> int) option"
  di_subject :: "string option"
  di_object :: "string option"
  di_details :: "(string \<times> pyval) list option"

subsection \<open>Ordering\<close>

definition canonical_evidence_record :: "unicode \<Rightarrow> evidence \<Rightarrow> canon_error + pyval" where
  "canonical_evidence_record U e =
     bindR (normalize_repo_path U (ev_path e)) (\<lambda>path. Inr (PDict [
       (''path'', PStr path),
       (''start_line'', PInt (ev_start_line e)),
       (''end_line'', PInt (ev_end_line e)),
       (''granularity'', PStr (if ev_granularity e = [] then ''span'' else ev_granularity e)),
       (''extractor'', PStr (ev_extractor e)),
       (''extractor_version'', PStr (ev_extractor_version e))]))"

text \<open>One iteration of \<^verbatim>\<open>_order_records\<close>: the normalized record with its bytes.\<close>

definition prepare_record :: "unicode \<Rightarrow> pyval \<Rightarrow> canon_error + pyval \<times> string" where
  "prepare_record U record =
     bindR (normalize U record) (\<lambda>prepared.
       bindR (canonical_json_bytes U prepared) (\<lambda>encoded. Inr (prepared, encoded)))"

definition order_records :: "unicode \<Rightarrow> (pyval \<Rightarrow> 'k::linorder) \<Rightarrow> pyval list \<Rightarrow> canon_error + pyval list" where
  "order_records U key records =
     bindR (mapR (prepare_record U) records) (\<lambda>pairs.
       Inr (map fst (sort_key (\<lambda>(record, encoded). (key record, encoded)) (dedup_by snd [] pairs))))"

definition evidence_key :: "pyval \<Rightarrow> string \<times> int \<times> int \<times> string \<times> string \<times> string" where
  "evidence_key r = (str_at ''path'' r, int_at ''start_line'' r, int_at ''end_line'' r,
     str_at ''granularity'' r, str_at ''extractor'' r, str_at ''extractor_version'' r)"

definition order_evidence :: "unicode \<Rightarrow> evidence list \<Rightarrow> canon_error + pyval list" where
  "order_evidence U es =
     bindR (mapR (canonical_evidence_record U) es) (\<lambda>prepared. order_records U evidence_key prepared)"

text \<open>
  \<^verbatim>\<open>order_evidence\<close> again, on records that are already canonical (the union of two evidence
  lists): each goes through \<^verbatim>\<open>canonical_evidence_record\<close> a second time.
\<close>

definition evidence_of_record :: "pyval \<Rightarrow> evidence" where
  "evidence_of_record r = \<lparr> ev_path = str_at ''path'' r, ev_start_line = int_at ''start_line'' r,
     ev_end_line = int_at ''end_line'' r, ev_granularity = str_at ''granularity'' r,
     ev_extractor = str_at ''extractor'' r, ev_extractor_version = str_at ''extractor_version'' r \<rparr>"

definition reference_of_record :: "pyval \<Rightarrow> reference" where
  "reference_of_record r = map (\<lambda>k. (k, str_at k r)) (dict_keys r)"

subsection \<open>Record builders\<close>

definition some_entry :: "string \<Rightarrow> string option \<Rightarrow> (string \<times> pyval) list" where
  "some_entry k x = (case x of None \<Rightarrow> [] | Some s \<Rightarrow> [(k, PStr s)])"

definition canonical_node_record :: "unicode \<Rightarrow> string \<Rightarrow> node_input \<Rightarrow> canon_error + pyval" where
  "canonical_node_record U schema_version n =
     bindR (order_evidence U (ni_evidence n)) (\<lambda>evs. Inr (PDict ([
       (''kind'', PStr ''node''),
       (''node_kind'', PStr (ni_node_kind n)),
       (''stable_key'', PStr (ni_stable_key n)),
       (''truth_class'', PStr (ni_truth_class n)),
       (''schema_version'', PStr schema_version),
       (''evidence'', PList evs)]
      @ some_entry ''name'' (ni_name n)
      @ some_entry ''language'' (ni_language n)
      @ (case ni_properties n of None \<Rightarrow> [] | Some [] \<Rightarrow> [] | Some p \<Rightarrow> [(''properties'', PDict p)]))))"

definition subject_record :: "string \<Rightarrow> string \<Rightarrow> pyval" where
  "subject_record kind key = PDict [(''kind'', PStr kind), (''stable_key'', PStr key)]"

text \<open>An edge record before and after it becomes a mapping; consolidation updates two fields.\<close>

record edge_record =
  er_input :: edge_input
  er_evidence :: "pyval list"
  er_derived_from :: "pyval list"

definition canonical_edge_record :: "unicode \<Rightarrow> edge_input \<Rightarrow> canon_error + edge_record" where
  "canonical_edge_record U e =
     bindR (order_evidence U (ei_evidence e)) (\<lambda>evs.
       bindR (sort_derived_from U (ei_derived_from e)) (\<lambda>refs.
         Inr \<lparr> er_input = e, er_evidence = evs, er_derived_from = refs \<rparr>))"

definition edge_record_value :: "string \<Rightarrow> edge_record \<Rightarrow> pyval" where
  "edge_record_value schema_version r = (let e = er_input r in PDict [
     (''kind'', PStr ''edge''),
     (''edge_id'', PStr (ei_edge_id e)),
     (''subject'', subject_record (ei_subject_kind e) (ei_subject_key e)),
     (''predicate'', PStr (ei_predicate e)),
     (''object'', subject_record (ei_object_kind e) (ei_object_key e)),
     (''truth_class'', PStr (ei_truth_class e)),
     (''producer'', PStr (ei_producer e)),
     (''producer_version'', PStr (ei_producer_version e)),
     (''evidence'', PList (er_evidence r)),
     (''derived_from'', PList (er_derived_from r)),
     (''schema_version'', PStr schema_version)])"

definition canonical_assertion_record :: "unicode \<Rightarrow> string \<Rightarrow> assertion_input \<Rightarrow> canon_error + pyval" where
  "canonical_assertion_record U schema_version a =
     bindR (sort_derived_from U (ai_derived_from a)) (\<lambda>refs. Inr (PDict [
       (''kind'', PStr ''assertion''),
       (''assertion_id'', PStr (ai_assertion_id a)),
       (''subject'', subject_record (ai_subject_kind a) (ai_subject_key a)),
       (''predicate'', PStr (ai_predicate a)),
       (''value'', ai_value a),
       (''truth_class'', PStr (ai_truth_class a)),
       (''producer'', PStr (ai_producer a)),
       (''producer_version'', PStr (ai_producer_version a)),
       (''derived_from'', PList refs),
       (''schema_version'', PStr schema_version)]))"

definition canonical_observation_record :: "unicode \<Rightarrow> observation_input \<Rightarrow> canon_error + pyval" where
  "canonical_observation_record U obs =
     bindR (canonical_evidence_record U (oi_evidence obs)) (\<lambda>ev. Inr (PDict [
       (''observation_id'', PStr (oi_observation_id obs)),
       (''observed_kind'', PStr (oi_observed_kind obs)),
       (''subject'', subject_record (oi_subject_kind obs) (oi_subject_key obs)),
       (''referent_text'', opt_str (oi_referent_text obs)),
       (''ordinal'', PInt (oi_ordinal obs)),
       (''evidence'', ev)]))"

definition canonical_diagnostic_record :: "unicode \<Rightarrow> diagnostic_input \<Rightarrow> canon_error + pyval" where
  "canonical_diagnostic_record U d =
     bindR (case di_path d of None \<Rightarrow> Inr PNone
              | Some p \<Rightarrow> bindR (normalize_repo_path U p) (\<lambda>q. Inr (PStr q))) (\<lambda>path. Inr (PDict [
       (''code'', PStr (di_code d)),
       (''category'', PStr (di_category d)),
       (''severity'', PStr (di_severity d)),
       (''message'', PStr (di_message d)),
       (''producer'', PStr (di_producer d)),
       (''path'', path),
       (''span'', (case di_span d of None \<Rightarrow> PNone
          | Some (a, b) \<Rightarrow> PDict [(''start_line'', PInt a), (''end_line'', PInt b)])),
       (''subject'', opt_str (di_subject d)),
       (''object'', opt_str (di_object d)),
       (''details'', PDict (case di_details d of None \<Rightarrow> [] | Some kvs \<Rightarrow> kvs))]))"

subsection \<open>Consolidation of edges\<close>

type_synonym triple = "string \<times> string \<times> string"

definition edge_triple :: "edge_input \<Rightarrow> triple" where
  "edge_triple e = (ei_subject_key e, ei_predicate e, ei_object_key e)"

definition merge_edge :: "unicode \<Rightarrow> edge_record \<Rightarrow> edge_record \<Rightarrow> canon_error + edge_record" where
  "merge_edge U existing record =
     (let e = er_input existing; r = er_input record in
      if ei_edge_id e \<noteq> ei_edge_id r \<or> ei_truth_class e \<noteq> ei_truth_class r
         \<or> ei_producer e \<noteq> ei_producer r \<or> ei_producer_version e \<noteq> ei_producer_version r
      then Inl (CanonicalizationError ''inconsistent edge field for duplicate triple'')
      else bindR (order_evidence U (map evidence_of_record (er_evidence existing @ er_evidence record))) (\<lambda>evs.
        bindR (sort_derived_from U (map reference_of_record (er_derived_from existing @ er_derived_from record))) (\<lambda>refs.
          Inr (existing\<lparr>er_evidence := evs, er_derived_from := refs\<rparr>))))"

fun consolidate_loop :: "unicode \<Rightarrow> (triple \<times> edge_record) list \<Rightarrow> edge_input list
    \<Rightarrow> canon_error + (triple \<times> edge_record) list" where
  "consolidate_loop U grouped [] = Inr grouped"
| "consolidate_loop U grouped (e # es) =
     bindR (canonical_edge_record U e) (\<lambda>record.
       case map_of grouped (edge_triple e) of
         None \<Rightarrow> consolidate_loop U (grouped @ [(edge_triple e, record)]) es
       | Some existing \<Rightarrow> bindR (merge_edge U existing record) (\<lambda>merged.
           consolidate_loop U (AList.update (edge_triple e) merged grouped) es))"

definition consolidate_edges :: "unicode \<Rightarrow> string \<Rightarrow> edge_input list \<Rightarrow> canon_error + pyval list" where
  "consolidate_edges U schema_version edges =
     bindR (consolidate_loop U [] edges) (\<lambda>grouped. Inr (map (\<lambda>g. edge_record_value schema_version (snd g)) grouped))"

subsection \<open>The graph hash\<close>

definition node_key :: "pyval \<Rightarrow> string" where
  "node_key r = str_at ''stable_key'' r"

definition nested :: "string \<Rightarrow> pyval \<Rightarrow> pyval" where
  "nested k r = (case pget k r of None \<Rightarrow> PNone | Some v \<Rightarrow> v)"

definition edge_key :: "pyval \<Rightarrow> string \<times> string \<times> string" where
  "edge_key r = (str_at ''stable_key'' (nested ''subject'' r), str_at ''predicate'' r,
     str_at ''stable_key'' (nested ''object'' r))"

definition assertion_key :: "pyval \<Rightarrow> string \<times> string \<times> string" where
  "assertion_key r = (str_at ''stable_key'' (nested ''subject'' r), str_at ''predicate'' r, str_at ''assertion_id'' r)"

definition observation_key :: "pyval \<Rightarrow> string" where
  "observation_key r = str_at ''observation_id'' r"

text \<open>
  The key reads the details as text: \<^verbatim>\<open>canonical_json_bytes(...).decode()\<close>, which cannot fail on a
  record whose own bytes have been computed.
\<close>

definition diagnostic_key :: "unicode \<Rightarrow> pyval \<Rightarrow> string \<times> string \<times> string \<times> string \<times> int \<times> int \<times> string
    \<times> string \<times> string \<times> string \<times> string" where
  "diagnostic_key U r = (str_at ''code'' r, str_at ''category'' r, str_at ''severity'' r, str_at ''path'' r,
     int_at ''start_line'' (nested ''span'' r), int_at ''end_line'' (nested ''span'' r),
     str_at ''producer'' r, str_at ''subject'' r, str_at ''object'' r, str_at ''message'' r,
     (case canonical_json_bytes U (nested ''details'' r) of Inl _ \<Rightarrow> [] | Inr s \<Rightarrow> s))"

definition compute_canonical_graph_hash :: "unicode \<Rightarrow> digest \<Rightarrow> string \<Rightarrow> string \<Rightarrow> string list \<Rightarrow> string
    \<Rightarrow> node_input list \<Rightarrow> edge_input list \<Rightarrow> assertion_input list \<Rightarrow> observation_input list
    \<Rightarrow> diagnostic_input list \<Rightarrow> string \<Rightarrow> canon_error + string" where
  "compute_canonical_graph_hash U H revision_kind revision_value producer_version_set config_hash
       nodes edges assertions observations diagnostics schema_version =
     bindR (bindR (mapR (canonical_node_record U schema_version) nodes) (order_records U node_key)) (\<lambda>node_records.
     bindR (bindR (consolidate_edges U schema_version edges) (order_records U edge_key)) (\<lambda>edge_records.
     bindR (bindR (mapR (canonical_assertion_record U schema_version) assertions) (order_records U assertion_key)) (\<lambda>assertion_records.
     bindR (bindR (mapR (canonical_observation_record U) observations) (order_records U observation_key)) (\<lambda>observation_records.
     bindR (bindR (mapR (canonical_diagnostic_record U) diagnostics) (order_records U (diagnostic_key U))) (\<lambda>diagnostic_records.
     bindR (normalize_producer_version_set U producer_version_set) (\<lambda>producers.
     bindR (canonical_json_bytes U (PDict [
         (''schema_version'', PStr schema_version),
         (''revision'', PDict [(''kind'', PStr revision_kind), (''value'', PStr revision_value)]),
         (''producer_version_set'', PList (map PStr producers)),
         (''config_hash'', PStr config_hash),
         (''nodes'', PList node_records),
         (''edges'', PList edge_records),
         (''assertions'', PList assertion_records),
         (''observations'', PList observation_records),
         (''diagnostics'', PList diagnostic_records)])) (\<lambda>b.
       Inr (sha256_prefixed H b))))))))"

section \<open>Canonical order\<close>

text \<open>The JSON value a record stands for.\<close>

definition jval :: "unicode \<Rightarrow> pyval \<Rightarrow> pyval" where
  "jval U r = canon (projr (normalize U r))"

text \<open>A sort key that only looks at the JSON value, not at the order of members.\<close>

definition value_key :: "unicode \<Rightarrow> (pyval \<Rightarrow> 'k) \<Rightarrow> bool" where
  "value_key U key \<longleftrightarrow> (\<forall>v. normal U v \<longrightarrow> key (canon v) = key v)"

abbreviation sort_tuple :: "(pyval \<Rightarrow> 'k) \<Rightarrow> pyval \<Rightarrow> 'k \<times> string" where
  "sort_tuple key v \<equiv> (key v, emit v)"

text \<open>
  What \<^verbatim>\<open>_order_records\<close> promises: no JSON value twice, none lost, none made up, in the order
  of the semantic key with the canonical bytes as the last word.
\<close>

definition canonically_ordered :: "unicode \<Rightarrow> (pyval \<Rightarrow> 'k::linorder) \<Rightarrow> pyval list \<Rightarrow> pyval list \<Rightarrow> bool" where
  "canonically_ordered U key rs out \<longleftrightarrow> distinct (map canon out) \<and> canon ` set out = jval U ` set rs
     \<and> sorted (map (sort_tuple key) (map canon out)) \<and> (\<forall>p \<in> set out. normal U p)"

lemma prepare_record_Inr:
  assumes "nfc_idem U"
  shows "prepare_record U r = Inr (p, e) \<longleftrightarrow> normalize U r = Inr p \<and> e = emit (canon p) \<and> \<not> has_surrogate e"
  using canonical_json_bytes_Inr [OF assms] normalize_idem [OF assms, of r]
  by (auto simp: prepare_record_def result_simps)

lemma emit_canon_inj_on: "inj_on emit (canon ` {v. is_json v})"
  by (rule inj_onI) (auto dest: emit_canon_inj)

lemma prepare_records_jval:
  assumes U: "nfc_idem U" and ps: "mapR (prepare_record U) rs = Inr ps"
  shows "snd ` set ps = emit ` jval U ` set rs" and "jval U ` set rs \<subseteq> canon ` {v. is_json v}"
proof -
  have pr: "snd x = emit (jval U r) \<and> jval U r \<in> canon ` {v. is_json v}"
    if eq: "prepare_record U r = Inr x" for r x
  proof -
    obtain p e where x: "x = (p, e)" by force
    have n: "normalize U r = Inr p" "e = emit (canon p)"
      using eq unfolding x by (simp_all add: prepare_record_Inr [OF U])
    then have "is_json p" using normalize_normal(1) [OF U] normal_is_json by blast
    with n show ?thesis by (simp add: x jval_def)
  qed
  have "list_all2 (\<lambda>r x. prepare_record U r = Inr x) rs ps" using ps by (simp add: mapR_Inr)
  then have "map snd ps = map (\<lambda>r. emit (jval U r)) rs \<and> jval U ` set rs \<subseteq> canon ` {v. is_json v}"
    by (induction rule: list_all2_induct) (simp_all add: pr)
  then have "map snd ps = map (\<lambda>r. emit (jval U r)) rs" and sub: "jval U ` set rs \<subseteq> canon ` {v. is_json v}"
    by simp_all
  from this(1) show "snd ` set ps = emit ` jval U ` set rs" by (metis image_image list.set_map)
  from sub show "jval U ` set rs \<subseteq> canon ` {v. is_json v}" .
qed

lemma order_records_spec:
  assumes U: "nfc_idem U" and key: "value_key U key" and ok: "order_records U key rs = Inr out"
  shows "canonically_ordered U key rs out"
proof -
  obtain ps where ps: "mapR (prepare_record U) rs = Inr ps"
    and out: "out = map fst (sort_key (\<lambda>(r, e). (key r, e)) (dedup_by snd [] ps))"
    using ok by (auto simp: order_records_def result_simps)
  let ?D = "dedup_by snd [] ps" and ?F = "\<lambda>(r, e). (key r, e)"
  have pair: "normal U (fst x) \<and> snd x = emit (canon (fst x))" if xin: "x \<in> set ps" for x
  proof -
    obtain r where r: "prepare_record U r = Inr x" using xin mapR_Inr_set [OF ps, of x] by blast
    obtain p e where x: "x = (p, e)" by force
    show ?thesis using r normalize_normal(1) [OF U, of r p] unfolding x by (auto simp: prepare_record_Inr [OF U])
  qed
  have inD: "x \<in> set ps" if "x \<in> set ?D" for x using that by (rule dedup_by_subset)
  have outD: "set out = fst ` set ?D" by (simp add: out)
  have normal_out: "\<forall>p \<in> set out. normal U p" using pair inD outD by auto
  have emits: "map emit (map canon out) = map snd (sort_key ?F ?D)"
    unfolding out using pair inD by simp
  have dist: "distinct (map canon out)"
  proof -
    have "distinct (map snd (sort_key ?F ?D))"
      using dedup_by_distinct [of snd "[]" ps] by (simp add: distinct_map)
    then have "distinct (map emit (map canon out))" by (simp only: emits)
    then show ?thesis by (metis distinct_map)
  qed
  have vals: "canon ` set out = jval U ` set rs"
  proof -
    have "emit ` canon ` set out = snd ` set ?D"
      using emits by (metis list.set_map set_sort)
    also have "\<dots> = snd ` set ps" using dedup_by_keys [of snd "[]" ps] by simp
    also have "\<dots> = emit ` jval U ` set rs" using prepare_records_jval(1) [OF U ps] .
    finally have eq: "emit ` (canon ` set out) = emit ` (jval U ` set rs)" .
    have "canon ` set out \<subseteq> canon ` {v. is_json v}" using normal_out normal_is_json by blast
    then show ?thesis
      using eq emit_canon_inj_on prepare_records_jval(2) [OF U ps] by (metis inj_on_image_eq_iff)
  qed
  have "normal U (fst x) \<and> emit (canon (fst x)) = snd x" if "x \<in> set ?D" for x
    using pair [OF inD [OF that]] by simp
  then have "map (sort_tuple key) (map canon out) = map ?F (sort_key ?F ?D)"
    unfolding out using key by (simp add: value_key_def case_prod_beta)
  then have "sorted (map (sort_tuple key) (map canon out))" by simp
  with dist vals normal_out show ?thesis by (simp add: canonically_ordered_def)
qed

text \<open>The promise determines the result up to the order of members.\<close>

lemma canonically_ordered_unique:
  assumes "canonically_ordered U key rs out" and "canonically_ordered U key rs' out'"
    and "jval U ` set rs = jval U ` set rs'"
  shows "map canon out = map canon out'"
proof -
  let ?f = "sort_tuple key"
  have set_eq: "set (map canon out) = set (map canon out')"
    using assms by (simp add: canonically_ordered_def)
  have "\<forall>p \<in> set out. is_json p"
    using assms(1) normal_is_json by (auto simp: canonically_ordered_def)
  then have sub: "set (map canon out) \<subseteq> canon ` {v. is_json v}" by auto
  have inj: "inj_on ?f (set (map canon out))"
    using inj_on_subset [OF emit_canon_inj_on sub] by (auto simp: inj_on_def)
  have "map ?f (map canon out) = map ?f (map canon out')"
  proof (rule sorted_distinct_set_unique)
    show "distinct (map ?f (map canon out))"
      using assms(1) inj by (simp add: canonically_ordered_def distinct_map del: map_map)
    show "distinct (map ?f (map canon out'))"
      using assms(2) inj set_eq by (simp add: canonically_ordered_def distinct_map del: map_map)
    show "set (map ?f (map canon out)) = set (map ?f (map canon out'))"
      using set_eq by (metis list.set_map)
  qed (use assms(1,2) in \<open>simp_all add: canonically_ordered_def\<close>)
  then show ?thesis
    by (rule map_inj_on) (use inj set_eq in simp)
qed

lemma order_records_succeeds:
  assumes U: "nfc_idem U" and ok: "order_records U key rs = Inr out"
    and norm: "\<forall>r \<in> set rs'. \<exists>p. normalize U r = Inr p" and sub: "jval U ` set rs' \<subseteq> jval U ` set rs"
  shows "\<exists>out'. order_records U key rs' = Inr out'"
proof -
  obtain ps where ps: "mapR (prepare_record U) rs = Inr ps"
    using ok by (auto simp: order_records_def result_simps)
  have "\<exists>y. prepare_record U r' = Inr y" if r': "r' \<in> set rs'" for r'
  proof -
    obtain p' where p': "normalize U r' = Inr p'" using norm r' by blast
    have "jval U r' \<in> jval U ` set rs" using sub r' by blast
    then obtain r where r: "r \<in> set rs" "jval U r = jval U r'" by (metis imageE)
    obtain p e where "prepare_record U r = Inr (p, e)" using mapR_Inr_all [OF ps r(1)] by (metis prod.exhaust)
    with r p' have "\<not> has_surrogate (emit (canon p'))"
      by (auto simp: prepare_record_Inr [OF U] jval_def)
    with p' show ?thesis using prepare_record_Inr [OF U] by blast
  qed
  then obtain ps' where "mapR (prepare_record U) rs' = Inr ps'" using mapR_total by metis
  then show ?thesis by (simp add: order_records_def)
qed

text \<open>Records with the same JSON values, in any order, give the same ordered list of JSON values.\<close>

lemma order_records_same:
  assumes U: "nfc_idem U" and key: "value_key U key" and ok: "order_records U key rs = Inr out"
    and norm: "\<forall>r \<in> set rs'. \<exists>p. normalize U r = Inr p" and same: "jval U ` set rs' = jval U ` set rs"
  shows "\<exists>out'. order_records U key rs' = Inr out' \<and> map canon out' = map canon out"
proof -
  obtain out' where out': "order_records U key rs' = Inr out'"
    using order_records_succeeds [OF U ok norm] same by blast
  have "map canon out' = map canon out"
    by (rule canonically_ordered_unique [OF order_records_spec [OF U key out']
          order_records_spec [OF U key ok] same])
  with out' show ?thesis by blast
qed

lemma order_records_normalizes:
  assumes "order_records U key rs = Inr out"
  shows "\<forall>r \<in> set rs. \<exists>p. normalize U r = Inr p"
proof -
  obtain ps where "mapR (prepare_record U) rs = Inr ps"
    using assms by (auto simp: order_records_def result_simps)
  from mapR_Inr_all [OF this] have "\<forall>r \<in> set rs. \<exists>y. prepare_record U r = Inr y" by blast
  then show ?thesis by (auto simp: prepare_record_def result_simps)
qed

lemma order_records_perm:
  assumes U: "nfc_idem U" and key: "value_key U key" and ok: "order_records U key rs = Inr out"
    and perm: "mset rs' = mset rs"
  shows "\<exists>out'. order_records U key rs' = Inr out' \<and> map canon out' = map canon out"
  using order_records_same [OF U key ok] order_records_normalizes [OF ok] mset_eq_setD [OF perm] by simp

text \<open>The sort keys of the sources only look at the JSON value.\<close>

lemma nested_canon: "normal U v \<Longrightarrow> nested k (canon v) = canon (nested k v)"
  by (auto simp: nested_def pget_canon split: option.splits)

lemma normal_nested: "normal U v \<Longrightarrow> normal U (nested k v)"
  by (cases v) (auto simp: nested_def pget_def list_all_iff split: option.splits dest!: map_of_SomeD)

lemmas key_canon = str_at_canon int_at_canon nested_canon normal_nested

lemma canonical_json_bytes_canon:
  assumes "nfc_idem U" and "normal U v"
  shows "canonical_json_bytes U v =
    (if has_surrogate (emit (canon v))
     then Inl (CanonicalizationError ''canonical content contains an invalid Unicode surrogate'')
     else Inr (emit (canon v)))"
  using normal_normalize(1) [OF assms(2)] serialize_emit [OF normal_is_json [OF assms(2)]]
  by (simp add: canonical_json_bytes_def)

lemma canon_canon: "normal U v \<Longrightarrow> canon (canon v) = canon v"
proof (induction U v rule: normal.induct)
  case (6 U kvs)
  let ?s = "sort_key (\<lambda>kv. utf16be (fst kv)) (map (\<lambda>(k, v). (k, canon v)) kvs)"
  have "map (\<lambda>(k, v). (k, canon v)) ?s = ?s"
    by (rule map_idI) (use 6 in \<open>auto simp: list_all_iff\<close>)
  moreover have "sort_key (\<lambda>kv. utf16be (fst kv)) ?s = ?s" by (rule sort_key_id_if_sorted) simp
  ultimately show ?case by simp
qed (auto simp: list_all_iff)

lemma normal_canon: "normal U v \<Longrightarrow> normal U (canon v)"
proof (induction U v rule: normal.induct)
  case (6 U kvs)
  have "map fst (map (\<lambda>(k, v). (k, canon v)) kvs) = map fst kvs" by (simp add: comp_def case_prod_beta)
  then have "distinct (map fst (map (\<lambda>(k, v). (k, canon v)) kvs))" using 6 by (simp del: map_map)
  then have "distinct (map fst (sort_key (\<lambda>kv. utf16be (fst kv)) (map (\<lambda>(k, v). (k, canon v)) kvs)))"
    by (simp only: distinct_map distinct_sort set_sort)
  then show ?case using 6 by (auto simp: list_all_iff)
qed (auto simp: list_all_iff)

lemma value_key_evidence: "value_key U evidence_key"
  by (simp add: value_key_def evidence_key_def key_canon)

lemma value_key_node: "value_key U node_key"
  by (simp add: value_key_def node_key_def key_canon)

lemma value_key_edge: "value_key U edge_key"
  by (simp add: value_key_def edge_key_def key_canon [of U])

lemma value_key_assertion: "value_key U assertion_key"
  by (simp add: value_key_def assertion_key_def key_canon [of U])

lemma value_key_observation: "value_key U observation_key"
  by (simp add: value_key_def observation_key_def key_canon)

lemma value_key_diagnostic: "nfc_idem U \<Longrightarrow> value_key U (diagnostic_key U)"
  by (simp add: value_key_def diagnostic_key_def key_canon [of U] canonical_json_bytes_canon normal_canon
      canon_canon [of U])

lemmas value_keys = value_key_evidence value_key_node value_key_edge value_key_assertion
  value_key_observation value_key_diagnostic

text \<open>The document that is hashed depends on the ordered arrays through their JSON values only.\<close>

lemma normalize_records:
  assumes "list_all (normal U) xs" shows "normalize U (PList xs) = Inr (PList xs)"
  by (rule normal_normalize) (simp add: assms)

lemma order_records_normal:
  "nfc_idem U \<Longrightarrow> value_key U key \<Longrightarrow> order_records U key rs = Inr out \<Longrightarrow> list_all (normal U) out"
  using order_records_spec by (fastforce simp: canonically_ordered_def list_all_iff)

definition graph_document :: "string \<Rightarrow> string \<Rightarrow> string \<Rightarrow> string list \<Rightarrow> string
    \<Rightarrow> pyval list \<Rightarrow> pyval list \<Rightarrow> pyval list \<Rightarrow> pyval list \<Rightarrow> pyval list \<Rightarrow> pyval" where
  "graph_document sv rk rv ps ch ns es as obs ds = PDict [
         (''schema_version'', PStr sv),
         (''revision'', PDict [(''kind'', PStr rk), (''value'', PStr rv)]),
         (''producer_version_set'', PList (map PStr ps)),
         (''config_hash'', PStr ch),
         (''nodes'', PList ns),
         (''edges'', PList es),
         (''assertions'', PList as),
         (''observations'', PList obs),
         (''diagnostics'', PList ds)]"

lemma ascii_keys_nfc:
  assumes "nfc_ascii U" and "ascii k" shows "u_nfc U k = k"
  using assms by (simp add: nfc_ascii_def)

lemma PList_canon_cong: "map canon xs = map canon ys \<Longrightarrow> canon (PList xs) = canon (PList ys)"
  by simp

text \<open>Two dictionaries with the same member names and the same values, member by member.\<close>

lemma canon_PDict_cong:
  assumes "map (\<lambda>(k, v). (k, canon v)) xs = map (\<lambda>(k, v). (k, canon v)) ys"
  shows "canon (PDict xs) = canon (PDict ys)"
  using assms by simp

section \<open>Insertion order does not reach the hash\<close>

lemma array_perm:
  assumes U: "nfc_idem U" and key: "value_key U key"
    and ok: "bindR (mapR f xs) (order_records U key) = Inr out" and perm: "mset xs' = mset xs"
  shows "\<exists>out'. bindR (mapR f xs') (order_records U key) = Inr out' \<and> map canon out' = map canon out
    \<and> list_all (normal U) out' \<and> list_all (normal U) out"
proof -
  obtain rs where rs: "mapR f xs = Inr rs" and out: "order_records U key rs = Inr out"
    using ok by (auto simp: result_simps)
  obtain rs' where rs': "mapR f xs' = Inr rs'" and mrs: "mset rs' = mset rs"
    using mapR_perm [OF rs perm] by blast
  obtain out' where out': "order_records U key rs' = Inr out'" "map canon out' = map canon out"
    using order_records_perm [OF U key out mrs] by blast
  then show ?thesis
    using rs' order_records_normal [OF U key out] order_records_normal [OF U key out'(1)] by simp
qed

definition triple_record :: "unicode \<Rightarrow> edge_input \<Rightarrow> canon_error + triple \<times> edge_record" where
  "triple_record U e = bindR (canonical_edge_record U e) (\<lambda>r. Inr (edge_triple e, r))"

lemma consolidate_distinct:
  "distinct (map fst g @ map edge_triple es) \<Longrightarrow>
     consolidate_loop U g es = bindR (mapR (triple_record U) es) (\<lambda>rs. Inr (g @ rs))"
proof (induction es arbitrary: g)
  case (Cons e es)
  show ?case
  proof (cases "canonical_edge_record U e")
    case (Inr r)
    have fresh: "map_of g (edge_triple e) = None"
      using Cons.prems by (auto simp: map_of_eq_None_iff)
    have "consolidate_loop U (g @ [(edge_triple e, r)]) es
        = bindR (mapR (triple_record U) es) (\<lambda>rs. Inr ((g @ [(edge_triple e, r)]) @ rs))"
      by (rule Cons.IH) (use Cons.prems in simp)
    moreover have "triple_record U e = Inr (edge_triple e, r)" by (simp add: triple_record_def Inr)
    ultimately show ?thesis
      by (cases "mapR (triple_record U) es") (simp_all add: Inr fresh)
  qed (simp add: triple_record_def)
qed simp

lemma consolidate_perm:
  assumes "consolidate_edges U sv es = Inr rs" and "distinct (map edge_triple es)" and "mset es' = mset es"
  shows "\<exists>rs'. consolidate_edges U sv es' = Inr rs' \<and> mset rs' = mset rs"
proof -
  have d': "distinct (map edge_triple es')"
    using assms(2,3) by (metis mset_map mset_eq_imp_distinct_iff)
  obtain ts where ts: "mapR (triple_record U) es = Inr ts"
    and rs: "rs = map (\<lambda>g. edge_record_value sv (snd g)) ts"
    using assms(1) consolidate_distinct [of "[]" es U] assms(2)
    by (auto simp: consolidate_edges_def result_simps)
  obtain ts' where ts': "mapR (triple_record U) es' = Inr ts'" and m: "mset ts' = mset ts"
    using mapR_perm [OF ts assms(3)] by blast
  have "consolidate_edges U sv es' = Inr (map (\<lambda>g. edge_record_value sv (snd g)) ts')"
    using consolidate_distinct [of "[]" es' U] d' ts' by (simp add: consolidate_edges_def)
  moreover have "mset (map (\<lambda>g. edge_record_value sv (snd g)) ts') = mset rs"
    using m by (simp add: rs)
  ultimately show ?thesis by blast
qed

lemma edges_perm:
  assumes U: "nfc_idem U"
    and ok: "bindR (consolidate_edges U sv es) (order_records U edge_key) = Inr out"
    and d: "distinct (map edge_triple es)" and perm: "mset es' = mset es"
  shows "\<exists>out'. bindR (consolidate_edges U sv es') (order_records U edge_key) = Inr out'
    \<and> map canon out' = map canon out \<and> list_all (normal U) out' \<and> list_all (normal U) out"
proof -
  obtain rs where rs: "consolidate_edges U sv es = Inr rs" and out: "order_records U edge_key rs = Inr out"
    using ok by (auto simp: result_simps)
  obtain rs' where rs': "consolidate_edges U sv es' = Inr rs'" and m: "mset rs' = mset rs"
    using consolidate_perm [OF rs d perm] by blast
  obtain out' where out': "order_records U edge_key rs' = Inr out'" "map canon out' = map canon out"
    using order_records_perm [OF U value_key_edge out m] by blast
  then show ?thesis
    using rs' order_records_normal [OF U value_key_edge out] order_records_normal [OF U value_key_edge out'(1)]
    by simp
qed

lemma producers_set_only:
  "set ps' = set ps \<Longrightarrow> normalize_producer_version_set U ps' = normalize_producer_version_set U ps"
  by (simp add: normalize_producer_version_set_def flip: sorted_list_of_set_sort_remdups)

lemma graph_document_normalize:
  assumes "nfc_ascii U" and "list_all (normal U) ns" "list_all (normal U) es" "list_all (normal U) as"
    "list_all (normal U) obs" "list_all (normal U) ds"
  shows "normalize U (graph_document sv rk rv ps ch ns es as obs ds) =
    Inr (graph_document (u_nfc U sv) (u_nfc U rk) (u_nfc U rv) (map (u_nfc U) ps) (u_nfc U ch) ns es as obs ds)"
proof -
  have lit: "u_nfc U k = k" if "ascii k" for k using assms(1) that by (simp add: nfc_ascii_def)
  have "mapR (normalize U) (map PStr ps) = Inr (map PStr (map (u_nfc U) ps))"
    by (induction ps) simp_all
  moreover have "mapR (normalize U) xs = Inr xs" if "list_all (normal U) xs" for xs
    using normalize_records [OF that] by (cases "mapR (normalize U) xs") simp_all
  ultimately show ?thesis
    using assms(2-6) by (simp add: graph_document_def lit ascii_def)
qed

lemma graph_document_bytes:
  assumes "nfc_idem U" "nfc_ascii U"
    and "list_all (normal U) ns" "list_all (normal U) es" "list_all (normal U) as"
    "list_all (normal U) obs" "list_all (normal U) ds"
    and "list_all (normal U) ns'" "list_all (normal U) es'" "list_all (normal U) as'"
    "list_all (normal U) obs'" "list_all (normal U) ds'"
    and "map canon ns' = map canon ns" "map canon es' = map canon es" "map canon as' = map canon as"
    "map canon obs' = map canon obs" "map canon ds' = map canon ds"
  shows "canonical_json_bytes U (graph_document sv rk rv ps ch ns' es' as' obs' ds')
    = canonical_json_bytes U (graph_document sv rk rv ps ch ns es as obs ds)"
proof -
  let ?d = "graph_document (u_nfc U sv) (u_nfc U rk) (u_nfc U rv) (map (u_nfc U) ps) (u_nfc U ch)"
  have n: "normalize U (graph_document sv rk rv ps ch ns es as obs ds) = Inr (?d ns es as obs ds)"
    "normalize U (graph_document sv rk rv ps ch ns' es' as' obs' ds') = Inr (?d ns' es' as' obs' ds')"
    using assms by (simp_all add: graph_document_normalize)
  then have "is_json (?d ns es as obs ds)" "is_json (?d ns' es' as' obs' ds')"
    using normalize_normal(1) [OF assms(1)] normal_is_json by blast+
  moreover have "canon (?d ns' es' as' obs' ds') = canon (?d ns es as obs ds)"
    unfolding graph_document_def by (rule canon_PDict_cong) (simp add: assms)
  ultimately show ?thesis by (simp add: canonical_json_bytes_def n serialize_emit)
qed

lemma bind_arrays:
  assumes "bindR r1 (\<lambda>a. bindR r2 (\<lambda>b. bindR r3 (\<lambda>c. bindR r4 (\<lambda>d. bindR r5 (\<lambda>e. bindR r6 (\<lambda>f.
      bindR (g a b c d e f) (\<lambda>x. Inr (k x)))))))) = Inr h"
  shows "\<exists>a b c d e f x. r1 = Inr a \<and> r2 = Inr b \<and> r3 = Inr c \<and> r4 = Inr d \<and> r5 = Inr e \<and> r6 = Inr f
    \<and> g a b c d e f = Inr x \<and> h = k x"
  using assms by (auto simp: bindR_Inr)


text \<open>Small graphs for the applications below.\<close>

definition sample_evidence :: evidence where
  "sample_evidence = \<lparr> ev_path = ''a/b'', ev_start_line = 1, ev_end_line = 2, ev_granularity = ''span'',
     ev_extractor = ''p'', ev_extractor_version = ''1'' \<rparr>"

definition sample_node :: "string \<Rightarrow> node_input" where
  "sample_node k = \<lparr> ni_node_kind = ''file'', ni_stable_key = k, ni_truth_class = ''t'',
     ni_name = None, ni_language = None, ni_properties = None, ni_evidence = [] \<rparr>"

definition sample_edge :: "string \<Rightarrow> edge_input" where
  "sample_edge kind = \<lparr> ei_edge_id = ''e'', ei_subject_kind = kind, ei_subject_key = ''a'',
     ei_predicate = ''P'', ei_object_kind = ''f'', ei_object_key = ''b'',
     ei_truth_class = ''t'', ei_producer = ''p'', ei_producer_version = ''1'',
     ei_evidence = [], ei_derived_from = [] \<rparr>"

definition sample_hash :: "node_input list \<Rightarrow> edge_input list \<Rightarrow> string list \<Rightarrow> canon_error + string" where
  "sample_hash ns es ps = compute_canonical_graph_hash ascii_unicode (\<lambda>b. b) ''g'' ''c'' ps ''h'' ns es [] [] [] ''1''"

lemma sample_hash_ok: "\<not> isl (sample_hash [sample_node ''b'', sample_node ''a''] [sample_edge ''f''] [''q'', ''p''])"
  by code_simp


text \<open>
  Evidence lists are canonical: no evidence record occurs twice, every record of the input
  is there and nothing else, in the order of path, lines, granularity, extractor and version
  with the canonical bytes as the last word.
\<close>

theorem order_evidence_canonical:
  assumes "unicode_ok U" and "order_evidence U es = Inr out"
  shows "\<exists>rs. mapR (canonical_evidence_record U) es = Inr rs \<and> distinct (map canon out)
    \<and> canon ` set out = jval U ` set rs
    \<and> sorted (map (\<lambda>r. (evidence_key (canon r), emit (canon r))) out)"
proof -
  obtain rs where rs: "mapR (canonical_evidence_record U) es = Inr rs"
    and out: "order_records U evidence_key rs = Inr out"
    using assms(2) by (auto simp: order_evidence_def result_simps)
  have "canonically_ordered U evidence_key rs out"
    by (rule order_records_spec [OF unicode_okD(1) [OF assms(1)] value_key_evidence out])
  with rs show ?thesis by (simp add: canonically_ordered_def comp_def)
qed

theorem order_evidence_canonical_witness:
  "\<exists>out. order_evidence ascii_unicode [sample_evidence, sample_evidence\<lparr>ev_path := ''./a/a''\<rparr>, sample_evidence] = Inr out
     \<and> distinct (map canon out) \<and> length out = 2"
proof -
  let ?es = "[sample_evidence, sample_evidence\<lparr>ev_path := ''./a/a''\<rparr>, sample_evidence]"
  have "case order_evidence ascii_unicode ?es of Inl _ \<Rightarrow> False | Inr out \<Rightarrow> length out = 2" by code_simp
  then obtain out where "order_evidence ascii_unicode ?es = Inr out" "length out = 2" by (auto split: sum.splits)
  then show ?thesis using order_evidence_canonical [OF unicode_ok_ascii, of ?es out] by blast
qed

text \<open>
  Consolidation lets two edges of the same triple disagree on the kind of the subject (or of
  the object): the record inserted first wins, so the hash of such a graph depends on the
  insertion order.
\<close>

theorem consolidation_ignores_kinds:
  "sample_hash [] [sample_edge ''f'', sample_edge ''s''] [] \<noteq> sample_hash [] [sample_edge ''s'', sample_edge ''f''] []"
  by code_simp

end
