(* ===== verification/Snapshot_Model.thy ===== *)
theory Snapshot_Model
  imports Canonical_Graph
begin

text \<open>
  The snapshot tables and their constraints (\<^verbatim>\<open>app/models/snapshot.py\<close>): one record per table row,
  the CHECK and UNIQUE constraints, the partial unique indexes and the composite foreign keys as
  executable predicates, and what they give the rest of the development.

  Row ids are assigned by the database: one more than the largest id of the table. The
  timestamps \<^verbatim>\<open>created_at\<close> and \<^verbatim>\<open>updated_at\<close> are not modelled (no code of the store reads them);
  column widths are not modelled (SQLite does not enforce them).
\<close>

section \<open>Rows\<close>

text \<open>The columns of \<^verbatim>\<open>repositories\<close> that snapshots refer to.\<close>

record repository_row =
  rp_id :: string
  rp_owner_id :: string
  rp_revision_kind :: string
  rp_revision_value :: string

record ri_snapshot =
  sn_snapshot_id :: string
  sn_repository_id :: string
  sn_revision_kind :: string
  sn_revision_value :: string
  sn_revision_ref :: "string option"
  sn_schema_version :: string
  sn_producer_version_set :: "string list"
  sn_producer_set_hash :: string
  sn_config_hash :: string
  sn_state :: string
  sn_canonical_graph_hash :: "string option"
  sn_actual_producers :: "string list option"
  sn_failure_code :: "string option"
  sn_sealed_at :: "int option"

record ri_node =
  nd_id :: int
  nd_snapshot_id :: string
  nd_stable_key :: string
  nd_node_kind :: string
  nd_name :: "string option"
  nd_language :: "string option"
  nd_truth_class :: string
  nd_properties :: "(string \<times> pyval) list option"

record ri_edge =
  eg_id :: int
  eg_snapshot_id :: string
  eg_edge_id :: string
  eg_subject_kind :: string
  eg_subject_key :: string
  eg_predicate :: string
  eg_object_kind :: string
  eg_object_key :: string
  eg_truth_class :: string
  eg_producer :: string
  eg_producer_version :: string

record ri_assertion =
  as_id :: int
  as_snapshot_id :: string
  as_assertion_id :: string
  as_subject_kind :: string
  as_subject_key :: string
  as_predicate :: string
  as_value :: pyval
  as_truth_class :: string
  as_producer :: string
  as_producer_version :: string

record ri_observation =
  ob_id :: int
  ob_snapshot_id :: string
  ob_observation_id :: string
  ob_observed_kind :: string
  ob_subject_kind :: string
  ob_subject_key :: string
  ob_referent_text :: "string option"
  ob_ordinal :: int

record ri_evidence =
  ee_id :: int
  ee_snapshot_id :: string
  ee_node_ref :: "int option"
  ee_edge_ref :: "int option"
  ee_observation_ref :: "int option"
  ee_path :: string
  ee_start_line :: int
  ee_end_line :: int
  ee_logical_line_count :: int
  ee_granularity :: string
  ee_extractor :: string
  ee_extractor_version :: string

record ri_derivation =
  dv_id :: int
  dv_snapshot_id :: string
  dv_edge_ref :: "int option"
  dv_assertion_ref :: "int option"
  dv_ref_kind :: string
  dv_ref_identity :: string

record ri_diagnostic =
  dg_id :: int
  dg_snapshot_id :: string
  dg_code :: string
  dg_category :: string
  dg_severity :: string
  dg_message :: string
  dg_path :: "string option"
  dg_span_start_line :: "int option"
  dg_span_end_line :: "int option"
  dg_producer :: string
  dg_subject_key :: "string option"
  dg_object_key :: "string option"
  dg_details :: "(string \<times> pyval) list option"

text \<open>The database: the tables in insertion order.\<close>

record db =
  db_repositories :: "repository_row list"
  db_snapshots :: "ri_snapshot list"
  db_nodes :: "ri_node list"
  db_edges :: "ri_edge list"
  db_assertions :: "ri_assertion list"
  db_observations :: "ri_observation list"
  db_evidence :: "ri_evidence list"
  db_derivations :: "ri_derivation list"
  db_diagnostics :: "ri_diagnostic list"

definition empty_db :: db where
  "empty_db = \<lparr> db_repositories = [], db_snapshots = [], db_nodes = [], db_edges = [], db_assertions = [],
     db_observations = [], db_evidence = [], db_derivations = [], db_diagnostics = [] \<rparr>"

definition next_id :: "int list \<Rightarrow> int" where
  "next_id ids = fold max ids 0 + 1"

text \<open>A row of one of the seven fact tables (\<^verbatim>\<open>_CHILD_TYPES\<close>).\<close>

datatype fact = FNode ri_node | FEdge ri_edge | FAssertion ri_assertion | FObservation ri_observation
  | FEvidence ri_evidence | FDerivation ri_derivation | FDiagnostic ri_diagnostic

primrec fact_snapshot :: "fact \<Rightarrow> string" where
  "fact_snapshot (FNode r) = nd_snapshot_id r"
| "fact_snapshot (FEdge r) = eg_snapshot_id r"
| "fact_snapshot (FAssertion r) = as_snapshot_id r"
| "fact_snapshot (FObservation r) = ob_snapshot_id r"
| "fact_snapshot (FEvidence r) = ee_snapshot_id r"
| "fact_snapshot (FDerivation r) = dv_snapshot_id r"
| "fact_snapshot (FDiagnostic r) = dg_snapshot_id r"

text \<open>The identity of a row: its table and its primary key.\<close>

primrec fact_row :: "fact \<Rightarrow> nat \<times> int" where
  "fact_row (FNode r) = (0, nd_id r)"
| "fact_row (FEdge r) = (1, eg_id r)"
| "fact_row (FAssertion r) = (2, as_id r)"
| "fact_row (FObservation r) = (3, ob_id r)"
| "fact_row (FEvidence r) = (4, ee_id r)"
| "fact_row (FDerivation r) = (5, dv_id r)"
| "fact_row (FDiagnostic r) = (6, dg_id r)"

definition facts_of :: "db \<Rightarrow> fact list" where
  "facts_of d = map FNode (db_nodes d) @ map FEdge (db_edges d) @ map FAssertion (db_assertions d)
     @ map FObservation (db_observations d) @ map FEvidence (db_evidence d)
     @ map FDerivation (db_derivations d) @ map FDiagnostic (db_diagnostics d)"

section \<open>Constraints\<close>

definition hex_char :: "char \<Rightarrow> bool" where
  "hex_char c \<longleftrightarrow> c \<in> set ''0123456789abcdef''"

text \<open>\<^verbatim>\<open>_hex_only_sql\<close>: replacing every hexadecimal digit by nothing leaves the empty string.\<close>

definition hex_only_sql :: "string \<Rightarrow> bool" where
  "hex_only_sql s \<longleftrightarrow> fold (\<lambda>c s. filter (\<lambda>x. x \<noteq> c) s) ''0123456789abcdef'' s = []"

definition sql_sha256 :: "string \<Rightarrow> bool" where
  "sql_sha256 s \<longleftrightarrow> length s = 71 \<and> take 7 s = ''sha256:'' \<and> hex_only_sql (drop 7 s)"

definition ck_ri_snapshots :: "ri_snapshot \<Rightarrow> bool" where
  "ck_ri_snapshots s \<longleftrightarrow>
     sn_state s \<in> {''building'', ''completed'', ''failed''}
   \<and> sn_revision_kind s \<in> {''git'', ''upload''}
   \<and> (sn_revision_kind s \<noteq> ''upload'' \<or> (sn_revision_ref s = None \<and> sql_sha256 (sn_revision_value s)))
   \<and> (sn_revision_kind s \<noteq> ''git'' \<or> (length (sn_revision_value s) = 40 \<and> hex_only_sql (sn_revision_value s)
        \<and> (case sn_revision_ref s of None \<Rightarrow> True | Some r \<Rightarrow> startswith ''refs/'' r)))
   \<and> sql_sha256 (sn_producer_set_hash s)
   \<and> sql_sha256 (sn_config_hash s)
   \<and> ((sn_state s = ''completed'' \<and> sn_canonical_graph_hash s \<noteq> None \<and> sn_sealed_at s \<noteq> None)
      \<or> (sn_state s \<noteq> ''completed'' \<and> sn_canonical_graph_hash s = None \<and> sn_sealed_at s = None))
   \<and> (case sn_canonical_graph_hash s of None \<Rightarrow> True | Some h \<Rightarrow> sql_sha256 h)"

definition ck_ri_nodes :: "ri_node \<Rightarrow> bool" where
  "ck_ri_nodes n \<longleftrightarrow> nd_truth_class n = ''observed''"

definition ck_ri_edges :: "ri_edge \<Rightarrow> bool" where
  "ck_ri_edges e \<longleftrightarrow> eg_truth_class e = ''resolved''"

definition ck_ri_assertions :: "ri_assertion \<Rightarrow> bool" where
  "ck_ri_assertions a \<longleftrightarrow> as_truth_class a = ''inferred''"

definition ck_ri_observations :: "ri_observation \<Rightarrow> bool" where
  "ck_ri_observations b \<longleftrightarrow> ob_ordinal b \<ge> 1"

definition present :: "'a option \<Rightarrow> nat" where
  "present x = (case x of None \<Rightarrow> 0 | Some _ \<Rightarrow> 1)"

definition ck_ri_evidence :: "ri_evidence \<Rightarrow> bool" where
  "ck_ri_evidence e \<longleftrightarrow>
     present (ee_node_ref e) + present (ee_edge_ref e) + present (ee_observation_ref e) = 1
   \<and> ee_start_line e \<ge> 1 \<and> ee_end_line e \<ge> ee_start_line e \<and> ee_logical_line_count e \<ge> 1
   \<and> ee_end_line e \<le> ee_logical_line_count e
   \<and> ee_granularity e \<in> {''span'', ''file''}
   \<and> \<not> startswith ''/'' (ee_path e)"

definition ck_ri_derivations :: "ri_derivation \<Rightarrow> bool" where
  "ck_ri_derivations r \<longleftrightarrow>
     present (dv_edge_ref r) + present (dv_assertion_ref r) = 1
   \<and> dv_ref_kind r \<in> {''observation'', ''node'', ''edge'', ''assertion''}"

text \<open>A CHECK whose value is unknown (a comparison with NULL) does not reject the row.\<close>

definition ck_ri_diagnostics :: "ri_diagnostic \<Rightarrow> bool" where
  "ck_ri_diagnostics r \<longleftrightarrow>
     dg_severity r \<in> {''fatal'', ''error'', ''warning'', ''info''}
   \<and> (case (dg_span_start_line r, dg_span_end_line r) of
        (None, _) \<Rightarrow> True
      | (Some a, None) \<Rightarrow> a \<ge> 1
      | (Some a, Some b) \<Rightarrow> a \<ge> 1 \<and> b \<ge> a)
   \<and> (case dg_path r of None \<Rightarrow> True | Some p \<Rightarrow> \<not> startswith ''/'' p)"

text \<open>A unique index over the rows its WHERE clause selects.\<close>

definition unique_index :: "('r \<Rightarrow> bool) \<Rightarrow> ('r \<Rightarrow> 'k) \<Rightarrow> 'r list \<Rightarrow> bool" where
  "unique_index w key rows \<longleftrightarrow> distinct (map key (filter w rows))"

abbreviation every_row :: "'r \<Rightarrow> bool" where
  "every_row \<equiv> (\<lambda>_. True)"

type_synonym identity = "string \<times> string \<times> string \<times> string \<times> string"

definition snapshot_identity :: "ri_snapshot \<Rightarrow> identity" where
  "snapshot_identity s = (sn_repository_id s, sn_revision_value s, sn_schema_version s,
     sn_producer_set_hash s, sn_config_hash s)"

definition uq_ri_snapshots :: "ri_snapshot list \<Rightarrow> bool" where
  "uq_ri_snapshots ss \<longleftrightarrow> unique_index every_row sn_snapshot_id ss
     \<and> unique_index (\<lambda>s. sn_state s = ''completed'') snapshot_identity ss"

definition uq_ri_nodes :: "ri_node list \<Rightarrow> bool" where
  "uq_ri_nodes ns \<longleftrightarrow> unique_index every_row nd_id ns
     \<and> unique_index every_row (\<lambda>n. (nd_snapshot_id n, nd_stable_key n)) ns
     \<and> unique_index (\<lambda>n. nd_node_kind n = ''repository'') nd_snapshot_id ns"

definition uq_ri_edges :: "ri_edge list \<Rightarrow> bool" where
  "uq_ri_edges es \<longleftrightarrow> unique_index every_row eg_id es
     \<and> unique_index every_row (\<lambda>e. (eg_snapshot_id e, eg_edge_id e)) es
     \<and> unique_index every_row (\<lambda>e. (eg_snapshot_id e, eg_subject_key e, eg_predicate e, eg_object_key e)) es"

definition uq_ri_assertions :: "ri_assertion list \<Rightarrow> bool" where
  "uq_ri_assertions as \<longleftrightarrow> unique_index every_row as_id as
     \<and> unique_index every_row (\<lambda>a. (as_snapshot_id a, as_assertion_id a)) as"

definition uq_ri_observations :: "ri_observation list \<Rightarrow> bool" where
  "uq_ri_observations obs \<longleftrightarrow> unique_index every_row ob_id obs
     \<and> unique_index every_row (\<lambda>b. (ob_snapshot_id b, ob_observation_id b)) obs"

definition evidence_fact :: "ri_evidence \<Rightarrow> string \<times> int \<times> int \<times> string \<times> string \<times> string" where
  "evidence_fact e = (ee_path e, ee_start_line e, ee_end_line e, ee_granularity e, ee_extractor e, ee_extractor_version e)"

definition uq_ri_evidence :: "ri_evidence list \<Rightarrow> bool" where
  "uq_ri_evidence es \<longleftrightarrow> unique_index every_row ee_id es
     \<and> unique_index (\<lambda>e. ee_node_ref e \<noteq> None) (\<lambda>e. (ee_snapshot_id e, ee_node_ref e, evidence_fact e)) es
     \<and> unique_index (\<lambda>e. ee_edge_ref e \<noteq> None) (\<lambda>e. (ee_snapshot_id e, ee_edge_ref e, evidence_fact e)) es
     \<and> unique_index (\<lambda>e. ee_observation_ref e \<noteq> None) (\<lambda>e. (ee_snapshot_id e, ee_observation_ref e, evidence_fact e)) es"

definition uq_ri_derivations :: "ri_derivation list \<Rightarrow> bool" where
  "uq_ri_derivations rs \<longleftrightarrow> unique_index every_row dv_id rs
     \<and> unique_index (\<lambda>r. dv_edge_ref r \<noteq> None) (\<lambda>r. (dv_snapshot_id r, dv_edge_ref r, dv_ref_kind r, dv_ref_identity r)) rs
     \<and> unique_index (\<lambda>r. dv_assertion_ref r \<noteq> None) (\<lambda>r. (dv_snapshot_id r, dv_assertion_ref r, dv_ref_kind r, dv_ref_identity r)) rs"

definition uq_ri_diagnostics :: "ri_diagnostic list \<Rightarrow> bool" where
  "uq_ri_diagnostics rs \<longleftrightarrow> unique_index every_row dg_id rs"

text \<open>Foreign keys: the referencing columns occur among the referenced ones; NULL switches a key off.\<close>

definition fk :: "('r \<Rightarrow> 'k option) \<Rightarrow> 'r list \<Rightarrow> 'k list \<Rightarrow> bool" where
  "fk ref rows targets \<longleftrightarrow> list_all (\<lambda>r. case ref r of None \<Rightarrow> True | Some k \<Rightarrow> k \<in> set targets) rows"

definition with_snapshot :: "string \<Rightarrow> 'k option \<Rightarrow> (string \<times> 'k) option" where
  "with_snapshot sid x = map_option (\<lambda>k. (sid, k)) x"

definition foreign_keys :: "db \<Rightarrow> bool" where
  "foreign_keys d \<longleftrightarrow>
    (let snapshots = map sn_snapshot_id (db_snapshots d);
         node_keys = map (\<lambda>n. (nd_snapshot_id n, nd_stable_key n)) (db_nodes d) in
     fk (\<lambda>s. Some (sn_repository_id s, sn_revision_kind s, sn_revision_value s)) (db_snapshots d)
        (map (\<lambda>r. (rp_id r, rp_revision_kind r, rp_revision_value r)) (db_repositories d))
   \<and> fk (\<lambda>f. Some (fact_snapshot f)) (facts_of d) snapshots
   \<and> fk (\<lambda>e. Some (eg_snapshot_id e, eg_subject_key e)) (db_edges d) node_keys
   \<and> fk (\<lambda>e. Some (eg_snapshot_id e, eg_object_key e)) (db_edges d) node_keys
   \<and> fk (\<lambda>a. Some (as_snapshot_id a, as_subject_key a)) (db_assertions d) node_keys
   \<and> fk (\<lambda>b. Some (ob_snapshot_id b, ob_subject_key b)) (db_observations d) node_keys
   \<and> fk (\<lambda>e. with_snapshot (ee_snapshot_id e) (ee_node_ref e)) (db_evidence d) (map (\<lambda>n. (nd_snapshot_id n, nd_id n)) (db_nodes d))
   \<and> fk (\<lambda>e. with_snapshot (ee_snapshot_id e) (ee_edge_ref e)) (db_evidence d) (map (\<lambda>n. (eg_snapshot_id n, eg_id n)) (db_edges d))
   \<and> fk (\<lambda>e. with_snapshot (ee_snapshot_id e) (ee_observation_ref e)) (db_evidence d) (map (\<lambda>n. (ob_snapshot_id n, ob_id n)) (db_observations d))
   \<and> fk (\<lambda>r. with_snapshot (dv_snapshot_id r) (dv_edge_ref r)) (db_derivations d) (map (\<lambda>n. (eg_snapshot_id n, eg_id n)) (db_edges d))
   \<and> fk (\<lambda>r. with_snapshot (dv_snapshot_id r) (dv_assertion_ref r)) (db_derivations d) (map (\<lambda>n. (as_snapshot_id n, as_id n)) (db_assertions d)))"

definition constraints :: "db \<Rightarrow> bool" where
  "constraints d \<longleftrightarrow>
     list_all ck_ri_snapshots (db_snapshots d) \<and> list_all ck_ri_nodes (db_nodes d)
   \<and> list_all ck_ri_edges (db_edges d) \<and> list_all ck_ri_assertions (db_assertions d)
   \<and> list_all ck_ri_observations (db_observations d) \<and> list_all ck_ri_evidence (db_evidence d)
   \<and> list_all ck_ri_derivations (db_derivations d) \<and> list_all ck_ri_diagnostics (db_diagnostics d)
   \<and> uq_ri_snapshots (db_snapshots d) \<and> uq_ri_nodes (db_nodes d) \<and> uq_ri_edges (db_edges d)
   \<and> uq_ri_assertions (db_assertions d) \<and> uq_ri_observations (db_observations d)
   \<and> uq_ri_evidence (db_evidence d) \<and> uq_ri_derivations (db_derivations d)
   \<and> uq_ri_diagnostics (db_diagnostics d) \<and> foreign_keys d"

end
