(* ===== verification/Snapshot_Session.thy ===== *)
theory Snapshot_Session
  imports Snapshot_Model
begin

text \<open>
  The database session the store writes through, and the guard that keeps completed snapshots
  immutable (\<^verbatim>\<open>_guard_completed_snapshots\<close> in \<^verbatim>\<open>app/intelligence/snapshot_store.py\<close>).

  A session has three views of the tables: the committed rows, the rows flushed in the open
  transaction, and the rows as the objects in memory have them. Code that writes through the
  ORM changes the third view only; a flush runs the guard on the differences, checks the
  constraints and writes; a commit flushes and makes the rows durable. A flush the database
  rejects rolls the transaction back; one the guard rejects leaves the session as it is.
\<close>

section \<open>Model\<close>

datatype store_error =
    SnapshotImmutableError string
  | SnapshotSealError string
  | SnapshotStateError string
  | SnapshotAlreadySealedError "ri_snapshot option"
  | IntegrityError
  | ObjectDeletedError
  | KeyError
  | CanonFailure canon_error
  | ValueError string

type_synonym transition = "string \<times> string \<times> string"

record session =
  se_committed :: db
  se_flushed :: db
  se_mem :: db
  se_allowed :: "transition list"

type_synonym 'a store_action = "(session, store_error, 'a) action"

definition new_session :: "db \<Rightarrow> session" where
  "new_session d = \<lparr> se_committed = d, se_flushed = d, se_mem = d, se_allowed = [] \<rparr>"

subsection \<open>The guard\<close>

definition find_snapshot :: "db \<Rightarrow> string \<Rightarrow> ri_snapshot option" where
  "find_snapshot d sid = find (\<lambda>s. sn_snapshot_id s = sid) (db_snapshots d)"

text \<open>
  \<^verbatim>\<open>_persisted_state\<close> with the query that follows it, and \<^verbatim>\<open>_stored_snapshot_state\<close>: the state the
  row had at the last flush. The identity map only holds flushed objects, so a snapshot that
  is still pending has no stored state.
\<close>

definition persisted_state :: "session \<Rightarrow> string \<Rightarrow> string option" where
  "persisted_state s sid = map_option sn_state (find_snapshot (se_flushed s) sid)"

definition guard_snapshot_write :: "session \<Rightarrow> ri_snapshot \<Rightarrow> store_error option" where
  "guard_snapshot_write s obj =
     (case persisted_state s (sn_snapshot_id obj) of
        None \<Rightarrow> None
      | Some persisted \<Rightarrow>
          if persisted = ''completed''
          then Some (SnapshotImmutableError ''A completed snapshot is immutable and cannot be modified.'')
          else if sn_state obj \<noteq> persisted \<and> (sn_snapshot_id obj, persisted, sn_state obj) \<notin> set (se_allowed s)
          then Some (SnapshotStateError ''snapshot lifecycle transition must go through SnapshotStore'')
          else None)"

definition guard_fact_write :: "session \<Rightarrow> fact \<Rightarrow> store_error option" where
  "guard_fact_write s f =
     (if persisted_state s (fact_snapshot f) = Some ''completed''
      then Some (SnapshotImmutableError ''Facts of a completed snapshot are immutable.'') else None)"

definition guard_snapshot_delete :: "session \<Rightarrow> ri_snapshot \<Rightarrow> store_error option" where
  "guard_snapshot_delete s obj =
     (if persisted_state s (sn_snapshot_id obj) = Some ''completed''
      then Some (SnapshotImmutableError ''A completed snapshot cannot be deleted directly.'') else None)"

text \<open>\<^verbatim>\<open>session.new\<close> with \<^verbatim>\<open>session.dirty\<close>, and \<^verbatim>\<open>session.deleted\<close>.\<close>

definition written_snapshots :: "session \<Rightarrow> ri_snapshot list" where
  "written_snapshots s = filter (\<lambda>r. r \<notin> set (db_snapshots (se_flushed s))) (db_snapshots (se_mem s))"

definition written_facts :: "session \<Rightarrow> fact list" where
  "written_facts s = filter (\<lambda>f. f \<notin> set (facts_of (se_flushed s))) (facts_of (se_mem s))"

definition deleted_snapshots :: "session \<Rightarrow> ri_snapshot list" where
  "deleted_snapshots s = filter (\<lambda>r. sn_snapshot_id r \<notin> sn_snapshot_id ` set (db_snapshots (se_mem s)))
     (db_snapshots (se_flushed s))"

definition deleted_facts :: "session \<Rightarrow> fact list" where
  "deleted_facts s = filter (\<lambda>f. fact_row f \<notin> fact_row ` set (facts_of (se_mem s))) (facts_of (se_flushed s))"

definition guard_fact_delete :: "session \<Rightarrow> fact \<Rightarrow> store_error option" where
  "guard_fact_delete s f =
     (if fact_snapshot f \<notin> sn_snapshot_id ` set (deleted_snapshots s)
         \<and> persisted_state s (fact_snapshot f) = Some ''completed''
      then Some (SnapshotImmutableError ''Facts of a completed snapshot cannot be deleted.'') else None)"

definition guard_completed_snapshots :: "session \<Rightarrow> store_error + unit" where
  "guard_completed_snapshots s =
     bindR (checkR (guard_snapshot_write s) (written_snapshots s)) (\<lambda>_.
     bindR (checkR (guard_fact_write s) (written_facts s)) (\<lambda>_.
     bindR (checkR (guard_snapshot_delete s) (deleted_snapshots s)) (\<lambda>_.
       checkR (guard_fact_delete s) (deleted_facts s))))"

text \<open>The tables that \<^verbatim>\<open>_reject_bulk_snapshot_mutation\<close> closes to bulk UPDATE and DELETE.\<close>

definition reject_bulk_snapshot_mutation :: "bool \<Rightarrow> bool \<Rightarrow> string option \<Rightarrow> store_error + unit" where
  "reject_bulk_snapshot_mutation is_update is_delete table =
     (if \<not> (is_update \<or> is_delete) then Inr ()
      else if table \<in> Some ` {''ri_snapshots'', ''ri_nodes'', ''ri_edges'', ''ri_assertions'', ''ri_observations'',
          ''ri_evidence'', ''ri_derivations'', ''ri_diagnostics''}
      then Inl (SnapshotImmutableError ''Bulk snapshot mutations are not a supported persistence route.'')
      else Inr ())"

subsection \<open>Flush, commit and rollback\<close>

definition rollback :: "session \<Rightarrow> session" where
  "rollback s = s\<lparr>se_flushed := se_committed s, se_mem := se_committed s\<rparr>"

definition flush :: "unit store_action" where
  "flush s = (case guard_completed_snapshots s of
       Inl e \<Rightarrow> (Inl e, s)
     | Inr _ \<Rightarrow> if constraints (se_mem s) then (Inr (), s\<lparr>se_flushed := se_mem s\<rparr>)
         else (Inl IntegrityError, rollback s))"

definition commit :: "unit store_action" where
  "commit = bindS flush (\<lambda>_ s. (Inr (), s\<lparr>se_committed := se_flushed s\<rparr>))"

text \<open>A query flushes first (autoflush), then reads what the transaction sees.\<close>

definition query :: "(db \<Rightarrow> 'a) \<Rightarrow> 'a store_action" where
  "query f = bindS flush (\<lambda>_. getS (\<lambda>s. f (se_mem s)))"

text \<open>A change of the objects in memory.\<close>

definition edit :: "(db \<Rightarrow> db) \<Rightarrow> unit store_action" where
  "edit f s = (Inr (), s\<lparr>se_mem := f (se_mem s)\<rparr>)"

definition commit_transition :: "string \<Rightarrow> string \<Rightarrow> string \<Rightarrow> unit store_action" where
  "commit_transition sid from_state to_state s =
     (let transition = (sid, from_state, to_state);
          (r, s') = commit (s\<lparr>se_allowed := List.insert transition (se_allowed s)\<rparr>) in
      (r, s'\<lparr>se_allowed := removeAll transition (se_allowed s')\<rparr>))"

definition fresh_id :: "(db \<Rightarrow> 'r list) \<Rightarrow> ('r \<Rightarrow> int) \<Rightarrow> session \<Rightarrow> int" where
  "fresh_id table row_id s = next_id (map row_id (table (se_flushed s) @ table (se_mem s)))"

section \<open>What a flush lets through\<close>

lemma find_snapshot_Some: "find_snapshot d sid = Some r \<Longrightarrow> r \<in> set (db_snapshots d) \<and> sn_snapshot_id r = sid"
  by (auto simp: find_snapshot_def find_Some_iff)

lemma constraints_snapshot_ids: "constraints d \<Longrightarrow> distinct (map sn_snapshot_id (db_snapshots d))"
  by (simp add: constraints_def uq_ri_snapshots_def unique_index_def)

lemma constraints_fact_rows: "constraints d \<Longrightarrow> inj_on fact_row (set (facts_of d))"
proof -
  assume c: "constraints d"
  have inj: "inj_on nd_id (set (db_nodes d))" "inj_on eg_id (set (db_edges d))" "inj_on as_id (set (db_assertions d))"
    "inj_on ob_id (set (db_observations d))" "inj_on ee_id (set (db_evidence d))"
    "inj_on dv_id (set (db_derivations d))" "inj_on dg_id (set (db_diagnostics d))"
    using c by (simp_all add: constraints_def uq_ri_nodes_def uq_ri_edges_def uq_ri_assertions_def
        uq_ri_observations_def uq_ri_evidence_def uq_ri_derivations_def uq_ri_diagnostics_def unique_index_def
        distinct_map)
  show "inj_on fact_row (set (facts_of d))"
    by (rule inj_onI) (auto simp: facts_of_def dest: inj [THEN inj_onD])
qed

lemma find_snapshot_row:
  assumes "constraints d" and "r \<in> set (db_snapshots d)" shows "find_snapshot d (sn_snapshot_id r) = Some r"
proof -
  have "find_snapshot d (sn_snapshot_id r) \<noteq> None"
    using assms(2) by (auto simp: find_snapshot_def find_None_iff)
  then obtain q where "find_snapshot d (sn_snapshot_id r) = Some q" by blast
  moreover from this have "q = r"
    using find_snapshot_Some constraints_snapshot_ids [OF assms(1)] assms(2)
    by (metis distinct_map inj_onD)
  ultimately show ?thesis by simp
qed

lemma guard_Inr:
  "guard_completed_snapshots s = Inr u \<longleftrightarrow>
     (\<forall>r \<in> set (written_snapshots s). guard_snapshot_write s r = None)
   \<and> (\<forall>f \<in> set (written_facts s). guard_fact_write s f = None)
   \<and> (\<forall>r \<in> set (deleted_snapshots s). guard_snapshot_delete s r = None)
   \<and> (\<forall>f \<in> set (deleted_facts s). guard_fact_delete s f = None)"
  by (auto simp: guard_completed_snapshots_def result_simps)

lemma flush_Inr:
  "flush s = (Inr u, s') \<longleftrightarrow> guard_completed_snapshots s = Inr () \<and> constraints (se_mem s)
     \<and> s' = s\<lparr>se_flushed := se_mem s\<rparr>"
  by (auto simp: flush_def split: sum.splits if_splits)

lemma flush_Inl:
  "flush s = (Inl e, s') \<longleftrightarrow> (guard_completed_snapshots s = Inl e \<and> s' = s)
     \<or> (guard_completed_snapshots s = Inr () \<and> \<not> constraints (se_mem s) \<and> e = IntegrityError \<and> s' = rollback s)"
  by (auto simp: flush_def split: sum.splits if_splits)

text \<open>What one step of writing may do to completed snapshots.\<close>

definition facts_at :: "string \<Rightarrow> db \<Rightarrow> fact set" where
  "facts_at sid d = {f \<in> set (facts_of d). fact_snapshot f = sid}"

definition completed_in :: "db \<Rightarrow> ri_snapshot \<Rightarrow> bool" where
  "completed_in d r \<longleftrightarrow> r \<in> set (db_snapshots d) \<and> sn_state r = ''completed''"

definition moved_away :: "db \<Rightarrow> fact \<Rightarrow> bool" where
  "moved_away d f \<longleftrightarrow> (\<exists>f' \<in> set (facts_of d). fact_row f' = fact_row f \<and> fact_snapshot f' \<noteq> fact_snapshot f)"

lemma guarded_completed_row:
  assumes "guard_completed_snapshots s = Inr u" and c: "constraints (se_flushed s)" and "completed_in (se_flushed s) r"
  shows "completed_in (se_mem s) r"
proof -
  have st: "persisted_state s (sn_snapshot_id r) = Some ''completed''"
    using find_snapshot_row [OF c] assms(3) by (simp add: persisted_state_def completed_in_def)
  have "r \<notin> set (deleted_snapshots s)"
    using assms(1) st by (auto simp: guard_Inr guard_snapshot_delete_def split: if_splits)
  then obtain q where q: "q \<in> set (db_snapshots (se_mem s))" "sn_snapshot_id q = sn_snapshot_id r"
    using assms(3) by (auto simp: deleted_snapshots_def completed_in_def image_iff)
  have "q \<notin> set (written_snapshots s)"
    using assms(1) st q(2) unfolding guard_Inr by (force simp: guard_snapshot_write_def)
  then have "q \<in> set (db_snapshots (se_flushed s))" using q(1) by (simp add: written_snapshots_def)
  then have "q = r"
    using assms(3) q(2) constraints_snapshot_ids [OF c] by (metis completed_in_def distinct_map inj_onD)
  then show ?thesis using q(1) assms(3) by (simp add: completed_in_def)
qed

lemma guarded_completed_facts:
  assumes "guard_completed_snapshots s = Inr u" and c: "constraints (se_flushed s)" and r: "completed_in (se_flushed s) r"
  shows "facts_at (sn_snapshot_id r) (se_mem s) \<subseteq> facts_at (sn_snapshot_id r) (se_flushed s)"
    and "f \<in> facts_at (sn_snapshot_id r) (se_flushed s) - facts_at (sn_snapshot_id r) (se_mem s) \<Longrightarrow> moved_away (se_mem s) f"
proof -
  let ?sid = "sn_snapshot_id r"
  have st: "persisted_state s ?sid = Some ''completed''"
    using find_snapshot_row [OF c] r by (simp add: persisted_state_def completed_in_def)
  have kept: "f \<in> set (facts_of (se_flushed s))" if "f \<in> set (facts_of (se_mem s))" "fact_snapshot f = ?sid" for f
    using assms(1) st that by (fastforce simp: guard_Inr guard_fact_write_def written_facts_def split: if_splits)
  then show "facts_at ?sid (se_mem s) \<subseteq> facts_at ?sid (se_flushed s)" by (auto simp: facts_at_def)
  assume f: "f \<in> facts_at ?sid (se_flushed s) - facts_at ?sid (se_mem s)"
  have "?sid \<notin> sn_snapshot_id ` set (deleted_snapshots s)"
    using assms(1) st by (auto simp: guard_Inr guard_snapshot_delete_def split: if_splits)
  then have "f \<notin> set (deleted_facts s)"
    using assms(1) st f unfolding guard_Inr guard_fact_delete_def facts_at_def by force
  then obtain f' where f': "f' \<in> set (facts_of (se_mem s))" "fact_row f' = fact_row f"
    using f by (auto simp: deleted_facts_def facts_at_def)
  show "moved_away (se_mem s) f"
  proof (cases "fact_snapshot f' = ?sid")
    case True
    then have "f' \<in> set (facts_of (se_flushed s))" using kept f'(1) by blast
    then have "f' = f" using inj_onD [OF constraints_fact_rows [OF c] f'(2)] f by (simp add: facts_at_def)
    then show ?thesis using f f'(1) by (simp add: facts_at_def)
  next
    case False
    then show ?thesis using f' f by (auto simp: moved_away_def facts_at_def)
  qed
qed

section \<open>Preservation by every write\<close>

definition no_moves :: "db \<Rightarrow> db \<Rightarrow> bool" where
  "no_moves d d' \<longleftrightarrow> (\<forall>f \<in> set (facts_of d). \<not> moved_away d' f)"

text \<open>Completed snapshots of the first database are in the second, with the same facts.\<close>

definition evolves :: "db \<Rightarrow> db \<Rightarrow> bool" where
  "evolves d d' \<longleftrightarrow> (\<forall>r. completed_in d r \<longrightarrow>
     completed_in d' r \<and> facts_at (sn_snapshot_id r) d' = facts_at (sn_snapshot_id r) d)"

lemma evolves_refl [simp]: "evolves d d"
  by (simp add: evolves_def)

lemma evolves_trans: "evolves d1 d2 \<Longrightarrow> evolves d2 d3 \<Longrightarrow> evolves d1 d3"
  by (simp add: evolves_def)

lemma guarded_evolves:
  assumes "guard_completed_snapshots s = Inr u" and "constraints (se_flushed s)" and "no_moves (se_flushed s) (se_mem s)"
  shows "evolves (se_flushed s) (se_mem s)"
proof -
  have "facts_at (sn_snapshot_id r) (se_mem s) = facts_at (sn_snapshot_id r) (se_flushed s)"
    if "completed_in (se_flushed s) r" for r
    using guarded_completed_facts [OF assms(1,2) that] assms(3) by (auto simp: no_moves_def facts_at_def)
  then show ?thesis using guarded_completed_row [OF assms(1,2)] by (simp add: evolves_def)
qed

lemma no_moves_self: "constraints d \<Longrightarrow> no_moves d d"
  using constraints_fact_rows by (auto simp: no_moves_def moved_away_def dest: inj_onD)

definition lawful :: "transition list \<Rightarrow> bool" where
  "lawful ts \<longleftrightarrow> (\<forall>(sid, a, b) \<in> set ts. a = ''building'' \<and> b \<in> {''completed'', ''failed''})"

text \<open>
  The invariant of a session that started from the database \<^term>\<open>d0\<close>: the constraints hold in
  the committed and in the flushed rows, and no completed snapshot has changed.
\<close>

definition sound :: "db \<Rightarrow> session \<Rightarrow> bool" where
  "sound d0 s \<longleftrightarrow> constraints (se_committed s) \<and> constraints (se_flushed s)
     \<and> evolves d0 (se_committed s) \<and> evolves (se_committed s) (se_flushed s)
     \<and> no_moves (se_flushed s) (se_mem s) \<and> lawful (se_allowed s)"

lemma sound_new: "constraints d \<Longrightarrow> sound d (new_session d)"
  by (simp add: sound_def new_session_def no_moves_self lawful_def)

lemma sound_rollback: "sound d0 s \<Longrightarrow> sound d0 (rollback s)"
  by (simp add: sound_def rollback_def no_moves_self)

lemma keeps_rollback [keeps_intros]: "keeps (sound d0) (\<lambda>s. (r, rollback s))"
  by (simp add: keeps_def sound_rollback)

lemma keeps_flush [keeps_intros]: "keeps (sound d0) flush"
proof (rule keepsI)
  fix s assume s: "sound d0 s"
  show "sound d0 (snd (flush s))"
  proof (cases "guard_completed_snapshots s = Inr () \<and> constraints (se_mem s)")
    case True
    then have "evolves (se_flushed s) (se_mem s)" using s by (auto simp: sound_def intro: guarded_evolves)
    then have "evolves (se_committed s) (se_mem s)" using s by (auto simp: sound_def intro: evolves_trans)
    with True s show ?thesis by (simp add: flush_def sound_def no_moves_self)
  next
    case False
    then show ?thesis using s by (auto simp: flush_def sound_rollback split: sum.splits)
  qed
qed

lemma keeps_commit [keeps_intros]: "keeps (sound d0) commit"
  unfolding commit_def
  by (intro keeps_intros) (auto simp: keeps_def sound_def intro: evolves_trans)

lemma keeps_query [keeps_intros]: "keeps (sound d0) (query f)"
  unfolding query_def by (intro keeps_intros)

lemma keeps_edit [keeps_intros]: "(\<And>d. facts_of (f d) = facts_of d) \<Longrightarrow> keeps (sound d0) (edit f)"
  by (auto simp: keeps_def edit_def sound_def no_moves_def moved_away_def)

lemma keeps_commit_transition [keeps_intros]:
  assumes "to_state \<in> {''completed'', ''failed''}"
  shows "keeps (sound d0) (commit_transition sid ''building'' to_state)"
proof (rule keepsI)
  fix s assume s: "sound d0 s"
  let ?t = "(sid, ''building'', to_state)" and ?s = "s\<lparr>se_allowed := List.insert (sid, ''building'', to_state) (se_allowed s)\<rparr>"
  have "sound d0 ?s" using s assms by (auto simp: sound_def lawful_def)
  then have "sound d0 (snd (commit ?s))" using keeps_commit by (simp add: keeps_def)
  then show "sound d0 (snd (commit_transition sid ''building'' to_state s))"
    by (auto simp: commit_transition_def Let_def sound_def lawful_def split: prod.splits)
qed

text \<open>New rows take a fresh id, so they cannot pass for an old row of another snapshot.\<close>

lemma fold_max_ge: "(m::int) \<le> fold max ids m \<and> (i \<in> set ids \<longrightarrow> i \<le> fold max ids m)"
proof (induction ids arbitrary: m)
  case (Cons x xs)
  from this [of "max x m"] show ?case by auto
qed simp

lemma next_id_fresh: "i \<in> set ids \<Longrightarrow> i < next_id ids"
  using fold_max_ge [of 0 ids i] by (simp add: next_id_def)

definition insert_row :: "(db \<Rightarrow> 'r list) \<Rightarrow> ('r \<Rightarrow> int) \<Rightarrow> (int \<Rightarrow> db \<Rightarrow> db) \<Rightarrow> int store_action" where
  "insert_row table row_id ins s =
     (let i = fresh_id table row_id s in (Inr i, s\<lparr>se_mem := ins i (se_mem s)\<rparr>))"

lemma keeps_insert_row:
  assumes facts: "\<And>i d. set (facts_of (ins i d)) = insert (wrap (row i)) (set (facts_of d))"
    and row: "\<And>i. fact_row (wrap (row i)) = (k, i)"
    and rows: "\<And>d f. f \<in> set (facts_of d) \<Longrightarrow> fst (fact_row f) = k \<Longrightarrow> snd (fact_row f) \<in> row_id ` set (table d)"
  shows "keeps (sound d0) (insert_row table row_id ins)"
proof (rule keepsI)
  fix s assume s: "sound d0 s"
  let ?i = "fresh_id table row_id s"
  have "fact_row f \<noteq> (k, ?i)" if f: "f \<in> set (facts_of (se_flushed s))" for f
  proof
    assume "fact_row f = (k, ?i)"
    then have "?i \<in> row_id ` set (table (se_flushed s))" using rows [OF f] by simp
    then have "?i \<in> set (map row_id (table (se_flushed s) @ table (se_mem s)))" by auto
    then show False using next_id_fresh by (metis fresh_id_def less_irrefl)
  qed
  then have "no_moves (se_flushed s) (ins ?i (se_mem s))"
    using s unfolding no_moves_def moved_away_def facts sound_def by (metis insert_iff row)
  then show "sound d0 (snd (insert_row table row_id ins s))"
    using s by (simp add: insert_row_def Let_def sound_def)
qed

section \<open>Properties of the guard\<close>

text \<open>A small database: a repository, a completed and a building snapshot, a fact of the first.\<close>

definition sample_sha :: string where
  "sample_sha = ''sha256:'' @ replicate 64 (CHR ''0'')"

definition sample_snapshot :: "string \<Rightarrow> string \<Rightarrow> ri_snapshot" where
  "sample_snapshot sid st = \<lparr> sn_snapshot_id = sid, sn_repository_id = ''r'', sn_revision_kind = ''upload'',
     sn_revision_value = sample_sha, sn_revision_ref = None, sn_schema_version = ''ri.v1'',
     sn_producer_version_set = [''p@1''], sn_producer_set_hash = sample_sha, sn_config_hash = sample_sha,
     sn_state = st, sn_canonical_graph_hash = (if st = ''completed'' then Some sample_sha else None),
     sn_actual_producers = None, sn_failure_code = None,
     sn_sealed_at = (if st = ''completed'' then Some 1 else None) \<rparr>"

definition sample_diagnostic :: "string \<Rightarrow> ri_diagnostic" where
  "sample_diagnostic sid = \<lparr> dg_id = 1, dg_snapshot_id = sid, dg_code = ''c'', dg_category = ''k'', dg_severity = ''info'',
     dg_message = ''m'', dg_path = None, dg_span_start_line = None, dg_span_end_line = None, dg_producer = ''p@1'',
     dg_subject_key = None, dg_object_key = None, dg_details = None \<rparr>"

definition sample_db :: db where
  "sample_db = empty_db\<lparr>db_repositories := [\<lparr> rp_id = ''r'', rp_owner_id = ''u'', rp_revision_kind = ''upload'',
       rp_revision_value = sample_sha \<rparr>],
     db_snapshots := [sample_snapshot ''c'' ''completed'', sample_snapshot ''b'' ''building''],
     db_diagnostics := [sample_diagnostic ''c'']\<rparr>"

lemma constraints_sample_db: "constraints sample_db"
  by code_simp

text \<open>
  Whatever the code has done to the objects in memory, a flush that succeeds leaves every
  completed snapshot row as it was, adds no fact to it and changes none, and a fact that has
  gone was re-assigned to another snapshot: it was not deleted.
\<close>

theorem flush_keeps_completed:
  assumes "flush s = (Inr (), s')" and "constraints (se_flushed s)" and "completed_in (se_flushed s) r"
  shows "completed_in (se_flushed s') r
    \<and> facts_at (sn_snapshot_id r) (se_flushed s') \<subseteq> facts_at (sn_snapshot_id r) (se_flushed s)
    \<and> (\<forall>f \<in> facts_at (sn_snapshot_id r) (se_flushed s) - facts_at (sn_snapshot_id r) (se_flushed s').
         moved_away (se_flushed s') f)"
proof -
  have g: "guard_completed_snapshots s = Inr ()" and s': "se_flushed s' = se_mem s"
    using assms(1) by (simp_all add: flush_Inr)
  show ?thesis
    unfolding s' using guarded_completed_row [OF g assms(2,3)] guarded_completed_facts [OF g assms(2,3)] by blast
qed

theorem flush_keeps_completed_witness:
  "completed_in (se_flushed (snd (flush ((new_session sample_db)
       \<lparr>se_mem := sample_db\<lparr>db_diagnostics := [sample_diagnostic ''c'', (sample_diagnostic ''b'')\<lparr>dg_id := 2\<rparr>]\<rparr>\<rparr>))))
     (sample_snapshot ''c'' ''completed'')"
proof -
  let ?m = "sample_db\<lparr>db_diagnostics := [sample_diagnostic ''c'', (sample_diagnostic ''b'')\<lparr>dg_id := 2\<rparr>]\<rparr>"
  let ?s = "(new_session sample_db)\<lparr>se_mem := ?m\<rparr>"
  have g: "guard_completed_snapshots ?s = Inr ()" and c: "constraints ?m" by code_simp+
  have "flush ?s = (Inr (), ?s\<lparr>se_flushed := ?m\<rparr>)" by (simp add: flush_def g c)
  moreover have "completed_in (se_flushed ?s) (sample_snapshot ''c'' ''completed'')"
    by (simp add: completed_in_def new_session_def sample_db_def) (simp add: sample_snapshot_def)
  moreover have "constraints (se_flushed ?s)" using constraints_sample_db by (simp add: new_session_def)
  ultimately show ?thesis using flush_keeps_completed [of ?s] by fastforce
qed

text \<open>
  A snapshot row that is flushed keeps its state or takes a transition the store has
  allowed; with the transitions the store ever allows, only a building snapshot changes its
  state, to completed or to failed.
\<close>

theorem flush_lifecycle:
  assumes "flush s = (Inr (), s')" and c: "constraints (se_flushed s)" and "lawful (se_allowed s)"
    and "find_snapshot (se_flushed s) sid = Some r" and "find_snapshot (se_flushed s') sid = Some r'"
  shows "sn_state r' = sn_state r \<or> (sn_state r = ''building'' \<and> sn_state r' \<in> {''completed'', ''failed''}
    \<and> (sid, sn_state r, sn_state r') \<in> set (se_allowed s))"
proof (cases "r' \<in> set (db_snapshots (se_flushed s))")
  case True
  then show ?thesis
    using assms(4,5) find_snapshot_row [OF c] find_snapshot_Some by (metis option.inject)
next
  case False
  have "r' \<in> set (db_snapshots (se_mem s))" and id: "sn_snapshot_id r' = sid"
    using assms(1,5) find_snapshot_Some by (auto simp: flush_Inr)
  then have "r' \<in> set (written_snapshots s)" using False by (simp add: written_snapshots_def)
  then have "guard_snapshot_write s r' = None" using assms(1) by (simp add: flush_Inr guard_Inr)
  then show ?thesis
    using assms(3,4) id by (auto simp: guard_snapshot_write_def persisted_state_def lawful_def split: if_splits)
qed

theorem flush_lifecycle_witness:
  "fst (flush ((new_session sample_db)\<lparr>se_mem := sample_db\<lparr>db_snapshots := [sample_snapshot ''c'' ''completed'',
      sample_snapshot ''b'' ''failed'']\<rparr>, se_allowed := [(''b'', ''building'', ''failed'')]\<rparr>)) = Inr ()
   \<and> (''b'', ''building'', ''failed'') \<in> set [(''b'', ''building'', ''failed'')]"
proof -
  let ?m = "sample_db\<lparr>db_snapshots := [sample_snapshot ''c'' ''completed'', sample_snapshot ''b'' ''failed'']\<rparr>"
  let ?s = "(new_session sample_db)\<lparr>se_mem := ?m, se_allowed := [(''b'', ''building'', ''failed'')]\<rparr>"
  have g: "guard_completed_snapshots ?s = Inr ()" and c: "constraints ?m" by code_simp+
  have f: "flush ?s = (Inr (), ?s\<lparr>se_flushed := ?m\<rparr>)" by (simp add: flush_def g c)
  have r: "find_snapshot (se_flushed ?s) ''b'' = Some (sample_snapshot ''b'' ''building'')"
    and r': "find_snapshot (se_flushed (?s\<lparr>se_flushed := ?m\<rparr>)) ''b'' = Some (sample_snapshot ''b'' ''failed'')"
    by (simp_all add: find_snapshot_def new_session_def sample_db_def sample_snapshot_def)
  have "sn_state (sample_snapshot ''b'' ''failed'') \<noteq> sn_state (sample_snapshot ''b'' ''building'')"
    by (simp add: sample_snapshot_def)
  then show ?thesis
    using flush_lifecycle [OF f _ _ r r'] constraints_sample_db f by (auto simp: new_session_def lawful_def)
qed

text \<open>
  The guard looks at the snapshot a changed fact points to after the change, so a fact of a
  completed snapshot can be taken out of it by pointing the row at a building one: the flush
  succeeds and the completed snapshot has lost a fact its hash covers.
\<close>

theorem completed_fact_can_be_moved:
  "fst (flush ((new_session sample_db)\<lparr>se_mem := sample_db\<lparr>db_diagnostics := [sample_diagnostic ''b'']\<rparr>\<rparr>)) = Inr ()
   \<and> facts_at ''c'' (se_flushed (snd (flush ((new_session sample_db)
       \<lparr>se_mem := sample_db\<lparr>db_diagnostics := [sample_diagnostic ''b'']\<rparr>\<rparr>)))) = {}
   \<and> facts_at ''c'' sample_db \<noteq> {}"
proof -
  let ?m = "sample_db\<lparr>db_diagnostics := [sample_diagnostic ''b'']\<rparr>"
  let ?s = "(new_session sample_db)\<lparr>se_mem := ?m\<rparr>"
  have g: "guard_completed_snapshots ?s = Inr ()" and c: "constraints ?m" by code_simp+
  have "flush ?s = (Inr (), ?s\<lparr>se_flushed := ?m\<rparr>)" by (simp add: flush_def g c)
  then show ?thesis
    by (auto simp: facts_at_def facts_of_def sample_db_def empty_db_def sample_diagnostic_def)
qed

end
