(* ===== verification/Snapshot_Store.thy ===== *)
theory Snapshot_Store
  imports Snapshot_Session
begin

text \<open>
  The operations of \<^verbatim>\<open>SnapshotStore\<close> that look up, create and fill snapshots
  (\<^verbatim>\<open>app/intelligence/snapshot_store.py\<close>) and the purge of failed ones
  (\<^verbatim>\<open>app/intelligence/retention.py\<close>). Every operation is an action on the session: it may raise, and
  the session it leaves behind is part of the result. Sealing is in the next theory.

  A snapshot argument is the id of its row; the attributes the code reads from the object are
  those of the row in memory. The \<^verbatim>\<open>uuid4\<close> of a new snapshot is an argument. The keys that
  \<^verbatim>\<open>frozenset\<close> arguments hold are lists here, used as sets.
\<close>

section \<open>Model\<close>

definition canonS :: "canon_error + 'a \<Rightarrow> 'a store_action" where
  "canonS r = liftS (case r of Inl e \<Rightarrow> Inl (CanonFailure e) | Inr x \<Rightarrow> Inr x)"

definition unless :: "bool \<Rightarrow> store_error \<Rightarrow> unit store_action" where
  "unless ok e = (if ok then returnS () else raiseS e)"

definition the_snapshot :: "string \<Rightarrow> ri_snapshot store_action" where
  "the_snapshot sid s = (case find_snapshot (se_mem s) sid of
     None \<Rightarrow> (Inl ObjectDeletedError, s) | Some r \<Rightarrow> (Inr r, s))"

definition require_building :: "string \<Rightarrow> ri_snapshot store_action" where
  "require_building sid = bindS (the_snapshot sid) (\<lambda>r.
     if sn_state r \<noteq> ''building'' then raiseS (SnapshotStateError ''snapshot is not building'') else returnS r)"

subsection \<open>Identity and lookup\<close>

record revision =
  rv_kind :: string
  rv_value :: string
  rv_ref :: "string option"

definition git_revision_re :: "string \<Rightarrow> bool" where
  "git_revision_re s \<longleftrightarrow> length s = 40 \<and> list_all hex_char s"

definition hash_re :: "string \<Rightarrow> bool" where
  "hash_re s \<longleftrightarrow> startswith ''sha256:'' s \<and> length (drop 7 s) = 64 \<and> list_all hex_char (drop 7 s)"

definition validate_revision :: "revision \<Rightarrow> store_error + unit" where
  "validate_revision rvn =
     (if rv_kind rvn = ''git'' then
        (if \<not> git_revision_re (rv_value rvn)
         then Inl (SnapshotSealError ''git revisions require a 40-character lowercase commit SHA'')
         else if rv_ref rvn \<noteq> None \<and> \<not> startswith ''refs/'' (the (rv_ref rvn))
         then Inl (SnapshotSealError ''git revision refs must be normalized under refs/'')
         else Inr ())
      else if rv_kind rvn = ''upload'' then
        (if \<not> hash_re (rv_value rvn) \<or> rv_ref rvn \<noteq> None
         then Inl (SnapshotSealError ''upload revisions require sha256 content identity and a null ref'')
         else Inr ())
      else Inl (SnapshotSealError ''revision kind must be git or upload''))"

definition require_matching_repository :: "string \<Rightarrow> revision \<Rightarrow> repository_row store_action" where
  "require_matching_repository repository_id rvn =
     bindS (liftS (validate_revision rvn)) (\<lambda>_.
     bindS (getS (\<lambda>s. find (\<lambda>r. rp_id r = repository_id) (db_repositories (se_mem s)))) (\<lambda>repository.
       case repository of
         None \<Rightarrow> raiseS (SnapshotSealError ''snapshot repository does not exist'')
       | Some r \<Rightarrow> if (rp_revision_kind r, rp_revision_value r) \<noteq> (rv_kind rvn, rv_value rvn)
           then raiseS (SnapshotSealError ''snapshot revision does not match its repository revision'')
           else returnS r))"

definition resolve_config_hash :: "unicode \<Rightarrow> digest \<Rightarrow> (string \<times> pyval) list option \<Rightarrow> string option
    \<Rightarrow> string list \<Rightarrow> string list \<Rightarrow> string store_action" where
  "resolve_config_hash U H config config_hash set_array_keys path_keys =
     bindS (canonS (compute_config_hash U H config set_array_keys path_keys)) (\<lambda>computed.
       if config_hash \<noteq> None \<and> config \<noteq> None \<and> config_hash \<noteq> Some computed
       then raiseS (SnapshotSealError ''provided config_hash does not match canonical configuration'')
       else returnS (case config_hash of None \<Rightarrow> computed | Some [] \<Rightarrow> computed | Some h \<Rightarrow> h))"

definition find_completed :: "unicode \<Rightarrow> digest \<Rightarrow> string \<Rightarrow> string \<Rightarrow> string \<Rightarrow> string list \<Rightarrow> string
    \<Rightarrow> ri_snapshot option store_action" where
  "find_completed U H repository_id revision_value schema_version producer_version_set config_hash =
     bindS (canonS (producer_set_hash U H producer_version_set)) (\<lambda>ph.
       query (\<lambda>d. find (\<lambda>r. snapshot_identity r = (repository_id, revision_value, schema_version, ph, config_hash)
         \<and> sn_state r = ''completed'') (db_snapshots d)))"

text \<open>The join with \<^verbatim>\<open>repositories\<close> that restricts a lookup to one owner.\<close>

definition owned_by :: "db \<Rightarrow> string \<Rightarrow> ri_snapshot \<Rightarrow> bool" where
  "owned_by d owner_id r \<longleftrightarrow> list_ex (\<lambda>p. rp_id p = sn_repository_id r \<and> rp_owner_id p = owner_id) (db_repositories d)"

definition get_for_owner :: "string \<Rightarrow> string \<Rightarrow> ri_snapshot option store_action" where
  "get_for_owner sid owner_id =
     query (\<lambda>d. find (\<lambda>r. sn_snapshot_id r = sid \<and> owned_by d owner_id r) (db_snapshots d))"

definition find_completed_for_owner :: "unicode \<Rightarrow> digest \<Rightarrow> string \<Rightarrow> string \<Rightarrow> string \<Rightarrow> string \<Rightarrow> string list
    \<Rightarrow> string \<Rightarrow> ri_snapshot option store_action" where
  "find_completed_for_owner U H owner_id repository_id revision_value schema_version producer_version_set config_hash =
     bindS (canonS (producer_set_hash U H producer_version_set)) (\<lambda>ph.
       query (\<lambda>d. find (\<lambda>r. owned_by d owner_id r
         \<and> snapshot_identity r = (repository_id, revision_value, schema_version, ph, config_hash)
         \<and> sn_state r = ''completed'') (db_snapshots d)))"

definition add_snapshot :: "ri_snapshot \<Rightarrow> db \<Rightarrow> db" where
  "add_snapshot r d = d\<lparr>db_snapshots := db_snapshots d @ [r]\<rparr>"

definition bad_producer :: "string \<Rightarrow> bool" where
  "bad_producer p \<longleftrightarrow> CHR 0x40 \<notin> set p \<or> startswith [CHR 0x40] p \<or> endswith [CHR 0x40] p"

definition begin_snapshot :: "unicode \<Rightarrow> digest \<Rightarrow> string \<Rightarrow> string \<Rightarrow> revision \<Rightarrow> string list \<Rightarrow> string
    \<Rightarrow> (string \<times> pyval) list option \<Rightarrow> string option \<Rightarrow> string list \<Rightarrow> string list \<Rightarrow> ri_snapshot store_action" where
  "begin_snapshot U H uuid repository_id rvn producer_version_set schema_version config config_hash
       config_set_array_keys config_path_keys =
     bindS (require_matching_repository repository_id rvn) (\<lambda>_.
     bindS (canonS (normalize_producer_version_set U producer_version_set)) (\<lambda>producers.
     if list_ex bad_producer producers
     then raiseS (SnapshotSealError ''producer_version_set entries must use producer@version'')
     else
     bindS (resolve_config_hash U H config config_hash config_set_array_keys config_path_keys) (\<lambda>resolved_config_hash.
     if \<not> hash_re resolved_config_hash
     then raiseS (SnapshotSealError ''config_hash must be a sha256 content identity'')
     else
     bindS (canonS (producer_set_hash U H producers)) (\<lambda>ph.
     let snapshot = \<lparr> sn_snapshot_id = ''snap_'' @ uuid, sn_repository_id = repository_id,
           sn_revision_kind = rv_kind rvn, sn_revision_value = rv_value rvn, sn_revision_ref = rv_ref rvn,
           sn_schema_version = schema_version, sn_producer_version_set = producers, sn_producer_set_hash = ph,
           sn_config_hash = resolved_config_hash, sn_state = ''building'', sn_canonical_graph_hash = None,
           sn_actual_producers = None, sn_failure_code = None, sn_sealed_at = None \<rparr> in
     bindS (edit (add_snapshot snapshot)) (\<lambda>_.
     bindS flush (\<lambda>_.
       returnS snapshot))))))"

definition get_or_reuse :: "unicode \<Rightarrow> digest \<Rightarrow> string \<Rightarrow> string \<Rightarrow> revision \<Rightarrow> string list \<Rightarrow> string
    \<Rightarrow> (string \<times> pyval) list option \<Rightarrow> string option \<Rightarrow> string list \<Rightarrow> string list \<Rightarrow> (ri_snapshot \<times> bool) store_action" where
  "get_or_reuse U H uuid repository_id rvn producer_version_set schema_version config config_hash
       config_set_array_keys config_path_keys =
     bindS (require_matching_repository repository_id rvn) (\<lambda>_.
     bindS (resolve_config_hash U H config config_hash config_set_array_keys config_path_keys) (\<lambda>resolved_config_hash.
     bindS (find_completed U H repository_id (rv_value rvn) schema_version producer_version_set resolved_config_hash) (\<lambda>existing.
       case existing of
         Some r \<Rightarrow> returnS (r, True)
       | None \<Rightarrow>
           bindS (begin_snapshot U H uuid repository_id rvn producer_version_set schema_version None
             (Some resolved_config_hash) config_set_array_keys config_path_keys) (\<lambda>snapshot.
             returnS (snapshot, False)))))"

subsection \<open>Failed snapshots\<close>

definition set_failed :: "string \<Rightarrow> string option \<Rightarrow> db \<Rightarrow> db" where
  "set_failed sid code d = d\<lparr>db_snapshots := map (\<lambda>r. if sn_snapshot_id r = sid
     then r\<lparr>sn_state := ''failed'', sn_failure_code := code\<rparr> else r) (db_snapshots d)\<rparr>"

text \<open>\<^verbatim>\<open>delete(table).where(table.snapshot_id == snapshot_id)\<close> for the seven fact tables.\<close>

definition delete_facts :: "string \<Rightarrow> db \<Rightarrow> db" where
  "delete_facts sid d = d\<lparr>
     db_derivations := filter (\<lambda>r. dv_snapshot_id r \<noteq> sid) (db_derivations d),
     db_evidence := filter (\<lambda>r. ee_snapshot_id r \<noteq> sid) (db_evidence d),
     db_assertions := filter (\<lambda>r. as_snapshot_id r \<noteq> sid) (db_assertions d),
     db_diagnostics := filter (\<lambda>r. dg_snapshot_id r \<noteq> sid) (db_diagnostics d),
     db_edges := filter (\<lambda>r. eg_snapshot_id r \<noteq> sid) (db_edges d),
     db_observations := filter (\<lambda>r. ob_snapshot_id r \<noteq> sid) (db_observations d),
     db_nodes := filter (\<lambda>r. nd_snapshot_id r \<noteq> sid) (db_nodes d)\<rparr>"

text \<open>
  The deletes go to the connection, past the guard: they change the flushed rows; the commit
  expires every object, so memory sees the same rows.
\<close>

definition purge_snapshot_facts :: "string \<Rightarrow> nat store_action" where
  "purge_snapshot_facts sid =
     bindS (query (\<lambda>d. map_option sn_state (find_snapshot d sid))) (\<lambda>state.
       if state \<noteq> Some ''failed'' then returnS 0
       else bindS (\<lambda>s. (Inr (length (filter (\<lambda>f. fact_snapshot f = sid) (facts_of (se_flushed s)))),
              s\<lparr>se_flushed := delete_facts sid (se_flushed s), se_mem := delete_facts sid (se_flushed s)\<rparr>)) (\<lambda>removed.
            bindS commit (\<lambda>_. returnS removed)))"

text \<open>The SELECT of the sweep: failed snapshots with a node, an observation or a diagnostic.\<close>

definition orphaned_failed :: "nat \<Rightarrow> db \<Rightarrow> string list" where
  "orphaned_failed limit d = take limit (map sn_snapshot_id (filter (\<lambda>r. sn_state r = ''failed''
     \<and> (list_ex (\<lambda>x. nd_snapshot_id x = sn_snapshot_id r) (db_nodes d)
       \<or> list_ex (\<lambda>x. ob_snapshot_id x = sn_snapshot_id r) (db_observations d)
       \<or> list_ex (\<lambda>x. dg_snapshot_id x = sn_snapshot_id r) (db_diagnostics d))) (db_snapshots d)))"

fun purge_each :: "string list \<Rightarrow> nat store_action" where
  "purge_each [] = returnS 0"
| "purge_each (sid # sids) = bindS (purge_snapshot_facts sid) (\<lambda>n. bindS (purge_each sids) (\<lambda>m. returnS (n + m)))"

definition purge_orphaned_failed_facts :: "nat \<Rightarrow> nat store_action" where
  "purge_orphaned_failed_facts limit = bindS (query (orphaned_failed limit)) purge_each"

definition mark_failed :: "string \<Rightarrow> string option \<Rightarrow> ri_snapshot store_action" where
  "mark_failed sid code =
     bindS (require_building sid) (\<lambda>_.
     bindS (edit (set_failed sid code)) (\<lambda>_.
     bindS (commit_transition sid ''building'' ''failed'') (\<lambda>_.
     bindS (purge_snapshot_facts sid) (\<lambda>_.
       the_snapshot sid))))"

subsection \<open>Evidence and derivations\<close>

record evidence_arg = evidence +
  ev_logical_line_count :: int

definition as_mapping :: "evidence_arg \<Rightarrow> evidence" where
  "as_mapping r = evidence.truncate r"

definition add_evidence_row :: "ri_evidence \<Rightarrow> int \<Rightarrow> db \<Rightarrow> db" where
  "add_evidence_row r i d = d\<lparr>db_evidence := db_evidence d @ [r\<lparr>ee_id := i\<rparr>]\<rparr>"

definition add_derivation_row :: "ri_derivation \<Rightarrow> int \<Rightarrow> db \<Rightarrow> db" where
  "add_derivation_row r i d = d\<lparr>db_derivations := db_derivations d @ [r\<lparr>dv_id := i\<rparr>]\<rparr>"

text \<open>The parent column the query of \<^verbatim>\<open>_add_evidence\<close> compares.\<close>

definition same_parent :: "ri_evidence \<Rightarrow> ri_evidence \<Rightarrow> bool" where
  "same_parent r e = (if ee_node_ref r \<noteq> None then ee_node_ref e = ee_node_ref r
     else if ee_edge_ref r \<noteq> None then ee_edge_ref e = ee_edge_ref r
     else ee_observation_ref e = ee_observation_ref r)"

text \<open>The row to be stored, with the id still to come, and the checks made before the query.\<close>

definition evidence_row :: "unicode \<Rightarrow> string \<Rightarrow> evidence_arg \<Rightarrow> int option \<Rightarrow> int option \<Rightarrow> int option
    \<Rightarrow> store_error + ri_evidence" where
  "evidence_row U sid record node_ref edge_ref observation_ref =
     bindR (case normalize_repo_path U (ev_path record) of Inl e \<Rightarrow> Inl (CanonFailure e) | Inr p \<Rightarrow> Inr p) (\<lambda>normalized_path.
     let extractor = u_nfc U (ev_extractor record); extractor_version = u_nfc U (ev_extractor_version record) in
     if normalized_path = [] then Inl (SnapshotSealError ''evidence path must identify a repository-relative file'')
     else if ev_granularity record \<notin> {''span'', ''file''}
     then Inl (SnapshotSealError ''evidence granularity must be span or file'')
     else if extractor = [] \<or> extractor_version = []
     then Inl (SnapshotSealError ''evidence extractor and extractor_version are required'')
     else if \<not> (1 \<le> ev_start_line record \<and> ev_start_line record \<le> ev_end_line record
         \<and> ev_end_line record \<le> ev_logical_line_count record)
     then Inl (SnapshotSealError ''invalid evidence span'')
     else Inr \<lparr> ee_id = 0, ee_snapshot_id = sid, ee_node_ref = node_ref, ee_edge_ref = edge_ref,
       ee_observation_ref = observation_ref, ee_path = normalized_path, ee_start_line = ev_start_line record,
       ee_end_line = ev_end_line record, ee_logical_line_count = ev_logical_line_count record,
       ee_granularity = ev_granularity record, ee_extractor = extractor, ee_extractor_version = extractor_version \<rparr>)"

definition add_evidence :: "unicode \<Rightarrow> string \<Rightarrow> evidence_arg \<Rightarrow> int option \<Rightarrow> int option \<Rightarrow> int option \<Rightarrow> int store_action" where
  "add_evidence U sid record node_ref edge_ref observation_ref =
     bindS (liftS (evidence_row U sid record node_ref edge_ref observation_ref)) (\<lambda>row.
     bindS (query (\<lambda>d. find (\<lambda>e. ee_snapshot_id e = sid \<and> same_parent row e \<and> evidence_fact e = evidence_fact row)
         (db_evidence d))) (\<lambda>existing.
       case existing of
         Some e \<Rightarrow> if ee_logical_line_count e \<noteq> ev_logical_line_count record
           then raiseS (SnapshotSealError ''conflicting logical_line_count for duplicate evidence'')
           else returnS (ee_id e)
       | None \<Rightarrow> bindS (insert_row db_evidence ee_id (add_evidence_row row)) (\<lambda>i.
           bindS flush (\<lambda>_. returnS i))))"

definition derivation_row :: "unicode \<Rightarrow> string \<Rightarrow> reference \<Rightarrow> int option \<Rightarrow> int option \<Rightarrow> store_error + ri_derivation" where
  "derivation_row U sid ref edge_ref assertion_ref =
     (case map_of ref ''kind'' of
        None \<Rightarrow> Inl (SnapshotSealError ''derived_from contains an unsupported reference kind'')
      | Some kind \<Rightarrow> (case reference_identity_field kind of
          None \<Rightarrow> Inl (SnapshotSealError ''derived_from contains an unsupported reference kind'')
        | Some identity_field \<Rightarrow>
            if fst ` set ref \<noteq> {''kind'', identity_field} \<or> map_of ref identity_field \<in> {None, Some []}
            then Inl (SnapshotSealError ''derived_from reference does not match the RFC tagged shape'')
            else Inr \<lparr> dv_id = 0, dv_snapshot_id = sid, dv_edge_ref = edge_ref, dv_assertion_ref = assertion_ref,
              dv_ref_kind = kind, dv_ref_identity = u_nfc U (the (map_of ref identity_field)) \<rparr>))"

definition add_derivation :: "unicode \<Rightarrow> string \<Rightarrow> reference \<Rightarrow> int option \<Rightarrow> int option \<Rightarrow> int store_action" where
  "add_derivation U sid ref edge_ref assertion_ref =
     bindS (liftS (derivation_row U sid ref edge_ref assertion_ref)) (\<lambda>row.
     bindS (query (\<lambda>d. find (\<lambda>r. dv_snapshot_id r = sid
         \<and> (if edge_ref \<noteq> None then dv_edge_ref r = edge_ref else dv_assertion_ref r = assertion_ref)
         \<and> dv_ref_kind r = dv_ref_kind row \<and> dv_ref_identity r = dv_ref_identity row) (db_derivations d))) (\<lambda>existing.
       case existing of
         Some r \<Rightarrow> returnS (dv_id r)
       | None \<Rightarrow> bindS (insert_row db_derivations dv_id (add_derivation_row row)) (\<lambda>i.
           bindS flush (\<lambda>_. returnS i))))"

subsection \<open>Nodes, observations, edges, assertions and diagnostics\<close>

text \<open>\<^verbatim>\<open>x if properties else None\<close> around \<^verbatim>\<open>normalize_declared_arrays\<close>.\<close>

definition declared :: "unicode \<Rightarrow> string list \<Rightarrow> string list \<Rightarrow> (string \<times> pyval) list option
    \<Rightarrow> canon_error + (string \<times> pyval) list option" where
  "declared U sets ordered props = (case props of None \<Rightarrow> Inr None | Some [] \<Rightarrow> Inr None
     | Some kvs \<Rightarrow> bindR (normalize_declared_arrays U sets ordered (PDict kvs)) (\<lambda>v.
         case v of PDict kvs' \<Rightarrow> Inr (Some kvs') | _ \<Rightarrow> Inr None))"

text \<open>Equality of two optional JSON mappings as Python compares them.\<close>

definition props_eq :: "(string \<times> pyval) list option \<Rightarrow> (string \<times> pyval) list option \<Rightarrow> bool" where
  "props_eq p q = (case (p, q) of (None, None) \<Rightarrow> True | (Some a, Some b) \<Rightarrow> py_eq (PDict a) (PDict b) | _ \<Rightarrow> False)"

definition add_node_row :: "ri_node \<Rightarrow> int \<Rightarrow> db \<Rightarrow> db" where
  "add_node_row r i d = d\<lparr>db_nodes := db_nodes d @ [r\<lparr>nd_id := i\<rparr>]\<rparr>"

definition add_node :: "unicode \<Rightarrow> string \<Rightarrow> string \<Rightarrow> string \<Rightarrow> string option \<Rightarrow> string option
    \<Rightarrow> (string \<times> pyval) list option \<Rightarrow> evidence_arg list \<Rightarrow> string \<Rightarrow> string list \<Rightarrow> string list \<Rightarrow> int store_action" where
  "add_node U sid node_kind stable_key name language properties evidence truth_class set_array_keys ordered_array_keys =
     bindS (require_building sid) (\<lambda>_.
     let kind = u_nfc U node_kind in
     bindS (canonS (normalize_stable_key U kind stable_key)) (\<lambda>key.
     bindS (canonS (declared U set_array_keys ordered_array_keys properties)) (\<lambda>props.
     let nm = map_option (u_nfc U) name; lang = map_option (u_nfc U) language in
     bindS (query (\<lambda>d. find (\<lambda>n. nd_snapshot_id n = sid \<and> nd_stable_key n = key) (db_nodes d))) (\<lambda>existing.
       case existing of
         Some n \<Rightarrow>
           if \<not> (nd_node_kind n = kind \<and> nd_name n = nm \<and> nd_language n = lang \<and> nd_truth_class n = truth_class
                \<and> props_eq props (nd_properties n))
           then raiseS (SnapshotSealError ''conflicting node records share stable key'')
           else bindS (forS (\<lambda>e. add_evidence U sid e (Some (nd_id n)) None None) evidence) (\<lambda>_. returnS (nd_id n))
       | None \<Rightarrow>
           bindS (insert_row db_nodes nd_id (add_node_row \<lparr> nd_id = 0, nd_snapshot_id = sid, nd_stable_key = key,
             nd_node_kind = kind, nd_name = nm, nd_language = lang, nd_truth_class = truth_class, nd_properties = props \<rparr>)) (\<lambda>i.
           bindS flush (\<lambda>_.
           bindS (forS (\<lambda>e. add_evidence U sid e (Some i) None None) evidence) (\<lambda>_. returnS i)))))))"

definition add_observation_row :: "ri_observation \<Rightarrow> int \<Rightarrow> db \<Rightarrow> db" where
  "add_observation_row r i d = d\<lparr>db_observations := db_observations d @ [r\<lparr>ob_id := i\<rparr>]\<rparr>"

definition add_observation :: "unicode \<Rightarrow> digest \<Rightarrow> string \<Rightarrow> string \<Rightarrow> string \<Rightarrow> string \<Rightarrow> evidence_arg
    \<Rightarrow> string option \<Rightarrow> int \<Rightarrow> int store_action" where
  "add_observation U H sid observed_kind subject_kind subject_key evidence referent_text ordinal =
     bindS (require_building sid) (\<lambda>snapshot.
     bindS (canonS (validate_predicate U observed_kind)) (\<lambda>obs_kind.
     let sub_kind = u_nfc U subject_kind in
     bindS (canonS (normalize_stable_key U sub_kind subject_key)) (\<lambda>sub_key.
     let referent = map_option (u_nfc U) referent_text in
     bindS (canonS (compute_observation_id U H (sn_revision_kind snapshot) (sn_revision_value snapshot) obs_kind
         sub_kind sub_key referent ordinal (as_mapping evidence) (sn_schema_version snapshot))) (\<lambda>observation_id.
     bindS (query (\<lambda>d. find (\<lambda>b. ob_snapshot_id b = sid \<and> ob_observation_id b = observation_id) (db_observations d))) (\<lambda>existing.
       case existing of
         Some b \<Rightarrow> bindS (add_evidence U sid evidence None None (Some (ob_id b))) (\<lambda>_. returnS (ob_id b))
       | None \<Rightarrow>
           bindS (insert_row db_observations ob_id (add_observation_row \<lparr> ob_id = 0, ob_snapshot_id = sid,
             ob_observation_id = observation_id, ob_observed_kind = obs_kind, ob_subject_kind = sub_kind,
             ob_subject_key = sub_key, ob_referent_text = referent, ob_ordinal = ordinal \<rparr>)) (\<lambda>i.
           bindS flush (\<lambda>_.
           bindS (add_evidence U sid evidence None None (Some i)) (\<lambda>_. returnS i))))))))"

definition add_edge_row :: "ri_edge \<Rightarrow> int \<Rightarrow> db \<Rightarrow> db" where
  "add_edge_row r i d = d\<lparr>db_edges := db_edges d @ [r\<lparr>eg_id := i\<rparr>]\<rparr>"

definition add_edge :: "unicode \<Rightarrow> digest \<Rightarrow> string \<Rightarrow> string \<Rightarrow> string \<Rightarrow> string \<Rightarrow> string \<Rightarrow> string \<Rightarrow> string
    \<Rightarrow> string \<Rightarrow> evidence_arg list \<Rightarrow> reference list \<Rightarrow> string \<Rightarrow> int store_action" where
  "add_edge U H sid subject_kind subject_key predicate object_kind object_key producer producer_version
       evidence derived_from truth_class =
     bindS (require_building sid) (\<lambda>_.
     let sub_kind = u_nfc U subject_kind; obj_kind = u_nfc U object_kind in
     bindS (canonS (normalize_stable_key U sub_kind subject_key)) (\<lambda>sub_key.
     bindS (canonS (normalize_stable_key U obj_kind object_key)) (\<lambda>obj_key.
     bindS (canonS (validate_predicate U predicate)) (\<lambda>pred.
     let prod = u_nfc U producer; ver = u_nfc U producer_version in
     bindS (canonS (compute_edge_id U H sub_key pred obj_key)) (\<lambda>edge_id.
     bindS (query (\<lambda>d. find (\<lambda>e. eg_snapshot_id e = sid \<and> eg_edge_id e = edge_id) (db_edges d))) (\<lambda>existing.
       let attach = (\<lambda>i. bindS (forS (\<lambda>e. add_evidence U sid e None (Some i) None) evidence) (\<lambda>_.
             bindS (forS (\<lambda>r. add_derivation U sid r (Some i) None) derived_from) (\<lambda>_. returnS i))) in
       case existing of
         Some e \<Rightarrow>
           if (eg_subject_kind e, eg_object_kind e, eg_truth_class e, eg_producer e, eg_producer_version e)
                \<noteq> (sub_kind, obj_kind, truth_class, prod, ver)
           then raiseS (SnapshotSealError ''conflicting edge records share identity'')
           else attach (eg_id e)
       | None \<Rightarrow>
           bindS (insert_row db_edges eg_id (add_edge_row \<lparr> eg_id = 0, eg_snapshot_id = sid, eg_edge_id = edge_id,
             eg_subject_kind = sub_kind, eg_subject_key = sub_key, eg_predicate = pred, eg_object_kind = obj_kind,
             eg_object_key = obj_key, eg_truth_class = truth_class, eg_producer = prod, eg_producer_version = ver \<rparr>)) (\<lambda>i.
           bindS flush (\<lambda>_. attach i))))))))"

definition add_assertion_row :: "ri_assertion \<Rightarrow> int \<Rightarrow> db \<Rightarrow> db" where
  "add_assertion_row r i d = d\<lparr>db_assertions := db_assertions d @ [r\<lparr>as_id := i\<rparr>]\<rparr>"

definition add_assertion :: "unicode \<Rightarrow> digest \<Rightarrow> string \<Rightarrow> string \<Rightarrow> string \<Rightarrow> string \<Rightarrow> (string \<times> pyval) list
    \<Rightarrow> string \<Rightarrow> string \<Rightarrow> reference list \<Rightarrow> string \<Rightarrow> string list \<Rightarrow> string list \<Rightarrow> int store_action" where
  "add_assertion U H sid subject_kind subject_key predicate val producer producer_version derived_from truth_class
       set_array_keys ordered_array_keys =
     bindS (require_building sid) (\<lambda>snapshot.
     let sub_kind = u_nfc U subject_kind in
     bindS (canonS (normalize_stable_key U sub_kind subject_key)) (\<lambda>sub_key.
     bindS (canonS (validate_predicate U predicate)) (\<lambda>pred.
     bindS (canonS (normalize_declared_arrays U set_array_keys ordered_array_keys (PDict val))) (\<lambda>normalized_value.
     let prod = u_nfc U producer; ver = u_nfc U producer_version in
     bindS (canonS (compute_assertion_id U H sub_kind sub_key pred normalized_value truth_class prod ver derived_from
         (sn_schema_version snapshot))) (\<lambda>assertion_id.
     bindS (query (\<lambda>d. find (\<lambda>a. as_snapshot_id a = sid \<and> as_assertion_id a = assertion_id) (db_assertions d))) (\<lambda>existing.
       case existing of
         Some a \<Rightarrow> returnS (as_id a)
       | None \<Rightarrow>
           bindS (insert_row db_assertions as_id (add_assertion_row \<lparr> as_id = 0, as_snapshot_id = sid,
             as_assertion_id = assertion_id, as_subject_kind = sub_kind, as_subject_key = sub_key, as_predicate = pred,
             as_value = normalized_value, as_truth_class = truth_class, as_producer = prod, as_producer_version = ver \<rparr>)) (\<lambda>i.
           bindS flush (\<lambda>_.
           bindS (forS (\<lambda>r. add_derivation U sid r None (Some i)) derived_from) (\<lambda>_. returnS i)))))))))"

definition add_diagnostic_row :: "ri_diagnostic \<Rightarrow> int \<Rightarrow> db \<Rightarrow> db" where
  "add_diagnostic_row r i d = d\<lparr>db_diagnostics := db_diagnostics d @ [r\<lparr>dg_id := i\<rparr>]\<rparr>"

definition add_diagnostic :: "unicode \<Rightarrow> string \<Rightarrow> string \<Rightarrow> string \<Rightarrow> string \<Rightarrow> string \<Rightarrow> string \<Rightarrow> string option
    \<Rightarrow> (int \<times> int) option \<Rightarrow> string option \<Rightarrow> string option \<Rightarrow> (string \<times> pyval) list option
    \<Rightarrow> string list \<Rightarrow> string list \<Rightarrow> int store_action" where
  "add_diagnostic U sid code category severity message producer path span subject object details
       set_array_keys ordered_array_keys =
     bindS (require_building sid) (\<lambda>_.
     bindS (canonS (case path of None \<Rightarrow> Inr None
       | Some p \<Rightarrow> bindR (normalize_repo_path U p) (\<lambda>q. Inr (Some q)))) (\<lambda>normalized_path.
     bindS (unless (case span of None \<Rightarrow> True | Some (a, b) \<Rightarrow> 1 \<le> a \<and> a \<le> b)
       (SnapshotSealError ''diagnostic spans must be one-based and inclusive'')) (\<lambda>_.
     bindS (canonS (declared U (''candidates'' # set_array_keys) ordered_array_keys details)) (\<lambda>normalized_details.
     bindS (insert_row db_diagnostics dg_id (add_diagnostic_row \<lparr> dg_id = 0, dg_snapshot_id = sid,
         dg_code = u_nfc U code, dg_category = u_nfc U category, dg_severity = u_nfc U severity,
         dg_message = u_nfc U message, dg_path = normalized_path, dg_span_start_line = map_option fst span,
         dg_span_end_line = map_option snd span, dg_producer = u_nfc U producer,
         dg_subject_key = map_option (u_nfc U) subject, dg_object_key = map_option (u_nfc U) object,
         dg_details = normalized_details \<rparr>)) (\<lambda>i.
     bindS flush (\<lambda>_. returnS i))))))"

section \<open>Every operation keeps the session sound\<close>

lemma keeps_canonS [keeps_intros]: "keeps P (canonS r)"
  unfolding canonS_def by (rule keeps_liftS)

lemma keeps_unless [keeps_intros]: "keeps P (unless b e)"
  unfolding unless_def by (intro keeps_intros)

lemma keeps_the_snapshot [keeps_intros]: "keeps P (the_snapshot sid)"
  by (auto simp: keeps_def the_snapshot_def split: option.splits)

lemma keeps_require_building [keeps_intros]: "keeps P (require_building sid)"
  unfolding require_building_def by (intro keeps_intros)

lemma facts_of_snapshot_edit [simp]:
  "facts_of (add_snapshot r d) = facts_of d" "facts_of (set_failed sid code d) = facts_of d"
  by (simp_all add: facts_of_def add_snapshot_def set_failed_def)

lemma keeps_insert [keeps_intros]:
  "keeps (sound d0) (insert_row db_nodes nd_id (add_node_row n))"
  "keeps (sound d0) (insert_row db_edges eg_id (add_edge_row e))"
  "keeps (sound d0) (insert_row db_assertions as_id (add_assertion_row a))"
  "keeps (sound d0) (insert_row db_observations ob_id (add_observation_row b))"
  "keeps (sound d0) (insert_row db_evidence ee_id (add_evidence_row v))"
  "keeps (sound d0) (insert_row db_derivations dv_id (add_derivation_row r))"
  "keeps (sound d0) (insert_row db_diagnostics dg_id (add_diagnostic_row g))"
proof -
  show "keeps (sound d0) (insert_row db_nodes nd_id (add_node_row n))"
    by (rule keeps_insert_row [where wrap = FNode and row = "\<lambda>i. n\<lparr>nd_id := i\<rparr>" and k = 0])
      (auto simp: facts_of_def add_node_row_def)
  show "keeps (sound d0) (insert_row db_edges eg_id (add_edge_row e))"
    by (rule keeps_insert_row [where wrap = FEdge and row = "\<lambda>i. e\<lparr>eg_id := i\<rparr>" and k = 1])
      (auto simp: facts_of_def add_edge_row_def)
  show "keeps (sound d0) (insert_row db_assertions as_id (add_assertion_row a))"
    by (rule keeps_insert_row [where wrap = FAssertion and row = "\<lambda>i. a\<lparr>as_id := i\<rparr>" and k = 2])
      (auto simp: facts_of_def add_assertion_row_def)
  show "keeps (sound d0) (insert_row db_observations ob_id (add_observation_row b))"
    by (rule keeps_insert_row [where wrap = FObservation and row = "\<lambda>i. b\<lparr>ob_id := i\<rparr>" and k = 3])
      (auto simp: facts_of_def add_observation_row_def)
  show "keeps (sound d0) (insert_row db_evidence ee_id (add_evidence_row v))"
    by (rule keeps_insert_row [where wrap = FEvidence and row = "\<lambda>i. v\<lparr>ee_id := i\<rparr>" and k = 4])
      (auto simp: facts_of_def add_evidence_row_def)
  show "keeps (sound d0) (insert_row db_derivations dv_id (add_derivation_row r))"
    by (rule keeps_insert_row [where wrap = FDerivation and row = "\<lambda>i. r\<lparr>dv_id := i\<rparr>" and k = 5])
      (auto simp: facts_of_def add_derivation_row_def)
  show "keeps (sound d0) (insert_row db_diagnostics dg_id (add_diagnostic_row g))"
    by (rule keeps_insert_row [where wrap = FDiagnostic and row = "\<lambda>i. g\<lparr>dg_id := i\<rparr>" and k = 6])
      (auto simp: facts_of_def add_diagnostic_row_def)
qed

lemma keeps_require_matching_repository [keeps_intros]: "keeps (sound d0) (require_matching_repository rid rvn)"
  unfolding require_matching_repository_def by (intro keeps_intros)

lemma keeps_resolve_config_hash [keeps_intros]: "keeps (sound d0) (resolve_config_hash U H c h ss ps)"
  unfolding resolve_config_hash_def by (intro keeps_intros)

lemma keeps_find_completed [keeps_intros]: "keeps (sound d0) (find_completed U H r v sv ps ch)"
  unfolding find_completed_def by (intro keeps_intros)

lemma keeps_begin [keeps_intros]: "keeps (sound d0) (begin_snapshot U H u r rvn ps sv c h sk pk)"
  unfolding begin_snapshot_def Let_def by (intro keeps_intros) simp

lemma keeps_get_or_reuse [keeps_intros]: "keeps (sound d0) (get_or_reuse U H u r rvn ps sv c h sk pk)"
  unfolding get_or_reuse_def by (intro keeps_intros)

lemma keeps_add_evidence [keeps_intros]: "keeps (sound d0) (add_evidence U sid e n g b)"
  unfolding add_evidence_def by (intro keeps_intros)

lemma keeps_add_derivation [keeps_intros]: "keeps (sound d0) (add_derivation U sid r e a)"
  unfolding add_derivation_def by (intro keeps_intros)

lemma keeps_add_node [keeps_intros]: "keeps (sound d0) (add_node U sid k key n l p es tc ss os)"
  unfolding add_node_def Let_def by (intro keeps_intros)

lemma keeps_add_observation [keeps_intros]: "keeps (sound d0) (add_observation U H sid k sk key e r n)"
  unfolding add_observation_def Let_def by (intro keeps_intros)

lemma keeps_add_edge [keeps_intros]: "keeps (sound d0) (add_edge U H sid sk skey p ok okey pr pv es ds tc)"
  unfolding add_edge_def Let_def by (intro keeps_intros)

lemma keeps_add_assertion [keeps_intros]: "keeps (sound d0) (add_assertion U H sid sk key p v pr pv ds tc ss os)"
  unfolding add_assertion_def Let_def by (intro keeps_intros)

lemma keeps_add_diagnostic [keeps_intros]: "keeps (sound d0) (add_diagnostic U sid c k sv m pr p sp su ob de ss os)"
  unfolding add_diagnostic_def by (intro keeps_intros)

subsection \<open>Purging\<close>

lemma facts_of_delete: "facts_of (delete_facts sid d) = filter (\<lambda>f. fact_snapshot f \<noteq> sid) (facts_of d)"
  by (simp add: facts_of_def delete_facts_def filter_map comp_def)

lemma delete_facts_tables [simp]:
  "db_repositories (delete_facts sid d) = db_repositories d"
  "db_snapshots (delete_facts sid d) = db_snapshots d"
  "db_nodes (delete_facts sid d) = filter (\<lambda>r. nd_snapshot_id r \<noteq> sid) (db_nodes d)"
  "db_edges (delete_facts sid d) = filter (\<lambda>r. eg_snapshot_id r \<noteq> sid) (db_edges d)"
  "db_assertions (delete_facts sid d) = filter (\<lambda>r. as_snapshot_id r \<noteq> sid) (db_assertions d)"
  "db_observations (delete_facts sid d) = filter (\<lambda>r. ob_snapshot_id r \<noteq> sid) (db_observations d)"
  "db_evidence (delete_facts sid d) = filter (\<lambda>r. ee_snapshot_id r \<noteq> sid) (db_evidence d)"
  "db_derivations (delete_facts sid d) = filter (\<lambda>r. dv_snapshot_id r \<noteq> sid) (db_derivations d)"
  "db_diagnostics (delete_facts sid d) = filter (\<lambda>r. dg_snapshot_id r \<noteq> sid) (db_diagnostics d)"
  by (simp_all add: delete_facts_def)

lemma unique_index_filter: "unique_index w key xs \<Longrightarrow> unique_index w key (filter p xs)"
proof -
  assume "unique_index w key xs"
  then have "distinct (map key (filter w xs))" by (simp add: unique_index_def)
  then have "distinct (map key (filter p (filter w xs)))" by (rule distinct_map_filter)
  moreover have "filter p (filter w xs) = filter w (filter p xs)" by (simp add: conj_commute)
  ultimately show ?thesis by (simp add: unique_index_def)
qed

lemma fk_filter:
  assumes "fk ref rows targets"
    and "\<And>r k. r \<in> set rows \<Longrightarrow> p r \<Longrightarrow> ref r = Some k \<Longrightarrow> k \<in> set targets \<Longrightarrow> k \<in> set targets'"
  shows "fk ref (filter p rows) targets'"
  using assms by (fastforce simp: fk_def list_all_iff split: option.splits)

lemma list_all_filter: "list_all P xs \<Longrightarrow> list_all P (filter p xs)"
  by (simp add: list_all_iff)

lemma constraints_delete_facts:
  assumes "constraints d" shows "constraints (delete_facts sid d)"
proof -
  have "foreign_keys d" using assms by (simp add: constraints_def)
  then have "foreign_keys (delete_facts sid d)"
    unfolding foreign_keys_def Let_def
    by (auto simp: facts_of_delete with_snapshot_def elim!: fk_filter)
  then show ?thesis
    using assms unfolding constraints_def
    by (simp add: list_all_filter unique_index_filter uq_ri_nodes_def uq_ri_edges_def
        uq_ri_assertions_def uq_ri_observations_def uq_ri_evidence_def uq_ri_derivations_def uq_ri_diagnostics_def)
qed

lemma delete_facts_evolves:
  assumes "constraints d" and "find_snapshot d sid = Some r" and "sn_state r \<noteq> ''completed''"
  shows "evolves d (delete_facts sid d)"
proof -
  have "sn_snapshot_id q \<noteq> sid" if "completed_in d q" for q
    using find_snapshot_row [OF assms(1), of q] that assms(2,3) by (auto simp: completed_in_def)
  moreover have "completed_in (delete_facts sid d) q \<longleftrightarrow> completed_in d q" for q
    by (simp add: completed_in_def)
  ultimately show ?thesis
    by (fastforce simp: evolves_def facts_at_def facts_of_delete)
qed

lemma keeps_purge [keeps_intros]: "keeps (sound d0) (purge_snapshot_facts sid)"
proof (rule keepsI)
  fix s assume s: "sound d0 s"
  let ?del = "\<lambda>s. s\<lparr>se_flushed := delete_facts sid (se_flushed s), se_mem := delete_facts sid (se_flushed s)\<rparr>"
  obtain r s1 where f: "flush s = (r, s1)" by force
  then have s1: "sound d0 s1" using keepsD [OF keeps_flush s] by blast
  show "sound d0 (snd (purge_snapshot_facts sid s))"
  proof (cases "r = Inr () \<and> map_option sn_state (find_snapshot (se_mem s1) sid) = Some ''failed''")
    case True
    then have m: "se_mem s1 = se_flushed s1" using f by (auto simp: flush_Inr)
    then have "evolves (se_flushed s1) (delete_facts sid (se_flushed s1))"
      using True s1 by (auto simp: sound_def intro: delete_facts_evolves)
    then have "sound d0 (?del s1)"
      using s1 by (auto simp: sound_def constraints_delete_facts no_moves_self intro: evolves_trans)
    then have "sound d0 (snd (commit (?del s1)))" using keeps_commit by (simp add: keeps_def)
    then show ?thesis
      using True f
      by (cases "commit (?del s1)")
        (auto simp: purge_snapshot_facts_def query_def bindS_def getS_def returnS_def split: sum.splits)
  next
    case False
    then show ?thesis
      using f s1 by (auto simp: purge_snapshot_facts_def query_def bindS_def getS_def returnS_def split: sum.splits)
  qed
qed

lemma keeps_purge_each [keeps_intros]: "keeps (sound d0) (purge_each sids)"
  by (induction sids) (auto intro!: keeps_intros)

lemma keeps_purge_orphaned [keeps_intros]: "keeps (sound d0) (purge_orphaned_failed_facts n)"
  unfolding purge_orphaned_failed_facts_def by (intro keeps_intros)

lemma keeps_mark_failed [keeps_intros]: "keeps (sound d0) (mark_failed sid code)"
  unfolding mark_failed_def by (intro keeps_intros) simp_all

section \<open>Properties\<close>

lemma bindS_Inr: "bindS m f s = (Inr y, s') \<longleftrightarrow> (\<exists>x s1. m s = (Inr x, s1) \<and> f x s1 = (Inr y, s'))"
  by (auto simp: bindS_def split: prod.splits sum.splits)

lemma query_Inr: "query f s = (Inr y, s') \<longleftrightarrow> flush s = (Inr (), s') \<and> y = f (se_mem s')"
  by (auto simp: query_def bindS_Inr getS_def)

text \<open>A session with nothing pending: a flush changes nothing.\<close>

definition settled :: "session \<Rightarrow> bool" where
  "settled s \<longleftrightarrow> se_mem s = se_flushed s \<and> constraints (se_flushed s)"

lemma flush_settles: "flush s = (Inr (), s') \<Longrightarrow> settled s'"
  by (auto simp: flush_Inr settled_def)

lemma flush_settled:
  assumes "settled s" shows "flush s = (Inr (), s)"
proof -
  have "written_snapshots s = []" "written_facts s = []" "deleted_snapshots s = []" "deleted_facts s = []"
    using assms by (auto simp: settled_def written_snapshots_def written_facts_def deleted_snapshots_def
        deleted_facts_def filter_empty_conv)
  then have "guard_completed_snapshots s = Inr ()" by (simp add: guard_completed_snapshots_def)
  with assms show ?thesis by (simp add: flush_def settled_def)
qed

lemma query_settled: "settled s \<Longrightarrow> query f s = (Inr (f (se_mem s)), s)"
  by (simp add: query_Inr flush_settled)

lemma settled_new: "constraints d \<Longrightarrow> settled (new_session d)"
  by (simp add: settled_def new_session_def)

subsection \<open>Evidence\<close>

text \<open>What the write-time checks promise of a stored evidence record.\<close>

definition valid_evidence :: "unicode \<Rightarrow> ri_evidence \<Rightarrow> bool" where
  "valid_evidence U e \<longleftrightarrow> ee_path e \<noteq> [] \<and> (\<exists>p. normalize_repo_path U p = Inr (ee_path e))
     \<and> ee_granularity e \<in> {''span'', ''file''} \<and> ee_extractor e \<noteq> [] \<and> ee_extractor_version e \<noteq> []
     \<and> 1 \<le> ee_start_line e \<and> ee_start_line e \<le> ee_end_line e \<and> ee_end_line e \<le> ee_logical_line_count e"

lemma evidence_row_Inr:
  assumes "evidence_row U sid record n g b = Inr row"
  shows "valid_evidence U row \<and> ee_snapshot_id row = sid \<and> ee_node_ref row = n \<and> ee_edge_ref row = g
    \<and> ee_observation_ref row = b \<and> ee_logical_line_count row = ev_logical_line_count record"
proof -
  obtain p where p: "normalize_repo_path U (ev_path record) = Inr p"
    using assms by (auto simp: evidence_row_def result_simps split: sum.splits)
  show ?thesis
    using assms p by (auto simp: evidence_row_def valid_evidence_def Let_def split: if_splits)
qed

lemma evidence_fact_id [simp]: "evidence_fact (r\<lparr>ee_id := i\<rparr>) = evidence_fact r"
  by (simp add: evidence_fact_def)

lemma find_append_new: "find P xs = None \<Longrightarrow> P y \<Longrightarrow> find P (xs @ [y]) = Some y"
  by (induction xs) (auto split: if_splits)

lemma add_evidence_Inr:
  assumes "add_evidence U sid record n g b s = (Inr i, s')"
  shows "\<exists>row e. evidence_row U sid record n g b = Inr row \<and> settled s' \<and> ee_id e = i
    \<and> find (\<lambda>e. ee_snapshot_id e = sid \<and> same_parent row e \<and> evidence_fact e = evidence_fact row)
        (db_evidence (se_mem s')) = Some e
    \<and> ee_logical_line_count e = ev_logical_line_count record"
proof -
  let ?P = "\<lambda>row e. ee_snapshot_id e = sid \<and> same_parent row e \<and> evidence_fact e = evidence_fact row"
  obtain row s1 where row: "evidence_row U sid record n g b = Inr row" and f: "flush s = (Inr (), s1)"
    and rest: "(case find (?P row) (db_evidence (se_mem s1)) of
         Some e \<Rightarrow> if ee_logical_line_count e \<noteq> ev_logical_line_count record
           then raiseS (SnapshotSealError ''conflicting logical_line_count for duplicate evidence'')
           else returnS (ee_id e)
       | None \<Rightarrow> bindS (insert_row db_evidence ee_id (add_evidence_row row)) (\<lambda>i.
           bindS flush (\<lambda>_. returnS i))) s1 = (Inr i, s')"
    using assms unfolding add_evidence_def bindS_Inr query_Inr liftS_def by auto
  note r = evidence_row_Inr [OF row]
  show ?thesis
  proof (cases "find (?P row) (db_evidence (se_mem s1))")
    case (Some e)
    then show ?thesis
      using rest row flush_settles [OF f] by (auto simp: raiseS_def returnS_def split: if_splits)
  next
    case None
    obtain s2 where ins: "insert_row db_evidence ee_id (add_evidence_row row) s1 = (Inr i, s2)" and f2: "flush s2 = (Inr (), s')"
      using rest None by (auto simp: bindS_Inr returnS_def)
    have m: "se_mem s' = add_evidence_row row i (se_mem s1)"
      using ins f2 by (auto simp: insert_row_def Let_def flush_Inr)
    have "?P row (row\<lparr>ee_id := i\<rparr>)" using r by (auto simp: same_parent_def)
    then have "find (?P row) (db_evidence (se_mem s')) = Some (row\<lparr>ee_id := i\<rparr>)"
      unfolding m add_evidence_row_def using find_append_new [OF None] by simp
    then show ?thesis using row flush_settles [OF f2] r by auto
  qed
qed

text \<open>
  Evidence that was accepted is stored with a normalized non-empty repository path, a
  known granularity, a named extractor and a one-based span within the file, under the
  parent it was given for; and giving the same evidence again finds that row and changes nothing.
\<close>

theorem add_evidence_valid_and_idempotent:
  assumes "add_evidence U sid record n g b s = (Inr i, s')"
  shows "(\<exists>row. evidence_row U sid record n g b = Inr row \<and> valid_evidence U row
      \<and> (\<exists>e \<in> set (db_evidence (se_mem s')). ee_id e = i \<and> ee_snapshot_id e = sid \<and> same_parent row e
           \<and> evidence_fact e = evidence_fact row \<and> ee_logical_line_count e = ee_logical_line_count row))
    \<and> add_evidence U sid record n g b s' = (Inr i, s')"
proof -
  let ?P = "\<lambda>row e. ee_snapshot_id e = sid \<and> same_parent row e \<and> evidence_fact e = evidence_fact row"
  obtain row e where row: "evidence_row U sid record n g b = Inr row" and set: "settled s'" and id: "ee_id e = i"
    and e: "find (?P row) (db_evidence (se_mem s')) = Some e" and llc: "ee_logical_line_count e = ev_logical_line_count record"
    using add_evidence_Inr [OF assms] by blast
  have "add_evidence U sid record n g b s' = (Inr i, s')"
    using row id e llc by (simp add: add_evidence_def bindS_def liftS_def returnS_def query_settled [OF set])
  moreover have "e \<in> set (db_evidence (se_mem s')) \<and> ?P row e"
    using e by (auto simp: find_Some_iff)
  ultimately show ?thesis using row id llc evidence_row_Inr [OF row] by auto
qed

text \<open>A building snapshot with one node, to apply the properties to.\<close>

definition sample_node_row :: ri_node where
  "sample_node_row = \<lparr> nd_id = 1, nd_snapshot_id = ''b'', nd_stable_key = ''repo:root'', nd_node_kind = ''repository'',
     nd_name = None, nd_language = None, nd_truth_class = ''observed'', nd_properties = None \<rparr>"

definition sample_build :: db where
  "sample_build = sample_db\<lparr>db_nodes := [sample_node_row]\<rparr>"

definition sample_evidence_arg :: evidence_arg where
  "sample_evidence_arg = \<lparr> ev_path = ''./src/a.py'', ev_start_line = 1, ev_end_line = 3, ev_granularity = ''span'',
     ev_extractor = ''p'', ev_extractor_version = ''1'', ev_logical_line_count = 9 \<rparr>"

lemma constraints_sample_build: "constraints sample_build"
  by code_simp

theorem add_evidence_valid_and_idempotent_witness:
  "\<exists>i s'. add_evidence ascii_unicode ''b'' sample_evidence_arg (Some 1) None None (new_session sample_build) = (Inr i, s')
     \<and> add_evidence ascii_unicode ''b'' sample_evidence_arg (Some 1) None None s' = (Inr i, s')"
proof -
  let ?r = "add_evidence ascii_unicode ''b'' sample_evidence_arg (Some 1) None None (new_session sample_build)"
  have "fst ?r = Inr 1" by code_simp
  then obtain s' where r: "?r = (Inr 1, s')" by (metis prod.collapse)
  then show ?thesis using add_evidence_valid_and_idempotent [OF r] by blast
qed

subsection \<open>Retention\<close>

lemma facts_at_delete: "facts_at sid' (delete_facts sid d) = (if sid' = sid then {} else facts_at sid' d)"
  by (auto simp: facts_at_def facts_of_delete)

lemma settled_del: "settled s \<Longrightarrow> settled (s\<lparr>se_flushed := delete_facts sid (se_flushed s), se_mem := delete_facts sid (se_flushed s)\<rparr>)"
  by (simp add: settled_def constraints_delete_facts)

definition is_failed :: "db \<Rightarrow> string \<Rightarrow> bool" where
  "is_failed d sid \<longleftrightarrow> map_option sn_state (find_snapshot d sid) = Some ''failed''"

lemma purge_failed:
  assumes "settled s" and "is_failed (se_mem s) sid"
  shows "purge_snapshot_facts sid s =
    (Inr (length (filter (\<lambda>f. fact_snapshot f = sid) (facts_of (se_mem s)))),
     s\<lparr>se_committed := delete_facts sid (se_mem s), se_flushed := delete_facts sid (se_mem s), se_mem := delete_facts sid (se_mem s)\<rparr>)"
  using flush_settled [OF settled_del [OF assms(1), of sid]] assms
  by (auto simp: purge_snapshot_facts_def bindS_def query_settled returnS_def commit_def settled_def is_failed_def)

lemma purge_other:
  assumes "settled s" and "\<not> is_failed (se_mem s) sid" shows "purge_snapshot_facts sid s = (Inr 0, s)"
  using assms by (auto simp: purge_snapshot_facts_def bindS_def query_settled returnS_def is_failed_def)

text \<open>
  Purging removes every fact of a failed snapshot, counts the rows it removed, keeps all
  snapshot rows and the facts of every other snapshot; a snapshot in any other state is left
  alone and the answer is 0.
\<close>

theorem purge_only_failed:
  assumes "settled s"
  shows "\<exists>n s'. purge_snapshot_facts sid s = (Inr n, s') \<and> settled s'
    \<and> db_snapshots (se_mem s') = db_snapshots (se_mem s)
    \<and> (if is_failed (se_mem s) sid
       then facts_at sid (se_mem s') = {} \<and> se_committed s' = se_mem s'
         \<and> n = length (filter (\<lambda>f. fact_snapshot f = sid) (facts_of (se_mem s)))
         \<and> (\<forall>sid'. sid' \<noteq> sid \<longrightarrow> facts_at sid' (se_mem s') = facts_at sid' (se_mem s))
       else n = 0 \<and> s' = s)"
  using purge_failed [OF assms] purge_other [OF assms] assms
  by (cases "is_failed (se_mem s) sid") (auto simp: facts_at_delete settled_def constraints_delete_facts)

definition failed_db :: db where
  "failed_db = sample_db\<lparr>db_snapshots := [sample_snapshot ''c'' ''completed'', sample_snapshot ''b'' ''failed''],
     db_nodes := [sample_node_row]\<rparr>"

lemma constraints_failed_db: "constraints failed_db"
  by code_simp

theorem purge_only_failed_witness:
  "\<exists>s'. purge_snapshot_facts ''b'' (new_session failed_db) = (Inr 1, s')
     \<and> facts_at ''b'' (se_mem s') = {} \<and> facts_at ''c'' (se_mem s') = facts_at ''c'' failed_db"
proof -
  have "is_failed (se_mem (new_session failed_db)) ''b''"
    and "length (filter (\<lambda>f. fact_snapshot f = ''b'') (facts_of (se_mem (new_session failed_db)))) = 1"
    by code_simp+
  then show ?thesis
    using purge_only_failed [OF settled_new [OF constraints_failed_db], of "''b''"] by (auto simp: new_session_def)
qed

text \<open>Every fact of a snapshot hangs on a node, an observation or a diagnostic of it.\<close>

lemma fk_in: "fk ref rows targets \<Longrightarrow> r \<in> set rows \<Longrightarrow> ref r = Some k \<Longrightarrow> k \<in> set targets"
  by (force simp: fk_def list_all_iff)

lemma foreign_keysD:
  assumes "foreign_keys d"
  shows fk_edge: "fk (\<lambda>e. Some (eg_snapshot_id e, eg_subject_key e)) (db_edges d) (map (\<lambda>n. (nd_snapshot_id n, nd_stable_key n)) (db_nodes d))"
    and fk_assertion: "fk (\<lambda>a. Some (as_snapshot_id a, as_subject_key a)) (db_assertions d) (map (\<lambda>n. (nd_snapshot_id n, nd_stable_key n)) (db_nodes d))"
    and fk_evidence_node: "fk (\<lambda>e. with_snapshot (ee_snapshot_id e) (ee_node_ref e)) (db_evidence d) (map (\<lambda>n. (nd_snapshot_id n, nd_id n)) (db_nodes d))"
    and fk_evidence_edge: "fk (\<lambda>e. with_snapshot (ee_snapshot_id e) (ee_edge_ref e)) (db_evidence d) (map (\<lambda>n. (eg_snapshot_id n, eg_id n)) (db_edges d))"
    and fk_evidence_observation: "fk (\<lambda>e. with_snapshot (ee_snapshot_id e) (ee_observation_ref e)) (db_evidence d) (map (\<lambda>n. (ob_snapshot_id n, ob_id n)) (db_observations d))"
    and fk_derivation_edge: "fk (\<lambda>r. with_snapshot (dv_snapshot_id r) (dv_edge_ref r)) (db_derivations d) (map (\<lambda>n. (eg_snapshot_id n, eg_id n)) (db_edges d))"
    and fk_derivation_assertion: "fk (\<lambda>r. with_snapshot (dv_snapshot_id r) (dv_assertion_ref r)) (db_derivations d) (map (\<lambda>n. (as_snapshot_id n, as_id n)) (db_assertions d))"
  using assms by (simp_all add: foreign_keys_def Let_def)

lemma fk_parent:
  assumes "fk (\<lambda>e. with_snapshot (sid_of e) (ref e)) rows (map (\<lambda>n. (sid_of' n, id_of n)) targets)"
    and "r \<in> set rows" and "ref r = Some i"
  shows "\<exists>n \<in> set targets. sid_of' n = sid_of r"
  using fk_in [OF assms(1,2), of "(sid_of r, i)"] assms(3) by (auto simp: with_snapshot_def)

lemma fk_key:
  assumes "fk (\<lambda>e. Some (sid_of e, key e)) rows (map (\<lambda>n. (sid_of' n, key' n)) targets)" and "r \<in> set rows"
  shows "\<exists>n \<in> set targets. sid_of' n = sid_of r"
  using fk_in [OF assms(1,2) refl] by auto

lemma evidence_has_parent:
  "ck_ri_evidence e \<Longrightarrow> \<exists>i. ee_node_ref e = Some i \<or> ee_edge_ref e = Some i \<or> ee_observation_ref e = Some i"
  by (cases "ee_node_ref e"; cases "ee_edge_ref e"; cases "ee_observation_ref e") (simp_all add: ck_ri_evidence_def present_def)

lemma derivation_has_parent:
  "ck_ri_derivations r \<Longrightarrow> \<exists>i. dv_edge_ref r = Some i \<or> dv_assertion_ref r = Some i"
  by (cases "dv_edge_ref r"; cases "dv_assertion_ref r") (simp_all add: ck_ri_derivations_def present_def)

lemma fact_has_anchor:
  assumes "constraints d" and "f \<in> facts_at sid d"
  shows "(\<exists>n \<in> set (db_nodes d). nd_snapshot_id n = sid) \<or> (\<exists>b \<in> set (db_observations d). ob_snapshot_id b = sid)
    \<or> (\<exists>g \<in> set (db_diagnostics d). dg_snapshot_id g = sid)"
proof -
  have F: "foreign_keys d" and evs: "list_all ck_ri_evidence (db_evidence d)" and dvs: "list_all ck_ri_derivations (db_derivations d)"
    using assms(1) by (simp_all add: constraints_def)
  note edge = fk_key [OF fk_edge [OF F]] and assertion = fk_key [OF fk_assertion [OF F]]
  have evidence: "(\<exists>n \<in> set (db_nodes d). nd_snapshot_id n = ee_snapshot_id e)
      \<or> (\<exists>b \<in> set (db_observations d). ob_snapshot_id b = ee_snapshot_id e)" if e: "e \<in> set (db_evidence d)" for e
  proof -
    have "ck_ri_evidence e" using evs e by (simp add: list_all_iff)
    then obtain i where "ee_node_ref e = Some i \<or> ee_edge_ref e = Some i \<or> ee_observation_ref e = Some i"
      using evidence_has_parent by blast
    then show ?thesis
      using fk_parent [OF fk_evidence_node [OF F] e] fk_parent [OF fk_evidence_edge [OF F] e] edge
        fk_parent [OF fk_evidence_observation [OF F] e] by metis
  qed
  have derivation: "\<exists>n \<in> set (db_nodes d). nd_snapshot_id n = dv_snapshot_id r" if r: "r \<in> set (db_derivations d)" for r
  proof -
    have "ck_ri_derivations r" using dvs r by (simp add: list_all_iff)
    then obtain i where "dv_edge_ref r = Some i \<or> dv_assertion_ref r = Some i"
      using derivation_has_parent by blast
    then show ?thesis
      using fk_parent [OF fk_derivation_edge [OF F] r] fk_parent [OF fk_derivation_assertion [OF F] r] edge assertion by metis
  qed
  have f: "f \<in> set (facts_of d)" "fact_snapshot f = sid" using assms(2) by (simp_all add: facts_at_def)
  show ?thesis
    by (cases f) (use f edge assertion evidence derivation in \<open>force simp: facts_of_def\<close>)+
qed

lemma purge_each_settled:
  assumes "settled s"
  shows "\<exists>n s'. purge_each sids s = (Inr n, s') \<and> settled s' \<and> db_snapshots (se_mem s') = db_snapshots (se_mem s)
    \<and> (\<forall>sid. facts_at sid (se_mem s') = (if sid \<in> set sids \<and> is_failed (se_mem s) sid
         then {} else facts_at sid (se_mem s)))"
  using assms
proof (induction sids arbitrary: s)
  case (Cons x xs)
  obtain n s1 where p: "purge_snapshot_facts x s = (Inr n, s1)" and s1: "settled s1"
    and same: "db_snapshots (se_mem s1) = db_snapshots (se_mem s)"
    and f1: "\<forall>sid. facts_at sid (se_mem s1) = (if sid = x \<and> is_failed (se_mem s) x then {} else facts_at sid (se_mem s))"
    using purge_failed [OF Cons.prems, of x] purge_other [OF Cons.prems, of x] Cons.prems
    by (cases "is_failed (se_mem s) x")
      (auto simp: facts_at_delete settled_def constraints_delete_facts)
  have fs: "is_failed (se_mem s1) sid = is_failed (se_mem s) sid" for sid
    using same by (simp add: find_snapshot_def is_failed_def)
  obtain m s' where "purge_each xs s1 = (Inr m, s')" "settled s'" "db_snapshots (se_mem s') = db_snapshots (se_mem s1)"
    "\<forall>sid. facts_at sid (se_mem s') = (if sid \<in> set xs \<and> is_failed (se_mem s) sid then {} else facts_at sid (se_mem s1))"
    using Cons.IH [OF s1] unfolding fs by blast
  then show ?case using p f1 same by (simp add: bindS_def returnS_def)
qed (simp add: returnS_def)

text \<open>
  A sweep whose limit reaches all failed snapshots leaves none of them with a fact of any
  kind, although it only looks for nodes, observations and diagnostics; the facts of all other
  snapshots stay.
\<close>

theorem sweep_clears_failed:
  assumes s: "settled s" and limit: "length (db_snapshots (se_mem s)) \<le> limit"
  shows "\<exists>n s'. purge_orphaned_failed_facts limit s = (Inr n, s') \<and> settled s'
    \<and> (\<forall>r \<in> set (db_snapshots (se_mem s)). facts_at (sn_snapshot_id r) (se_mem s') =
         (if sn_state r = ''failed'' then {} else facts_at (sn_snapshot_id r) (se_mem s)))"
proof -
  let ?d = "se_mem s" and ?c = "orphaned_failed limit (se_mem s)"
  have c: "constraints ?d" using s by (simp add: settled_def)
  have found: "is_failed ?d (sn_snapshot_id r) \<longleftrightarrow> sn_state r = ''failed''" if "r \<in> set (db_snapshots ?d)" for r
    using find_snapshot_row [OF c that] by (simp add: is_failed_def)
  have all: "sn_snapshot_id r \<in> set ?c" if r: "r \<in> set (db_snapshots ?d)" "sn_state r = ''failed''"
      and f: "facts_at (sn_snapshot_id r) ?d \<noteq> {}" for r
  proof -
    have "length (filter p (db_snapshots ?d)) \<le> limit" for p
      using limit length_filter_le le_trans by blast
    then have whole: "set (orphaned_failed limit ?d) = set (orphaned_failed (length (db_snapshots ?d)) ?d)"
      by (simp add: orphaned_failed_def)
    obtain x where "x \<in> facts_at (sn_snapshot_id r) ?d" using f by blast
    from fact_has_anchor [OF c this] r show ?thesis
      unfolding whole by (auto simp: orphaned_failed_def list_ex_iff)
  qed
  obtain n s' where "purge_each ?c s = (Inr n, s')" "settled s'"
    "\<forall>sid. facts_at sid (se_mem s') = (if sid \<in> set ?c \<and> is_failed ?d sid then {} else facts_at sid ?d)"
    using purge_each_settled [OF s] by blast
  moreover from this have "purge_orphaned_failed_facts limit s = (Inr n, s')"
    by (simp add: purge_orphaned_failed_facts_def bindS_def query_settled [OF s])
  ultimately show ?thesis using all found by auto
qed

theorem sweep_clears_failed_witness:
  "\<exists>n s'. purge_orphaned_failed_facts 20 (new_session failed_db) = (Inr n, s') \<and> facts_at ''b'' (se_mem s') = {}"
proof -
  have "length (db_snapshots (se_mem (new_session failed_db))) \<le> 20"
    and m: "sample_snapshot ''b'' ''failed'' \<in> set (db_snapshots (se_mem (new_session failed_db)))"
    by (simp_all add: new_session_def failed_db_def)
  moreover have "sn_snapshot_id (sample_snapshot ''b'' ''failed'') = ''b''" "sn_state (sample_snapshot ''b'' ''failed'') = ''failed''"
    by (simp_all add: sample_snapshot_def)
  ultimately show ?thesis
    using sweep_clears_failed [OF settled_new [OF constraints_failed_db], of 20] by force
qed

subsection \<open>Reuse by semantic identity\<close>

lemma encode_utf8_Inr: "encode_utf8 s = Inr t \<Longrightarrow> t = s"
  by (auto simp: encode_utf8_def split: if_splits)

lemma mapR_encode: "mapR encode_utf8 xs = Inr ys \<Longrightarrow> ys = xs"
  by (induction xs arbitrary: ys) (auto simp: result_simps dest: encode_utf8_Inr)

lemma normalize_producers_idem:
  assumes U: "nfc_idem U" and ok: "normalize_producer_version_set U ps = Inr qs"
  shows "normalize_producer_version_set U qs = Inr qs"
proof -
  have qs: "qs = sort (remdups (map (u_nfc U) ps))"
    using ok mapR_encode by (auto simp: normalize_producer_version_set_def)
  have "map (u_nfc U) qs = qs"
    by (rule map_idI) (use U in \<open>auto simp: qs nfc_idem_def\<close>)
  moreover have "sort (remdups qs) = qs" by (simp add: qs distinct_remdups_id sorted_sort_id)
  ultimately show ?thesis using ok qs by (simp add: normalize_producer_version_set_def)
qed

lemma producer_set_hash_idem:
  assumes "nfc_idem U" and "normalize_producer_version_set U ps = Inr qs"
  shows "producer_set_hash U H qs = producer_set_hash U H ps"
  using assms normalize_producers_idem [OF assms] by (simp add: producer_set_hash_def)

lemma canonS_Inr: "canonS r s = (Inr x, s') \<longleftrightarrow> r = Inr x \<and> s' = s"
  by (auto simp: canonS_def liftS_def split: sum.splits)

lemma unchanged_require_matching:
  "require_matching_repository rid rvn s = (Inr p, s') \<Longrightarrow> s' = s"
  by (auto simp: require_matching_repository_def bindS_Inr liftS_def getS_def raiseS_def returnS_def
      split: option.splits if_splits)

lemma resolve_config_hash_same:
  "resolve_config_hash U H c h ss ps s = (Inr x, s') \<Longrightarrow> s' = s"
  by (auto simp: resolve_config_hash_def bindS_Inr canonS_Inr raiseS_def returnS_def split: if_splits)

lemma resolve_given_hash:
  "resolve_config_hash U H None (Some h) ss ps s = (Inr x, s') \<Longrightarrow> h \<noteq> [] \<Longrightarrow> x = h"
  by (cases h) (auto simp: resolve_config_hash_def bindS_Inr canonS_Inr raiseS_def returnS_def split: if_splits)

lemma begin_snapshot_Inr:
  assumes U: "nfc_idem U" and ok: "begin_snapshot U H u rid rvn ps sv None (Some h) sk pk s = (Inr r, s')" and h: "h \<noteq> []"
  shows "settled s' \<and> r \<in> set (db_snapshots (se_mem s')) \<and> sn_state r = ''building'' \<and> sn_snapshot_id r = ''snap_'' @ u
    \<and> (\<exists>ph. producer_set_hash U H ps = Inr ph \<and> snapshot_identity r = (rid, rv_value rvn, sv, ph, h))
    \<and> sn_revision_kind r = rv_kind rvn \<and> se_mem s' = add_snapshot r (se_mem s)"
proof -
  obtain p s1 qs h' s2 ph where
    m: "require_matching_repository rid rvn s = (Inr p, s1)" and
    q: "normalize_producer_version_set U ps = Inr qs" and
    hh: "resolve_config_hash U H None (Some h) sk pk s1 = (Inr h', s2)" and
    ph: "producer_set_hash U H qs = Inr ph" and
    r: "r = \<lparr> sn_snapshot_id = ''snap_'' @ u, sn_repository_id = rid,
           sn_revision_kind = rv_kind rvn, sn_revision_value = rv_value rvn, sn_revision_ref = rv_ref rvn,
           sn_schema_version = sv, sn_producer_version_set = qs, sn_producer_set_hash = ph,
           sn_config_hash = h', sn_state = ''building'', sn_canonical_graph_hash = None,
           sn_actual_producers = None, sn_failure_code = None, sn_sealed_at = None \<rparr>" and
    f: "flush (s2\<lparr>se_mem := add_snapshot r (se_mem s2)\<rparr>) = (Inr (), s')"
    using ok unfolding begin_snapshot_def Let_def
    by (auto simp: bindS_Inr canonS_Inr raiseS_def returnS_def edit_def split: if_splits)
  have s2: "s2 = s" using unchanged_require_matching [OF m] resolve_config_hash_same [OF hh] by simp
  have "h' = h" using resolve_given_hash [OF hh h] .
  moreover have "producer_set_hash U H ps = Inr ph" using ph producer_set_hash_idem [OF U q] by simp
  moreover have "se_mem s' = add_snapshot r (se_mem s)" using f s2 by (auto simp: flush_Inr)
  ultimately show ?thesis using flush_settles [OF f] r by (simp add: add_snapshot_def snapshot_identity_def)
qed

lemma compute_config_hash_nonempty: "compute_config_hash U H c ss ps = Inr h \<Longrightarrow> h \<noteq> []"
  by (auto simp: compute_config_hash_def sha256_prefixed_def result_simps split: option.splits list.splits)

lemma resolve_nonempty: "resolve_config_hash U H c h ss ps s = (Inr x, s') \<Longrightarrow> x \<noteq> []"
  by (auto simp: resolve_config_hash_def bindS_Inr canonS_Inr raiseS_def returnS_def
      dest: compute_config_hash_nonempty split: if_splits list.splits option.splits)


definition sample_revision :: revision where
  "sample_revision = \<lparr> rv_kind = ''upload'', rv_value = sample_sha, rv_ref = None \<rparr>"


text \<open>
  Owner-scoped lookups never return a snapshot of another owner: what they return belongs
  to a repository of that owner, and a snapshot of somebody else is answered like a missing one.
\<close>

theorem owner_scoped_lookup:
  assumes "get_for_owner sid owner s = (Inr answer, s')"
  shows "(\<forall>r. answer = Some r \<longrightarrow> r \<in> set (db_snapshots (se_mem s')) \<and> sn_snapshot_id r = sid
      \<and> (\<exists>p \<in> set (db_repositories (se_mem s')). rp_id p = sn_repository_id r \<and> rp_owner_id p = owner))
    \<and> ((\<forall>p \<in> set (db_repositories (se_mem s')). rp_owner_id p = owner \<longrightarrow>
          (\<forall>r \<in> set (db_snapshots (se_mem s')). sn_snapshot_id r = sid \<longrightarrow> sn_repository_id r \<noteq> rp_id p))
        \<longleftrightarrow> answer = None)"
proof -
  have a: "answer = find (\<lambda>r. sn_snapshot_id r = sid \<and> owned_by (se_mem s') owner r) (db_snapshots (se_mem s'))"
    using assms by (simp add: get_for_owner_def query_Inr)
  have "answer = None \<longleftrightarrow> (\<forall>r \<in> set (db_snapshots (se_mem s')). sn_snapshot_id r = sid \<longrightarrow> \<not> owned_by (se_mem s') owner r)"
    by (auto simp: a find_None_iff)
  moreover have "r \<in> set (db_snapshots (se_mem s')) \<and> sn_snapshot_id r = sid \<and> owned_by (se_mem s') owner r"
    if "answer = Some r" for r using that by (auto simp: a find_Some_iff)
  ultimately show ?thesis unfolding owned_by_def list_ex_iff by metis
qed

theorem owner_scoped_lookup_witness:
  "(\<exists>s'. get_for_owner ''c'' ''u'' (new_session sample_db) = (Inr (Some (sample_snapshot ''c'' ''completed'')), s')
      \<and> sample_snapshot ''c'' ''completed'' \<in> set (db_snapshots (se_mem s')))
   \<and> get_for_owner ''c'' ''v'' (new_session sample_db) = (Inr None, new_session sample_db)"
proof -
  let ?s = "new_session sample_db"
  have q: "get_for_owner sid owner ?s =
      (Inr (find (\<lambda>r. sn_snapshot_id r = sid \<and> owned_by sample_db owner r) (db_snapshots sample_db)), ?s)" for sid owner
    using query_settled [OF settled_new [OF constraints_sample_db]] by (simp add: get_for_owner_def new_session_def)
  have u: "get_for_owner ''c'' ''u'' ?s = (Inr (Some (sample_snapshot ''c'' ''completed'')), ?s)"
    and v: "get_for_owner ''c'' ''v'' ?s = (Inr None, ?s)"
    unfolding q by (simp_all add: owned_by_def sample_db_def sample_snapshot_def)
  then show ?thesis using owner_scoped_lookup [OF u] by blast
qed

end
