(* ===== verification/Job_Model.thy ===== *)
theory Job_Model
  imports Snapshot_Store
begin

text \<open>
  The \<^verbatim>\<open>analysis_jobs\<close> table (\<^verbatim>\<open>app/models/analysis_job.py\<close>), the columns of \<^verbatim>\<open>repositories\<close> that analysis
  writes (\<^verbatim>\<open>app/models/repository.py\<close>), the timestamp column type (\<^verbatim>\<open>app/models/types.py\<close>) and the
  database session through which the queue, the service and the worker change them.

  A session has the committed rows and the rows as the open transaction sees them. The view
  changes at once, and a commit checks the constraints; the in-between flush has no effect that
  the code of these components observes. The foreign keys to \<^verbatim>\<open>users\<close> and \<^verbatim>\<open>ri_snapshots\<close> are not part of
  the table's predicate (the store's tables are a different part of the state).
\<close>

section \<open>Timestamps\<close>

text \<open>
  A \<^verbatim>\<open>datetime\<close>: a wall clock in microseconds, for an aware value with the offset of its zone.
\<close>

datatype datetime = Naive int | Aware (wall: int) (utcoffset: int)

primrec replace_utc :: "datetime \<Rightarrow> datetime" where
  "replace_utc (Naive w) = Aware w 0"
| "replace_utc (Aware w z) = Aware w 0"

primrec astimezone_utc :: "datetime \<Rightarrow> datetime" where
  "astimezone_utc (Naive w) = Aware w 0"
| "astimezone_utc (Aware w z) = Aware (w - z) 0"

primrec is_naive :: "datetime \<Rightarrow> bool" where
  "is_naive (Naive w) = True"
| "is_naive (Aware w z) = False"

definition process_bind_param :: "datetime option \<Rightarrow> datetime option" where
  "process_bind_param v = (case v of None \<Rightarrow> None
     | Some value \<Rightarrow> if is_naive value then Some (replace_utc value) else Some (astimezone_utc value))"

definition process_result_value :: "datetime option \<Rightarrow> datetime option" where
  "process_result_value v = (case v of None \<Rightarrow> None
     | Some value \<Rightarrow> if is_naive value then Some (replace_utc value) else Some (astimezone_utc value))"

text \<open>Python's \<^verbatim>\<open><\<close>: two naive values by wall clock, two aware values by instant, anything else raises.\<close>

fun datetime_less :: "datetime \<Rightarrow> datetime \<Rightarrow> bool option" where
  "datetime_less (Naive a) (Naive b) = Some (a < b)"
| "datetime_less (Aware a y) (Aware b z) = Some (a - y < b - z)"
| "datetime_less _ _ = None"

text \<open>What SQLite keeps of a value: the wall clock. What the code takes a value to mean: an instant.\<close>

primrec sqlite_stored :: "datetime \<Rightarrow> datetime" where
  "sqlite_stored (Naive w) = Naive w"
| "sqlite_stored (Aware w z) = Naive w"

primrec instant_of :: "datetime \<Rightarrow> int" where
  "instant_of (Naive w) = w"
| "instant_of (Aware w z) = w - z"

text \<open>
  Every persisted timestamp is read back as an instant in UTC, whatever the writer's zone and
  whether the database keeps the zone or not. The rows below therefore hold instants,
  in microseconds.
\<close>

lemma column_reads_instant:
  assumes "stored = process_bind_param (Some t) \<or> stored = map_option sqlite_stored (process_bind_param (Some t))"
  shows "process_result_value stored = Some (Aware (instant_of t) 0)"
  using assms by (cases t) (auto simp: process_bind_param_def process_result_value_def)

type_synonym instant = int

definition seconds :: "int \<Rightarrow> instant" where
  "seconds n = n * 1000000"

section \<open>Rows\<close>

record analysis_job =
  aj_id :: string
  aj_repository_id :: string
  aj_owner_id :: string
  aj_revision_kind :: string
  aj_revision_value :: string
  aj_config_hash :: string
  aj_status :: string
  aj_stage :: "string option"
  aj_progress :: int
  aj_attempt :: int
  aj_max_attempts :: int
  aj_cancel_requested :: bool
  aj_worker_id :: "string option"
  aj_lease_expires_at :: "instant option"
  aj_next_attempt_at :: "instant option"
  aj_snapshot_id :: "string option"
  aj_error_code :: "string option"
  aj_error_message :: "string option"
  aj_created_at :: instant
  aj_updated_at :: instant
  aj_started_at :: "instant option"
  aj_completed_at :: "instant option"

record repository_record =
  rr_id :: string
  rr_owner_id :: string
  rr_revision_kind :: "string option"
  rr_revision_value :: "string option"
  rr_revision_ref :: "string option"
  rr_status :: string
  rr_analysis_stage :: "string option"
  rr_analysis_progress :: int
  rr_error_message :: "string option"
  rr_analysed_at :: "instant option"
  rr_updated_at :: instant

record jobs_db =
  jd_jobs :: "analysis_job list"
  jd_records :: "repository_record list"

definition effective :: "analysis_job \<Rightarrow> bool" where
  "effective j \<longleftrightarrow> aj_status j \<in> {''queued'', ''running'', ''completed''}"

definition terminal :: "analysis_job \<Rightarrow> bool" where
  "terminal j \<longleftrightarrow> aj_status j \<in> {''completed'', ''failed'', ''cancelled''}"

definition job_identity :: "analysis_job \<Rightarrow> string \<times> string \<times> string" where
  "job_identity j = (aj_repository_id j, aj_revision_value j, aj_config_hash j)"

definition ck_analysis_jobs :: "analysis_job \<Rightarrow> bool" where
  "ck_analysis_jobs j \<longleftrightarrow>
     aj_status j \<in> {''queued'', ''running'', ''completed'', ''failed'', ''cancelled''}
   \<and> aj_revision_kind j \<in> {''git'', ''upload''}
   \<and> 0 \<le> aj_progress j \<and> aj_progress j \<le> 100
   \<and> 0 \<le> aj_attempt j
   \<and> 1 \<le> aj_max_attempts j"

definition uq_analysis_jobs :: "analysis_job list \<Rightarrow> bool" where
  "uq_analysis_jobs js \<longleftrightarrow> unique_index every_row aj_id js
     \<and> unique_index (\<lambda>j. aj_snapshot_id j \<noteq> None) aj_snapshot_id js
     \<and> unique_index effective job_identity js"

definition fk_repository_revision :: "repository_record list \<Rightarrow> analysis_job \<Rightarrow> bool" where
  "fk_repository_revision rs j \<longleftrightarrow> list_ex (\<lambda>r. rr_id r = aj_repository_id j
     \<and> rr_revision_kind r = Some (aj_revision_kind j) \<and> rr_revision_value r = Some (aj_revision_value j)) rs"

definition jobs_ok :: "jobs_db \<Rightarrow> bool" where
  "jobs_ok d \<longleftrightarrow> list_all ck_analysis_jobs (jd_jobs d) \<and> uq_analysis_jobs (jd_jobs d)
     \<and> list_all (fk_repository_revision (jd_records d)) (jd_jobs d)
     \<and> unique_index every_row rr_id (jd_records d)"

section \<open>Errors and the session\<close>

datatype job_error =
    JobIntegrityError
  | OperationalError string
  | NotFoundError
  | ServiceError
  | ConflictServiceError "string option"
  | ServiceBusyError
  | JobsAssertionError
  | LeaseLostError string
  | CancellationObserved string
  | ResourceExceeded string
  | RuntimeError string
  | StoreFailure store_error

record job_session =
  js_committed :: jobs_db
  js_view :: jobs_db

type_synonym ('z, 'r) job_action = "('z job_session_scheme, job_error, 'r) action"

definition open_session :: "jobs_db \<Rightarrow> job_session" where
  "open_session d = \<lparr> js_committed = d, js_view = d \<rparr>"

definition js_rollback :: "('z, unit) job_action" where
  "js_rollback s = (Inr (), s\<lparr>js_view := js_committed s\<rparr>)"

definition js_commit :: "('z, unit) job_action" where
  "js_commit s = (if jobs_ok (js_view s) then (Inr (), s\<lparr>js_committed := js_view s\<rparr>)
     else (Inl JobIntegrityError, s\<lparr>js_view := js_committed s\<rparr>))"

definition set_jobs :: "(analysis_job list \<Rightarrow> analysis_job list) \<Rightarrow> 'z job_session_scheme \<Rightarrow> 'z job_session_scheme" where
  "set_jobs f s = s\<lparr>js_view := (js_view s)\<lparr>jd_jobs := f (jd_jobs (js_view s))\<rparr>\<rparr>"

definition set_records :: "(repository_record list \<Rightarrow> repository_record list) \<Rightarrow> 'z job_session_scheme
    \<Rightarrow> 'z job_session_scheme" where
  "set_records f s = s\<lparr>js_view := (js_view s)\<lparr>jd_records := f (jd_records (js_view s))\<rparr>\<rparr>"

definition jobs :: "'z job_session_scheme \<Rightarrow> analysis_job list" where
  "jobs s = jd_jobs (js_view s)"

definition get_job :: "analysis_job list \<Rightarrow> string \<Rightarrow> analysis_job option" where
  "get_job js jid = find (\<lambda>j. aj_id j = jid) js"

definition get_record :: "repository_record list \<Rightarrow> string \<Rightarrow> repository_record option" where
  "get_record rs rid = find (\<lambda>r. rr_id r = rid) rs"

text \<open>
  \<^verbatim>\<open>UPDATE analysis_jobs SET ... WHERE guard\<close>: the number of matching rows. The SET expressions read
  the old row. A statement that breaks a constraint raises and changes nothing.
\<close>

definition update_rows :: "(analysis_job \<Rightarrow> bool) \<Rightarrow> (analysis_job \<Rightarrow> analysis_job) \<Rightarrow> analysis_job list \<Rightarrow> analysis_job list" where
  "update_rows w f js = map (\<lambda>j. if w j then f j else j) js"

definition execute_update :: "(analysis_job \<Rightarrow> bool) \<Rightarrow> (analysis_job \<Rightarrow> analysis_job) \<Rightarrow> ('z, nat) job_action" where
  "execute_update w f s =
     (let s' = set_jobs (update_rows w f) s in
      if jobs_ok (js_view s') then (Inr (length (filter w (jobs s))), s') else (Inl JobIntegrityError, s))"

text \<open>\<^verbatim>\<open>ORDER BY key LIMIT 1\<close>; rows with equal keys in table order.\<close>

definition first_by :: "(analysis_job \<Rightarrow> int) \<Rightarrow> (analysis_job \<Rightarrow> bool) \<Rightarrow> analysis_job list \<Rightarrow> analysis_job option" where
  "first_by k w js = (case sort_key k (filter w js) of [] \<Rightarrow> None | j # _ \<Rightarrow> Some j)"

section \<open>Facts\<close>

lemma get_job_Some: "get_job js jid = Some j \<Longrightarrow> j \<in> set js \<and> aj_id j = jid"
  by (auto simp: get_job_def find_Some_iff)

lemma jobs_ok_ids: "jobs_ok d \<Longrightarrow> distinct (map aj_id (jd_jobs d))"
  by (simp add: jobs_ok_def uq_analysis_jobs_def unique_index_def)

lemma get_job_row: "distinct (map aj_id js) \<Longrightarrow> j \<in> set js \<Longrightarrow> get_job js (aj_id j) = Some j"
proof (induction js)
  case (Cons i js)
  then show ?case by (cases "i = j") (auto simp: get_job_def)
qed simp

lemma update_rows_ids [simp]: "(\<And>j. aj_id (f j) = aj_id j) \<Longrightarrow> map aj_id (update_rows w f js) = map aj_id js"
  by (induction js) (auto simp: update_rows_def)

lemma get_job_update:
  "(\<And>j. aj_id (f j) = aj_id j) \<Longrightarrow>
     get_job (update_rows w f js) jid = map_option (\<lambda>j. if w j then f j else j) (get_job js jid)"
  by (induction js) (auto simp: update_rows_def get_job_def)

lemma first_by_Some:
  assumes "first_by k w js = Some j"
  shows "j \<in> set js" "w j" "i \<in> set js \<Longrightarrow> w i \<Longrightarrow> k j \<le> k i"
proof -
  obtain rest where r: "sort_key k (filter w js) = j # rest"
    using assms by (auto simp: first_by_def split: list.splits)
  then have "set (sort_key k (filter w js)) = insert j (set rest)" by simp
  then have st: "insert j (set rest) = {i \<in> set js. w i}" by simp
  then show "j \<in> set js" "w j" by blast+
  assume "i \<in> set js" "w i"
  then have "i \<in> insert j (set rest)" using st by blast
  moreover have "sorted (map k (j # rest))" using r sorted_sort_key [of k "filter w js"] by simp
  ultimately show "k j \<le> k i" by auto
qed

lemma first_by_None: "first_by k w js = None \<longleftrightarrow> (\<forall>j \<in> set js. \<not> w j)"
proof -
  have "first_by k w js = None \<longleftrightarrow> sort_key k (filter w js) = []" by (auto simp: first_by_def split: list.splits)
  also have "\<dots> \<longleftrightarrow> filter w js = []" by (metis set_sort set_empty)
  finally show ?thesis by (simp add: filter_empty_conv)
qed


lemma unique_index_update:
  assumes "\<And>j. w' (h j) \<Longrightarrow> w j \<and> k (h j) = k j" and "unique_index w k js"
  shows "unique_index w' k (map h js)"
  using assms(2) unfolding unique_index_def
proof (induction js)
  case (Cons j js)
  then show ?case using assms(1) by (auto simp: image_iff split: if_splits) (metis assms(1))+
qed simp

text \<open>An update that keeps the row's identity columns and only ever leaves the effective set.\<close>

definition harmless :: "(analysis_job \<Rightarrow> bool) \<Rightarrow> (analysis_job \<Rightarrow> analysis_job) \<Rightarrow> bool" where
  "harmless w f \<longleftrightarrow> (\<forall>j. w j \<longrightarrow> aj_id (f j) = aj_id j \<and> aj_repository_id (f j) = aj_repository_id j
     \<and> aj_revision_kind (f j) = aj_revision_kind j \<and> job_identity (f j) = job_identity j
     \<and> aj_snapshot_id (f j) = aj_snapshot_id j \<and> (effective (f j) \<longrightarrow> effective j)
     \<and> (ck_analysis_jobs j \<longrightarrow> ck_analysis_jobs (f j)))"

lemma jobs_ok_update:
  assumes ok: "jobs_ok d" and h: "harmless w f"
  shows "jobs_ok (d\<lparr>jd_jobs := update_rows w f (jd_jobs d)\<rparr>)"
proof -
  let ?h = "\<lambda>j. if w j then f j else j"
  have eq: "aj_id (?h j) = aj_id j" "aj_repository_id (?h j) = aj_repository_id j"
    "aj_revision_kind (?h j) = aj_revision_kind j" "job_identity (?h j) = job_identity j"
    "aj_snapshot_id (?h j) = aj_snapshot_id j" "effective (?h j) \<Longrightarrow> effective j"
    "ck_analysis_jobs j \<Longrightarrow> ck_analysis_jobs (?h j)" for j
    using h by (auto simp: harmless_def split: if_splits)
  have "aj_revision_value (?h j) = aj_revision_value j" for j
    using eq(4) [of j] unfolding job_identity_def by (metis Pair_inject)
  then have fk: "fk_repository_revision rs (?h j) = fk_repository_revision rs j" for rs j
    unfolding fk_repository_revision_def eq(2,3) by simp
  have uq: "unique_index every_row aj_id (jd_jobs d)" "unique_index (\<lambda>j. aj_snapshot_id j \<noteq> None) aj_snapshot_id (jd_jobs d)"
    "unique_index effective job_identity (jd_jobs d)"
    using ok by (simp_all add: jobs_ok_def uq_analysis_jobs_def)
  have "unique_index every_row aj_id (map ?h (jd_jobs d))"
    by (rule unique_index_update [OF _ uq(1)]) (simp add: eq(1) del: if_split)
  moreover have "unique_index (\<lambda>j. aj_snapshot_id j \<noteq> None) aj_snapshot_id (map ?h (jd_jobs d))"
    by (rule unique_index_update [OF _ uq(2)]) (simp add: eq(5) del: if_split)
  moreover have "unique_index effective job_identity (map ?h (jd_jobs d))"
    by (rule unique_index_update [OF _ uq(3)]) (use eq(4,6) in blast)
  ultimately have "uq_analysis_jobs (map ?h (jd_jobs d))" by (simp add: uq_analysis_jobs_def)
  moreover have "list_all ck_analysis_jobs (map ?h (jd_jobs d))"
    unfolding list.pred_map comp_def using ok eq(7) by (simp add: jobs_ok_def list.pred_set del: if_split)
  moreover have "list_all (fk_repository_revision (jd_records d)) (map ?h (jd_jobs d))"
    unfolding list.pred_map comp_def fk using ok by (simp add: jobs_ok_def list.pred_set)
  ultimately show ?thesis using ok by (simp add: jobs_ok_def update_rows_def del: list.pred_map)
qed

text \<open>What a session may rely on: both views satisfy the constraints.\<close>

definition js_sound :: "'z job_session_scheme \<Rightarrow> bool" where
  "js_sound s \<longleftrightarrow> jobs_ok (js_committed s) \<and> jobs_ok (js_view s)"

lemma keeps_js_rollback [keeps_intros]: "keeps js_sound js_rollback"
  by (simp add: keeps_def js_sound_def js_rollback_def)

lemma keeps_js_commit [keeps_intros]: "keeps js_sound js_commit"
  by (simp add: keeps_def js_sound_def js_commit_def)

lemma keeps_execute_update [keeps_intros]: "keeps js_sound (execute_update w f)"
  by (auto simp: keeps_def js_sound_def execute_update_def set_jobs_def Let_def)

lemma js_commit_sound [simp]: "js_sound s \<Longrightarrow> js_commit s = (Inr (), s\<lparr>js_committed := js_view s\<rparr>)"
  by (simp add: js_sound_def js_commit_def)

lemma js_sound_open: "js_sound (open_session d) \<longleftrightarrow> jobs_ok d"
  by (simp add: js_sound_def open_session_def)

lemma execute_update_harmless:
  assumes "jobs_ok (js_view s)" and "harmless w f"
  shows "execute_update w f s = (Inr (length (filter w (jobs s))), set_jobs (update_rows w f) s)"
  using jobs_ok_update [OF assms] by (simp add: execute_update_def set_jobs_def Let_def)

end
