(* ===== verification/Job_Queue.thy ===== *)
theory Job_Queue
  imports Job_Model
begin

text \<open>
  The analysis queue (\<^verbatim>\<open>app/workers/control_plane.py\<close>): eligibility, claiming, lease renewal, expiry,
  reclaim, ownership-guarded mutation and the cancellation flag, every method a guarded UPDATE or a read on
  \<^verbatim>\<open>analysis_jobs\<close>.

  The clock is an argument, read where the code reads it. \<^verbatim>\<open>claim\<close> reads a candidate and then
  compares and swaps; the two halves are separate definitions so that another worker can act
  between them. A statement of \<^verbatim>\<open>renew\<close> that the database refuses is an argument too: \<^verbatim>\<open>fault\<close> is the
  text of the exception, if there is one.
\<close>

section \<open>Model\<close>

definition lease_expired :: "datetime \<Rightarrow> datetime \<Rightarrow> bool option" where
  "lease_expired lease_expires_at now =
     (let lease = (if is_naive lease_expires_at \<and> \<not> is_naive now then replace_utc lease_expires_at else lease_expires_at);
          now' = (if \<not> (is_naive lease_expires_at \<and> \<not> is_naive now) \<and> \<not> is_naive lease_expires_at \<and> is_naive now
                  then replace_utc now else now) in
      datetime_less lease now')"

record job_lease =
  jl_job_id :: string
  jl_worker_id :: string
  jl_expires_at :: instant
  jl_attempt :: int

datatype renewal_outcome = Renewed | Lost | Deferred

record lease_renewal =
  lr_outcome :: renewal_outcome
  lr_cancel_requested :: bool
  lr_expires_at :: "instant option"

definition held :: "lease_renewal \<Rightarrow> bool" where
  "held r \<longleftrightarrow> lr_outcome r = Renewed"

definition lost :: "lease_renewal \<Rightarrow> bool" where
  "lost r \<longleftrightarrow> lr_outcome r = Lost"

text \<open>\<^verbatim>\<open>DatabaseAnalysisControlPlane\<close>: the configured lease and the dialect of the engine.\<close>

record control_plane =
  cp_lease_seconds :: int
  cp_sqlite :: bool

definition lease_until :: "control_plane \<Rightarrow> instant \<Rightarrow> instant" where
  "lease_until cp now = now + seconds (cp_lease_seconds cp)"

subsection \<open>Claim\<close>

definition eligible :: "instant \<Rightarrow> analysis_job \<Rightarrow> bool" where
  "eligible moment j \<longleftrightarrow> aj_status j = ''queued''
     \<and> (case aj_next_attempt_at j of None \<Rightarrow> True | Some t \<Rightarrow> t \<le> moment)"

definition next_eligible_job_id :: "instant \<Rightarrow> ('z, string option) job_action" where
  "next_eligible_job_id moment =
     getS (\<lambda>s. map_option aj_id (first_by aj_created_at (eligible moment) (jobs s)))"

definition claim_values :: "string \<Rightarrow> instant \<Rightarrow> instant \<Rightarrow> analysis_job \<Rightarrow> analysis_job" where
  "claim_values worker_id expires_at now j = j\<lparr>
     aj_status := ''running'', aj_worker_id := Some worker_id, aj_lease_expires_at := Some expires_at,
     aj_started_at := (case aj_started_at j of None \<Rightarrow> Some now | Some t \<Rightarrow> Some t),
     aj_attempt := aj_attempt j + 1, aj_next_attempt_at := None, aj_updated_at := now\<rparr>"

text \<open>The compare-and-swap half of a claim, on a candidate read before.\<close>

definition claim_candidate :: "control_plane \<Rightarrow> instant \<Rightarrow> string \<Rightarrow> string \<Rightarrow> ('z, job_lease option) job_action" where
  "claim_candidate cp now worker_id candidate_id =
     (let expires_at = lease_until cp now in
      bindS (execute_update (\<lambda>j. aj_id j = candidate_id \<and> aj_status j = ''queued'')
              (claim_values worker_id expires_at now)) (\<lambda>rowcount.
      bindS js_commit (\<lambda>_.
        if rowcount = 0 then returnS None
        else bindS (getS (\<lambda>s. get_job (jobs s) candidate_id)) (\<lambda>claimed.
          case claimed of
            None \<Rightarrow> returnS None
          | Some j \<Rightarrow> returnS (Some \<lparr> jl_job_id = candidate_id, jl_worker_id = worker_id,
              jl_expires_at = expires_at, jl_attempt = aj_attempt j \<rparr>)))))"

definition claim :: "control_plane \<Rightarrow> instant \<Rightarrow> string \<Rightarrow> ('z, job_lease option) job_action" where
  "claim cp now worker_id =
     bindS (next_eligible_job_id now) (\<lambda>candidate_id.
       case candidate_id of None \<Rightarrow> returnS None | Some c \<Rightarrow> claim_candidate cp now worker_id c)"

subsection \<open>Renew\<close>

definition renew_guard :: "job_lease \<Rightarrow> analysis_job \<Rightarrow> bool" where
  "renew_guard lease j \<longleftrightarrow> aj_id j = jl_job_id lease \<and> aj_status j = ''running''
     \<and> aj_worker_id j = Some (jl_worker_id lease)"

definition renew :: "unicode \<Rightarrow> control_plane \<Rightarrow> string option \<Rightarrow> instant \<Rightarrow> job_lease \<Rightarrow> ('z, lease_renewal) job_action" where
  "renew U cp fault now lease =
     (case fault of
        Some message \<Rightarrow> bindS js_rollback (\<lambda>_.
          if cp_sqlite cp \<and> occurs_in ''locked'' (u_lower U message)
          then returnS \<lparr> lr_outcome = Deferred, lr_cancel_requested = False, lr_expires_at = None \<rparr>
          else raiseS (OperationalError message))
      | None \<Rightarrow>
          let expires_at = lease_until cp now in
          bindS (getS (\<lambda>s. find (renew_guard lease) (jobs s))) (\<lambda>row.
          bindS (execute_update (renew_guard lease) (\<lambda>j. j\<lparr>aj_lease_expires_at := Some expires_at, aj_updated_at := now\<rparr>)) (\<lambda>_.
            case row of
              None \<Rightarrow> bindS js_rollback (\<lambda>_.
                returnS \<lparr> lr_outcome = Lost, lr_cancel_requested = False, lr_expires_at = None \<rparr>)
            | Some j \<Rightarrow> bindS js_commit (\<lambda>_.
                returnS \<lparr> lr_outcome = Renewed, lr_cancel_requested = aj_cancel_requested j,
                  lr_expires_at = Some expires_at \<rparr>))))"

subsection \<open>Expiry and reclaim\<close>

definition lapsed :: "instant \<Rightarrow> analysis_job \<Rightarrow> bool" where
  "lapsed moment j \<longleftrightarrow> aj_status j = ''running''
     \<and> (case aj_lease_expires_at j of None \<Rightarrow> False | Some t \<Rightarrow> t < moment)"

definition expired_job_ids :: "instant \<Rightarrow> ('z, string list) job_action" where
  "expired_job_ids moment =
     getS (\<lambda>s. map aj_id (sort_key (\<lambda>j. (the (aj_lease_expires_at j), aj_created_at j)) (filter (lapsed moment) (jobs s))))"

text \<open>
  A comparison with a NULL column is not true: a job that was read without an owner or without a lease
  matches nothing.
\<close>

definition reclaim_guard :: "instant \<Rightarrow> analysis_job \<Rightarrow> analysis_job \<Rightarrow> bool" where
  "reclaim_guard now job j \<longleftrightarrow> aj_id j = aj_id job \<and> aj_status j = ''running''
     \<and> aj_worker_id job \<noteq> None \<and> aj_worker_id j = aj_worker_id job
     \<and> aj_lease_expires_at job \<noteq> None \<and> aj_lease_expires_at j = aj_lease_expires_at job
     \<and> the (aj_lease_expires_at j) < now"

definition reclaim :: "control_plane \<Rightarrow> instant \<Rightarrow> analysis_job \<Rightarrow> string \<Rightarrow> ('z, job_lease option) job_action" where
  "reclaim cp now job worker_id =
     (let expires_at = lease_until cp now in
      bindS (execute_update (reclaim_guard now job) (\<lambda>j. j\<lparr>aj_worker_id := Some worker_id,
              aj_lease_expires_at := Some expires_at, aj_updated_at := now\<rparr>)) (\<lambda>rowcount.
        if rowcount = 0 then bindS js_rollback (\<lambda>_. returnS None)
        else returnS (Some \<lparr> jl_job_id = aj_id job, jl_worker_id = worker_id, jl_expires_at = expires_at,
          jl_attempt = aj_attempt job \<rparr>)))"

subsection \<open>Ownership-guarded mutation\<close>

text \<open>The columns the worker assigns; the last is \<^verbatim>\<open>updated_at=AnalysisJob.updated_at\<close>.\<close>

datatype job_value =
    Status string | Stage "string option" | Progress int | CancelRequested bool
  | WorkerId "string option" | LeaseExpiresAt "instant option" | NextAttemptAt "instant option"
  | ErrorCode "string option" | ErrorMessage "string option" | CompletedAt "instant option"
  | UpdatedAt instant | UpdatedAtUnchanged

primrec set_value :: "analysis_job \<Rightarrow> job_value \<Rightarrow> analysis_job \<Rightarrow> analysis_job" where
  "set_value old (Status v) j = j\<lparr>aj_status := v\<rparr>"
| "set_value old (Stage v) j = j\<lparr>aj_stage := v\<rparr>"
| "set_value old (Progress v) j = j\<lparr>aj_progress := v\<rparr>"
| "set_value old (CancelRequested v) j = j\<lparr>aj_cancel_requested := v\<rparr>"
| "set_value old (WorkerId v) j = j\<lparr>aj_worker_id := v\<rparr>"
| "set_value old (LeaseExpiresAt v) j = j\<lparr>aj_lease_expires_at := v\<rparr>"
| "set_value old (NextAttemptAt v) j = j\<lparr>aj_next_attempt_at := v\<rparr>"
| "set_value old (ErrorCode v) j = j\<lparr>aj_error_code := v\<rparr>"
| "set_value old (ErrorMessage v) j = j\<lparr>aj_error_message := v\<rparr>"
| "set_value old (CompletedAt v) j = j\<lparr>aj_completed_at := v\<rparr>"
| "set_value old (UpdatedAt v) j = j\<lparr>aj_updated_at := v\<rparr>"
| "set_value old UpdatedAtUnchanged j = j\<lparr>aj_updated_at := aj_updated_at old\<rparr>"

text \<open>\<^verbatim>\<open>onupdate\<close> stamps the row first; an explicit value replaces the stamp.\<close>

definition apply_values :: "instant \<Rightarrow> job_value list \<Rightarrow> analysis_job \<Rightarrow> analysis_job" where
  "apply_values stamp values j = fold (set_value j) values (j\<lparr>aj_updated_at := stamp\<rparr>)"

definition owned_guard :: "string \<Rightarrow> string \<Rightarrow> bool \<Rightarrow> analysis_job \<Rightarrow> bool" where
  "owned_guard job_id worker_id require_cancel_not_requested j \<longleftrightarrow>
     aj_id j = job_id \<and> aj_worker_id j = Some worker_id \<and> aj_status j = ''running''
   \<and> (require_cancel_not_requested \<longrightarrow> \<not> aj_cancel_requested j)"

definition update_owned :: "instant \<Rightarrow> string \<Rightarrow> string \<Rightarrow> job_value list \<Rightarrow> bool \<Rightarrow> ('z, bool) job_action" where
  "update_owned stamp job_id worker_id values require_cancel_not_requested =
     bindS (execute_update (owned_guard job_id worker_id require_cancel_not_requested) (apply_values stamp values))
       (\<lambda>rowcount. returnS (rowcount \<noteq> 0))"

definition cancel_requested :: "string \<Rightarrow> ('z, bool) job_action" where
  "cancel_requested job_id = getS (\<lambda>s. case get_job (jobs s) job_id of None \<Rightarrow> False | Some j \<Rightarrow> aj_cancel_requested j)"

section \<open>What the operations do\<close>

lemma harmless_claim: "harmless (\<lambda>j. aj_id j = c \<and> aj_status j = ''queued'') (claim_values w e now)"
  by (auto simp: harmless_def claim_values_def job_identity_def effective_def ck_analysis_jobs_def)

lemma harmless_renew: "harmless (renew_guard l) (\<lambda>j. j\<lparr>aj_lease_expires_at := e, aj_updated_at := now\<rparr>)"
  by (auto simp: harmless_def job_identity_def effective_def ck_analysis_jobs_def)

lemma harmless_reclaim:
  "harmless (reclaim_guard now job) (\<lambda>j. j\<lparr>aj_worker_id := w, aj_lease_expires_at := e, aj_updated_at := now\<rparr>)"
  by (auto simp: harmless_def job_identity_def effective_def ck_analysis_jobs_def)

lemma claim_values_id [simp]: "aj_id (claim_values w e now j) = aj_id j"
  by (simp add: claim_values_def)

lemma set_value_id [simp]: "aj_id (set_value old v j) = aj_id j"
  by (cases v) simp_all

lemma apply_values_id [simp]: "aj_id (apply_values stamp vs j) = aj_id j"
proof -
  have "aj_id (fold (set_value i) vs j) = aj_id j" for i j
    by (induction vs arbitrary: j) simp_all
  then show ?thesis by (simp add: apply_values_def)
qed

lemma keeps_claim_candidate [keeps_intros]: "keeps js_sound (claim_candidate cp now w c)"
  unfolding claim_candidate_def Let_def by (intro keeps_intros)

lemma keeps_claim [keeps_intros]: "keeps js_sound (claim cp now w)"
  unfolding claim_def next_eligible_job_id_def by (intro keeps_intros)

lemma keeps_renew [keeps_intros]: "keeps js_sound (renew U cp fault now l)"
  unfolding renew_def Let_def by (intro keeps_intros)

lemma keeps_reclaim [keeps_intros]: "keeps js_sound (reclaim cp now job w)"
  unfolding reclaim_def Let_def by (intro keeps_intros)

lemma keeps_update_owned [keeps_intros]: "keeps js_sound (update_owned stamp jid w vs req)"
  unfolding update_owned_def by (intro keeps_intros)

text \<open>A guarded update of one row by its id, on a sound session.\<close>

lemma filter_one:
  assumes "distinct (map aj_id js)" and "\<And>j. w j \<Longrightarrow> aj_id j = jid"
  shows "filter w js = (case get_job js jid of None \<Rightarrow> [] | Some j \<Rightarrow> if w j then [j] else [])"
  using assms(1)
proof (induction js)
  case (Cons i js)
  have "filter w js = []" if "aj_id i = jid"
    using Cons.prems that assms(2) unfolding filter_empty_conv by (metis distinct.simps(2) image_eqI list.set_map list.simps(9))
  then show ?case using Cons assms(2) by (auto simp: get_job_def)
qed (simp add: get_job_def)

lemma js_sound_ids: "js_sound s \<Longrightarrow> distinct (map aj_id (jobs s))"
  by (simp add: js_sound_def jobs_ok_ids jobs_def)

lemma js_sound_set_jobs:
  "js_sound s \<Longrightarrow> harmless w f \<Longrightarrow> js_sound (set_jobs (update_rows w f) s)"
  by (simp add: js_sound_def set_jobs_def jobs_ok_update)

definition commit_jobs :: "(analysis_job list \<Rightarrow> analysis_job list) \<Rightarrow> 'z job_session_scheme \<Rightarrow> 'z job_session_scheme" where
  "commit_jobs f s = (let s' = set_jobs f s in s'\<lparr>js_committed := js_view s'\<rparr>)"

lemma jobs_set_jobs [simp]: "jobs (set_jobs f s) = f (jobs s)"
  by (simp add: jobs_def set_jobs_def)

lemma jobs_committed [simp]: "jobs (s\<lparr>js_committed := d\<rparr>) = jobs s"
  by (simp add: jobs_def)

lemma claim_candidate_eq:
  assumes s: "js_sound s"
  shows "claim_candidate cp now w c s =
    (case get_job (jobs s) c of
       Some j \<Rightarrow> if aj_status j = ''queued''
         then (Inr (Some \<lparr> jl_job_id = c, jl_worker_id = w, jl_expires_at = lease_until cp now, jl_attempt = aj_attempt j + 1 \<rparr>),
           commit_jobs (update_rows (\<lambda>j. aj_id j = c \<and> aj_status j = ''queued'') (claim_values w (lease_until cp now) now)) s)
         else (Inr None, s\<lparr>js_committed := js_view s\<rparr>)
     | None \<Rightarrow> (Inr None, s\<lparr>js_committed := js_view s\<rparr>))"
proof -
  let ?g = "\<lambda>j. aj_id j = c \<and> aj_status j = ''queued''" and ?f = "claim_values w (lease_until cp now) now"
  have ex: "execute_update ?g ?f s = (Inr (length (filter ?g (jobs s))), set_jobs (update_rows ?g ?f) s)"
    using s harmless_claim by (intro execute_update_harmless) (simp_all add: js_sound_def)
  have snd: "js_sound (set_jobs (update_rows ?g ?f) s)" by (rule js_sound_set_jobs [OF s harmless_claim])
  have fil: "filter ?g (jobs s) = (case get_job (jobs s) c of None \<Rightarrow> [] | Some j \<Rightarrow> if ?g j then [j] else [])"
    by (rule filter_one [OF js_sound_ids [OF s]]) simp
  have same: "set_jobs (update_rows ?g ?f) s = s" if "filter ?g (jobs s) = []"
  proof -
    have "update_rows ?g ?f (jobs s) = jobs s"
      using that by (auto simp: update_rows_def filter_empty_conv intro!: map_idI)
    then show ?thesis by (simp add: set_jobs_def jobs_def)
  qed
  show ?thesis
    unfolding claim_candidate_def Let_def bindS_def [of "execute_update _ _"] ex
    using snd fil same s get_job_Some [of "jobs s" c]
    by (auto simp: action_defs get_job_update commit_jobs_def Let_def claim_values_def split: option.splits if_splits)
qed

lemma renew_eq:
  assumes s: "js_sound s"
  shows "renew U cp None now l s =
    (case get_job (jobs s) (jl_job_id l) of
       Some j \<Rightarrow> if renew_guard l j
         then (Inr \<lparr> lr_outcome = Renewed, lr_cancel_requested = aj_cancel_requested j, lr_expires_at = Some (lease_until cp now) \<rparr>,
           commit_jobs (update_rows (renew_guard l) (\<lambda>j. j\<lparr>aj_lease_expires_at := Some (lease_until cp now), aj_updated_at := now\<rparr>)) s)
         else (Inr \<lparr> lr_outcome = Lost, lr_cancel_requested = False, lr_expires_at = None \<rparr>, s\<lparr>js_view := js_committed s\<rparr>)
     | None \<Rightarrow> (Inr \<lparr> lr_outcome = Lost, lr_cancel_requested = False, lr_expires_at = None \<rparr>, s\<lparr>js_view := js_committed s\<rparr>))"
proof -
  let ?g = "renew_guard l" and ?f = "\<lambda>j::analysis_job. j\<lparr>aj_lease_expires_at := Some (lease_until cp now), aj_updated_at := now\<rparr>"
  have ex: "execute_update ?g ?f s = (Inr (length (filter ?g (jobs s))), set_jobs (update_rows ?g ?f) s)"
    using s harmless_renew by (intro execute_update_harmless) (simp_all add: js_sound_def)
  have snd: "js_sound (set_jobs (update_rows ?g ?f) s)" by (rule js_sound_set_jobs [OF s harmless_renew])
  have fil: "filter ?g (jobs s) = (case get_job (jobs s) (jl_job_id l) of None \<Rightarrow> [] | Some j \<Rightarrow> if ?g j then [j] else [])"
    by (rule filter_one [OF js_sound_ids [OF s]]) (simp add: renew_guard_def)
  have fd: "find ?g xs = (case filter ?g xs of [] \<Rightarrow> None | j # _ \<Rightarrow> Some j)" for xs
    by (induction xs) auto
  have roll: "js_rollback (set_jobs F s) = (Inr (), s\<lparr>js_view := js_committed s\<rparr>)" for F
    by (simp add: js_rollback_def set_jobs_def)
  show ?thesis
    unfolding renew_def Let_def
    by (cases "get_job (jobs s) (jl_job_id l)")
      (use snd in \<open>simp_all add: action_defs ex fil fd roll commit_jobs_def Let_def\<close>)
qed

lemma reclaim_eq:
  assumes s: "js_sound s"
  shows "reclaim cp now job w s =
    (case get_job (jobs s) (aj_id job) of
       Some j \<Rightarrow> if reclaim_guard now job j
         then (Inr (Some \<lparr> jl_job_id = aj_id job, jl_worker_id = w, jl_expires_at = lease_until cp now, jl_attempt = aj_attempt job \<rparr>),
           set_jobs (update_rows (reclaim_guard now job)
             (\<lambda>j. j\<lparr>aj_worker_id := Some w, aj_lease_expires_at := Some (lease_until cp now), aj_updated_at := now\<rparr>)) s)
         else (Inr None, s\<lparr>js_view := js_committed s\<rparr>)
     | None \<Rightarrow> (Inr None, s\<lparr>js_view := js_committed s\<rparr>))"
proof -
  let ?g = "reclaim_guard now job"
    and ?f = "\<lambda>j::analysis_job. j\<lparr>aj_worker_id := Some w, aj_lease_expires_at := Some (lease_until cp now), aj_updated_at := now\<rparr>"
  have ex: "execute_update ?g ?f s = (Inr (length (filter ?g (jobs s))), set_jobs (update_rows ?g ?f) s)"
    using s harmless_reclaim by (intro execute_update_harmless) (simp_all add: js_sound_def)
  have fil: "filter ?g (jobs s) = (case get_job (jobs s) (aj_id job) of None \<Rightarrow> [] | Some j \<Rightarrow> if ?g j then [j] else [])"
    by (rule filter_one [OF js_sound_ids [OF s]]) (simp add: reclaim_guard_def)
  have roll: "js_rollback (set_jobs F s) = (Inr (), s\<lparr>js_view := js_committed s\<rparr>)" for F
    by (simp add: js_rollback_def set_jobs_def)
  show ?thesis
    unfolding reclaim_def Let_def
    by (cases "get_job (jobs s) (aj_id job)") (simp_all add: action_defs ex fil roll)
qed

lemma update_owned_eq:
  assumes s: "js_sound s" and ok: "update_owned stamp jid w vs req s = (Inr b, s')"
  shows "b \<longleftrightarrow> (\<exists>j. get_job (jobs s) jid = Some j \<and> owned_guard jid w req j)"
    and "s' = set_jobs (update_rows (owned_guard jid w req) (apply_values stamp vs)) s"
    and "\<not> b \<Longrightarrow> s' = s"
proof -
  let ?g = "owned_guard jid w req"
  have fil: "filter ?g (jobs s) = (case get_job (jobs s) jid of None \<Rightarrow> [] | Some j \<Rightarrow> if ?g j then [j] else [])"
    by (rule filter_one [OF js_sound_ids [OF s]]) (simp add: owned_guard_def)
  have b: "b \<longleftrightarrow> filter ?g (jobs s) \<noteq> []" and s': "s' = set_jobs (update_rows ?g (apply_values stamp vs)) s"
    using ok by (auto simp: update_owned_def execute_update_def Let_def action_defs split: if_splits)
  show "b \<longleftrightarrow> (\<exists>j. get_job (jobs s) jid = Some j \<and> ?g j)"
    unfolding b fil by (auto split: option.splits)
  show "s' = set_jobs (update_rows ?g (apply_values stamp vs)) s" by (rule s')
  assume "\<not> b"
  then have "update_rows ?g (apply_values stamp vs) (jobs s) = jobs s"
    unfolding b by (auto simp: update_rows_def filter_empty_conv intro!: map_idI)
  then show "s' = s" by (simp add: s' set_jobs_def jobs_def)
qed

section \<open>Ownership as an abstract protocol\<close>

text \<open>
  What the queue promises, without tables: each job is free or owned by one worker, until an instant or (a row
  with an owner and no lease) without an end. A worker may take a free job, take over a job whose lease has
  lapsed, and do anything to its own job.
\<close>

type_synonym ownership = "string \<Rightarrow> (string \<times> instant option) option"

definition lapsed_at :: "instant \<Rightarrow> instant option \<Rightarrow> bool" where
  "lapsed_at now e = (case e of None \<Rightarrow> False | Some t \<Rightarrow> t < now)"

inductive lease_step :: "string \<Rightarrow> instant \<Rightarrow> ownership \<Rightarrow> ownership \<Rightarrow> bool" where
  idle: "lease_step w now own own"
| take_free: "own j = None \<Longrightarrow> lease_step w now own (own(j \<mapsto> (w, e)))"
| take_over: "own j = Some (v, e) \<Longrightarrow> lapsed_at now e \<Longrightarrow> lease_step w now own (own(j \<mapsto> (w, e')))"
| own_job: "own j = Some (w, e) \<Longrightarrow> lease_step w now own (own(j := x))"

inductive_cases lease_stepE: "lease_step w now own own'"

lemma lease_step_foreign:
  assumes "lease_step v now own own'" and "own j = Some (w, e)" and "v \<noteq> w" and "\<not> lapsed_at now e"
  shows "own' j = Some (w, e)"
  using assms by (auto elim!: lease_stepE)

text \<open>
  The contract of the protocol class \<^verbatim>\<open>AnalysisControlPlane\<close>: whatever runs behind it, every call by
  \<^verbatim>\<open>worker\<close> at \<^verbatim>\<open>time\<close> is a step of the abstract protocol. A client that knows no more than this has
  exclusive use of a job until its lease lapses.
\<close>

locale control_plane_contract =
  fixes good :: "'s \<Rightarrow> bool" and own :: "'s \<Rightarrow> ownership" and run :: "'e \<Rightarrow> 's \<Rightarrow> 's"
    and worker :: "'e \<Rightarrow> string" and time :: "'e \<Rightarrow> instant"
  assumes run_good: "good s \<Longrightarrow> good (run e s)"
    and run_simulates: "good s \<Longrightarrow> lease_step (worker e) (time e) (own s) (own (run e s))"
begin

lemma run_all_good: "good s \<Longrightarrow> good (fold run es s)"
  by (induction es arbitrary: s) (simp_all add: run_good)

lemma exclusive_until_expiry:
  "good s \<Longrightarrow> own s j = Some (w, t) \<Longrightarrow> \<forall>e \<in> set es. worker e \<noteq> w \<and> \<not> lapsed_at (time e) t \<Longrightarrow> own (fold run es s) j = Some (w, t)"
proof (induction es arbitrary: s)
  case (Cons e es)
  then have "own (run e s) j = Some (w, t)"
    by (intro lease_step_foreign [OF run_simulates]) auto
  then show ?case using Cons run_good by simp
qed simp

lemma change_of_owner:
  assumes "good s" and "own s j = Some (w, t)" and "own (run e s) j = Some (v, t')" and "v \<noteq> w" and "worker e \<noteq> w"
  shows "worker e = v \<and> lapsed_at (time e) t"
  using run_simulates [OF assms(1), of e] assms(2-5) by (auto elim!: lease_stepE split: if_splits)

end

section \<open>The table implements the protocol\<close>

definition owner_of :: "analysis_job \<Rightarrow> (string \<times> instant option) option" where
  "owner_of j = (if aj_status j = ''running''
     then map_option (\<lambda>w. (w, aj_lease_expires_at j)) (aj_worker_id j) else None)"

definition ownership_of :: "jobs_db \<Rightarrow> ownership" where
  "ownership_of d jid = Option.bind (get_job (jd_jobs d) jid) owner_of"

text \<open>
  A call of one method in a session of its own, committed at the end (the caller commits after
  \<^verbatim>\<open>reclaim\<close> and \<^verbatim>\<open>update_owned\<close>); a session that raises is closed and loses its changes.
  The candidate of a claim and the row of a reclaim are whatever the caller read before.
\<close>

datatype queue_event =
    ClaimEvent instant string string
  | RenewEvent instant "string option" job_lease
  | ReclaimEvent instant string analysis_job
  | UpdateEvent instant string string "job_value list" bool

primrec event_worker :: "queue_event \<Rightarrow> string" where
  "event_worker (ClaimEvent now w c) = w"
| "event_worker (RenewEvent now fault l) = jl_worker_id l"
| "event_worker (ReclaimEvent now w job) = w"
| "event_worker (UpdateEvent now w jid vs req) = w"

primrec event_time :: "queue_event \<Rightarrow> instant" where
  "event_time (ClaimEvent now w c) = now"
| "event_time (RenewEvent now fault l) = now"
| "event_time (ReclaimEvent now w job) = now"
| "event_time (UpdateEvent now w jid vs req) = now"

primrec event_action :: "unicode \<Rightarrow> control_plane \<Rightarrow> queue_event \<Rightarrow> (unit, unit) job_action" where
  "event_action U cp (ClaimEvent now w c) = bindS (claim_candidate cp now w c) (\<lambda>_. returnS ())"
| "event_action U cp (RenewEvent now fault l) = bindS (renew U cp fault now l) (\<lambda>_. returnS ())"
| "event_action U cp (ReclaimEvent now w job) = bindS (reclaim cp now job w) (\<lambda>_. returnS ())"
| "event_action U cp (UpdateEvent now w jid vs req) = bindS (update_owned now jid w vs req) (\<lambda>_. returnS ())"

definition run_event :: "unicode \<Rightarrow> control_plane \<Rightarrow> queue_event \<Rightarrow> jobs_db \<Rightarrow> jobs_db" where
  "run_event U cp e d = js_committed (snd (bindS (event_action U cp e) (\<lambda>_. js_commit) (open_session d)))"

lemma jobs_ok_run_event: "jobs_ok d \<Longrightarrow> jobs_ok (run_event U cp e d)"
proof -
  assume "jobs_ok d"
  moreover have "keeps js_sound (bindS (event_action U cp e) (\<lambda>_. js_commit))"
    by (cases e) (auto intro!: keeps_intros)
  ultimately have "js_sound (snd (bindS (event_action U cp e) (\<lambda>_. js_commit) (open_session d)))"
    by (simp add: keeps_def js_sound_open)
  then show ?thesis by (simp add: run_event_def js_sound_def)
qed

lemma ownership_of_update:
  assumes "\<And>j. aj_id (f j) = aj_id j" and "\<And>j. w j \<Longrightarrow> aj_id j = jid"
  shows "ownership_of (d\<lparr>jd_jobs := update_rows w f (jd_jobs d)\<rparr>) =
    (case get_job (jd_jobs d) jid of
       Some j \<Rightarrow> if w j then (ownership_of d)(jid := owner_of (f j)) else ownership_of d
     | None \<Rightarrow> ownership_of d)"
proof (rule ext)
  fix i
  show "ownership_of (d\<lparr>jd_jobs := update_rows w f (jd_jobs d)\<rparr>) i = (case get_job (jd_jobs d) jid of
       Some j \<Rightarrow> if w j then (ownership_of d)(jid := owner_of (f j)) else ownership_of d
     | None \<Rightarrow> ownership_of d) i"
    using assms(2) get_job_Some [of "jd_jobs d" i]
    by (cases "get_job (jd_jobs d) i"; cases "i = jid")
      (auto simp: ownership_of_def get_job_update [OF assms(1)] split: option.splits)
qed

lemma jobs_open [simp]: "jobs (open_session d) = jd_jobs d"
  by (simp add: jobs_def open_session_def)

lemma open_session_views [simp]: "js_view (open_session d) = d" "js_committed (open_session d) = d"
  by (simp_all add: open_session_def)

lemma set_jobs_open: "js_view (set_jobs f (open_session d)) = d\<lparr>jd_jobs := f (jd_jobs d)\<rparr>"
  by (simp add: set_jobs_def open_session_def)

text \<open>The committed table after each event.\<close>

lemma update_rows_id: "(\<And>j. j \<in> set js \<Longrightarrow> \<not> w j) \<Longrightarrow> update_rows w f js = js"
  by (auto simp: update_rows_def intro!: map_idI)

lemma update_rows_miss:
  assumes "distinct (map aj_id js)" and "\<And>j. w j \<Longrightarrow> aj_id j = jid" and "\<And>j. get_job js jid = Some j \<Longrightarrow> \<not> w j"
  shows "update_rows w f js = js"
  using assms get_job_row by (intro update_rows_id) metis

lemma run_claim:
  assumes ok: "jobs_ok d"
  shows "run_event U cp (ClaimEvent now w c) d =
     d\<lparr>jd_jobs := update_rows (\<lambda>j. aj_id j = c \<and> aj_status j = ''queued'') (claim_values w (lease_until cp now) now) (jd_jobs d)\<rparr>"
proof -
  have s: "js_sound (open_session d)" using ok by (simp add: js_sound_open)
  let ?g = "\<lambda>j. aj_id j = c \<and> aj_status j = ''queued''" and ?f = "claim_values w (lease_until cp now) now"
  have c: "jobs_ok (d\<lparr>jd_jobs := update_rows ?g ?f (jd_jobs d)\<rparr>)" by (rule jobs_ok_update [OF ok harmless_claim])
  have miss: "update_rows ?g ?f (jd_jobs d) = jd_jobs d" if "\<And>j. get_job (jd_jobs d) c = Some j \<Longrightarrow> \<not> ?g j"
    by (rule update_rows_miss [OF jobs_ok_ids [OF ok]]) (use that in auto)
  show ?thesis
  proof (cases "\<exists>j. get_job (jd_jobs d) c = Some j \<and> aj_status j = ''queued''")
    case True
    then show ?thesis using c
      by (auto simp: run_event_def bindS_def claim_candidate_eq [OF s] commit_jobs_def Let_def returnS_def js_commit_def set_jobs_open)
  next
    case False
    then have m: "update_rows ?g ?f (jd_jobs d) = jd_jobs d" by (intro miss) auto
    show ?thesis unfolding m using False ok
      by (auto simp: run_event_def bindS_def claim_candidate_eq [OF s] returnS_def js_commit_def
          split: option.splits)
  qed
qed

lemma run_renew:
  assumes ok: "jobs_ok d"
  shows "run_event U cp (RenewEvent now fault l) d = (if fault = None then
     d\<lparr>jd_jobs := update_rows (renew_guard l) (\<lambda>j. j\<lparr>aj_lease_expires_at := Some (lease_until cp now), aj_updated_at := now\<rparr>) (jd_jobs d)\<rparr>
     else d)"
proof (cases fault)
  case None
  have s: "js_sound (open_session d)" using ok by (simp add: js_sound_open)
  let ?f = "\<lambda>j::analysis_job. j\<lparr>aj_lease_expires_at := Some (lease_until cp now), aj_updated_at := now\<rparr>"
  have c: "jobs_ok (d\<lparr>jd_jobs := update_rows (renew_guard l) ?f (jd_jobs d)\<rparr>)" by (rule jobs_ok_update [OF ok harmless_renew])
  have miss: "update_rows (renew_guard l) ?f (jd_jobs d) = jd_jobs d"
    if "\<And>j. get_job (jd_jobs d) (jl_job_id l) = Some j \<Longrightarrow> \<not> renew_guard l j"
    by (rule update_rows_miss [OF jobs_ok_ids [OF ok]]) (use that in \<open>auto simp: renew_guard_def\<close>)
  show ?thesis
  proof (cases "\<exists>j. get_job (jd_jobs d) (jl_job_id l) = Some j \<and> renew_guard l j")
    case True
    then show ?thesis using c None
      by (auto simp: run_event_def bindS_def renew_eq [OF s] commit_jobs_def Let_def returnS_def js_commit_def set_jobs_open)
  next
    case False
    then have m: "update_rows (renew_guard l) ?f (jd_jobs d) = jd_jobs d" by (intro miss) auto
    show ?thesis unfolding m using False ok None
      by (auto simp: run_event_def bindS_def renew_eq [OF s] returnS_def js_commit_def
          split: option.splits)
  qed
next
  case (Some m)
  then show ?thesis using ok
    by (auto simp: run_event_def renew_def action_defs js_rollback_def js_commit_def open_session_def)
qed

lemma run_reclaim:
  assumes ok: "jobs_ok d"
  shows "run_event U cp (ReclaimEvent now w job) d =
     d\<lparr>jd_jobs := update_rows (reclaim_guard now job)
       (\<lambda>j. j\<lparr>aj_worker_id := Some w, aj_lease_expires_at := Some (lease_until cp now), aj_updated_at := now\<rparr>) (jd_jobs d)\<rparr>"
proof -
  have s: "js_sound (open_session d)" using ok by (simp add: js_sound_open)
  let ?g = "reclaim_guard now job"
    and ?f = "\<lambda>j::analysis_job. j\<lparr>aj_worker_id := Some w, aj_lease_expires_at := Some (lease_until cp now), aj_updated_at := now\<rparr>"
  have c: "jobs_ok (d\<lparr>jd_jobs := update_rows ?g ?f (jd_jobs d)\<rparr>)" by (rule jobs_ok_update [OF ok harmless_reclaim])
  have miss: "update_rows ?g ?f (jd_jobs d) = jd_jobs d"
    if "\<And>j. get_job (jd_jobs d) (aj_id job) = Some j \<Longrightarrow> \<not> ?g j"
    by (rule update_rows_miss [OF jobs_ok_ids [OF ok]]) (use that in \<open>auto simp: reclaim_guard_def\<close>)
  show ?thesis
  proof (cases "\<exists>j. get_job (jd_jobs d) (aj_id job) = Some j \<and> ?g j")
    case True
    then show ?thesis using c
      by (auto simp: run_event_def bindS_def reclaim_eq [OF s] returnS_def js_commit_def set_jobs_open)
  next
    case False
    then have m: "update_rows ?g ?f (jd_jobs d) = jd_jobs d" by (intro miss) auto
    show ?thesis unfolding m using False ok
      by (auto simp: run_event_def bindS_def reclaim_eq [OF s] returnS_def js_commit_def
          split: option.splits)
  qed
qed

lemma run_update:
  "run_event U cp (UpdateEvent now w jid vs req) d \<in>
     {d, d\<lparr>jd_jobs := update_rows (owned_guard jid w req) (apply_values now vs) (jd_jobs d)\<rparr>}"
  by (auto simp: run_event_def update_owned_def execute_update_def Let_def action_defs js_commit_def
      set_jobs_open open_session_def set_jobs_def split: if_splits)

lemma guarded_update_step:
  assumes "\<And>j. aj_id (f j) = aj_id j" and "\<And>j. w j \<Longrightarrow> aj_id j = jid"
    and "\<And>j. get_job (jd_jobs d) jid = Some j \<Longrightarrow> w j \<Longrightarrow>
      lease_step v now (ownership_of d) ((ownership_of d)(jid := owner_of (f j)))"
  shows "lease_step v now (ownership_of d) (ownership_of (d\<lparr>jd_jobs := update_rows w f (jd_jobs d)\<rparr>))"
proof -
  have eq: "ownership_of (d\<lparr>jd_jobs := update_rows w f (jd_jobs d)\<rparr>) = (case get_job (jd_jobs d) jid of
       Some j \<Rightarrow> if w j then (ownership_of d)(jid := owner_of (f j)) else ownership_of d | None \<Rightarrow> ownership_of d)"
    by (rule ownership_of_update) (use assms(1,2) in auto)
  show ?thesis unfolding eq using assms(3) by (auto intro: lease_step.idle split: option.splits)
qed

lemma run_event_simulates:
  assumes ok: "jobs_ok d"
  shows "lease_step (event_worker e) (event_time e) (ownership_of d) (ownership_of (run_event U cp e d))"
proof (cases e)
  case (ClaimEvent now w c)
  show ?thesis
    unfolding ClaimEvent run_claim [OF ok] event_worker.simps event_time.simps
    by (rule guarded_update_step [where jid = c])
      (auto simp: ownership_of_def owner_of_def claim_values_def intro!: lease_step.take_free)
next
  case (RenewEvent now fault l)
  have "lease_step (jl_worker_id l) now (ownership_of d) (ownership_of (d\<lparr>jd_jobs := update_rows (renew_guard l)
      (\<lambda>j. j\<lparr>aj_lease_expires_at := Some (lease_until cp now), aj_updated_at := now\<rparr>) (jd_jobs d)\<rparr>))"
    by (rule guarded_update_step [where jid = "jl_job_id l"])
      (auto simp: renew_guard_def ownership_of_def owner_of_def intro: lease_step.own_job)
  then show ?thesis by (simp add: RenewEvent run_renew [OF ok] lease_step.idle)
next
  case (ReclaimEvent now w job)
  show ?thesis
    unfolding ReclaimEvent run_reclaim [OF ok] event_worker.simps event_time.simps
  proof (rule guarded_update_step [where jid = "aj_id job"])
    fix j assume j: "get_job (jd_jobs d) (aj_id job) = Some j" "reclaim_guard now job j"
    then obtain v e where "aj_worker_id j = Some v" "aj_lease_expires_at j = Some e" "aj_status j = ''running''" "e < now"
      by (auto simp: reclaim_guard_def)
    then show "lease_step w now (ownership_of d) ((ownership_of d)(aj_id job := owner_of (j\<lparr>aj_worker_id := Some w,
        aj_lease_expires_at := Some (lease_until cp now), aj_updated_at := now\<rparr>)))"
      using j(1) by (auto simp: owner_of_def ownership_of_def lapsed_at_def intro: lease_step.take_over)
  qed (simp_all add: reclaim_guard_def)
next
  case (UpdateEvent now w jid vs req)
  have "lease_step w now (ownership_of d)
      (ownership_of (d\<lparr>jd_jobs := update_rows (owned_guard jid w req) (apply_values now vs) (jd_jobs d)\<rparr>))"
    by (rule guarded_update_step [where jid = jid])
      (auto simp: owned_guard_def ownership_of_def owner_of_def intro!: lease_step.own_job)
  then show ?thesis using run_update [of U cp now w jid vs req d] by (auto simp: UpdateEvent intro: lease_step.idle)
qed

interpretation qp: control_plane_contract jobs_ok ownership_of "run_event U cp" event_worker event_time for U cp
  by unfold_locales (simp_all add: jobs_ok_run_event run_event_simulates)

section \<open>Properties\<close>

text \<open>A table with two queued jobs, one of them in backoff, and a running one.\<close>

definition sample_job :: "string \<Rightarrow> string \<Rightarrow> instant \<Rightarrow> analysis_job" where
  "sample_job jid rid created = \<lparr> aj_id = jid, aj_repository_id = rid, aj_owner_id = ''u'', aj_revision_kind = ''upload'',
     aj_revision_value = ''v'', aj_config_hash = ''c'', aj_status = ''queued'', aj_stage = None, aj_progress = 0,
     aj_attempt = 0, aj_max_attempts = 3, aj_cancel_requested = False, aj_worker_id = None, aj_lease_expires_at = None,
     aj_next_attempt_at = None, aj_snapshot_id = None, aj_error_code = None, aj_error_message = None,
     aj_created_at = created, aj_updated_at = created, aj_started_at = None, aj_completed_at = None \<rparr>"

definition sample_record :: "string \<Rightarrow> repository_record" where
  "sample_record rid = \<lparr> rr_id = rid, rr_owner_id = ''u'', rr_revision_kind = Some ''upload'', rr_revision_value = Some ''v'',
     rr_revision_ref = None, rr_status = ''uploaded'', rr_analysis_stage = None, rr_analysis_progress = 0,
     rr_error_message = None, rr_analysed_at = None, rr_updated_at = 0 \<rparr>"

definition sample_jobs :: jobs_db where
  "sample_jobs = \<lparr> jd_jobs = [sample_job ''j1'' ''r1'' 20, (sample_job ''j2'' ''r2'' 5)\<lparr>aj_next_attempt_at := Some 900\<rparr>,
       (sample_job ''j3'' ''r3'' 1)\<lparr>aj_status := ''running'', aj_attempt := 1, aj_worker_id := Some ''w'', aj_lease_expires_at := Some 300\<rparr>,
       sample_job ''j4'' ''r4'' 10],
     jd_records = map sample_record [''r1'', ''r2'', ''r3'', ''r4''] \<rparr>"

definition sample_plane :: control_plane where
  "sample_plane = \<lparr> cp_lease_seconds = 60, cp_sqlite = True \<rparr>"

lemma jobs_ok_sample: "jobs_ok sample_jobs"
  by code_simp

text \<open>
  C8: the queue on the \<^verbatim>\<open>analysis_jobs\<close> table refines the abstract lease protocol. Every call of claim, renew, reclaim and
  update_owned, on whatever candidate or row the caller read earlier, keeps the table's constraints, and changes
  who owns which job only as the protocol allows: a free job is taken, a lapsed lease is taken over, or the owner acts.
\<close>

theorem queue_refines_lease_protocol:
  assumes "jobs_ok d"
  shows "jobs_ok (run_event U cp e d)
    \<and> lease_step (event_worker e) (event_time e) (ownership_of d) (ownership_of (run_event U cp e d))"
  using qp.run_good [OF assms] qp.run_simulates [OF assms] by blast

theorem queue_refines_lease_protocol_witness:
  "ownership_of (run_event ascii_unicode sample_plane (ClaimEvent 100 ''x'' ''j4'') sample_jobs) ''j4'' = Some (''x'', Some 60000100)
   \<and> lease_step ''x'' 100 (ownership_of sample_jobs)
     (ownership_of (run_event ascii_unicode sample_plane (ClaimEvent 100 ''x'' ''j4'') sample_jobs))"
proof
  show "ownership_of (run_event ascii_unicode sample_plane (ClaimEvent 100 ''x'' ''j4'') sample_jobs) ''j4'' = Some (''x'', Some 60000100)"
    by code_simp
qed (use queue_refines_lease_protocol [OF jobs_ok_sample, of ascii_unicode sample_plane "ClaimEvent 100 ''x'' ''j4''"] in simp)

text \<open>
  C9: an active lease cannot be stolen. While every call comes from another worker and before the lease lapses,
  any sequence of claims, renewals, reclaims and guarded updates leaves the owner and its lease as they are.
\<close>

theorem active_lease_not_stolen:
  assumes "jobs_ok d" and "ownership_of d j = Some (w, Some t)"
    and "\<forall>e \<in> set es. event_worker e \<noteq> w \<and> event_time e \<le> t"
  shows "ownership_of (fold (run_event U cp) es d) j = Some (w, Some t)"
  by (rule qp.exclusive_until_expiry [OF assms(1,2)]) (use assms(3) in \<open>auto simp: lapsed_at_def\<close>)

definition attack :: "queue_event list" where
  "attack = [ReclaimEvent 250 ''x'' (jd_jobs sample_jobs ! 2), ClaimEvent 260 ''y'' ''j3'',
     UpdateEvent 300 ''x'' ''j3'' [WorkerId (Some ''x'')] False]"

theorem active_lease_not_stolen_witness:
  "ownership_of sample_jobs ''j3'' = Some (''w'', Some 300)
   \<and> ownership_of (fold (run_event ascii_unicode sample_plane) attack sample_jobs) ''j3'' = Some (''w'', Some 300)"
proof -
  have o: "ownership_of sample_jobs ''j3'' = Some (''w'', Some 300)" by code_simp
  show ?thesis
    using o active_lease_not_stolen [OF jobs_ok_sample o, of attack ascii_unicode sample_plane]
    by (simp add: attack_def)
qed

text \<open>
  C10: a claim takes the oldest eligible job, exactly one, and only if there is one. The lease it returns names that job, its new
  attempt number and an expiry one lease period away; the row is running under the claiming worker with one more
  attempt, every other row is untouched and the change is committed. A job in backoff is not eligible.
\<close>

theorem claim_takes_oldest_eligible:
  assumes "jobs_ok d"
  shows "case claim cp now w (open_session d) of
      (Inr None, s) \<Rightarrow> (\<forall>j \<in> set (jd_jobs d). \<not> eligible now j) \<and> js_committed s = d
    | (Inr (Some l), s) \<Rightarrow> (\<exists>j \<in> set (jd_jobs d). eligible now j
        \<and> (\<forall>i \<in> set (jd_jobs d). eligible now i \<longrightarrow> aj_created_at j \<le> aj_created_at i)
        \<and> l = \<lparr> jl_job_id = aj_id j, jl_worker_id = w, jl_expires_at = lease_until cp now, jl_attempt = aj_attempt j + 1 \<rparr>
        \<and> js_committed s = d\<lparr>jd_jobs := map (\<lambda>i. if i = j then claim_values w (lease_until cp now) now j else i) (jd_jobs d)\<rparr>)
    | (Inl _, s) \<Rightarrow> False"
proof (cases "first_by aj_created_at (eligible now) (jd_jobs d)")
  case None
  then have "claim cp now w (open_session d) = (Inr None, open_session d)"
    by (simp add: claim_def next_eligible_job_id_def action_defs)
  then show ?thesis using None by (simp add: first_by_None)
next
  case (Some j)
  note j = first_by_Some [OF Some]
  have s: "js_sound (open_session d)" using assms by (simp add: js_sound_open)
  have ids: "distinct (map aj_id (jd_jobs d))" by (rule jobs_ok_ids [OF assms])
  have "update_rows (\<lambda>i. aj_id i = aj_id j \<and> aj_status i = ''queued'') f (jd_jobs d)
      = map (\<lambda>i. if i = j then f j else i) (jd_jobs d)" for f
    unfolding update_rows_def using ids j(1,2) by (auto simp: eligible_def distinct_map dest: inj_onD)
  moreover have "aj_status j = ''queued''" using j(2) by (simp add: eligible_def)
  ultimately have "claim cp now w (open_session d) =
      (Inr (Some \<lparr> jl_job_id = aj_id j, jl_worker_id = w, jl_expires_at = lease_until cp now, jl_attempt = aj_attempt j + 1 \<rparr>),
       commit_jobs (map (\<lambda>i. if i = j then claim_values w (lease_until cp now) now j else i)) (open_session d))"
    using get_job_row [OF ids j(1)] Some
    by (simp add: claim_def next_eligible_job_id_def bindS_def getS_def claim_candidate_eq [OF s] commit_jobs_def set_jobs_def)
  then show ?thesis using j by (auto simp: commit_jobs_def set_jobs_open)
qed

theorem claim_takes_oldest_eligible_witness:
  "\<exists>s. claim sample_plane 100 ''x'' (open_session sample_jobs) =
     (Inr (Some \<lparr> jl_job_id = ''j4'', jl_worker_id = ''x'', jl_expires_at = 60000100, jl_attempt = 1 \<rparr>), s)
   \<and> map aj_id (filter (\<lambda>j. aj_worker_id j = Some ''x'') (jd_jobs (js_committed s))) = [''j4'']"
proof -
  have "fst (claim sample_plane 100 ''x'' (open_session sample_jobs)) =
     Inr (Some \<lparr> jl_job_id = ''j4'', jl_worker_id = ''x'', jl_expires_at = 60000100, jl_attempt = 1 \<rparr>)"
    "map aj_id (filter (\<lambda>j. aj_worker_id j = Some ''x'') (jd_jobs (js_committed
      (snd (claim sample_plane 100 ''x'' (open_session sample_jobs)))))) = [''j4'']"
    by code_simp+
  then show ?thesis using claim_takes_oldest_eligible [OF jobs_ok_sample, where cp = sample_plane and now = 100 and w = "''x''"]
    by (cases "claim sample_plane 100 ''x'' (open_session sample_jobs)") auto
qed

text \<open>
  Comparing a lease with the clock never raises, whichever of the two is naive or in another zone, and is the comparison of
  the instants they denote.
\<close>

theorem lease_expired_compares_instants: "lease_expired lease now = Some (instant_of lease < instant_of now)"
  by (cases lease; cases now) (simp_all add: lease_expired_def Let_def)

text \<open>
  A renewal tells the truth. It answers renewed exactly when the database took the statement and the row is still
  running under the lease's worker, then with the cancellation flag of that row, and the
  lease ends one period from now; otherwise (lost, deferred, or an exception) nothing is committed, and deferred is only
  ever the answer to a locked SQLite database.
\<close>

theorem renew_reports_truthfully:
  assumes "jobs_ok d"
  shows "case renew U cp fault now l (open_session d) of
      (Inr r, s) \<Rightarrow>
        (held r \<longleftrightarrow> fault = None \<and> (\<exists>j \<in> set (jd_jobs d). renew_guard l j))
      \<and> (lost r \<longleftrightarrow> fault = None \<and> \<not> (\<exists>j \<in> set (jd_jobs d). renew_guard l j))
      \<and> (held r \<longrightarrow> (\<exists>j \<in> set (jd_jobs d). renew_guard l j \<and> lr_cancel_requested r = aj_cancel_requested j)
           \<and> ownership_of (js_committed s) (jl_job_id l) = Some (jl_worker_id l, Some (lease_until cp now)))
      \<and> (\<not> held r \<longrightarrow> js_committed s = d)
      \<and> (lr_outcome r = Deferred \<longrightarrow> cp_sqlite cp \<and> fault \<noteq> None)
    | (Inl e, s) \<Rightarrow> fault \<noteq> None \<and> js_committed s = d"
proof (cases fault)
  case None
  have s: "js_sound (open_session d)" using assms by (simp add: js_sound_open)
  have row: "j \<in> set (jd_jobs d) \<and> renew_guard l j \<longleftrightarrow> get_job (jd_jobs d) (jl_job_id l) = Some j \<and> renew_guard l j" for j
    using get_job_row [OF jobs_ok_ids [OF assms]] get_job_Some [of "jd_jobs d" "jl_job_id l" j] renew_guard_def by metis
  show ?thesis
  proof (cases "\<exists>j. get_job (jd_jobs d) (jl_job_id l) = Some j \<and> renew_guard l j")
    case True
    then obtain j where "get_job (jd_jobs d) (jl_job_id l) = Some j" "renew_guard l j" by blast
    moreover from this have "owner_of (j\<lparr>aj_lease_expires_at := Some (lease_until cp now), aj_updated_at := now\<rparr>)
        = Some (jl_worker_id l, Some (lease_until cp now))" by (simp add: owner_of_def renew_guard_def)
    moreover from calculation have "j \<in> set (jd_jobs d)" using row by blast
    ultimately show ?thesis
      by (auto simp: None renew_eq [OF s] Bex_def row held_def lost_def commit_jobs_def set_jobs_open ownership_of_def
          get_job_update)
  next
    case False
    then show ?thesis
      by (auto simp: None renew_eq [OF s] Bex_def row held_def lost_def split: option.splits)
  qed
next
  case (Some m)
  then show ?thesis by (auto simp: renew_def action_defs js_rollback_def held_def lost_def)
qed

theorem renew_reports_truthfully_witness:
  "\<exists>s. renew ascii_unicode sample_plane None 200 \<lparr> jl_job_id = ''j3'', jl_worker_id = ''w'', jl_expires_at = 300, jl_attempt = 1 \<rparr>
      (open_session sample_jobs) = (Inr \<lparr> lr_outcome = Renewed, lr_cancel_requested = False, lr_expires_at = Some 60000200 \<rparr>, s)
    \<and> ownership_of (js_committed s) ''j3'' = Some (''w'', Some 60000200)"
proof -
  let ?l = "\<lparr> jl_job_id = ''j3'', jl_worker_id = ''w'', jl_expires_at = 300, jl_attempt = 1 \<rparr>"
  have "fst (renew ascii_unicode sample_plane None 200 ?l (open_session sample_jobs))
      = Inr \<lparr> lr_outcome = Renewed, lr_cancel_requested = False, lr_expires_at = Some 60000200 \<rparr>"
    and lu: "lease_until sample_plane 200 = 60000200" by code_simp+
  then show ?thesis using renew_reports_truthfully [OF jobs_ok_sample, where U = ascii_unicode and cp = sample_plane and fault = None and now = 200 and l = ?l]
    by (cases "renew ascii_unicode sample_plane None 200 ?l (open_session sample_jobs)") (auto simp: held_def)
qed

text \<open>
  No job is stuck with a dead worker, and no live one is disturbed. A row that has an owner can be
  reclaimed at a moment exactly when the expiry scan of that moment lists it; the reclaim hands it to the sweeper with a fresh lease.
\<close>

theorem reclaim_exactly_the_expired:
  assumes "jobs_ok d" and "j \<in> set (jd_jobs d)" and "aj_worker_id j \<noteq> None"
  shows "(aj_id j \<in> set (projr (fst (expired_job_ids now (open_session d)))) \<longleftrightarrow>
      fst (reclaim cp now j w (open_session d)) \<noteq> Inr None)
    \<and> (aj_id j \<in> set (projr (fst (expired_job_ids now (open_session d)))) \<longrightarrow>
      ownership_of (run_event U cp (ReclaimEvent now w j) d) (aj_id j) = Some (w, Some (lease_until cp now)))"
proof -
  have s: "js_sound (open_session d)" using assms by (simp add: js_sound_open)
  have row: "get_job (jd_jobs d) (aj_id j) = Some j" by (rule get_job_row [OF jobs_ok_ids [OF assms(1)] assms(2)])
  have "set (projr (fst (expired_job_ids now (open_session d)))) = aj_id ` {i \<in> set (jd_jobs d). lapsed now i}"
    by (simp add: expired_job_ids_def getS_def)
  moreover have "inj_on aj_id (set (jd_jobs d))" using jobs_ok_ids [OF assms(1)] by (simp add: distinct_map)
  ultimately have mem: "aj_id j \<in> set (projr (fst (expired_job_ids now (open_session d)))) \<longleftrightarrow> lapsed now j"
    using assms(2) by (auto dest: inj_onD)
  have g: "lapsed now j \<longleftrightarrow> reclaim_guard now j j"
    using assms(3) by (auto simp: lapsed_def reclaim_guard_def split: option.splits)
  show ?thesis
    unfolding mem g by (auto simp: reclaim_eq [OF s] row run_reclaim [OF assms(1)] ownership_of_def get_job_update owner_of_def
        reclaim_guard_def)
qed

theorem reclaim_exactly_the_expired_witness:
  "projr (fst (expired_job_ids 301 (open_session sample_jobs))) = [''j3'']
   \<and> fst (reclaim sample_plane 301 (jd_jobs sample_jobs ! 2) ''x'' (open_session sample_jobs)) \<noteq> Inr None
   \<and> fst (reclaim sample_plane 300 (jd_jobs sample_jobs ! 2) ''x'' (open_session sample_jobs)) = Inr None"
proof -
  let ?j = "jd_jobs sample_jobs ! 2"
  have m: "?j \<in> set (jd_jobs sample_jobs)" "aj_worker_id ?j \<noteq> None" "aj_id ?j = ''j3''"
    by (simp_all add: sample_jobs_def sample_job_def)
  have e: "projr (fst (expired_job_ids 301 (open_session sample_jobs))) = [''j3'']"
    "projr (fst (expired_job_ids 300 (open_session sample_jobs))) = []" by code_simp+
  show ?thesis
    using e m(3) reclaim_exactly_the_expired [OF jobs_ok_sample m(1,2), where now = 301 and cp = sample_plane and w = "''x''"]
      reclaim_exactly_the_expired [OF jobs_ok_sample m(1,2), where now = 300 and cp = sample_plane and w = "''x''"] by simp
qed

end
