(* ===== verification/Job_Service.thy ===== *)
theory Job_Service
  imports Job_Queue
begin

text \<open>
  Submission, status and cancellation of analysis jobs (\<^verbatim>\<open>app/services/analysis_job_service.py\<close>), on a session
  that holds the job tables and the snapshot store together.

  Another session may commit between two statements of this one. \<^verbatim>\<open>others\<close> is what happens there: a function from the
  session's state to the state it sees next, applied at the points where the code's own comments expect a
  race. Requests that run alone have the identity there.
\<close>

section \<open>Model\<close>

subsection \<open>The session of the service\<close>

record work_session = job_session +
  ws_store :: session

type_synonym 'a work_action = "(work_session, job_error, 'a) action"

definition in_store :: "'a store_action \<Rightarrow> 'a work_action" where
  "in_store m s = (case m (ws_store s) of
       (Inl e, t) \<Rightarrow> (Inl (StoreFailure e), s\<lparr>ws_store := t\<rparr>)
     | (Inr x, t) \<Rightarrow> (Inr x, s\<lparr>ws_store := t\<rparr>))"

definition w_rollback :: "unit work_action" where
  "w_rollback s = (Inr (), s\<lparr>js_view := js_committed s, ws_store := rollback (ws_store s)\<rparr>)"

text \<open>One transaction for both halves: either all of it becomes durable or none.\<close>

definition w_commit :: "unit work_action" where
  "w_commit s =
     (if \<not> jobs_ok (js_view s) then (Inl JobIntegrityError, snd (w_rollback s))
      else case commit (ws_store s) of
          (Inl e, t) \<Rightarrow> (Inl (StoreFailure e), s\<lparr>ws_store := t\<rparr>)
        | (Inr _, t) \<Rightarrow> (Inr (), s\<lparr>js_committed := js_view s, ws_store := t\<rparr>))"

definition edit_jobs :: "(analysis_job list \<Rightarrow> analysis_job list) \<Rightarrow> unit work_action" where
  "edit_jobs f s = (Inr (), set_jobs f s)"

text \<open>Assignments to the columns of one repository row; \<^verbatim>\<open>onupdate\<close> stamps it.\<close>

definition edit_record :: "instant \<Rightarrow> string \<Rightarrow> (repository_record \<Rightarrow> repository_record) \<Rightarrow> unit work_action" where
  "edit_record now rid f s = (Inr (), set_records (map (\<lambda>r. if rr_id r = rid then (f r)\<lparr>rr_updated_at := now\<rparr> else r)) s)"

definition interfere :: "(work_session \<Rightarrow> work_session) \<Rightarrow> unit work_action" where
  "interfere f s = (Inr (), f s)"

subsection \<open>The identity of an analysis\<close>

definition analysis_producer_version_set :: "string \<times> string \<Rightarrow> (string \<times> string) list \<Rightarrow> string \<times> string \<Rightarrow> string \<times> string
    \<Rightarrow> string list" where
  "analysis_producer_version_set inventory extractors resolver classifier =
     sort (remdups (map (\<lambda>(name, version). name @ ''@'' @ version) (inventory # extractors @ [resolver, classifier])))"

text \<open>\<^verbatim>\<open>ANALYSIS_PRODUCER_VERSION_SET\<close>, \<^verbatim>\<open>ANALYSIS_CONFIG_HASH\<close>, \<^verbatim>\<open>ANALYSIS_SCHEMA_VERSION\<close>, with the text and hash functions they rest on.\<close>

record analysis_constants =
  ac_unicode :: unicode
  ac_digest :: digest
  ac_producers :: "string list"
  ac_config_hash :: string
  ac_schema_version :: string

subsection \<open>Lookups\<close>

definition get_record_for_owner :: "string \<Rightarrow> string \<Rightarrow> repository_record work_action" where
  "get_record_for_owner owner_id rid =
     bindS (getS (\<lambda>s. get_record (jd_records (js_view s)) rid)) (\<lambda>r.
       case r of None \<Rightarrow> raiseS NotFoundError
       | Some r \<Rightarrow> if rr_owner_id r = owner_id then returnS r else raiseS NotFoundError)"

definition require_revision :: "repository_record \<Rightarrow> string work_action" where
  "require_revision r = (case (rr_revision_kind r, rr_revision_value r) of
       (Some _, Some v) \<Rightarrow> returnS v | _ \<Rightarrow> raiseS ServiceError)"

definition newest :: "(analysis_job \<Rightarrow> bool) \<Rightarrow> analysis_job option work_action" where
  "newest w = getS (\<lambda>s. first_by (\<lambda>j. - aj_created_at j) w (jobs s))"

definition latest_job :: "string \<Rightarrow> string \<Rightarrow> analysis_job option work_action" where
  "latest_job owner_id rid = newest (\<lambda>j. aj_repository_id j = rid \<and> aj_owner_id j = owner_id)"

definition active_job :: "string \<Rightarrow> string \<Rightarrow> string \<Rightarrow> analysis_job option work_action" where
  "active_job owner_id rid config_hash = newest (\<lambda>j. aj_repository_id j = rid \<and> aj_owner_id j = owner_id
     \<and> aj_config_hash j = config_hash \<and> aj_status j \<in> {''queued'', ''running''})"

definition effective_job :: "string \<Rightarrow> string \<Rightarrow> string \<Rightarrow> analysis_job option work_action" where
  "effective_job owner_id rid config_hash = newest (\<lambda>j. aj_repository_id j = rid \<and> aj_owner_id j = owner_id
     \<and> aj_config_hash j = config_hash \<and> aj_status j \<in> {''queued'', ''running'', ''completed''})"

definition job_for_snapshot :: "string \<Rightarrow> string \<Rightarrow> string \<Rightarrow> analysis_job option work_action" where
  "job_for_snapshot owner_id rid sid = newest (\<lambda>j. aj_repository_id j = rid \<and> aj_owner_id j = owner_id
     \<and> aj_snapshot_id j = Some sid)"

definition reload_job :: "string \<Rightarrow> string \<Rightarrow> analysis_job work_action" where
  "reload_job owner_id jid = bindS (getS (\<lambda>s. get_job (jobs s) jid)) (\<lambda>j.
     case j of None \<Rightarrow> raiseS (ConflictServiceError None)
     | Some j \<Rightarrow> if aj_owner_id j = owner_id then returnS j else raiseS (ConflictServiceError None))"

definition completed_snapshot :: "analysis_constants \<Rightarrow> string \<Rightarrow> string \<Rightarrow> string \<Rightarrow> ri_snapshot option work_action" where
  "completed_snapshot C owner_id rid revision_value = in_store (find_completed_for_owner (ac_unicode C) (ac_digest C)
     owner_id rid revision_value (ac_schema_version C) (ac_producers C) (ac_config_hash C))"

subsection \<open>Repository columns\<close>

definition complete_repository :: "instant \<Rightarrow> repository_record \<Rightarrow> repository_record" where
  "complete_repository completed_at r = r\<lparr>rr_status := ''completed'', rr_analysis_stage := Some ''completed'',
     rr_analysis_progress := 100, rr_error_message := None, rr_analysed_at := Some completed_at\<rparr>"

definition prepare_repository_for_analysis :: "repository_record \<Rightarrow> repository_record" where
  "prepare_repository_for_analysis r = r\<lparr>rr_status := ''analysing'', rr_analysis_stage := None,
     rr_analysis_progress := 0, rr_error_message := None, rr_analysed_at := None\<rparr>"

definition cancel_repository :: "string \<Rightarrow> string \<Rightarrow> instant \<Rightarrow> unit work_action" where
  "cancel_repository owner_id rid cancelled_at s = (Inr (), set_records (map (\<lambda>r.
     if rr_id r = rid \<and> rr_owner_id r = owner_id
     then r\<lparr>rr_status := ''cancelled'', rr_analysis_stage := None, rr_analysis_progress := 0, rr_error_message := None,
       rr_analysed_at := None, rr_updated_at := cancelled_at\<rparr>
     else r)) s)"

subsection \<open>Reconciliation\<close>

definition reconciled :: "repository_record \<Rightarrow> analysis_job \<Rightarrow> string \<Rightarrow> bool" where
  "reconciled r j sid \<longleftrightarrow> aj_status j = ''completed'' \<and> aj_stage j = Some ''completed'' \<and> aj_progress j = 100
     \<and> aj_snapshot_id j = Some sid \<and> \<not> aj_cancel_requested j \<and> aj_worker_id j = None \<and> aj_lease_expires_at j = None
     \<and> aj_next_attempt_at j = None \<and> aj_error_code j = None \<and> aj_error_message j = None \<and> aj_completed_at j \<noteq> None
     \<and> rr_status r = ''completed'' \<and> rr_analysis_stage r = Some ''completed'' \<and> rr_analysis_progress r = 100
     \<and> rr_error_message r = None \<and> rr_analysed_at r \<noteq> None"

definition reconcile_values :: "instant \<Rightarrow> instant \<Rightarrow> instant \<Rightarrow> string \<Rightarrow> analysis_job \<Rightarrow> analysis_job" where
  "reconcile_values now created_at completed_at sid j = j\<lparr>aj_status := ''completed'', aj_stage := Some ''completed'',
     aj_progress := 100, aj_snapshot_id := Some sid, aj_cancel_requested := False, aj_worker_id := None,
     aj_lease_expires_at := None, aj_next_attempt_at := None, aj_error_code := None, aj_error_message := None,
     aj_started_at := (case aj_started_at j of None \<Rightarrow> Some created_at | Some t \<Rightarrow> Some t),
     aj_completed_at := Some completed_at, aj_updated_at := now\<rparr>"

text \<open>\<^verbatim>\<open>self.db.refresh(job)\<close>: read the row again.\<close>

definition refresh :: "string \<Rightarrow> analysis_job work_action" where
  "refresh jid = bindS (getS (\<lambda>s. get_job (jobs s) jid)) (\<lambda>j.
     case j of None \<Rightarrow> raiseS (RuntimeError ''Could not refresh instance'') | Some j \<Rightarrow> returnS j)"

text \<open>
  The store does not keep \<^verbatim>\<open>created_at\<close> of a snapshot: it is the argument \<^verbatim>\<open>created\<close>, by snapshot id.
\<close>

definition reconcile_completed_job :: "(string \<Rightarrow> instant) \<Rightarrow> instant \<Rightarrow> string \<Rightarrow> analysis_job \<Rightarrow> ri_snapshot \<Rightarrow> analysis_job work_action" where
  "reconcile_completed_job created now rid job snapshot =
     (let sid = sn_snapshot_id snapshot in
      bindS (getS (\<lambda>s. get_record (jd_records (js_view s)) rid)) (\<lambda>r.
        if r \<noteq> None \<and> reconciled (the r) job sid then returnS job
        else
          let completed_at = (case sn_sealed_at snapshot of Some t \<Rightarrow> t | None \<Rightarrow> now) in
          bindS (edit_jobs (update_rows (\<lambda>j. aj_id j = aj_id job) (reconcile_values now (created sid) completed_at sid))) (\<lambda>_.
          bindS (edit_record now rid (complete_repository completed_at)) (\<lambda>_.
          bindS w_commit (\<lambda>_. refresh (aj_id job))))))"

subsection \<open>Insertion\<close>

definition new_job :: "string \<Rightarrow> instant \<Rightarrow> string \<Rightarrow> repository_record \<Rightarrow> string \<Rightarrow> analysis_job" where
  "new_job uuid now owner_id r config_hash = \<lparr> aj_id = uuid, aj_repository_id = rr_id r, aj_owner_id = owner_id,
     aj_revision_kind = the (rr_revision_kind r), aj_revision_value = the (rr_revision_value r), aj_config_hash = config_hash,
     aj_status = ''queued'', aj_stage = None, aj_progress = 0, aj_attempt = 0, aj_max_attempts = 3, aj_cancel_requested = False,
     aj_worker_id = None, aj_lease_expires_at = None, aj_next_attempt_at = None, aj_snapshot_id = None,
     aj_error_code = None, aj_error_message = None, aj_created_at = now, aj_updated_at = now, aj_started_at = None,
     aj_completed_at = None \<rparr>"

text \<open>\<^verbatim>\<open>try: self.db.commit() except IntegrityError\<close>.\<close>

definition commit_or_conflict :: "bool work_action" where
  "commit_or_conflict s = (case w_commit s of
       (Inr _, s') \<Rightarrow> (Inr True, s')
     | (Inl e, s') \<Rightarrow> if e \<in> {JobIntegrityError, StoreFailure IntegrityError}
         then (Inr False, snd (w_rollback s')) else (Inl e, s'))"

definition insert_queued_job :: "analysis_constants \<Rightarrow> (string \<Rightarrow> instant) \<Rightarrow> string \<Rightarrow> instant \<Rightarrow> string \<Rightarrow> repository_record
    \<Rightarrow> analysis_job work_action" where
  "insert_queued_job C created uuid now owner_id record =
     (let config_hash = ac_config_hash C; rid = rr_id record in
      bindS (edit_jobs (\<lambda>js. js @ [new_job uuid now owner_id record config_hash])) (\<lambda>_.
      bindS (edit_record now rid prepare_repository_for_analysis) (\<lambda>_.
      bindS commit_or_conflict (\<lambda>ok.
        if ok then refresh uuid
        else
          bindS (require_revision record) (\<lambda>rv.
          bindS (completed_snapshot C owner_id rid rv) (\<lambda>completed.
          bindS (effective_job owner_id rid config_hash) (\<lambda>eff.
            case (completed, eff) of
              (Some snapshot, Some j) \<Rightarrow> reconcile_completed_job created now rid j snapshot
            | (None, Some j) \<Rightarrow> returnS j
            | (_, None) \<Rightarrow> raiseS JobIntegrityError)))))))"

definition insert_completed_job :: "analysis_constants \<Rightarrow> (string \<Rightarrow> instant) \<Rightarrow> string \<Rightarrow> instant \<Rightarrow> string \<Rightarrow> repository_record
    \<Rightarrow> ri_snapshot \<Rightarrow> analysis_job work_action" where
  "insert_completed_job C created uuid now owner_id record snapshot =
     (let sid = sn_snapshot_id snapshot; rid = rr_id record;
          completed_at = (case sn_sealed_at snapshot of Some t \<Rightarrow> t | None \<Rightarrow> now);
          job = (new_job uuid now owner_id record (ac_config_hash C))\<lparr>aj_status := ''completed'', aj_stage := Some ''completed'',
            aj_progress := 100, aj_snapshot_id := Some sid, aj_started_at := Some (created sid),
            aj_completed_at := Some completed_at\<rparr> in
      bindS (edit_jobs (\<lambda>js. js @ [job])) (\<lambda>_.
      bindS (edit_record now rid (complete_repository completed_at)) (\<lambda>_.
      bindS commit_or_conflict (\<lambda>ok.
        if ok then refresh uuid
        else
          bindS (job_for_snapshot owner_id rid sid) (\<lambda>existing.
            case existing of
              Some j \<Rightarrow> reconcile_completed_job created now rid j snapshot
            | None \<Rightarrow>
                bindS (effective_job owner_id rid (ac_config_hash C)) (\<lambda>eff.
                  case eff of
                    Some j \<Rightarrow> reconcile_completed_job created now rid j snapshot
                  | None \<Rightarrow> raiseS JobIntegrityError))))))"

subsection \<open>Submit and status\<close>

definition submit :: "analysis_constants \<Rightarrow> (string \<Rightarrow> instant) \<Rightarrow> (work_session \<Rightarrow> work_session) \<Rightarrow> string \<Rightarrow> instant \<Rightarrow> string \<Rightarrow> string
    \<Rightarrow> analysis_job work_action" where
  "submit C created others uuid now owner_id rid =
     bindS (get_record_for_owner owner_id rid) (\<lambda>record.
     bindS (require_revision record) (\<lambda>rv.
     bindS (completed_snapshot C owner_id (rr_id record) rv) (\<lambda>completed.
       case completed of
         Some snapshot \<Rightarrow>
           bindS (job_for_snapshot owner_id (rr_id record) (sn_snapshot_id snapshot)) (\<lambda>existing.
             case existing of
               Some j \<Rightarrow> reconcile_completed_job created now (rr_id record) j snapshot
             | None \<Rightarrow> bindS (interfere others) (\<lambda>_. insert_completed_job C created uuid now owner_id record snapshot))
       | None \<Rightarrow>
           bindS (active_job owner_id (rr_id record) (ac_config_hash C)) (\<lambda>active.
             case active of
               Some j \<Rightarrow> returnS j
             | None \<Rightarrow> bindS (interfere others) (\<lambda>_. insert_queued_job C created uuid now owner_id record)))))"

definition status :: "analysis_constants \<Rightarrow> (string \<Rightarrow> instant) \<Rightarrow> (work_session \<Rightarrow> work_session) \<Rightarrow> string \<Rightarrow> instant \<Rightarrow> string \<Rightarrow> string
    \<Rightarrow> analysis_job option work_action" where
  "status C created others uuid now owner_id rid =
     bindS (get_record_for_owner owner_id rid) (\<lambda>record.
     bindS (require_revision record) (\<lambda>rv.
     bindS (completed_snapshot C owner_id (rr_id record) rv) (\<lambda>completed.
       case completed of
         Some snapshot \<Rightarrow>
           bindS (job_for_snapshot owner_id (rr_id record) (sn_snapshot_id snapshot)) (\<lambda>job.
             case job of
               Some j \<Rightarrow> bindS (reconcile_completed_job created now (rr_id record) j snapshot) (\<lambda>j. returnS (Some j))
             | None \<Rightarrow>
                 bindS (effective_job owner_id (rr_id record) (ac_config_hash C)) (\<lambda>eff.
                   case eff of
                     Some j \<Rightarrow> bindS (reconcile_completed_job created now (rr_id record) j snapshot) (\<lambda>j. returnS (Some j))
                   | None \<Rightarrow> bindS (interfere others) (\<lambda>_.
                       bindS (insert_completed_job C created uuid now owner_id record snapshot) (\<lambda>j. returnS (Some j)))))
       | None \<Rightarrow> latest_job owner_id rid)))"

subsection \<open>Cancel\<close>

definition cancel_lock_attempts :: nat where
  "cancel_lock_attempts = 3"

definition is_sqlite_lock_error :: "unicode \<Rightarrow> string \<Rightarrow> bool" where
  "is_sqlite_lock_error U message \<longleftrightarrow> occurs_in ''database is locked'' (u_lower U message)"

text \<open>
  \<^verbatim>\<open>_cancel_job\<close>. The job was read before; \<^verbatim>\<open>others\<close> acts between the two statements and before each re-read.
\<close>

definition cancel_running :: "(work_session \<Rightarrow> work_session) \<Rightarrow> instant \<Rightarrow> string \<Rightarrow> analysis_job \<Rightarrow> analysis_job work_action" where
  "cancel_running others now owner_id job =
     (if aj_status job = ''running''
      then bindS (execute_update (\<lambda>j. aj_id j = aj_id job \<and> aj_owner_id j = owner_id \<and> aj_status j = ''running'')
             (\<lambda>j. j\<lparr>aj_cancel_requested := True, aj_updated_at := now\<rparr>)) (\<lambda>rowcount.
           bindS w_commit (\<lambda>_.
             if rowcount \<noteq> 0 then reload_job owner_id (aj_id job)
             else bindS (interfere others) (\<lambda>_. bindS (reload_job owner_id (aj_id job)) (\<lambda>job'.
               raiseS (ConflictServiceError (Some (aj_status job')))))))
      else raiseS (ConflictServiceError (Some (aj_status job))))"

definition cancel_job :: "(work_session \<Rightarrow> work_session) \<Rightarrow> instant \<Rightarrow> string \<Rightarrow> analysis_job \<Rightarrow> analysis_job work_action" where
  "cancel_job others now owner_id job =
     (if aj_status job = ''queued''
      then bindS (execute_update (\<lambda>j. aj_id j = aj_id job \<and> aj_owner_id j = owner_id \<and> aj_status j = ''queued'')
             (\<lambda>j. j\<lparr>aj_status := ''cancelled'', aj_cancel_requested := False, aj_worker_id := None, aj_lease_expires_at := None,
               aj_next_attempt_at := None, aj_completed_at := Some now, aj_updated_at := now\<rparr>)) (\<lambda>rowcount.
           if rowcount \<noteq> 0
           then bindS (cancel_repository owner_id (aj_repository_id job) now) (\<lambda>_. bindS w_commit (\<lambda>_. reload_job owner_id (aj_id job)))
           else bindS w_commit (\<lambda>_. bindS (interfere others) (\<lambda>_. bindS (reload_job owner_id (aj_id job)) (\<lambda>job'.
             bindS (interfere others) (\<lambda>_. cancel_running others now owner_id job')))))
      else cancel_running others now owner_id job)"

text \<open>
  \<^verbatim>\<open>cancel\<close>: the loop of at most three tries. \<^verbatim>\<open>faults\<close> lists, try by try, the message of the \<^verbatim>\<open>OperationalError\<close> its flag write
  raised, if it did; such a try has changed nothing once it is rolled back.
\<close>

fun cancel_tries :: "unicode \<Rightarrow> (work_session \<Rightarrow> work_session) \<Rightarrow> instant \<Rightarrow> string \<Rightarrow> string \<Rightarrow> (nat \<Rightarrow> string option) \<Rightarrow> nat list
    \<Rightarrow> analysis_job work_action" where
  "cancel_tries U others now owner_id rid faults [] = raiseS JobsAssertionError"
| "cancel_tries U others now owner_id rid faults (attempt # rest) =
     bindS (latest_job owner_id rid) (\<lambda>job.
       case job of
         None \<Rightarrow> raiseS (ConflictServiceError None)
       | Some j \<Rightarrow> bindS (interfere others) (\<lambda>_.
           case faults attempt of
             None \<Rightarrow> cancel_job others now owner_id j
           | Some message \<Rightarrow>
               if \<not> is_sqlite_lock_error U message then raiseS (OperationalError message)
               else bindS w_rollback (\<lambda>_.
                 if attempt = cancel_lock_attempts - 1 then raiseS ServiceBusyError
                 else cancel_tries U others now owner_id rid faults rest)))"

definition cancel :: "unicode \<Rightarrow> (work_session \<Rightarrow> work_session) \<Rightarrow> instant \<Rightarrow> string \<Rightarrow> string \<Rightarrow> (nat \<Rightarrow> string option) \<Rightarrow> analysis_job work_action" where
  "cancel U others now owner_id rid faults =
     bindS (get_record_for_owner owner_id rid) (\<lambda>_.
       cancel_tries U others now owner_id rid faults [0..<cancel_lock_attempts])"

section \<open>A quiet session\<close>

text \<open>A session between two transactions: nothing pending in either half.\<close>

definition idle_store :: "session \<Rightarrow> bool" where
  "idle_store t \<longleftrightarrow> settled t \<and> se_committed t = se_flushed t"

definition quiet :: "work_session \<Rightarrow> bool" where
  "quiet s \<longleftrightarrow> js_view s = js_committed s \<and> jobs_ok (js_committed s) \<and> idle_store (ws_store s)"

lemma flush_idle: "idle_store t \<Longrightarrow> flush t = (Inr (), t)"
  by (simp add: idle_store_def flush_settled)

lemma commit_idle: "idle_store t \<Longrightarrow> commit t = (Inr (), t)"
  by (simp add: commit_def bindS_def flush_idle) (simp add: idle_store_def)

lemma rollback_idle: "idle_store t \<Longrightarrow> rollback t = t"
  by (simp add: rollback_def idle_store_def settled_def)

lemma w_commit_idle:
  "idle_store (ws_store s) \<Longrightarrow> w_commit s = (if jobs_ok (js_view s) then (Inr (), s\<lparr>js_committed := js_view s\<rparr>)
     else (Inl JobIntegrityError, s\<lparr>js_view := js_committed s\<rparr>))"
  by (simp add: w_commit_def w_rollback_def commit_idle rollback_idle)

lemma commit_or_conflict_idle:
  "idle_store (ws_store s) \<Longrightarrow> commit_or_conflict s = (Inr (jobs_ok (js_view s)),
     if jobs_ok (js_view s) then s\<lparr>js_committed := js_view s\<rparr> else s\<lparr>js_view := js_committed s\<rparr>)"
  by (simp add: commit_or_conflict_def w_commit_idle w_rollback_def rollback_idle)

text \<open>What the lookup of the completed snapshot finds on a quiet session.\<close>

definition sealed_for :: "analysis_constants \<Rightarrow> string \<Rightarrow> string \<Rightarrow> string \<Rightarrow> work_session \<Rightarrow> job_error + ri_snapshot option" where
  "sealed_for C owner_id rid rv s = fst (completed_snapshot C owner_id rid rv s)"

lemma completed_snapshot_idle:
  "idle_store (ws_store s) \<Longrightarrow> completed_snapshot C owner_id rid rv s = (sealed_for C owner_id rid rv s, s)"
  by (auto simp: sealed_for_def completed_snapshot_def in_store_def find_completed_for_owner_def canonS_def query_def flush_idle
      action_defs split: sum.splits prod.splits)

lemma sealed_for_store: "ws_store s' = ws_store s \<Longrightarrow> sealed_for C owner_id rid rv s' = sealed_for C owner_id rid rv s"
  by (simp add: sealed_for_def completed_snapshot_def in_store_def split: prod.splits sum.splits)

subsection \<open>One effective job\<close>

lemma first_by_unique:
  assumes "j \<in> set js" and "w j" and "\<And>i. i \<in> set js \<Longrightarrow> w i \<Longrightarrow> i = j"
  shows "first_by k w js = Some j"
  using assms first_by_None first_by_Some(1,2) by (metis not_Some_eq)

lemma fk_record:
  assumes "jobs_ok d" and "j \<in> set (jd_jobs d)"
  obtains r where "r \<in> set (jd_records d)" "rr_id r = aj_repository_id j"
    "rr_revision_kind r = Some (aj_revision_kind j)" "rr_revision_value r = Some (aj_revision_value j)"
  using assms by (auto simp: jobs_ok_def list_all_iff fk_repository_revision_def list_ex_iff)

lemma records_unique:
  "jobs_ok d \<Longrightarrow> r \<in> set (jd_records d) \<Longrightarrow> r' \<in> set (jd_records d) \<Longrightarrow> rr_id r = rr_id r' \<Longrightarrow> r = r'"
  by (auto simp: jobs_ok_def unique_index_def distinct_map dest: inj_onD)

lemma get_record_Some: "get_record rs rid = Some r \<Longrightarrow> r \<in> set rs \<and> rr_id r = rid"
  by (auto simp: get_record_def find_Some_iff)

lemma same_repository_same_revision:
  assumes "jobs_ok d" and "i \<in> set (jd_jobs d)" and "j \<in> set (jd_jobs d)" and "aj_repository_id i = aj_repository_id j"
  shows "aj_revision_value i = aj_revision_value j"
proof -
  obtain r where r: "r \<in> set (jd_records d)" "rr_id r = aj_repository_id i" "rr_revision_value r = Some (aj_revision_value i)"
    by (rule fk_record [OF assms(1,2)])
  obtain r' where r': "r' \<in> set (jd_records d)" "rr_id r' = aj_repository_id j" "rr_revision_value r' = Some (aj_revision_value j)"
    by (rule fk_record [OF assms(1,3)])
  have "r = r'" using records_unique [OF assms(1) r(1) r'(1)] r(2) r'(2) assms(4) by simp
  then show ?thesis using r(3) r'(3) by simp
qed

lemma unique_index_inj:
  "unique_index w k js \<Longrightarrow> i \<in> set js \<Longrightarrow> j \<in> set js \<Longrightarrow> w i \<Longrightarrow> w j \<Longrightarrow> k i = k j \<Longrightarrow> i = j"
  by (auto simp: unique_index_def distinct_map dest: inj_onD)

lemma effective_unique:
  assumes "jobs_ok d" and "i \<in> set (jd_jobs d)" and "j \<in> set (jd_jobs d)" and "effective i" and "effective j"
    and "aj_repository_id i = aj_repository_id j" and "aj_config_hash i = aj_config_hash j"
  shows "i = j"
proof (rule unique_index_inj)
  show "unique_index effective job_identity (jd_jobs d)" using assms(1) by (simp add: jobs_ok_def uq_analysis_jobs_def)
  show "job_identity i = job_identity j"
    using same_repository_same_revision [OF assms(1-3)] assms(6,7) by (simp add: job_identity_def)
qed (use assms in simp_all)

lemma snapshot_unique:
  assumes "jobs_ok d" and "i \<in> set (jd_jobs d)" and "j \<in> set (jd_jobs d)" and "aj_snapshot_id i = Some sid" and "aj_snapshot_id j = Some sid"
  shows "i = j"
proof (rule unique_index_inj)
  show "unique_index (\<lambda>j. aj_snapshot_id j \<noteq> None) aj_snapshot_id (jd_jobs d)" using assms(1) by (simp add: jobs_ok_def uq_analysis_jobs_def)
qed (use assms in simp_all)

subsection \<open>What a submission settles on\<close>

lemma get_record_row:
  assumes "jobs_ok d" and "r \<in> set (jd_records d)" shows "get_record (jd_records d) (rr_id r) = Some r"
proof -
  have "get_record (jd_records d) (rr_id r) \<noteq> None" using assms(2) by (auto simp: get_record_def find_None_iff)
  then obtain q where "get_record (jd_records d) (rr_id r) = Some q" by blast
  then show ?thesis using get_record_Some records_unique [OF assms(1)] assms(2) by metis
qed

text \<open>
  The job a request for repository \<^verbatim>\<open>rid\<close> is answered with: the one attached to the sealed snapshot, if the current identity
  has one, and otherwise the one job that the effective index allows.
\<close>

definition answers :: "analysis_constants \<Rightarrow> string \<Rightarrow> string \<Rightarrow> analysis_job \<Rightarrow> work_session \<Rightarrow> bool" where
  "answers C owner_id rid j s \<longleftrightarrow> quiet s \<and> j \<in> set (jobs s) \<and> aj_repository_id j = rid \<and> aj_owner_id j = owner_id
     \<and> effective j
     \<and> (\<exists>r rv. get_record (jd_records (js_view s)) rid = Some r \<and> rr_owner_id r = owner_id \<and> rr_revision_kind r \<noteq> None
          \<and> rr_revision_value r = Some rv
          \<and> (case sealed_for C owner_id rid rv s of
               Inr (Some snapshot) \<Rightarrow> reconciled r j (sn_snapshot_id snapshot)
             | Inr None \<Rightarrow> aj_config_hash j = ac_config_hash C
             | Inl _ \<Rightarrow> False))"

lemma quiet_parts:
  assumes "quiet s" shows "js_view s = js_committed s" "jobs_ok (js_view s)" "idle_store (ws_store s)"
  using assms by (simp_all add: quiet_def)

lemma jobs_view: "jobs s = jd_jobs (js_view s)"
  by (simp add: jobs_def)

text \<open>The reconciling commit.\<close>

lemma update_rows_mem:
  "j \<in> set js \<Longrightarrow> w j \<Longrightarrow> f j \<in> set (update_rows w f js)"
  by (force simp: update_rows_def)

definition sealed_or :: "instant \<Rightarrow> ri_snapshot \<Rightarrow> instant" where
  "sealed_or now snapshot = (case sn_sealed_at snapshot of Some t \<Rightarrow> t | None \<Rightarrow> now)"

definition reconciled_job :: "(string \<Rightarrow> instant) \<Rightarrow> instant \<Rightarrow> ri_snapshot \<Rightarrow> analysis_job \<Rightarrow> analysis_job" where
  "reconciled_job created now snapshot =
     reconcile_values now (created (sn_snapshot_id snapshot)) (sealed_or now snapshot) (sn_snapshot_id snapshot)"

definition reconciled_db :: "(string \<Rightarrow> instant) \<Rightarrow> instant \<Rightarrow> string \<Rightarrow> string \<Rightarrow> ri_snapshot \<Rightarrow> jobs_db \<Rightarrow> jobs_db" where
  "reconciled_db created now rid jid snapshot d =
     d\<lparr>jd_jobs := update_rows (\<lambda>i. aj_id i = jid) (reconciled_job created now snapshot) (jd_jobs d),
       jd_records := map (\<lambda>r. if rr_id r = rid then (complete_repository (sealed_or now snapshot) r)\<lparr>rr_updated_at := now\<rparr> else r) (jd_records d)\<rparr>"

lemma reconcile_eq:
  assumes "idle_store (ws_store s)" and "get_record (jd_records (js_view s)) rid = Some r"
    and "\<not> reconciled r j (sn_snapshot_id snapshot)"
  shows "reconcile_completed_job created now rid j snapshot s =
    (let d = reconciled_db created now rid (aj_id j) snapshot (js_view s) in
     if jobs_ok d then refresh (aj_id j) (s\<lparr>js_view := d, js_committed := d\<rparr>)
     else (Inl JobIntegrityError, s\<lparr>js_view := js_committed s\<rparr>))"
proof -
  define d where "d = reconciled_db created now rid (aj_id j) snapshot (js_view s)"
  have "bindS (edit_jobs (update_rows (\<lambda>i. aj_id i = aj_id j) (reconciled_job created now snapshot))) (\<lambda>_.
      bindS (edit_record now rid (complete_repository (sealed_or now snapshot))) (\<lambda>_. bindS w_commit m)) s
    = bindS w_commit m (s\<lparr>js_view := d\<rparr>)" for m :: "unit \<Rightarrow> analysis_job work_action"
    by (simp add: bindS_def [of "edit_jobs _"] bindS_def [of "edit_record _ _ _"] edit_jobs_def edit_record_def
        set_jobs_def set_records_def d_def reconciled_db_def)
  moreover have "w_commit (s\<lparr>js_view := d\<rparr>) = (if jobs_ok d then (Inr (), s\<lparr>js_view := d, js_committed := d\<rparr>)
      else (Inl JobIntegrityError, s\<lparr>js_view := js_committed s\<rparr>))"
    using assms(1) by (simp add: w_commit_idle)
  ultimately show ?thesis
    using assms(2,3)
    by (simp add: reconcile_completed_job_def Let_def bindS_def [of "getS _"] getS_def bindS_def [of w_commit] d_def
        reconciled_job_def sealed_or_def)
qed

text \<open>The columns of a repository row that no operation here changes.\<close>

definition same_identity :: "repository_record \<Rightarrow> repository_record \<Rightarrow> bool" where
  "same_identity r r' \<longleftrightarrow> rr_id r' = rr_id r \<and> rr_owner_id r' = rr_owner_id r \<and> rr_revision_kind r' = rr_revision_kind r
     \<and> rr_revision_value r' = rr_revision_value r"

text \<open>A job of the committed table that is effective for repository \<^verbatim>\<open>r\<close>.\<close>

definition serves :: "string \<Rightarrow> repository_record \<Rightarrow> analysis_job \<Rightarrow> work_session \<Rightarrow> bool" where
  "serves owner_id r j s \<longleftrightarrow> quiet s \<and> j \<in> set (jobs s) \<and> aj_repository_id j = rr_id r \<and> aj_owner_id j = owner_id
     \<and> effective j \<and> (\<exists>r'. get_record (jd_records (js_view s)) (rr_id r) = Some r' \<and> same_identity r r')"

lemma reconcile_serves:
  assumes q: "quiet s" and j: "j \<in> set (jobs s)" "aj_repository_id j = rid" "aj_owner_id j = owner_id"
    and r: "get_record (jd_records (js_view s)) rid = Some r"
    and ok: "reconcile_completed_job created now rid j snapshot s = (Inr job, s')"
  shows "serves owner_id r job s'" "ws_store s' = ws_store s"
    "\<exists>r'. get_record (jd_records (js_view s')) rid = Some r' \<and> same_identity r r' \<and> reconciled r' job (sn_snapshot_id snapshot)"
proof -
  have rid: "rr_id r = rid" using get_record_Some [OF r] by simp
  have "serves owner_id r job s' \<and> ws_store s' = ws_store s \<and>
    (\<exists>r'. get_record (jd_records (js_view s')) rid = Some r' \<and> same_identity r r' \<and> reconciled r' job (sn_snapshot_id snapshot))"
  proof (cases "reconciled r j (sn_snapshot_id snapshot)")
    case True
    then have "job = j" "s' = s"
      using ok r(1) by (simp_all add: reconcile_completed_job_def Let_def bindS_def getS_def returnS_def)
    moreover have "effective j" using True by (simp add: reconciled_def effective_def)
    ultimately show ?thesis using True q j r rid by (auto simp: serves_def same_identity_def)
  next
    case False
    note p = quiet_parts [OF q]
    define d where "d = reconciled_db created now rid (aj_id j) snapshot (js_view s)"
    let ?f = "reconciled_job created now snapshot"
    let ?r = "(complete_repository (sealed_or now snapshot) r)\<lparr>rr_updated_at := now\<rparr>"
    have fid: "aj_id (?f i) = aj_id i" for i by (simp add: reconcile_values_def reconciled_job_def)
    have row: "get_job (jd_jobs d) (aj_id j) = Some (?f j)"
      using get_job_row [OF jobs_ok_ids [OF p(2)], of j] j(1) by (simp add: get_job_update fid jobs_view d_def reconciled_db_def)
    have good: "jobs_ok d" and job: "job = ?f j" and s': "s' = s\<lparr>js_view := d, js_committed := d\<rparr>"
      using ok row unfolding reconcile_eq [OF p(3) r(1) False] Let_def d_def [symmetric]
      by (auto simp: refresh_def bindS_def getS_def returnS_def jobs_view split: if_splits)
    have same: "same_identity r ?r" by (simp add: same_identity_def complete_repository_def)
    have "?r \<in> set (jd_records d)" using get_record_Some [OF r(1)] by (auto simp: d_def reconciled_db_def)
    then have rec: "get_record (jd_records d) rid = Some ?r"
      using get_record_row [OF good] same rid unfolding same_identity_def by metis
    have "reconciled ?r job (sn_snapshot_id snapshot)" "effective job" "aj_repository_id job = rid" "aj_owner_id job = owner_id"
      using j by (simp_all add: job reconciled_job_def reconcile_values_def complete_repository_def reconciled_def effective_def)
    moreover have "quiet s'" using good p(3) by (simp add: s' quiet_def)
    moreover have "job \<in> set (jobs s')" using get_job_Some [OF row] by (simp add: job s' jobs_view)
    moreover have "get_record (jd_records (js_view s')) rid = Some ?r" using rec by (simp add: s')
    moreover have "ws_store s' = ws_store s" by (simp add: s')
    ultimately show ?thesis using same rid unfolding serves_def by auto
  qed
  then show "serves owner_id r job s'" "ws_store s' = ws_store s"
    "\<exists>r'. get_record (jd_records (js_view s')) rid = Some r' \<and> same_identity r r' \<and> reconciled r' job (sn_snapshot_id snapshot)"
    by blast+
qed

text \<open>An insertion with its repository columns, committed or rolled back.\<close>

definition inserted_db :: "analysis_job \<Rightarrow> (repository_record \<Rightarrow> repository_record) \<Rightarrow> instant \<Rightarrow> jobs_db \<Rightarrow> jobs_db" where
  "inserted_db j f now d = d\<lparr>jd_jobs := jd_jobs d @ [j],
     jd_records := map (\<lambda>r. if rr_id r = aj_repository_id j then (f r)\<lparr>rr_updated_at := now\<rparr> else r) (jd_records d)\<rparr>"

lemma insert_eq:
  assumes "idle_store (ws_store s)" and "aj_repository_id j = rid"
  shows "bindS (edit_jobs (\<lambda>js. js @ [j])) (\<lambda>_. bindS (edit_record now rid f) (\<lambda>_. bindS commit_or_conflict m)) s =
    (let d = inserted_db j f now (js_view s) in
     if jobs_ok d then m True (s\<lparr>js_view := d, js_committed := d\<rparr>) else m False (s\<lparr>js_view := js_committed s\<rparr>))"
proof -
  define d where "d = inserted_db j f now (js_view s)"
  have "bindS (edit_jobs (\<lambda>js. js @ [j])) (\<lambda>_. bindS (edit_record now rid f) (\<lambda>_. bindS commit_or_conflict m)) s
    = bindS commit_or_conflict m (s\<lparr>js_view := d\<rparr>)"
    by (simp add: bindS_def [of "edit_jobs _"] bindS_def [of "edit_record _ _ _"] edit_jobs_def edit_record_def
        set_jobs_def set_records_def d_def inserted_db_def assms(2))
  also have "\<dots> = (if jobs_ok d then m True (s\<lparr>js_view := d, js_committed := d\<rparr>) else m False (s\<lparr>js_view := js_committed s\<rparr>))"
    using assms(1) by (simp add: bindS_def commit_or_conflict_idle)
  finally show ?thesis by (simp add: d_def Let_def)
qed

lemma inserted_serves:
  assumes q: "quiet s" and good: "jobs_ok (inserted_db j f now (js_view s))" and e: "effective j" "aj_owner_id j = owner_id" "aj_repository_id j = rr_id r"
    and r: "get_record (jd_records (js_view s)) (rr_id r) = Some r'" "same_identity r r'" and f: "same_identity r' ((f r')\<lparr>rr_updated_at := now\<rparr>)"
    and ok: "refresh (aj_id j) (s\<lparr>js_view := inserted_db j f now (js_view s), js_committed := inserted_db j f now (js_view s)\<rparr>) = (Inr job, s')"
  shows "serves owner_id r job s'" "ws_store s' = ws_store s" "job = j"
    "get_record (jd_records (js_view s')) (rr_id r) = Some ((f r')\<lparr>rr_updated_at := now\<rparr>)"
proof -
  let ?d = "inserted_db j f now (js_view s)" and ?r = "(f r')\<lparr>rr_updated_at := now\<rparr>"
  have row: "get_job (jd_jobs ?d) (aj_id j) = Some j"
    by (rule get_job_row [OF jobs_ok_ids [OF good]]) (simp add: inserted_db_def)
  then have job: "job = j" and s': "s' = s\<lparr>js_view := ?d, js_committed := ?d\<rparr>"
    using ok by (auto simp: refresh_def bindS_def getS_def returnS_def jobs_view)
  have "?r \<in> set (jd_records ?d)" using get_record_Some [OF r(1)] e(3) by (auto simp: inserted_db_def)
  then have rec: "get_record (jd_records ?d) (rr_id r) = Some ?r"
    using get_record_row [OF good] f r(2) unfolding same_identity_def by metis
  show "job = j" by (rule job)
  show "ws_store s' = ws_store s" by (simp add: s')
  show "get_record (jd_records (js_view s')) (rr_id r) = Some ?r" using rec by (simp add: s')
  have "same_identity r ?r" using f r(2) by (simp add: same_identity_def)
  then show "serves owner_id r job s'"
    using rec e good quiet_parts(3) [OF q] get_job_Some [OF row] by (auto simp: serves_def s' quiet_def job jobs_view)
qed

lemma newest_eq: "newest w s = (Inr (first_by (\<lambda>j. - aj_created_at j) w (jobs s)), s)"
  by (simp add: newest_def getS_def)

lemmas lookup_defs = latest_job_def active_job_def effective_job_def job_for_snapshot_def newest_eq

lemma quiet_rolled_back: "quiet s \<Longrightarrow> s\<lparr>js_view := js_committed s\<rparr> = s"
  by (simp add: quiet_def)

lemma new_job_simps [simp]:
  "aj_id (new_job u n w r c) = u" "aj_repository_id (new_job u n w r c) = rr_id r" "aj_owner_id (new_job u n w r c) = w"
  "aj_config_hash (new_job u n w r c) = c" "aj_status (new_job u n w r c) = ''queued''"
  by (simp_all add: new_job_def)

lemma require_revision_Inr:
  "require_revision r s = (Inr v, s') \<longleftrightarrow> rr_revision_kind r \<noteq> None \<and> rr_revision_value r = Some v \<and> s' = s"
  by (auto simp: require_revision_def returnS_def raiseS_def split: option.splits)

lemma insert_queued_serves:
  assumes q: "quiet s" and r: "get_record (jd_records (js_view s)) (rr_id r) = Some r'" "same_identity r r'"
    and ok: "insert_queued_job C created uuid now owner_id r s = (Inr job, s')"
  shows "serves owner_id r job s'" "ws_store s' = ws_store s"
    "\<And>rv. rr_revision_value r = Some rv \<Longrightarrow> sealed_for C owner_id (rr_id r) rv s = Inr None \<Longrightarrow> aj_config_hash job = ac_config_hash C"
proof -
  let ?j = "new_job uuid now owner_id r (ac_config_hash C)" and ?f = prepare_repository_for_analysis
  note ins = insert_eq [OF quiet_parts(3) [OF q], of ?j "rr_id r" now ?f]
  have all: "serves owner_id r job s' \<and> ws_store s' = ws_store s \<and> (\<forall>rv. rr_revision_value r = Some rv
    \<longrightarrow> sealed_for C owner_id (rr_id r) rv s = Inr None \<longrightarrow> aj_config_hash job = ac_config_hash C)"
  proof (cases "jobs_ok (inserted_db ?j ?f now (js_view s))")
    case True
    have rf: "refresh (aj_id ?j) (s\<lparr>js_view := inserted_db ?j ?f now (js_view s), js_committed := inserted_db ?j ?f now (js_view s)\<rparr>) = (Inr job, s')"
      using ok True unfolding insert_queued_job_def Let_def by (subst (asm) ins) (simp_all add: Let_def)
    have f: "same_identity r' ((?f r')\<lparr>rr_updated_at := now\<rparr>)"
      by (simp add: same_identity_def prepare_repository_for_analysis_def)
    have e: "effective ?j" by (simp add: effective_def)
    show ?thesis using inserted_serves [OF q True e _ _ r f rf, of owner_id] by simp
  next
    case False
    then obtain rv completed eff where rv: "rr_revision_value r = Some rv"
      and comp: "sealed_for C owner_id (rr_id r) rv s = Inr completed"
      and eff: "first_by (\<lambda>j. - aj_created_at j) (\<lambda>j. aj_repository_id j = rr_id r \<and> aj_owner_id j = owner_id
        \<and> aj_config_hash j = ac_config_hash C \<and> aj_status j \<in> {''queued'', ''running'', ''completed''}) (jobs s) = Some eff"
      and rest: "(case completed of None \<Rightarrow> (Inr eff, s) | Some snap \<Rightarrow> reconcile_completed_job created now (rr_id r) eff snap s) = (Inr job, s')"
      using ok unfolding insert_queued_job_def Let_def
      by (subst (asm) ins) (auto simp: Let_def quiet_rolled_back [OF q] bindS_Inr require_revision_Inr
          completed_snapshot_idle [OF quiet_parts(3) [OF q]] lookup_defs returnS_def raiseS_def split: option.splits)
    note e = first_by_Some(1,2) [OF eff]
    show ?thesis
    proof (cases completed)
      case None
      then show ?thesis using rest e q r by (auto simp: serves_def effective_def)
    next
      case (Some snap)
      have rc: "reconcile_completed_job created now (rr_id r) eff snap s = (Inr job, s')" using rest Some by simp
      have "serves owner_id r' job s'" "ws_store s' = ws_store s"
        using reconcile_serves(1,2) [OF q e(1) _ _ r(1) rc, of owner_id] e(2) by simp_all
      then show ?thesis using r(2) rv comp Some by (auto simp: serves_def same_identity_def)
    qed
  qed
  then show "serves owner_id r job s'" "ws_store s' = ws_store s"
    "\<And>rv. rr_revision_value r = Some rv \<Longrightarrow> sealed_for C owner_id (rr_id r) rv s = Inr None \<Longrightarrow> aj_config_hash job = ac_config_hash C"
    by blast+
qed

lemma insert_completed_serves:
  assumes q: "quiet s" and r: "get_record (jd_records (js_view s)) (rr_id r) = Some r'" "same_identity r r'"
    and ok: "insert_completed_job C created uuid now owner_id r snapshot s = (Inr job, s')"
  shows "serves owner_id r job s'" "ws_store s' = ws_store s"
    "\<exists>r''. get_record (jd_records (js_view s')) (rr_id r) = Some r'' \<and> same_identity r r'' \<and> reconciled r'' job (sn_snapshot_id snapshot)"
proof -
  let ?at = "sealed_or now snapshot"
  let ?j = "(new_job uuid now owner_id r (ac_config_hash C))\<lparr>aj_status := ''completed'', aj_stage := Some ''completed'',
            aj_progress := 100, aj_snapshot_id := Some (sn_snapshot_id snapshot), aj_started_at := Some (created (sn_snapshot_id snapshot)),
            aj_completed_at := Some ?at\<rparr>" and ?f = "complete_repository ?at"
  have rj: "aj_repository_id ?j = rr_id r" by simp
  note ins = insert_eq [OF quiet_parts(3) [OF q] rj, of now ?f]
  have all: "serves owner_id r job s' \<and> ws_store s' = ws_store s \<and>
    (\<exists>r''. get_record (jd_records (js_view s')) (rr_id r) = Some r'' \<and> same_identity r r'' \<and> reconciled r'' job (sn_snapshot_id snapshot))"
  proof (cases "jobs_ok (inserted_db ?j ?f now (js_view s))")
    case True
    have rf: "refresh (aj_id ?j) (s\<lparr>js_view := inserted_db ?j ?f now (js_view s), js_committed := inserted_db ?j ?f now (js_view s)\<rparr>) = (Inr job, s')"
      using ok True unfolding insert_completed_job_def Let_def sealed_or_def [symmetric]
      by (subst (asm) ins) (simp_all add: Let_def)
    have f: "same_identity r' ((?f r')\<lparr>rr_updated_at := now\<rparr>)"
      by (simp add: same_identity_def complete_repository_def)
    have e: "effective ?j" by (simp add: effective_def)
    note iserves = inserted_serves [OF q True e _ _ r f rf, of owner_id]
    have "reconciled ((?f r')\<lparr>rr_updated_at := now\<rparr>) ?j (sn_snapshot_id snapshot)"
      by (simp add: reconciled_def complete_repository_def new_job_def)
    then show ?thesis using iserves f r(2) by (auto simp: same_identity_def)
  next
    case False
    then obtain eff where e: "eff \<in> set (jobs s)" "aj_repository_id eff = rr_id r" "aj_owner_id eff = owner_id"
      and rc: "reconcile_completed_job created now (rr_id r) eff snapshot s = (Inr job, s')"
      using ok unfolding insert_completed_job_def Let_def sealed_or_def [symmetric]
      by (subst (asm) ins) (auto simp: Let_def quiet_rolled_back [OF q] bindS_Inr lookup_defs raiseS_def
          dest: first_by_Some(1,2) split: option.splits)
    show ?thesis
      using reconcile_serves [OF q e r(1) rc] r(2) by (auto simp: serves_def same_identity_def)
  qed
  then show "serves owner_id r job s'" "ws_store s' = ws_store s"
    "\<exists>r''. get_record (jd_records (js_view s')) (rr_id r) = Some r'' \<and> same_identity r r'' \<and> reconciled r'' job (sn_snapshot_id snapshot)"
    by blast+
qed

section \<open>Submission\<close>

text \<open>What another session may do: it leaves quiet tables and never changes the identity of a repository.\<close>

definition steady :: "(work_session \<Rightarrow> work_session) \<Rightarrow> bool" where
  "steady f \<longleftrightarrow> (\<forall>s. quiet s \<longrightarrow> quiet (f s) \<and> (\<forall>rid r. get_record (jd_records (js_view s)) rid = Some r
     \<longrightarrow> (\<exists>r'. get_record (jd_records (js_view (f s))) rid = Some r' \<and> same_identity r r')))"

lemma steady_id: "steady (\<lambda>s. s)"
  by (auto simp: steady_def same_identity_def)

lemma get_record_for_owner_Inr:
  "get_record_for_owner owner_id rid s = (Inr r, s') \<longleftrightarrow>
     get_record (jd_records (js_view s)) rid = Some r \<and> rr_owner_id r = owner_id \<and> s' = s"
  by (auto simp: get_record_for_owner_def bindS_Inr getS_def raiseS_def returnS_def split: option.splits)

text \<open>The three ways a submission returns.\<close>

lemma submit_cases:
  assumes q: "quiet s" and ok: "submit C created others uuid now owner_id rid s = (Inr job, s')"
  obtains (sealed) r rv snapshot j where "get_record (jd_records (js_view s)) rid = Some r" "rr_owner_id r = owner_id"
      "rr_revision_kind r \<noteq> None" "rr_revision_value r = Some rv" "rr_id r = rid" "sealed_for C owner_id rid rv s = Inr (Some snapshot)"
      "j \<in> set (jobs s)" "aj_repository_id j = rid" "aj_owner_id j = owner_id"
      "reconcile_completed_job created now rid j snapshot s = (Inr job, s')"
    | (completed) r rv snapshot where "get_record (jd_records (js_view s)) rid = Some r" "rr_owner_id r = owner_id"
      "rr_revision_kind r \<noteq> None" "rr_revision_value r = Some rv" "rr_id r = rid" "sealed_for C owner_id rid rv s = Inr (Some snapshot)"
      "insert_completed_job C created uuid now owner_id r snapshot (others s) = (Inr job, s')"
    | (active) r rv where "get_record (jd_records (js_view s)) rid = Some r" "rr_owner_id r = owner_id"
      "rr_revision_kind r \<noteq> None" "rr_revision_value r = Some rv" "rr_id r = rid" "sealed_for C owner_id rid rv s = Inr None"
      "job \<in> set (jobs s)" "aj_repository_id job = rid" "aj_owner_id job = owner_id" "aj_config_hash job = ac_config_hash C"
      "effective job" "s' = s"
    | (queued) r rv where "get_record (jd_records (js_view s)) rid = Some r" "rr_owner_id r = owner_id"
      "rr_revision_kind r \<noteq> None" "rr_revision_value r = Some rv" "rr_id r = rid" "sealed_for C owner_id rid rv s = Inr None"
      "insert_queued_job C created uuid now owner_id r (others s) = (Inr job, s')"
proof -
  obtain r rv completed where r: "get_record (jd_records (js_view s)) rid = Some r" "rr_owner_id r = owner_id"
      "rr_revision_kind r \<noteq> None" "rr_revision_value r = Some rv" and c: "sealed_for C owner_id (rr_id r) rv s = Inr completed"
    and rest: "(case completed of
         Some snapshot \<Rightarrow>
           bindS (job_for_snapshot owner_id (rr_id r) (sn_snapshot_id snapshot)) (\<lambda>existing.
             case existing of
               Some j \<Rightarrow> reconcile_completed_job created now (rr_id r) j snapshot
             | None \<Rightarrow> bindS (interfere others) (\<lambda>_. insert_completed_job C created uuid now owner_id r snapshot))
       | None \<Rightarrow>
           bindS (active_job owner_id (rr_id r) (ac_config_hash C)) (\<lambda>active.
             case active of
               Some j \<Rightarrow> returnS j
             | None \<Rightarrow> bindS (interfere others) (\<lambda>_. insert_queued_job C created uuid now owner_id r))) s = (Inr job, s')"
    using ok unfolding submit_def bindS_Inr [of "get_record_for_owner _ _"] bindS_Inr [of "require_revision _"]
      bindS_Inr [of "completed_snapshot _ _ _ _"] get_record_for_owner_Inr require_revision_Inr
    using completed_snapshot_idle [OF quiet_parts(3) [OF q]] by auto
  have id: "rr_id r = rid" using get_record_Some [OF r(1)] by simp
  show thesis
  proof (cases completed)
    case (Some snapshot)
    then consider j where "job_for_snapshot owner_id rid (sn_snapshot_id snapshot) s = (Inr (Some j), s)"
        "reconcile_completed_job created now rid j snapshot s = (Inr job, s')"
      | "insert_completed_job C created uuid now owner_id r snapshot (others s) = (Inr job, s')"
      using rest by (auto simp: id bindS_Inr lookup_defs interfere_def split: option.splits)
    then show thesis
    proof cases
      case 1
      then show thesis using sealed [OF r id] c Some first_by_Some(1,2) by (fastforce simp: id lookup_defs)
    next
      case 2
      then show thesis using completed [OF r id] c Some by (simp add: id)
    qed
  next
    case None
    then consider "active_job owner_id rid (ac_config_hash C) s = (Inr (Some job), s)" "s' = s"
      | "insert_queued_job C created uuid now owner_id r (others s) = (Inr job, s')"
      using rest by (auto simp: id bindS_Inr lookup_defs interfere_def returnS_def split: option.splits)
    then show thesis
    proof cases
      case 1
      then have "first_by (\<lambda>j. - aj_created_at j) (\<lambda>j. aj_repository_id j = rid \<and> aj_owner_id j = owner_id
          \<and> aj_config_hash j = ac_config_hash C \<and> aj_status j \<in> {''queued'', ''running''}) (jobs s) = Some job"
        by (simp add: lookup_defs)
      from first_by_Some(1,2) [OF this] show thesis
        using active [OF r id] c None 1(2) by (auto simp: id effective_def)
    next
      case 2
      then show thesis using queued [OF r id] c None by (simp add: id)
    qed
  qed
qed

lemma answers_serves:
  assumes "serves owner_id r j s" and "rr_id r = rid" "rr_owner_id r = owner_id" "rr_revision_kind r \<noteq> None" "rr_revision_value r = Some rv"
    and "sealed_for C owner_id rid rv s = Inr None" "aj_config_hash j = ac_config_hash C"
  shows "answers C owner_id rid j s"
  using assms by (auto simp: answers_def serves_def same_identity_def)

lemma answers_reconciled:
  assumes "serves owner_id r j s" and "rr_id r = rid" "rr_owner_id r = owner_id" "rr_revision_kind r \<noteq> None" "rr_revision_value r = Some rv"
    and "sealed_for C owner_id rid rv s = Inr (Some snapshot)"
    and "\<exists>r'. get_record (jd_records (js_view s)) rid = Some r' \<and> same_identity r r' \<and> reconciled r' j (sn_snapshot_id snapshot)"
  shows "answers C owner_id rid j s"
  using assms by (auto simp: answers_def serves_def same_identity_def)

lemma submit_answers:
  assumes q: "quiet s" and ok: "submit C created (\<lambda>s. s) uuid now owner_id rid s = (Inr job, s')"
  shows "answers C owner_id rid job s'"
  using q ok
proof (cases rule: submit_cases)
  case (sealed r rv snapshot j)
  note rc = reconcile_serves [OF q sealed(7-9,1,10)]
  show ?thesis
    by (rule answers_reconciled [OF rc(1) sealed(5) sealed(2-4) _ rc(3)])
      (use sealed(6) sealed_for_store [OF rc(2)] in simp)
next
  case (completed r rv snapshot)
  have r: "get_record (jd_records (js_view s)) (rr_id r) = Some r" "same_identity r r"
    using completed(1,5) by (simp_all add: same_identity_def)
  note ins = insert_completed_serves [OF q r completed(7)]
  show ?thesis
    by (rule answers_reconciled [OF ins(1) completed(5) completed(2-4)])
      (use completed(5,6) ins(3) sealed_for_store [OF ins(2)] in simp_all)
next
  case (active r rv)
  have "serves owner_id r job s"
    using q active by (auto simp: serves_def same_identity_def)
  then show ?thesis using answers_serves active by blast
next
  case (queued r rv)
  have r: "get_record (jd_records (js_view s)) (rr_id r) = Some r" "same_identity r r"
    using queued(1,5) by (simp_all add: same_identity_def)
  note ins = insert_queued_serves [OF q r queued(7)]
  show ?thesis
    by (rule answers_serves [OF ins(1) queued(5) queued(2-4)])
      (use queued(4-6) ins(3) sealed_for_store [OF ins(2)] in simp_all)
qed

lemma insert_clash:
  assumes q: "quiet s" and j: "j \<in> set (jobs s)" "effective j" "aj_repository_id j = rr_id r" "aj_config_hash j = ac_config_hash C"
    and r: "get_record (jd_records (js_view s)) (rr_id r) = Some r" "rr_revision_value r = Some rv"
  shows "\<not> jobs_ok (inserted_db (new_job uuid now owner_id r (ac_config_hash C)) f now (js_view s))"
proof
  let ?n = "new_job uuid now owner_id r (ac_config_hash C)"
  assume "jobs_ok (inserted_db ?n f now (js_view s))"
  then have "unique_index effective job_identity (jobs s @ [?n])"
    by (simp add: jobs_ok_def uq_analysis_jobs_def inserted_db_def jobs_view)
  moreover have "effective ?n" by (simp add: effective_def)
  ultimately have "job_identity ?n \<notin> job_identity ` set (filter effective (jobs s))"
    by (simp add: unique_index_def)
  moreover have "job_identity j = job_identity ?n"
  proof -
    obtain r' where "r' \<in> set (jd_records (js_view s))" "rr_id r' = rr_id r" "rr_revision_value r' = Some (aj_revision_value j)"
      using fk_record [OF quiet_parts(2) [OF q], of j] j(1,3) by (metis jobs_view)
    then have "aj_revision_value j = rv"
      using records_unique [OF quiet_parts(2) [OF q]] get_record_Some [OF r(1)] r(2) by (metis option.inject)
    then show ?thesis using j(3,4) r(2) by (simp add: job_identity_def new_job_def)
  qed
  moreover have "j \<in> set (filter effective (jobs s))" using j(1,2) by simp
  ultimately show False by (metis image_eqI)
qed

lemma lookup_cases: "(\<And>e. x = Inl e \<Longrightarrow> P) \<Longrightarrow> (x = Inr None \<Longrightarrow> P) \<Longrightarrow> (\<And>y. x = Inr (Some y) \<Longrightarrow> P) \<Longrightarrow> P"
  by (metis obj_sumE option.exhaust)

lemma answers_fixpoint:
  assumes a: "answers C owner_id rid j s"
  shows "submit C created (\<lambda>s. s) uuid now owner_id rid s = (Inr j, s)"
proof -
  obtain r rv where q: "quiet s" and j: "j \<in> set (jobs s)" "aj_repository_id j = rid" "aj_owner_id j = owner_id" "effective j"
    and r: "get_record (jd_records (js_view s)) rid = Some r" "rr_owner_id r = owner_id" "rr_revision_kind r \<noteq> None" "rr_revision_value r = Some rv"
    and c: "case sealed_for C owner_id rid rv s of Inr (Some snapshot) \<Rightarrow> reconciled r j (sn_snapshot_id snapshot)
             | Inr None \<Rightarrow> aj_config_hash j = ac_config_hash C | Inl _ \<Rightarrow> False"
    using a unfolding answers_def by blast
  have id: "rr_id r = rid" using get_record_Some [OF r(1)] by simp
  note ok = quiet_parts(2) [OF q]
  have start: "submit C created (\<lambda>s. s) uuid now owner_id rid s = (case sealed_for C owner_id rid rv s of
      Inl e \<Rightarrow> (Inl e, s)
    | Inr (Some snapshot) \<Rightarrow>
        bindS (job_for_snapshot owner_id rid (sn_snapshot_id snapshot)) (\<lambda>existing. case existing of
            Some j \<Rightarrow> reconcile_completed_job created now rid j snapshot
          | None \<Rightarrow> insert_completed_job C created uuid now owner_id r snapshot) s
    | Inr None \<Rightarrow>
        bindS (active_job owner_id rid (ac_config_hash C)) (\<lambda>active. case active of
            Some j \<Rightarrow> returnS j
          | None \<Rightarrow> insert_queued_job C created uuid now owner_id r) s)" (is "_ = ?rhs")
  proof -
    have i: "bindS (interfere (\<lambda>s. s)) m = m ()" for m :: "unit \<Rightarrow> analysis_job work_action"
      by (rule ext) (simp add: bindS_def interfere_def)
    have 1: "get_record_for_owner owner_id rid s = (Inr r, s)" using r by (simp add: get_record_for_owner_Inr)
    have 2: "require_revision r s = (Inr rv, s)" using r by (simp add: require_revision_Inr)
    show ?thesis
      unfolding submit_def bindS_def [of "get_record_for_owner _ _"] 1 prod.case sum.case bindS_def [of "require_revision _"] 2
        bindS_def [of "completed_snapshot _ _ _ _"] completed_snapshot_idle [OF quiet_parts(3) [OF q]] id i
      by (cases "sealed_for C owner_id rid rv s" rule: lookup_cases) (simp_all only: prod.case sum.case option.case)
  qed
  show ?thesis
  proof (cases "sealed_for C owner_id rid rv s")
    case (Inr completed)
    show ?thesis
    proof (cases completed)
      case (Some snapshot)
      have rc: "reconciled r j (sn_snapshot_id snapshot)" using c Inr Some by simp
      have u: "i = j" if "i \<in> set (jobs s)" "aj_snapshot_id i = Some (sn_snapshot_id snapshot)" for i
        using snapshot_unique [OF ok, of i j "sn_snapshot_id snapshot"] that j rc by (simp add: reconciled_def jobs_view)
      have "job_for_snapshot owner_id rid (sn_snapshot_id snapshot) s = (Inr (Some j), s)"
        unfolding lookup_defs prod.inject sum.inject
        by (rule conjI [OF first_by_unique [OF j(1)] refl]) (use j rc in \<open>simp add: reconciled_def\<close>, use u in blast)
      then show ?thesis using r rc
        by (simp add: start Inr Some bindS_def reconcile_completed_job_def Let_def getS_def returnS_def)
    next
      case None
      have ch: "aj_config_hash j = ac_config_hash C" using c Inr None by simp
      have uniq: "i = j" if "i \<in> set (jobs s)" "aj_repository_id i = rid" "aj_config_hash i = ac_config_hash C" "effective i" for i
        using effective_unique [OF ok, of i j] that j ch by (simp add: jobs_view)
      show ?thesis
      proof (cases "aj_status j \<in> {''queued'', ''running''}")
        case True
        have "active_job owner_id rid (ac_config_hash C) s = (Inr (Some j), s)"
          unfolding lookup_defs prod.inject sum.inject
          by (rule conjI [OF first_by_unique [OF j(1)] refl]) (use j ch True in simp, use uniq in \<open>unfold effective_def, blast\<close>)
        then show ?thesis by (simp add: start Inr None bindS_def returnS_def)
      next
        case False
        have "active_job owner_id rid (ac_config_hash C) s = (Inr None, s)"
          unfolding lookup_defs prod.inject sum.inject first_by_None using False uniq unfolding effective_def by blast
        moreover have "effective_job owner_id rid (ac_config_hash C) s = (Inr (Some j), s)"
          unfolding lookup_defs prod.inject sum.inject
          by (rule conjI [OF first_by_unique [OF j(1)] refl]) (use j ch in \<open>simp add: effective_def\<close>, use uniq in \<open>unfold effective_def, blast\<close>)
        moreover have "\<not> jobs_ok (inserted_db (new_job uuid now owner_id r (ac_config_hash C)) f now (js_view s))" for f
          by (rule insert_clash [OF q j(1,4)]) (use j(2) ch r(1,4) in \<open>simp_all add: id\<close>)
        moreover from calculation have "insert_queued_job C created uuid now owner_id r s = (Inr j, s)"
          using r(3,4) Inr None unfolding insert_queued_job_def Let_def
          by (subst insert_eq [OF quiet_parts(3) [OF q]]) (auto simp: id Let_def quiet_rolled_back [OF q] bindS_def
              require_revision_def returnS_def completed_snapshot_idle [OF quiet_parts(3) [OF q]])
        ultimately show ?thesis by (simp add: start Inr None bindS_def)
      qed
    qed
  qed (use c in simp)
qed

lemma filter_is_single:
  assumes "distinct xs" and "x \<in> set xs" "w x" and "\<And>y. y \<in> set xs \<Longrightarrow> w y \<Longrightarrow> y = x"
  shows "filter w xs = [x]"
proof -
  have d: "distinct (filter w xs)" using assms(1) by simp
  have st: "set (filter w xs) = {x}" unfolding set_filter using assms(2-4) by blast
  then obtain y ys where y: "filter w xs = y # ys" by (cases "filter w xs") auto
  then have "y = x" "set ys \<subseteq> {x}" "x \<notin> set ys" using d st by auto
  then have "set ys = {}" by (metis insertI1 subset_singletonD)
  then show ?thesis using y \<open>y = x\<close> by simp
qed

section \<open>Properties\<close>

text \<open>A repository with nothing sealed, and the identity constants of one deployment.\<close>

definition sample_constants :: "string list \<Rightarrow> analysis_constants" where
  "sample_constants producers = \<lparr> ac_unicode = ascii_unicode, ac_digest = (\<lambda>_. sample_sha), ac_producers = producers,
     ac_config_hash = ''c'', ac_schema_version = ''ri.v1'' \<rparr>"

definition sample_work :: "jobs_db \<Rightarrow> work_session" where
  "sample_work d = \<lparr> js_committed = d, js_view = d, ws_store = new_session sample_db \<rparr>"

lemma quiet_sample: "jobs_ok d \<Longrightarrow> quiet (sample_work d)"
  by (simp add: quiet_def sample_work_def idle_store_def settled_new constraints_sample_db) (simp add: new_session_def)

definition one_record :: jobs_db where
  "one_record = \<lparr> jd_jobs = [], jd_records = [sample_record ''r9''] \<rparr>"

lemma jobs_ok_one_record: "jobs_ok one_record"
  by code_simp

text \<open>
  C11: submitting is idempotent. Whatever a first submission answered (an existing active job, a fresh queued one, or a job reconciled with
  the sealed snapshot), a second submission with the same identity answers with the same row and changes nothing.
\<close>

theorem submit_idempotent:
  assumes "quiet s" and "submit C created (\<lambda>s. s) uuid now owner_id rid s = (Inr job, s')"
  shows "submit C created (\<lambda>s. s) uuid' now' owner_id rid s' = (Inr job, s')"
  by (rule answers_fixpoint [OF submit_answers [OF assms]])

theorem submit_idempotent_witness:
  "\<exists>job s'. submit (sample_constants [''a@1'']) (\<lambda>_. 0) (\<lambda>s. s) ''id1'' 5 ''u'' ''r9'' (sample_work one_record) = (Inr job, s')
     \<and> aj_id job = ''id1'' \<and> aj_status job = ''queued''
     \<and> submit (sample_constants [''a@1'']) (\<lambda>_. 0) (\<lambda>s. s) ''id2'' 6 ''u'' ''r9'' s' = (Inr job, s')"
proof -
  let ?r = "submit (sample_constants [''a@1'']) (\<lambda>_. 0) (\<lambda>s. s) ''id1'' 5 ''u'' ''r9'' (sample_work one_record)"
  have "(case fst ?r of Inr job \<Rightarrow> aj_id job = ''id1'' \<and> aj_status job = ''queued'' | Inl _ \<Rightarrow> False)" by code_simp
  then obtain job s' where "?r = (Inr job, s')" "aj_id job = ''id1''" "aj_status job = ''queued''"
    by (cases ?r) (auto split: sum.splits)
  then show ?thesis using submit_idempotent [OF quiet_sample [OF jobs_ok_one_record]] by blast
qed

text \<open>
  C12: concurrent submissions never create duplicate work. Whatever other sessions commit between this
  submission's reads and its insertion, if it returns, the row it returns is in the committed table, belongs to the caller and
  its repository, is effective, and is the only effective row of its identity.
\<close>

theorem submit_one_effective_job:
  assumes q: "quiet s" and o: "steady others" and ok: "submit C created others uuid now owner_id rid s = (Inr job, s')"
  shows "quiet s' \<and> job \<in> set (jd_jobs (js_committed s')) \<and> aj_repository_id job = rid \<and> aj_owner_id job = owner_id
    \<and> filter (\<lambda>j. effective j \<and> job_identity j = job_identity job) (jd_jobs (js_committed s')) = [job]"
proof -
  have step: "quiet (others s)" "\<And>r. get_record (jd_records (js_view s)) rid = Some r \<Longrightarrow>
      \<exists>r'. get_record (jd_records (js_view (others s))) rid = Some r' \<and> same_identity r r'"
    using o q unfolding steady_def by blast+
  have "\<exists>r. rr_id r = rid \<and> serves owner_id r job s'"
    using q ok
  proof (cases rule: submit_cases)
    case (sealed r rv snapshot j)
    then show ?thesis using reconcile_serves(1) [OF q sealed(7-9,1,10)] by blast
  next
    case (completed r rv snapshot)
    then obtain r' where "get_record (jd_records (js_view (others s))) (rr_id r) = Some r'" "same_identity r r'" using step(2) by blast
    from insert_completed_serves(1) [OF step(1) this completed(7)] show ?thesis using completed(5) by blast
  next
    case (active r rv)
    then have "serves owner_id r job s'" using q by (auto simp: serves_def same_identity_def)
    then show ?thesis using active(5) by blast
  next
    case (queued r rv)
    then obtain r' where "get_record (jd_records (js_view (others s))) (rr_id r) = Some r'" "same_identity r r'" using step(2) by blast
    from insert_queued_serves(1) [OF step(1) this queued(7)] show ?thesis using queued(5) by blast
  qed
  then obtain r where s: "rr_id r = rid" "serves owner_id r job s'" by blast
  then have q': "quiet s'" and "job \<in> set (jobs s')" "effective job" by (simp_all add: serves_def)
  then have j: "job \<in> set (jd_jobs (js_committed s'))" "effective job" "jobs_ok (js_committed s')"
    by (simp_all add: quiet_def jobs_view)
  have u: "unique_index effective job_identity (jd_jobs (js_committed s'))" using j(3) by (simp add: jobs_ok_def uq_analysis_jobs_def)
  have "distinct (jd_jobs (js_committed s'))" using jobs_ok_ids [OF j(3)] by (simp add: distinct_map)
  then have "filter (\<lambda>j. effective j \<and> job_identity j = job_identity job) (jd_jobs (js_committed s')) = [job]"
    by (rule filter_is_single [OF _ j(1)]) (use j(2) unique_index_inj [OF u _ j(1)] in blast)+
  moreover have "aj_repository_id job = rid" "aj_owner_id job = owner_id" using s by (simp_all add: serves_def)
  ultimately show ?thesis using j(1) q' by blast
qed

definition rival_jobs :: jobs_db where
  "rival_jobs = \<lparr> jd_jobs = [sample_job ''rival'' ''r9'' 4], jd_records = [sample_record ''r9''] \<rparr>"

text \<open>A rival submission that commits between the reads and the insertion.\<close>

definition rival :: "work_session \<Rightarrow> work_session" where
  "rival s = (if js_committed s = one_record then s\<lparr>js_committed := rival_jobs, js_view := rival_jobs\<rparr> else s)"

lemma jobs_ok_rival: "jobs_ok rival_jobs"
  by code_simp

lemma steady_rival: "steady rival"
  using jobs_ok_rival by (auto simp: steady_def rival_def quiet_def same_identity_def one_record_def rival_jobs_def)

theorem submit_one_effective_job_witness:
  "\<exists>job s'. submit (sample_constants [''a@1'']) (\<lambda>_. 0) rival ''id1'' 5 ''u'' ''r9'' (sample_work one_record) = (Inr job, s')
     \<and> aj_id job = ''rival'' \<and> filter (\<lambda>j. effective j \<and> job_identity j = job_identity job) (jd_jobs (js_committed s')) = [job]"
proof -
  let ?r = "submit (sample_constants [''a@1'']) (\<lambda>_. 0) rival ''id1'' 5 ''u'' ''r9'' (sample_work one_record)"
  have "(case fst ?r of Inr job \<Rightarrow> aj_id job = ''rival'' | Inl _ \<Rightarrow> False)" by code_simp
  then obtain job s' where "?r = (Inr job, s')" "aj_id job = ''rival''"
    by (cases ?r) (auto split: sum.splits)
  then show ?thesis using submit_one_effective_job [OF quiet_sample [OF jobs_ok_one_record] steady_rival] by blast
qed

text \<open>
  A job's identity does not contain the producer set, so a repository that was analysed once is never analysed again by a later version
  of the producers. When the row of the earlier analysis is completed and no snapshot is sealed for the current identity, every submission runs into
  the effective-identity index, answers with the old completed row and enqueues nothing. (The snapshot contract asks for a
  distinct snapshot when a planned producer version changes.)
\<close>

theorem upgraded_producers_never_reanalysed:
  assumes "quiet s" and "j \<in> set (jobs s)" "aj_repository_id j = rid" "aj_owner_id j = owner_id" "aj_status j = ''completed''"
    and "aj_config_hash j = ac_config_hash C"
    and "get_record (jd_records (js_view s)) rid = Some r" "rr_owner_id r = owner_id" "rr_revision_kind r \<noteq> None" "rr_revision_value r = Some rv"
    and "fst (completed_snapshot C owner_id rid rv s) = Inr None"
  shows "submit C created (\<lambda>s. s) uuid now owner_id rid s = (Inr j, s)"
  by (rule answers_fixpoint) (use assms in \<open>auto simp: answers_def effective_def sealed_for_def\<close>)

definition analysed_jobs :: jobs_db where
  "analysed_jobs = \<lparr> jd_jobs = [(sample_job ''old'' ''r9'' 4)\<lparr>aj_status := ''completed'', aj_snapshot_id := Some ''b''\<rparr>],
     jd_records = [(sample_record ''r9'')\<lparr>rr_status := ''completed''\<rparr>] \<rparr>"

theorem upgraded_producers_never_reanalysed_witness:
  "submit (sample_constants [''a@2'']) (\<lambda>_. 0) (\<lambda>s. s) ''id1'' 5 ''u'' ''r9'' (sample_work analysed_jobs) =
     (Inr ((sample_job ''old'' ''r9'' 4)\<lparr>aj_status := ''completed'', aj_snapshot_id := Some ''b''\<rparr>), sample_work analysed_jobs)"
proof (rule upgraded_producers_never_reanalysed)
  have "jobs_ok analysed_jobs" by code_simp
  then show "quiet (sample_work analysed_jobs)" by (rule quiet_sample)
  show "fst (completed_snapshot (sample_constants [''a@2'']) ''u'' ''r9'' ''v'' (sample_work analysed_jobs)) = Inr None" by code_simp
  show "get_record (jd_records (js_view (sample_work analysed_jobs))) ''r9'' = Some ((sample_record ''r9'')\<lparr>rr_status := ''completed''\<rparr>)"
    by code_simp
qed (simp_all add: sample_work_def analysed_jobs_def jobs_def sample_job_def sample_record_def sample_constants_def)

text \<open>
  Nobody reaches another user's jobs. A submission, a status query or a cancellation for a repository that does not exist
  or belongs to someone else raises the same not-found error and changes nothing.
\<close>

theorem foreign_repository_not_found:
  assumes "\<forall>r. get_record (jd_records (js_view s)) rid = Some r \<longrightarrow> rr_owner_id r \<noteq> owner_id"
  shows "submit C created others uuid now owner_id rid s = (Inl NotFoundError, s)
    \<and> status C created others uuid now owner_id rid s = (Inl NotFoundError, s)
    \<and> cancel U others now owner_id rid faults s = (Inl NotFoundError, s)"
proof -
  have "get_record_for_owner owner_id rid s = (Inl NotFoundError, s)"
    using assms by (auto simp: get_record_for_owner_def bindS_def getS_def raiseS_def split: option.splits)
  then show ?thesis by (simp add: submit_def status_def cancel_def bindS_def)
qed

theorem foreign_repository_not_found_witness:
  "status (sample_constants []) (\<lambda>_. 0) rival ''id1'' 5 ''mallory'' ''r9'' (sample_work one_record) = (Inl NotFoundError, sample_work one_record)"
proof -
  have r: "\<forall>r. get_record (jd_records (js_view (sample_work one_record))) ''r9'' = Some r \<longrightarrow> rr_owner_id r \<noteq> ''mallory''"
    by (simp add: get_record_def sample_work_def one_record_def sample_record_def)
  show ?thesis using foreign_repository_not_found [OF r] by blast
qed

section \<open>Cancellation\<close>

text \<open>Every terminal row of an earlier table is still there.\<close>

definition spares :: "jobs_db \<Rightarrow> jobs_db \<Rightarrow> bool" where
  "spares d0 d \<longleftrightarrow> (\<forall>j \<in> set (jd_jobs d0). terminal j \<longrightarrow> j \<in> set (jd_jobs d))"

definition sparing :: "jobs_db \<Rightarrow> work_session \<Rightarrow> bool" where
  "sparing d0 s \<longleftrightarrow> spares d0 (js_committed s) \<and> spares d0 (js_view s) \<and> idle_store (ws_store s)"

definition respectful :: "(work_session \<Rightarrow> work_session) \<Rightarrow> bool" where
  "respectful f \<longleftrightarrow> (\<forall>d0 s. sparing d0 s \<longrightarrow> sparing d0 (f s))"

lemma keeps_interfere [keeps_intros]: "respectful f \<Longrightarrow> keeps (sparing d0) (interfere f)"
  by (simp add: respectful_def keeps_def interfere_def)

lemma keeps_w_commit [keeps_intros]: "keeps (sparing d0) w_commit"
  by (auto simp: keeps_def sparing_def w_commit_idle)

lemma keeps_w_rollback [keeps_intros]: "keeps (sparing d0) w_rollback"
  by (auto simp: keeps_def sparing_def w_rollback_def rollback_idle)

lemma keeps_guarded_update:
  assumes "\<And>j. w j \<Longrightarrow> \<not> terminal j"
  shows "keeps (sparing d0) (execute_update w f)"
proof (rule keepsI)
  fix s assume s: "sparing d0 s"
  have "j \<in> set (update_rows w f js)" if "j \<in> set js" "terminal j" for j js
    using that assms by (force simp: update_rows_def)
  then have "spares d0 (js_view (set_jobs (update_rows w f) s))"
    using s by (auto simp: sparing_def spares_def set_jobs_def)
  then show "sparing d0 (snd (execute_update w f s))"
    using s by (simp add: execute_update_def Let_def) (simp add: sparing_def set_jobs_def)
qed

lemma keeps_cancel_repository [keeps_intros]: "keeps (sparing d0) (cancel_repository owner_id rid now)"
  by (auto simp: keeps_def sparing_def spares_def cancel_repository_def set_records_def)

lemma keeps_reload [keeps_intros]: "keeps (sparing d0) (reload_job owner_id jid)"
  unfolding reload_job_def by (intro keeps_intros)

lemma keeps_cancel_running [keeps_intros]: "respectful others \<Longrightarrow> keeps (sparing d0) (cancel_running others now owner_id job)"
  unfolding cancel_running_def by (intro keeps_intros keeps_guarded_update) (auto simp: terminal_def)

lemma keeps_cancel_job [keeps_intros]: "respectful others \<Longrightarrow> keeps (sparing d0) (cancel_job others now owner_id job)"
  unfolding cancel_job_def by (intro keeps_intros keeps_guarded_update) (auto simp: terminal_def)

lemma keeps_latest_job [keeps_intros]: "keeps (sparing d0) (latest_job owner_id rid)"
  unfolding latest_job_def newest_def by (intro keeps_intros)

lemma keeps_cancel_tries [keeps_intros]:
  "respectful others \<Longrightarrow> keeps (sparing d0) (cancel_tries U others now owner_id rid faults attempts)"
proof (induction attempts)
  case (Cons a attempts)
  then show ?case by (auto intro!: keeps_intros split: option.splits)
qed (auto intro: keeps_intros)

lemma keeps_cancel: "respectful others \<Longrightarrow> keeps (sparing d0) (cancel U others now owner_id rid faults)"
  unfolding cancel_def get_record_for_owner_def by (intro keeps_intros)

text \<open>
  Cancellation never overwrites a finished job. Whatever the worker and other requests commit between the statements of a
  cancellation, as long as they leave finished rows alone too, every row that was completed, failed or cancelled before is still
  there unchanged, whether the request succeeds, conflicts or times out.
\<close>

theorem cancel_spares_finished_jobs:
  assumes "quiet s" and "respectful others" and "j \<in> set (jd_jobs (js_committed s))" "terminal j"
  shows "j \<in> set (jd_jobs (js_committed (snd (cancel U others now owner_id rid faults s))))"
proof -
  have "sparing (js_committed s) s" using assms(1) by (simp add: quiet_def sparing_def spares_def)
  then have "sparing (js_committed s) (snd (cancel U others now owner_id rid faults s))"
    using keeps_cancel [OF assms(2)] unfolding keeps_def by blast
  then show ?thesis using assms(3,4) by (simp add: sparing_def spares_def)
qed

text \<open>A worker that takes every queued job between the read and the guarded update.\<close>

definition racing_worker :: "work_session \<Rightarrow> work_session" where
  "racing_worker s = commit_jobs (update_rows (\<lambda>j. aj_status j = ''queued'') (\<lambda>j. j\<lparr>aj_status := ''running''\<rparr>)) s"

lemma respectful_racing: "respectful racing_worker"
proof -
  have "j \<in> set (update_rows (\<lambda>j. aj_status j = ''queued'') f js)" if "j \<in> set js" "terminal j" for j js f
    using that by (force simp: update_rows_def terminal_def)
  then show ?thesis by (auto simp: respectful_def sparing_def spares_def racing_worker_def commit_jobs_def set_jobs_def Let_def)
qed

theorem cancel_spares_finished_jobs_witness:
  "(sample_job ''old'' ''r9'' 4)\<lparr>aj_status := ''completed'', aj_snapshot_id := Some ''b''\<rparr>
     \<in> set (jd_jobs (js_committed (snd (cancel ascii_unicode racing_worker 9 ''u'' ''r9'' (\<lambda>_. None) (sample_work analysed_jobs)))))"
proof (rule cancel_spares_finished_jobs [OF _ respectful_racing])
  have "jobs_ok analysed_jobs" by code_simp
  then show "quiet (sample_work analysed_jobs)" by (rule quiet_sample)
qed (simp_all add: sample_work_def analysed_jobs_def terminal_def)

text \<open>A guarded update of the one row with an id, when it matches.\<close>

lemma execute_update_hit:
  assumes q: "quiet s" and j: "j \<in> set (jobs s)" "w j" and w: "\<And>i. w i \<Longrightarrow> aj_id i = aj_id j" and h: "harmless w f"
  shows "execute_update w f s = (Inr 1, set_jobs (update_rows w f) s)"
proof -
  have "filter w (jobs s) = [j]"
    using filter_one [of "jobs s" w "aj_id j", OF _ w] get_job_row [OF _ j(1)] jobs_ok_ids [OF quiet_parts(2) [OF q]] j(2)
    by (simp add: jobs_view)
  then show ?thesis using execute_update_harmless [OF quiet_parts(2) [OF q] h] by simp
qed

lemma reload_own: "get_job (jobs s) jid = Some j \<Longrightarrow> aj_owner_id j = owner_id \<Longrightarrow> reload_job owner_id jid s = (Inr j, s)"
  by (simp add: reload_job_def bindS_def getS_def returnS_def)

definition cancelled_job :: "instant \<Rightarrow> analysis_job \<Rightarrow> analysis_job" where
  "cancelled_job now j = j\<lparr>aj_status := ''cancelled'', aj_cancel_requested := False, aj_worker_id := None, aj_lease_expires_at := None,
     aj_next_attempt_at := None, aj_completed_at := Some now, aj_updated_at := now\<rparr>"

definition cancelled_record :: "instant \<Rightarrow> repository_record \<Rightarrow> repository_record" where
  "cancelled_record now r = r\<lparr>rr_status := ''cancelled'', rr_analysis_stage := None, rr_analysis_progress := 0, rr_error_message := None,
     rr_analysed_at := None, rr_updated_at := now\<rparr>"

text \<open>Rewriting repository rows without touching what the constraints read keeps the tables valid.\<close>

lemma jobs_ok_records:
  assumes "jobs_ok d" and "\<And>r. same_identity r (h r)"
  shows "jobs_ok (d\<lparr>jd_records := map h (jd_records d)\<rparr>)"
proof -
  have h: "rr_id (h r) = rr_id r" "rr_revision_kind (h r) = rr_revision_kind r" "rr_revision_value (h r) = rr_revision_value r" for r
    using assms(2) [of r] by (simp_all add: same_identity_def)
  have "fk_repository_revision (map h rs) j = fk_repository_revision rs j" for rs j
    by (simp add: fk_repository_revision_def list_ex_iff h)
  moreover have "map rr_id (map h rs) = map rr_id rs" for rs by (simp add: h)
  ultimately show ?thesis using assms(1) by (simp add: jobs_ok_def unique_index_def list_all_iff comp_def h)
qed

lemma cancel_queued_row:
  assumes q: "quiet s" and j: "j \<in> set (jobs s)" "aj_status j = ''queued''" "aj_owner_id j = owner_id"
  shows "\<exists>s'. cancel_job (\<lambda>s. s) now owner_id j s = (Inr (cancelled_job now j), s') \<and> quiet s'
    \<and> js_committed s' = \<lparr> jd_jobs = map (\<lambda>i. if i = j then cancelled_job now j else i) (jd_jobs (js_committed s)),
        jd_records = map (\<lambda>r. if rr_id r = aj_repository_id j \<and> rr_owner_id r = owner_id then cancelled_record now r else r)
          (jd_records (js_committed s)) \<rparr>"
proof -
  let ?w = "\<lambda>i. aj_id i = aj_id j \<and> aj_owner_id i = owner_id \<and> aj_status i = ''queued''" and ?f = "cancelled_job now"
  let ?h = "\<lambda>r. if rr_id r = aj_repository_id j \<and> rr_owner_id r = owner_id then cancelled_record now r else r"
  let ?d = "(js_view s)\<lparr>jd_jobs := update_rows ?w ?f (jd_jobs (js_view s)), jd_records := map ?h (jd_records (js_view s))\<rparr>"
  let ?s = "s\<lparr>js_view := ?d, js_committed := ?d\<rparr>"
  note p = quiet_parts [OF q]
  have h: "harmless ?w ?f" by (auto simp: harmless_def cancelled_job_def job_identity_def effective_def ck_analysis_jobs_def)
  have ex: "execute_update ?w ?f s = (Inr 1, set_jobs (update_rows ?w ?f) s)"
    by (rule execute_update_hit [OF q j(1) _ _ h]) (use j in simp_all)
  have same: "same_identity r (?h r)" for r by (simp add: same_identity_def cancelled_record_def)
  have ok: "jobs_ok ?d" using jobs_ok_records [OF jobs_ok_update [OF p(2) h] same] by simp
  have view: "cancel_repository owner_id (aj_repository_id j) now (set_jobs (update_rows ?w ?f) s) = (Inr (), s\<lparr>js_view := ?d\<rparr>)"
    by (simp add: cancel_repository_def set_jobs_def set_records_def cancelled_record_def cong: if_cong)
  have idf: "aj_id (?f i) = aj_id i" for i by (simp add: cancelled_job_def)
  have ids: "distinct (map aj_id (jobs s))" using jobs_ok_ids [OF p(2)] by (simp add: jobs_view)
  have row: "get_job (jobs ?s) (aj_id j) = Some (?f j)"
    using get_job_row [OF ids j(1)] j by (simp add: jobs_view get_job_update idf)
  have "cancel_job (\<lambda>s. s) now owner_id j s = (Inr (?f j), ?s)"
    using reload_own [OF row, of owner_id] j ok p(3)
    by (simp add: cancel_job_def cancelled_job_def [symmetric] bindS_def ex view w_commit_idle) (simp add: cancelled_job_def)
  moreover have "update_rows ?w ?f (jd_jobs (js_view s)) = map (\<lambda>i. if i = j then ?f j else i) (jd_jobs (js_view s))"
    unfolding update_rows_def using ids j by (auto simp: distinct_map jobs_view dest: inj_onD)
  moreover have "quiet ?s" using ok p(3) by (simp add: quiet_def)
  ultimately show ?thesis using p(1) by (intro exI [of _ ?s]) (cases "js_committed s", simp)
qed

lemma cancel_running_row:
  assumes q: "quiet s" and j: "j \<in> set (jobs s)" "aj_status j = ''running''" "aj_owner_id j = owner_id"
  shows "\<exists>s'. cancel_job (\<lambda>s. s) now owner_id j s = (Inr (j\<lparr>aj_cancel_requested := True, aj_updated_at := now\<rparr>), s') \<and> quiet s'
    \<and> js_committed s' = (js_committed s)\<lparr> jd_jobs := map (\<lambda>i. if i = j then j\<lparr>aj_cancel_requested := True, aj_updated_at := now\<rparr> else i)
        (jd_jobs (js_committed s)) \<rparr>"
proof -
  let ?w = "\<lambda>i. aj_id i = aj_id j \<and> aj_owner_id i = owner_id \<and> aj_status i = ''running''"
    and ?f = "\<lambda>i::analysis_job. i\<lparr>aj_cancel_requested := True, aj_updated_at := now\<rparr>"
  let ?d = "(js_view s)\<lparr>jd_jobs := update_rows ?w ?f (jd_jobs (js_view s))\<rparr>"
  let ?s = "s\<lparr>js_view := ?d, js_committed := ?d\<rparr>"
  note p = quiet_parts [OF q]
  have h: "harmless ?w ?f" by (auto simp: harmless_def job_identity_def effective_def ck_analysis_jobs_def)
  have ex: "execute_update ?w ?f s = (Inr 1, set_jobs (update_rows ?w ?f) s)"
    by (rule execute_update_hit [OF q j(1) _ _ h]) (use j in simp_all)
  have ok: "jobs_ok ?d" by (rule jobs_ok_update [OF p(2) h])
  have view: "set_jobs (update_rows ?w ?f) s = s\<lparr>js_view := ?d\<rparr>" by (simp add: set_jobs_def)
  have ids: "distinct (map aj_id (jobs s))" using jobs_ok_ids [OF p(2)] by (simp add: jobs_view)
  have row: "get_job (jobs ?s) (aj_id j) = Some (?f j)"
    using get_job_row [OF ids j(1)] j by (simp add: jobs_view get_job_update)
  have "cancel_job (\<lambda>s. s) now owner_id j s = (Inr (?f j), ?s)"
    using reload_own [OF row, of owner_id] j ok p(3)
    by (simp add: cancel_job_def cancel_running_def bindS_def ex view w_commit_idle)
  moreover have "update_rows ?w ?f (jd_jobs (js_view s)) = map (\<lambda>i. if i = j then ?f j else i) (jd_jobs (js_view s))"
    unfolding update_rows_def using ids j by (auto simp: distinct_map jobs_view dest: inj_onD)
  moreover have "quiet ?s" using ok p(3) by (simp add: quiet_def)
  ultimately show ?thesis using p(1) by (intro exI [of _ ?s]) simp
qed

text \<open>
  What a cancellation does to the newest job, status by status. A queued job becomes cancelled in one commit together with its repository; a
  running one keeps its owner and its lease and gets the flag that the worker reads; a finished one is a conflict that names its status and changes
  nothing. No other row changes.
\<close>

theorem cancel_by_status:
  assumes q: "quiet s" and r: "get_record (jd_records (js_view s)) rid = Some r" "rr_owner_id r = owner_id"
    and l: "latest_job owner_id rid s = (Inr (Some j), s)" and f: "faults 0 = None"
  shows "case cancel U (\<lambda>s. s) now owner_id rid faults s of
      (Inr j', s') \<Rightarrow> quiet s' \<and> jd_jobs (js_committed s') = map (\<lambda>i. if i = j then j' else i) (jd_jobs (js_committed s))
        \<and> (aj_status j = ''queued'' \<and> j' = cancelled_job now j
            \<and> jd_records (js_committed s') = map (\<lambda>r. if rr_id r = rid \<and> rr_owner_id r = owner_id then cancelled_record now r else r)
                (jd_records (js_committed s))
          \<or> aj_status j = ''running'' \<and> j' = j\<lparr>aj_cancel_requested := True, aj_updated_at := now\<rparr>
            \<and> jd_records (js_committed s') = jd_records (js_committed s))
    | (Inl e, s') \<Rightarrow> terminal j \<and> e = ConflictServiceError (Some (aj_status j)) \<and> s' = s"
proof -
  have "first_by (\<lambda>j. - aj_created_at j) (\<lambda>j. aj_repository_id j = rid \<and> aj_owner_id j = owner_id) (jobs s) = Some j"
    using l by (simp add: lookup_defs)
  then have j: "j \<in> set (jobs s)" "aj_repository_id j = rid" "aj_owner_id j = owner_id" using first_by_Some(1,2) by blast+
  have "get_record_for_owner owner_id rid s = (Inr r, s)" using r by (simp add: get_record_for_owner_Inr)
  then have eq: "cancel U (\<lambda>s. s) now owner_id rid faults s = cancel_job (\<lambda>s. s) now owner_id j s"
    by (simp add: cancel_def cancel_lock_attempts_def upt_rec bindS_def l f interfere_def)
  have "aj_status j \<in> {''queued'', ''running'', ''completed'', ''failed'', ''cancelled''}"
    using quiet_parts(2) [OF q] j(1) by (auto simp: jobs_ok_def list_all_iff ck_analysis_jobs_def jobs_view)
  then consider "aj_status j = ''queued''" | "aj_status j = ''running''" | "terminal j" by (auto simp: terminal_def)
  then show ?thesis
  proof cases
    case 1
    then show ?thesis using cancel_queued_row [OF q j(1) 1 j(3), of now] j(2) by (auto simp: eq)
  next
    case 2
    then show ?thesis using cancel_running_row [OF q j(1) 2 j(3), of now] by (auto simp: eq)
  next
    case 3
    then have "cancel_job (\<lambda>s. s) now owner_id j s = (Inl (ConflictServiceError (Some (aj_status j))), s)"
      by (auto simp: cancel_job_def cancel_running_def terminal_def raiseS_def)
    then show ?thesis using 3 by (simp add: eq)
  qed
qed

theorem cancel_by_status_witness:
  "case cancel ascii_unicode (\<lambda>s. s) 9 ''u'' ''r9'' (\<lambda>_. None) (sample_work rival_jobs) of
     (Inr j', s') \<Rightarrow> quiet s' \<and> jd_jobs (js_committed s') = [j'] \<and> aj_status j' = ''cancelled''
   | (Inl e, s') \<Rightarrow> False"
proof -
  let ?s = "sample_work rival_jobs" and ?j = "sample_job ''rival'' ''r9'' 4"
  have r: "get_record (jd_records (js_view ?s)) ''r9'' = Some (sample_record ''r9'')" by code_simp
  have u: "rr_owner_id (sample_record ''r9'') = ''u''" by code_simp
  have l: "latest_job ''u'' ''r9'' ?s = (Inr (Some ?j), ?s)"
    by (simp add: lookup_defs sample_work_def jobs_def rival_jobs_def) code_simp
  have n: "aj_status ?j = ''queued''" "\<not> terminal ?j" "jd_jobs (js_committed ?s) = [?j]"
    by (simp_all add: sample_job_def terminal_def sample_work_def rival_jobs_def)
  show ?thesis
    using cancel_by_status [OF quiet_sample [OF jobs_ok_rival] r u l, where faults = "\<lambda>_. None" and U = ascii_unicode and now = 9] n
    by (auto simp: cancelled_job_def split: prod.splits sum.splits)
qed

text \<open>
  A locked database costs at most three tries. When every try finds SQLite locked the caller gets the busy error and nothing is
  committed; when the first two at most are locked, the cancellation is the one of the first try that got through.
\<close>

theorem cancel_retries_locks:
  assumes q: "quiet s" and r: "get_record (jd_records (js_view s)) rid = Some r" "rr_owner_id r = owner_id"
    and l: "latest_job owner_id rid s = (Inr (Some j), s)"
    and f: "\<forall>i < k. \<exists>m. faults i = Some m \<and> is_sqlite_lock_error U m"
  shows "(3 \<le> k \<longrightarrow> cancel U (\<lambda>s. s) now owner_id rid faults s = (Inl ServiceBusyError, s))
    \<and> (k < 3 \<longrightarrow> faults k = None \<longrightarrow> cancel U (\<lambda>s. s) now owner_id rid faults s = cancel_job (\<lambda>s. s) now owner_id j s)"
proof -
  have "get_record_for_owner owner_id rid s = (Inr r, s)" using r by (simp add: get_record_for_owner_Inr)
  then have eq: "cancel U (\<lambda>s. s) now owner_id rid faults s = cancel_tries U (\<lambda>s. s) now owner_id rid faults [0, 1, 2] s"
    by (simp add: cancel_def cancel_lock_attempts_def upt_rec bindS_def numeral_2_eq_2)
  have roll: "w_rollback s = (Inr (), s)" using q by (simp add: w_rollback_def quiet_def rollback_idle)
  have locked: "cancel_tries U (\<lambda>s. s) now owner_id rid faults (i # is) s =
      (if i = 2 then (Inl ServiceBusyError, s) else cancel_tries U (\<lambda>s. s) now owner_id rid faults is s)" if "i < k" for i "is"
    using f [rule_format, OF that] by (auto simp: bindS_def l interfere_def roll cancel_lock_attempts_def raiseS_def)
  have free: "cancel_tries U (\<lambda>s. s) now owner_id rid faults (i # is) s = cancel_job (\<lambda>s. s) now owner_id j s" if "faults i = None" for i "is"
    using that by (simp add: bindS_def l interfere_def)
  have "k = 0 \<or> k = 1 \<or> k = 2 \<or> 3 \<le> k" by arith
  then show ?thesis unfolding eq using locked [of 0] locked [of 1] locked [of 2] free [of k] by (auto simp del: cancel_tries.simps)
qed

theorem cancel_retries_locks_witness:
  "cancel ascii_unicode (\<lambda>s. s) 9 ''u'' ''r9'' (\<lambda>_. Some ''database is locked'') (sample_work rival_jobs)
     = (Inl ServiceBusyError, sample_work rival_jobs)"
proof -
  let ?s = "sample_work rival_jobs" and ?j = "sample_job ''rival'' ''r9'' 4"
  have r: "get_record (jd_records (js_view ?s)) ''r9'' = Some (sample_record ''r9'')" by code_simp
  have u: "rr_owner_id (sample_record ''r9'') = ''u''" by code_simp
  have l: "latest_job ''u'' ''r9'' ?s = (Inr (Some ?j), ?s)"
    by (simp add: lookup_defs sample_work_def jobs_def rival_jobs_def) code_simp
  have f: "\<forall>i < 3. \<exists>m. (\<lambda>_::nat. Some ''database is locked'') i = Some m \<and> is_sqlite_lock_error ascii_unicode m"
    by (auto intro!: exI [of _ "''database is locked''"]) code_simp
  show ?thesis using cancel_retries_locks [OF quiet_sample [OF jobs_ok_rival] r u l f] by simp
qed

end
