(* ===== verification/Derivation_Graph.thy ===== *)
theory Derivation_Graph
  imports Partha_Prelude
begin

text \<open>
  The cycle detection of \<^verbatim>\<open>SnapshotStore._validate_derivation_graph\<close>
  (\<^verbatim>\<open>app/intelligence/snapshot_store.py\<close>): depth-first search with three colours over the adjacency
  map of derived facts. The recursion depth is the fuel; as many levels as the map has keys,
  and one more, are always enough (Python's own recursion limit is not modelled).
\<close>

section \<open>Model\<close>

type_synonym adjacency = "(string \<times> string list) list"

datatype color = WHITE | GREY | BLACK

type_synonym colors = "string \<Rightarrow> color"

datatype dfs_result = Done colors | Cycle | OutOfFuel

definition outgoing_of :: "adjacency \<Rightarrow> string \<Rightarrow> string list" where
  "outgoing_of g n = (case map_of g n of None \<Rightarrow> [] | Some ts \<Rightarrow> ts)"

definition keys_of :: "adjacency \<Rightarrow> string list" where
  "keys_of g = map fst g"

fun visit :: "nat \<Rightarrow> adjacency \<Rightarrow> colors \<Rightarrow> string \<Rightarrow> dfs_result"
  and visit_targets :: "nat \<Rightarrow> adjacency \<Rightarrow> colors \<Rightarrow> string list \<Rightarrow> dfs_result" where
  "visit 0 g c n = OutOfFuel"
| "visit (Suc k) g c n =
     (case visit_targets k g (c(n := GREY)) (outgoing_of g n) of
        Done c' \<Rightarrow> Done (c'(n := BLACK)) | r \<Rightarrow> r)"
| "visit_targets k g c [] = Done c"
| "visit_targets k g c (t # ts) =
     (if c t = GREY then Cycle
      else if c t = WHITE \<and> t \<in> set (keys_of g)
      then (case visit k g c t of Done c' \<Rightarrow> visit_targets k g c' ts | r \<Rightarrow> r)
      else visit_targets k g c ts)"

fun visit_roots :: "nat \<Rightarrow> adjacency \<Rightarrow> colors \<Rightarrow> string list \<Rightarrow> dfs_result" where
  "visit_roots k g c [] = Done c"
| "visit_roots k g c (n # ns) =
     (if c n = WHITE then (case visit k g c n of Done c' \<Rightarrow> visit_roots k g c' ns | r \<Rightarrow> r)
      else visit_roots k g c ns)"

definition dfs :: "adjacency \<Rightarrow> dfs_result" where
  "dfs g = visit_roots (length g + 1) g (\<lambda>_. WHITE) (keys_of g)"

section \<open>Specification\<close>

definition derives :: "adjacency \<Rightarrow> (string \<times> string) set" where
  "derives g = {(n, t). t \<in> set (outgoing_of g n)}"

lemma derives_key: "(n, t) \<in> derives g \<Longrightarrow> n \<in> set (keys_of g)"
  by (auto simp: derives_def outgoing_of_def keys_of_def split: option.splits)
    (metis map_of_SomeD fst_conv image_eqI)

section \<open>Correctness\<close>

definition finished :: "adjacency \<Rightarrow> colors \<Rightarrow> (string \<times> string) set" where
  "finished g c = {(n, t) \<in> derives g. c n = BLACK}"

definition dfs_inv :: "adjacency \<Rightarrow> colors \<Rightarrow> bool" where
  "dfs_inv g c \<longleftrightarrow> acyclic (finished g c)
     \<and> (\<forall>n t. c n = BLACK \<longrightarrow> (n, t) \<in> derives g \<longrightarrow> t \<in> set (keys_of g) \<longrightarrow> c t = BLACK)"

definition greys :: "colors \<Rightarrow> string set" where
  "greys c = {n. c n = GREY}"

definition advances :: "colors \<Rightarrow> colors \<Rightarrow> bool" where
  "advances c c' \<longleftrightarrow> greys c' = greys c \<and> (\<forall>n. c n = BLACK \<longrightarrow> c' n = BLACK)"

lemma advances_refl [simp]: "advances c c"
  by (simp add: advances_def)

lemma advances_trans: "advances c1 c2 \<Longrightarrow> advances c2 c3 \<Longrightarrow> advances c1 c3"
  by (simp add: advances_def)

lemma acyclic_new_source:
  assumes "acyclic r" and "n \<notin> Range (r \<union> {n} \<times> S)"
  shows "acyclic (r \<union> {n} \<times> S)"
proof -
  have step: "b \<noteq> n \<and> (a \<noteq> n \<longrightarrow> (a, b) \<in> r\<^sup>+)" if "(a, b) \<in> (r \<union> {n} \<times> S)\<^sup>+" for a b
    using that
  proof (induction rule: trancl_induct)
    case (base y)
    then show ?case using assms(2) by auto
  next
    case (step y z)
    then show ?case using assms(2) by (auto intro: trancl_into_trancl)
  qed
  show ?thesis
  proof (rule acyclicI, rule allI)
    fix x show "(x, x) \<notin> (r \<union> {n} \<times> S)\<^sup>+"
    proof
      assume "(x, x) \<in> (r \<union> {n} \<times> S)\<^sup>+"
      then have "x \<noteq> n \<and> (x \<noteq> n \<longrightarrow> (x, x) \<in> r\<^sup>+)" by (rule step)
      then show False using assms(1) by (simp add: acyclic_def)
    qed
  qed
qed

lemma dfs_inv_blacken:
  assumes inv: "dfs_inv g c" and n: "c n = GREY" "n \<in> set (keys_of g)"
    and succ: "\<forall>t \<in> set (outgoing_of g n). t \<in> set (keys_of g) \<longrightarrow> c t = BLACK"
  shows "dfs_inv g (c(n := BLACK))"
proof -
  let ?S = "set (outgoing_of g n)"
  have fin: "finished g (c(n := BLACK)) = finished g c \<union> {n} \<times> ?S"
    by (auto simp: finished_def derives_def n split: if_splits)
  have "n \<notin> ?S" using succ n by auto
  moreover have "n \<notin> Range (finished g c)" using inv n by (auto simp: finished_def dfs_inv_def)
  ultimately have "acyclic (finished g (c(n := BLACK)))"
    unfolding fin using inv by (intro acyclic_new_source) (auto simp: dfs_inv_def)
  moreover have "\<forall>m t. (c(n := BLACK)) m = BLACK \<longrightarrow> (m, t) \<in> derives g \<longrightarrow> t \<in> set (keys_of g) \<longrightarrow> (c(n := BLACK)) t = BLACK"
    using inv succ by (auto simp: dfs_inv_def derives_def)
  ultimately show ?thesis by (simp add: dfs_inv_def)
qed

lemma visit_Done:
  "visit k g c n = Done c' \<Longrightarrow> dfs_inv g c \<Longrightarrow> c n = WHITE \<Longrightarrow> n \<in> set (keys_of g) \<Longrightarrow>
     dfs_inv g c' \<and> c' n = BLACK \<and> advances c c'"
  "visit_targets k g c ts = Done c' \<Longrightarrow> dfs_inv g c \<Longrightarrow>
     dfs_inv g c' \<and> advances c c' \<and> (\<forall>t \<in> set ts. t \<in> set (keys_of g) \<longrightarrow> c' t = BLACK)"
proof (induction k g c n and k g c ts arbitrary: c' and c' rule: visit_visit_targets.induct)
  case (2 k g c n)
  let ?c1 = "c(n := GREY)"
  obtain c2 where c2: "visit_targets k g ?c1 (outgoing_of g n) = Done c2" and c': "c' = c2(n := BLACK)"
    using 2(2) by (auto split: dfs_result.splits)
  have "finished g ?c1 = finished g c" using 2(4) by (auto simp: finished_def split: if_splits)
  then have "dfs_inv g ?c1" using 2(3,4) by (auto simp: dfs_inv_def)
  from 2(1) [OF c2 this] have inv2: "dfs_inv g c2" and adv: "advances ?c1 c2"
    and succ: "\<forall>t \<in> set (outgoing_of g n). t \<in> set (keys_of g) \<longrightarrow> c2 t = BLACK" by blast+
  have "c2 n = GREY" using adv by (auto simp: advances_def greys_def)
  then have "dfs_inv g c'" unfolding c' using dfs_inv_blacken [OF inv2 _ 2(5) succ] by blast
  moreover have "advances c c'"
    using adv 2(4) unfolding advances_def greys_def c' by (auto split: if_splits)
  moreover have "c' n = BLACK" by (simp add: c')
  ultimately show ?case by blast
next
  case (4 k g c t ts)
  show ?case
  proof (cases "c t = WHITE \<and> t \<in> set (keys_of g)")
    case True
    then obtain c1 where v: "visit k g c t = Done c1" and r: "visit_targets k g c1 ts = Done c'"
      using 4(4) by (auto split: dfs_result.splits)
    have inv1: "dfs_inv g c1" and b: "c1 t = BLACK" and a1: "advances c c1"
      using 4(1) [OF _ True v 4(5)] True by auto
    from 4(2) [OF _ True v r inv1] True show ?thesis
      using b a1 by (auto simp: advances_def)
  next
    case False
    then have r: "visit_targets k g c ts = Done c'" and g: "c t \<noteq> GREY"
      using 4(4) by (auto split: if_splits)
    from 4(3) [OF g False r 4(5)] show ?thesis
      using False g by (cases "c t") (auto simp: advances_def)
  qed
qed auto

lemma visit_roots_Done:
  "visit_roots k g c ns = Done c' \<Longrightarrow> dfs_inv g c \<Longrightarrow> greys c = {} \<Longrightarrow> set ns \<subseteq> set (keys_of g) \<Longrightarrow>
     dfs_inv g c' \<and> advances c c' \<and> (\<forall>n \<in> set ns. c' n = BLACK)"
proof (induction ns arbitrary: c)
  case (Cons n ns)
  show ?case
  proof (cases "c n = WHITE")
    case True
    then obtain c1 where v: "visit k g c n = Done c1" and r: "visit_roots k g c1 ns = Done c'"
      using Cons.prems(1) by (auto split: dfs_result.splits)
    have inv1: "dfs_inv g c1" "c1 n = BLACK" "advances c c1"
      using visit_Done(1) [OF v Cons.prems(2) True] Cons.prems(4) by auto
    then have "greys c1 = {}" using Cons.prems(3) by (simp add: advances_def)
    from Cons.IH [OF r inv1(1) this] Cons.prems(4) inv1(2,3) show ?thesis by (auto simp: advances_def)
  next
    case False
    then have b: "c n = BLACK" using Cons.prems(3) by (cases "c n") (auto simp: greys_def)
    have "visit_roots k g c ns = Done c'" using Cons.prems(1) False by simp
    then have "dfs_inv g c' \<and> advances c c' \<and> (\<forall>n \<in> set ns. c' n = BLACK)"
      using Cons.IH Cons.prems(2-4) by simp
    then show ?thesis using b by (simp add: advances_def)
  qed
qed simp

text \<open>A reported cycle is one: the grey facts lead to the fact being visited.\<close>

lemma visit_Cycle:
  "visit k g c n = Cycle \<Longrightarrow> dfs_inv g c \<Longrightarrow> c n = WHITE \<Longrightarrow> n \<in> set (keys_of g) \<Longrightarrow>
     (\<forall>m \<in> greys c. (m, n) \<in> (derives g)\<^sup>+) \<Longrightarrow> \<not> acyclic (derives g)"
  "visit_targets k g c ts = Cycle \<Longrightarrow> dfs_inv g c \<Longrightarrow>
     (\<forall>m \<in> greys c. (m, n) \<in> (derives g)\<^sup>*) \<Longrightarrow> (\<forall>t \<in> set ts. (n, t) \<in> derives g) \<Longrightarrow> \<not> acyclic (derives g)"
proof (induction k g c n and k g c ts arbitrary: and n rule: visit_visit_targets.induct)
  case (2 k g c n)
  let ?c1 = "c(n := GREY)"
  have c1: "visit_targets k g ?c1 (outgoing_of g n) = Cycle"
    using 2(2) by (auto split: dfs_result.splits)
  have "finished g ?c1 = finished g c" using 2(4) by (auto simp: finished_def split: if_splits)
  then have "dfs_inv g ?c1" using 2(3,4) by (auto simp: dfs_inv_def)
  moreover have "\<forall>m \<in> greys ?c1. (m, n) \<in> (derives g)\<^sup>*" using 2(6) by (auto simp: greys_def)
  moreover have "\<forall>t \<in> set (outgoing_of g n). (n, t) \<in> derives g" by (simp add: derives_def)
  ultimately show ?case by (rule 2(1) [OF c1])
next
  case (4 k g c t ts)
  have nt: "(n, t) \<in> derives g" using 4(7) by simp
  consider (grey) "c t = GREY" | (white) "c t \<noteq> GREY" "c t = WHITE \<and> t \<in> set (keys_of g)"
    | (skip) "c t \<noteq> GREY" "\<not> (c t = WHITE \<and> t \<in> set (keys_of g))" by blast
  then show ?case
  proof cases
    case grey
    then have "(t, n) \<in> (derives g)\<^sup>*" using 4(6) by (simp add: greys_def)
    then have "(t, t) \<in> (derives g)\<^sup>+" using nt by (rule rtrancl_into_trancl1)
    then show ?thesis by (auto simp: acyclic_def)
  next
    case white
    have up: "\<forall>m \<in> greys c. (m, t) \<in> (derives g)\<^sup>+" using 4(6) nt by (auto intro: rtrancl_into_trancl1)
    show ?thesis
    proof (cases "visit k g c t")
      case (Done c1)
      have "dfs_inv g c1" "advances c c1" using visit_Done(1) [OF Done 4(5)] white by auto
      moreover have "visit_targets k g c1 ts = Cycle" using 4(4) white Done by simp
      ultimately show ?thesis using 4(2) [OF white Done] 4(6,7) by (auto simp: advances_def)
    next
      case Cycle
      then show ?thesis using 4(1) [OF white Cycle 4(5)] white up by blast
    next
      case OutOfFuel
      then show ?thesis using 4(4) white by simp
    qed
  next
    case skip
    then have "visit_targets k g c ts = Cycle" using 4(4) by (auto split: if_splits)
    then show ?thesis using 4(3) [OF skip _ 4(5,6)] 4(7) by simp
  qed
qed auto

lemma visit_roots_Cycle:
  "visit_roots k g c ns = Cycle \<Longrightarrow> dfs_inv g c \<Longrightarrow> greys c = {} \<Longrightarrow> set ns \<subseteq> set (keys_of g) \<Longrightarrow> \<not> acyclic (derives g)"
proof (induction ns arbitrary: c)
  case (Cons n ns)
  show ?case
  proof (cases "c n = WHITE")
    case True
    show ?thesis
    proof (cases "visit k g c n")
      case (Done c1)
      then have "dfs_inv g c1" "advances c c1" using visit_Done(1) [OF Done Cons.prems(2) True] Cons.prems(4) by auto
      then show ?thesis using Cons.IH [of c1] Cons.prems Done True by (auto simp: advances_def)
    next
      case Cycle
      then show ?thesis using visit_Cycle(1) [OF Cycle Cons.prems(2) True] Cons.prems(3,4) by simp
    next
      case OutOfFuel
      then show ?thesis using Cons.prems(1) True by simp
    qed
  next
    case False
    then show ?thesis using Cons by simp
  qed
qed simp

text \<open>The recursion is never deeper than the number of keys that are still white.\<close>

definition whites :: "adjacency \<Rightarrow> colors \<Rightarrow> string set" where
  "whites g c = {n \<in> set (keys_of g). c n = WHITE}"

lemma finite_whites [simp]: "finite (whites g c)"
  by (simp add: whites_def)

lemma advances_whites: "advances c c' \<Longrightarrow> whites g c' \<subseteq> whites g c"
proof
  fix n assume a: "advances c c'" "n \<in> whites g c'"
  have "c' n = WHITE" using a(2) by (simp add: whites_def)
  moreover have "c' n = GREY \<longleftrightarrow> c n = GREY" "c n = BLACK \<longrightarrow> c' n = BLACK"
    using a(1) by (auto simp: advances_def greys_def set_eq_iff)
  ultimately have "c n \<noteq> GREY" "c n \<noteq> BLACK" by auto
  then show "n \<in> whites g c" using a by (cases "c n") (auto simp: whites_def)
qed

lemma visit_fuel:
  "card (whites g c) \<le> k \<Longrightarrow> dfs_inv g c \<Longrightarrow> c n = WHITE \<Longrightarrow> n \<in> set (keys_of g) \<Longrightarrow> visit k g c n \<noteq> OutOfFuel"
  "card (whites g c) \<le> k \<Longrightarrow> dfs_inv g c \<Longrightarrow> visit_targets k g c ts \<noteq> OutOfFuel"
proof (induction k g c n and k g c ts rule: visit_visit_targets.induct)
  case (1 g c n)
  then have "n \<in> whites g c" by (simp add: whites_def)
  then have "card (whites g c) \<noteq> 0" using finite_whites card_0_eq by blast
  then show ?case using 1 by simp
next
  case (2 k g c n)
  let ?c1 = "c(n := GREY)"
  have "finished g ?c1 = finished g c" using 2(4) by (auto simp: finished_def split: if_splits)
  then have inv: "dfs_inv g ?c1" using 2(3,4) by (auto simp: dfs_inv_def)
  have "whites g ?c1 = whites g c - {n}" by (auto simp: whites_def)
  moreover have "n \<in> whites g c" using 2 by (simp add: whites_def)
  ultimately have "card (whites g ?c1) \<le> k" using 2(2) by simp
  then have "visit_targets k g ?c1 (outgoing_of g n) \<noteq> OutOfFuel" by (rule 2(1) [OF _ inv])
  then show ?case by (auto split: dfs_result.splits)
next
  case (4 k g c t ts)
  consider (grey) "c t = GREY" | (white) "c t \<noteq> GREY" "c t = WHITE \<and> t \<in> set (keys_of g)"
    | (skip) "c t \<noteq> GREY" "\<not> (c t = WHITE \<and> t \<in> set (keys_of g))" by blast
  then show ?case
  proof cases
    case white
    show ?thesis
    proof (cases "visit k g c t")
      case (Done c1)
      have "dfs_inv g c1" "advances c c1" using visit_Done(1) [OF Done 4(5)] white by auto
      moreover from this have "card (whites g c1) \<le> k"
        using card_mono [OF finite_whites advances_whites] 4(4) le_trans by blast
      ultimately show ?thesis using 4(2) [OF white Done] Done white by simp
    qed (use 4(1) [OF white 4(4,5)] white in auto)
  qed (use 4 in auto)
qed auto

lemma visit_roots_fuel:
  "card (whites g c) \<le> k \<Longrightarrow> dfs_inv g c \<Longrightarrow> set ns \<subseteq> set (keys_of g) \<Longrightarrow> visit_roots k g c ns \<noteq> OutOfFuel"
proof (induction ns arbitrary: c)
  case (Cons n ns)
  show ?case
  proof (cases "c n = WHITE")
    case True
    show ?thesis
    proof (cases "visit k g c n")
      case (Done c1)
      have "dfs_inv g c1" "advances c c1" using visit_Done(1) [OF Done Cons.prems(2) True] Cons.prems(3) by auto
      moreover from this have "card (whites g c1) \<le> k"
        using card_mono [OF finite_whites advances_whites] Cons.prems(1) le_trans by blast
      ultimately show ?thesis using Cons Done True by simp
    qed (use visit_fuel(1) [OF Cons.prems(1,2) True] True Cons.prems(3) in auto)
  qed (use Cons in auto)
qed simp

text \<open>The search decides: it always ends within its fuel and reports a cycle exactly when there is one.\<close>

lemma dfs_correct:
  "(\<exists>c. dfs g = Done c) \<longleftrightarrow> acyclic (derives g)"
  "dfs g = Cycle \<longleftrightarrow> \<not> acyclic (derives g)"
proof -
  let ?c = "\<lambda>_::string. WHITE"
  have inv: "dfs_inv g ?c" by (simp add: dfs_inv_def finished_def acyclic_def)
  have grey: "greys ?c = {}" by (simp add: greys_def)
  have "card (whites g ?c) \<le> length (keys_of g)" by (simp add: whites_def card_length)
  then have "dfs g \<noteq> OutOfFuel"
    unfolding dfs_def using visit_roots_fuel [OF _ inv, of "length g + 1"] by (simp add: keys_of_def)
  moreover have "acyclic (derives g)" if d: "dfs g = Done c" for c
  proof -
    have "dfs_inv g c" and "\<forall>n \<in> set (keys_of g). c n = BLACK"
      using visit_roots_Done [OF d [unfolded dfs_def] inv grey] by auto
    moreover from this have "finished g c = derives g" by (auto simp: finished_def dest: derives_key)
    ultimately show ?thesis by (simp add: dfs_inv_def)
  qed
  moreover have "\<not> acyclic (derives g)" if "dfs g = Cycle"
    using visit_roots_Cycle [OF that [unfolded dfs_def] inv grey] by simp
  ultimately show "(\<exists>c. dfs g = Done c) \<longleftrightarrow> acyclic (derives g)" "dfs g = Cycle \<longleftrightarrow> \<not> acyclic (derives g)"
    by (metis dfs_result.exhaust)+
qed

end
