(* ===== verification/Snapshot_Seal.thy ===== *)
theory Snapshot_Seal
  imports Snapshot_Store Derivation_Graph
begin

text \<open>
  Sealing: loading the facts, the pre-seal validation, the canonical graph hash over the stored
  rows and the transition to completed or to failed (\<^verbatim>\<open>SnapshotStore.seal\<close> and its helpers in
  \<^verbatim>\<open>app/intelligence/snapshot_store.py\<close>). The main results are what a sealed snapshot satisfies and
  that no operation of the store ever changes one again. The cancellation callback is not
  modelled (it is absent by default and only raises).
\<close>

section \<open>Model\<close>

subsection \<open>Loading\<close>

record facts =
  fc_nodes :: "ri_node list"
  fc_edges :: "ri_edge list"
  fc_assertions :: "ri_assertion list"
  fc_observations :: "ri_observation list"
  fc_evidence :: "ri_evidence list"
  fc_derivations :: "ri_derivation list"
  fc_diagnostics :: "ri_diagnostic list"

text \<open>
  A SELECT under \<^verbatim>\<open>no_autoflush\<close>: the flushed rows are matched, and the objects handed out are
  those in memory, with the changes that are still pending.
\<close>

definition loaded :: "('r \<Rightarrow> int) \<Rightarrow> ('r \<Rightarrow> string) \<Rightarrow> string \<Rightarrow> 'r list \<Rightarrow> 'r list \<Rightarrow> 'r list" where
  "loaded row_id snapshot_of sid stored memory =
     map (\<lambda>r. case find (\<lambda>m. row_id m = row_id r) memory of Some m \<Rightarrow> m | None \<Rightarrow> r)
       (filter (\<lambda>r. snapshot_of r = sid) stored)"

definition load_facts :: "string \<Rightarrow> session \<Rightarrow> facts" where
  "load_facts sid s = (let d = se_flushed s; m = se_mem s in
     \<lparr> fc_nodes = loaded nd_id nd_snapshot_id sid (db_nodes d) (db_nodes m),
       fc_edges = loaded eg_id eg_snapshot_id sid (db_edges d) (db_edges m),
       fc_assertions = loaded as_id as_snapshot_id sid (db_assertions d) (db_assertions m),
       fc_observations = loaded ob_id ob_snapshot_id sid (db_observations d) (db_observations m),
       fc_evidence = loaded ee_id ee_snapshot_id sid (db_evidence d) (db_evidence m),
       fc_derivations = loaded dv_id dv_snapshot_id sid (db_derivations d) (db_derivations m),
       fc_diagnostics = loaded dg_id dg_snapshot_id sid (db_diagnostics d) (db_diagnostics m) \<rparr>)"

subsection \<open>Grouping by parent\<close>

definition evidence_of_node :: "facts \<Rightarrow> int \<Rightarrow> ri_evidence list" where
  "evidence_of_node F i = filter (\<lambda>e. ee_node_ref e = Some i) (fc_evidence F)"

definition evidence_of_edge :: "facts \<Rightarrow> int \<Rightarrow> ri_evidence list" where
  "evidence_of_edge F i = filter (\<lambda>e. ee_node_ref e = None \<and> ee_edge_ref e = Some i) (fc_evidence F)"

definition evidence_of_observation :: "facts \<Rightarrow> int \<Rightarrow> ri_evidence list" where
  "evidence_of_observation F i =
     filter (\<lambda>e. ee_node_ref e = None \<and> ee_edge_ref e = None \<and> ee_observation_ref e = Some i) (fc_evidence F)"

definition derivations_of_edge :: "facts \<Rightarrow> int \<Rightarrow> ri_derivation list" where
  "derivations_of_edge F i = filter (\<lambda>r. dv_edge_ref r = Some i) (fc_derivations F)"

definition derivations_of_assertion :: "facts \<Rightarrow> int \<Rightarrow> ri_derivation list" where
  "derivations_of_assertion F i = filter (\<lambda>r. dv_edge_ref r = None \<and> dv_assertion_ref r = Some i) (fc_derivations F)"

definition kind_by_key :: "facts \<Rightarrow> string \<Rightarrow> string option" where
  "kind_by_key F = map_of (rev (map (\<lambda>n. (nd_stable_key n, nd_node_kind n)) (fc_nodes F)))"

definition evidence_dict :: "ri_evidence \<Rightarrow> evidence" where
  "evidence_dict e = \<lparr> ev_path = ee_path e, ev_start_line = ee_start_line e, ev_end_line = ee_end_line e,
     ev_granularity = ee_granularity e, ev_extractor = ee_extractor e, ev_extractor_version = ee_extractor_version e \<rparr>"

text \<open>\<^verbatim>\<open>{"kind": kind, field: identity}\<close>; an unknown kind is a \<^verbatim>\<open>KeyError\<close>.\<close>

definition derivation_ref :: "ri_derivation \<Rightarrow> store_error + reference" where
  "derivation_ref r = (case reference_identity_field (dv_ref_kind r) of
     None \<Rightarrow> Inl KeyError
   | Some field_name \<Rightarrow> Inr [(''kind'', dv_ref_kind r), (field_name, dv_ref_identity r)])"

definition canonR :: "canon_error + 'a \<Rightarrow> store_error + 'a" where
  "canonR r = (case r of Inl e \<Rightarrow> Inl (CanonFailure e) | Inr x \<Rightarrow> Inr x)"

abbreviation seal_error :: "string \<Rightarrow> store_error + 'a" where
  "seal_error m \<equiv> Inl (SnapshotSealError m)"

subsection \<open>Validation\<close>

definition require_producer :: "string \<Rightarrow> string \<Rightarrow> string list \<Rightarrow> store_error + unit" where
  "require_producer producer version producer_set =
     guardR (producer @ ''@'' @ version \<in> set producer_set) (SnapshotSealError ''producer is not declared in producer_version_set'')"

definition validate_stored_evidence :: "unicode \<Rightarrow> string list \<Rightarrow> ri_evidence \<Rightarrow> store_error + unit" where
  "validate_stored_evidence U producer_set e =
     (if ee_extractor e = [] \<or> ee_extractor_version e = []
      then seal_error ''stored evidence extractor and extractor_version must be non-empty''
      else if ee_granularity e \<notin> {''span'', ''file''} then seal_error ''stored evidence has invalid granularity''
      else case normalize_repo_path U (ee_path e) of
        Inl (PathEscapeError m) \<Rightarrow> seal_error ''stored evidence path is absolute or escapes the repository root''
      | Inl e \<Rightarrow> Inl (CanonFailure e)
      | Inr normalized_path \<Rightarrow>
          if normalized_path = [] then seal_error ''stored evidence path must identify a repository-relative file''
          else if normalized_path \<noteq> ee_path e then seal_error ''stored evidence path is not in normalized form''
          else if ee_logical_line_count e < 1 then seal_error ''stored evidence logical_line_count must be >= 1''
          else if \<not> (1 \<le> ee_start_line e \<and> ee_start_line e \<le> ee_end_line e \<and> ee_end_line e \<le> ee_logical_line_count e)
          then seal_error ''stored evidence span is not bounded by logical lines''
          else require_producer (ee_extractor e) (ee_extractor_version e) producer_set)"

definition validate_header :: "unicode \<Rightarrow> digest \<Rightarrow> ri_snapshot \<Rightarrow> store_error + unit" where
  "validate_header U H snapshot =
     bindR (canonR (normalize_producer_version_set U (sn_producer_version_set snapshot))) (\<lambda>normalized.
     if sn_producer_version_set snapshot \<noteq> normalized then seal_error ''producer_version_set is not normalized''
     else bindR (canonR (producer_set_hash U H normalized)) (\<lambda>h.
     if sn_producer_set_hash snapshot \<noteq> h then seal_error ''producer_set_hash does not match producer_version_set''
     else if \<not> hash_re (sn_config_hash snapshot) then seal_error ''config_hash is not a canonical sha256 identity''
     else validate_revision \<lparr> rv_kind = sn_revision_kind snapshot, rv_value = sn_revision_value snapshot,
       rv_ref = sn_revision_ref snapshot \<rparr>))"

definition validate_root :: "facts \<Rightarrow> store_error + unit" where
  "validate_root F = (case filter (\<lambda>n. nd_node_kind n = ''repository'') (fc_nodes F) of
     [n] \<Rightarrow> guardR (nd_stable_key n = ''repo:root'') (SnapshotSealError ''a completed snapshot must contain exactly one repo:root node'')
   | _ \<Rightarrow> seal_error ''a completed snapshot must contain exactly one repo:root node'')"

text \<open>\<^verbatim>\<open>normalize_content(x or {})\<close> compared with what is stored; a stored NULL is not compared.\<close>

definition content_normalized :: "unicode \<Rightarrow> (string \<times> pyval) list option \<Rightarrow> string \<Rightarrow> store_error + unit" where
  "content_normalized U stored message =
     bindR (canonR (normalize_content U (PDict (case stored of None \<Rightarrow> [] | Some kvs \<Rightarrow> kvs)))) (\<lambda>normalized.
       guardR (case stored of None \<Rightarrow> True | Some kvs \<Rightarrow> py_eq normalized (PDict kvs)) (SnapshotSealError message))"

definition validate_node :: "unicode \<Rightarrow> ri_node \<Rightarrow> store_error + unit" where
  "validate_node U n =
     (case normalize_stable_key U (nd_node_kind n) (nd_stable_key n) of
        Inl UnicodeEncodeError \<Rightarrow> Inl (CanonFailure UnicodeEncodeError)
      | Inl _ \<Rightarrow> seal_error ''invalid stable key''
      | Inr normalized_key \<Rightarrow>
          if normalized_key \<noteq> nd_stable_key n then seal_error ''stable key is not normalized''
          else content_normalized U (nd_properties n) ''node properties are not canonically normalized'')"

definition validate_observation :: "unicode \<Rightarrow> digest \<Rightarrow> ri_snapshot \<Rightarrow> facts \<Rightarrow> ri_observation \<Rightarrow> store_error + unit" where
  "validate_observation U H snapshot F b =
     (case evidence_of_observation F (ob_id b) of
        [e] \<Rightarrow>
          if kind_by_key F (ob_subject_key b) \<noteq> Some (ob_subject_kind b) then seal_error ''observation has an invalid subject''
          else bindR (canonR (compute_observation_id U H (sn_revision_kind snapshot) (sn_revision_value snapshot)
              (ob_observed_kind b) (ob_subject_kind b) (ob_subject_key b) (ob_referent_text b) (ob_ordinal b)
              (evidence_dict e) (sn_schema_version snapshot))) (\<lambda>recomputed.
            guardR (recomputed = ob_observation_id b) (SnapshotSealError ''observation identity does not recompute''))
      | _ \<Rightarrow> seal_error ''observation must have exactly one evidence record'')"

definition validate_edge :: "unicode \<Rightarrow> digest \<Rightarrow> ri_snapshot \<Rightarrow> facts \<Rightarrow> ri_edge \<Rightarrow> store_error + unit" where
  "validate_edge U H snapshot F e =
     (if kind_by_key F (eg_subject_key e) \<noteq> Some (eg_subject_kind e) \<or> kind_by_key F (eg_object_key e) \<noteq> Some (eg_object_kind e)
      then seal_error ''edge references a node outside the snapshot''
      else bindR (canonR (compute_edge_id U H (eg_subject_key e) (eg_predicate e) (eg_object_key e))) (\<lambda>recomputed.
        if recomputed \<noteq> eg_edge_id e then seal_error ''edge identity does not recompute''
        else if evidence_of_edge F (eg_id e) = [] then seal_error ''resolved edge has no evidence''
        else if \<not> list_ex (\<lambda>r. dv_ref_kind r = ''observation'') (derivations_of_edge F (eg_id e))
        then seal_error ''resolved edge must derive from a source observation''
        else require_producer (eg_producer e) (eg_producer_version e) (sn_producer_version_set snapshot)))"

definition validate_assertion :: "unicode \<Rightarrow> digest \<Rightarrow> ri_snapshot \<Rightarrow> facts \<Rightarrow> ri_assertion \<Rightarrow> store_error + unit" where
  "validate_assertion U H snapshot F a =
     (if kind_by_key F (as_subject_key a) \<noteq> Some (as_subject_kind a)
      then seal_error ''assertion references a node outside the snapshot''
      else bindR (mapR derivation_ref (derivations_of_assertion F (as_id a))) (\<lambda>references.
        if references = [] then seal_error ''inferred assertion has no derivation''
        else bindR (canonR (compute_assertion_id U H (as_subject_kind a) (as_subject_key a) (as_predicate a) (as_value a)
            (as_truth_class a) (as_producer a) (as_producer_version a) references (sn_schema_version snapshot))) (\<lambda>recomputed.
        if recomputed \<noteq> as_assertion_id a then seal_error ''assertion identity does not recompute''
        else bindR (canonR (normalize_content U (as_value a))) (\<lambda>normalized_value.
        if \<not> py_eq normalized_value (as_value a) then seal_error ''assertion value is not canonically normalized''
        else require_producer (as_producer a) (as_producer_version a) (sn_producer_version_set snapshot)))))"

text \<open>The derivation graph: every reference resolves, and the graph is acyclic.\<close>

definition resolve_reference :: "facts \<Rightarrow> ri_derivation \<Rightarrow> store_error + string" where
  "resolve_reference F r =
     (case map_of [(''observation'', map ob_observation_id (fc_observations F)), (''node'', map nd_stable_key (fc_nodes F)),
         (''edge'', map eg_edge_id (fc_edges F)), (''assertion'', map as_assertion_id (fc_assertions F))] (dv_ref_kind r) of
        None \<Rightarrow> Inl KeyError
      | Some table \<Rightarrow> if dv_ref_identity r \<notin> set table
          then seal_error ''derived_from reference does not resolve in the snapshot''
          else Inr (dv_ref_kind r @ '':'' @ dv_ref_identity r))"

definition edge_entry :: "facts \<Rightarrow> int \<Rightarrow> store_error + string \<times> string list" where
  "edge_entry F i = (case map_of (rev (map (\<lambda>e. (eg_id e, eg_edge_id e)) (fc_edges F))) i of
     None \<Rightarrow> Inl KeyError
   | Some edge_id \<Rightarrow> bindR (mapR (resolve_reference F) (derivations_of_edge F i)) (\<lambda>ts. Inr (''edge:'' @ edge_id, ts)))"

definition assertion_entry :: "facts \<Rightarrow> int \<Rightarrow> store_error + string \<times> string list" where
  "assertion_entry F i = (case map_of (rev (map (\<lambda>a. (as_id a, as_assertion_id a)) (fc_assertions F))) i of
     None \<Rightarrow> Inl KeyError
   | Some assertion_id \<Rightarrow> bindR (mapR (resolve_reference F) (derivations_of_assertion F i)) (\<lambda>ts.
       Inr (''assertion:'' @ assertion_id, ts)))"

text \<open>The keys of a \<^verbatim>\<open>defaultdict(list)\<close>, in the order of their first use.\<close>

definition edge_parents :: "facts \<Rightarrow> int list" where
  "edge_parents F = dedup_by (\<lambda>x. x) [] (List.map_filter dv_edge_ref (fc_derivations F))"

definition assertion_parents :: "facts \<Rightarrow> int list" where
  "assertion_parents F = dedup_by (\<lambda>x. x) []
     (List.map_filter dv_assertion_ref (filter (\<lambda>r. dv_edge_ref r = None) (fc_derivations F)))"

definition outgoing_map :: "facts \<Rightarrow> store_error + adjacency" where
  "outgoing_map F =
     bindR (mapR (edge_entry F) (edge_parents F)) (\<lambda>es.
     bindR (mapR (assertion_entry F) (assertion_parents F)) (\<lambda>as.
       Inr (fold (\<lambda>(k, ts). AList.update k ts) (es @ as) [])))"

definition validate_derivation_graph :: "facts \<Rightarrow> store_error + unit" where
  "validate_derivation_graph F = bindR (outgoing_map F) (\<lambda>outgoing.
     case dfs outgoing of
       Done _ \<Rightarrow> Inr ()
     | Cycle \<Rightarrow> seal_error ''derivation graph contains a cycle''
     | OutOfFuel \<Rightarrow> seal_error [])"

definition validate_diagnostic :: "unicode \<Rightarrow> ri_snapshot \<Rightarrow> ri_diagnostic \<Rightarrow> store_error + unit" where
  "validate_diagnostic U snapshot d =
     (if dg_producer d \<notin> set (sn_producer_version_set snapshot) then seal_error ''diagnostic producer is not in the producer set''
      else if (dg_span_start_line d = None) \<noteq> (dg_span_end_line d = None)
      then seal_error ''diagnostic span endpoints must either both be present or both be null''
      else content_normalized U (dg_details d) ''diagnostic details are not canonically normalized'')"

definition validate_facts :: "unicode \<Rightarrow> digest \<Rightarrow> ri_snapshot \<Rightarrow> facts \<Rightarrow> store_error + unit" where
  "validate_facts U H snapshot F =
     bindR (validate_root F) (\<lambda>_.
     bindR (forR (validate_node U) (fc_nodes F)) (\<lambda>_.
     bindR (forR (validate_stored_evidence U (sn_producer_version_set snapshot)) (fc_evidence F)) (\<lambda>_.
     bindR (forR (\<lambda>n. guardR (nd_truth_class n = ''observed'' \<longrightarrow> evidence_of_node F (nd_id n) \<noteq> [])
       (SnapshotSealError ''observed node has no evidence'')) (fc_nodes F)) (\<lambda>_.
     bindR (forR (validate_observation U H snapshot F) (fc_observations F)) (\<lambda>_.
     bindR (forR (validate_edge U H snapshot F) (fc_edges F)) (\<lambda>_.
     bindR (forR (validate_assertion U H snapshot F) (fc_assertions F)) (\<lambda>_.
     bindR (validate_derivation_graph F) (\<lambda>_.
       forR (validate_diagnostic U snapshot) (fc_diagnostics F)))))))))"

text \<open>
  An error comes with the failure code that was set on the snapshot before it was raised.
\<close>

definition no_code :: "store_error + 'a \<Rightarrow> (string option \<times> store_error) + 'a" where
  "no_code r = (case r of Inl e \<Rightarrow> Inl (None, e) | Inr x \<Rightarrow> Inr x)"

definition validate :: "unicode \<Rightarrow> digest \<Rightarrow> ri_snapshot \<Rightarrow> facts \<Rightarrow> (string option \<times> store_error) + unit" where
  "validate U H snapshot F =
     bindR (no_code (validate_header U H snapshot)) (\<lambda>_.
     if list_ex (\<lambda>d. dg_severity d = ''fatal'') (fc_diagnostics F)
     then Inl (Some ''RI-FATAL-DIAGNOSTIC'', SnapshotSealError ''snapshot has a fatal diagnostic and cannot seal'')
     else no_code (validate_facts U H snapshot F))"

subsection \<open>The hash of the stored rows\<close>

definition observed_producers :: "facts \<Rightarrow> string list" where
  "observed_producers F = sort (remdups (
     map (\<lambda>e. ee_extractor e @ ''@'' @ ee_extractor_version e) (fc_evidence F)
   @ map (\<lambda>e. eg_producer e @ ''@'' @ eg_producer_version e) (fc_edges F)
   @ map (\<lambda>a. as_producer a @ ''@'' @ as_producer_version a) (fc_assertions F)
   @ map dg_producer (fc_diagnostics F)))"

definition node_input_of :: "facts \<Rightarrow> ri_node \<Rightarrow> node_input" where
  "node_input_of F n = \<lparr> ni_node_kind = nd_node_kind n, ni_stable_key = nd_stable_key n, ni_truth_class = nd_truth_class n,
     ni_name = nd_name n, ni_language = nd_language n, ni_properties = nd_properties n,
     ni_evidence = map evidence_dict (evidence_of_node F (nd_id n)) \<rparr>"

definition edge_input_of :: "facts \<Rightarrow> ri_edge \<Rightarrow> store_error + edge_input" where
  "edge_input_of F e = bindR (mapR derivation_ref (derivations_of_edge F (eg_id e))) (\<lambda>refs. Inr
     \<lparr> ei_edge_id = eg_edge_id e, ei_subject_kind = eg_subject_kind e, ei_subject_key = eg_subject_key e,
       ei_predicate = eg_predicate e, ei_object_kind = eg_object_kind e, ei_object_key = eg_object_key e,
       ei_truth_class = eg_truth_class e, ei_producer = eg_producer e, ei_producer_version = eg_producer_version e,
       ei_evidence = map evidence_dict (evidence_of_edge F (eg_id e)), ei_derived_from = refs \<rparr>)"

definition assertion_input_of :: "facts \<Rightarrow> ri_assertion \<Rightarrow> store_error + assertion_input" where
  "assertion_input_of F a = bindR (mapR derivation_ref (derivations_of_assertion F (as_id a))) (\<lambda>refs. Inr
     \<lparr> ai_assertion_id = as_assertion_id a, ai_subject_kind = as_subject_kind a, ai_subject_key = as_subject_key a,
       ai_predicate = as_predicate a, ai_value = as_value a, ai_truth_class = as_truth_class a, ai_producer = as_producer a,
       ai_producer_version = as_producer_version a, ai_derived_from = refs \<rparr>)"

definition observation_input_of :: "facts \<Rightarrow> ri_observation \<Rightarrow> store_error + observation_input" where
  "observation_input_of F b = (case rev (evidence_of_observation F (ob_id b)) of
     [] \<Rightarrow> Inl KeyError
   | e # _ \<Rightarrow> Inr \<lparr> oi_observation_id = ob_observation_id b, oi_observed_kind = ob_observed_kind b,
       oi_subject_kind = ob_subject_kind b, oi_subject_key = ob_subject_key b, oi_referent_text = ob_referent_text b,
       oi_ordinal = ob_ordinal b, oi_evidence = evidence_dict e \<rparr>)"

definition diagnostic_input_of :: "ri_diagnostic \<Rightarrow> diagnostic_input" where
  "diagnostic_input_of d = \<lparr> di_code = dg_code d, di_category = dg_category d, di_severity = dg_severity d,
     di_message = dg_message d, di_producer = dg_producer d, di_path = dg_path d,
     di_span = (case dg_span_start_line d of None \<Rightarrow> None
        | Some a \<Rightarrow> Some (a, case dg_span_end_line d of None \<Rightarrow> 0 | Some b \<Rightarrow> b)),
     di_subject = dg_subject_key d, di_object = dg_object_key d, di_details = dg_details d \<rparr>"

text \<open>
  The span of a diagnostic that reaches the hash has both ends (the validation checked it).
  A derivation with an unknown kind is a \<^verbatim>\<open>KeyError\<close> before anything is hashed.
\<close>

definition compute_hash :: "unicode \<Rightarrow> digest \<Rightarrow> ri_snapshot \<Rightarrow> facts \<Rightarrow> store_error + string" where
  "compute_hash U H snapshot F =
     bindR (mapR derivation_ref (fc_derivations F)) (\<lambda>_.
     bindR (mapR (edge_input_of F) (fc_edges F)) (\<lambda>edges.
     bindR (mapR (assertion_input_of F) (fc_assertions F)) (\<lambda>assertions.
     bindR (mapR (observation_input_of F) (fc_observations F)) (\<lambda>observations.
       canonR (compute_canonical_graph_hash U H (sn_revision_kind snapshot) (sn_revision_value snapshot)
         (sn_producer_version_set snapshot) (sn_config_hash snapshot) (map (node_input_of F) (fc_nodes F)) edges
         assertions observations (map diagnostic_input_of (fc_diagnostics F)) (sn_schema_version snapshot))))))"

subsection \<open>Seal\<close>

definition reverted :: "('r \<Rightarrow> int) \<Rightarrow> 'r list \<Rightarrow> 'r list \<Rightarrow> 'r list" where
  "reverted row_id stored memory =
     map (\<lambda>m. case find (\<lambda>r. row_id r = row_id m) stored of Some r \<Rightarrow> r | None \<Rightarrow> m) memory"

definition discard_tampered_facts :: "unit store_action" where
  "discard_tampered_facts s = (let d = se_flushed s; m = se_mem s in
     (Inr (), s\<lparr>se_mem := m\<lparr>
       db_nodes := reverted nd_id (db_nodes d) (db_nodes m),
       db_edges := reverted eg_id (db_edges d) (db_edges m),
       db_assertions := reverted as_id (db_assertions d) (db_assertions m),
       db_observations := reverted ob_id (db_observations d) (db_observations m),
       db_evidence := reverted ee_id (db_evidence d) (db_evidence m),
       db_derivations := reverted dv_id (db_derivations d) (db_derivations m),
       db_diagnostics := reverted dg_id (db_diagnostics d) (db_diagnostics m)\<rparr>\<rparr>))"

text \<open>\<^verbatim>\<open>snapshot.failure_code or "RI-INT-VALIDATION"\<close>\<close>

definition failure_code_or_default :: "string option \<Rightarrow> string option" where
  "failure_code_or_default c = (case c of None \<Rightarrow> Some ''RI-INT-VALIDATION'' | Some [] \<Rightarrow> Some ''RI-INT-VALIDATION''
     | Some x \<Rightarrow> Some x)"

definition fail_seal :: "string \<Rightarrow> string option \<Rightarrow> unit store_action" where
  "fail_seal sid code =
     bindS discard_tampered_facts (\<lambda>_.
     bindS (edit (set_failed sid (failure_code_or_default code))) (\<lambda>_.
       commit_transition sid ''building'' ''failed''))"

definition set_completed :: "string \<Rightarrow> string \<Rightarrow> string list \<Rightarrow> int \<Rightarrow> db \<Rightarrow> db" where
  "set_completed sid graph_hash producers now d = d\<lparr>db_snapshots := map (\<lambda>r. if sn_snapshot_id r = sid
     then r\<lparr>sn_canonical_graph_hash := Some graph_hash, sn_actual_producers := Some producers,
       sn_state := ''completed'', sn_sealed_at := Some now\<rparr> else r) (db_snapshots d)\<rparr>"

text \<open>The body of the first \<^verbatim>\<open>try\<close>: validation, hash, and the hash once more.\<close>

definition seal_hash :: "unicode \<Rightarrow> digest \<Rightarrow> ri_snapshot \<Rightarrow> facts \<Rightarrow> (string option \<times> store_error) + string" where
  "seal_hash U H snapshot F =
     bindR (validate U H snapshot F) (\<lambda>_.
     bindR (no_code (compute_hash U H snapshot F)) (\<lambda>graph_hash.
     bindR (no_code (compute_hash U H snapshot F)) (\<lambda>again.
       if graph_hash \<noteq> again then Inl (None, SnapshotSealError ''canonical graph hash is not reproducible'')
       else Inr graph_hash)))"

definition caught_error :: "store_error \<Rightarrow> store_error option" where
  "caught_error e = (case e of
     SnapshotSealError m \<Rightarrow> Some (SnapshotSealError m)
   | CanonFailure (CanonicalizationError m) \<Rightarrow> Some (SnapshotSealError ''snapshot could not be canonicalized during seal'')
   | CanonFailure (PathEscapeError m) \<Rightarrow> Some (SnapshotSealError ''snapshot could not be canonicalized during seal'')
   | _ \<Rightarrow> None)"

definition seal :: "unicode \<Rightarrow> digest \<Rightarrow> int \<Rightarrow> string \<Rightarrow> ri_snapshot store_action" where
  "seal U H now sid =
     bindS (require_building sid) (\<lambda>snapshot.
     bindS (getS (load_facts sid)) (\<lambda>F.
       case seal_hash U H snapshot F of
         Inl (code, e) \<Rightarrow> (case caught_error e of
             None \<Rightarrow> raiseS e
           | Some e' \<Rightarrow> bindS (fail_seal sid (if code = None then sn_failure_code snapshot else code)) (\<lambda>_. raiseS e'))
       | Inr graph_hash \<Rightarrow>
           bindS (edit (set_completed sid graph_hash (observed_producers F) now)) (\<lambda>_ s.
             case commit_transition sid ''building'' ''completed'' s of
               (Inl IntegrityError, s') \<Rightarrow>
                 bindS (find_completed U H (sn_repository_id snapshot) (sn_revision_value snapshot)
                   (sn_schema_version snapshot) (sn_producer_version_set snapshot) (sn_config_hash snapshot))
                   (\<lambda>existing. raiseS (SnapshotAlreadySealedError existing)) (rollback s')
             | (Inl e, s') \<Rightarrow> (Inl e, s')
             | (Inr _, s') \<Rightarrow> the_snapshot sid s')))"

section \<open>What the validation decides\<close>

lemma canonR_Inr [result_simps]: "canonR r = Inr x \<longleftrightarrow> r = Inr x"
  by (cases r) (auto simp: canonR_def)

lemma no_code_Inr [result_simps]: "no_code r = Inr x \<longleftrightarrow> r = Inr x"
  by (cases r) (auto simp: no_code_def)

text \<open>The declarative reading of the derivation rows.\<close>

definition edge_name :: "facts \<Rightarrow> int \<Rightarrow> string option" where
  "edge_name F i = map_option (\<lambda>x. ''edge:'' @ x) (map_of (rev (map (\<lambda>e. (eg_id e, eg_edge_id e)) (fc_edges F))) i)"

definition assertion_name :: "facts \<Rightarrow> int \<Rightarrow> string option" where
  "assertion_name F i = map_option (\<lambda>x. ''assertion:'' @ x)
     (map_of (rev (map (\<lambda>a. (as_id a, as_assertion_id a)) (fc_assertions F))) i)"

definition parent_name :: "facts \<Rightarrow> ri_derivation \<Rightarrow> string option" where
  "parent_name F r = (case dv_edge_ref r of Some i \<Rightarrow> edge_name F i
     | None \<Rightarrow> (case dv_assertion_ref r of Some i \<Rightarrow> assertion_name F i | None \<Rightarrow> None))"

definition target_name :: "ri_derivation \<Rightarrow> string" where
  "target_name r = dv_ref_kind r @ '':'' @ dv_ref_identity r"

definition has_parent :: "ri_derivation \<Rightarrow> bool" where
  "has_parent r \<longleftrightarrow> dv_edge_ref r \<noteq> None \<or> dv_assertion_ref r \<noteq> None"

definition resolves :: "facts \<Rightarrow> ri_derivation \<Rightarrow> bool" where
  "resolves F r \<longleftrightarrow> (dv_ref_kind r = ''observation'' \<and> dv_ref_identity r \<in> ob_observation_id ` set (fc_observations F))
     \<or> (dv_ref_kind r = ''node'' \<and> dv_ref_identity r \<in> nd_stable_key ` set (fc_nodes F))
     \<or> (dv_ref_kind r = ''edge'' \<and> dv_ref_identity r \<in> eg_edge_id ` set (fc_edges F))
     \<or> (dv_ref_kind r = ''assertion'' \<and> dv_ref_identity r \<in> as_assertion_id ` set (fc_assertions F))"

definition derivation_edges :: "facts \<Rightarrow> (string \<times> string) set" where
  "derivation_edges F = {(k, t). \<exists>r \<in> set (fc_derivations F). parent_name F r = Some k
     \<and> t = target_name r}"

lemma resolve_reference_Inr: "resolve_reference F r = Inr t \<longleftrightarrow> resolves F r \<and> t = target_name r"
  by (auto simp: resolve_reference_def resolves_def target_name_def split: option.splits if_splits)

lemma mapR_resolve:
  "mapR (resolve_reference F) rs = Inr ts \<longleftrightarrow> (\<forall>r \<in> set rs. resolves F r) \<and> ts = map target_name rs"
  by (induction rs arbitrary: ts) (auto simp: result_simps resolve_reference_Inr)

lemma edge_entry_Inr:
  "edge_entry F i = Inr (k, ts) \<longleftrightarrow> edge_name F i = Some k
     \<and> (\<forall>r \<in> set (derivations_of_edge F i). resolves F r) \<and> ts = map target_name (derivations_of_edge F i)"
  by (auto simp: edge_entry_def edge_name_def result_simps mapR_resolve split: option.splits)

lemma assertion_entry_Inr:
  "assertion_entry F i = Inr (k, ts) \<longleftrightarrow> assertion_name F i = Some k
     \<and> (\<forall>r \<in> set (derivations_of_assertion F i). resolves F r) \<and> ts = map target_name (derivations_of_assertion F i)"
  by (auto simp: assertion_entry_def assertion_name_def result_simps mapR_resolve split: option.splits)

lemma set_map_filter_Some: "set (List.map_filter f xs) = {y. \<exists>x \<in> set xs. f x = Some y}"
  by (induction xs) (auto simp: List.map_filter_simps split: option.splits)

lemma set_edge_parents: "set (edge_parents F) = {i. \<exists>r \<in> set (fc_derivations F). dv_edge_ref r = Some i}"
  using dedup_by_keys [of "\<lambda>x. x" "[]" "List.map_filter dv_edge_ref (fc_derivations F)"]
  by (auto simp: edge_parents_def set_map_filter_Some)

lemma set_assertion_parents:
  "set (assertion_parents F) = {i. \<exists>r \<in> set (fc_derivations F). dv_edge_ref r = None \<and> dv_assertion_ref r = Some i}"
  using dedup_by_keys [of "\<lambda>x. x" "[]" "List.map_filter dv_assertion_ref (filter (\<lambda>r. dv_edge_ref r = None) (fc_derivations F))"]
  by (auto simp: assertion_parents_def set_map_filter_Some)

lemma distinct_parents: "distinct (edge_parents F)" "distinct (assertion_parents F)"
  using dedup_by_distinct [of "\<lambda>x. x" "[]"] by (simp_all add: edge_parents_def assertion_parents_def)

lemma fold_update_distinct:
  "distinct (map fst (acc @ es)) \<Longrightarrow> fold (\<lambda>(k, ts). AList.update k ts) es acc = acc @ es"
proof (induction es arbitrary: acc)
  case (Cons e es)
  obtain k ts where e: "e = (k, ts)" by force
  have "AList.update k ts acc = acc @ [(k, ts)]"
    using Cons.prems e by (induction acc) auto
  then show ?case using Cons.IH [of "acc @ [(k, ts)]"] Cons.prems e by simp
qed simp

lemma map_of_rev_inj:
  assumes "distinct (map snd xs)" and "map_of (rev xs) i = Some v" and "map_of (rev xs) j = Some v"
  shows "i = j"
proof -
  have "(i, v) \<in> set xs" "(j, v) \<in> set xs" using assms(2,3) by (auto dest: map_of_SomeD)
  then show ?thesis using assms(1) by (metis distinct_map inj_onD prod.inject snd_conv)
qed

lemma edge_name_inj:
  "distinct (map eg_edge_id (fc_edges F)) \<Longrightarrow> edge_name F i = Some k \<Longrightarrow> edge_name F j = Some k \<Longrightarrow> i = j"
  using map_of_rev_inj [of "map (\<lambda>e. (eg_id e, eg_edge_id e)) (fc_edges F)" i _ j]
  by (auto simp: edge_name_def comp_def)

lemma assertion_name_inj:
  "distinct (map as_assertion_id (fc_assertions F)) \<Longrightarrow> assertion_name F i = Some k \<Longrightarrow> assertion_name F j = Some k \<Longrightarrow> i = j"
  using map_of_rev_inj [of "map (\<lambda>a. (as_id a, as_assertion_id a)) (fc_assertions F)" i _ j]
  by (auto simp: assertion_name_def comp_def)

lemma names_disjoint: "edge_name F i = Some k \<Longrightarrow> assertion_name F j \<noteq> Some k"
  by (auto simp: edge_name_def assertion_name_def)

text \<open>Ids that identify: no two edges, and no two assertions, share a content identity.\<close>

definition identified :: "facts \<Rightarrow> bool" where
  "identified F \<longleftrightarrow> distinct (map eg_edge_id (fc_edges F)) \<and> distinct (map as_assertion_id (fc_assertions F))"

lemma mapR_distinct_keys:
  assumes "mapR f xs = Inr ys" and "distinct xs"
    and inj: "\<And>i j a b. f i = Inr a \<Longrightarrow> f j = Inr b \<Longrightarrow> fst a = fst b \<Longrightarrow> i = j"
  shows "distinct (map fst ys)"
proof -
  have "list_all2 (\<lambda>i e. f i = Inr e) xs ys" using assms(1) by (simp add: mapR_Inr)
  then show ?thesis
    using assms(2)
  proof (induction rule: list_all2_induct)
    case (Cons x xs y ys)
    have "fst y \<notin> fst ` set ys"
    proof
      assume "fst y \<in> fst ` set ys"
      then obtain y' where y': "y' \<in> set ys" "fst y = fst y'" by auto
      moreover have "mapR f xs = Inr ys" using Cons.hyps(2) by (simp add: mapR_Inr)
      ultimately obtain x' where x': "x' \<in> set xs" "f x' = Inr y'"
        using mapR_Inr_set by metis
      then have "x = x'" using inj [OF Cons.hyps(1) x'(2) y'(2)] by simp
      then show False using Cons.prems x'(1) by simp
    qed
    then show ?case using Cons by simp
  qed simp
qed

lemma edge_entries_keys:
  assumes "distinct (map eg_edge_id (fc_edges F))" and "mapR (edge_entry F) (edge_parents F) = Inr es"
  shows "distinct (map fst es)" and "k \<in> fst ` set es \<Longrightarrow> \<exists>i. edge_name F i = Some k"
proof -
  have "i = j" if "edge_entry F i = Inr a" "edge_entry F j = Inr b" "fst a = fst b" for i j a b
    using that edge_name_inj [OF assms(1)] by (cases a; cases b) (auto simp: edge_entry_Inr)
  then show "distinct (map fst es)" using mapR_distinct_keys [OF assms(2) distinct_parents(1)] by blast
  show "\<exists>i. edge_name F i = Some k" if k: "k \<in> fst ` set es"
  proof -
    obtain y where "y \<in> set es" "k = fst y" using k by blast
    then obtain i where "edge_entry F i = Inr (k, snd y)" using mapR_Inr_set [OF assms(2), of y] by auto
    then show ?thesis using edge_entry_Inr by blast
  qed
qed

lemma assertion_entries_keys:
  assumes "distinct (map as_assertion_id (fc_assertions F))" and "mapR (assertion_entry F) (assertion_parents F) = Inr es"
  shows "distinct (map fst es)" and "k \<in> fst ` set es \<Longrightarrow> \<exists>i. assertion_name F i = Some k"
proof -
  have "i = j" if "assertion_entry F i = Inr a" "assertion_entry F j = Inr b" "fst a = fst b" for i j a b
    using that assertion_name_inj [OF assms(1)] by (cases a; cases b) (auto simp: assertion_entry_Inr)
  then show "distinct (map fst es)" using mapR_distinct_keys [OF assms(2) distinct_parents(2)] by blast
  show "\<exists>i. assertion_name F i = Some k" if k: "k \<in> fst ` set es"
  proof -
    obtain y where "y \<in> set es" "k = fst y" using k by blast
    then obtain i where "assertion_entry F i = Inr (k, snd y)" using mapR_Inr_set [OF assms(2), of y] by auto
    then show ?thesis using assertion_entry_Inr by blast
  qed
qed

lemma outgoing_map_Inr:
  assumes "identified F"
  shows "outgoing_map F = Inr g \<longleftrightarrow> (\<exists>es as. mapR (edge_entry F) (edge_parents F) = Inr es
    \<and> mapR (assertion_entry F) (assertion_parents F) = Inr as \<and> g = es @ as \<and> distinct (map fst g))"
proof -
  have "fold (\<lambda>(k, ts). AList.update k ts) (es @ as) [] = es @ as \<and> distinct (map fst (es @ as))"
    if e: "mapR (edge_entry F) (edge_parents F) = Inr es" and a: "mapR (assertion_entry F) (assertion_parents F) = Inr as" for es as
  proof -
    have d: "distinct (map eg_edge_id (fc_edges F))" "distinct (map as_assertion_id (fc_assertions F))"
      using assms by (simp_all add: identified_def)
    note ek = edge_entries_keys [OF d(1) e] and ak = assertion_entries_keys [OF d(2) a]
    have "fst ` set es \<inter> fst ` set as = {}"
      using ek(2) ak(2) names_disjoint by (meson disjoint_iff)
    then have "distinct (map fst (es @ as))" using ek(1) ak(1) by simp
    then show ?thesis using fold_update_distinct [of "[]" "es @ as"] by simp
  qed
  then show ?thesis unfolding outgoing_map_def bindR_Inr by (metis Inr_inject)
qed

lemma derivation_edges_edge:
  "r \<in> set (fc_derivations F) \<Longrightarrow> dv_edge_ref r = Some i \<Longrightarrow> edge_name F i = Some k \<Longrightarrow> (k, target_name r) \<in> derivation_edges F"
  by (force simp: derivation_edges_def parent_name_def)

lemma derivation_edges_assertion:
  "r \<in> set (fc_derivations F) \<Longrightarrow> dv_edge_ref r = None \<Longrightarrow> dv_assertion_ref r = Some i \<Longrightarrow> assertion_name F i = Some k
    \<Longrightarrow> (k, target_name r) \<in> derivation_edges F"
  by (force simp: derivation_edges_def parent_name_def)

lemma outgoing_map_derives:
  assumes "identified F" and "outgoing_map F = Inr g"
  shows "derives g = derivation_edges F"
proof -
  obtain es as where es: "mapR (edge_entry F) (edge_parents F) = Inr es"
    and as: "mapR (assertion_entry F) (assertion_parents F) = Inr as" and g: "g = es @ as" and d: "distinct (map fst g)"
    using assms(2) unfolding outgoing_map_Inr [OF assms(1)] by blast
  have "(k, t) \<in> derives g \<longleftrightarrow> (k, t) \<in> derivation_edges F" for k t
  proof -
    have "(k, t) \<in> derives g \<longleftrightarrow> (\<exists>ts. (k, ts) \<in> set g \<and> t \<in> set ts)"
      using d by (auto simp: derives_def outgoing_of_def split: option.splits)
    also have "\<dots> \<longleftrightarrow> (\<exists>ts. (\<exists>i \<in> set (edge_parents F). edge_entry F i = Inr (k, ts)) \<and> t \<in> set ts)
        \<or> (\<exists>ts. (\<exists>i \<in> set (assertion_parents F). assertion_entry F i = Inr (k, ts)) \<and> t \<in> set ts)"
      unfolding g set_append Un_iff mapR_Inr_set [OF es] mapR_Inr_set [OF as] by blast
    also have "\<dots> \<longleftrightarrow> (k, t) \<in> derivation_edges F"
    proof
      assume "(k, t) \<in> derivation_edges F"
      then obtain r where r: "r \<in> set (fc_derivations F)" "parent_name F r = Some k" "t = target_name r"
        by (auto simp: derivation_edges_def)
      show "(\<exists>ts. (\<exists>i \<in> set (edge_parents F). edge_entry F i = Inr (k, ts)) \<and> t \<in> set ts)
        \<or> (\<exists>ts. (\<exists>i \<in> set (assertion_parents F). assertion_entry F i = Inr (k, ts)) \<and> t \<in> set ts)"
      proof (cases "dv_edge_ref r")
        case (Some i)
        then have i: "i \<in> set (edge_parents F)" using r(1) by (auto simp: set_edge_parents)
        obtain k' ts where y: "edge_entry F i = Inr (k', ts)" using mapR_Inr_all [OF es i] by (metis surj_pair)
        moreover have "k' = k" using y r(2) Some by (auto simp: edge_entry_Inr parent_name_def)
        moreover have "t \<in> set ts" using y r Some by (auto simp: edge_entry_Inr derivations_of_edge_def)
        ultimately show ?thesis using i by blast
      next
        case None
        then obtain i where Some: "dv_assertion_ref r = Some i" using r(2) by (auto simp: parent_name_def split: option.splits)
        then have i: "i \<in> set (assertion_parents F)" using r(1) None by (auto simp: set_assertion_parents)
        obtain k' ts where y: "assertion_entry F i = Inr (k', ts)" using mapR_Inr_all [OF as i] by (metis surj_pair)
        moreover have "k' = k" using y r(2) Some None by (auto simp: assertion_entry_Inr parent_name_def)
        moreover have "t \<in> set ts" using y r Some None by (auto simp: assertion_entry_Inr derivations_of_assertion_def)
        ultimately show ?thesis using i by blast
      qed
    qed (auto simp: edge_entry_Inr assertion_entry_Inr derivations_of_edge_def derivations_of_assertion_def
        intro: derivation_edges_edge derivation_edges_assertion)
    finally show ?thesis .
  qed
  then show ?thesis by auto
qed

lemma outgoing_map_total:
  assumes "identified F"
  shows "(\<exists>g. outgoing_map F = Inr g) \<longleftrightarrow>
    (\<forall>r \<in> set (fc_derivations F). has_parent r \<longrightarrow> parent_name F r \<noteq> None \<and> resolves F r)"
proof
  assume "\<exists>g. outgoing_map F = Inr g"
  then obtain es as where es: "mapR (edge_entry F) (edge_parents F) = Inr es"
    and as: "mapR (assertion_entry F) (assertion_parents F) = Inr as"
    unfolding outgoing_map_Inr [OF assms] by blast
  show "\<forall>r \<in> set (fc_derivations F). has_parent r \<longrightarrow> parent_name F r \<noteq> None \<and> resolves F r"
  proof (intro ballI impI)
    fix r assume r: "r \<in> set (fc_derivations F)" "has_parent r"
    show "parent_name F r \<noteq> None \<and> resolves F r"
    proof (cases "dv_edge_ref r")
      case (Some i)
      then have i: "i \<in> set (edge_parents F)" using r(1) by (auto simp: set_edge_parents)
      obtain k ts where y: "edge_entry F i = Inr (k, ts)" using mapR_Inr_all [OF es i] by (metis surj_pair)
      then show ?thesis using r(1) Some by (auto simp: edge_entry_Inr parent_name_def derivations_of_edge_def)
    next
      case None
      then obtain i where Some: "dv_assertion_ref r = Some i" using r(2) by (auto simp: has_parent_def)
      then have i: "i \<in> set (assertion_parents F)" using r(1) None by (auto simp: set_assertion_parents)
      obtain k ts where y: "assertion_entry F i = Inr (k, ts)" using mapR_Inr_all [OF as i] by (metis surj_pair)
      then show ?thesis using r(1) Some None by (auto simp: assertion_entry_Inr parent_name_def derivations_of_assertion_def)
    qed
  qed
next
  assume all: "\<forall>r \<in> set (fc_derivations F). has_parent r \<longrightarrow> parent_name F r \<noteq> None \<and> resolves F r"
  have "\<exists>y. edge_entry F i = Inr y" if i: "i \<in> set (edge_parents F)" for i
  proof -
    obtain r where r: "r \<in> set (fc_derivations F)" "dv_edge_ref r = Some i" using i by (auto simp: set_edge_parents)
    then obtain x where "edge_name F i = Some x"
      using all by (fastforce simp: has_parent_def parent_name_def)
    moreover have "\<forall>r \<in> set (derivations_of_edge F i). resolves F r"
      using all by (auto simp: derivations_of_edge_def has_parent_def)
    ultimately show ?thesis using edge_entry_Inr by blast
  qed
  then obtain es where es: "mapR (edge_entry F) (edge_parents F) = Inr es" using mapR_total by metis
  have "\<exists>y. assertion_entry F i = Inr y" if i: "i \<in> set (assertion_parents F)" for i
  proof -
    obtain r where r: "r \<in> set (fc_derivations F)" "dv_edge_ref r = None" "dv_assertion_ref r = Some i"
      using i by (auto simp: set_assertion_parents)
    then obtain x where "assertion_name F i = Some x"
      using all by (fastforce simp: has_parent_def parent_name_def)
    moreover have "\<forall>r \<in> set (derivations_of_assertion F i). resolves F r"
      using all by (auto simp: derivations_of_assertion_def has_parent_def)
    ultimately show ?thesis using assertion_entry_Inr by blast
  qed
  then obtain as where "mapR (assertion_entry F) (assertion_parents F) = Inr as" using mapR_total by metis
  with es show "\<exists>g. outgoing_map F = Inr g" by (simp add: outgoing_map_def)
qed

lemma validate_derivation_graph_Inr:
  "validate_derivation_graph F = Inr () \<longleftrightarrow> (\<exists>g. outgoing_map F = Inr g \<and> acyclic (derives g))"
proof -
  have "(case dfs g of Done _ \<Rightarrow> Inr () | Cycle \<Rightarrow> seal_error ''derivation graph contains a cycle''
      | OutOfFuel \<Rightarrow> seal_error []) = Inr () \<longleftrightarrow> acyclic (derives g)" for g
    using dfs_correct [of g] by (cases "dfs g") auto
  then show ?thesis by (simp add: validate_derivation_graph_def bindR_Inr)
qed

text \<open>
  C4: Where content identities identify (a constraint of the tables), the validation of the
  derivation graph succeeds exactly when every derivation belongs to a derived fact of the
  snapshot, every reference resolves to a fact of the snapshot, and the relation ``is derived
  from'' has no cycle.
\<close>

theorem derivation_graph_decided:
  assumes "identified F"
  shows "validate_derivation_graph F = Inr () \<longleftrightarrow>
    (\<forall>r \<in> set (fc_derivations F). has_parent r \<longrightarrow> parent_name F r \<noteq> None \<and> resolves F r)
    \<and> acyclic (derivation_edges F)"
  unfolding validate_derivation_graph_Inr
  using outgoing_map_total [OF assms] outgoing_map_derives [OF assms] by metis

text \<open>Two assertions that are derived from each other.\<close>

definition cyclic_facts :: "string \<Rightarrow> facts" where
  "cyclic_facts target = \<lparr> fc_nodes = [], fc_edges = [],
     fc_assertions = [\<lparr> as_id = 1, as_snapshot_id = ''b'', as_assertion_id = ''x'', as_subject_kind = ''file'',
         as_subject_key = ''k'', as_predicate = ''p'', as_value = PDict [], as_truth_class = ''inferred'', as_producer = ''p'',
         as_producer_version = ''1'' \<rparr>,
       \<lparr> as_id = 2, as_snapshot_id = ''b'', as_assertion_id = ''y'', as_subject_kind = ''file'',
         as_subject_key = ''k'', as_predicate = ''p'', as_value = PDict [], as_truth_class = ''inferred'', as_producer = ''p'',
         as_producer_version = ''1'' \<rparr>],
     fc_observations = [], fc_evidence = [],
     fc_derivations = [\<lparr> dv_id = 1, dv_snapshot_id = ''b'', dv_edge_ref = None, dv_assertion_ref = Some 1,
         dv_ref_kind = ''assertion'', dv_ref_identity = ''y'' \<rparr>,
       \<lparr> dv_id = 2, dv_snapshot_id = ''b'', dv_edge_ref = None, dv_assertion_ref = Some 2,
         dv_ref_kind = ''assertion'', dv_ref_identity = target \<rparr>],
     fc_diagnostics = [] \<rparr>"

theorem derivation_graph_decided_witness:
  "validate_derivation_graph (cyclic_facts ''x'') = Inl (SnapshotSealError ''derivation graph contains a cycle'')
   \<and> \<not> acyclic (derivation_edges (cyclic_facts ''x''))"
proof -
  let ?F = "cyclic_facts ''x''"
  have v: "validate_derivation_graph ?F = Inl (SnapshotSealError ''derivation graph contains a cycle'')" by code_simp
  have i: "identified ?F" by code_simp
  have "\<forall>r \<in> set (fc_derivations ?F). has_parent r \<longrightarrow> parent_name ?F r \<noteq> None \<and> resolves ?F r"
    by (simp add: cyclic_facts_def has_parent_def parent_name_def resolves_def assertion_name_def)
  then show ?thesis using derivation_graph_decided [OF i] v by simp
qed

section \<open>What a sealed snapshot satisfies\<close>

definition facts_in :: "string \<Rightarrow> db \<Rightarrow> facts" where
  "facts_in sid d = \<lparr> fc_nodes = filter (\<lambda>r. nd_snapshot_id r = sid) (db_nodes d),
     fc_edges = filter (\<lambda>r. eg_snapshot_id r = sid) (db_edges d),
     fc_assertions = filter (\<lambda>r. as_snapshot_id r = sid) (db_assertions d),
     fc_observations = filter (\<lambda>r. ob_snapshot_id r = sid) (db_observations d),
     fc_evidence = filter (\<lambda>r. ee_snapshot_id r = sid) (db_evidence d),
     fc_derivations = filter (\<lambda>r. dv_snapshot_id r = sid) (db_derivations d),
     fc_diagnostics = filter (\<lambda>r. dg_snapshot_id r = sid) (db_diagnostics d) \<rparr>"

definition has_node :: "facts \<Rightarrow> string \<Rightarrow> string \<Rightarrow> bool" where
  "has_node F key kind \<longleftrightarrow> (\<exists>n \<in> set (fc_nodes F). nd_stable_key n = key \<and> nd_node_kind n = kind)"

definition declared_producer :: "ri_snapshot \<Rightarrow> string \<Rightarrow> string \<Rightarrow> bool" where
  "declared_producer r p v \<longleftrightarrow> p @ ''@'' @ v \<in> set (sn_producer_version_set r)"

definition valid_nodes :: "unicode \<Rightarrow> facts \<Rightarrow> bool" where
  "valid_nodes U F \<longleftrightarrow>
     (\<exists>n. filter (\<lambda>n. nd_node_kind n = ''repository'') (fc_nodes F) = [n] \<and> nd_stable_key n = ''repo:root'')
   \<and> (\<forall>n \<in> set (fc_nodes F). normalize_stable_key U (nd_node_kind n) (nd_stable_key n) = Inr (nd_stable_key n)
        \<and> (nd_truth_class n = ''observed'' \<longrightarrow> (\<exists>e \<in> set (fc_evidence F). ee_node_ref e = Some (nd_id n))))"

definition valid_stored_evidence :: "unicode \<Rightarrow> ri_snapshot \<Rightarrow> facts \<Rightarrow> bool" where
  "valid_stored_evidence U r F \<longleftrightarrow> (\<forall>e \<in> set (fc_evidence F). valid_evidence U e
     \<and> normalize_repo_path U (ee_path e) = Inr (ee_path e)
     \<and> declared_producer r (ee_extractor e) (ee_extractor_version e))"

definition valid_observations :: "unicode \<Rightarrow> digest \<Rightarrow> ri_snapshot \<Rightarrow> facts \<Rightarrow> bool" where
  "valid_observations U H r F \<longleftrightarrow> (\<forall>b \<in> set (fc_observations F). has_node F (ob_subject_key b) (ob_subject_kind b)
     \<and> (\<exists>e. evidence_of_observation F (ob_id b) = [e]
         \<and> compute_observation_id U H (sn_revision_kind r) (sn_revision_value r) (ob_observed_kind b) (ob_subject_kind b)
             (ob_subject_key b) (ob_referent_text b) (ob_ordinal b) (evidence_dict e) (sn_schema_version r)
           = Inr (ob_observation_id b)))"

definition valid_edges :: "unicode \<Rightarrow> digest \<Rightarrow> ri_snapshot \<Rightarrow> facts \<Rightarrow> bool" where
  "valid_edges U H r F \<longleftrightarrow> (\<forall>e \<in> set (fc_edges F). has_node F (eg_subject_key e) (eg_subject_kind e)
     \<and> has_node F (eg_object_key e) (eg_object_kind e)
     \<and> compute_edge_id U H (eg_subject_key e) (eg_predicate e) (eg_object_key e) = Inr (eg_edge_id e)
     \<and> (\<exists>v \<in> set (fc_evidence F). ee_edge_ref v = Some (eg_id e))
     \<and> (\<exists>d \<in> set (fc_derivations F). dv_edge_ref d = Some (eg_id e) \<and> dv_ref_kind d = ''observation'')
     \<and> declared_producer r (eg_producer e) (eg_producer_version e))"

definition valid_assertions :: "unicode \<Rightarrow> digest \<Rightarrow> ri_snapshot \<Rightarrow> facts \<Rightarrow> bool" where
  "valid_assertions U H r F \<longleftrightarrow> (\<forall>a \<in> set (fc_assertions F). has_node F (as_subject_key a) (as_subject_kind a)
     \<and> (\<exists>refs. mapR derivation_ref (derivations_of_assertion F (as_id a)) = Inr refs \<and> refs \<noteq> []
         \<and> compute_assertion_id U H (as_subject_kind a) (as_subject_key a) (as_predicate a) (as_value a) (as_truth_class a)
             (as_producer a) (as_producer_version a) refs (sn_schema_version r) = Inr (as_assertion_id a))
     \<and> declared_producer r (as_producer a) (as_producer_version a))"

definition valid_derivations :: "facts \<Rightarrow> bool" where
  "valid_derivations F \<longleftrightarrow> (\<forall>d \<in> set (fc_derivations F). has_parent d \<longrightarrow> parent_name F d \<noteq> None \<and> resolves F d)
     \<and> acyclic (derivation_edges F)"

definition valid_diagnostics :: "ri_snapshot \<Rightarrow> facts \<Rightarrow> bool" where
  "valid_diagnostics r F \<longleftrightarrow> (\<forall>d \<in> set (fc_diagnostics F). dg_severity d \<noteq> ''fatal''
     \<and> dg_producer d \<in> set (sn_producer_version_set r)
     \<and> (dg_span_start_line d = None \<longleftrightarrow> dg_span_end_line d = None))"

definition valid_graph :: "unicode \<Rightarrow> digest \<Rightarrow> ri_snapshot \<Rightarrow> facts \<Rightarrow> bool" where
  "valid_graph U H r F \<longleftrightarrow>
     normalize_producer_version_set U (sn_producer_version_set r) = Inr (sn_producer_version_set r)
   \<and> producer_set_hash U H (sn_producer_version_set r) = Inr (sn_producer_set_hash r)
   \<and> hash_re (sn_config_hash r)
   \<and> valid_nodes U F \<and> valid_stored_evidence U r F \<and> valid_observations U H r F \<and> valid_edges U H r F
   \<and> valid_assertions U H r F \<and> valid_derivations F \<and> valid_diagnostics r F"

lemma kind_by_key_has_node: "kind_by_key F k = Some kind \<Longrightarrow> has_node F k kind"
  using map_of_SomeD [of "rev (map (\<lambda>n. (nd_stable_key n, nd_node_kind n)) (fc_nodes F))" k kind]
  by (auto simp: kind_by_key_def has_node_def)

lemma require_producer_Inr: "require_producer p v ps = Inr u \<longleftrightarrow> p @ ''@'' @ v \<in> set ps"
  by (simp add: require_producer_def guardR_Inr)

lemma validate_stored_evidence_Inr:
  assumes "validate_stored_evidence U (sn_producer_version_set r) e = Inr u"
  shows "valid_evidence U e \<and> normalize_repo_path U (ee_path e) = Inr (ee_path e)
    \<and> declared_producer r (ee_extractor e) (ee_extractor_version e)"
proof -
  obtain p where p: "normalize_repo_path U (ee_path e) = Inr p"
    using assms by (auto simp: validate_stored_evidence_def split: if_splits sum.splits canon_error.splits)
  have "p = ee_path e"
    using assms unfolding validate_stored_evidence_def p by (auto split: if_splits)
  then have "\<exists>q. normalize_repo_path U q = Inr (ee_path e)" using p by blast
  then show ?thesis
    using assms \<open>p = ee_path e\<close> unfolding validate_stored_evidence_def p
    by (auto simp: valid_evidence_def declared_producer_def require_producer_Inr p split: if_splits)
qed

lemma validate_observation_Inr:
  assumes "validate_observation U H r F b = Inr u"
  shows "has_node F (ob_subject_key b) (ob_subject_kind b) \<and> (\<exists>e. evidence_of_observation F (ob_id b) = [e]
     \<and> compute_observation_id U H (sn_revision_kind r) (sn_revision_value r) (ob_observed_kind b) (ob_subject_kind b)
         (ob_subject_key b) (ob_referent_text b) (ob_ordinal b) (evidence_dict e) (sn_schema_version r)
       = Inr (ob_observation_id b))"
proof -
  obtain e where e: "evidence_of_observation F (ob_id b) = [e]"
    using assms by (auto simp: validate_observation_def split: list.splits)
  have k: "kind_by_key F (ob_subject_key b) = Some (ob_subject_kind b)"
    using assms by (auto simp: validate_observation_def e split: if_splits)
  show ?thesis
    using assms kind_by_key_has_node [OF k]
    by (auto simp: validate_observation_def e k bindR_Inr canonR_Inr guardR_Inr)
qed

lemma validate_edge_Inr:
  assumes "validate_edge U H r F e = Inr u"
  shows "has_node F (eg_subject_key e) (eg_subject_kind e) \<and> has_node F (eg_object_key e) (eg_object_kind e)
     \<and> compute_edge_id U H (eg_subject_key e) (eg_predicate e) (eg_object_key e) = Inr (eg_edge_id e)
     \<and> (\<exists>v \<in> set (fc_evidence F). ee_edge_ref v = Some (eg_id e))
     \<and> (\<exists>d \<in> set (fc_derivations F). dv_edge_ref d = Some (eg_id e) \<and> dv_ref_kind d = ''observation'')
     \<and> declared_producer r (eg_producer e) (eg_producer_version e)"
proof -
  have k: "kind_by_key F (eg_subject_key e) = Some (eg_subject_kind e)" "kind_by_key F (eg_object_key e) = Some (eg_object_kind e)"
    using assms by (auto simp: validate_edge_def split: if_splits)
  have rest: "compute_edge_id U H (eg_subject_key e) (eg_predicate e) (eg_object_key e) = Inr (eg_edge_id e)"
    "evidence_of_edge F (eg_id e) \<noteq> []" "list_ex (\<lambda>r. dv_ref_kind r = ''observation'') (derivations_of_edge F (eg_id e))"
    "declared_producer r (eg_producer e) (eg_producer_version e)"
    using assms by (auto simp: validate_edge_def k bindR_Inr canonR_Inr require_producer_Inr declared_producer_def split: if_splits)
  then show ?thesis
    using k [THEN kind_by_key_has_node]
    by (auto simp: evidence_of_edge_def derivations_of_edge_def filter_empty_conv list_ex_iff)
qed

lemma validate_assertion_Inr:
  assumes "validate_assertion U H r F a = Inr u"
  shows "has_node F (as_subject_key a) (as_subject_kind a)
     \<and> (\<exists>refs. mapR derivation_ref (derivations_of_assertion F (as_id a)) = Inr refs \<and> refs \<noteq> []
         \<and> compute_assertion_id U H (as_subject_kind a) (as_subject_key a) (as_predicate a) (as_value a) (as_truth_class a)
             (as_producer a) (as_producer_version a) refs (sn_schema_version r) = Inr (as_assertion_id a))
     \<and> declared_producer r (as_producer a) (as_producer_version a)"
proof -
  have k: "kind_by_key F (as_subject_key a) = Some (as_subject_kind a)"
    using assms by (auto simp: validate_assertion_def split: if_splits)
  show ?thesis
    using assms kind_by_key_has_node [OF k]
    by (auto simp: validate_assertion_def k bindR_Inr canonR_Inr require_producer_Inr declared_producer_def split: if_splits)
qed

lemma validate_root_Inr:
  assumes "validate_root F = Inr u"
  shows "\<exists>n. filter (\<lambda>n. nd_node_kind n = ''repository'') (fc_nodes F) = [n] \<and> nd_stable_key n = ''repo:root''"
  using assms by (auto simp: validate_root_def guardR_Inr split: list.splits)

lemma validate_node_Inr:
  assumes "validate_node U n = Inr u"
  shows "normalize_stable_key U (nd_node_kind n) (nd_stable_key n) = Inr (nd_stable_key n)"
  using assms by (auto simp: validate_node_def split: sum.splits canon_error.splits if_splits)

lemma validate_Inr:
  assumes ok: "validate U H r F = Inr u" and "identified F"
  shows "valid_graph U H r F"
proof -
  have head: "validate_header U H r = Inr ()" and fatal: "\<forall>d \<in> set (fc_diagnostics F). dg_severity d \<noteq> ''fatal''"
    and facts: "validate_facts U H r F = Inr ()"
    using ok by (auto simp: validate_def bindR_Inr no_code_Inr list_ex_iff split: if_splits)
  have F: "validate_root F = Inr ()" "\<forall>n \<in> set (fc_nodes F). validate_node U n = Inr ()"
    "\<forall>e \<in> set (fc_evidence F). validate_stored_evidence U (sn_producer_version_set r) e = Inr ()"
    "\<forall>n \<in> set (fc_nodes F). nd_truth_class n = ''observed'' \<longrightarrow> evidence_of_node F (nd_id n) \<noteq> []"
    "\<forall>b \<in> set (fc_observations F). validate_observation U H r F b = Inr ()"
    "\<forall>e \<in> set (fc_edges F). validate_edge U H r F e = Inr ()"
    "\<forall>a \<in> set (fc_assertions F). validate_assertion U H r F a = Inr ()"
    "validate_derivation_graph F = Inr ()"
    "\<forall>d \<in> set (fc_diagnostics F). validate_diagnostic U r d = Inr ()"
    using facts by (auto simp: validate_facts_def result_simps)
  have "valid_nodes U F"
    using validate_root_Inr [OF F(1)] F(2,4) validate_node_Inr
    by (fastforce simp: valid_nodes_def evidence_of_node_def filter_empty_conv)
  moreover have "valid_stored_evidence U r F"
    unfolding valid_stored_evidence_def using F(3) validate_stored_evidence_Inr by blast
  moreover have "valid_observations U H r F"
    unfolding valid_observations_def using F(5) validate_observation_Inr by blast
  moreover have "valid_edges U H r F"
    unfolding valid_edges_def using F(6) validate_edge_Inr by blast
  moreover have "valid_assertions U H r F"
    unfolding valid_assertions_def using F(7) validate_assertion_Inr by blast
  moreover have "valid_derivations F"
    using F(8) outgoing_map_total [OF assms(2)] outgoing_map_derives [OF assms(2)]
    unfolding valid_derivations_def validate_derivation_graph_Inr by metis
  moreover have "valid_diagnostics r F"
    using F(9) fatal by (auto simp: valid_diagnostics_def validate_diagnostic_def split: if_splits)
  moreover have "normalize_producer_version_set U (sn_producer_version_set r) = Inr (sn_producer_version_set r)
      \<and> producer_set_hash U H (sn_producer_version_set r) = Inr (sn_producer_set_hash r) \<and> hash_re (sn_config_hash r)"
    using head by (auto simp: validate_header_def bindR_Inr canonR_Inr split: if_splits)
  ultimately show ?thesis unfolding valid_graph_def by blast
qed

subsection \<open>The seal\<close>

lemma commit_Inr:
  "commit s = (Inr u, s') \<longleftrightarrow> guard_completed_snapshots s = Inr () \<and> constraints (se_mem s)
     \<and> s' = s\<lparr>se_committed := se_mem s, se_flushed := se_mem s\<rparr>"
  by (auto simp: commit_def bindS_Inr flush_Inr)

lemma commit_transition_Inr:
  assumes "commit_transition sid a b s = (Inr u, s')"
  shows "constraints (se_mem s) \<and> se_committed s' = se_mem s \<and> se_flushed s' = se_mem s \<and> se_mem s' = se_mem s"
proof -
  let ?s = "s\<lparr>se_allowed := List.insert (sid, a, b) (se_allowed s)\<rparr>"
  obtain r s1 where c: "commit ?s = (r, s1)" by force
  then have "r = Inr u" and s': "s' = s1\<lparr>se_allowed := removeAll (sid, a, b) (se_allowed s1)\<rparr>"
    using assms by (auto simp: commit_transition_def Let_def)
  then show ?thesis using c by (auto simp: commit_Inr)
qed

lemma the_snapshot_Inr: "the_snapshot sid s = (Inr r, s') \<longleftrightarrow> find_snapshot (se_mem s) sid = Some r \<and> s' = s"
  by (auto simp: the_snapshot_def split: option.splits)

lemma require_building_Inr:
  "require_building sid s = (Inr r, s') \<longleftrightarrow> find_snapshot (se_mem s) sid = Some r \<and> sn_state r = ''building'' \<and> s' = s"
  by (auto simp: require_building_def bindS_Inr the_snapshot_Inr raiseS_def returnS_def split: if_splits)

lemma bindS_raiseS_never: "bindS m (\<lambda>x. raiseS (f x)) s \<noteq> (Inr y, s')"
  by (auto simp: bindS_def raiseS_def split: prod.splits sum.splits)

lemma seal_Inr:
  assumes "seal U H now sid s = (Inr r, s')"
  shows "\<exists>q h. find_snapshot (se_mem s) sid = Some q \<and> sn_state q = ''building''
    \<and> seal_hash U H q (load_facts sid s) = Inr h
    \<and> constraints (set_completed sid h (observed_producers (load_facts sid s)) now (se_mem s))
    \<and> se_mem s' = set_completed sid h (observed_producers (load_facts sid s)) now (se_mem s)
    \<and> se_committed s' = se_mem s' \<and> se_flushed s' = se_mem s' \<and> find_snapshot (se_mem s') sid = Some r"
proof -
  let ?F = "load_facts sid s"
  obtain q where q: "find_snapshot (se_mem s) sid = Some q" "sn_state q = ''building''"
    and rest: "(case seal_hash U H q ?F of
         Inl (code, e) \<Rightarrow> (case caught_error e of
             None \<Rightarrow> raiseS e
           | Some e' \<Rightarrow> bindS (fail_seal sid (if code = None then sn_failure_code q else code)) (\<lambda>_. raiseS e'))
       | Inr graph_hash \<Rightarrow>
           bindS (edit (set_completed sid graph_hash (observed_producers ?F) now)) (\<lambda>_ s.
             case commit_transition sid ''building'' ''completed'' s of
               (Inl IntegrityError, s') \<Rightarrow>
                 bindS (find_completed U H (sn_repository_id q) (sn_revision_value q)
                   (sn_schema_version q) (sn_producer_version_set q) (sn_config_hash q))
                   (\<lambda>existing. raiseS (SnapshotAlreadySealedError existing)) (rollback s')
             | (Inl e, s') \<Rightarrow> (Inl e, s')
             | (Inr _, s') \<Rightarrow> the_snapshot sid s')) s = (Inr r, s')"
    using assms unfolding seal_def bindS_Inr require_building_Inr getS_def by auto
  obtain h where h: "seal_hash U H q ?F = Inr h"
  proof (cases "seal_hash U H q ?F")
    case (Inl ce)
    then show ?thesis
      using rest by (cases ce) (auto simp: raiseS_def bindS_raiseS_never split: option.splits)
  qed (use that in blast)
  let ?m = "set_completed sid h (observed_producers ?F) now (se_mem s)"
  obtain c s1 where ct: "commit_transition sid ''building'' ''completed'' (s\<lparr>se_mem := ?m\<rparr>) = (c, s1)" by force
  have "isl c \<Longrightarrow> False"
    using rest ct by (auto simp: h bindS_def edit_def raiseS_def split: sum.splits prod.splits store_error.splits)
  then obtain u where c: "c = Inr u" by (cases c) auto
  have "the_snapshot sid s1 = (Inr r, s')" using rest ct by (simp add: h c bindS_def edit_def)
  then have s1: "s' = s1" "find_snapshot (se_mem s1) sid = Some r" by (simp_all add: the_snapshot_Inr)
  from commit_transition_Inr [OF ct [unfolded c]] q h s1 show ?thesis by auto
qed

lemma facts_in_set_completed [simp]: "facts_in sid (set_completed sid' h ps now d) = facts_in sid d"
  by (simp add: facts_in_def set_completed_def)

lemma seal_hash_Inr: "seal_hash U H q F = Inr h \<longleftrightarrow> validate U H q F = Inr () \<and> compute_hash U H q F = Inr h"
  by (auto simp: seal_hash_def bindR_Inr no_code_Inr split: if_splits)

lemma identified_facts_in:
  assumes "constraints d" shows "identified (facts_in sid d)"
proof -
  have key: "distinct (map g (filter (\<lambda>r. f r = sid) xs))" if d: "distinct (map (\<lambda>r. (f r, g r)) xs)"
    for f :: "'r \<Rightarrow> string" and g :: "'r \<Rightarrow> string" and xs
  proof -
    have "distinct (map (\<lambda>r. (f r, g r)) (filter (\<lambda>r. f r = sid) xs))" using d by (rule distinct_map_filter)
    then show ?thesis unfolding distinct_map by (auto simp: inj_on_def)
  qed
  have "distinct (map (\<lambda>e. (eg_snapshot_id e, eg_edge_id e)) (db_edges d))"
    "distinct (map (\<lambda>a. (as_snapshot_id a, as_assertion_id a)) (db_assertions d))"
    using assms by (simp_all add: constraints_def uq_ri_edges_def uq_ri_assertions_def unique_index_def)
  then show ?thesis by (simp add: identified_def facts_in_def key)
qed

lemma set_completed_row:
  assumes "find_snapshot d sid = Some q"
  shows "find_snapshot (set_completed sid h ps now d) sid = Some (q\<lparr>sn_canonical_graph_hash := Some h,
    sn_actual_producers := Some ps, sn_state := ''completed'', sn_sealed_at := Some now\<rparr>)"
proof -
  have "find (\<lambda>s. sn_snapshot_id s = sid) xs = Some q \<Longrightarrow>
     find (\<lambda>s. sn_snapshot_id s = sid) (map (\<lambda>r. if sn_snapshot_id r = sid
       then r\<lparr>sn_canonical_graph_hash := Some h, sn_actual_producers := Some ps, sn_state := ''completed'',
         sn_sealed_at := Some now\<rparr> else r) xs)
     = Some (q\<lparr>sn_canonical_graph_hash := Some h, sn_actual_producers := Some ps, sn_state := ''completed'', sn_sealed_at := Some now\<rparr>)" for xs
    by (induction xs) (auto split: if_splits)
  then show ?thesis using assms by (simp add: find_snapshot_def set_completed_def)
qed

lemma valid_graph_fields:
  "valid_graph U H (q\<lparr>sn_canonical_graph_hash := x, sn_actual_producers := y, sn_state := z, sn_sealed_at := w\<rparr>) F
     = valid_graph U H q F"
  by (simp add: valid_graph_def valid_stored_evidence_def valid_observations_def valid_edges_def valid_assertions_def
      valid_diagnostics_def declared_producer_def)

lemma compute_hash_fields:
  "compute_hash U H (q\<lparr>sn_canonical_graph_hash := x, sn_actual_producers := y, sn_state := z, sn_sealed_at := w\<rparr>) F
     = compute_hash U H q F"
  by (simp add: compute_hash_def)


lemma loaded_settled:
  assumes "distinct (map row_id xs)"
  shows "loaded row_id snapshot_of sid xs xs = filter (\<lambda>r. snapshot_of r = sid) xs"
proof -
  have "find (\<lambda>m. row_id m = row_id r) xs = Some r" if r: "r \<in> set xs" for r
  proof -
    have "find (\<lambda>m. row_id m = row_id r) xs \<noteq> None" using r by (auto simp: find_None_iff)
    then obtain m where m: "find (\<lambda>m. row_id m = row_id r) xs = Some m" by blast
    then have "m \<in> set xs" "row_id m = row_id r" by (auto simp: find_Some_iff)
    then show ?thesis using m r assms by (metis distinct_map inj_onD)
  qed
  then show ?thesis unfolding loaded_def by (intro map_idI) simp
qed

lemma load_settled: "settled s \<Longrightarrow> load_facts sid s = facts_in sid (se_mem s)"
  by (auto simp: settled_def load_facts_def facts_in_def Let_def constraints_def uq_ri_nodes_def uq_ri_edges_def
      uq_ri_assertions_def uq_ri_observations_def uq_ri_evidence_def uq_ri_derivations_def uq_ri_diagnostics_def
      unique_index_def loaded_settled)

text \<open>A snapshot that can be sealed: the root node with its evidence.\<close>

definition sample_digest :: digest where
  "sample_digest _ = replicate 64 (CHR ''0'')"

definition sample_evidence_row :: ri_evidence where
  "sample_evidence_row = \<lparr> ee_id = 1, ee_snapshot_id = ''b'', ee_node_ref = Some 1, ee_edge_ref = None, ee_observation_ref = None,
     ee_path = ''a'', ee_start_line = 1, ee_end_line = 1, ee_logical_line_count = 1, ee_granularity = ''file'',
     ee_extractor = ''p'', ee_extractor_version = ''1'' \<rparr>"

definition sealable_db :: db where
  "sealable_db = empty_db\<lparr>db_repositories := db_repositories sample_db,
     db_snapshots := [sample_snapshot ''b'' ''building''], db_nodes := [sample_node_row], db_evidence := [sample_evidence_row]\<rparr>"

lemma constraints_sealable_db: "constraints sealable_db"
  by code_simp

lemma sealable_hash:
  "seal_hash ascii_unicode sample_digest (sample_snapshot ''b'' ''building'') (facts_in ''b'' sealable_db) = Inr sample_sha"
proof -
  have "validate ascii_unicode sample_digest (sample_snapshot ''b'' ''building'') (facts_in ''b'' sealable_db) = Inr ()"
    by code_simp
  moreover have "compute_hash ascii_unicode sample_digest (sample_snapshot ''b'' ''building'') (facts_in ''b'' sealable_db) = Inr sample_sha"
    by code_simp
  ultimately show ?thesis by (simp add: seal_hash_Inr)
qed

text \<open>The last step of a seal, once the hash is there.\<close>

lemma seal_commits:
  assumes q: "find_snapshot (se_mem s) sid = Some q" "sn_state q = ''building''"
    and h: "seal_hash U H q (load_facts sid s) = Inr h"
    and m: "m = set_completed sid h (observed_producers (load_facts sid s)) now (se_mem s)"
    and g: "guard_completed_snapshots (s\<lparr>se_mem := m, se_allowed := List.insert (sid, ''building'', ''completed'') (se_allowed s)\<rparr>) = Inr ()"
    and c: "constraints m"
  shows "\<exists>r s'. seal U H now sid s = (Inr r, s')"
proof -
  let ?s = "s\<lparr>se_mem := m, se_allowed := List.insert (sid, ''building'', ''completed'') (se_allowed s)\<rparr>"
  have "commit ?s = (Inr (), ?s\<lparr>se_committed := m, se_flushed := m\<rparr>)"
    using g c by (simp add: commit_Inr)
  then have "\<exists>s'. commit_transition sid ''building'' ''completed'' (s\<lparr>se_mem := m\<rparr>) = (Inr (), s') \<and> se_mem s' = m"
    by (simp add: commit_transition_def Let_def)
  then obtain s' where ct: "commit_transition sid ''building'' ''completed'' (s\<lparr>se_mem := m\<rparr>) = (Inr (), s')" "se_mem s' = m"
    by blast
  moreover have "require_building sid s = (Inr q, s)" using q by (simp add: require_building_Inr)
  moreover obtain r where "find_snapshot m sid = Some r" using set_completed_row [OF q(1)] m by blast
  ultimately show ?thesis
    using h m by (auto simp: seal_def bindS_def getS_def edit_def the_snapshot_def)
qed

lemma sealable_seals: "\<exists>r s'. seal ascii_unicode sample_digest 7 ''b'' (new_session sealable_db) = (Inr r, s')"
proof (rule seal_commits)
  let ?s = "new_session sealable_db" and ?q = "sample_snapshot ''b'' ''building''"
  let ?m = "set_completed ''b'' sample_sha (observed_producers (load_facts ''b'' ?s)) 7 (se_mem ?s)"
  show "find_snapshot (se_mem ?s) ''b'' = Some ?q" "sn_state ?q = ''building''"
    by (simp_all add: find_snapshot_def new_session_def sealable_db_def sample_snapshot_def)
  have "load_facts ''b'' ?s = facts_in ''b'' sealable_db"
    using load_settled [OF settled_new [OF constraints_sealable_db]] by (simp add: new_session_def)
  then show "seal_hash ascii_unicode sample_digest ?q (load_facts ''b'' ?s) = Inr sample_sha"
    using sealable_hash by simp
  show "?m = ?m" by simp
  show "guard_completed_snapshots (?s\<lparr>se_mem := ?m,
      se_allowed := List.insert (''b'', ''building'', ''completed'') (se_allowed ?s)\<rparr>) = Inr ()" by code_simp
  show "constraints ?m" by code_simp
qed


text \<open>
  Only flushed rows are validated, but the commit of the seal also writes rows that are still
  pending: an object added to the session and not flushed before the seal ends up in the completed
  snapshot unseen. Here a node without evidence is sealed in.
\<close>

theorem seal_misses_pending_rows:
  "\<exists>s r s'. se_flushed s = sealable_db \<and> seal ascii_unicode sample_digest 7 ''b'' s = (Inr r, s')
     \<and> sn_state r = ''completed'' \<and> \<not> valid_nodes ascii_unicode (facts_in ''b'' (se_committed s'))"
proof -
  let ?n = "sample_node_row\<lparr>nd_id := 2, nd_stable_key := ''file:x'', nd_node_kind := ''file''\<rparr>"
  let ?s = "(new_session sealable_db)\<lparr>se_mem := sealable_db\<lparr>db_nodes := [sample_node_row, ?n]\<rparr>\<rparr>"
  let ?m = "set_completed ''b'' sample_sha (observed_producers (load_facts ''b'' ?s)) 7 (se_mem ?s)"
  have load: "load_facts ''b'' ?s = facts_in ''b'' sealable_db" by code_simp
  obtain r s' where r: "seal ascii_unicode sample_digest 7 ''b'' ?s = (Inr r, s')"
  proof -
    have "\<exists>r s'. seal ascii_unicode sample_digest 7 ''b'' ?s = (Inr r, s')"
    proof (rule seal_commits)
      show "find_snapshot (se_mem ?s) ''b'' = Some (sample_snapshot ''b'' ''building'')" "sn_state (sample_snapshot ''b'' ''building'') = ''building''"
        by (simp_all add: find_snapshot_def new_session_def sealable_db_def sample_snapshot_def)
      show "seal_hash ascii_unicode sample_digest (sample_snapshot ''b'' ''building'') (load_facts ''b'' ?s) = Inr sample_sha"
        unfolding load by (rule sealable_hash)
      show "?m = ?m" by simp
      show "guard_completed_snapshots (?s\<lparr>se_mem := ?m,
          se_allowed := List.insert (''b'', ''building'', ''completed'') (se_allowed ?s)\<rparr>) = Inr ()" by code_simp
      show "constraints ?m" by code_simp
    qed
    then show thesis using that by blast
  qed
  from seal_Inr [OF r] obtain q h where q: "find_snapshot (se_mem ?s) ''b'' = Some q"
    and m: "se_mem s' = set_completed ''b'' h (observed_producers (load_facts ''b'' ?s)) 7 (se_mem ?s)"
    and com: "se_committed s' = se_mem s'" and fr: "find_snapshot (se_mem s') ''b'' = Some r" by metis
  have "sn_state r = ''completed''" using fr set_completed_row [OF q] m by auto
  moreover have "fc_nodes (facts_in ''b'' (se_committed s')) = [sample_node_row, ?n]"
    "fc_evidence (facts_in ''b'' (se_committed s')) = [sample_evidence_row]"
    unfolding com m facts_in_set_completed
    by (simp_all add: facts_in_def sealable_db_def sample_node_row_def sample_evidence_row_def)
  then have "\<not> valid_nodes ascii_unicode (facts_in ''b'' (se_committed s'))"
    by (auto simp: valid_nodes_def sample_node_row_def sample_evidence_row_def)
  moreover have "se_flushed ?s = sealable_db" by (simp add: new_session_def)
  ultimately show ?thesis using r by blast
qed

section \<open>Completed snapshots for ever\<close>

lemma find_in_set: "find P xs = Some y \<Longrightarrow> y \<in> set xs"
  by (auto simp: find_Some_iff)

lemma set_reverted: "set (reverted row_id stored memory) \<subseteq> set stored \<union> set memory"
  by (auto simp: reverted_def dest: find_in_set split: option.splits)

lemma facts_of_discard:
  "set (facts_of (se_mem (snd (discard_tampered_facts s)))) \<subseteq> set (facts_of (se_flushed s)) \<union> set (facts_of (se_mem s))"
  unfolding facts_of_def discard_tampered_facts_def Let_def
  by (auto dest!: subsetD [OF set_reverted])

lemma keeps_discard [keeps_intros]: "keeps (sound d0) discard_tampered_facts"
proof (rule keepsI)
  fix s assume s: "sound d0 s"
  let ?m = "se_mem (snd (discard_tampered_facts s))"
  have same: "no_moves (se_flushed s) (se_flushed s)" using s by (simp add: sound_def no_moves_self)
  have "no_moves (se_flushed s) ?m"
    using s same facts_of_discard [of s] unfolding sound_def no_moves_def moved_away_def by blast
  then show "sound d0 (snd (discard_tampered_facts s))"
    using s by (simp add: sound_def discard_tampered_facts_def Let_def)
qed

lemma facts_of_set_completed [simp]: "facts_of (set_completed sid h ps now d) = facts_of d"
  by (simp add: facts_of_def set_completed_def)

lemma keeps_fail_seal [keeps_intros]: "keeps (sound d0) (fail_seal sid code)"
  unfolding fail_seal_def by (intro keeps_intros) simp_all

lemma keeps_snd: "keeps P m \<Longrightarrow> P s \<Longrightarrow> P (snd (m s))"
  by (simp add: keeps_def)

lemma keeps_commit_then:
  assumes "keeps P m" and "\<And>s. P s \<Longrightarrow> P (snd (f s))" and "\<And>s. P s \<Longrightarrow> P (snd (g s))"
  shows "keeps P (\<lambda>s. case m s of (Inl IntegrityError, s') \<Rightarrow> f s' | (Inl e, s') \<Rightarrow> (Inl e, s') | (Inr _, s') \<Rightarrow> g s')"
  using assms by (fastforce simp: keeps_def split: prod.splits sum.splits store_error.splits)

lemma keeps_seal [keeps_intros]: "keeps (sound d0) (seal U H now sid)"
proof -
  have "keeps (sound d0) (\<lambda>s. case commit_transition sid ''building'' ''completed'' s of
      (Inl IntegrityError, s') \<Rightarrow> bindS (find_completed U H a b c d e) (\<lambda>x. raiseS (SnapshotAlreadySealedError x)) (rollback s')
    | (Inl e, s') \<Rightarrow> (Inl e, s') | (Inr _, s') \<Rightarrow> the_snapshot sid s')" for a b c d e
  proof (rule keeps_commit_then)
    show "sound d0 (snd (bindS (find_completed U H a b c d e) (\<lambda>x. raiseS (SnapshotAlreadySealedError x)) (rollback s)))"
      if "sound d0 s" for s
      by (rule keeps_snd, intro keeps_intros, rule sound_rollback, rule that)
    show "sound d0 (snd (the_snapshot sid s))" if "sound d0 s" for s
      by (rule keeps_snd, intro keeps_intros, rule that)
  qed (intro keeps_intros, simp)
  then show ?thesis
    unfolding seal_def
    by (auto intro!: keeps_intros split: sum.splits prod.splits option.splits)
qed

text \<open>
  The steps of a session: every operation of the store, whether it succeeds or raises; the writes
  of other code to the objects in memory, as long as no stored fact is pointed at another
  snapshot; flush, commit and rollback.
\<close>

inductive store_step :: "unicode \<Rightarrow> digest \<Rightarrow> session \<Rightarrow> session \<Rightarrow> bool" for U H where
  orm_write: "no_moves (se_flushed s) d \<Longrightarrow> store_step U H s (s\<lparr>se_mem := d\<rparr>)"
| orm_flush: "store_step U H s (snd (flush s))"
| orm_commit: "store_step U H s (snd (commit s))"
| orm_rollback: "store_step U H s (rollback s)"
| op_get_or_reuse: "store_step U H s (snd (get_or_reuse U H u rid rvn ps sv c h sk pk s))"
| op_add_node: "store_step U H s (snd (add_node U sid k key n l p es tc ss os s))"
| op_add_observation: "store_step U H s (snd (add_observation U H sid k sk key e r n s))"
| op_add_edge: "store_step U H s (snd (add_edge U H sid sk skey p ok okey pr pv es ds tc s))"
| op_add_assertion: "store_step U H s (snd (add_assertion U H sid sk key p v pr pv ds tc ss os s))"
| op_add_diagnostic: "store_step U H s (snd (add_diagnostic U sid c k sv m pr p sp su ob de ss os s))"
| op_mark_failed: "store_step U H s (snd (mark_failed sid code s))"
| op_seal: "store_step U H s (snd (seal U H now sid s))"
| op_purge: "store_step U H s (snd (purge_snapshot_facts sid s))"
| op_sweep: "store_step U H s (snd (purge_orphaned_failed_facts n s))"

lemma store_step_sound:
  assumes "store_step U H s s'" and "sound d0 s" shows "sound d0 s'"
  using assms
proof (cases rule: store_step.cases)
  case (orm_write d)
  then show ?thesis using assms(2) by (simp add: sound_def)
next
  case orm_rollback
  then show ?thesis using assms(2) by (simp add: sound_rollback)
qed (use assms(2) in \<open>auto intro!: keeps_snd keeps_intros\<close>)

lemma store_run_sound: "(store_step U H)\<^sup>*\<^sup>* s s' \<Longrightarrow> sound d0 s \<Longrightarrow> sound d0 s'"
  by (induction rule: rtranclp_induct) (auto intro: store_step_sound)


lemma run_of_two: "store_step U H s s1 \<Longrightarrow> store_step U H s1 s2 \<Longrightarrow> (store_step U H)\<^sup>*\<^sup>* s s2"
  by auto


text \<open>
  However the store is used, two committed completed snapshots never share a semantic
  identity (repository, revision, schema version, producer set and configuration).
\<close>

theorem one_completed_per_identity:
  assumes "(store_step U H)\<^sup>*\<^sup>* (new_session d) s" and "constraints d"
    and "completed_in (se_committed s) q" and "completed_in (se_committed s) r" and "snapshot_identity q = snapshot_identity r"
  shows "q = r"
proof -
  have "sound d s" using store_run_sound [OF assms(1) sound_new [OF assms(2)]] .
  then have "distinct (map snapshot_identity (filter (\<lambda>s. sn_state s = ''completed'') (db_snapshots (se_committed s))))"
    by (simp add: sound_def constraints_def uq_ri_snapshots_def unique_index_def)
  then have "inj_on snapshot_identity {x \<in> set (db_snapshots (se_committed s)). sn_state x = ''completed''}"
    by (simp add: distinct_map)
  then show ?thesis using assms(3-5) by (auto simp: completed_in_def dest: inj_onD)
qed

theorem one_completed_per_identity_witness:
  "completed_in (se_committed (rollback (new_session sample_db))) (sample_snapshot ''c'' ''completed'')
   \<and> \<not> completed_in (se_committed (rollback (new_session sample_db))) ((sample_snapshot ''c'' ''completed'')\<lparr>sn_sealed_at := Some 2\<rparr>)"
proof -
  let ?r = "sample_snapshot ''c'' ''completed''" and ?s = "rollback (new_session sample_db)"
  have run: "(store_step ascii_unicode sample_digest)\<^sup>*\<^sup>* (new_session sample_db) ?s"
    by (rule r_into_rtranclp, rule orm_rollback)
  have r: "completed_in (se_committed ?s) ?r"
    by (simp add: completed_in_def new_session_def rollback_def sample_db_def) (simp add: sample_snapshot_def)
  have "?r \<noteq> ?r\<lparr>sn_sealed_at := Some 2\<rparr>" "snapshot_identity ?r = snapshot_identity (?r\<lparr>sn_sealed_at := Some 2\<rparr>)"
    by (simp_all add: sample_snapshot_def snapshot_identity_def)
  then show ?thesis using one_completed_per_identity [OF run constraints_sample_db r] r by blast
qed

subsection \<open>Rejected seals\<close>

lemma settled_row:
  assumes "constraints d" and "find_snapshot d sid = Some q" and "r \<in> set (db_snapshots d)" and "sn_snapshot_id r = sid"
  shows "r = q"
  using find_snapshot_row [OF assms(1,3)] assms(2,4) by simp

lemma set_failed_tables [simp]:
  "db_repositories (set_failed sid code d) = db_repositories d" "db_nodes (set_failed sid code d) = db_nodes d"
  "db_edges (set_failed sid code d) = db_edges d" "db_assertions (set_failed sid code d) = db_assertions d"
  "db_observations (set_failed sid code d) = db_observations d" "db_evidence (set_failed sid code d) = db_evidence d"
  "db_derivations (set_failed sid code d) = db_derivations d" "db_diagnostics (set_failed sid code d) = db_diagnostics d"
  by (simp_all add: set_failed_def)

lemma set_failed_ids: "map sn_snapshot_id (db_snapshots (set_failed sid code d)) = map sn_snapshot_id (db_snapshots d)"
  by (simp add: set_failed_def)

lemma constraints_set_failed:
  assumes c: "constraints d" and q: "find_snapshot d sid = Some q" "sn_state q = ''building''"
  shows "constraints (set_failed sid code d)"
proof -
  let ?f = "\<lambda>r. if sn_snapshot_id r = sid then r\<lparr>sn_state := ''failed'', sn_failure_code := code\<rparr> else r"
  have snaps: "db_snapshots (set_failed sid code d) = map ?f (db_snapshots d)" by (simp add: set_failed_def)
  have row: "r = q" if "r \<in> set (db_snapshots d)" "sn_snapshot_id r = sid" for r
    using settled_row [OF c q(1) that] .
  have ck: "list_all ck_ri_snapshots (db_snapshots d)" and uq: "uq_ri_snapshots (db_snapshots d)" and fk: "foreign_keys d"
    using c by (simp_all add: constraints_def)
  have "ck_ri_snapshots (?f r)" if r: "r \<in> set (db_snapshots d)" for r
  proof -
    have "ck_ri_snapshots r" using ck r by (simp add: list_all_iff)
    then show ?thesis using row [OF r] q(2) by (auto simp: ck_ri_snapshots_def)
  qed
  then have ck': "list_all ck_ri_snapshots (map ?f (db_snapshots d))" unfolding list_all_iff set_map by blast
  have same: "filter (\<lambda>s. sn_state s = ''completed'') (map ?f (db_snapshots d)) = filter (\<lambda>s. sn_state s = ''completed'') (db_snapshots d)"
    (is "filter ?P _ = _")
  proof -
    have "filter ?P (map ?f xs) = filter ?P xs" if "set xs \<subseteq> set (db_snapshots d)" for xs
      using that row q(2) by (induction xs) auto
    then show ?thesis by simp
  qed
  have "map sn_snapshot_id (map ?f (db_snapshots d)) = map sn_snapshot_id (db_snapshots d)"
    using set_failed_ids [of sid code d] by (simp add: set_failed_def)
  then have uq': "uq_ri_snapshots (map ?f (db_snapshots d))"
    using uq unfolding uq_ri_snapshots_def unique_index_def same by (simp del: map_map)
  have "foreign_keys (set_failed sid code d)"
    using fk unfolding foreign_keys_def Let_def snaps
    by (auto simp: fk_def list_all_iff comp_def)
  then show ?thesis using c ck' uq' unfolding constraints_def snaps by simp
qed

lemma reverted_same: "distinct (map row_id xs) \<Longrightarrow> reverted row_id xs xs = xs"
  using loaded_settled [of row_id xs "\<lambda>_. []" "[]"] by (simp add: loaded_def reverted_def)

lemma discard_settled: "settled s \<Longrightarrow> discard_tampered_facts s = (Inr (), s)"
  by (auto simp: settled_def discard_tampered_facts_def Let_def constraints_def uq_ri_nodes_def uq_ri_edges_def
      uq_ri_assertions_def uq_ri_observations_def uq_ri_evidence_def uq_ri_derivations_def uq_ri_diagnostics_def
      unique_index_def reverted_same)

lemma guard_set_failed:
  assumes s: "settled s" and q: "find_snapshot (se_mem s) sid = Some q" "sn_state q = ''building''"
    and t: "(sid, ''building'', ''failed'') \<in> set ts"
  shows "guard_completed_snapshots (s\<lparr>se_mem := set_failed sid code (se_mem s), se_allowed := ts\<rparr>) = Inr ()"
proof -
  let ?s = "s\<lparr>se_mem := set_failed sid code (se_mem s), se_allowed := ts\<rparr>"
  have m: "se_flushed s = se_mem s" using s by (simp add: settled_def)
  have "guard_snapshot_write ?s r = None" if "r \<in> set (written_snapshots ?s)" for r
  proof -
    have "sn_snapshot_id r = sid \<and> sn_state r = ''failed''"
      using that by (auto simp: written_snapshots_def set_failed_def m split: if_splits)
    then show ?thesis using q t by (simp add: guard_snapshot_write_def persisted_state_def m)
  qed
  moreover have "written_facts ?s = []" "deleted_facts ?s = []"
    by (auto simp: written_facts_def deleted_facts_def m filter_empty_conv)
  moreover have "sn_snapshot_id ` set (db_snapshots (set_failed sid code (se_mem s))) = sn_snapshot_id ` set (db_snapshots (se_mem s))"
    using set_failed_ids by (metis list.set_map)
  then have "deleted_snapshots ?s = []" by (simp add: deleted_snapshots_def m filter_empty_conv)
  ultimately show ?thesis by (simp add: guard_Inr)
qed

lemma find_set_failed:
  assumes "find_snapshot d sid = Some q"
  shows "find_snapshot (set_failed sid code d) sid = Some (q\<lparr>sn_state := ''failed'', sn_failure_code := code\<rparr>)"
proof -
  have "find (\<lambda>s. sn_snapshot_id s = sid) xs = Some q \<Longrightarrow>
     find (\<lambda>s. sn_snapshot_id s = sid) (map (\<lambda>r. if sn_snapshot_id r = sid
       then r\<lparr>sn_state := ''failed'', sn_failure_code := code\<rparr> else r) xs)
     = Some (q\<lparr>sn_state := ''failed'', sn_failure_code := code\<rparr>)" for xs
    by (induction xs) (auto split: if_splits)
  then show ?thesis using assms by (simp add: find_snapshot_def set_failed_def)
qed

lemma fail_seal_settled:
  assumes s: "settled s" and q: "find_snapshot (se_mem s) sid = Some q" "sn_state q = ''building''"
  shows "\<exists>s'. fail_seal sid code s = (Inr (), s')
    \<and> se_committed s' = set_failed sid (failure_code_or_default code) (se_mem s)"
proof -
  let ?m = "set_failed sid (failure_code_or_default code) (se_mem s)"
  let ?t = "List.insert (sid, ''building'', ''failed'') (se_allowed s)"
  have "constraints (se_mem s)" using s by (simp add: settled_def)
  then have "constraints ?m" by (rule constraints_set_failed [OF _ q])
  then have "commit (s\<lparr>se_mem := ?m, se_allowed := ?t\<rparr>) = (Inr (), s\<lparr>se_mem := ?m, se_allowed := ?t, se_committed := ?m, se_flushed := ?m\<rparr>)"
    using guard_set_failed [OF s q, of ?t] by (simp add: commit_Inr)
  then show ?thesis
    by (simp add: fail_seal_def bindS_def discard_settled [OF s] edit_def commit_transition_def Let_def)
qed

text \<open>
  C7: A rejected seal ends in the failed state: when the validation or the canonicalization of a
  quiet session's building snapshot fails with an error the code catches, the seal raises a seal
  error, the row is committed as failed with a failure code, and the facts are kept as evidence.
\<close>

theorem rejected_seal_fails_snapshot:
  assumes s: "settled s" and q: "find_snapshot (se_mem s) sid = Some q" "sn_state q = ''building''"
    and bad: "seal_hash U H q (facts_in sid (se_mem s)) = Inl (code, e)" and caught: "caught_error e = Some e'"
  shows "\<exists>s'. seal U H now sid s = (Inl e', s')
    \<and> se_committed s' = set_failed sid (failure_code_or_default (if code = None then sn_failure_code q else code)) (se_mem s)
    \<and> (\<exists>r. find_snapshot (se_committed s') sid = Some r \<and> sn_state r = ''failed'' \<and> sn_failure_code r \<noteq> None)
    \<and> facts_in sid (se_committed s') = facts_in sid (se_mem s)"
proof -
  let ?c = "if code = None then sn_failure_code q else code"
  obtain s' where f: "fail_seal sid ?c s = (Inr (), s')" and com: "se_committed s' = set_failed sid (failure_code_or_default ?c) (se_mem s)"
    using fail_seal_settled [OF s q] by blast
  have "require_building sid s = (Inr q, s)" using q by (simp add: require_building_Inr)
  then have "seal U H now sid s = (Inl e', s')"
    using bad caught f by (simp add: seal_def bindS_def getS_def load_settled [OF s] raiseS_def)
  moreover have "facts_in sid (set_failed sid (failure_code_or_default ?c) (se_mem s)) = facts_in sid (se_mem s)"
    by (simp add: facts_in_def)
  moreover have "failure_code_or_default ?c \<noteq> None"
    by (auto simp: failure_code_or_default_def split: option.splits list.splits)
  ultimately show ?thesis using com find_set_failed [OF q(1)] by auto
qed

theorem rejected_seal_fails_snapshot_witness:
  "\<exists>e s'. seal ascii_unicode sample_digest 7 ''b'' (new_session sample_build) = (Inl (SnapshotSealError e), s')
     \<and> find_snapshot (se_committed s') ''b'' \<noteq> None"
proof -
  let ?s = "new_session sample_build" and ?q = "sample_snapshot ''b'' ''building''"
  have q: "find_snapshot (se_mem ?s) ''b'' = Some ?q" "sn_state ?q = ''building''"
    by (simp_all add: find_snapshot_def new_session_def sample_build_def sample_db_def sample_snapshot_def)
  have "seal_hash ascii_unicode sample_digest ?q (facts_in ''b'' (se_mem ?s))
      = Inl (None, SnapshotSealError ''observed node has no evidence'')" by code_simp
  moreover have "caught_error (SnapshotSealError m) = Some (SnapshotSealError m)" for m by (simp add: caught_error_def)
  ultimately show ?thesis
    using rejected_seal_fails_snapshot [OF settled_new [OF constraints_sample_build] q] by blast
qed

end
