(* ===== verification/Job_Worker.thy ===== *)
theory Job_Worker
  imports Job_Service Snapshot_Seal
begin

text \<open>
  Execution of a claimed job and the sweep of expired ones (\<^verbatim>\<open>app/workers/analysis_worker.py\<close>): the ownership-guarded transitions of the job row, their effect on
  the repository row and on the open snapshot, and the stage pipeline with its exception handlers.

  One reading of the clock serves a whole handler. What a stage does (opening the snapshot, extraction, sealing) is an argument of the pipeline: an action on the
  session that may raise. Opening and sealing are operations of the store; extraction is not part of this theory. The refinement of
  \<^verbatim>\<open>repo_metadata\<close> after completion (best effort, never fails the job) is left out with that column.
\<close>

section \<open>Model\<close>

subsection \<open>Exceptions\<close>

definition tryS :: "('s, 'e, 'a) action \<Rightarrow> ('e \<Rightarrow> ('s, 'e, 'a) action) \<Rightarrow> ('s, 'e, 'a) action" where
  "tryS m h s = (case m s of (Inl e, s') \<Rightarrow> h e s' | (Inr x, s') \<Rightarrow> (Inr x, s'))"

subsection \<open>The session\<close>

text \<open>An operation of the store that commits: it commits the open transaction of the job tables with it.\<close>

definition store_commits :: "'a store_action \<Rightarrow> 'a work_action" where
  "store_commits m s =
     (if \<not> jobs_ok (js_view s) then (Inl JobIntegrityError, snd (w_rollback s))
      else case m (ws_store s) of
          (Inl e, t) \<Rightarrow> (Inl (StoreFailure e), s\<lparr>ws_store := t\<rparr>)
        | (Inr x, t) \<Rightarrow> (Inr x, s\<lparr>js_committed := js_view s, ws_store := t\<rparr>))"

definition get_snapshot :: "string option \<Rightarrow> ri_snapshot option work_action" where
  "get_snapshot sid = getS (\<lambda>s. case sid of None \<Rightarrow> None | Some i \<Rightarrow> find_snapshot (se_mem (ws_store s)) i)"

definition job_row :: "string \<Rightarrow> analysis_job option work_action" where
  "job_row jid = getS (\<lambda>s. get_job (jobs s) jid)"

subsection \<open>Ownership\<close>

text \<open>\<^verbatim>\<open>_update_owned_job\<close>\<close>

definition update_owned_job :: "string \<Rightarrow> instant \<Rightarrow> bool \<Rightarrow> string \<Rightarrow> job_value list \<Rightarrow> unit work_action" where
  "update_owned_job wid now req jid values =
     bindS (update_owned now jid wid values req) (\<lambda>held.
       if held then returnS () else bindS w_rollback (\<lambda>_. raiseS (LeaseLostError jid)))"

definition lock_owned_job :: "string \<Rightarrow> instant \<Rightarrow> bool \<Rightarrow> string \<Rightarrow> unit work_action" where
  "lock_owned_job wid now req jid =
     tryS (update_owned_job wid now req jid [UpdatedAtUnchanged]) (\<lambda>e.
       if e = LeaseLostError jid \<and> req
       then bindS (job_row jid) (\<lambda>current.
         case current of
           Some j \<Rightarrow> if aj_status j = ''running'' \<and> aj_worker_id j = Some wid \<and> aj_cancel_requested j
             then raiseS (CancellationObserved jid) else raiseS e
         | None \<Rightarrow> raiseS e)
       else raiseS e)"

definition backoff :: "int \<Rightarrow> int" where
  "backoff attempt = min (2 ^ nat attempt) 60"

definition max_error_message :: nat where
  "max_error_message = 1024"

text \<open>\<^verbatim>\<open>(str(exc) or exc.__class__.__name__)[:1024]\<close>: the slice counts code points, a code point starts at a byte that is no continuation byte. An
  exception is its class name and its text.\<close>

definition continuation_byte :: "char \<Rightarrow> bool" where
  "continuation_byte c \<longleftrightarrow> (let n = (of_char c :: int) in 128 \<le> n \<and> n < 192)"

fun take_code_points :: "nat \<Rightarrow> string \<Rightarrow> string" where
  "take_code_points n [] = []"
| "take_code_points n (c # s) =
     (if continuation_byte c then c # take_code_points n s
      else if n = 0 then [] else c # take_code_points (n - 1) s)"

type_synonym exception = "string \<times> string"

definition error_message :: "exception \<Rightarrow> string" where
  "error_message exc = take_code_points max_error_message (if snd exc \<noteq> [] then snd exc else fst exc)"

subsection \<open>Terminal transitions\<close>

definition completed_values :: "instant \<Rightarrow> instant \<Rightarrow> job_value list" where
  "completed_values now completed_at = [Status ''completed'', Stage (Some ''completed''), Progress 100, CancelRequested False, WorkerId None,
     LeaseExpiresAt None, NextAttemptAt None, ErrorCode None, ErrorMessage None, CompletedAt (Some completed_at), UpdatedAt now]"

definition failed_record :: "string \<Rightarrow> repository_record \<Rightarrow> repository_record" where
  "failed_record message r = r\<lparr>rr_status := ''error'', rr_analysis_stage := None, rr_analysis_progress := 0, rr_error_message := Some message\<rparr>"

text \<open>The row of \<^verbatim>\<open>ctx.record\<close>: the repository of the job.\<close>

definition edit_job_record :: "instant \<Rightarrow> string \<Rightarrow> (repository_record \<Rightarrow> repository_record) \<Rightarrow> unit work_action" where
  "edit_job_record now jid f = bindS (job_row jid) (\<lambda>j. case j of
     None \<Rightarrow> returnS () | Some j \<Rightarrow> edit_record now (aj_repository_id j) f)"

text \<open>\<^verbatim>\<open>_complete_sealed_snapshot\<close>, and the same assignments in \<^verbatim>\<open>_retry_or_fail\<close> and \<^verbatim>\<open>_reconcile_stale\<close>.\<close>

definition complete_sealed_snapshot :: "string \<Rightarrow> instant \<Rightarrow> string \<Rightarrow> ri_snapshot \<Rightarrow> unit work_action" where
  "complete_sealed_snapshot wid now jid snapshot =
     (let completed_at = sealed_or now snapshot in
      bindS (update_owned_job wid now False jid (completed_values now completed_at)) (\<lambda>_.
      bindS (edit_job_record now jid (complete_repository completed_at)) (\<lambda>_. w_commit)))"

definition fail_open_snapshot :: "bool \<Rightarrow> string \<Rightarrow> string \<Rightarrow> unit work_action" where
  "fail_open_snapshot reused jid code =
     bindS (job_row jid) (\<lambda>j.
       if reused \<or> j = None \<or> aj_snapshot_id (the j) = None then returnS ()
       else bindS (get_snapshot (aj_snapshot_id (the j))) (\<lambda>snapshot.
         case snapshot of
           Some sn \<Rightarrow> if sn_state sn = ''building''
             then bindS (store_commits (mark_failed (sn_snapshot_id sn) (Some code))) (\<lambda>_. returnS ()) else returnS ()
         | None \<Rightarrow> returnS ()))"

definition cancelled_values :: "instant \<Rightarrow> job_value list" where
  "cancelled_values now = [Status ''cancelled'', WorkerId None, LeaseExpiresAt None, NextAttemptAt None, CompletedAt (Some now), UpdatedAt now]"

definition cancel_columns :: "repository_record \<Rightarrow> repository_record" where
  "cancel_columns r = r\<lparr>rr_status := ''cancelled'', rr_analysis_stage := None, rr_analysis_progress := 0, rr_error_message := None,
     rr_analysed_at := None\<rparr>"

definition sealed_snapshot_of :: "string \<Rightarrow> ri_snapshot option work_action" where
  "sealed_snapshot_of jid = bindS (job_row jid) (\<lambda>j.
     bindS (get_snapshot (Option.bind j aj_snapshot_id)) (\<lambda>snapshot.
       returnS (case snapshot of Some sn \<Rightarrow> if sn_state sn = ''completed'' then Some sn else None | None \<Rightarrow> None)))"

text \<open>\<^verbatim>\<open>_cancel\<close>\<close>

definition cancel_owned :: "string \<Rightarrow> instant \<Rightarrow> bool \<Rightarrow> string \<Rightarrow> unit work_action" where
  "cancel_owned wid now reused jid =
     bindS (lock_owned_job wid now False jid) (\<lambda>_.
     bindS (sealed_snapshot_of jid) (\<lambda>snapshot.
       case snapshot of
         Some sn \<Rightarrow> complete_sealed_snapshot wid now jid sn
       | None \<Rightarrow>
           bindS (fail_open_snapshot reused jid ''RI-JOB-CANCELLED'') (\<lambda>_.
           bindS (update_owned_job wid now False jid (cancelled_values now)) (\<lambda>_.
           bindS (edit_job_record now jid cancel_columns) (\<lambda>_. w_commit)))))"

definition complete_values :: "instant \<Rightarrow> job_value list" where
  "complete_values now = [Status ''completed'', Stage (Some ''completed''), Progress 100, CancelRequested False, WorkerId None,
     LeaseExpiresAt None, ErrorCode None, ErrorMessage None, CompletedAt (Some now), UpdatedAt now]"

text \<open>\<^verbatim>\<open>_complete\<close>\<close>

definition complete :: "string \<Rightarrow> instant \<Rightarrow> bool \<Rightarrow> string \<Rightarrow> unit work_action" where
  "complete wid now reused jid =
     bindS (tryS (bindS (update_owned_job wid now True jid (complete_values now)) (\<lambda>_. returnS True)) (\<lambda>e.
       if e = LeaseLostError jid
       then bindS (job_row jid) (\<lambda>job.
         case job of
           Some j \<Rightarrow> if aj_status j = ''running'' \<and> aj_worker_id j = Some wid \<and> aj_cancel_requested j
             then bindS (cancel_owned wid now reused jid) (\<lambda>_. returnS False) else raiseS e
         | None \<Rightarrow> raiseS e)
       else raiseS e)) (\<lambda>written.
       if written then bindS (edit_job_record now jid (complete_repository now)) (\<lambda>_. w_commit) else returnS ())"

definition failed_values :: "instant \<Rightarrow> string \<Rightarrow> string \<Rightarrow> job_value list" where
  "failed_values now code message = [Status ''failed'', WorkerId None, LeaseExpiresAt None, NextAttemptAt None,
     ErrorCode (Some code), ErrorMessage (Some message), CompletedAt (Some now), UpdatedAt now]"

definition requeued_values :: "instant \<Rightarrow> int \<Rightarrow> string \<Rightarrow> string \<Rightarrow> job_value list" where
  "requeued_values now attempt code message = [Status ''queued'', WorkerId None, LeaseExpiresAt None,
     NextAttemptAt (Some (now + seconds (backoff attempt))), ErrorCode (Some code), ErrorMessage (Some message), UpdatedAt now]"

text \<open>The common opening of the two failure handlers: roll back, reload, lock; a cancellation that was accepted meanwhile wins.\<close>

definition after_failure :: "string \<Rightarrow> instant \<Rightarrow> bool \<Rightarrow> string \<Rightarrow> (analysis_job \<Rightarrow> unit work_action) \<Rightarrow> unit work_action" where
  "after_failure wid now reused jid rest =
     bindS w_rollback (\<lambda>_.
     bindS (job_row jid) (\<lambda>job.
       case job of
         None \<Rightarrow> raiseS (LeaseLostError jid)
       | Some j \<Rightarrow>
           bindS (tryS (bindS (lock_owned_job wid now True jid) (\<lambda>_. returnS True)) (\<lambda>e.
             if e = CancellationObserved jid then bindS (cancel_owned wid now reused jid) (\<lambda>_. returnS False) else raiseS e)) (\<lambda>locked.
             if locked then rest j else returnS ())))"

text \<open>\<^verbatim>\<open>_retry_or_fail\<close>\<close>

definition retry_or_fail :: "string \<Rightarrow> instant \<Rightarrow> bool \<Rightarrow> string \<Rightarrow> exception \<Rightarrow> unit work_action" where
  "retry_or_fail wid now reused jid exc =
     after_failure wid now reused jid (\<lambda>job.
       bindS (sealed_snapshot_of jid) (\<lambda>snapshot.
         case snapshot of
           Some sn \<Rightarrow> complete_sealed_snapshot wid now jid sn
         | None \<Rightarrow>
             bindS (fail_open_snapshot reused jid ''RI-JOB-FAILED'') (\<lambda>_.
               if aj_attempt job \<ge> aj_max_attempts job
               then bindS (update_owned_job wid now False jid (failed_values now ''RI-JOB-FAILED'' (error_message exc))) (\<lambda>_.
                 bindS (edit_job_record now jid (failed_record ''Repository analysis failed.'')) (\<lambda>_. w_commit))
               else bindS (update_owned_job wid now False jid (requeued_values now (aj_attempt job) ''RI-JOB-FAILED'' (error_message exc))) (\<lambda>_. w_commit))))"

text \<open>\<^verbatim>\<open>_fail_resource_exceeded\<close>; the code is \<^verbatim>\<open>RESOURCE_EXCEEDED_CODE\<close>.\<close>

definition fail_resource_exceeded :: "string \<Rightarrow> instant \<Rightarrow> bool \<Rightarrow> string \<Rightarrow> exception \<Rightarrow> unit work_action" where
  "fail_resource_exceeded wid now reused jid exc =
     after_failure wid now reused jid (\<lambda>job.
       bindS (sealed_snapshot_of jid) (\<lambda>snapshot.
         case snapshot of
           Some sn \<Rightarrow> complete_sealed_snapshot wid now jid sn
         | None \<Rightarrow>
             bindS (fail_open_snapshot reused jid ''resource_exceeded'') (\<lambda>_.
             bindS (update_owned_job wid now False jid (failed_values now ''resource_exceeded'' (error_message exc))) (\<lambda>_.
             bindS (edit_job_record now jid (failed_record ''Repository analysis exceeded its resource budget.'')) (\<lambda>_. w_commit)))))"

definition checkpoint :: "control_plane \<Rightarrow> string \<Rightarrow> instant \<Rightarrow> string \<Rightarrow> string \<Rightarrow> int \<Rightarrow> unit work_action" where
  "checkpoint cp wid now jid stage progress =
     bindS (update_owned_job wid now False jid [Stage (Some stage), Progress progress, LeaseExpiresAt (Some (lease_until cp now)), UpdatedAt now])
       (\<lambda>_. w_commit)"

subsection \<open>Stale jobs\<close>

text \<open>\<^verbatim>\<open>_reconcile_stale\<close>: decisions rest on the row as the sweep read it.\<close>

definition reconcile_stale :: "control_plane \<Rightarrow> string \<Rightarrow> instant \<Rightarrow> analysis_job \<Rightarrow> bool work_action" where
  "reconcile_stale cp wid now job =
     (let jid = aj_id job in
      bindS (reclaim cp now job wid) (\<lambda>lease.
        if lease = None then returnS False
        else bindS (get_snapshot (aj_snapshot_id job)) (\<lambda>snapshot.
          if aj_cancel_requested job then bindS (cancel_owned wid now False jid) (\<lambda>_. returnS True)
          else if snapshot \<noteq> None \<and> sn_state (the snapshot) = ''completed''
          then bindS (complete_sealed_snapshot wid now jid (the snapshot)) (\<lambda>_. returnS True)
          else
            bindS (if snapshot \<noteq> None \<and> sn_state (the snapshot) = ''building''
                   then bindS (store_commits (mark_failed (sn_snapshot_id (the snapshot)) (Some ''RI-JOB-STALE''))) (\<lambda>_. returnS ())
                   else returnS ()) (\<lambda>_.
            bindS (if aj_attempt job < aj_max_attempts job
                   then bindS (update_owned_job wid now False jid
                       (requeued_values now (aj_attempt job) ''RI-JOB-STALE'' ''Analysis worker lease expired before the job completed.'')) (\<lambda>_.
                     edit_record now (aj_repository_id job) (\<lambda>r. r\<lparr>rr_status := ''analysing'', rr_analysis_stage := None,
                       rr_analysis_progress := 0, rr_error_message := None\<rparr>))
                   else bindS (update_owned_job wid now False jid
                       (failed_values now ''RI-JOB-STALE'' ''Analysis worker lease expired before the job completed.'')) (\<lambda>_.
                     edit_record now (aj_repository_id job)
                       (failed_record ''Repository analysis failed after its worker lease expired.''))) (\<lambda>_.
            bindS w_commit (\<lambda>_. returnS True))))))"

text \<open>\<^verbatim>\<open>sweep_stale\<close>: every listed row is read again; \<^verbatim>\<open>others\<close> acts before each.\<close>

fun sweep_each :: "control_plane \<Rightarrow> (work_session \<Rightarrow> work_session) \<Rightarrow> string \<Rightarrow> instant \<Rightarrow> string list \<Rightarrow> nat work_action" where
  "sweep_each cp others wid now [] = returnS 0"
| "sweep_each cp others wid now (jid # rest) =
     bindS (interfere others) (\<lambda>_.
     bindS (job_row jid) (\<lambda>job.
       case job of
         None \<Rightarrow> sweep_each cp others wid now rest
       | Some j \<Rightarrow>
           if aj_status j \<noteq> ''running'' \<or> aj_lease_expires_at j = None
              \<or> lease_expired (Aware (the (aj_lease_expires_at j)) 0) (Aware now 0) \<noteq> Some True
           then sweep_each cp others wid now rest
           else bindS (reconcile_stale cp wid now j) (\<lambda>reclaimed.
             bindS (sweep_each cp others wid now rest) (\<lambda>n. returnS (if reclaimed then n + 1 else n)))))"

definition sweep_stale :: "control_plane \<Rightarrow> (work_session \<Rightarrow> work_session) \<Rightarrow> nat \<Rightarrow> string \<Rightarrow> instant \<Rightarrow> nat work_action" where
  "sweep_stale cp others purge_limit wid now =
     bindS (store_commits (purge_orphaned_failed_facts purge_limit)) (\<lambda>_.
     bindS (expired_job_ids now) (\<lambda>stale_ids. sweep_each cp others wid now stale_ids))"

subsection \<open>Heartbeat\<close>

record heartbeat_state =
  hb_ownership_lost :: bool
  hb_cancel_requested :: bool
  hb_failure :: "job_error option"

definition new_heartbeat :: heartbeat_state where
  "new_heartbeat = \<lparr> hb_ownership_lost = False, hb_cancel_requested = False, hb_failure = None \<rparr>"

text \<open>\<^verbatim>\<open>_heartbeat_once\<close>, in a session of its own on the committed tables.\<close>

definition heartbeat_once :: "unicode \<Rightarrow> control_plane \<Rightarrow> string option \<Rightarrow> instant \<Rightarrow> job_lease \<Rightarrow> jobs_db \<Rightarrow> heartbeat_state \<Rightarrow> heartbeat_state \<times> jobs_db" where
  "heartbeat_once U cp fault now lease d hb = (case renew U cp fault now lease (open_session d) of
       (Inl e, s) \<Rightarrow> (hb\<lparr>hb_failure := Some e\<rparr>, js_committed s)
     | (Inr r, s) \<Rightarrow> (if lost r then hb\<lparr>hb_ownership_lost := True\<rparr>
                       else if lr_cancel_requested r then hb\<lparr>hb_cancel_requested := True\<rparr> else hb, js_committed s))"

text \<open>\<^verbatim>\<open>_check_heartbeat\<close> without the write-lock release: the signals, then the resource budget.\<close>

definition check_heartbeat :: "heartbeat_state option \<Rightarrow> job_error option \<Rightarrow> string \<Rightarrow> unit work_action" where
  "check_heartbeat state budget jid =
     (case state of
        Some hb \<Rightarrow>
          if hb_ownership_lost hb then raiseS (LeaseLostError jid)
          else if hb_cancel_requested hb then raiseS (CancellationObserved jid)
          else case hb_failure hb of Some e \<Rightarrow> raiseS e
            | None \<Rightarrow> (case budget of Some e \<Rightarrow> raiseS e | None \<Rightarrow> returnS ())
      | None \<Rightarrow> (case budget of Some e \<Rightarrow> raiseS e | None \<Rightarrow> returnS ()))"

subsection \<open>The pipeline\<close>

text \<open>\<^verbatim>\<open>_stage_open_snapshot\<close>: the repository columns, then the snapshot of the job's identity, recorded on the job.\<close>

definition stage_open_snapshot :: "analysis_constants \<Rightarrow> string \<Rightarrow> instant \<Rightarrow> string \<Rightarrow> unit work_action" where
  "stage_open_snapshot C uuid now jid =
     bindS (job_row jid) (\<lambda>job.
     bindS (getS (\<lambda>s. Option.bind job (\<lambda>j. get_record (jd_records (js_view s)) (aj_repository_id j)))) (\<lambda>record.
       case record of
         None \<Rightarrow> raiseS (RuntimeError ''analysis job references a repository that no longer exists'')
       | Some r \<Rightarrow>
           bindS (edit_record now (rr_id r) (\<lambda>r. r\<lparr>rr_status := ''analysing'', rr_analysis_stage := Some ''extracting-modules'',
             rr_analysis_progress := 35\<rparr>)) (\<lambda>_.
           case (rr_revision_kind r, rr_revision_value r) of
             (Some kind, Some value) \<Rightarrow>
               bindS (in_store (get_or_reuse (ac_unicode C) (ac_digest C) uuid (rr_id r)
                   \<lparr> rv_kind = kind, rv_value = value, rv_ref = rr_revision_ref r \<rparr> (ac_producers C) (ac_schema_version C)
                   None (Some (ac_config_hash C)) [] [])) (\<lambda>(snapshot, reused).
                 edit_jobs (update_rows (\<lambda>j. aj_id j = jid) (\<lambda>j. j\<lparr>aj_snapshot_id := Some (sn_snapshot_id snapshot)\<rparr>)))
           | _ \<Rightarrow> raiseS (RuntimeError ''repository has no analyzable revision''))))"

text \<open>\<^verbatim>\<open>_stage_seal\<close>: nothing for a reused snapshot, otherwise the guarded lock and the seal in one transaction.\<close>

definition stage_seal :: "analysis_constants \<Rightarrow> string \<Rightarrow> instant \<Rightarrow> bool \<Rightarrow> string \<Rightarrow> unit work_action" where
  "stage_seal C wid now reused jid =
     (if reused then returnS ()
      else bindS (lock_owned_job wid now True jid) (\<lambda>_.
        bindS (job_row jid) (\<lambda>job.
          case Option.bind job aj_snapshot_id of
            None \<Rightarrow> raiseS JobsAssertionError
          | Some sid \<Rightarrow> bindS (store_commits (seal (ac_unicode C) (ac_digest C) now sid)) (\<lambda>_. returnS ()))))"

text \<open>A stage: its name and progress, what the heartbeat saw before, the work, and what the heartbeat saw after.\<close>

record stage =
  st_name :: string
  st_progress :: int
  st_before :: heartbeat_state
  st_work :: "unit work_action"
  st_after :: heartbeat_state

definition analysis_stages :: "(heartbeat_state \<times> unit work_action \<times> heartbeat_state) list \<Rightarrow> stage list" where
  "analysis_stages works = map (\<lambda>((name, progress), before, work, after).
       \<lparr> st_name = name, st_progress = progress, st_before = before, st_work = work, st_after = after \<rparr>)
     (zip [(''extracting-modules'', 35), (''building-dependency-graph'', 75), (''preparing-architecture'', 90)] works)"

fun run_stages :: "control_plane \<Rightarrow> string \<Rightarrow> instant \<Rightarrow> bool \<Rightarrow> string \<Rightarrow> stage list \<Rightarrow> unit work_action" where
  "run_stages cp wid now reused jid [] =
     bindS (cancel_requested jid) (\<lambda>c. if c then cancel_owned wid now reused jid else complete wid now reused jid)"
| "run_stages cp wid now reused jid (st # rest) =
     bindS (cancel_requested jid) (\<lambda>c.
       if c then cancel_owned wid now reused jid
       else bindS (check_heartbeat (Some (st_before st)) None jid) (\<lambda>_.
         bindS (st_work st) (\<lambda>_.
         bindS (check_heartbeat (Some (st_after st)) None jid) (\<lambda>_.
         bindS (checkpoint cp wid now jid (st_name st) (st_progress st)) (\<lambda>_.
           run_stages cp wid now reused jid rest)))))"

text \<open>A lost lease inside a handler is logged and ends the run.\<close>

definition abandon_if_lost :: "unit work_action \<Rightarrow> unit work_action" where
  "abandon_if_lost m = tryS m (\<lambda>e. case e of LeaseLostError _ \<Rightarrow> returnS () | _ \<Rightarrow> raiseS e)"

definition execute_stages :: "control_plane \<Rightarrow> string \<Rightarrow> instant \<Rightarrow> bool \<Rightarrow> string \<Rightarrow> (job_error \<Rightarrow> exception) \<Rightarrow> stage list \<Rightarrow> unit work_action" where
  "execute_stages cp wid now reused jid describe stages =
     tryS (run_stages cp wid now reused jid stages) (\<lambda>e.
       case e of
         CancellationObserved _ \<Rightarrow>
           bindS w_rollback (\<lambda>_. bindS (job_row jid) (\<lambda>current.
             if current = None then returnS () else abandon_if_lost (cancel_owned wid now reused jid)))
       | LeaseLostError _ \<Rightarrow> w_rollback
       | ResourceExceeded _ \<Rightarrow> abandon_if_lost (fail_resource_exceeded wid now reused jid (describe e))
       | _ \<Rightarrow> abandon_if_lost (retry_or_fail wid now reused jid (describe e)))"

text \<open>\<^verbatim>\<open>run_once\<close>\<close>

definition run_once :: "control_plane \<Rightarrow> string \<Rightarrow> instant \<Rightarrow> bool \<Rightarrow> (job_error \<Rightarrow> exception) \<Rightarrow> (analysis_job \<Rightarrow> (heartbeat_state \<times> unit work_action \<times> heartbeat_state) list) \<Rightarrow> bool work_action" where
  "run_once cp wid now reused describe works_of =
     bindS (claim cp now wid) (\<lambda>lease.
       case lease of
         None \<Rightarrow> returnS False
       | Some l \<Rightarrow> bindS (job_row (jl_job_id l)) (\<lambda>job.
           case job of
             None \<Rightarrow> returnS False
           | Some j \<Rightarrow> bindS (execute_stages cp wid now reused (aj_id j) describe (analysis_stages (works_of j))) (\<lambda>_. returnS True)))"

section \<open>Invariants of the rows\<close>

lemma keeps_tryS [keeps_intros]: "keeps P m \<Longrightarrow> (\<And>e. keeps P (h e)) \<Longrightarrow> keeps P (tryS m h)"
  by (auto simp: keeps_def tryS_def split: prod.splits sum.splits)

lemma keeps_case_error [keeps_intros]:
  "(\<And>x. keeps P (f x)) \<Longrightarrow> (\<And>x. keeps P (g x)) \<Longrightarrow> (\<And>x. keeps P (h x)) \<Longrightarrow> keeps P k \<Longrightarrow>
     keeps P (case e of CancellationObserved x \<Rightarrow> f x | LeaseLostError x \<Rightarrow> g x | ResourceExceeded x \<Rightarrow> h x | _ \<Rightarrow> k)"
  by (cases e) auto

text \<open>What never changes while a job is worked on: which rows there are, their attempts and their budgets.\<close>

definition ticket :: "analysis_job \<Rightarrow> string \<times> int \<times> int" where
  "ticket j = (aj_id j, aj_attempt j, aj_max_attempts j)"

definition sane :: "(string \<times> int \<times> int) list \<Rightarrow> (analysis_job \<Rightarrow> bool) \<Rightarrow> work_session \<Rightarrow> bool" where
  "sane T P s \<longleftrightarrow> jobs_ok (js_committed s) \<and> map ticket (jobs s) = T \<and> map ticket (jd_jobs (js_committed s)) = T
     \<and> (\<forall>j \<in> set (jd_jobs (js_committed s)). P j) \<and> (\<forall>j \<in> set (jobs s). P j)"

lemma sane_w_rollback [keeps_intros]: "keeps (sane T P) w_rollback"
  by (auto simp: keeps_def sane_def w_rollback_def jobs_def)

lemma sane_js_rollback [keeps_intros]: "keeps (sane T P) js_rollback"
  by (auto simp: keeps_def sane_def js_rollback_def jobs_def)

lemma sane_w_commit [keeps_intros]: "keeps (sane T P) w_commit"
  by (auto simp: keeps_def sane_def w_commit_def w_rollback_def jobs_def split: prod.splits sum.splits)

lemma sane_js_commit [keeps_intros]: "keeps (sane T P) js_commit"
  by (auto simp: keeps_def sane_def js_commit_def jobs_def)

lemma sane_store_commits [keeps_intros]: "keeps (sane T P) (store_commits m)"
  by (auto simp: keeps_def sane_def store_commits_def w_rollback_def jobs_def split: prod.splits sum.splits)

lemma sane_edit_record [keeps_intros]: "keeps (sane T P) (edit_record now rid f)"
  by (auto simp: keeps_def sane_def edit_record_def set_records_def jobs_def)

lemma sane_execute_update:
  assumes "\<And>j. w j \<Longrightarrow> ticket (f j) = ticket j" and "\<And>j. w j \<Longrightarrow> P j \<Longrightarrow> P (f j)"
  shows "keeps (sane T P) (execute_update w f)"
proof (rule keepsI)
  fix s assume s: "sane T P s"
  have "map ticket (update_rows w f js) = map ticket js" for js
    using assms(1) by (auto simp: update_rows_def)
  moreover have "\<forall>j \<in> set (update_rows w f (jobs s)). P j"
    using s assms(2) by (auto simp: sane_def update_rows_def)
  ultimately have "sane T P (set_jobs (update_rows w f) s)"
    using s by (simp add: sane_def) (simp add: set_jobs_def)
  then show "sane T P (snd (execute_update w f s))"
    using s by (simp add: execute_update_def Let_def)
qed

lemma apply_values_ticket [simp]: "ticket (apply_values stamp vs j) = ticket j"
proof -
  have "ticket (fold (set_value i) vs j) = ticket j" for i j
  proof (induction vs arbitrary: j)
    case (Cons v vs)
    then show ?case by (cases v) (simp_all add: ticket_def)
  qed simp
  then show ?thesis by (simp add: apply_values_def ticket_def)
qed

text \<open>A list of values is safe for an invariant of rows if it keeps it on the rows the guard lets through.\<close>

definition safe_values :: "string \<Rightarrow> string \<Rightarrow> (analysis_job \<Rightarrow> bool) \<Rightarrow> job_value list \<Rightarrow> bool" where
  "safe_values wid jid P vs \<longleftrightarrow> (\<forall>stamp j. aj_id j = jid \<longrightarrow> aj_worker_id j = Some wid \<longrightarrow> aj_status j = ''running'' \<longrightarrow> P j
     \<longrightarrow> P (apply_values stamp vs j))"

lemma sane_update_owned_job [keeps_intros]:
  "safe_values wid jid P vs \<Longrightarrow> keeps (sane T P) (update_owned_job wid now req jid vs)"
  unfolding update_owned_job_def update_owned_def
  by (intro keeps_intros sane_execute_update) (auto simp: safe_values_def owned_guard_def)

lemma sane_lock_owned_job [keeps_intros]:
  "safe_values wid jid P [UpdatedAtUnchanged] \<Longrightarrow> keeps (sane T P) (lock_owned_job wid now req jid)"
  unfolding lock_owned_job_def job_row_def by (intro keeps_intros)

lemma sane_edit_job_record [keeps_intros]: "keeps (sane T P) (edit_job_record now jid f)"
  unfolding edit_job_record_def job_row_def by (intro keeps_intros)

lemma sane_fail_open_snapshot [keeps_intros]: "keeps (sane T P) (fail_open_snapshot reused jid code)"
  unfolding fail_open_snapshot_def job_row_def get_snapshot_def by (intro keeps_intros)

lemma sane_sealed_snapshot_of [keeps_intros]: "keeps (sane T P) (sealed_snapshot_of jid)"
  unfolding sealed_snapshot_of_def job_row_def get_snapshot_def by (intro keeps_intros)

text \<open>The values that every handler writes, whatever it decides.\<close>

definition worker_safe :: "string \<Rightarrow> instant \<Rightarrow> string \<Rightarrow> (analysis_job \<Rightarrow> bool) \<Rightarrow> bool" where
  "worker_safe wid now jid P \<longleftrightarrow>
     safe_values wid jid P [UpdatedAtUnchanged]
   \<and> (\<forall>t. safe_values wid jid P (completed_values now t))
   \<and> safe_values wid jid P (complete_values now)
   \<and> safe_values wid jid P (cancelled_values now)
   \<and> (\<forall>c m. safe_values wid jid P (failed_values now c m))
   \<and> (\<forall>n p e. safe_values wid jid P [Stage (Some n), Progress p, LeaseExpiresAt (Some e), UpdatedAt now])"

lemma worker_safeD:
  assumes "worker_safe wid now jid P"
  shows "safe_values wid jid P [UpdatedAtUnchanged]" "safe_values wid jid P (completed_values now t)" "safe_values wid jid P (complete_values now)"
    "safe_values wid jid P (cancelled_values now)" "safe_values wid jid P (failed_values now c m)"
    "safe_values wid jid P [Stage (Some n), Progress p, LeaseExpiresAt (Some e), UpdatedAt now]"
  using assms by (simp_all add: worker_safe_def)

lemma sane_complete_sealed [keeps_intros]:
  "worker_safe wid now jid P \<Longrightarrow> keeps (sane T P) (complete_sealed_snapshot wid now jid sn)"
  unfolding complete_sealed_snapshot_def Let_def by (intro keeps_intros worker_safeD)

lemma sane_cancel_owned [keeps_intros]: "worker_safe wid now jid P \<Longrightarrow> keeps (sane T P) (cancel_owned wid now reused jid)"
  unfolding cancel_owned_def by (intro keeps_intros worker_safeD)

lemma sane_complete [keeps_intros]: "worker_safe wid now jid P \<Longrightarrow> keeps (sane T P) (complete wid now reused jid)"
  unfolding complete_def job_row_def by (intro keeps_intros worker_safeD)

lemma sane_checkpoint [keeps_intros]: "worker_safe wid now jid P \<Longrightarrow> keeps (sane T P) (checkpoint cp wid now jid n p)"
  unfolding checkpoint_def by (intro keeps_intros worker_safeD)

text \<open>After a row was read, its attempt and its budget are known of every copy of the row.\<close>

definition with_ticket :: "(analysis_job \<Rightarrow> bool) \<Rightarrow> analysis_job \<Rightarrow> analysis_job \<Rightarrow> bool" where
  "with_ticket P j i \<longleftrightarrow> P i \<and> (aj_id i = aj_id j \<longrightarrow> ticket i = ticket j)"

lemma sane_mono: "(\<And>i. P i \<Longrightarrow> Q i) \<Longrightarrow> sane T P s \<Longrightarrow> sane T Q s"
  by (auto simp: sane_def)

lemma sane_with_ticket:
  assumes "sane T P s" and "j \<in> set (jobs s)"
  shows "sane T (with_ticket P j) s"
proof -
  have t: "map ticket (jobs s) = T" "map ticket (jd_jobs (js_committed s)) = T" and ids: "distinct (map aj_id (jd_jobs (js_committed s)))"
    using assms(1) jobs_ok_ids by (auto simp: sane_def)
  have "map aj_id js = map fst (map ticket js)" for js by (simp add: ticket_def)
  then have "distinct (map fst (map ticket (jobs s)))" using ids by (simp only: t)
  then have inj: "inj_on fst (set (map ticket (jobs s)))" by (simp only: distinct_map)
  have j: "ticket j \<in> set (map ticket (jobs s))" using assms(2) by simp
  have "ticket i = ticket j" if "ticket i \<in> set (map ticket (jobs s))" "aj_id i = aj_id j" for i
    using inj_onD [OF inj _ that(1) j] that(2) by (simp add: ticket_def)
  moreover have "ticket i \<in> set (map ticket (jobs s))" if "i \<in> set (jobs s) \<or> i \<in> set (jd_jobs (js_committed s))" for i
    using that t by (metis image_eqI list.set_map)
  ultimately show ?thesis using assms(1) unfolding sane_def with_ticket_def by blast
qed

lemma keeps_job_row:
  assumes "keeps (sane T P) (f None)" and "\<And>j. aj_id j = jid \<Longrightarrow> keeps (sane T (with_ticket P j)) (f (Some j))"
  shows "keeps (sane T P) (bindS (job_row jid) f)"
proof (rule keepsI)
  fix s assume s: "sane T P s"
  show "sane T P (snd (bindS (job_row jid) f s))"
  proof (cases "get_job (jobs s) jid")
    case None
    then show ?thesis using assms(1) s by (simp add: keeps_def bindS_def job_row_def getS_def)
  next
    case (Some j)
    note j = get_job_Some [OF Some]
    have "sane T (with_ticket P j) s" using sane_with_ticket [OF s] j by blast
    then have "sane T (with_ticket P j) (snd (f (Some j) s))" using assms(2) [of j] j by (simp add: keeps_def)
    then have "sane T P (snd (f (Some j) s))" by (rule sane_mono [rotated]) (simp add: with_ticket_def)
    then show ?thesis using Some by (simp add: bindS_def job_row_def getS_def)
  qed
qed

lemma safe_with_ticket: "safe_values wid jid P vs \<Longrightarrow> safe_values wid jid (with_ticket P j) vs"
  unfolding safe_values_def with_ticket_def by simp

lemma worker_safe_with_ticket: "worker_safe wid now jid P \<Longrightarrow> worker_safe wid now jid (with_ticket P j)"
  unfolding worker_safe_def by (simp add: safe_with_ticket)

text \<open>Requeueing is safe when the row that was read has attempts left.\<close>

definition requeue_safe :: "string \<Rightarrow> instant \<Rightarrow> string \<Rightarrow> (analysis_job \<Rightarrow> bool) \<Rightarrow> bool" where
  "requeue_safe wid now jid P \<longleftrightarrow> (\<forall>j c m. aj_id j = jid \<longrightarrow> aj_attempt j < aj_max_attempts j \<longrightarrow>
     safe_values wid jid (with_ticket P j) (requeued_values now (aj_attempt j) c m))"

lemma sane_after_failure:
  assumes "worker_safe wid now jid P"
    and "\<And>j. aj_id j = jid \<Longrightarrow> keeps (sane T (with_ticket P j)) (rest j)"
  shows "keeps (sane T P) (after_failure wid now reused jid rest)"
  unfolding after_failure_def
proof (rule keeps_bindS [OF sane_w_rollback], rule keeps_job_row, goal_cases)
  case (2 _ j)
  note w = worker_safe_with_ticket [OF assms(1), of j]
  show ?case unfolding option.case by (intro keeps_intros assms(2) 2 w worker_safeD(1) [OF w])
qed (auto intro: keeps_intros)

lemma sane_retry_or_fail [keeps_intros]:
  assumes "worker_safe wid now jid P" and "requeue_safe wid now jid P"
  shows "keeps (sane T P) (retry_or_fail wid now reused jid m)"
  unfolding retry_or_fail_def
proof (rule sane_after_failure [OF assms(1)], goal_cases)
  case (1 j)
  note w = worker_safe_with_ticket [OF assms(1), of j]
  show ?case
    by (intro keeps_intros w worker_safeD [OF w]) (use assms(2) 1 in \<open>auto simp: requeue_safe_def\<close>)
qed

lemma sane_fail_resource [keeps_intros]:
  assumes "worker_safe wid now jid P"
  shows "keeps (sane T P) (fail_resource_exceeded wid now reused jid m)"
  unfolding fail_resource_exceeded_def
proof (rule sane_after_failure [OF assms], goal_cases)
  case (1 j)
  note w = worker_safe_with_ticket [OF assms, of j]
  show ?case by (intro keeps_intros w worker_safeD [OF w])
qed

lemma sane_cancel_requested [keeps_intros]: "keeps (sane T P) (cancel_requested jid)"
  unfolding cancel_requested_def by (intro keeps_intros)

lemma sane_check_heartbeat [keeps_intros]: "keeps (sane T P) (check_heartbeat hb b jid)"
  unfolding check_heartbeat_def by (intro keeps_intros)

lemma sane_run_stages:
  assumes "worker_safe wid now jid P" and "\<And>st. st \<in> set stages \<Longrightarrow> keeps (sane T P) (st_work st)"
  shows "keeps (sane T P) (run_stages cp wid now reused jid stages)"
  using assms(2)
proof (induction stages)
  case Nil
  show ?case by (auto intro!: keeps_intros assms(1))
next
  case (Cons st stages)
  then show ?case by (auto intro!: keeps_intros assms(1))
qed

lemma sane_abandon [keeps_intros]: "keeps P m \<Longrightarrow> keeps P (abandon_if_lost m)"
  unfolding abandon_if_lost_def
  by (intro keeps_tryS) (auto intro: keeps_intros split: job_error.splits)

lemma sane_execute_stages:
  assumes "worker_safe wid now jid P" and "requeue_safe wid now jid P" and "\<And>st. st \<in> set stages \<Longrightarrow> keeps (sane T P) (st_work st)"
  shows "keeps (sane T P) (execute_stages cp wid now reused jid message stages)"
  unfolding execute_stages_def job_row_def
  by (intro keeps_tryS sane_run_stages assms) (auto intro!: keeps_intros assms split: job_error.splits)

section \<open>Fencing\<close>

text \<open>The handlers that end a run or a stage.\<close>

datatype handler = HCancel | HComplete | HRetry exception | HResource exception | HCheckpoint string int

primrec run_handler :: "control_plane \<Rightarrow> string \<Rightarrow> instant \<Rightarrow> bool \<Rightarrow> string \<Rightarrow> handler \<Rightarrow> unit work_action" where
  "run_handler cp wid now reused jid HCancel = cancel_owned wid now reused jid"
| "run_handler cp wid now reused jid HComplete = complete wid now reused jid"
| "run_handler cp wid now reused jid (HRetry m) = retry_or_fail wid now reused jid m"
| "run_handler cp wid now reused jid (HResource m) = fail_resource_exceeded wid now reused jid m"
| "run_handler cp wid now reused jid (HCheckpoint n p) = checkpoint cp wid now jid n p"

lemma sane_run_handler [keeps_intros]:
  "worker_safe wid now jid P \<Longrightarrow> requeue_safe wid now jid P \<Longrightarrow> keeps (sane T P) (run_handler cp wid now reused jid h)"
  by (cases h) (auto intro: keeps_intros)

definition mine :: "string \<Rightarrow> string \<Rightarrow> analysis_job \<Rightarrow> bool" where
  "mine wid jid j \<longleftrightarrow> aj_id j = jid \<and> aj_status j = ''running'' \<and> aj_worker_id j = Some wid"

definition frozen :: "analysis_job \<Rightarrow> analysis_job \<Rightarrow> bool" where
  "frozen r j \<longleftrightarrow> (aj_id j = aj_id r \<longrightarrow> j = r)"

lemma safe_frozen: "\<not> mine wid jid r \<Longrightarrow> safe_values wid jid (frozen r) vs"
  by (auto simp: safe_values_def frozen_def mine_def)

lemma sane_committed: "sane T P s \<Longrightarrow> j \<in> set (jd_jobs (js_committed s)) \<Longrightarrow> P j"
  by (simp add: sane_def)

lemma sane_start:
  assumes "jobs_ok (js_committed s)" and "js_view s = js_committed s" and "\<forall>j \<in> set (jd_jobs (js_committed s)). P j"
  shows "sane (map ticket (jd_jobs (js_committed s))) P s"
  using assms by (simp add: sane_def jobs_def)

text \<open>
  C24: a worker that lost its job is fenced off. Whatever handler it runs (completion, cancellation, retry, resource failure, checkpoint), every committed row except the row of
  that job while it is running under this very worker is the same afterwards; so after another worker reclaimed the job, or it
  reached a final state, the old owner changes nothing.
\<close>

theorem worker_fenced:
  assumes "jobs_ok (js_committed s)" and "js_view s = js_committed s"
    and "r \<in> set (jd_jobs (js_committed s))" and "\<not> mine wid jid r"
  shows "r \<in> set (jd_jobs (js_committed (snd (run_handler cp wid now reused jid h s))))"
proof -
  let ?s = "snd (run_handler cp wid now reused jid h s)" and ?T = "map ticket (jd_jobs (js_committed s))"
  note safe = safe_frozen [OF assms(4)]
  have w: "worker_safe wid now jid (frozen r)" by (simp add: worker_safe_def safe)
  have q: "requeue_safe wid now jid (frozen r)" by (simp add: requeue_safe_def safe_with_ticket safe)
  have "\<forall>j \<in> set (jd_jobs (js_committed s)). frozen r j"
    using get_job_row [OF jobs_ok_ids [OF assms(1)]] assms(3) unfolding frozen_def by (metis option.inject)
  then have "sane ?T (frozen r) s" by (rule sane_start [OF assms(1,2)])
  then have e: "sane ?T (frozen r) ?s" using sane_run_handler [OF w q] unfolding keeps_def by blast
  have "ticket r \<in> set (map ticket (jd_jobs (js_committed ?s)))" using e assms(3) by (simp add: sane_def)
  then obtain i where i: "i \<in> set (jd_jobs (js_committed ?s))" "ticket i = ticket r" by auto
  then have "i = r" using sane_committed [OF e] by (simp add: frozen_def ticket_def)
  then show ?thesis using i(1) by simp
qed

theorem worker_fenced_witness:
  "jd_jobs sample_jobs ! 2 \<in> set (jd_jobs (js_committed
     (snd (run_handler sample_plane ''late'' 900 False ''j3'' (HRetry (''ValueError'', ''boom'')) (sample_work sample_jobs)))))"
proof -
  have "js_committed (sample_work sample_jobs) = sample_jobs" "js_view (sample_work sample_jobs) = sample_jobs"
    by (simp_all add: sample_work_def)
  moreover have "\<not> mine ''late'' ''j3'' (jd_jobs sample_jobs ! 2)" by (simp add: mine_def sample_jobs_def)
  moreover have "jd_jobs sample_jobs ! 2 \<in> set (jd_jobs sample_jobs)" by (simp add: sample_jobs_def)
  ultimately show ?thesis
    using worker_fenced [of "sample_work sample_jobs" "jd_jobs sample_jobs ! 2" "''late''" "''j3''" sample_plane 900 False "HRetry (''ValueError'', ''boom'')"]
      jobs_ok_sample by simp
qed

section \<open>The life of a job\<close>

text \<open>
  What holds of every row at every commit: a waiting job has attempts left and no owner, a running one has an owner, a lease and an attempt within its budget, a finished one has
  neither owner nor lease.
\<close>

definition job_ok :: "analysis_job \<Rightarrow> bool" where
  "job_ok j \<longleftrightarrow> 0 \<le> aj_attempt j \<and> aj_attempt j \<le> aj_max_attempts j
     \<and> (aj_status j = ''queued'' \<longrightarrow> aj_attempt j < aj_max_attempts j)
     \<and> (aj_status j = ''running'' \<longrightarrow> 1 \<le> aj_attempt j)
     \<and> (aj_status j = ''running'' \<longleftrightarrow> aj_worker_id j \<noteq> None)
     \<and> (aj_worker_id j = None \<longleftrightarrow> aj_lease_expires_at j = None)"

lemma worker_safe_job_ok: "worker_safe wid now jid job_ok"
  by (auto simp: worker_safe_def safe_values_def job_ok_def apply_values_def completed_values_def complete_values_def
      cancelled_values_def failed_values_def)

lemma requeue_safe_job_ok: "requeue_safe wid now jid job_ok"
  by (auto simp: requeue_safe_def safe_values_def with_ticket_def job_ok_def ticket_def apply_values_def requeued_values_def)

lemma sane_in_store [keeps_intros]: "keeps (sane T P) (in_store m)"
  by (auto simp: keeps_def sane_def in_store_def jobs_def split: prod.splits sum.splits)

lemma sane_edit_jobs:
  assumes "\<And>j. ticket (f j) = ticket j" and "\<And>j. P j \<Longrightarrow> P (f j)"
  shows "keeps (sane T P) (edit_jobs (update_rows w f))"
proof (rule keepsI)
  fix s assume s: "sane T P s"
  have "map ticket (update_rows w f js) = map ticket js" for js using assms(1) by (auto simp: update_rows_def)
  moreover have "\<forall>j \<in> set (update_rows w f (jobs s)). P j" using s assms(2) by (auto simp: sane_def update_rows_def)
  ultimately show "sane T P (snd (edit_jobs (update_rows w f) s))"
    using s by (simp add: sane_def edit_jobs_def) (simp add: set_jobs_def)
qed

lemma sane_stage_open: "keeps (sane T job_ok) (stage_open_snapshot C uuid now jid)"
  unfolding stage_open_snapshot_def job_row_def
  by (auto intro!: keeps_intros sane_edit_jobs split: option.splits prod.splits simp: job_ok_def ticket_def)

lemma sane_stage_seal: "keeps (sane T job_ok) (stage_seal C wid now reused jid)"
  unfolding stage_seal_def
  by (intro keeps_intros worker_safeD(1) [OF worker_safe_job_ok]) (simp add: job_row_def keeps_getS)

lemma sane_renew: "keeps (sane T job_ok) (renew U cp fault now l)"
  unfolding renew_def Let_def
  by (intro keeps_intros sane_execute_update) (auto simp: ticket_def job_ok_def renew_guard_def)

text \<open>The invariants that a sweep keeps, closed under knowing the ticket of a row.\<close>

definition good_rows :: "(analysis_job \<Rightarrow> bool) \<Rightarrow> bool" where
  "good_rows P \<longleftrightarrow> (\<forall>wid now jid. worker_safe wid now jid P \<and> requeue_safe wid now jid P)
     \<and> (\<forall>now job wid e i. reclaim_guard now job i \<longrightarrow> P i \<longrightarrow>
          P (i\<lparr>aj_worker_id := Some wid, aj_lease_expires_at := Some e, aj_updated_at := now\<rparr>))"

lemma good_rows_job_ok: "good_rows job_ok"
  using worker_safe_job_ok requeue_safe_job_ok by (auto simp: good_rows_def job_ok_def reclaim_guard_def)

lemma requeue_safe_with_ticket: "requeue_safe wid now jid P \<Longrightarrow> requeue_safe wid now jid (with_ticket P k)"
  unfolding requeue_safe_def safe_values_def with_ticket_def by simp metis

lemma good_rows_with_ticket: "good_rows P \<Longrightarrow> good_rows (with_ticket P j)"
  unfolding good_rows_def
  by (simp add: worker_safe_with_ticket requeue_safe_with_ticket) (simp add: with_ticket_def ticket_def)

lemma sane_reclaim: "good_rows P \<Longrightarrow> keeps (sane T P) (reclaim cp now job wid)"
  unfolding reclaim_def Let_def
  by (intro keeps_intros sane_execute_update) (auto simp: ticket_def good_rows_def)

lemma sane_get_snapshot [keeps_intros]: "keeps (sane T P) (get_snapshot sid)"
  unfolding get_snapshot_def by (intro keeps_intros)

lemma sane_reconcile_stale:
  assumes "good_rows P" shows "keeps (sane T (with_ticket P j)) (reconcile_stale cp wid now j)"
proof -
  have w: "worker_safe wid now (aj_id j) (with_ticket P j)" using assms worker_safe_with_ticket by (simp add: good_rows_def)
  have q: "aj_attempt j < aj_max_attempts j \<Longrightarrow> safe_values wid (aj_id j) (with_ticket P j) (requeued_values now (aj_attempt j) c m)" for c m
    using assms by (simp add: good_rows_def requeue_safe_def)
  show ?thesis
    unfolding reconcile_stale_def Let_def
    by (intro keeps_intros sane_reclaim good_rows_with_ticket assms w worker_safeD [OF w] q)
qed

lemma sane_sweep_each: "good_rows P \<Longrightarrow> keeps (sane T P) (sweep_each cp (\<lambda>s. s) wid now ids)"
proof (induction ids arbitrary: P)
  case (Cons jid ids)
  have i: "keeps (sane T P) (interfere (\<lambda>s. s))" by (simp add: keeps_def interfere_def)
  show ?case
    unfolding sweep_each.simps
  proof (rule keeps_bindS [OF i], rule keeps_job_row, goal_cases)
    case (2 _ j)
    show ?case unfolding option.case
      by (intro keeps_intros Cons.IH good_rows_with_ticket sane_reconcile_stale Cons.prems)
  qed (use Cons in simp)
qed (auto intro: keeps_intros)

lemma sane_sweep_stale: "keeps (sane T job_ok) (sweep_stale cp (\<lambda>s. s) n wid now)"
  unfolding sweep_stale_def expired_job_ids_def
  by (intro keeps_intros sane_sweep_each good_rows_job_ok)

text \<open>Claims and the service change tickets or add rows: an invariant of the rows alone.\<close>

definition lively :: "work_session \<Rightarrow> bool" where
  "lively s \<longleftrightarrow> jobs_ok (js_committed s) \<and> (\<forall>j \<in> set (jd_jobs (js_committed s)). job_ok j) \<and> (\<forall>j \<in> set (jobs s). job_ok j)"

lemma lively_simple [keeps_intros]: "keeps lively w_rollback" "keeps lively w_commit" "keeps lively js_commit" "keeps lively commit_or_conflict"
  "keeps lively (edit_record now rid f)" "keeps lively (in_store m)" "keeps lively (cancel_repository w rid now)"
  by (auto simp: keeps_def lively_def w_rollback_def w_commit_def js_commit_def commit_or_conflict_def edit_record_def in_store_def
      cancel_repository_def set_records_def jobs_def split: prod.splits sum.splits)

lemma lively_execute_update: "(\<And>j. w j \<Longrightarrow> job_ok j \<Longrightarrow> job_ok (f j)) \<Longrightarrow> keeps lively (execute_update w f)"
  by (auto simp: keeps_def lively_def execute_update_def Let_def set_jobs_def jobs_def update_rows_def)

lemma lively_update_rows: "(\<And>j. job_ok j \<Longrightarrow> job_ok (f j)) \<Longrightarrow> keeps lively (edit_jobs (update_rows w f))"
  by (auto simp: keeps_def lively_def edit_jobs_def set_jobs_def jobs_def update_rows_def)

lemma lively_insert: "job_ok j \<Longrightarrow> keeps lively (edit_jobs (\<lambda>js. js @ [j]))"
  by (auto simp: keeps_def lively_def edit_jobs_def set_jobs_def jobs_def)

lemma lively_claim: "keeps lively (claim cp now wid)"
  unfolding claim_def claim_candidate_def next_eligible_job_id_def Let_def
  by (intro keeps_intros lively_execute_update) (auto simp: job_ok_def claim_values_def)

lemma lively_lookups [keeps_intros]: "keeps lively (newest w)" "keeps lively (refresh jid)" "keeps lively (reload_job owner_id jid)"
  "keeps lively (completed_snapshot C owner_id rid rv)" "keeps lively (get_record_for_owner owner_id rid)" "keeps lively (interfere (\<lambda>s. s))"
  unfolding newest_def refresh_def reload_job_def completed_snapshot_def get_record_for_owner_def
  by (intro keeps_intros | simp add: keeps_def interfere_def)+

lemma lively_require_revision [keeps_intros]: "keeps lively (require_revision r)"
  unfolding require_revision_def by (auto intro: keeps_intros split: option.splits)

lemma lively_reconcile [keeps_intros]: "keeps lively (reconcile_completed_job created now rid j snapshot)"
  unfolding reconcile_completed_job_def Let_def
  by (intro keeps_intros lively_update_rows) (auto simp: job_ok_def reconcile_values_def)

lemma lively_insert_queued [keeps_intros]: "keeps lively (insert_queued_job C created uuid now owner_id r)"
  unfolding insert_queued_job_def Let_def effective_job_def
  by (intro keeps_intros lively_insert) (auto simp: job_ok_def new_job_def intro!: keeps_intros split: option.splits)

lemma lively_insert_completed [keeps_intros]: "keeps lively (insert_completed_job C created uuid now owner_id r sn)"
  unfolding insert_completed_job_def Let_def effective_job_def job_for_snapshot_def
  by (intro keeps_intros lively_insert) (auto simp: job_ok_def new_job_def)

lemma lively_submit: "keeps lively (submit C created (\<lambda>s. s) uuid now owner_id rid)"
  unfolding submit_def job_for_snapshot_def active_job_def by (intro keeps_intros)

lemma lively_status: "keeps lively (status C created (\<lambda>s. s) uuid now owner_id rid)"
  unfolding status_def job_for_snapshot_def effective_job_def latest_job_def by (intro keeps_intros)

lemma lively_cancel_job [keeps_intros]: "keeps lively (cancel_job (\<lambda>s. s) now owner_id job)"
  unfolding cancel_job_def cancel_running_def
  by (intro keeps_intros lively_execute_update) (auto simp: job_ok_def)

lemma lively_cancel_tries [keeps_intros]: "keeps lively (cancel_tries U (\<lambda>s. s) now owner_id rid faults as)"
proof (induction as)
  case (Cons a as)
  then show ?case unfolding cancel_tries.simps latest_job_def by (intro keeps_intros)
qed (auto intro: keeps_intros)

lemma lively_cancel: "keeps lively (cancel U (\<lambda>s. s) now owner_id rid faults)"
  unfolding cancel_def by (intro keeps_intros)

section \<open>The job system\<close>

text \<open>Closing a session discards what was not committed.\<close>

definition closed :: "work_session \<Rightarrow> work_session" where
  "closed s = snd (w_rollback s)"

text \<open>
  One transaction of any participant, each in a session that is closed at its end, whether it raised or not: a worker claims, renews, opens its snapshot and checkpoints, seals, or runs one of its
  handlers; a sweeper runs; a user submits, asks for the status or cancels.
\<close>

inductive job_step :: "analysis_constants \<Rightarrow> control_plane \<Rightarrow> (string \<Rightarrow> instant) \<Rightarrow> work_session \<Rightarrow> work_session \<Rightarrow> bool" for C cp created where
  claims: "job_step C cp created s (closed (snd (claim cp now wid s)))"
| renews: "job_step C cp created s (closed (snd (renew U cp fault now l s)))"
| opens: "job_step C cp created s (closed (snd (bindS (stage_open_snapshot C uuid now jid) (\<lambda>_. checkpoint cp wid now jid n p) s)))"
| seals: "job_step C cp created s (closed (snd (stage_seal C wid now reused jid s)))"
| handles: "job_step C cp created s (closed (snd (run_handler cp wid now reused jid h s)))"
| sweeps: "job_step C cp created s (closed (snd (sweep_stale cp (\<lambda>s. s) k wid now s)))"
| submits: "job_step C cp created s (closed (snd (submit C created (\<lambda>s. s) uuid now owner_id rid s)))"
| asks: "job_step C cp created s (closed (snd (status C created (\<lambda>s. s) uuid now owner_id rid s)))"
| cancels: "job_step C cp created s (closed (snd (cancel U (\<lambda>s. s) now owner_id rid faults s)))"

definition rested :: "work_session \<Rightarrow> bool" where
  "rested s \<longleftrightarrow> jobs_ok (js_committed s) \<and> js_view s = js_committed s \<and> (\<forall>j \<in> set (jd_jobs (js_committed s)). job_ok j)"

lemma rested_sane: "rested s \<Longrightarrow> sane (map ticket (jd_jobs (js_committed s))) job_ok s"
  by (simp add: rested_def sane_start)

lemma rested_lively: "rested s \<Longrightarrow> lively s"
  by (simp add: rested_def lively_def jobs_def)

lemma closed_sane: "sane T job_ok s \<Longrightarrow> rested (closed s)"
  by (simp add: sane_def rested_def closed_def w_rollback_def)

lemma closed_lively: "lively s \<Longrightarrow> rested (closed s)"
  by (simp add: lively_def rested_def closed_def w_rollback_def)

lemma rested_by_sane: "rested s \<Longrightarrow> (\<And>T. keeps (sane T job_ok) m) \<Longrightarrow> rested (closed (snd (m s)))"
  using rested_sane closed_sane unfolding keeps_def by blast

lemma rested_by_lively: "rested s \<Longrightarrow> keeps lively m \<Longrightarrow> rested (closed (snd (m s)))"
  using rested_lively closed_lively unfolding keeps_def by blast

lemma job_step_rested: "job_step C cp created s s' \<Longrightarrow> rested s \<Longrightarrow> rested s'"
proof (induction rule: job_step.induct)
  case (opens s uuid now jid wid n p)
  have "keeps (sane T job_ok) (bindS (stage_open_snapshot C uuid now jid) (\<lambda>_. checkpoint cp wid now jid n p))" for T
    by (intro keeps_bindS sane_stage_open sane_checkpoint worker_safe_job_ok)
  then show ?case by (rule rested_by_sane [OF opens])
next
  case (handles s wid now reused jid h)
  have "keeps (sane T job_ok) (run_handler cp wid now reused jid h)" for T
    by (rule sane_run_handler [OF worker_safe_job_ok requeue_safe_job_ok])
  then show ?case by (rule rested_by_sane [OF handles])
qed (blast intro: rested_by_sane rested_by_lively lively_claim sane_renew sane_stage_seal sane_sweep_stale lively_submit lively_status lively_cancel)+

lemma job_run_rested: "(job_step C cp created)\<^sup>*\<^sup>* s s' \<Longrightarrow> rested s \<Longrightarrow> rested s'"
  by (induction rule: rtranclp_induct) (auto intro: job_step_rested)

text \<open>
  The attempt budget holds for ever. After any sequence of transactions of workers, sweepers and users, every committed row satisfies the life-cycle invariant: no job has used more attempts than its
  maximum, a queued one has at least one left, exactly the running ones have an owner and a lease; and a claim always hands out an attempt within the maximum.
\<close>

theorem attempts_never_exceed_budget:
  assumes "(job_step C cp created)\<^sup>*\<^sup>* s s'" and "jobs_ok (js_committed s)" "js_view s = js_committed s" "\<forall>j \<in> set (jd_jobs (js_committed s)). job_ok j"
  shows "(\<forall>j \<in> set (jd_jobs (js_committed s')). job_ok j)
    \<and> (\<forall>now wid l t. claim cp now wid s' = (Inr (Some l), t) \<longrightarrow>
         (\<exists>j \<in> set (jd_jobs (js_committed t)). aj_id j = jl_job_id l \<and> aj_attempt j = jl_attempt l \<and> 1 \<le> jl_attempt l \<and> jl_attempt l \<le> aj_max_attempts j))"
proof -
  have r: "rested s'" using job_run_rested [OF assms(1)] assms(2-4) by (simp add: rested_def)
  have "\<exists>j \<in> set (jd_jobs (js_committed t)). aj_id j = jl_job_id l \<and> aj_attempt j = jl_attempt l \<and> 1 \<le> jl_attempt l \<and> jl_attempt l \<le> aj_max_attempts j"
    if c: "claim cp now wid s' = (Inr (Some l), t)" for now wid l t
  proof -
    have "js_sound s'" using r by (simp add: rested_def js_sound_def)
    then obtain cid j where q: "get_job (jobs s') cid = Some j" "aj_status j = ''queued''" "jl_job_id l = cid" "jl_attempt l = aj_attempt j + 1"
      and t: "t = commit_jobs (update_rows (\<lambda>j. aj_id j = cid \<and> aj_status j = ''queued'') (claim_values wid (lease_until cp now) now)) s'"
      using c by (auto simp: claim_def next_eligible_job_id_def bindS_def getS_def returnS_def claim_candidate_eq split: option.splits if_splits)
    let ?j = "claim_values wid (lease_until cp now) now j"
    have j: "j \<in> set (jobs s')" "aj_id j = cid" "job_ok j" using get_job_Some [OF q(1)] r by (auto simp: rested_def jobs_def)
    have "?j \<in> set (jd_jobs (js_committed t))"
      using j(1,2) q(2) by (simp add: t commit_jobs_def Let_def set_jobs_def jobs_def) (rule update_rows_mem, simp_all)
    moreover have "aj_id ?j = cid" "aj_attempt ?j = aj_attempt j + 1" "aj_max_attempts ?j = aj_max_attempts j" using j(2) by (simp_all add: claim_values_def)
    moreover have "0 \<le> aj_attempt j" "aj_attempt j < aj_max_attempts j" using j(3) q(2) by (simp_all add: job_ok_def)
    ultimately show ?thesis using q(3,4) by (intro bexI [of _ ?j]) simp_all
  qed
  then show ?thesis using r by (simp add: rested_def)
qed

theorem attempts_never_exceed_budget_witness:
  "\<exists>s' l t. s' = closed (snd (claim sample_plane 100 ''x'' (sample_work sample_jobs)))
     \<and> map (\<lambda>j. (aj_id j, aj_attempt j)) (jd_jobs (js_committed s')) = [(''j1'', 0), (''j2'', 0), (''j3'', 1), (''j4'', 1)]
     \<and> claim sample_plane 200 ''y'' s' = (Inr (Some l), t) \<and> jl_job_id l = ''j1'' \<and> jl_attempt l \<le> 3"
proof -
  let ?s = "sample_work sample_jobs"
  let ?s' = "closed (snd (claim sample_plane 100 ''x'' ?s))"
  have start: "jobs_ok (js_committed ?s)" "js_view ?s = js_committed ?s" "\<forall>j \<in> set (jd_jobs (js_committed ?s)). job_ok j"
    using jobs_ok_sample by (simp_all add: sample_work_def) (simp add: sample_jobs_def sample_job_def job_ok_def)
  have run: "(job_step (sample_constants []) sample_plane (\<lambda>_. 0))\<^sup>*\<^sup>* ?s ?s'" by (rule r_into_rtranclp, rule job_step.claims)
  have rows: "map (\<lambda>j. (aj_id j, aj_attempt j)) (jd_jobs (js_committed ?s')) = [(''j1'', 0), (''j2'', 0), (''j3'', 1), (''j4'', 1)]" by code_simp
  have "(case fst (claim sample_plane 200 ''y'' ?s') of Inr (Some l) \<Rightarrow> jl_job_id l = ''j1'' | _ \<Rightarrow> False)"
    "map aj_max_attempts (jd_jobs (js_committed (snd (claim sample_plane 200 ''y'' ?s')))) = [3, 3, 3, 3]" by code_simp+
  then obtain l t where l: "claim sample_plane 200 ''y'' ?s' = (Inr (Some l), t)" "jl_job_id l = ''j1''"
    and m: "map aj_max_attempts (jd_jobs (js_committed t)) = [3, 3, 3, 3]"
    by (cases "claim sample_plane 200 ''y'' ?s'") (auto split: sum.splits option.splits)
  have "\<exists>j \<in> set (jd_jobs (js_committed t)). jl_attempt l \<le> aj_max_attempts j"
    using attempts_never_exceed_budget [OF run start] l(1) by blast
  moreover have "\<forall>j \<in> set (jd_jobs (js_committed t)). aj_max_attempts j = 3"
    using m by (metis (no_types, lifting) image_eqI insert_iff list.set_map list.set singletonD)
  ultimately show ?thesis using rows l by (intro exI [of _ ?s'] exI [of _ l] exI [of _ t]) auto
qed

section \<open>What becomes of a failed run\<close>

lemma update_owned_job_Inr:
  assumes ids: "distinct (map aj_id (jobs s))" and ok: "update_owned_job wid now req jid vs s = (Inr u, s')"
  obtains j where "get_job (jobs s) jid = Some j" "mine wid jid j" "req \<longrightarrow> \<not> aj_cancel_requested j"
    "s' = set_jobs (update_rows (owned_guard jid wid req) (apply_values now vs)) s" "get_job (jobs s') jid = Some (apply_values now vs j)"
proof -
  let ?g = "owned_guard jid wid req"
  have s': "s' = set_jobs (update_rows ?g (apply_values now vs)) s" and hit: "filter ?g (jobs s) \<noteq> []"
    using ok by (auto simp: update_owned_job_def update_owned_def execute_update_def Let_def bindS_def returnS_def raiseS_def
        w_rollback_def split: if_splits)
  have "filter ?g (jobs s) = (case get_job (jobs s) jid of None \<Rightarrow> [] | Some j \<Rightarrow> if ?g j then [j] else [])"
    by (rule filter_one [OF ids]) (simp add: owned_guard_def)
  then obtain j where j: "get_job (jobs s) jid = Some j" "?g j" using hit by (auto split: option.splits if_splits)
  show thesis
  proof (rule that [OF j(1)])
    show "mine wid jid j" "req \<longrightarrow> \<not> aj_cancel_requested j" using j(2) by (auto simp: owned_guard_def mine_def)
    show "get_job (jobs s') jid = Some (apply_values now vs j)" using j by (simp add: s' get_job_update)
  qed (rule s')
qed

lemma apply_unchanged: "apply_values stamp [UpdatedAtUnchanged] j = j"
  by (simp add: apply_values_def)

lemma lock_owned_job_Inr:
  assumes ids: "distinct (map aj_id (jobs s))" and ok: "lock_owned_job wid now req jid s = (Inr u, s')"
  obtains j where "get_job (jobs s) jid = Some j" "mine wid jid j" "req \<longrightarrow> \<not> aj_cancel_requested j" "s' = s"
proof -
  have "update_owned_job wid now req jid [UpdatedAtUnchanged] s = (Inr u, s')"
    using ok by (auto simp: lock_owned_job_def tryS_def bindS_def job_row_def getS_def raiseS_def split: prod.splits sum.splits if_splits option.splits)
  then obtain j where j: "get_job (jobs s) jid = Some j" "mine wid jid j" "req \<longrightarrow> \<not> aj_cancel_requested j"
    "s' = set_jobs (update_rows (owned_guard jid wid req) (apply_values now [UpdatedAtUnchanged])) s"
    by (rule update_owned_job_Inr [OF ids])
  have "update_rows w (apply_values now [UpdatedAtUnchanged]) js = js" for w js
    unfolding update_rows_def by (rule map_idI) (simp only: apply_unchanged if_cancel)
  then have "s' = s" using j(4) by (simp add: set_jobs_def)
  then show thesis using that j by blast
qed

lemma w_commit_Inr: "w_commit s = (Inr u, s') \<Longrightarrow> jd_jobs (js_committed s') = jobs s"
  by (auto simp: w_commit_def jobs_def split: if_splits prod.splits sum.splits)

lemma edit_job_record_Inr: "edit_job_record now jid f s = (Inr u, s') \<Longrightarrow> jobs s' = jobs s"
  by (auto simp: edit_job_record_def bindS_def job_row_def getS_def returnS_def edit_record_def set_records_def jobs_def split: option.splits)

text \<open>The end of every handler: a guarded write, the repository columns, the commit.\<close>

lemma write_and_commit_Inr:
  assumes ids: "distinct (map aj_id (jobs s))"
    and ok: "bindS (update_owned_job wid now req jid vs) (\<lambda>_. bindS (edit_job_record now jid f) (\<lambda>_. w_commit)) s = (Inr u, s')"
  obtains j where "get_job (jobs s) jid = Some j" "mine wid jid j" "get_job (jd_jobs (js_committed s')) jid = Some (apply_values now vs j)"
proof -
  obtain s1 s2 where u: "update_owned_job wid now req jid vs s = (Inr (), s1)" and e: "edit_job_record now jid f s1 = (Inr (), s2)"
    and c: "w_commit s2 = (Inr u, s')" using ok by (auto simp: bindS_Inr)
  obtain j where "get_job (jobs s) jid = Some j" "mine wid jid j" "get_job (jobs s1) jid = Some (apply_values now vs j)"
    by (rule update_owned_job_Inr [OF ids u])
  then show thesis using that edit_job_record_Inr [OF e] w_commit_Inr [OF c] by simp
qed

lemma write_commit_Inr:
  assumes ids: "distinct (map aj_id (jobs s))"
    and ok: "bindS (update_owned_job wid now req jid vs) (\<lambda>_. w_commit) s = (Inr u, s')"
  obtains j where "get_job (jobs s) jid = Some j" "mine wid jid j" "get_job (jd_jobs (js_committed s')) jid = Some (apply_values now vs j)"
proof -
  obtain s1 where u: "update_owned_job wid now req jid vs s = (Inr (), s1)" and c: "w_commit s1 = (Inr u, s')" using ok by (auto simp: bindS_Inr)
  obtain j where "get_job (jobs s) jid = Some j" "mine wid jid j" "get_job (jobs s1) jid = Some (apply_values now vs j)"
    by (rule update_owned_job_Inr [OF ids u])
  then show thesis using that w_commit_Inr [OF c] by simp
qed

definition sealed_row :: "work_session \<Rightarrow> analysis_job \<Rightarrow> ri_snapshot option" where
  "sealed_row s j = (case Option.bind (aj_snapshot_id j) (find_snapshot (se_mem (ws_store s))) of
     Some sn \<Rightarrow> if sn_state sn = ''completed'' then Some sn else None | None \<Rightarrow> None)"

lemma sealed_snapshot_of_eq:
  "get_job (jobs s) jid = Some j \<Longrightarrow> sealed_snapshot_of jid s = (Inr (sealed_row s j), s)"
  by (auto simp: sealed_snapshot_of_def bindS_def job_row_def get_snapshot_def getS_def returnS_def sealed_row_def split: option.splits)

lemma fail_open_snapshot_Inr: "fail_open_snapshot reused jid code s = (Inr u, s') \<Longrightarrow> jobs s' = jobs s"
  by (auto simp: fail_open_snapshot_def bindS_def job_row_def get_snapshot_def getS_def returnS_def store_commits_def jobs_def
      split: option.splits if_splits prod.splits sum.splits)

text \<open>What cancelling an owned job leaves: the sealed snapshot wins over the request.\<close>

lemma cancel_owned_Inr:
  assumes ids: "distinct (map aj_id (jobs s))" and ok: "cancel_owned wid now reused jid s = (Inr u, s')"
  obtains j where "get_job (jobs s) jid = Some j" "mine wid jid j"
    "get_job (jd_jobs (js_committed s')) jid = Some (apply_values now (case sealed_row s j of
        Some sn \<Rightarrow> completed_values now (sealed_or now sn) | None \<Rightarrow> cancelled_values now) j)"
proof -
  obtain s1 where l: "lock_owned_job wid now False jid s = (Inr (), s1)" using ok by (auto simp: cancel_owned_def bindS_Inr)
  obtain j where j: "get_job (jobs s) jid = Some j" "mine wid jid j" "s1 = s" by (rule lock_owned_job_Inr [OF ids l])
  have rest: "(case sealed_row s j of
         Some sn \<Rightarrow> complete_sealed_snapshot wid now jid sn
       | None \<Rightarrow> bindS (fail_open_snapshot reused jid ''RI-JOB-CANCELLED'') (\<lambda>_.
           bindS (update_owned_job wid now False jid (cancelled_values now)) (\<lambda>_.
           bindS (edit_job_record now jid cancel_columns) (\<lambda>_. w_commit)))) s = (Inr u, s')"
    using ok by (simp add: cancel_owned_def bindS_def [of "lock_owned_job _ _ _ _"] l j(3) bindS_def [of "sealed_snapshot_of _"]
        sealed_snapshot_of_eq [OF j(1)])
  show thesis
  proof (cases "sealed_row s j")
    case (Some sn)
    have "bindS (update_owned_job wid now False jid (completed_values now (sealed_or now sn)))
        (\<lambda>_. bindS (edit_job_record now jid (complete_repository (sealed_or now sn))) (\<lambda>_. w_commit)) s = (Inr u, s')"
      using rest Some by (simp add: complete_sealed_snapshot_def Let_def)
    then show thesis by (rule write_and_commit_Inr [OF ids]) (use that [OF j(1,2)] j(1) Some in simp)
  next
    case None
    then obtain s2 where f: "fail_open_snapshot reused jid ''RI-JOB-CANCELLED'' s = (Inr (), s2)"
      and w: "bindS (update_owned_job wid now False jid (cancelled_values now)) (\<lambda>_. bindS (edit_job_record now jid cancel_columns) (\<lambda>_. w_commit)) s2 = (Inr u, s')"
      using rest by (auto simp: bindS_Inr [of "fail_open_snapshot _ _ _"])
    note jb = fail_open_snapshot_Inr [OF f]
    show thesis by (rule write_and_commit_Inr [OF _ w]) (use ids jb that [OF j(1,2)] j(1) None in simp_all)
  qed
qed

lemma backoff_bounds: "1 \<le> attempt \<Longrightarrow> 2 \<le> backoff attempt \<and> backoff attempt \<le> 60"
  using power_increasing [of 1 "nat attempt" "2 :: int"] by (simp add: backoff_def)

text \<open>A lock that observes the cancellation leaves the owned row to the cancellation handler, on a rolled-back session.\<close>

lemma lock_owned_job_cancelled:
  assumes l: "lock_owned_job wid now req jid s = (Inl (CancellationObserved jid), s')"
  shows "s' = snd (w_rollback s) \<and> (\<exists>j. get_job (jd_jobs (js_committed s)) jid = Some j \<and> aj_cancel_requested j)"
  using l by (auto simp: lock_owned_job_def tryS_def update_owned_job_def update_owned_def execute_update_def Let_def bindS_def returnS_def
      raiseS_def w_rollback_def job_row_def getS_def jobs_def set_jobs_def split: if_splits option.splits prod.splits sum.splits)

lemma jobs_w_rollback: "jobs (snd (w_rollback s)) = jd_jobs (js_committed s)"
  by (simp add: w_rollback_def jobs_def)

text \<open>The opening of the failure handlers: the row is the worker's; a requested cancellation is carried out, otherwise the handler goes on.\<close>

lemma after_failure_Inr:
  assumes ids: "distinct (map aj_id (jd_jobs (js_committed s)))" and ok: "after_failure wid now reused jid rest s = (Inr (), s')"
  obtains j where "get_job (jd_jobs (js_committed s)) jid = Some j" "mine wid jid j"
    "if aj_cancel_requested j then cancel_owned wid now reused jid (snd (w_rollback s)) = (Inr (), s') else rest j (snd (w_rollback s)) = (Inr (), s')"
proof -
  let ?s = "snd (w_rollback s)"
  note js = jobs_w_rollback [of s]
  have "get_job (jd_jobs (js_committed s)) jid \<noteq> None"
    using ok by (cases "get_job (jd_jobs (js_committed s)) jid")
      (auto simp: after_failure_def bindS_def w_rollback_def job_row_def getS_def jobs_def raiseS_def)
  then obtain j where j: "get_job (jd_jobs (js_committed s)) jid = Some j" by blast
  have ok': "bindS (tryS (bindS (lock_owned_job wid now True jid) (\<lambda>_. returnS True)) (\<lambda>e.
      if e = CancellationObserved jid then bindS (cancel_owned wid now reused jid) (\<lambda>_. returnS False) else raiseS e))
      (\<lambda>locked. if locked then rest j else returnS ()) ?s = (Inr (), s')"
    using ok j by (simp add: after_failure_def job_row_def bindS_def [of w_rollback] bindS_def [of "getS _"] getS_def w_rollback_def jobs_def)
  obtain r t where l: "lock_owned_job wid now True jid ?s = (r, t)" by fastforce
  show thesis
  proof (cases r)
    case (Inr u)
    obtain j' where "get_job (jobs ?s) jid = Some j'" "mine wid jid j'" "True \<longrightarrow> \<not> aj_cancel_requested j'" "t = ?s"
      by (rule lock_owned_job_Inr [of ?s wid now True jid u t]) (use ids js l Inr in simp_all)
    moreover have "rest j t = (Inr (), s')" using ok' l Inr by (simp add: bindS_def tryS_def returnS_def)
    ultimately show thesis using that [OF j] j js by simp
  next
    case (Inl e)
    have e: "e = CancellationObserved jid" using ok' l Inl by (auto simp: bindS_def tryS_def raiseS_def split: if_splits)
    have t: "t = ?s" "aj_cancel_requested j" using lock_owned_job_cancelled [of wid now True jid ?s t] l Inl e j
      by (auto simp: w_rollback_def rollback_def)
    have c: "cancel_owned wid now reused jid ?s = (Inr (), s')" using ok' l Inl e t(1)
      by (auto simp: bindS_def tryS_def returnS_def split: prod.splits sum.splits)
    obtain j' where "get_job (jobs ?s) jid = Some j'" "mine wid jid j'" by (rule cancel_owned_Inr [OF _ c]) (use ids js in simp)
    then show thesis using that [OF j] j js t(2) c by simp
  qed
qed

text \<open>The column values a failed run ends with.\<close>

definition retry_values :: "instant \<Rightarrow> exception \<Rightarrow> ri_snapshot option \<Rightarrow> analysis_job \<Rightarrow> job_value list" where
  "retry_values now exc sealed j = (case sealed of
       Some sn \<Rightarrow> completed_values now (sealed_or now sn)
     | None \<Rightarrow> if aj_cancel_requested j then cancelled_values now
         else if aj_attempt j \<ge> aj_max_attempts j then failed_values now ''RI-JOB-FAILED'' (error_message exc)
         else requeued_values now (aj_attempt j) ''RI-JOB-FAILED'' (error_message exc))"

lemma retry_or_fail_Inr:
  assumes ids: "distinct (map aj_id (jd_jobs (js_committed s)))" and ok: "retry_or_fail wid now reused jid exc s = (Inr (), s')"
  obtains j where "get_job (jd_jobs (js_committed s)) jid = Some j" "mine wid jid j"
    "get_job (jd_jobs (js_committed s')) jid = Some (apply_values now (retry_values now exc (sealed_row (snd (w_rollback s)) j) j) j)"
proof (rule after_failure_Inr [OF ids ok [unfolded retry_or_fail_def]])
  let ?s = "snd (w_rollback s)"
  note js = jobs_w_rollback [of s]
  fix j assume j: "get_job (jd_jobs (js_committed s)) jid = Some j" "mine wid jid j"
  have js_j: "get_job (jobs ?s) jid = Some j" and ids': "distinct (map aj_id (jobs ?s))" using j ids js by simp_all
  assume r: "if aj_cancel_requested j then cancel_owned wid now reused jid ?s = (Inr (), s')
     else bindS (sealed_snapshot_of jid) (\<lambda>snapshot. case snapshot of
           Some sn \<Rightarrow> complete_sealed_snapshot wid now jid sn
         | None \<Rightarrow>
             bindS (fail_open_snapshot reused jid ''RI-JOB-FAILED'') (\<lambda>_.
               if aj_attempt j \<ge> aj_max_attempts j
               then bindS (update_owned_job wid now False jid (failed_values now ''RI-JOB-FAILED'' (error_message exc))) (\<lambda>_.
                 bindS (edit_job_record now jid (failed_record ''Repository analysis failed.'')) (\<lambda>_. w_commit))
               else bindS (update_owned_job wid now False jid (requeued_values now (aj_attempt j) ''RI-JOB-FAILED'' (error_message exc))) (\<lambda>_. w_commit))) ?s
       = (Inr (), s')"
  show thesis
  proof (cases "aj_cancel_requested j")
    case True
    show thesis
      by (rule cancel_owned_Inr [OF ids', of wid now reused jid "()" s'])
        (use r True that [OF j] js_j in \<open>auto simp: retry_values_def split: option.splits\<close>)
  next
    case uncancelled: False
    show thesis
    proof (cases "sealed_row ?s j")
      case (Some sn)
      have "bindS (update_owned_job wid now False jid (completed_values now (sealed_or now sn)))
        (\<lambda>_. bindS (edit_job_record now jid (complete_repository (sealed_or now sn))) (\<lambda>_. w_commit)) ?s = (Inr (), s')"
        using r uncancelled Some
        by (simp add: complete_sealed_snapshot_def Let_def bindS_def [of "sealed_snapshot_of _"] sealed_snapshot_of_eq [OF js_j])
      then show thesis by (rule write_and_commit_Inr [OF ids']) (use that [OF j] js_j Some in \<open>simp add: retry_values_def\<close>)
    next
      case None
      then obtain s2 where f: "fail_open_snapshot reused jid ''RI-JOB-FAILED'' ?s = (Inr (), s2)"
        and w: "(if aj_attempt j \<ge> aj_max_attempts j
               then bindS (update_owned_job wid now False jid (failed_values now ''RI-JOB-FAILED'' (error_message exc))) (\<lambda>_.
                 bindS (edit_job_record now jid (failed_record ''Repository analysis failed.'')) (\<lambda>_. w_commit))
               else bindS (update_owned_job wid now False jid (requeued_values now (aj_attempt j) ''RI-JOB-FAILED'' (error_message exc))) (\<lambda>_. w_commit)) s2
           = (Inr (), s')"
        using r uncancelled by (auto simp: bindS_def [of "sealed_snapshot_of _"] sealed_snapshot_of_eq [OF js_j] bindS_Inr [of "fail_open_snapshot _ _ _"])
      note jb = fail_open_snapshot_Inr [OF f]
      have ids2: "distinct (map aj_id (jobs s2))" and j2: "get_job (jobs s2) jid = Some j" using ids' js_j jb by simp_all
      show thesis
      proof (cases "aj_attempt j \<ge> aj_max_attempts j")
        case True
        then have "bindS (update_owned_job wid now False jid (failed_values now ''RI-JOB-FAILED'' (error_message exc))) (\<lambda>_.
                 bindS (edit_job_record now jid (failed_record ''Repository analysis failed.'')) (\<lambda>_. w_commit)) s2 = (Inr (), s')" using w by simp
        then show thesis by (rule write_and_commit_Inr [OF ids2]) (use that [OF j] j2 True None uncancelled in \<open>simp add: retry_values_def\<close>)
      next
        case False
        then have "bindS (update_owned_job wid now False jid (requeued_values now (aj_attempt j) ''RI-JOB-FAILED'' (error_message exc)))
          (\<lambda>_. w_commit) s2 = (Inr (), s')" using w by simp
        then show thesis by (rule write_commit_Inr [OF ids2]) (use that [OF j] j2 False None uncancelled in \<open>simp add: retry_values_def\<close>)
      qed
    qed
  qed
qed

definition code_points :: "string \<Rightarrow> nat" where
  "code_points s = length (filter (\<lambda>c. \<not> continuation_byte c) s)"

lemma take_code_points_bounded: "code_points (take_code_points n s) \<le> n"
  by (induction n s rule: take_code_points.induct) (auto simp: code_points_def)

text \<open>
  What a failed run leaves behind. When the handler returns, the row belonged to the worker, and the committed row is without owner and lease and with
  the same attempt; its status is \<^verbatim>\<open>completed\<close> if the snapshot of the run was sealed before the failure, otherwise \<^verbatim>\<open>cancelled\<close> if a
  cancellation had been accepted, otherwise \<^verbatim>\<open>failed\<close> if the attempts are used up, otherwise \<^verbatim>\<open>queued\<close> again after a delay of 2
  to 60 seconds; the recorded message of a failure has at most 1024 characters.
\<close>

theorem retry_outcome:
  assumes "jobs_ok (js_committed s)" and "retry_or_fail wid now reused jid exc s = (Inr (), s')"
  shows "\<exists>j j'. get_job (jd_jobs (js_committed s)) jid = Some j \<and> aj_status j = ''running'' \<and> aj_worker_id j = Some wid
    \<and> get_job (jd_jobs (js_committed s')) jid = Some j' \<and> aj_worker_id j' = None \<and> aj_lease_expires_at j' = None \<and> aj_attempt j' = aj_attempt j
    \<and> aj_status j' = (if sealed_row (snd (w_rollback s)) j \<noteq> None then ''completed''
        else if aj_cancel_requested j then ''cancelled''
        else if aj_attempt j \<ge> aj_max_attempts j then ''failed'' else ''queued'')
    \<and> (aj_status j' = ''queued'' \<longrightarrow> aj_next_attempt_at j' = Some (now + seconds (backoff (aj_attempt j)))
        \<and> (1 \<le> aj_attempt j \<longrightarrow> 2 \<le> backoff (aj_attempt j) \<and> backoff (aj_attempt j) \<le> 60))
    \<and> (aj_status j' \<in> {''queued'', ''failed''} \<longrightarrow> (\<exists>m. aj_error_message j' = Some m \<and> code_points m \<le> max_error_message))"
proof -
  have "distinct (map aj_id (jd_jobs (js_committed s)))" using assms(1) by (simp add: jobs_ok_def uq_analysis_jobs_def unique_index_def)
  then obtain j where j: "get_job (jd_jobs (js_committed s)) jid = Some j" "mine wid jid j"
    and j': "get_job (jd_jobs (js_committed s')) jid = Some (apply_values now (retry_values now exc (sealed_row (snd (w_rollback s)) j) j) j)"
    by (rule retry_or_fail_Inr [OF _ assms(2)])
  have m: "code_points (error_message exc) \<le> max_error_message" unfolding error_message_def by (rule take_code_points_bounded)
  show ?thesis
    by (rule exI [of _ j], rule exI, intro conjI, rule j(1), use j(2) in \<open>simp add: mine_def\<close>, use j(2) in \<open>simp add: mine_def\<close>, rule j')
      (use m backoff_bounds [of "aj_attempt j"] in \<open>simp_all add: retry_values_def apply_values_def completed_values_def cancelled_values_def failed_values_def
          requeued_values_def split: option.splits\<close>)
qed

theorem retry_outcome_witness:
  "\<exists>s' j'. retry_or_fail ''w'' 100 False ''j3'' (''ValueError'', ''boom'') (sample_work sample_jobs) = (Inr (), s')
     \<and> get_job (jd_jobs (js_committed s')) ''j3'' = Some j' \<and> aj_status j' = ''queued'' \<and> aj_next_attempt_at j' = Some (100 + seconds 2)"
proof -
  let ?r = "retry_or_fail ''w'' 100 False ''j3'' (''ValueError'', ''boom'') (sample_work sample_jobs)"
  let ?j = "(sample_job ''j3'' ''r3'' 1)\<lparr>aj_status := ''running'', aj_attempt := 1, aj_worker_id := Some ''w'', aj_lease_expires_at := Some 300\<rparr>"
  have "fst ?r = Inr ()" by code_simp
  then obtain s' where r: "?r = (Inr (), s')" by (cases ?r) auto
  have j: "get_job (jd_jobs (js_committed (sample_work sample_jobs))) ''j3'' = Some ?j" by code_simp
  have "jobs_ok (js_committed (sample_work sample_jobs))" using jobs_ok_sample by (simp add: sample_work_def)
  from retry_outcome [OF this r] obtain j' where j': "get_job (jd_jobs (js_committed s')) ''j3'' = Some j'"
    and st: "aj_status j' = (if sealed_row (snd (w_rollback (sample_work sample_jobs))) ?j \<noteq> None then ''completed''
        else if aj_cancel_requested ?j then ''cancelled'' else if aj_attempt ?j \<ge> aj_max_attempts ?j then ''failed'' else ''queued'')"
    and nx: "aj_status j' = ''queued'' \<longrightarrow> aj_next_attempt_at j' = Some (100 + seconds (backoff (aj_attempt ?j)))"
    unfolding j option.inject by blast
  have q: "aj_status j' = ''queued''" using st by (simp add: sealed_row_def sample_job_def)
  moreover have "aj_next_attempt_at j' = Some (100 + seconds 2)" using nx q by (simp add: backoff_def)
  ultimately show ?thesis using r j' by blast
qed

end
