(* ===== verification/Rate_Limit.thy ===== *)
theory Rate_Limit
  imports Partha_Prelude
begin

text \<open>
  The request budgets (\<^verbatim>\<open>app/core/rate_limit.py\<close>): the class of a request, the identity it is charged to, the two
  fixed-window counters and the middleware that decides.

  Clock readings are integers in microseconds (the code's clock is a float of seconds). An
  \<^verbatim>\<open>Authorization\<close> header is the sequence of its Latin-1 characters, as the server decodes it. Token
  verification and the Redis commands are code outside this component: functions given as arguments.
\<close>

section \<open>Model\<close>

definition window_seconds :: int where
  "window_seconds = 60"

definition exempt_paths :: "string set" where
  "exempt_paths = {''/health'', ''/ready'', ''/metrics''}"

definition exempt_prefixes :: "string list" where
  "exempt_prefixes = [''/docs'', ''/redoc'', ''/openapi.json'']"

definition classify :: "string \<Rightarrow> string \<Rightarrow> string option" where
  "classify http_method path =
     (if http_method = ''OPTIONS'' \<or> path \<in> exempt_paths \<or> list_ex (\<lambda>p. startswith p path) exempt_prefixes then None
      else if http_method = ''POST'' \<and> path \<in> {''/auth/login'', ''/auth/register'', ''/waitlist''} then Some ''auth''
      else if path = ''/ai'' \<or> startswith ''/ai/'' path then Some ''ai''
      else if http_method = ''POST'' \<and> (path \<in> {''/repositories/upload'', ''/repositories/github'', ''/documentation/generate'', ''/export''}
           \<or> (startswith ''/analysis/'' path \<and> endswith ''/start'' path)) then Some ''heavy''
      else Some ''default'')"

record request =
  rq_method :: string
  rq_path :: string
  rq_authorization :: "string option"
  rq_client_host :: "string option"

text \<open>\<^verbatim>\<open>str.strip\<close> and \<^verbatim>\<open>str.lower\<close> on Latin-1 text; only ASCII letters matter for the comparison with \<^verbatim>\<open>bearer\<close>.\<close>

definition latin1_space :: "char \<Rightarrow> bool" where
  "latin1_space c \<longleftrightarrow> (let n = (of_char c :: int) in (9 \<le> n \<and> n \<le> 13) \<or> (28 \<le> n \<and> n \<le> 32) \<or> n = 133 \<or> n = 160)"

definition strip :: "string \<Rightarrow> string" where
  "strip s = rev (dropWhile latin1_space (rev (dropWhile latin1_space s)))"

definition ascii_lower :: "string \<Rightarrow> string" where
  "ascii_lower = map (\<lambda>c. let n = (of_char c :: int) in if 65 \<le> n \<and> n \<le> 90 then char_of (n + 32) else c)"

definition partition_space :: "string \<Rightarrow> string \<times> string" where
  "partition_space s = (case split_once '' '' s of Some (a, b) \<Rightarrow> (a, b) | None \<Rightarrow> (s, []))"

text \<open>\<^verbatim>\<open>decode_access_token\<close> is the argument \<^verbatim>\<open>decode\<close>: the user id of a valid token, or \<^const>\<open>None\<close> where it raises.\<close>

definition authenticated_user_id :: "(string \<Rightarrow> string option) \<Rightarrow> request \<Rightarrow> string option" where
  "authenticated_user_id decode rq = (case rq_authorization rq of
       None \<Rightarrow> None
     | Some header \<Rightarrow>
         if header = [] then None
         else case partition_space header of (scheme, token) \<Rightarrow>
           if ascii_lower scheme \<noteq> ''bearer'' \<or> strip token = [] then None else decode (strip token))"

definition resolve_rate_key :: "(string \<Rightarrow> string option) \<Rightarrow> request \<Rightarrow> string" where
  "resolve_rate_key decode rq = (case authenticated_user_id decode rq of
       Some user_id \<Rightarrow> ''user:'' @ user_id
     | None \<Rightarrow> ''ip:'' @ (case rq_client_host rq of Some host \<Rightarrow> host | None \<Rightarrow> ''unknown''))"

subsection \<open>The counters\<close>

text \<open>\<^verbatim>\<open>MemoryRateLimitStore\<close>: per key the start of its window and the hits in it.\<close>

type_synonym windows = "string \<Rightarrow> (int \<times> int) option"

definition ceil_seconds :: "int \<Rightarrow> int" where
  "ceil_seconds t = - ((- t) div 1000000)"

definition memory_hit :: "int \<Rightarrow> string \<Rightarrow> int \<Rightarrow> windows \<Rightarrow> (int \<times> int) \<times> windows" where
  "memory_hit now key window s =
     (let (start, n) = (case s key of Some w \<Rightarrow> w | None \<Rightarrow> (now, 0));
          (start, n) = (if now - start \<ge> window * 1000000 then (now, 0) else (start, n));
          n = n + 1 in
      ((n, max 1 (ceil_seconds (window * 1000000 - (now - start)))), s(key \<mapsto> (start, n))))"

text \<open>\<^verbatim>\<open>_WINDOW_SCRIPT\<close> over the server's INCR, EXPIRE and TTL, and \<^verbatim>\<open>RedisRateLimitStore.hit\<close> around it.\<close>

record 's redis =
  r_incr :: "string \<Rightarrow> 's \<Rightarrow> int \<times> 's"
  r_expire :: "string \<Rightarrow> int \<Rightarrow> 's \<Rightarrow> 's"
  r_ttl :: "string \<Rightarrow> 's \<Rightarrow> int"

definition window_script :: "'s redis \<Rightarrow> string \<Rightarrow> int \<Rightarrow> 's \<Rightarrow> (int \<times> int) \<times> 's" where
  "window_script R key window s =
     (let (n, s) = r_incr R key s;
          s = (if n = 1 then r_expire R key window s
               else let ttl = r_ttl R key s in if ttl < 0 then r_expire R key window s else s) in
      ((n, r_ttl R key s), s))"

text \<open>The connection to the server can fail: \<^verbatim>\<open>fault\<close> is the text of the exception.\<close>

definition redis_hit :: "'s redis \<Rightarrow> string option \<Rightarrow> string \<Rightarrow> int \<Rightarrow> 's \<Rightarrow> (string + int \<times> int) \<times> 's" where
  "redis_hit R fault key window s = (case fault of
       Some message \<Rightarrow> (Inl message, s)
     | None \<Rightarrow> case window_script R (''partha:ratelimit:'' @ key) window s of
         ((n, ttl), s') \<Rightarrow> (Inr (n, max 1 ttl), s'))"

subsection \<open>The middleware\<close>

record rate_settings =
  rs_enabled :: bool
  rs_auth_per_minute :: int
  rs_ai_per_minute :: int
  rs_heavy_per_minute :: int
  rs_default_per_minute :: int

record runtime_metrics =
  rm_rate_limited_total :: int
  rm_rate_limit_degraded_total :: int

definition record_rate_limited :: "runtime_metrics \<Rightarrow> runtime_metrics" where
  "record_rate_limited m = m\<lparr>rm_rate_limited_total := rm_rate_limited_total m + 1\<rparr>"

definition record_rate_limit_degraded :: "runtime_metrics \<Rightarrow> runtime_metrics" where
  "record_rate_limit_degraded m = m\<lparr>rm_rate_limit_degraded_total := rm_rate_limit_degraded_total m + 1\<rparr>"

definition budget :: "rate_settings \<Rightarrow> string \<Rightarrow> int" where
  "budget S c = (if c = ''auth'' then rs_auth_per_minute S else if c = ''ai'' then rs_ai_per_minute S
     else if c = ''heavy'' then rs_heavy_per_minute S else rs_default_per_minute S)"

definition rate_key :: "(string \<Rightarrow> string option) \<Rightarrow> string \<Rightarrow> request \<Rightarrow> string" where
  "rate_key decode c rq = c @ '':'' @ resolve_rate_key decode rq"

text \<open>The request goes on to the application, or is answered with status 429 and a Retry-After header.\<close>

datatype decision = CallNext | TooManyRequests int

definition dispatch :: "rate_settings \<Rightarrow> (string \<Rightarrow> string option) \<Rightarrow> (string \<Rightarrow> int \<Rightarrow> 's \<Rightarrow> (string + int \<times> int) \<times> 's) \<Rightarrow> request
    \<Rightarrow> 's \<times> runtime_metrics \<Rightarrow> decision \<times> 's \<times> runtime_metrics" where
  "dispatch S decode hit rq = (\<lambda>(s, m).
     if \<not> rs_enabled S then (CallNext, s, m)
     else case classify (rq_method rq) (rq_path rq) of
         None \<Rightarrow> (CallNext, s, m)
       | Some c \<Rightarrow>
           (case hit (rate_key decode c rq) window_seconds s of
              (Inl _, s') \<Rightarrow> (CallNext, s', record_rate_limit_degraded m)
            | (Inr (n, retry_after), s') \<Rightarrow>
                if n > budget S c then (TooManyRequests retry_after, s', record_rate_limited m)
                else (CallNext, s', m)))"

text \<open>The middleware over the memory store, which never fails.\<close>

definition memory_store :: "int \<Rightarrow> string \<Rightarrow> int \<Rightarrow> windows \<Rightarrow> (string + int \<times> int) \<times> windows" where
  "memory_store now key window s = (case memory_hit now key window s of (r, s') \<Rightarrow> (Inr r, s'))"

section \<open>The contract of a store\<close>

text \<open>
  The protocol class \<^verbatim>\<open>RateLimitStore\<close>, a fixed-window counter: \<^verbatim>\<open>used now s k\<close> is the number of hits in the window of \<^verbatim>\<open>k\<close> that is
  open at \<^verbatim>\<open>now\<close>. A hit counts itself, opens or extends only the window of its key, and says how long to wait.
\<close>

text \<open>The number of hits of a key that a budget lets through, for hits that arrive at one instant.\<close>

fun admitted :: "(int \<Rightarrow> string \<Rightarrow> int \<Rightarrow> 's \<Rightarrow> (int \<times> int) \<times> 's) \<Rightarrow> int \<Rightarrow> int \<Rightarrow> int \<Rightarrow> string list \<Rightarrow> 's \<Rightarrow> string \<Rightarrow> int" where
  "admitted hit window limit now [] s k = 0"
| "admitted hit window limit now (k' # ks) s k =
     (if k' = k \<and> fst (fst (hit now k' window s)) \<le> limit then 1 else 0)
     + admitted hit window limit now ks (snd (hit now k' window s)) k"

locale rate_limit_store =
  fixes hit :: "int \<Rightarrow> string \<Rightarrow> int \<Rightarrow> 's \<Rightarrow> (int \<times> int) \<times> 's"
    and used :: "int \<Rightarrow> int \<Rightarrow> 's \<Rightarrow> string \<Rightarrow> int"
  assumes counts: "0 < window \<Longrightarrow> fst (fst (hit now k window s)) = used window now s k + 1"
    and counted: "0 < window \<Longrightarrow> used window now (snd (hit now k window s)) k = used window now s k + 1"
    and separate: "k' \<noteq> k \<Longrightarrow> used w t (snd (hit now k window s)) k' = used w t s k'"
    and waits: "1 \<le> snd (fst (hit now k window s))"
begin

lemma admitted_exact:
  "0 < window \<Longrightarrow> admitted hit window limit now ks s k
     = max 0 (min (int (count_list ks k)) (limit - used window now s k))"
proof (induction ks arbitrary: s)
  case (Cons k' ks)
  then show ?case
    by (cases "k' = k") (auto simp: counts counted separate)
qed simp

end

definition memory_used :: "int \<Rightarrow> int \<Rightarrow> windows \<Rightarrow> string \<Rightarrow> int" where
  "memory_used window now s k = (case s k of
     Some (start, n) \<Rightarrow> if now - start \<ge> window * 1000000 then 0 else n | None \<Rightarrow> 0)"

lemma memory_hit_eq:
  "0 < window \<Longrightarrow> memory_hit now k window s =
     (let start = (case s k of Some (st, n) \<Rightarrow> if now - st \<ge> window * 1000000 then now else st | None \<Rightarrow> now);
          n = memory_used window now s k + 1 in
      ((n, max 1 (ceil_seconds (window * 1000000 - (now - start)))), s(k \<mapsto> (start, n))))"
  by (auto simp: memory_hit_def memory_used_def Let_def split: option.splits)

interpretation ms: rate_limit_store memory_hit memory_used
proof
  show "k' \<noteq> k \<Longrightarrow> memory_used w t (snd (memory_hit now k window s)) k' = memory_used w t s k'" for k' k w t now window s
    by (auto simp: memory_hit_def memory_used_def Let_def split: option.splits prod.splits)
  show "1 \<le> snd (fst (memory_hit now k window s))" for now k window s
    by (auto simp: memory_hit_def Let_def split: option.splits prod.splits)
qed (auto simp: memory_hit_eq Let_def, auto simp: memory_used_def split: option.splits)

text \<open>
  The counter is exact. Of the hits of a key that arrive together, however they are interleaved with hits of other keys, the store admits
  precisely what is left of the budget in the open window.
\<close>

theorem memory_admits_what_is_left:
  assumes "0 < w"
  shows "admitted memory_hit w limit now ks s k = max 0 (min (int (count_list ks k)) (limit - memory_used w now s k))"
  by (rule ms.admitted_exact [OF assms])

theorem memory_admits_what_is_left_witness:
  "(0::int) < 60 \<and> admitted memory_hit 60 3 1000 [''a'', ''b'', ''a'', ''a'', ''b''] [''a'' \<mapsto> (0, 1)] ''a'' = 2"
proof -
  have "memory_used 60 1000 [''a'' \<mapsto> (0, 1)] ''a'' = 1" by code_simp
  then show ?thesis
    using memory_admits_what_is_left [of 60 3 1000 "[''a'', ''b'', ''a'', ''a'', ''b'']" "[''a'' \<mapsto> (0, 1)]" "''a''"] by simp
qed

section \<open>Budgets are separate\<close>

text \<open>Who a request is charged to: a verified user, or an address.\<close>

definition identity :: "(string \<Rightarrow> string option) \<Rightarrow> request \<Rightarrow> string + string" where
  "identity decode rq = (case authenticated_user_id decode rq of
     Some u \<Rightarrow> Inl u | None \<Rightarrow> Inr (case rq_client_host rq of Some host \<Rightarrow> host | None \<Rightarrow> ''unknown''))"

lemma classify_class: "classify mth p = Some c \<Longrightarrow> c \<in> {''auth'', ''ai'', ''heavy'', ''default''}"
  by (auto simp: classify_def split: if_splits)

lemma split_at_colon: "CHR '':'' \<notin> set a \<Longrightarrow> CHR '':'' \<notin> set a' \<Longrightarrow> a @ CHR '':'' # b = a' @ CHR '':'' # b' \<Longrightarrow> a = a' \<and> b = b'"
  by (metis split_char_append list.inject join_split)

lemma resolve_rate_key_inj: "resolve_rate_key decode rq = resolve_rate_key decode rq' \<longleftrightarrow> identity decode rq = identity decode rq'"
  by (auto simp: resolve_rate_key_def identity_def split: option.splits)

lemma rate_key_eq:
  assumes "classify mth p = Some c" and "classify mth' p' = Some c'"
  shows "rate_key decode c rq = rate_key decode c' rq' \<longleftrightarrow> c = c' \<and> identity decode rq = identity decode rq'"
proof -
  have n: "CHR '':'' \<notin> set c" "CHR '':'' \<notin> set c'" using classify_class [OF assms(1)] classify_class [OF assms(2)] by auto
  show ?thesis
    using split_at_colon [OF n] by (auto simp: rate_key_def resolve_rate_key_inj [symmetric])
qed

text \<open>
  Budgets are charged to the right identity. Two limited requests share a counter exactly when they fall in the same class and
  come from the same verified user, or both carry no valid token and come from the same address; a user id can never be
  mistaken for an address, and one class never eats into another.
\<close>

theorem rate_key_separates:
  assumes "classify (rq_method rq) (rq_path rq) = Some c" and "classify (rq_method rq') (rq_path rq') = Some c'"
  shows "rate_key decode c rq = rate_key decode c' rq' \<longleftrightarrow> c = c' \<and> identity decode rq = identity decode rq'"
  by (rule rate_key_eq [OF assms])

definition sample_request :: "string \<Rightarrow> string option \<Rightarrow> request" where
  "sample_request host auth = \<lparr> rq_method = ''GET'', rq_path = ''/repositories'', rq_authorization = auth, rq_client_host = Some host \<rparr>"

definition sample_decode :: "string \<Rightarrow> string option" where
  "sample_decode token = (if token = ''t'' then Some ''10.0.0.1'' else None)"

theorem rate_key_separates_witness:
  "classify ''GET'' ''/repositories'' = Some ''default''
   \<and> rate_key sample_decode ''default'' (sample_request ''10.0.0.1'' None) \<noteq> rate_key sample_decode ''default'' (sample_request ''10.0.0.1'' (Some ''Bearer t''))
   \<and> rate_key sample_decode ''default'' (sample_request ''10.0.0.1'' None) = rate_key sample_decode ''default'' (sample_request ''10.0.0.1'' (Some ''Bearer forged''))"
proof -
  let ?a = "sample_request ''10.0.0.1'' None" and ?b = "sample_request ''10.0.0.1'' (Some ''Bearer t'')"
    and ?c = "sample_request ''10.0.0.1'' (Some ''Bearer forged'')"
  have c: "classify (rq_method r) (rq_path r) = Some ''default''" if "r = ?a \<or> r = ?b \<or> r = ?c" for r
  proof -
    have "rq_method r = ''GET''" "rq_path r = ''/repositories''" using that by (auto simp: sample_request_def)
    moreover have "classify ''GET'' ''/repositories'' = Some ''default''" by code_simp
    ultimately show ?thesis by simp
  qed
  have i: "identity sample_decode ?a = Inr ''10.0.0.1''" "identity sample_decode ?b = Inl ''10.0.0.1''" "identity sample_decode ?c = Inr ''10.0.0.1''"
    by code_simp+
  have "classify ''GET'' ''/repositories'' = Some ''default''" using c [of ?a] by (simp add: sample_request_def)
  then show ?thesis using rate_key_separates [OF c [of ?a] c [of ?b], of sample_decode] rate_key_separates [OF c [of ?a] c [of ?c], of sample_decode]
    by (simp add: i)
qed

section \<open>The number of requests that pass\<close>

text \<open>How many of a sequence of timed requests are charged to a key and go on.\<close>

fun passed :: "rate_settings \<Rightarrow> (string \<Rightarrow> string option) \<Rightarrow> string \<Rightarrow> string \<Rightarrow> (int \<times> request) list \<Rightarrow> windows \<times> runtime_metrics \<Rightarrow> int" where
  "passed S decode c key [] sm = 0"
| "passed S decode c key ((now, rq) # rqs) sm =
     (case dispatch S decode (memory_store now) rq sm of (d, sm') \<Rightarrow>
        (if classify (rq_method rq) (rq_path rq) = Some c \<and> rate_key decode c rq = key \<and> d = CallNext then 1 else 0)
        + passed S decode c key rqs sm')"

text \<open>One request: what it does to the window of the key, and whether it passes.\<close>

lemma dispatch_memory:
  assumes "rs_enabled S" and c: "classify mth p = Some c" and key: "key = rate_key decode c r0"
    and d: "dispatch S decode (memory_store now) rq (s, m) = (d, s', m')"
  shows "if classify (rq_method rq) (rq_path rq) = Some c \<and> rate_key decode c rq = key
    then s' key = snd (memory_hit now key window_seconds s) key \<and> (d = CallNext \<longleftrightarrow> fst (fst (memory_hit now key window_seconds s)) \<le> budget S c)
    else s' key = s key"
proof (cases "classify (rq_method rq) (rq_path rq)")
  case None
  then show ?thesis using d assms(1) by (simp add: dispatch_def)
next
  case (Some c')
  obtain n r s1 where h: "memory_hit now (rate_key decode c' rq) window_seconds s = ((n, r), s1)" by (metis surj_pair)
  have d': "s' = s1" "d = CallNext \<longleftrightarrow> n \<le> budget S c'"
    using d assms(1) by (auto simp: dispatch_def Some memory_store_def h split: if_splits)
  show ?thesis
  proof (cases "rate_key decode c' rq = key")
    case True
    then have "c' = c" using rate_key_eq [OF Some c] key by simp
    then show ?thesis using True d' h Some by simp
  next
    case False
    then have "s1 key = s key" using h by (auto simp: memory_hit_def Let_def split: prod.splits if_splits)
    moreover have "\<not> (classify (rq_method rq) (rq_path rq) = Some c \<and> rate_key decode c rq = key)" using False Some by auto
    ultimately show ?thesis using d'(1) by (simp only: if_False)
  qed
qed

abbreviation window :: int where
  "window \<equiv> window_seconds * 1000000"

lemma passed_open_window:
  assumes "rs_enabled S" and c: "classify mth p = Some c" and key: "key = rate_key decode c r0"
  shows "s key = Some (start, n) \<Longrightarrow> \<forall>(t, rq) \<in> set rqs. t - start < window \<Longrightarrow>
    passed S decode c key rqs (s, m) \<le> max 0 (budget S c - n)"
proof (induction rqs arbitrary: s m n)
  case (Cons x rqs)
  obtain now rq d s' m' where x: "x = (now, rq)" and d: "dispatch S decode (memory_store now) rq (s, m) = (d, s', m')"
    by (metis surj_pair)
  note dm = dispatch_memory [OF assms d]
  have open1: "now - start < window" and rest: "\<forall>(t, rq) \<in> set rqs. t - start < window" using Cons.prems(2) x by auto
  show ?case
  proof (cases "classify (rq_method rq) (rq_path rq) = Some c \<and> rate_key decode c rq = key")
    case True
    have "s' key = Some (start, n + 1)" "d = CallNext \<longleftrightarrow> n + 1 \<le> budget S c"
      using dm True Cons.prems(1) open1 by (auto simp: memory_hit_def Let_def)
    then show ?thesis using Cons.IH [of s' "n + 1" m'] rest True x d by auto
  next
    case False
    then have "s' key = Some (start, n)" using dm Cons.prems(1) by simp
    then show ?thesis using Cons.IH [of s' n m'] rest False x d by auto
  qed
qed simp

text \<open>A clock that does not run backwards, over less than one window.\<close>

definition within_window :: "(int \<times> request) list \<Rightarrow> bool" where
  "within_window rqs \<longleftrightarrow> sorted (map fst rqs) \<and> (rqs \<noteq> [] \<longrightarrow> fst (last rqs) - fst (hd rqs) < window)"

lemma within_window_Cons:
  assumes "within_window ((now, rq) # rqs)"
  shows "within_window rqs" and "\<forall>(t, rq) \<in> set rqs. t - now < window"
proof -
  have s: "sorted (map fst rqs)" and ge: "\<forall>x \<in> set rqs. now \<le> fst x"
    using assms by (auto simp: within_window_def)
  show all: "\<forall>(t, rq) \<in> set rqs. t - now < window"
  proof clarify
    fix t q assume m: "(t, q) \<in> set rqs"
    then obtain i where i: "i < length rqs" "rqs ! i = (t, q)" by (auto simp: in_set_conv_nth)
    then have "map fst rqs ! i \<le> map fst rqs ! (length rqs - 1)" using s by (intro sorted_nth_mono) auto
    moreover have "rqs \<noteq> []" using m by auto
    ultimately have "t \<le> fst (last rqs)" using i by (simp add: last_conv_nth)
    moreover have "fst (last rqs) - now < window" using assms m by (auto simp: within_window_def split: if_splits)
    ultimately show "t - now < window" by simp
  qed
  have "fst (last rqs) - fst (hd rqs) < window" if "rqs \<noteq> []"
    using that all ge last_in_set [OF that] hd_in_set [OF that] by fastforce
  then show "within_window rqs" using s by (simp add: within_window_def)
qed

lemma passed_two_windows:
  assumes e: "rs_enabled S" and c: "classify mth p = Some c" and key: "key = rate_key decode c r0" and pos: "0 < budget S c"
  shows "within_window rqs \<Longrightarrow> passed S decode c key rqs (s, m) \<le> budget S c
    + (case s key of Some (start, n) \<Rightarrow> max 0 (budget S c - n) | None \<Rightarrow> 0)"
proof (induction rqs arbitrary: s m)
  case (Cons x rqs)
  obtain now rq d s' m' where x: "x = (now, rq)" and d: "dispatch S decode (memory_store now) rq (s, m) = (d, s', m')"
    by (metis surj_pair)
  note dm = dispatch_memory [OF e c key d]
  have w: "within_window rqs" "\<forall>(t, rq) \<in> set rqs. t - now < window"
    using within_window_Cons Cons.prems x by blast+
  show ?case
  proof (cases "classify (rq_method rq) (rq_path rq) = Some c \<and> rate_key decode c rq = key")
    case True
    consider (fresh) "s' key = Some (now, 1)" "d = CallNext"
      | (open1) start n where "s key = Some (start, n)" "s' key = Some (start, n + 1)" "d = CallNext \<longleftrightarrow> n + 1 \<le> budget S c"
      using dm True pos by (cases "s key") (auto simp: memory_hit_def Let_def split: if_splits)
    then show ?thesis
    proof cases
      case fresh
      have "passed S decode c key rqs (s', m') \<le> max 0 (budget S c - 1)"
        by (rule passed_open_window [where s = s' and key = key and start = now and n = 1, OF e c key fresh(1) w(2)])
      then show ?thesis using True x d fresh pos by (auto split: option.splits)
    next
      case open1
      then show ?thesis using Cons.IH [OF w(1), of s' m'] True x d by auto
    qed
  next
    case False
    then have "s' key = s key" using dm by (simp only: if_False)
    then show ?thesis using Cons.IH [OF w(1), of s' m'] False x d by auto
  qed
qed (use pos in \<open>auto split: option.splits\<close>)

text \<open>A store that was filled by hits: every window has at least one.\<close>

definition counted_windows :: "windows \<Rightarrow> bool" where
  "counted_windows s \<longleftrightarrow> (\<forall>k start n. s k = Some (start, n) \<longrightarrow> 1 \<le> n)"

text \<open>
  C23: how much a fixed window really lets through. In any stretch of less than sixty seconds, and however requests of other keys are interleaved, at most
  twice the budget minus one of the requests charged to a key pass (the tail of one window and the head of the next); starting from an unused key it is at
  most the budget itself.
\<close>

theorem burst_bounded:
  assumes "rs_enabled S" and "classify (rq_method r0) (rq_path r0) = Some c" and "0 < budget S c"
    and "counted_windows s" and "within_window rqs"
  shows "passed S decode c (rate_key decode c r0) rqs (s, m) \<le> 2 * budget S c - 1
    \<and> (s (rate_key decode c r0) = None \<longrightarrow> passed S decode c (rate_key decode c r0) rqs (s, m) \<le> budget S c)"
proof -
  note b = passed_two_windows [OF assms(1,2) refl assms(3,5), of decode r0 s m]
  show ?thesis
  proof (cases "s (rate_key decode c r0)")
    case None
    then show ?thesis using b assms(3) by simp
  next
    case (Some w)
    obtain start n where w: "w = (start, n)" by fastforce
    have "1 \<le> n" using assms(4) Some w by (simp add: counted_windows_def)
    then have "max 0 (budget S c - n) \<le> budget S c - 1" using assms(3) by simp
    then show ?thesis using b Some w by (auto simp: max_def split: if_splits)
  qed
qed

definition sample_settings :: rate_settings where
  "sample_settings = \<lparr> rs_enabled = True, rs_auth_per_minute = 2, rs_ai_per_minute = 2, rs_heavy_per_minute = 2, rs_default_per_minute = 2 \<rparr>"

definition sample_burst :: "(int \<times> request) list" where
  "sample_burst = map (\<lambda>t. (t, sample_request ''a'' None)) [59000000, 59000001, 60000000, 60000001, 60000002]"

theorem burst_bounded_witness:
  "passed sample_settings (\<lambda>_. None) ''default'' ''default:ip:a'' sample_burst
      ([''default:ip:a'' \<mapsto> (0, 1)], \<lparr> rm_rate_limited_total = 0, rm_rate_limit_degraded_total = 0 \<rparr>) = 3
   \<and> passed sample_settings (\<lambda>_. None) ''default'' ''default:ip:a'' sample_burst
      ([''default:ip:a'' \<mapsto> (0, 1)], \<lparr> rm_rate_limited_total = 0, rm_rate_limit_degraded_total = 0 \<rparr>) \<le> 3"
proof
  show "passed sample_settings (\<lambda>_. None) ''default'' ''default:ip:a'' sample_burst
      ([''default:ip:a'' \<mapsto> (0, 1)], \<lparr> rm_rate_limited_total = 0, rm_rate_limit_degraded_total = 0 \<rparr>) = 3" by code_simp
  let ?r = "sample_request ''a'' None"
  have 1: "rs_enabled sample_settings" "classify (rq_method ?r) (rq_path ?r) = Some ''default''" "0 < budget sample_settings ''default''"
    "budget sample_settings ''default'' = 2" "within_window sample_burst" "rate_key (\<lambda>_. None) ''default'' ?r = ''default:ip:a''"
    by code_simp+
  have 2: "counted_windows [''default:ip:a'' \<mapsto> (0, 1)]" by (simp add: counted_windows_def)
  show "passed sample_settings (\<lambda>_. None) ''default'' ''default:ip:a'' sample_burst
      ([''default:ip:a'' \<mapsto> (0, 1)], \<lparr> rm_rate_limited_total = 0, rm_rate_limit_degraded_total = 0 \<rparr>) \<le> 3"
    using burst_bounded [OF 1(1-3) 2 1(5), where decode = "\<lambda>_. None"
        and m = "\<lparr> rm_rate_limited_total = 0, rm_rate_limit_degraded_total = 0 \<rparr>"] unfolding 1(4,6) by simp
qed

section \<open>Waiting\<close>

text \<open>
  The Retry-After answer is honest. It is at least one second and at most the window, it never asks for a whole second too many, and a client that waits
  so long finds a fresh window.
\<close>

theorem retry_after_honest:
  assumes "\<forall>start n. s k = Some (start, n) \<longrightarrow> start \<le> now"
    and "memory_hit now k window_seconds s = ((count', retry), s')"
  shows "1 \<le> retry \<and> retry \<le> window_seconds
    \<and> memory_used window_seconds (now + retry * 1000000) s' k = 0
    \<and> (1 < retry \<longrightarrow> memory_used window_seconds (now + (retry - 1) * 1000000) s' k = count')"
proof -
  have pos: "0 < window_seconds" by (simp add: window_seconds_def)
  define st where "st = (case s k of Some (st, n) \<Rightarrow> if now - st \<ge> window then now else st | None \<Rightarrow> now)"
  have st: "st \<le> now" "now - st < window"
    using assms(1) by (auto simp: st_def window_seconds_def split: option.splits)
  have r: "retry = max 1 (ceil_seconds (window - (now - st)))" and s': "s' k = Some (st, count')"
    using assms(2) memory_hit_eq [of window_seconds now k s, folded st_def] pos by (auto simp: Let_def)
  let ?x = "window - (now - st)"
  have x: "0 < ?x" "?x \<le> window" using st by auto
  have c: "ceil_seconds ?x * 1000000 \<ge> ?x" "(ceil_seconds ?x - 1) * 1000000 < ?x"
    by (simp_all add: ceil_seconds_def)
  have "1 \<le> ceil_seconds ?x" using c(1) x(1) by linarith
  moreover have "ceil_seconds ?x \<le> window_seconds" using c(2) x(2) by (simp add: window_seconds_def)
  ultimately have "retry = ceil_seconds ?x" "1 \<le> retry" "retry \<le> window_seconds" using r by auto
  then show ?thesis using c s' by (auto simp: memory_used_def)
qed

theorem retry_after_honest_witness:
  "\<exists>s'. memory_hit 30500000 ''k'' window_seconds [''k'' \<mapsto> (0, 7)] = ((8, 30), s')
     \<and> memory_used window_seconds 60500000 s' ''k'' = 0 \<and> memory_used window_seconds 59500000 s' ''k'' = 8"
proof -
  obtain s' where h: "memory_hit 30500000 ''k'' window_seconds [''k'' \<mapsto> (0, 7)] = ((8, 30), s')"
    by (simp add: memory_hit_def Let_def window_seconds_def ceil_seconds_def)
  show ?thesis using h retry_after_honest [OF _ h] by simp
qed

section \<open>The Redis script\<close>

text \<open>
  What the documentation of the server says of INCR, EXPIRE and TTL, over a view of a key as its value and its remaining
  time to live: INCR starts a missing key at one and keeps the time to live; EXPIRE sets it; TTL is -2 for a
  missing key and -1 for one without expiry.
\<close>

definition redis_documented :: "('s \<Rightarrow> string \<Rightarrow> (int \<times> int option) option) \<Rightarrow> 's redis \<Rightarrow> bool" where
  "redis_documented view R \<longleftrightarrow>
     (\<forall>k s. let (n, ttl) = (case view s k of Some v \<Rightarrow> v | None \<Rightarrow> (0, None)); (n', s') = r_incr R k s in
        n' = n + 1 \<and> view s' k = Some (n + 1, ttl) \<and> (\<forall>k'. k' \<noteq> k \<longrightarrow> view s' k' = view s k'))
   \<and> (\<forall>k w s n ttl. view s k = Some (n, ttl) \<longrightarrow> view (r_expire R k w s) k = Some (n, Some w)
        \<and> (\<forall>k'. k' \<noteq> k \<longrightarrow> view (r_expire R k w s) k' = view s k'))
   \<and> (\<forall>k s. r_ttl R k s = (case view s k of None \<Rightarrow> - 2 | Some (_, None) \<Rightarrow> - 1 | Some (_, Some t) \<Rightarrow> t))"

lemma window_script_spec:
  assumes R: "redis_documented view R" and ttl: "\<forall>n t. view s k = Some (n, Some t) \<longrightarrow> 0 \<le> t"
    and n: "\<forall>n t. view s k = Some (n, t) \<longrightarrow> 1 \<le> n"
  shows "\<exists>s' left. window_script R k w s = ((case view s k of Some (n, _) \<Rightarrow> n + 1 | None \<Rightarrow> 1, left), s')
    \<and> left = (case view s k of Some (_, Some t) \<Rightarrow> t | _ \<Rightarrow> w)
    \<and> view s' k = Some (case view s k of Some (n, _) \<Rightarrow> n + 1 | None \<Rightarrow> 1, Some left)
    \<and> (\<forall>k'. k' \<noteq> k \<longrightarrow> view s' k' = view s k')"
proof -
  obtain n' s1 where i: "r_incr R k s = (n', s1)" by fastforce
  define n0 where "n0 = (case view s k of Some (n, _) \<Rightarrow> n | None \<Rightarrow> 0)"
  define t0 where "t0 = (case view s k of Some (_, t) \<Rightarrow> t | None \<Rightarrow> None)"
  have "let (n, ttl) = (case view s k of Some v \<Rightarrow> v | None \<Rightarrow> (0, None)); (n', s') = r_incr R k s in
        n' = n + 1 \<and> view s' k = Some (n + 1, ttl) \<and> (\<forall>k'. k' \<noteq> k \<longrightarrow> view s' k' = view s k')"
    using R unfolding redis_documented_def by blast
  then have v1: "n' = n0 + 1" "view s1 k = Some (n0 + 1, t0)" "\<And>k'. k' \<noteq> k \<Longrightarrow> view s1 k' = view s k'"
    using i by (auto simp: n0_def t0_def split: option.splits)
  have ex: "view (r_expire R k w s1) k = Some (n0 + 1, Some w)" "\<And>k'. k' \<noteq> k \<Longrightarrow> view (r_expire R k w s1) k' = view s k'"
    using R v1 unfolding redis_documented_def by metis+
  have tt: "r_ttl R k s2 = (case view s2 k of None \<Rightarrow> - 2 | Some (_, None) \<Rightarrow> - 1 | Some (_, Some t) \<Rightarrow> t)" for s2
    using R unfolding redis_documented_def by blast
  have one: "n0 + 1 = 1 \<longleftrightarrow> view s k = None" using n by (force simp: n0_def split: option.splits)
  have n1: "(case view s k of Some (n, _) \<Rightarrow> n + 1 | None \<Rightarrow> 1) = n0 + 1" by (auto simp: n0_def split: option.splits)
  show ?thesis
  proof (cases "\<exists>n t. view s k = Some (n, Some t)")
    case True
    then obtain m t where m: "view s k = Some (m, Some t)" by blast
    then have "t0 = Some t" "n0 = m" "0 \<le> t" "n' \<noteq> 1" using ttl one v1(1) by (auto simp: t0_def n0_def)
    then show ?thesis using v1 i m by (simp add: window_script_def tt)
  next
    case False
    then have t0: "t0 = None" by (auto simp: t0_def split: option.splits)
    have l: "(case view s k of Some (_, Some t) \<Rightarrow> t | _ \<Rightarrow> w) = w" using False by (auto split: option.splits)
    have "window_script R k w s = ((n0 + 1, w), r_expire R k w s1)"
      using i v1 t0 ex(1) by (simp add: window_script_def tt)
    then show ?thesis using ex l n1 by simp
  qed
qed

text \<open>
  The shared counter counts every hit once and never becomes immortal. On a server that does what its documentation says, the script answers with one more than the
  stored value, leaves the other keys alone, and always leaves the counter with an expiry: a fresh key and a key that had lost its expiry get the whole window, any
  other keeps the time it had, and the caller is told to wait that time but at least one second.
\<close>

theorem redis_hit_window:
  assumes "redis_documented view R" and "k = ''partha:ratelimit:'' @ key"
    and "\<forall>n t. view s k = Some (n, Some t) \<longrightarrow> 0 \<le> t" and "\<forall>n t. view s k = Some (n, t) \<longrightarrow> 1 \<le> n"
  shows "\<exists>s' left. redis_hit R None key w s = (Inr (case view s k of Some (n, _) \<Rightarrow> n + 1 | None \<Rightarrow> 1, max 1 left), s')
    \<and> left = (case view s k of Some (_, Some t) \<Rightarrow> t | _ \<Rightarrow> w)
    \<and> view s' k = Some (case view s k of Some (n, _) \<Rightarrow> n + 1 | None \<Rightarrow> 1, Some left)
    \<and> (\<forall>k'. k' \<noteq> k \<longrightarrow> view s' k' = view s k')"
proof -
  obtain s' left where "window_script R k w s = ((case view s k of Some (n, _) \<Rightarrow> n + 1 | None \<Rightarrow> 1, left), s')"
    "left = (case view s k of Some (_, Some t) \<Rightarrow> t | _ \<Rightarrow> w)"
    "view s' k = Some (case view s k of Some (n, _) \<Rightarrow> n + 1 | None \<Rightarrow> 1, Some left)" "\<forall>k'. k' \<noteq> k \<longrightarrow> view s' k' = view s k'"
    using window_script_spec [OF assms(1,3,4)] by blast
  then show ?thesis unfolding redis_hit_def assms(2) [symmetric] option.case by (intro exI [of _ s'] exI [of _ left]) simp
qed

definition table_redis :: "(string \<Rightarrow> (int \<times> int option) option) redis" where
  "table_redis = \<lparr>
     r_incr = (\<lambda>k s. case s k of Some (n, t) \<Rightarrow> (n + 1, s(k \<mapsto> (n + 1, t))) | None \<Rightarrow> (1, s(k \<mapsto> (1, None)))),
     r_expire = (\<lambda>k w s. case s k of Some (n, t) \<Rightarrow> s(k \<mapsto> (n, Some w)) | None \<Rightarrow> s),
     r_ttl = (\<lambda>k s. case s k of None \<Rightarrow> - 2 | Some (_, None) \<Rightarrow> - 1 | Some (_, Some t) \<Rightarrow> t) \<rparr>"

theorem redis_hit_window_witness:
  "\<exists>s'. redis_hit table_redis None ''k'' 60 [''partha:ratelimit:k'' \<mapsto> (4, None)] = (Inr (5, 60), s')
     \<and> s' ''partha:ratelimit:k'' = Some (5, Some 60)"
proof -
  have d: "redis_documented (\<lambda>s. s) table_redis"
    by (auto simp: redis_documented_def table_redis_def Let_def split: option.splits)
  show ?thesis
    using redis_hit_window [OF d, where k = "''partha:ratelimit:k''" and key = "''k''" and s = "[''partha:ratelimit:k'' \<mapsto> (4, None)]" and w = 60]
    by auto
qed

end
