(* ===== verification/Snapshot_Query.thy ===== *)
theory Snapshot_Query
  imports Snapshot_Seal
begin

text \<open>
  The read side of the snapshot store (\<^verbatim>\<open>app/intelligence/query_service.py\<close>): which snapshot a caller may see, which one describes
  the current revision of a repository, pages of facts, and the bounded breadth-first impact query.

  A query is a function of the committed tables and may raise. An SQL text order is the byte order of the text (SQLite's), and an
  \<^verbatim>\<open>ORDER BY\<close> that ends in the row id is a strict order of the rows.
\<close>

section \<open>Model\<close>

datatype query_error =
    NotFound string
  | UnsupportedSchemaVersion string
  | AttributeError

type_synonym 'a query = "db \<Rightarrow> query_error + 'a"

subsection \<open>Resolution of a snapshot\<close>

definition supported_schema_versions :: "string list" where
  "supported_schema_versions = [''ri.v1'']"

definition checked_schema :: "ri_snapshot \<Rightarrow> query_error + ri_snapshot" where
  "checked_schema s = (if sn_schema_version s \<notin> set supported_schema_versions then Inl (UnsupportedSchemaVersion (sn_schema_version s)) else Inr s)"

text \<open>The join with \<^verbatim>\<open>repositories\<close> and the two conditions that every resolution of a snapshot has.\<close>

definition visible :: "string \<Rightarrow> db \<Rightarrow> ri_snapshot \<Rightarrow> bool" where
  "visible owner_id d s \<longleftrightarrow> list_ex (\<lambda>r. rp_id r = sn_repository_id s \<and> rp_owner_id r = owner_id) (db_repositories d) \<and> sn_state s = ''completed''"

definition snapshot :: "string \<Rightarrow> string \<Rightarrow> ri_snapshot query" where
  "snapshot owner_id snapshot_id d = (case find (\<lambda>s. sn_snapshot_id s = snapshot_id \<and> visible owner_id d s) (db_snapshots d) of
     None \<Rightarrow> Inl (NotFound ''Snapshot not found.'')
   | Some s \<Rightarrow> checked_schema s)"

definition optional_schema :: "ri_snapshot option \<Rightarrow> query_error + ri_snapshot option" where
  "optional_schema s = (case s of None \<Rightarrow> Inr None | Some s \<Rightarrow> bindR (checked_schema s) (\<lambda>s. Inr (Some s)))"

definition sealed_snapshot_for_owner :: "string \<Rightarrow> string \<Rightarrow> string \<Rightarrow> ri_snapshot option query" where
  "sealed_snapshot_for_owner owner_id repository_id snapshot_id d =
     optional_schema (find (\<lambda>s. sn_repository_id s = repository_id \<and> sn_snapshot_id s = snapshot_id \<and> visible owner_id d s) (db_snapshots d))"

text \<open>\<^verbatim>\<open>NULL\<close> comes before every value.\<close>

definition nulls_first :: "'a option \<Rightarrow> 'a list" where
  "nulls_first x = (case x of None \<Rightarrow> [] | Some v \<Rightarrow> [v])"

text \<open>\<^verbatim>\<open>ORDER BY sealed_at DESC, snapshot_id\<close>\<close>

definition newest_first :: "ri_snapshot \<Rightarrow> (nat \<times> int) \<times> string" where
  "newest_first s = (case sn_sealed_at s of Some t \<Rightarrow> ((0, - t), sn_snapshot_id s) | None \<Rightarrow> ((1, 0), sn_snapshot_id s))"

definition first_row :: "('r \<Rightarrow> 'k :: linorder) \<Rightarrow> 'r list \<Rightarrow> 'r option" where
  "first_row order_by rows = (case sort_key order_by rows of [] \<Rightarrow> None | r # _ \<Rightarrow> Some r)"

definition latest_snapshot :: "string \<Rightarrow> string \<Rightarrow> ri_snapshot option query" where
  "latest_snapshot owner_id repository_id d =
     optional_schema (first_row newest_first (filter (\<lambda>s. sn_repository_id s = repository_id \<and> visible owner_id d s) (db_snapshots d)))"

text \<open>\<^verbatim>\<open>db.get(RepositoryRecord, id)\<close>: by primary key, without the owner.\<close>

definition repository_by_id :: "string \<Rightarrow> db \<Rightarrow> repository_row option" where
  "repository_by_id rid d = find (\<lambda>r. rp_id r = rid) (db_repositories d)"

definition require_sealed_snapshot_for_current_revision :: "string \<Rightarrow> string \<Rightarrow> ri_snapshot query" where
  "require_sealed_snapshot_for_current_revision owner_id repository_id d =
     bindR (latest_snapshot owner_id repository_id d) (\<lambda>s. case s of
       None \<Rightarrow> Inl (NotFound ''No sealed Repository Intelligence snapshot is available for this repository.'')
     | Some s \<Rightarrow>
         let record = repository_by_id repository_id d in
         if record = None \<or> sn_repository_id s \<noteq> rp_id (the record) \<or> sn_revision_kind s \<noteq> rp_revision_kind (the record)
            \<or> sn_revision_value s \<noteq> rp_revision_value (the record)
         then Inl (NotFound ''The sealed snapshot does not match the selected repository revision.'')
         else if sn_canonical_graph_hash s = None \<or> sn_sealed_at s = None
         then Inl (NotFound ''The selected repository revision has no sealed snapshot.'')
         else Inr s)"

subsection \<open>Row orders\<close>

definition node_order :: "ri_node \<Rightarrow> string \<times> int" where
  "node_order n = (nd_stable_key n, nd_id n)"

definition edge_order :: "ri_edge \<Rightarrow> string \<times> string \<times> string \<times> string \<times> int" where
  "edge_order e = (eg_subject_key e, eg_predicate e, eg_object_key e, eg_edge_id e, eg_id e)"

definition assertion_order :: "ri_assertion \<Rightarrow> string \<times> string \<times> string \<times> int" where
  "assertion_order a = (as_subject_key a, as_predicate a, as_assertion_id a, as_id a)"

definition evidence_order :: "ri_evidence \<Rightarrow> (string \<times> int \<times> int \<times> string \<times> string \<times> string) \<times> int" where
  "evidence_order e = (evidence_fact e, ee_id e)"

definition diagnostic_order :: "ri_diagnostic \<Rightarrow> string list \<times> int list \<times> string \<times> int" where
  "diagnostic_order r = (nulls_first (dg_path r), nulls_first (dg_span_start_line r), dg_code r, dg_id r)"

subsection \<open>Pages\<close>

definition page_of :: "('r \<Rightarrow> 'k :: linorder) \<Rightarrow> ('r \<Rightarrow> bool) \<Rightarrow> nat \<Rightarrow> nat \<Rightarrow> 'r list \<Rightarrow> 'r list \<times> nat" where
  "page_of order_by w off limit table =
     (take limit (drop off (sort_key order_by (filter w table))), length (filter w table))"

type_synonym 'r paged = "ri_snapshot \<times> 'r list \<times> nat"

definition paged :: "string \<Rightarrow> string \<Rightarrow> (db \<Rightarrow> ri_snapshot \<Rightarrow> 'r list \<times> nat) \<Rightarrow> 'r paged query" where
  "paged owner_id snapshot_id f d = bindR (snapshot owner_id snapshot_id d) (\<lambda>s. Inr (s, f d s))"

definition symbols :: "string \<Rightarrow> string \<Rightarrow> nat \<Rightarrow> nat \<Rightarrow> ri_node paged query" where
  "symbols owner_id snapshot_id off limit = paged owner_id snapshot_id
     (\<lambda>d s. page_of node_order (\<lambda>n. nd_snapshot_id n = sn_snapshot_id s \<and> nd_node_kind n = ''symbol'') off limit (db_nodes d))"

definition paths :: "string \<Rightarrow> string \<Rightarrow> nat \<Rightarrow> nat \<Rightarrow> ri_node paged query" where
  "paths owner_id snapshot_id off limit = paged owner_id snapshot_id
     (\<lambda>d s. page_of node_order (\<lambda>n. nd_snapshot_id n = sn_snapshot_id s \<and> nd_node_kind n = ''file'') off limit (db_nodes d))"

definition neighbours :: "string \<Rightarrow> string \<Rightarrow> string \<Rightarrow> nat \<Rightarrow> nat \<Rightarrow> ri_edge paged query" where
  "neighbours owner_id snapshot_id start_key off limit = paged owner_id snapshot_id
     (\<lambda>d s. page_of edge_order (\<lambda>e. eg_snapshot_id e = sn_snapshot_id s \<and> (eg_subject_key e = start_key \<or> eg_object_key e = start_key)) off limit (db_edges d))"

definition references :: "string \<Rightarrow> string \<Rightarrow> nat \<Rightarrow> nat \<Rightarrow> ri_edge paged query" where
  "references owner_id snapshot_id off limit = paged owner_id snapshot_id
     (\<lambda>d s. page_of edge_order (\<lambda>e. eg_snapshot_id e = sn_snapshot_id s) off limit (db_edges d))"

definition assertions :: "string \<Rightarrow> string \<Rightarrow> nat \<Rightarrow> nat \<Rightarrow> ri_assertion paged query" where
  "assertions owner_id snapshot_id off limit = paged owner_id snapshot_id
     (\<lambda>d s. page_of assertion_order (\<lambda>a. as_snapshot_id a = sn_snapshot_id s) off limit (db_assertions d))"

definition evidence :: "string \<Rightarrow> string \<Rightarrow> nat \<Rightarrow> nat \<Rightarrow> ri_evidence paged query" where
  "evidence owner_id snapshot_id off limit = paged owner_id snapshot_id
     (\<lambda>d s. page_of evidence_order (\<lambda>e. ee_snapshot_id e = sn_snapshot_id s) off limit (db_evidence d))"

subsection \<open>Citations\<close>

text \<open>The outer joins: an evidence row with the node, edge or observation it belongs to, where that exists.\<close>

definition has_evidence_reference :: "ri_snapshot \<Rightarrow> string \<Rightarrow> string \<Rightarrow> int \<Rightarrow> int \<Rightarrow> db \<Rightarrow> bool" where
  "has_evidence_reference s fact_id path start_line end_line d \<longleftrightarrow> list_ex (\<lambda>e.
       ee_snapshot_id e = sn_snapshot_id s \<and> ee_path e = path \<and> ee_start_line e = start_line \<and> ee_end_line e = end_line
     \<and> (list_ex (\<lambda>n. nd_snapshot_id n = ee_snapshot_id e \<and> ee_node_ref e = Some (nd_id n) \<and> nd_stable_key n = fact_id) (db_nodes d)
      \<or> list_ex (\<lambda>g. eg_snapshot_id g = ee_snapshot_id e \<and> ee_edge_ref e = Some (eg_id g) \<and> eg_edge_id g = fact_id) (db_edges d)
      \<or> list_ex (\<lambda>b. ob_snapshot_id b = ee_snapshot_id e \<and> ee_observation_ref e = Some (ob_id b) \<and> ob_observation_id b = fact_id) (db_observations d)))
     (db_evidence d)"

definition source_content_hash :: "ri_snapshot \<Rightarrow> string \<Rightarrow> db \<Rightarrow> string option" where
  "source_content_hash s path d =
     (case find (\<lambda>n. nd_snapshot_id n = sn_snapshot_id s \<and> nd_node_kind n = ''file'' \<and> nd_stable_key n = ''file:'' @ path) (db_nodes d) of
        None \<Rightarrow> None
      | Some n \<Rightarrow> (case map_of (case nd_properties n of None \<Rightarrow> [] | Some ps \<Rightarrow> ps) ''content_sha256'' of
          Some (PStr v) \<Rightarrow> Some v | _ \<Rightarrow> None))"

subsection \<open>Evidence in batches\<close>

definition SNAPSHOT_IN_CLAUSE_BATCH_SIZE :: nat where
  "SNAPSHOT_IN_CLAUSE_BATCH_SIZE = 500"

function batched_ids :: "nat \<Rightarrow> 'a list \<Rightarrow> 'a list list" where
  "batched_ids k vs = (if vs = [] \<or> k = 0 then [] else take k vs # batched_ids k (drop k vs))"
  by pat_completeness auto
termination by (relation "measure (\<lambda>(_, vs). length vs)") auto

declare batched_ids.simps [simp del]

text \<open>Groups by parent: each batch appends its rows, in evidence order, to the list of their parent.\<close>

definition add_rows :: "(ri_evidence \<Rightarrow> int option) \<Rightarrow> ri_evidence list \<Rightarrow> (int \<Rightarrow> ri_evidence list) \<Rightarrow> int \<Rightarrow> ri_evidence list" where
  "add_rows column rows grouped = fold (\<lambda>row g. case column row of None \<Rightarrow> g | Some parent \<Rightarrow> g(parent := g parent @ [row])) rows grouped"

definition evidence_for :: "ri_snapshot \<Rightarrow> (ri_evidence \<Rightarrow> int option) \<Rightarrow> int list \<Rightarrow> db \<Rightarrow> int \<Rightarrow> ri_evidence list" where
  "evidence_for s column ids d =
     fold (\<lambda>batch. add_rows column
         (sort_key evidence_order (filter (\<lambda>e. ee_snapshot_id e = sn_snapshot_id s \<and> (\<exists>i \<in> set batch. column e = Some i)) (db_evidence d))))
       (batched_ids SNAPSHOT_IN_CLAUSE_BATCH_SIZE ids) (\<lambda>_. [])"

subsection \<open>Facts for architecture and authentication\<close>

definition ARCHITECTURE_RELATIONSHIP_EDGE_TYPES :: "(string \<times> string) list" where
  "ARCHITECTURE_RELATIONSHIP_EDGE_TYPES = [(''imports'', ''import''), (''calls'', ''calls''), (''routes_to'', ''api-call''),
     (''implements'', ''dependency''), (''depends_on'', ''dependency'')]"

definition AUTHENTICATION_EXPLANATION_PREDICATES :: "string list" where
  "AUTHENTICATION_EXPLANATION_PREDICATES = [''injects'', ''calls'', ''routes_to'']"

definition ARCHITECTURE_FACT_PREDICATES :: "string list" where
  "ARCHITECTURE_FACT_PREDICATES = map fst ARCHITECTURE_RELATIONSHIP_EDGE_TYPES @ AUTHENTICATION_EXPLANATION_PREDICATES"

definition ARCHITECTURE_DIAGNOSTIC_CODES :: "string list" where
  "ARCHITECTURE_DIAGNOSTIC_CODES = [''RI-RES-UNRESOLVED'', ''RI-RES-AMBIGUOUS'']"

definition AUTHENTICATION_DIAGNOSTIC_CODES :: "string list" where
  "AUTHENTICATION_DIAGNOSTIC_CODES = [''RI-RES-UNRESOLVED'', ''RI-RES-AMBIGUOUS'', ''RI-EXT-UNSUPPORTED'', ''RI-SRC-MALFORMED'']"

definition ARCHITECTURE_FACT_DIAGNOSTIC_CODES :: "string list" where
  "ARCHITECTURE_FACT_DIAGNOSTIC_CODES = ARCHITECTURE_DIAGNOSTIC_CODES @ AUTHENTICATION_DIAGNOSTIC_CODES"

definition ARCHITECTURE_NODE_KINDS :: "string list" where
  "ARCHITECTURE_NODE_KINDS = [''file'', ''dependency'', ''repository'']"

definition ARCHITECTURE_ASSERTION_PREDICATES :: "string list" where
  "ARCHITECTURE_ASSERTION_PREDICATES = [''classified_as'']"

record architecture_snapshot_facts =
  af_snapshot :: ri_snapshot
  af_nodes :: "ri_node list"
  af_symbol_keys :: "string list"
  af_edges :: "ri_edge list"
  af_assertions :: "ri_assertion list"
  af_node_evidence :: "int \<Rightarrow> ri_evidence list"
  af_edge_evidence :: "int \<Rightarrow> ri_evidence list"
  af_diagnostics :: "ri_diagnostic list"
  af_covered_paths :: "string set"

definition architecture_covered_paths :: "ri_snapshot \<Rightarrow> db \<Rightarrow> string set" where
  "architecture_covered_paths s d = set (map ee_path (filter (\<lambda>e. ee_snapshot_id e = sn_snapshot_id s
     \<and> ee_extractor e \<noteq> ''repository-inventory'' \<and> (ee_node_ref e \<noteq> None \<or> ee_observation_ref e \<noteq> None)) (db_evidence d)))"

definition architecture_edges :: "ri_snapshot \<Rightarrow> db \<Rightarrow> ri_edge list" where
  "architecture_edges s d = sort_key edge_order
     (filter (\<lambda>e. eg_snapshot_id e = sn_snapshot_id s \<and> eg_predicate e \<in> set ARCHITECTURE_FACT_PREDICATES) (db_edges d))"

definition architecture_nodes :: "ri_snapshot \<Rightarrow> db \<Rightarrow> ri_node list" where
  "architecture_nodes s d = (let endpoint_keys = concat (map (\<lambda>e. [eg_subject_key e, eg_object_key e]) (architecture_edges s d)) in
     sort_key node_order (filter (\<lambda>n. nd_snapshot_id n = sn_snapshot_id s
       \<and> (nd_node_kind n \<in> set ARCHITECTURE_NODE_KINDS \<or> nd_stable_key n \<in> set endpoint_keys)) (db_nodes d)))"

definition architecture_facts :: "string \<Rightarrow> string \<Rightarrow> architecture_snapshot_facts option query" where
  "architecture_facts owner_id repository_id d = bindR (latest_snapshot owner_id repository_id d) (\<lambda>s. case s of
     None \<Rightarrow> Inr None
   | Some s \<Rightarrow> Inr (Some
       \<lparr> af_snapshot = s, af_nodes = architecture_nodes s d,
         af_symbol_keys = sort (map nd_stable_key (filter (\<lambda>n. nd_snapshot_id n = sn_snapshot_id s \<and> nd_node_kind n = ''symbol'') (db_nodes d))),
         af_edges = architecture_edges s d,
         af_assertions = sort_key assertion_order
           (filter (\<lambda>a. as_snapshot_id a = sn_snapshot_id s \<and> as_predicate a \<in> set ARCHITECTURE_ASSERTION_PREDICATES) (db_assertions d)),
         af_node_evidence = evidence_for s ee_node_ref (map nd_id (architecture_nodes s d)) d,
         af_edge_evidence = evidence_for s ee_edge_ref (map eg_id (architecture_edges s d)) d,
         af_diagnostics = sort_key diagnostic_order
           (filter (\<lambda>r. dg_snapshot_id r = sn_snapshot_id s \<and> dg_code r \<in> set ARCHITECTURE_FACT_DIAGNOSTIC_CODES) (db_diagnostics d)),
         af_covered_paths = architecture_covered_paths s d \<rparr>))"

subsection \<open>Impact\<close>

definition IMPACT_TRAVERSAL_PREDICATES :: "string list" where
  "IMPACT_TRAVERSAL_PREDICATES = [''depends_on'', ''imports'']"

definition IMPACT_MAX_RESULTS_PER_DIRECTION :: nat where
  "IMPACT_MAX_RESULTS_PER_DIRECTION = 100"

record impact_step =
  st_depth :: nat
  st_node_key :: string
  st_edge :: ri_edge

record impact_direction =
  im_steps :: "impact_step list"
  im_limit_reached :: bool

record snapshot_impact =
  si_snapshot :: ri_snapshot
  si_node_key :: string
  si_depth :: nat
  si_dependents :: impact_direction
  si_dependencies :: impact_direction

definition end_key :: "bool \<Rightarrow> ri_edge \<Rightarrow> string" where
  "end_key outbound e = (if outbound then eg_subject_key e else eg_object_key e)"

definition adjacent_key :: "bool \<Rightarrow> ri_edge \<Rightarrow> string" where
  "adjacent_key outbound e = (if outbound then eg_object_key e else eg_subject_key e)"

text \<open>\<^verbatim>\<open>row_number() OVER (PARTITION BY ... ORDER BY ...)\<close>, for an order without ties.\<close>

definition row_number :: "('r \<Rightarrow> 'p) \<Rightarrow> ('r \<Rightarrow> 'k :: linorder) \<Rightarrow> 'r list \<Rightarrow> 'r \<Rightarrow> nat" where
  "row_number part order_by rows r = Suc (length (filter (\<lambda>q. part q = part r \<and> order_by q < order_by r) rows))"

definition frontier_edges :: "db \<Rightarrow> string \<Rightarrow> bool \<Rightarrow> string list \<Rightarrow> string list \<Rightarrow> ri_edge list" where
  "frontier_edges d sid outbound frontier visited = filter (\<lambda>e. eg_snapshot_id e = sid \<and> eg_predicate e \<in> set IMPACT_TRAVERSAL_PREDICATES
     \<and> end_key outbound e \<in> set frontier \<and> adjacent_key outbound e \<notin> set visited) (db_edges d)"

definition ranked_edges :: "db \<Rightarrow> string \<Rightarrow> bool \<Rightarrow> string list \<Rightarrow> string list \<Rightarrow> ri_edge list" where
  "ranked_edges d sid outbound frontier visited = (let rows = frontier_edges d sid outbound frontier visited in
     take (IMPACT_MAX_RESULTS_PER_DIRECTION + 1)
       (sort_key edge_order (filter (\<lambda>e. row_number (adjacent_key outbound) edge_order rows e = 1) rows)))"

text \<open>The inner loop: an early return with the steps so far, or the state after the level.\<close>

fun walk_level :: "bool \<Rightarrow> nat \<Rightarrow> ri_edge list \<Rightarrow> string list \<Rightarrow> string list \<Rightarrow> impact_step list
    \<Rightarrow> impact_step list + (string list \<times> string list \<times> impact_step list)" where
  "walk_level outbound distance [] visited next_frontier steps = Inr (visited, next_frontier, steps)"
| "walk_level outbound distance (e # es) visited next_frontier steps =
     (if length steps \<ge> IMPACT_MAX_RESULTS_PER_DIRECTION then Inl steps
      else let k = adjacent_key outbound e in
        walk_level outbound distance es (visited @ [k]) (next_frontier @ [k]) (steps @ [\<lparr> st_depth = distance, st_node_key = k, st_edge = e \<rparr>]))"

fun impact_levels :: "db \<Rightarrow> string \<Rightarrow> bool \<Rightarrow> nat list \<Rightarrow> string list \<Rightarrow> string list \<Rightarrow> impact_step list \<Rightarrow> impact_direction" where
  "impact_levels d sid outbound [] frontier visited steps = \<lparr> im_steps = steps, im_limit_reached = False \<rparr>"
| "impact_levels d sid outbound (distance # ds) frontier visited steps =
     (if frontier = [] then \<lparr> im_steps = steps, im_limit_reached = False \<rparr>
      else case walk_level outbound distance (ranked_edges d sid outbound frontier visited) visited [] steps of
        Inl steps' \<Rightarrow> \<lparr> im_steps = steps', im_limit_reached = True \<rparr>
      | Inr (visited', frontier', steps') \<Rightarrow> impact_levels d sid outbound ds frontier' visited' steps')"

definition impact_in_direction :: "ri_snapshot \<Rightarrow> string \<Rightarrow> nat \<Rightarrow> bool \<Rightarrow> db \<Rightarrow> impact_direction" where
  "impact_in_direction s start_key max_depth outbound d =
     impact_levels d (sn_snapshot_id s) outbound [1..<max_depth + 1] [start_key] [start_key] []"

definition impact :: "string \<Rightarrow> string \<Rightarrow> string \<Rightarrow> nat \<Rightarrow> snapshot_impact query" where
  "impact owner_id snapshot_id start_key max_depth d =
     bindR (snapshot owner_id snapshot_id d) (\<lambda>s.
       if \<not> list_ex (\<lambda>n. nd_snapshot_id n = sn_snapshot_id s \<and> nd_stable_key n = start_key) (db_nodes d)
       then Inl (NotFound ''Node not found in snapshot.'')
       else Inr \<lparr> si_snapshot = s, si_node_key = start_key, si_depth = max_depth,
         si_dependents = impact_in_direction s start_key max_depth False d,
         si_dependencies = impact_in_direction s start_key max_depth True d \<rparr>)"

section \<open>Impact: every node within reach, nearest first\<close>

definition traversed :: "db \<Rightarrow> string \<Rightarrow> ri_edge set" where
  "traversed d sid = {e \<in> set (db_edges d). eg_snapshot_id e = sid \<and> eg_predicate e \<in> set IMPACT_TRAVERSAL_PREDICATES}"

inductive impact_path :: "db \<Rightarrow> string \<Rightarrow> bool \<Rightarrow> string \<Rightarrow> nat \<Rightarrow> string \<Rightarrow> bool" for d sid outbound start where
  path_start: "impact_path d sid outbound start 0 start"
| path_step: "impact_path d sid outbound start n (end_key outbound e) \<Longrightarrow> e \<in> traversed d sid
    \<Longrightarrow> impact_path d sid outbound start (Suc n) (adjacent_key outbound e)"

inductive_simps impact_path_0: "impact_path d sid outbound start 0 k"
inductive_simps impact_path_Suc: "impact_path d sid outbound start (Suc n) k"

definition at_distance :: "db \<Rightarrow> string \<Rightarrow> bool \<Rightarrow> string \<Rightarrow> nat \<Rightarrow> string \<Rightarrow> bool" where
  "at_distance d sid outbound start n k \<longleftrightarrow> impact_path d sid outbound start n k \<and> (\<forall>m < n. \<not> impact_path d sid outbound start m k)"

lemma at_distance_unique: "at_distance d sid b start n k \<Longrightarrow> at_distance d sid b start m k \<Longrightarrow> m = n"
  by (metis at_distance_def linorder_neqE_nat)

lemma at_distance_0: "at_distance d sid b start 0 k \<longleftrightarrow> k = start"
  by (simp add: at_distance_def impact_path_0)

lemma at_distance_Suc:
  "at_distance d sid b start (Suc n) k \<longleftrightarrow> (\<exists>e \<in> traversed d sid. at_distance d sid b start n (end_key b e) \<and> adjacent_key b e = k)
     \<and> (\<forall>m \<le> n. \<not> impact_path d sid b start m k)" (is "?l \<longleftrightarrow> ?r")
proof
  assume l: ?l
  then obtain e where e: "e \<in> traversed d sid" "impact_path d sid b start n (end_key b e)" "adjacent_key b e = k"
    by (auto simp: at_distance_def impact_path_Suc)
  have "\<not> impact_path d sid b start m (end_key b e)" if "m < n" for m
  proof
    assume "impact_path d sid b start m (end_key b e)"
    then have "impact_path d sid b start (Suc m) k" using e path_step by metis
    then show False using l that by (auto simp: at_distance_def)
  qed
  then show ?r using e l by (auto simp: at_distance_def)
next
  assume ?r
  then show ?l by (auto simp: at_distance_def less_Suc_eq_le intro: path_step)
qed

lemma impact_path_distance: "impact_path d sid b start n k \<Longrightarrow> \<exists>m \<le> n. at_distance d sid b start m k"
  by (rule exI [where x = "LEAST m. impact_path d sid b start m k"])
    (auto simp: at_distance_def intro: LeastI Least_le dest: not_less_Least)

subsection \<open>One edge per node\<close>

lemma row_number_first:
  "row_number part order_by rows r = 1 \<longleftrightarrow> (\<forall>q \<in> set rows. part q = part r \<longrightarrow> order_by r \<le> order_by q)"
  by (auto simp: row_number_def filter_empty_conv not_less)

definition canonical_rows :: "('r \<Rightarrow> 'p) \<Rightarrow> ('r \<Rightarrow> 'k :: linorder) \<Rightarrow> 'r list \<Rightarrow> 'r list" where
  "canonical_rows part order_by rows = sort_key order_by (filter (\<lambda>r. row_number part order_by rows r = 1) rows)"

lemma canonical_rows_set:
  "r \<in> set (canonical_rows part order_by rows) \<longleftrightarrow> r \<in> set rows \<and> (\<forall>q \<in> set rows. part q = part r \<longrightarrow> order_by r \<le> order_by q)"
  by (simp add: canonical_rows_def row_number_first del: One_nat_def)

lemma canonical_rows_parts: "part ` set (canonical_rows part order_by rows) = part ` set rows"
proof -
  have "\<exists>r \<in> set (canonical_rows part order_by rows). part r = part q" if q: "q \<in> set rows" for q
  proof -
    let ?C = "order_by ` {r \<in> set rows. part r = part q}"
    have C: "finite ?C" "?C \<noteq> {}" using q by auto
    from Min_in [OF this] obtain r where r: "r \<in> set rows" "part r = part q" "order_by r = Min ?C" by auto
    have "order_by r \<le> order_by p" if "p \<in> set rows" "part p = part r" for p
      unfolding r(3) using C(1) that r(2) by (intro Min_le) auto
    with r show ?thesis by (auto simp: canonical_rows_set)
  qed
  then have "part ` set rows \<subseteq> part ` set (canonical_rows part order_by rows)" by (metis image_subsetI imageI)
  then show ?thesis by (auto simp: canonical_rows_set)
qed

lemma canonical_rows_distinct:
  assumes "distinct rows" and "inj_on order_by (set rows)"
  shows "distinct (map part (canonical_rows part order_by rows))"
proof -
  have "inj_on part (set (canonical_rows part order_by rows))"
    by (intro inj_onI, elim canonical_rows_set [THEN iffD1, THEN conjE])
      (metis assms(2) inj_onD order_antisym)
  moreover have "distinct (canonical_rows part order_by rows)" by (simp add: canonical_rows_def assms(1))
  ultimately show ?thesis by (simp add: distinct_map)
qed

lemma edge_order_inj:
  assumes "uq_ri_edges es" shows "distinct es" "inj_on edge_order (set es)"
proof -
  have "distinct (map eg_id es)" using assms by (simp add: uq_ri_edges_def unique_index_def)
  then show "distinct es" "inj_on edge_order (set es)"
    by (auto simp: distinct_map edge_order_def inj_on_def)
qed

subsection \<open>Levels\<close>

abbreviation step_at :: "nat \<Rightarrow> bool \<Rightarrow> ri_edge \<Rightarrow> impact_step" where
  "step_at n outbound e \<equiv> \<lparr> st_depth = n, st_node_key = adjacent_key outbound e, st_edge = e \<rparr>"

lemma walk_level_all:
  "length steps + length es \<le> IMPACT_MAX_RESULTS_PER_DIRECTION \<Longrightarrow> walk_level b n es visited nf steps =
     Inr (visited @ map (adjacent_key b) es, nf @ map (adjacent_key b) es, steps @ map (step_at n b) es)"
  by (induction es arbitrary: visited nf steps) (simp_all add: Let_def)

lemma walk_level_capped:
  "length steps \<le> IMPACT_MAX_RESULTS_PER_DIRECTION \<Longrightarrow> IMPACT_MAX_RESULTS_PER_DIRECTION < length steps + length es \<Longrightarrow>
     walk_level b n es visited nf steps = Inl (steps @ map (step_at n b) (take (IMPACT_MAX_RESULTS_PER_DIRECTION - length steps) es))"
proof (induction es arbitrary: visited nf steps)
  case (Cons e es)
  show ?case
  proof (cases "length steps = IMPACT_MAX_RESULTS_PER_DIRECTION")
    case False
    then have "IMPACT_MAX_RESULTS_PER_DIRECTION - length steps = Suc (IMPACT_MAX_RESULTS_PER_DIRECTION - Suc (length steps))"
      using Cons.prems by simp
    then show ?thesis using Cons False by (simp add: Let_def)
  qed simp
qed simp

definition within :: "db \<Rightarrow> string \<Rightarrow> bool \<Rightarrow> string \<Rightarrow> nat \<Rightarrow> string set" where
  "within d sid b start n = {k. \<exists>m. 1 \<le> m \<and> m \<le> n \<and> at_distance d sid b start m k}"

text \<open>A step is proven by the first edge, in row order, from the level before to the node.\<close>

definition proven :: "db \<Rightarrow> string \<Rightarrow> bool \<Rightarrow> string \<Rightarrow> impact_step \<Rightarrow> bool" where
  "proven d sid b start s \<longleftrightarrow> at_distance d sid b start (st_depth s) (st_node_key s) \<and> st_edge s \<in> traversed d sid
     \<and> adjacent_key b (st_edge s) = st_node_key s \<and> at_distance d sid b start (st_depth s - 1) (end_key b (st_edge s))
     \<and> (\<forall>e \<in> traversed d sid. adjacent_key b e = st_node_key s \<and> at_distance d sid b start (st_depth s - 1) (end_key b e)
          \<longrightarrow> edge_order (st_edge s) \<le> edge_order e)"

definition proven_steps :: "db \<Rightarrow> string \<Rightarrow> bool \<Rightarrow> string \<Rightarrow> nat \<Rightarrow> impact_step list \<Rightarrow> bool" where
  "proven_steps d sid b start n steps \<longleftrightarrow> distinct (map st_node_key steps)
     \<and> (\<forall>s \<in> set steps. 1 \<le> st_depth s \<and> st_depth s \<le> n \<and> proven d sid b start s)"

definition level_ok :: "db \<Rightarrow> string \<Rightarrow> bool \<Rightarrow> string \<Rightarrow> nat \<Rightarrow> string list \<Rightarrow> string list \<Rightarrow> impact_step list \<Rightarrow> bool" where
  "level_ok d sid b start n frontier visited steps \<longleftrightarrow>
     set visited = {k. \<exists>m \<le> n. impact_path d sid b start m k} \<and> set frontier = {k. at_distance d sid b start n k}
   \<and> proven_steps d sid b start n steps \<and> st_node_key ` set steps = within d sid b start n
   \<and> length steps \<le> IMPACT_MAX_RESULTS_PER_DIRECTION"

lemma within_Suc: "within d sid b start (Suc n) = within d sid b start n \<union> {k. at_distance d sid b start (Suc n) k}"
  by (auto simp: within_def le_Suc_eq)

lemma finite_within: "finite (within d sid b start n)"
proof (rule finite_subset)
  show "within d sid b start n \<subseteq> adjacent_key b ` traversed d sid"
  proof
    fix k assume "k \<in> within d sid b start n"
    then obtain m where "at_distance d sid b start (Suc m) k" by (auto simp: within_def Suc_le_eq gr0_conv_Suc)
    then show "k \<in> adjacent_key b ` traversed d sid" by (auto simp: at_distance_Suc)
  qed
qed (simp add: traversed_def)

lemma proven_steps_card: "proven_steps d sid b start n steps \<Longrightarrow> card (st_node_key ` set steps) = length steps"
  by (metis proven_steps_def distinct_card length_map set_map)

lemma at_distance_before: "at_distance d sid b start (n + j) k \<Longrightarrow> \<exists>k'. at_distance d sid b start n k'"
proof (induction j arbitrary: k)
  case (Suc j)
  then show ?case by (auto simp: at_distance_Suc)
qed auto

lemma within_stops:
  assumes "\<And>k. \<not> at_distance d sid b start n k" and "n \<le> N"
  shows "within d sid b start N = within d sid b start n"
proof -
  have "m < n" if "at_distance d sid b start m k" for m k
    using that assms(1) at_distance_before [of d sid b start n "m - n" k] by (metis le_add_diff_inverse not_less)
  then show ?thesis using assms(2) by (auto simp: within_def) (metis less_imp_le)
qed

subsection \<open>The next level\<close>

lemma frontier_edges_set:
  assumes "level_ok d sid b start n frontier visited steps"
  shows "e \<in> set (frontier_edges d sid b frontier visited) \<longleftrightarrow>
    e \<in> traversed d sid \<and> at_distance d sid b start n (end_key b e) \<and> at_distance d sid b start (Suc n) (adjacent_key b e)"
proof -
  have "e \<in> set (frontier_edges d sid b frontier visited) \<longleftrightarrow> e \<in> traversed d sid
      \<and> at_distance d sid b start n (end_key b e) \<and> (\<forall>m \<le> n. \<not> impact_path d sid b start m (adjacent_key b e))"
    using assms by (auto simp: frontier_edges_def traversed_def level_ok_def)
  then show ?thesis by (auto simp: at_distance_Suc)
qed

definition next_level :: "db \<Rightarrow> string \<Rightarrow> bool \<Rightarrow> string list \<Rightarrow> string list \<Rightarrow> ri_edge list" where
  "next_level d sid b frontier visited = canonical_rows (adjacent_key b) edge_order (frontier_edges d sid b frontier visited)"

lemma ranked_next_level:
  "ranked_edges d sid b frontier visited = take (IMPACT_MAX_RESULTS_PER_DIRECTION + 1) (next_level d sid b frontier visited)"
  by (simp only: ranked_edges_def next_level_def canonical_rows_def Let_def)

lemma next_level_keys:
  assumes "level_ok d sid b start n frontier visited steps"
  shows "adjacent_key b ` set (next_level d sid b frontier visited) = {k. at_distance d sid b start (Suc n) k}"
proof -
  have "\<exists>e \<in> set (frontier_edges d sid b frontier visited). adjacent_key b e = k" if k: "at_distance d sid b start (Suc n) k" for k
    using k k [unfolded at_distance_Suc] by (auto simp: frontier_edges_set [OF assms])
  then show ?thesis by (auto simp: next_level_def canonical_rows_parts frontier_edges_set [OF assms])
qed

lemma next_level_distinct:
  assumes "uq_ri_edges (db_edges d)"
  shows "distinct (map (adjacent_key b) (next_level d sid b frontier visited))"
  unfolding next_level_def
proof (rule canonical_rows_distinct)
  show "distinct (frontier_edges d sid b frontier visited)"
    using edge_order_inj(1) [OF assms] by (simp add: frontier_edges_def)
  show "inj_on edge_order (set (frontier_edges d sid b frontier visited))"
    by (rule inj_on_subset [OF edge_order_inj(2) [OF assms]]) (auto simp: frontier_edges_def)
qed

lemma next_level_proven:
  assumes "level_ok d sid b start n frontier visited steps" and "e \<in> set (next_level d sid b frontier visited)"
  shows "proven d sid b start (step_at (Suc n) b e)"
proof -
  have e: "e \<in> set (frontier_edges d sid b frontier visited)"
    "\<forall>q \<in> set (frontier_edges d sid b frontier visited). adjacent_key b q = adjacent_key b e \<longrightarrow> edge_order e \<le> edge_order q"
    using assms(2) by (auto simp: next_level_def canonical_rows_set)
  then show ?thesis by (auto simp: proven_def frontier_edges_set [OF assms(1)])
qed

lemma not_within: "at_distance d sid b start (Suc n) k \<Longrightarrow> k \<notin> within d sid b start n"
  by (auto simp: within_def dest: at_distance_unique)

lemma first_hit_Suc: "(\<exists>m \<le> Suc n. P m) \<longleftrightarrow> (\<exists>m \<le> n. P m) \<or> P (Suc n) \<and> (\<forall>m \<le> n. \<not> P m)"
  by (auto simp: le_Suc_eq)

lemma next_level_steps:
  assumes inv: "level_ok d sid b start n frontier visited steps" and uq: "uq_ri_edges (db_edges d)"
  shows "proven_steps d sid b start (Suc n) (steps @ map (step_at (Suc n) b) (take j (next_level d sid b frontier visited)))"
proof -
  let ?L = "next_level d sid b frontier visited"
  have old: "proven_steps d sid b start n steps" and keys: "st_node_key ` set steps = within d sid b start n"
    using inv by (simp_all add: level_ok_def)
  have "distinct (map (adjacent_key b) (take j ?L))"
    using next_level_distinct [OF uq] by (simp add: take_map [symmetric])
  moreover have "within d sid b start n \<inter> adjacent_key b ` set (take j ?L) = {}"
  proof -
    have "at_distance d sid b start (Suc n) k" if "k \<in> adjacent_key b ` set (take j ?L)" for k
      using that next_level_keys [OF inv] by (auto dest: in_set_takeD)
    then show ?thesis by (blast dest: not_within)
  qed
  ultimately have "distinct (map st_node_key (steps @ map (step_at (Suc n) b) (take j ?L)))"
    using old keys by (simp add: proven_steps_def comp_def)
  moreover have "proven d sid b start (step_at (Suc n) b e)" if "e \<in> set (take j ?L)" for e
    using next_level_proven [OF inv in_set_takeD [OF that]] .
  ultimately show ?thesis using old by (auto simp: proven_steps_def)
qed

lemma next_level_ok:
  assumes inv: "level_ok d sid b start n frontier visited steps" and uq: "uq_ri_edges (db_edges d)"
    and fits: "length steps + length (next_level d sid b frontier visited) \<le> IMPACT_MAX_RESULTS_PER_DIRECTION"
  shows "level_ok d sid b start (Suc n) (map (adjacent_key b) (next_level d sid b frontier visited))
    (visited @ map (adjacent_key b) (next_level d sid b frontier visited))
    (steps @ map (step_at (Suc n) b) (next_level d sid b frontier visited))"
proof -
  let ?L = "next_level d sid b frontier visited"
  have new: "adjacent_key b ` set ?L = {k. at_distance d sid b start (Suc n) k}" by (rule next_level_keys [OF inv])
  have "(\<exists>m \<le> Suc n. impact_path d sid b start m k) \<longleftrightarrow> (\<exists>m \<le> n. impact_path d sid b start m k) \<or> at_distance d sid b start (Suc n) k" for k
    unfolding at_distance_def less_Suc_eq_le by (rule first_hit_Suc)
  then have "set (visited @ map (adjacent_key b) ?L) = {k. \<exists>m \<le> Suc n. impact_path d sid b start m k}"
    using inv new by (auto simp: level_ok_def)
  moreover have "st_node_key ` set (steps @ map (step_at (Suc n) b) ?L) = within d sid b start (Suc n)"
    using inv new by (simp add: level_ok_def within_Suc image_Un image_image)
  moreover have "proven_steps d sid b start (Suc n) (steps @ map (step_at (Suc n) b) ?L)"
    using next_level_steps [OF inv uq, of "length ?L"] by simp
  ultimately show ?thesis using new fits by (simp add: level_ok_def)
qed

subsection \<open>The whole walk\<close>

definition impact_spec :: "db \<Rightarrow> string \<Rightarrow> bool \<Rightarrow> string \<Rightarrow> nat \<Rightarrow> impact_direction \<Rightarrow> bool" where
  "impact_spec d sid b start N r \<longleftrightarrow>
     proven_steps d sid b start N (im_steps r)
   \<and> (im_limit_reached r \<longleftrightarrow> IMPACT_MAX_RESULTS_PER_DIRECTION < card (within d sid b start N))
   \<and> (if im_limit_reached r
      then length (im_steps r) = IMPACT_MAX_RESULTS_PER_DIRECTION
        \<and> (\<forall>k m. at_distance d sid b start m k \<and> 1 \<le> m \<and> k \<notin> st_node_key ` set (im_steps r)
             \<longrightarrow> (\<forall>s \<in> set (im_steps r). st_depth s \<le> m))
      else st_node_key ` set (im_steps r) = within d sid b start N)"

lemma proven_steps_mono: "proven_steps d sid b start n steps \<Longrightarrow> n \<le> N \<Longrightarrow> proven_steps d sid b start N steps"
  by (auto simp: proven_steps_def)

lemma within_mono: "n \<le> N \<Longrightarrow> within d sid b start n \<subseteq> within d sid b start N"
  by (auto simp: within_def)

lemma impact_spec_done:
  assumes "level_ok d sid b start n frontier visited steps" and "n \<le> N" and "within d sid b start N = within d sid b start n"
  shows "impact_spec d sid b start N \<lparr> im_steps = steps, im_limit_reached = False \<rparr>"
proof -
  have p: "proven_steps d sid b start n steps" "st_node_key ` set steps = within d sid b start n"
    "length steps \<le> IMPACT_MAX_RESULTS_PER_DIRECTION"
    using assms(1) by (auto simp: level_ok_def)
  then have "card (within d sid b start N) \<le> IMPACT_MAX_RESULTS_PER_DIRECTION"
    using proven_steps_card [OF p(1)] assms(3) by simp
  then show ?thesis using p assms(2,3) proven_steps_mono by (auto simp: impact_spec_def)
qed

lemma impact_spec_capped:
  assumes inv: "level_ok d sid b start n frontier visited steps" and uq: "uq_ri_edges (db_edges d)" and "Suc n \<le> N"
    and over: "IMPACT_MAX_RESULTS_PER_DIRECTION < length steps + length (next_level d sid b frontier visited)"
  shows "impact_spec d sid b start N \<lparr> im_steps = steps @ map (step_at (Suc n) b)
     (take (IMPACT_MAX_RESULTS_PER_DIRECTION - length steps) (next_level d sid b frontier visited)), im_limit_reached = True \<rparr>"
proof -
  let ?L = "next_level d sid b frontier visited" and ?M = IMPACT_MAX_RESULTS_PER_DIRECTION
  let ?steps = "steps @ map (step_at (Suc n) b) (take (?M - length steps) ?L)"
  have old: "proven_steps d sid b start n steps" "st_node_key ` set steps = within d sid b start n" "length steps \<le> ?M"
    using inv by (auto simp: level_ok_def)
  have len: "length ?steps = ?M" using old(3) over by simp
  have all: "proven_steps d sid b start (Suc n) (steps @ map (step_at (Suc n) b) ?L)"
    using next_level_steps [OF inv uq, of "length ?L"] by simp
  have "card (within d sid b start (Suc n)) = length (steps @ map (step_at (Suc n) b) ?L)"
    unfolding proven_steps_card [OF all, symmetric]
    by (simp add: within_Suc old(2) next_level_keys [OF inv, symmetric] image_Un image_image)
  then have "?M < card (within d sid b start (Suc n))" using over by simp
  also have "\<dots> \<le> card (within d sid b start N)" by (rule card_mono [OF finite_within within_mono [OF assms(3)]])
  finally have big: "?M < card (within d sid b start N)" .
  have far: "Suc n \<le> m" if "at_distance d sid b start m k" "1 \<le> m" "k \<notin> st_node_key ` set ?steps" for k m
  proof (rule ccontr)
    assume "\<not> Suc n \<le> m"
    then have "k \<in> within d sid b start n" using that(1,2) by (auto simp: within_def)
    then show False using that(3) old(2) by auto
  qed
  have p: "proven_steps d sid b start (Suc n) ?steps" by (rule next_level_steps [OF inv uq])
  then have "st_depth s \<le> Suc n" if "s \<in> set ?steps" for s using that unfolding proven_steps_def by blast
  then have "st_depth s \<le> m" if "at_distance d sid b start m k" "1 \<le> m" "k \<notin> st_node_key ` set ?steps" "s \<in> set ?steps" for k m s
    using far that by (meson order_trans)
  then show ?thesis using len big proven_steps_mono [OF p assms(3)] unfolding impact_spec_def by (simp only: impact_direction.simps) auto
qed

lemma impact_levels_spec:
  assumes "level_ok d sid b start n frontier visited steps" and uq: "uq_ri_edges (db_edges d)" and "n \<le> N"
  shows "impact_spec d sid b start N (impact_levels d sid b [Suc n..<Suc N] frontier visited steps)"
  using assms(1,3)
proof (induction "N - n" arbitrary: n frontier visited steps)
  case 0
  then show ?case by (simp add: impact_spec_done)
next
  case (Suc j)
  let ?L = "next_level d sid b frontier visited" and ?M = IMPACT_MAX_RESULTS_PER_DIRECTION
  note inv = Suc.prems(1)
  have n: "Suc n \<le> N" "j = N - Suc n" using Suc.hyps(2) by simp_all
  then have range: "[Suc n..<Suc N] = Suc n # [Suc (Suc n)..<Suc N]" by (simp add: upt_conv_Cons)
  consider (stop) "frontier = []" | (fits) "frontier \<noteq> []" "length steps + length ?L \<le> ?M"
    | (over) "frontier \<noteq> []" "?M < length steps + length ?L" by linarith
  then show ?case
  proof cases
    case stop
    then have "\<not> at_distance d sid b start n k" for k using inv by (auto simp: level_ok_def)
    from within_stops [OF this Suc.prems(2)] show ?thesis
      unfolding range using stop impact_spec_done [OF inv Suc.prems(2)] by simp
  next
    case fits
    then have "ranked_edges d sid b frontier visited = ?L" by (simp add: ranked_next_level)
    then show ?thesis
      unfolding range using fits Suc.hyps(1) [OF n(2) next_level_ok [OF inv uq fits(2)] n(1)] by (simp add: walk_level_all)
  next
    case over
    have st: "length steps \<le> ?M" using inv by (simp add: level_ok_def)
    have take: "take (?M - length steps) (take (Suc ?M) ?L) = take (?M - length steps) ?L"
      using le_trans [OF diff_le_self, of ?M "Suc ?M" "length steps"] by (simp add: min_def)
    have "?M < length steps + length (take (Suc ?M) ?L)" using over(2) by simp
    from walk_level_capped [OF st this] show ?thesis
      unfolding range using over impact_spec_capped [OF inv uq n(1) over(2)] by (simp add: ranked_next_level take)
  qed
qed

lemma level_ok_start: "level_ok d sid b start 0 [start] [start] []"
  by (auto simp: level_ok_def at_distance_0 impact_path_0 proven_steps_def within_def)

text \<open>
  C32: The impact query is exact. In either direction its steps name different nodes; each step has the length of the shortest chain of
  stored import or dependency edges from the given node, and carries the first stored edge, in row order, that continues a shortest chain
  to it. The limit is reported exactly when more than 100 nodes lie within the depth. Without it the steps are all
  nodes within the depth; with it there are 100, and no node left out is nearer than one of them.
\<close>

theorem impact_exact:
  assumes "constraints d" and "impact_in_direction s start N b d = r"
  shows "distinct (map st_node_key (im_steps r))
    \<and> (\<forall>st \<in> set (im_steps r). 1 \<le> st_depth st \<and> st_depth st \<le> N \<and> proven d (sn_snapshot_id s) b start st)
    \<and> (im_limit_reached r \<longleftrightarrow> 100 < card (within d (sn_snapshot_id s) b start N))
    \<and> (\<not> im_limit_reached r \<longrightarrow> st_node_key ` set (im_steps r) = within d (sn_snapshot_id s) b start N)
    \<and> (im_limit_reached r \<longrightarrow> length (im_steps r) = 100
        \<and> (\<forall>k m. at_distance d (sn_snapshot_id s) b start m k \<and> 1 \<le> m \<and> k \<notin> st_node_key ` set (im_steps r)
             \<longrightarrow> (\<forall>st \<in> set (im_steps r). st_depth st \<le> m)))"
proof -
  have uq: "uq_ri_edges (db_edges d)" using assms(1) by (simp add: constraints_def)
  have "impact_spec d (sn_snapshot_id s) b start N r"
    using impact_levels_spec [where d = d and sid = "sn_snapshot_id s" and b = b and start = start and N = N, OF level_ok_start uq] assms(2)
    by (simp add: impact_in_direction_def del: upt_Suc)
  then show ?thesis by (auto simp: impact_spec_def proven_steps_def IMPACT_MAX_RESULTS_PER_DIRECTION_def)
qed

section \<open>Which snapshot is answered for\<close>

lemma checked_schema_Inr: "checked_schema s = Inr q \<longleftrightarrow> q = s \<and> sn_schema_version s = ''ri.v1''"
  by (auto simp: checked_schema_def supported_schema_versions_def)

lemma first_row_Some:
  assumes "first_row k rows = Some r"
  shows "r \<in> set rows" "q \<in> set rows \<Longrightarrow> k r \<le> k q"
proof -
  obtain rest where sk: "sort_key k rows = r # rest" using assms by (auto simp: first_row_def split: list.splits)
  then have st: "set rows = insert r (set rest)" by (metis list.simps(15) set_sort)
  then show "r \<in> set rows" by simp
  have "sorted (map k (r # rest))" using sk sorted_sort_key [of k rows] by simp
  then show "k r \<le> k q" if "q \<in> set rows" using st that by auto
qed

lemma first_row_None: "first_row k rows = None \<longleftrightarrow> rows = []"
proof -
  have "first_row k rows = None \<longleftrightarrow> sort_key k rows = []" by (simp add: first_row_def split: list.split)
  then show ?thesis by (metis set_sort set_empty)
qed

definition sealed_for :: "string \<Rightarrow> string \<Rightarrow> db \<Rightarrow> ri_snapshot list" where
  "sealed_for owner_id repository_id d = filter (\<lambda>s. sn_repository_id s = repository_id \<and> visible owner_id d s) (db_snapshots d)"

lemma revision_of_record:
  assumes "constraints d" and "distinct (map rp_id (db_repositories d))" and "s \<in> set (db_snapshots d)"
    and "repository_by_id (sn_repository_id s) d = Some r"
  shows "rp_revision_kind r = sn_revision_kind s" "rp_revision_value r = sn_revision_value s" "rp_id r = sn_repository_id s"
proof -
  have "(sn_repository_id s, sn_revision_kind s, sn_revision_value s)
      \<in> set (map (\<lambda>r. (rp_id r, rp_revision_kind r, rp_revision_value r)) (db_repositories d))"
    using assms(1,3) by (auto simp: constraints_def foreign_keys_def Let_def fk_def list_all_iff)
  then obtain q where q: "q \<in> set (db_repositories d)" "rp_id q = sn_repository_id s" "rp_revision_kind q = sn_revision_kind s"
    "rp_revision_value q = sn_revision_value s" by auto
  have r: "r \<in> set (db_repositories d)" "rp_id r = sn_repository_id s" using assms(4) by (auto simp: repository_by_id_def find_Some_iff)
  have "r = q" using assms(2) q(1,2) r by (metis distinct_map inj_onD)
  with q r show "rp_revision_kind r = sn_revision_kind s" "rp_revision_value r = sn_revision_value s" "rp_id r = sn_repository_id s" by simp_all
qed

lemma completed_row_sealed:
  assumes "constraints d" and "s \<in> set (db_snapshots d)" and "sn_state s = ''completed''"
  shows "sn_canonical_graph_hash s \<noteq> None" "sn_sealed_at s \<noteq> None"
  using assms by (auto simp: constraints_def list_all_iff ck_ri_snapshots_def)

lemma visible_record:
  assumes "visible owner_id d s"
  shows "\<exists>r. repository_by_id (sn_repository_id s) d = Some r"
proof -
  obtain r where "r \<in> set (db_repositories d)" "rp_id r = sn_repository_id s" using assms by (auto simp: visible_def list_ex_iff)
  then have "repository_by_id (sn_repository_id s) d \<noteq> None" by (auto simp: repository_by_id_def find_None_iff)
  then show ?thesis by blast
qed

lemma owned_record:
  assumes "constraints d" and "distinct (map rp_id (db_repositories d))" and "s \<in> set (db_snapshots d)" and "visible owner_id d s"
  shows "\<exists>r \<in> set (db_repositories d). rp_id r = sn_repository_id s \<and> rp_owner_id r = owner_id
    \<and> rp_revision_kind r = sn_revision_kind s \<and> rp_revision_value r = sn_revision_value s"
proof -
  obtain r where r: "r \<in> set (db_repositories d)" "rp_id r = sn_repository_id s" "rp_owner_id r = owner_id"
    using assms(4) by (auto simp: visible_def list_ex_iff)
  obtain p where p: "repository_by_id (sn_repository_id s) d = Some p" using visible_record [OF assms(4)] by blast
  then have "p \<in> set (db_repositories d)" "rp_id p = sn_repository_id s" by (auto simp: repository_by_id_def find_Some_iff)
  then have "p = r" using r assms(2) by (metis distinct_map inj_onD)
  then show ?thesis using r revision_of_record [OF assms(1-3) p] by auto
qed

text \<open>
  Under the constraints of the tables the resolution of the current snapshot of a repository succeeds with \<^term>\<open>s\<close> exactly when
  \<^term>\<open>s\<close> is a sealed snapshot of a repository of the caller, none of them was sealed later, and its schema is supported; then it is of the
  revision the repository has now. It is a missing-snapshot error, the same for a foreign and for an unknown repository, exactly when the caller has no
  sealed snapshot of the repository.
\<close>

theorem current_snapshot_resolution:
  assumes "constraints d" and "distinct (map rp_id (db_repositories d))"
  shows "(require_sealed_snapshot_for_current_revision owner_id repository_id d = Inr s \<longleftrightarrow>
       first_row newest_first (sealed_for owner_id repository_id d) = Some s \<and> sn_schema_version s = ''ri.v1'')
    \<and> (first_row newest_first (sealed_for owner_id repository_id d) = Some s \<longrightarrow>
         visible owner_id d s \<and> sn_repository_id s = repository_id
       \<and> (\<exists>r \<in> set (db_repositories d). rp_id r = repository_id \<and> rp_owner_id r = owner_id
            \<and> rp_revision_kind r = sn_revision_kind s \<and> rp_revision_value r = sn_revision_value s)
       \<and> (\<forall>q \<in> set (sealed_for owner_id repository_id d). the (sn_sealed_at q) \<le> the (sn_sealed_at s)))
    \<and> (require_sealed_snapshot_for_current_revision owner_id repository_id d
         = Inl (NotFound ''No sealed Repository Intelligence snapshot is available for this repository.'')
       \<longleftrightarrow> sealed_for owner_id repository_id d = [])
    \<and> (require_sealed_snapshot_for_current_revision owner_id repository_id d = Inl e \<longrightarrow>
         e = NotFound ''No sealed Repository Intelligence snapshot is available for this repository.'' \<or> (\<exists>v. e = UnsupportedSchemaVersion v))"
proof -
  let ?rows = "sealed_for owner_id repository_id d" and ?q = "require_sealed_snapshot_for_current_revision owner_id repository_id d"
  have row: "q \<in> set (db_snapshots d)" "visible owner_id d q" "sn_repository_id q = repository_id" "sn_state q = ''completed''"
    if "q \<in> set ?rows" for q
    using that by (auto simp: sealed_for_def visible_def)
  have latest: "latest_snapshot owner_id repository_id d = optional_schema (first_row newest_first ?rows)"
    by (simp add: latest_snapshot_def sealed_for_def)
  have some: "?q = checked_schema q" if q: "first_row newest_first ?rows = Some q" for q
  proof -
    note qr = row [OF first_row_Some(1) [OF q]]
    obtain r where r: "repository_by_id repository_id d = Some r" using visible_record [OF qr(2)] qr(3) by auto
    have "rp_revision_kind r = sn_revision_kind q" "rp_revision_value r = sn_revision_value q" "rp_id r = sn_repository_id q"
      using revision_of_record [OF assms qr(1)] r qr(3) by auto
    then show ?thesis
      using r completed_row_sealed [OF assms(1) qr(1,4)]
      by (auto simp: require_sealed_snapshot_for_current_revision_def latest q optional_schema_def checked_schema_def)
  qed
  have none: "?q = Inl (NotFound ''No sealed Repository Intelligence snapshot is available for this repository.'')"
    if "first_row newest_first ?rows = None"
    using that by (simp add: require_sealed_snapshot_for_current_revision_def latest optional_schema_def)
  have newest: "the (sn_sealed_at q) \<le> the (sn_sealed_at s)" if "first_row newest_first ?rows = Some s" "q \<in> set ?rows" for q
  proof -
    have "sn_sealed_at s \<noteq> None" "sn_sealed_at q \<noteq> None"
      using completed_row_sealed(2) [OF assms(1)] row first_row_Some(1) [OF that(1)] that(2) by blast+
    then show ?thesis using first_row_Some(2) [OF that] by (auto simp: newest_first_def less_eq_prod_def)
  qed
  have owner: "\<exists>r \<in> set (db_repositories d). rp_id r = repository_id \<and> rp_owner_id r = owner_id
      \<and> rp_revision_kind r = sn_revision_kind s \<and> rp_revision_value r = sn_revision_value s"
    if "first_row newest_first ?rows = Some s"
    using owned_record [OF assms] row [OF first_row_Some(1) [OF that]] by metis
  show ?thesis
  proof (cases "first_row newest_first ?rows")
    case None
    then have "?rows = []" by (simp add: first_row_None)
    then show ?thesis using none [OF None] None by simp
  next
    case (Some q)
    then have "?rows \<noteq> []" by (auto simp: first_row_def)
    then show ?thesis
      using some [OF Some] row [OF first_row_Some(1) [OF Some]] owner newest Some by (auto simp: checked_schema_def supported_schema_versions_def)
  qed
qed

section \<open>Pages\<close>

lemma take_chunks: "concat (map (\<lambda>i. take k (drop (i * k) xs)) [0..<m]) = take (m * k) xs"
proof (induction m)
  case (Suc m)
  have "take (Suc m * k) xs = take (m * k) xs @ take k (drop (m * k) xs)" by (metis mult_Suc add.commute take_add)
  with Suc show ?case by simp
qed simp

text \<open>
  Paging is exact. Consecutive pages of a positive size, as many as the reported total needs, list every matching row once, in
  the declared order; the total is the number of matching rows on every page.
\<close>

theorem pages_partition:
  assumes "0 < limit" and "snd (page_of order_by w 0 limit table) \<le> m * limit"
  shows "concat (map (\<lambda>i. fst (page_of order_by w (i * limit) limit table)) [0..<m]) = sort_key order_by (filter w table)
    \<and> mset (concat (map (\<lambda>i. fst (page_of order_by w (i * limit) limit table)) [0..<m])) = mset (filter w table)
    \<and> snd (page_of order_by w off limit table) = length (filter w table)"
  using assms take_chunks [of limit "sort_key order_by (filter w table)" m] by (simp add: page_of_def)

section \<open>Batches\<close>

lemma concat_batched_ids: "0 < k \<Longrightarrow> concat (batched_ids k vs) = vs"
  by (induction k vs rule: batched_ids.induct) (subst batched_ids.simps, simp)

lemma add_rows_group: "add_rows column rows g i = g i @ filter (\<lambda>e. column e = Some i) rows"
  unfolding add_rows_def by (induction rows arbitrary: g) (auto split: option.splits)

lemma add_rows_batches:
  "fold (\<lambda>batch. add_rows column (rows batch)) batches g i = g i @ concat (map (\<lambda>batch. filter (\<lambda>e. column e = Some i) (rows batch)) batches)"
  by (induction batches arbitrary: g) (simp_all add: add_rows_group)

lemma concat_one_batch:
  "distinct (concat batches) \<Longrightarrow> concat (map (\<lambda>batch. if i \<in> set batch then rows else []) batches) = (if i \<in> set (concat batches) then rows else [])"
  by (induction batches) auto

text \<open>
  Reading evidence in batches of 500 ids is the same as reading it for every id at once: each wanted parent gets exactly its evidence rows of the
  snapshot in the declared order, every other parent none, for any number of ids.
\<close>

theorem evidence_batching_invisible:
  assumes "distinct ids"
  shows "evidence_for s column ids d i = (if i \<in> set ids
    then sort_key evidence_order (filter (\<lambda>e. ee_snapshot_id e = sn_snapshot_id s \<and> column e = Some i) (db_evidence d)) else [])"
proof -
  let ?rows = "sort_key evidence_order (filter (\<lambda>e. ee_snapshot_id e = sn_snapshot_id s \<and> column e = Some i) (db_evidence d))"
  have ids: "concat (batched_ids SNAPSHOT_IN_CLAUSE_BATCH_SIZE ids) = ids"
    by (rule concat_batched_ids) (simp add: SNAPSHOT_IN_CLAUSE_BATCH_SIZE_def)
  have "filter (\<lambda>e. column e = Some i) (sort_key evidence_order (filter (\<lambda>e. ee_snapshot_id e = sn_snapshot_id s
      \<and> (\<exists>j \<in> set batch. column e = Some j)) (db_evidence d))) = (if i \<in> set batch then ?rows else [])" for batch
  proof (cases "i \<in> set batch")
    case False
    then have "filter (\<lambda>e. (ee_snapshot_id e = sn_snapshot_id s \<and> (\<exists>j \<in> set batch. column e = Some j)) \<and> column e = Some i) (db_evidence d) = []"
      by (auto simp: filter_empty_conv)
    then show ?thesis using False by (simp add: filter_sort)
  qed (auto simp: filter_sort intro!: arg_cong [where f = "sort_key evidence_order"] filter_cong)
  then show ?thesis
    unfolding evidence_for_def add_rows_batches
    using concat_one_batch [of "batched_ids SNAPSHOT_IN_CLAUSE_BATCH_SIZE ids" i ?rows] assms ids by simp
qed

section \<open>Other owners are unobservable\<close>

text \<open>The part of the tables that belongs to an owner.\<close>

definition owned_snapshot :: "string \<Rightarrow> db \<Rightarrow> ri_snapshot \<Rightarrow> bool" where
  "owned_snapshot owner_id d s \<longleftrightarrow> (\<exists>r \<in> set (db_repositories d). rp_id r = sn_repository_id s \<and> rp_owner_id r = owner_id)"

definition owned_id :: "string \<Rightarrow> db \<Rightarrow> string \<Rightarrow> bool" where
  "owned_id owner_id d sid \<longleftrightarrow> (\<exists>s \<in> set (db_snapshots d). sn_snapshot_id s = sid \<and> owned_snapshot owner_id d s)"

definition own :: "string \<Rightarrow> db \<Rightarrow> db" where
  "own owner_id d =
     \<lparr> db_repositories = filter (\<lambda>r. rp_owner_id r = owner_id) (db_repositories d),
       db_snapshots = filter (owned_snapshot owner_id d) (db_snapshots d),
       db_nodes = filter (\<lambda>r. owned_id owner_id d (nd_snapshot_id r)) (db_nodes d),
       db_edges = filter (\<lambda>r. owned_id owner_id d (eg_snapshot_id r)) (db_edges d),
       db_assertions = filter (\<lambda>r. owned_id owner_id d (as_snapshot_id r)) (db_assertions d),
       db_observations = filter (\<lambda>r. owned_id owner_id d (ob_snapshot_id r)) (db_observations d),
       db_evidence = filter (\<lambda>r. owned_id owner_id d (ee_snapshot_id r)) (db_evidence d),
       db_derivations = filter (\<lambda>r. owned_id owner_id d (dv_snapshot_id r)) (db_derivations d),
       db_diagnostics = filter (\<lambda>r. owned_id owner_id d (dg_snapshot_id r)) (db_diagnostics d) \<rparr>"

lemma visible_own: "visible owner_id (own owner_id d) s \<longleftrightarrow> visible owner_id d s"
  by (auto simp: visible_def own_def list_ex_iff)

lemma visible_owned: "visible owner_id d s \<Longrightarrow> owned_snapshot owner_id d s"
  by (auto simp: visible_def owned_snapshot_def list_ex_iff)

lemma find_filter: "(\<And>x. x \<in> set xs \<Longrightarrow> P x \<Longrightarrow> Q x) \<Longrightarrow> find P (filter Q xs) = find P xs"
  by (induction xs) auto

lemma snapshot_own: "snapshot owner_id sid (own owner_id d) = snapshot owner_id sid d"
proof -
  have "find (\<lambda>s. sn_snapshot_id s = sid \<and> visible owner_id d s) (db_snapshots (own owner_id d))
      = find (\<lambda>s. sn_snapshot_id s = sid \<and> visible owner_id d s) (db_snapshots d)"
    unfolding own_def by (simp, rule find_filter) (blast intro: visible_owned)
  then show ?thesis by (simp add: snapshot_def visible_own)
qed

lemma sealed_snapshot_own: "sealed_snapshot_for_owner owner_id rid sid (own owner_id d) = sealed_snapshot_for_owner owner_id rid sid d"
proof -
  have "find (\<lambda>s. sn_repository_id s = rid \<and> sn_snapshot_id s = sid \<and> visible owner_id d s) (db_snapshots (own owner_id d))
      = find (\<lambda>s. sn_repository_id s = rid \<and> sn_snapshot_id s = sid \<and> visible owner_id d s) (db_snapshots d)"
    unfolding own_def by (simp, rule find_filter) (blast intro: visible_owned)
  then show ?thesis by (simp add: sealed_snapshot_for_owner_def visible_own)
qed

lemma sealed_for_own: "sealed_for owner_id rid (own owner_id d) = sealed_for owner_id rid d"
  unfolding sealed_for_def visible_own by (auto simp: own_def intro!: filter_cong dest: visible_owned)

lemma latest_own: "latest_snapshot owner_id rid (own owner_id d) = latest_snapshot owner_id rid d"
  using sealed_for_own by (simp add: latest_snapshot_def sealed_for_def)

lemma latest_visible: "latest_snapshot owner_id rid d = Inr (Some s) \<Longrightarrow> visible owner_id d s \<and> sn_repository_id s = rid"
  by (auto simp: latest_snapshot_def optional_schema_def result_simps checked_schema_Inr split: option.splits dest!: first_row_Some(1))

lemma snapshot_visible: "snapshot owner_id sid d = Inr s \<Longrightarrow> s \<in> set (db_snapshots d) \<and> visible owner_id d s \<and> sn_snapshot_id s = sid"
  by (auto simp: snapshot_def checked_schema_Inr find_Some_iff split: option.splits)

lemma repository_own:
  assumes "distinct (map rp_id (db_repositories d))" and "visible owner_id d s"
  shows "repository_by_id (sn_repository_id s) (own owner_id d) = repository_by_id (sn_repository_id s) d"
proof -
  obtain r where r: "r \<in> set (db_repositories d)" "rp_id r = sn_repository_id s" "rp_owner_id r = owner_id"
    using assms(2) by (auto simp: visible_def list_ex_iff)
  have "rp_owner_id q = owner_id" if "q \<in> set (db_repositories d)" "rp_id q = sn_repository_id s" for q
    using assms(1) that r by (metis distinct_map inj_onD)
  then have "find (\<lambda>q. rp_id q = sn_repository_id s) (filter (\<lambda>r. rp_owner_id r = owner_id) (db_repositories d))
      = find (\<lambda>q. rp_id q = sn_repository_id s) (db_repositories d)"
    by (intro find_filter)
  then show ?thesis by (simp add: repository_by_id_def own_def)
qed

lemma visible_owned_id: "visible owner_id d s \<Longrightarrow> s \<in> set (db_snapshots d) \<Longrightarrow> owned_id owner_id d (sn_snapshot_id s)"
  using visible_owned by (auto simp: owned_id_def)

lemma filter_own: "owned_id owner_id d sid \<Longrightarrow>
    filter (\<lambda>r. f r = sid \<and> P r) (filter (\<lambda>r. owned_id owner_id d (f r)) rows) = filter (\<lambda>r. f r = sid \<and> P r) rows"
  by (induction rows) auto

lemma tables_own:
  assumes "owned_id owner_id d sid"
  shows "filter (\<lambda>r. nd_snapshot_id r = sid \<and> P0 r) (db_nodes (own owner_id d)) = filter (\<lambda>r. nd_snapshot_id r = sid \<and> P0 r) (db_nodes d)"
    and "filter (\<lambda>r. eg_snapshot_id r = sid \<and> P1 r) (db_edges (own owner_id d)) = filter (\<lambda>r. eg_snapshot_id r = sid \<and> P1 r) (db_edges d)"
    and "filter (\<lambda>r. as_snapshot_id r = sid \<and> P2 r) (db_assertions (own owner_id d)) = filter (\<lambda>r. as_snapshot_id r = sid \<and> P2 r) (db_assertions d)"
    and "filter (\<lambda>r. ee_snapshot_id r = sid \<and> P3 r) (db_evidence (own owner_id d)) = filter (\<lambda>r. ee_snapshot_id r = sid \<and> P3 r) (db_evidence d)"
    and "filter (\<lambda>r. dg_snapshot_id r = sid \<and> P4 r) (db_diagnostics (own owner_id d)) = filter (\<lambda>r. dg_snapshot_id r = sid \<and> P4 r) (db_diagnostics d)"
    and "filter (\<lambda>r. ob_snapshot_id r = sid \<and> P5 r) (db_observations (own owner_id d)) = filter (\<lambda>r. ob_snapshot_id r = sid \<and> P5 r) (db_observations d)"
  unfolding own_def db.select_convs by (rule filter_own [OF assms])+

lemma all_rows_own:
  assumes "owned_id owner_id d sid"
  shows "filter (\<lambda>r. eg_snapshot_id r = sid) (db_edges (own owner_id d)) = filter (\<lambda>r. eg_snapshot_id r = sid) (db_edges d)"
    and "filter (\<lambda>r. as_snapshot_id r = sid) (db_assertions (own owner_id d)) = filter (\<lambda>r. as_snapshot_id r = sid) (db_assertions d)"
    and "filter (\<lambda>r. ee_snapshot_id r = sid) (db_evidence (own owner_id d)) = filter (\<lambda>r. ee_snapshot_id r = sid) (db_evidence d)"
  using tables_own [OF assms, of every_row] by simp_all

lemma list_ex_own_node:
  assumes "owned_id owner_id d sid"
  shows "list_ex (\<lambda>n. nd_snapshot_id n = sid \<and> nd_stable_key n = k) (db_nodes (own owner_id d))
    \<longleftrightarrow> list_ex (\<lambda>n. nd_snapshot_id n = sid \<and> nd_stable_key n = k) (db_nodes d)"
  using assms by (auto simp: own_def list_ex_iff)

lemma paged_own:
  assumes "\<And>s. owned_id owner_id d (sn_snapshot_id s) \<Longrightarrow> f (own owner_id d) s = f d s"
  shows "paged owner_id sid f (own owner_id d) = paged owner_id sid f d"
proof (cases "snapshot owner_id sid d")
  case (Inr s)
  then have "owned_id owner_id d (sn_snapshot_id s)" using snapshot_visible visible_owned_id by blast
  then show ?thesis using assms by (simp add: paged_def snapshot_own Inr)
qed (simp add: paged_def snapshot_own)

lemma impact_levels_own:
  "owned_id owner_id d sid \<Longrightarrow> impact_levels (own owner_id d) sid b ds frontier visited steps = impact_levels d sid b ds frontier visited steps"
proof (induction ds arbitrary: frontier visited steps)
  case (Cons n ds)
  have "ranked_edges (own owner_id d) sid b frontier visited = ranked_edges d sid b frontier visited"
    by (simp add: ranked_edges_def frontier_edges_def Let_def tables_own(2) [OF Cons.prems] del: filter_filter)
  then show ?case using Cons by (auto split: sum.splits)
qed simp

lemma impact_own: "impact owner_id sid k n (own owner_id d) = impact owner_id sid k n d"
proof (cases "snapshot owner_id sid d")
  case (Inr s)
  then have "owned_id owner_id d (sn_snapshot_id s)" using snapshot_visible visible_owned_id by blast
  then show ?thesis
    by (simp add: impact_def snapshot_own Inr list_ex_own_node impact_in_direction_def impact_levels_own del: upt_Suc)
qed (simp add: impact_def snapshot_own)

lemma evidence_for_own: "owned_id owner_id d (sn_snapshot_id s) \<Longrightarrow> evidence_for s column ids (own owner_id d) = evidence_for s column ids d"
  by (simp add: evidence_for_def tables_own(4))

lemma architecture_own:
  "architecture_facts owner_id rid (own owner_id d) = architecture_facts owner_id rid d"
proof (cases "latest_snapshot owner_id rid d")
  case (Inr s)
  show ?thesis
  proof (cases s)
    case (Some q)
    have "q \<in> set (db_snapshots d)"
      using Inr Some by (auto simp: latest_snapshot_def optional_schema_def result_simps checked_schema_Inr split: option.splits dest!: first_row_Some(1))
    then have o: "owned_id owner_id d (sn_snapshot_id q)" using latest_visible visible_owned_id Inr Some by blast
    have e: "architecture_edges q (own owner_id d) = architecture_edges q d"
      by (simp add: architecture_edges_def tables_own(2) [OF o])
    then have n: "architecture_nodes q (own owner_id d) = architecture_nodes q d"
      by (simp add: architecture_nodes_def Let_def tables_own(1) [OF o])
    show ?thesis
      by (simp add: architecture_facts_def latest_own Inr Some e n evidence_for_own [OF o] architecture_covered_paths_def tables_own [OF o])
  qed (simp add: architecture_facts_def latest_own Inr)
qed (simp add: architecture_facts_def latest_own)

lemma require_sealed_own:
  assumes "distinct (map rp_id (db_repositories d))"
  shows "require_sealed_snapshot_for_current_revision owner_id rid (own owner_id d) = require_sealed_snapshot_for_current_revision owner_id rid d"
proof (cases "latest_snapshot owner_id rid d")
  case (Inr s)
  show ?thesis
  proof (cases s)
    case (Some q)
    then have "visible owner_id d q" "sn_repository_id q = rid" using latest_visible Inr by auto
    then have "repository_by_id rid (own owner_id d) = repository_by_id rid d" using repository_own [OF assms] by blast
    then show ?thesis by (simp add: require_sealed_snapshot_for_current_revision_def latest_own Inr Some)
  qed (simp add: require_sealed_snapshot_for_current_revision_def latest_own Inr)
qed (simp add: require_sealed_snapshot_for_current_revision_def latest_own)


section \<open>Answers about a sealed snapshot never change\<close>

text \<open>Two databases with the same facts of a snapshot.\<close>

definition same_facts :: "string \<Rightarrow> db \<Rightarrow> db \<Rightarrow> bool" where
  "same_facts sid d d' \<longleftrightarrow> facts_at sid d = facts_at sid d' \<and> constraints d \<and> constraints d'"

lemma same_fact_rows:
  assumes "same_facts sid d d'"
  shows "nd_snapshot_id n = sid \<Longrightarrow> n \<in> set (db_nodes d) \<longleftrightarrow> n \<in> set (db_nodes d')"
    and "eg_snapshot_id e = sid \<Longrightarrow> e \<in> set (db_edges d) \<longleftrightarrow> e \<in> set (db_edges d')"
    and "as_snapshot_id a = sid \<Longrightarrow> a \<in> set (db_assertions d) \<longleftrightarrow> a \<in> set (db_assertions d')"
    and "ee_snapshot_id v = sid \<Longrightarrow> v \<in> set (db_evidence d) \<longleftrightarrow> v \<in> set (db_evidence d')"
proof -
  have eq: "f \<in> set (facts_of d) \<longleftrightarrow> f \<in> set (facts_of d')" if "fact_snapshot f = sid" for f
    using assms that by (auto simp: same_facts_def facts_at_def)
  show "nd_snapshot_id n = sid \<Longrightarrow> n \<in> set (db_nodes d) \<longleftrightarrow> n \<in> set (db_nodes d')" using eq [of "FNode n"] by (auto simp: facts_of_def)
  show "eg_snapshot_id e = sid \<Longrightarrow> e \<in> set (db_edges d) \<longleftrightarrow> e \<in> set (db_edges d')" using eq [of "FEdge e"] by (auto simp: facts_of_def)
  show "as_snapshot_id a = sid \<Longrightarrow> a \<in> set (db_assertions d) \<longleftrightarrow> a \<in> set (db_assertions d')"
    using eq [of "FAssertion a"] by (auto simp: facts_of_def)
  show "ee_snapshot_id v = sid \<Longrightarrow> v \<in> set (db_evidence d) \<longleftrightarrow> v \<in> set (db_evidence d')" using eq [of "FEvidence v"] by (auto simp: facts_of_def)
qed

lemma sorted_rows_unique:
  assumes "distinct (map key xs)" and "distinct (map key ys)" and "\<And>x. w x \<Longrightarrow> x \<in> set xs \<longleftrightarrow> x \<in> set ys"
    and "\<And>x y. order_by x = order_by y \<Longrightarrow> key x = key y"
  shows "sort_key order_by (filter w xs) = sort_key order_by (filter w ys)" "length (filter w xs) = length (filter w ys)"
proof -
  have "set (filter w xs) = set (filter w ys)" using assms(3) by auto
  moreover have "distinct (filter w xs)" "distinct (filter w ys)" using assms(1,2) by (auto simp: distinct_map)
  ultimately have m: "mset (filter w xs) = mset (filter w ys)" using set_eq_iff_mset_eq_distinct by blast
  then show "length (filter w xs) = length (filter w ys)" by (rule mset_eq_length)
  have "inj_on order_by (set (filter w ys))"
    using assms(2,4) by (metis (mono_tags, lifting) distinct_map filter_is_subset inj_on_def subsetD)
  then show "sort_key order_by (filter w xs) = sort_key order_by (filter w ys)" by (rule sort_key_mset_unique [OF _ m])
qed

lemma row_ids:
  assumes "constraints d"
  shows "distinct (map nd_id (db_nodes d))" "distinct (map eg_id (db_edges d))" "distinct (map as_id (db_assertions d))"
    "distinct (map ee_id (db_evidence d))"
  using assms
  by (simp_all add: constraints_def uq_ri_nodes_def uq_ri_edges_def uq_ri_assertions_def uq_ri_evidence_def unique_index_def)

lemma order_ids:
  "node_order n = node_order n' \<Longrightarrow> nd_id n = nd_id n'" "edge_order e = edge_order e' \<Longrightarrow> eg_id e = eg_id e'"
  "assertion_order a = assertion_order a' \<Longrightarrow> as_id a = as_id a'" "evidence_order v = evidence_order v' \<Longrightarrow> ee_id v = ee_id v'"
  by (simp_all add: node_order_def edge_order_def assertion_order_def evidence_order_def)

lemma pages_same:
  assumes "same_facts sid d d'"
  shows "page_of node_order (\<lambda>n. nd_snapshot_id n = sid \<and> P n) off limit (db_nodes d)
       = page_of node_order (\<lambda>n. nd_snapshot_id n = sid \<and> P n) off limit (db_nodes d')"
    and "page_of edge_order (\<lambda>e. eg_snapshot_id e = sid \<and> Q e) off limit (db_edges d)
       = page_of edge_order (\<lambda>e. eg_snapshot_id e = sid \<and> Q e) off limit (db_edges d')"
    and "page_of assertion_order (\<lambda>a. as_snapshot_id a = sid) off limit (db_assertions d)
       = page_of assertion_order (\<lambda>a. as_snapshot_id a = sid) off limit (db_assertions d')"
    and "page_of evidence_order (\<lambda>v. ee_snapshot_id v = sid) off limit (db_evidence d)
       = page_of evidence_order (\<lambda>v. ee_snapshot_id v = sid) off limit (db_evidence d')"
proof -
  have c: "constraints d" "constraints d'" using assms by (simp_all add: same_facts_def)
  note rows = same_fact_rows [OF assms]
  have "sort_key node_order (filter (\<lambda>n. nd_snapshot_id n = sid \<and> P n) (db_nodes d)) = sort_key node_order (filter (\<lambda>n. nd_snapshot_id n = sid \<and> P n) (db_nodes d'))"
    "length (filter (\<lambda>n. nd_snapshot_id n = sid \<and> P n) (db_nodes d)) = length (filter (\<lambda>n. nd_snapshot_id n = sid \<and> P n) (db_nodes d'))"
    by (rule sorted_rows_unique [OF row_ids(1) [OF c(1)] row_ids(1) [OF c(2)] _ order_ids(1)], use rows(1) in blast, assumption)+
  then show "page_of node_order (\<lambda>n. nd_snapshot_id n = sid \<and> P n) off limit (db_nodes d)
      = page_of node_order (\<lambda>n. nd_snapshot_id n = sid \<and> P n) off limit (db_nodes d')" by (simp add: page_of_def)
  have "sort_key edge_order (filter (\<lambda>e. eg_snapshot_id e = sid \<and> Q e) (db_edges d)) = sort_key edge_order (filter (\<lambda>e. eg_snapshot_id e = sid \<and> Q e) (db_edges d'))"
    "length (filter (\<lambda>e. eg_snapshot_id e = sid \<and> Q e) (db_edges d)) = length (filter (\<lambda>e. eg_snapshot_id e = sid \<and> Q e) (db_edges d'))"
    by (rule sorted_rows_unique [OF row_ids(2) [OF c(1)] row_ids(2) [OF c(2)] _ order_ids(2)], use rows(2) in blast, assumption)+
  then show "page_of edge_order (\<lambda>e. eg_snapshot_id e = sid \<and> Q e) off limit (db_edges d)
      = page_of edge_order (\<lambda>e. eg_snapshot_id e = sid \<and> Q e) off limit (db_edges d')" by (simp add: page_of_def)
  have "sort_key assertion_order (filter (\<lambda>a. as_snapshot_id a = sid) (db_assertions d)) = sort_key assertion_order (filter (\<lambda>a. as_snapshot_id a = sid) (db_assertions d'))"
    "length (filter (\<lambda>a. as_snapshot_id a = sid) (db_assertions d)) = length (filter (\<lambda>a. as_snapshot_id a = sid) (db_assertions d'))"
    by (rule sorted_rows_unique [OF row_ids(3) [OF c(1)] row_ids(3) [OF c(2)] _ order_ids(3)], use rows(3) in blast, assumption)+
  then show "page_of assertion_order (\<lambda>a. as_snapshot_id a = sid) off limit (db_assertions d)
      = page_of assertion_order (\<lambda>a. as_snapshot_id a = sid) off limit (db_assertions d')" by (simp add: page_of_def)
  have "sort_key evidence_order (filter (\<lambda>v. ee_snapshot_id v = sid) (db_evidence d)) = sort_key evidence_order (filter (\<lambda>v. ee_snapshot_id v = sid) (db_evidence d'))"
    "length (filter (\<lambda>v. ee_snapshot_id v = sid) (db_evidence d)) = length (filter (\<lambda>v. ee_snapshot_id v = sid) (db_evidence d'))"
    by (rule sorted_rows_unique [OF row_ids(4) [OF c(1)] row_ids(4) [OF c(2)] _ order_ids(4)], use rows(4) in blast, assumption)+
  then show "page_of evidence_order (\<lambda>v. ee_snapshot_id v = sid) off limit (db_evidence d)
      = page_of evidence_order (\<lambda>v. ee_snapshot_id v = sid) off limit (db_evidence d')" by (simp add: page_of_def)
qed

lemma ranked_edges_same:
  assumes "same_facts sid d d'"
  shows "ranked_edges d sid b frontier visited = ranked_edges d' sid b frontier visited"
proof -
  have c: "constraints d" "constraints d'" using assms by (simp_all add: same_facts_def)
  let ?w = "\<lambda>e. eg_snapshot_id e = sid \<and> eg_predicate e \<in> set IMPACT_TRAVERSAL_PREDICATES \<and> end_key b e \<in> set frontier \<and> adjacent_key b e \<notin> set visited"
  have rows: "set (filter ?w (db_edges d)) = set (filter ?w (db_edges d'))" using same_fact_rows(2) [OF assms] by auto
  have "next_level d sid b frontier visited = next_level d' sid b frontier visited"
    unfolding next_level_def canonical_rows_def frontier_edges_def row_number_first rows filter_filter
    by (rule sorted_rows_unique(1) [OF row_ids(2) [OF c(1)] row_ids(2) [OF c(2)] _ order_ids(2)])
      (use same_fact_rows(2) [OF assms] in auto)
  then show ?thesis by (simp add: ranked_next_level)
qed

lemma impact_levels_same:
  "same_facts sid d d' \<Longrightarrow> impact_levels d sid b ds frontier visited steps = impact_levels d' sid b ds frontier visited steps"
  by (induction ds arbitrary: frontier visited steps) (auto simp: ranked_edges_same split: sum.splits)

text \<open>
  C34: What a caller was told about a sealed snapshot stays true. However the snapshot store is used afterwards, as long as the repository is
  still the caller's, the snapshot is found with the same row, and every page and every impact answer about it is the same.
\<close>

theorem sealed_answers_final:
  assumes run: "(store_step U H)\<^sup>*\<^sup>* (new_session d) s'" and c: "constraints d"
    and found: "snapshot owner_id sid d = Inr r" and "visible owner_id (se_committed s') r"
  shows "snapshot owner_id sid (se_committed s') = Inr r
    \<and> impact owner_id sid k n (se_committed s') = impact owner_id sid k n d
    \<and> symbols owner_id sid off limit (se_committed s') = symbols owner_id sid off limit d
    \<and> paths owner_id sid off limit (se_committed s') = paths owner_id sid off limit d
    \<and> neighbours owner_id sid k off limit (se_committed s') = neighbours owner_id sid k off limit d
    \<and> references owner_id sid off limit (se_committed s') = references owner_id sid off limit d
    \<and> assertions owner_id sid off limit (se_committed s') = assertions owner_id sid off limit d
    \<and> evidence owner_id sid off limit (se_committed s') = evidence owner_id sid off limit d"
proof -
  let ?d = "se_committed s'"
  have sound: "sound d s'" by (rule store_run_sound [OF run sound_new [OF c]])
  have r: "r \<in> set (db_snapshots d)" "visible owner_id d r" "sn_snapshot_id r = sid" using snapshot_visible [OF found] by auto
  then have "completed_in d r" by (simp add: completed_in_def visible_def)
  then have r': "r \<in> set (db_snapshots ?d)" "facts_at sid ?d = facts_at sid d"
    using sound r(3) by (auto simp: sound_def evolves_def completed_in_def)
  have c': "constraints ?d" using sound by (simp add: sound_def)
  have "find (\<lambda>s. sn_snapshot_id s = sid \<and> visible owner_id ?d s) (db_snapshots ?d) = Some r"
  proof -
    have "distinct (map sn_snapshot_id (db_snapshots ?d))"
      using c' by (simp add: constraints_def uq_ri_snapshots_def unique_index_def)
    then have "q = r" if "q \<in> set (db_snapshots ?d)" "sn_snapshot_id q = sid" for q
      using that r'(1) r(3) by (metis distinct_map inj_onD)
    moreover have "\<exists>q. find (\<lambda>s. sn_snapshot_id s = sid \<and> visible owner_id ?d s) (db_snapshots ?d) = Some q"
      using r'(1) r(3) assms(4) by (auto simp: find_None_iff simp flip: not_None_eq)
    ultimately show ?thesis by (metis (mono_tags, lifting) find_Some_iff nth_mem)
  qed
  then have found': "snapshot owner_id sid ?d = Inr r"
    using found snapshot_visible [OF found] by (auto simp: snapshot_def checked_schema_Inr split: option.splits)
  have same: "same_facts sid ?d d" using c c' r'(2) by (simp add: same_facts_def)
  note pages = pages_same [OF same] pages_same(2) [OF same, where Q = every_row, simplified]
  have "list_ex (\<lambda>n. nd_snapshot_id n = sid \<and> nd_stable_key n = k) (db_nodes ?d) \<longleftrightarrow> list_ex (\<lambda>n. nd_snapshot_id n = sid \<and> nd_stable_key n = k) (db_nodes d)"
    using same_fact_rows(1) [OF same] by (auto simp: list_ex_iff)
  then have "impact owner_id sid k n ?d = impact owner_id sid k n d"
    by (simp add: impact_def found found' r(3) impact_in_direction_def impact_levels_same [OF same] del: upt_Suc)
  then show ?thesis
    by (simp add: found' found paged_def symbols_def paths_def neighbours_def references_def assertions_def evidence_def r(3) pages)
qed

section \<open>Examples\<close>

definition sample_file :: "int \<Rightarrow> string \<Rightarrow> ri_node" where
  "sample_file i p = \<lparr> nd_id = i, nd_snapshot_id = ''c'', nd_stable_key = ''file:'' @ p, nd_node_kind = ''file'', nd_name = Some p,
     nd_language = Some ''python'', nd_truth_class = ''observed'', nd_properties = None \<rparr>"

definition sample_import :: "int \<Rightarrow> string \<Rightarrow> string \<Rightarrow> ri_edge" where
  "sample_import i p q = \<lparr> eg_id = i, eg_snapshot_id = ''c'', eg_edge_id = ''edge:'' @ p @ q, eg_subject_kind = ''file'', eg_subject_key = ''file:'' @ p,
     eg_predicate = ''imports'', eg_object_kind = ''file'', eg_object_key = ''file:'' @ q, eg_truth_class = ''resolved'',
     eg_producer = ''resolver'', eg_producer_version = ''1'' \<rparr>"

text \<open>\<^verbatim>\<open>a\<close> imports \<^verbatim>\<open>b\<close> and \<^verbatim>\<open>c\<close>, \<^verbatim>\<open>b\<close> imports \<^verbatim>\<open>c\<close>, and \<^verbatim>\<open>c\<close> imports \<^verbatim>\<open>a\<close>.\<close>

definition sample_imports :: db where
  "sample_imports = sample_db\<lparr>db_nodes := [sample_file 1 ''a'', sample_file 2 ''b'', sample_file 3 ''c''],
     db_edges := [sample_import 1 ''a'' ''b'', sample_import 2 ''b'' ''c'', sample_import 3 ''a'' ''c'', sample_import 4 ''c'' ''a'']\<rparr>"

abbreviation sample_sealed :: ri_snapshot where
  "sample_sealed \<equiv> sample_snapshot ''c'' ''completed''"

lemma constraints_sample_imports: "constraints sample_imports"
  by code_simp

theorem impact_exact_witness:
  "map st_node_key (im_steps (impact_in_direction sample_sealed ''file:a'' 3 True sample_imports)) = [''file:b'', ''file:c'']
   \<and> {''file:b'', ''file:c''} = within sample_imports ''c'' True ''file:a'' 3"
proof -
  let ?r = "impact_in_direction sample_sealed ''file:a'' 3 True sample_imports"
  have "map st_node_key (im_steps ?r) = [''file:b'', ''file:c''] \<and> \<not> im_limit_reached ?r" by code_simp
  moreover have "sn_snapshot_id sample_sealed = ''c''" by (simp add: sample_snapshot_def)
  ultimately show ?thesis
    using impact_exact [OF constraints_sample_imports refl, of sample_sealed "''file:a''" 3 True] by (metis list.simps(15) set_map empty_set)
qed

theorem current_snapshot_resolution_witness:
  "require_sealed_snapshot_for_current_revision ''u'' ''r'' sample_imports = Inr sample_sealed
   \<and> require_sealed_snapshot_for_current_revision ''v'' ''r'' sample_imports
       = Inl (NotFound ''No sealed Repository Intelligence snapshot is available for this repository.'')"
proof -
  have "first_row newest_first (sealed_for ''u'' ''r'' sample_imports) = Some sample_sealed" "sn_schema_version sample_sealed = ''ri.v1''"
    "sealed_for ''v'' ''r'' sample_imports = []" "distinct (map rp_id (db_repositories sample_imports))" by code_simp+
  then show ?thesis using current_snapshot_resolution [OF constraints_sample_imports] by blast
qed

theorem pages_partition_witness:
  "concat (map (\<lambda>i. fst (page_of node_order (\<lambda>n. nd_node_kind n = ''file'') (i * 2) 2 (db_nodes sample_imports))) [0..<2])
   = [sample_file 1 ''a'', sample_file 2 ''b'', sample_file 3 ''c'']"
proof -
  have "snd (page_of node_order (\<lambda>n. nd_node_kind n = ''file'') 0 2 (db_nodes sample_imports)) \<le> 2 * 2" by code_simp
  moreover have "sort_key node_order (filter (\<lambda>n. nd_node_kind n = ''file'') (db_nodes sample_imports))
      = [sample_file 1 ''a'', sample_file 2 ''b'', sample_file 3 ''c'']" by code_simp
  ultimately show ?thesis using pages_partition [of 2 node_order "\<lambda>n. nd_node_kind n = ''file''" "db_nodes sample_imports" 2] by simp
qed

theorem evidence_batching_invisible_witness:
  "evidence_for sample_sealed ee_node_ref [1, 2] sample_imports 3 = []"
  using evidence_batching_invisible [of "[1, 2]" sample_sealed ee_node_ref sample_imports 3] by simp


theorem sealed_answers_final_witness:
  "impact ''u'' ''c'' ''file:a'' 3 (se_committed (snd (commit (snd (mark_failed ''b'' None (new_session sample_imports))))))
   = impact ''u'' ''c'' ''file:a'' 3 sample_imports"
proof -
  let ?s = "new_session sample_imports"
  have run: "(store_step ascii_unicode sample_digest)\<^sup>*\<^sup>* ?s (snd (commit (snd (mark_failed ''b'' None ?s))))"
    by (rule run_of_two [OF op_mark_failed orm_commit])
  have "snapshot ''u'' ''c'' sample_imports = Inr sample_sealed"
    "visible ''u'' (se_committed (snd (commit (snd (mark_failed ''b'' None ?s))))) sample_sealed" by code_simp+
  then show ?thesis using sealed_answers_final [OF run constraints_sample_imports] by blast
qed

end
