(* ===== verification/Source_Naming.thy ===== *)
theory Source_Naming
  imports Snapshot_Store
begin

text \<open>
  Names of source entities: the path functions of Python's \<^verbatim>\<open>posixpath\<close> that the resolver and the extractors call, the stable keys of dependencies,
  services, infrastructure resources, symbols and modules (\<^verbatim>\<open>app/extraction/naming.py\<close>), and the stored form of an outbound HTTP call
  (the part of \<^verbatim>\<open>app/extraction/http.py\<close> that does not parse URLs).

  The properties: keys given out within one file are distinct, and a stored destination is read back exactly unless its path contains the delimiter.
\<close>

section \<open>Model\<close>

subsection \<open>Strings\<close>

text \<open>\<^verbatim>\<open>s.split(sep, 1)[0]\<close>, \<^verbatim>\<open>s.rsplit(c, 1)[0]\<close> and \<^verbatim>\<open>s.rpartition(c)\<close>.\<close>

definition before_char :: "char \<Rightarrow> string \<Rightarrow> string" where
  "before_char c s = takeWhile (\<lambda>x. x \<noteq> c) s"

definition after_last :: "char \<Rightarrow> string \<Rightarrow> string" where
  "after_last c s = List.rev (takeWhile (\<lambda>x. x \<noteq> c) (List.rev s))"

definition upto_last :: "char \<Rightarrow> string \<Rightarrow> string" where
  "upto_last c s = take (length s - length (after_last c s)) s"

definition rsplit_head :: "char \<Rightarrow> string \<Rightarrow> string" where
  "rsplit_head c s = (if c \<in> set s then take (length s - length (after_last c s) - 1) s else s)"

definition rstrip_char :: "char \<Rightarrow> string \<Rightarrow> string" where
  "rstrip_char c s = List.rev (dropWhile (\<lambda>x. x = c) (List.rev s))"

definition lstrip_char :: "char \<Rightarrow> string \<Rightarrow> string" where
  "lstrip_char c s = dropWhile (\<lambda>x. x = c) s"

text \<open>\<^verbatim>\<open>re.sub(r"[-_.]+", "-", s)\<close>\<close>

definition separator_char :: "char \<Rightarrow> bool" where
  "separator_char c \<longleftrightarrow> c = CHR ''-'' \<or> c = CHR ''_'' \<or> c = CHR ''.''"

fun fold_separators :: "string \<Rightarrow> string" where
  "fold_separators [] = []"
| "fold_separators [c] = [if separator_char c then CHR ''-'' else c]"
| "fold_separators (c # d # s) =
     (if separator_char c \<and> separator_char d then fold_separators (d # s)
      else (if separator_char c then CHR ''-'' else c) # fold_separators (d # s))"

subsection \<open>Paths\<close>

text \<open>\<^verbatim>\<open>posixpath.dirname\<close>: everything up to the last solidus, without trailing ones unless nothing else is left.\<close>

definition dirname :: "string \<Rightarrow> string" where
  "dirname p = (let head = upto_last (CHR ''/'') p in
     if head \<noteq> [] \<and> list_ex (\<lambda>c. c \<noteq> CHR ''/'') head then rstrip_char (CHR ''/'') head else head)"

definition basename :: "string \<Rightarrow> string" where
  "basename p = after_last (CHR ''/'') p"

text \<open>\<^verbatim>\<open>posixpath.join(a, *parts)\<close>\<close>

definition join_two :: "string \<Rightarrow> string \<Rightarrow> string" where
  "join_two a b = (if startswith ''/'' b then b else if a = [] \<or> endswith ''/'' a then a @ b else a @ ''/'' @ b)"

definition path_join :: "string \<Rightarrow> string list \<Rightarrow> string" where
  "path_join a parts = foldl join_two a parts"

text \<open>\<^verbatim>\<open>posixpath.normpath\<close>: at most two leading solidi are kept, and two only if there are exactly two.\<close>

fun collapse :: "bool \<Rightarrow> string list \<Rightarrow> string list \<Rightarrow> string list" where
  "collapse rooted done [] = done"
| "collapse rooted done (c # cs) =
     (if c = [] \<or> c = ''.'' then collapse rooted done cs
      else if c \<noteq> ''..'' \<or> (\<not> rooted \<and> done = []) \<or> (done \<noteq> [] \<and> last done = ''..'') then collapse rooted (done @ [c]) cs
      else if done \<noteq> [] then collapse rooted (butlast done) cs
      else collapse rooted done cs)"

definition normpath :: "string \<Rightarrow> string" where
  "normpath p =
     (if p = [] then ''.''
      else let initial = (if startswith ''//'' p \<and> \<not> startswith ''///'' p then ''//'' else if startswith ''/'' p then ''/'' else []);
               path = initial @ join ''/'' (collapse (initial \<noteq> []) [] (split_char (CHR ''/'') p)) in
           if path = [] then ''.'' else path)"

subsection \<open>Stable keys\<close>

definition fold_pypi :: "unicode \<Rightarrow> string \<Rightarrow> string" where
  "fold_pypi U name = u_lower U (fold_separators name)"

definition dependency_stable_key :: "unicode \<Rightarrow> string \<Rightarrow> string \<Rightarrow> canon_error + string" where
  "dependency_stable_key U ecosystem name =
     (let name = (if ecosystem = ''pypi'' then fold_pypi U name else name) in
      normalize_stable_key U ''dependency'' (''dep:'' @ ecosystem @ '':'' @ name))"

definition service_stable_key :: "unicode \<Rightarrow> string \<Rightarrow> canon_error + string" where
  "service_stable_key U origin = normalize_stable_key U ''service'' (''svc:'' @ origin)"

definition iac_resource_stable_key :: "unicode \<Rightarrow> string \<Rightarrow> string \<Rightarrow> string \<Rightarrow> canon_error + string" where
  "iac_resource_stable_key U manifest_path resource_type name =
     bindR (normalize_repo_path U manifest_path) (\<lambda>normalized.
       normalize_stable_key U ''iac_resource'' (''iac:'' @ normalized @ ''::'' @ resource_type @ ''/'' @ name))"

definition symbol_stable_key :: "unicode \<Rightarrow> string \<Rightarrow> string list \<Rightarrow> string \<Rightarrow> canon_error + string" where
  "symbol_stable_key U path scope name =
     bindR (normalize_repo_path U path) (\<lambda>normalized. Inr (normalized @ ''::'' @ join ''.'' (scope @ [name])))"

definition module_stable_key :: "unicode \<Rightarrow> string \<Rightarrow> canon_error + string" where
  "module_stable_key U path =
     bindR (normalize_repo_path U path) (\<lambda>normalized. normalize_stable_key U ''module'' (''mod:'' @ dirname normalized))"

definition package_root :: "string \<Rightarrow> string \<Rightarrow> string" where
  "package_root specifier source_path =
     (if endswith ''.py'' source_path then before_char (CHR ''.'') specifier
      else if startswith ''@'' specifier then join ''/'' (take 2 (split_char (CHR ''/'') specifier))
      else before_char (CHR ''/'') specifier)"

definition module_short_name :: "unicode \<Rightarrow> string \<Rightarrow> canon_error + string option" where
  "module_short_name U path =
     bindR (normalize_repo_path U path) (\<lambda>normalized.
       let b = basename (dirname normalized) in Inr (if b = [] then None else Some b))"

subsection \<open>Discriminators\<close>

text \<open>\<^verbatim>\<open>DiscriminatorAssigner\<close>: the counters by base key; \<^verbatim>\<open>key\<close> returns the key, whether it was discriminated, and the new counters.\<close>

type_synonym counters = "(string \<times> nat) list"

definition counter :: "counters \<Rightarrow> string \<Rightarrow> nat" where
  "counter cs base = (case map_of cs base of None \<Rightarrow> 0 | Some n \<Rightarrow> n)"

definition discriminate :: "counters \<Rightarrow> string \<Rightarrow> (string \<times> bool) \<times> counters" where
  "discriminate cs base =
     (let n = counter cs base + 1; cs' = AList.update base n cs in
      (if n = 1 then (base, False) else (base @ ''#'' @ show_int (int n), True), cs'))"

fun assign_keys :: "counters \<Rightarrow> string list \<Rightarrow> string list" where
  "assign_keys cs [] = []"
| "assign_keys cs (b # bs) = (let (r, cs') = discriminate cs b in fst r # assign_keys cs' bs)"

subsection \<open>Stored HTTP calls\<close>

record http_destination =
  ht_method :: string
  ht_origin :: string
  ht_path :: string

definition referent_text :: "http_destination \<Rightarrow> string" where
  "referent_text d = ht_method d @ ''|'' @ ht_origin d @ ''|'' @ ht_path d"

definition parse_referent :: "string \<Rightarrow> http_destination option" where
  "parse_referent referent = (case split_char (CHR ''|'') referent of
       [m, origin, p] \<Rightarrow> if m \<noteq> [] \<and> origin \<noteq> [] \<and> p \<noteq> []
         then Some \<lparr> ht_method = m, ht_origin = origin, ht_path = p \<rparr> else None
     | _ \<Rightarrow> None)"

section \<open>Stored HTTP calls are read back\<close>

lemma split_char_two: "c \<in> set s \<Longrightarrow> \<exists>a b r. split_char c s = a # b # r"
proof -
  assume c: "c \<in> set s"
  show ?thesis
  proof (cases "split_char c s")
    case (Cons a r)
    then have "r \<noteq> []" using c join_split [of c s] split_char_no_sep [of a c s] by auto
    then show ?thesis using Cons by (cases r) auto
  qed simp
qed

text \<open>
  A stored destination with non-empty parts is read back exactly, unless its path contains a bar: the origin and the method cannot, but a path can, and then the
  referent has more than three parts and is not a destination any more.
\<close>

theorem referent_read_back:
  assumes "CHR ''|'' \<notin> set (ht_method d)" "CHR ''|'' \<notin> set (ht_origin d)" and "ht_method d \<noteq> []" "ht_origin d \<noteq> []" "ht_path d \<noteq> []"
  shows "parse_referent (referent_text d) = (if CHR ''|'' \<in> set (ht_path d) then None else Some d)"
proof -
  have s: "split_char (CHR ''|'') (referent_text d) = ht_method d # ht_origin d # split_char (CHR ''|'') (ht_path d)"
    using assms by (simp add: referent_text_def split_char_append)
  show ?thesis
  proof (cases "CHR ''|'' \<in> set (ht_path d)")
    case True
    then show ?thesis using split_char_two [OF True] unfolding parse_referent_def s by auto
  next
    case False
    then show ?thesis using assms by (simp add: parse_referent_def s split_char_id)
  qed
qed

theorem referent_read_back_witness:
  "parse_referent (referent_text \<lparr> ht_method = ''GET'', ht_origin = ''https://h'', ht_path = ''/a|b'' \<rparr>) = None
   \<and> parse_referent (referent_text \<lparr> ht_method = ''GET'', ht_origin = ''https://h'', ht_path = ''/a'' \<rparr>)
     = Some \<lparr> ht_method = ''GET'', ht_origin = ''https://h'', ht_path = ''/a'' \<rparr>"
  using referent_read_back [where d = "\<lparr> ht_method = ''GET'', ht_origin = ''https://h'', ht_path = ''/a|b'' \<rparr>"]
    referent_read_back [where d = "\<lparr> ht_method = ''GET'', ht_origin = ''https://h'', ht_path = ''/a'' \<rparr>"] by simp

section \<open>Discriminators\<close>

lemma split_last_unique: "c \<notin> set x \<Longrightarrow> c \<notin> set y \<Longrightarrow> a @ c # x = b @ c # y \<Longrightarrow> a = b \<and> x = y"
  by (auto simp: append_eq_append_conv2 append_eq_Cons_conv Cons_eq_append_conv)

definition discriminated :: "string \<Rightarrow> nat \<Rightarrow> string" where
  "discriminated base n = (if n = 1 then base else base @ ''#'' @ show_int (int n))"

text \<open>No base name looks like a discriminated form of another.\<close>

definition plain_bases :: "string set \<Rightarrow> bool" where
  "plain_bases B \<longleftrightarrow> (\<forall>a \<in> B. \<forall>b \<in> B. \<forall>n. a \<noteq> b @ ''#'' @ show_int (int n))"

lemma show_nat_no_hash: "CHR ''#'' \<notin> set (show_int (int n))"
  using show_digits_digits [of "int n"] by (auto simp: show_int_def is_digit_def)

lemma discriminated_inj:
  assumes "plain_bases B" "a \<in> B" "b \<in> B" and eq: "discriminated a m = discriminated b n"
  shows "a = b \<and> m = n"
proof -
  have no: "x \<noteq> y @ ''#'' @ show_int (int k)" if "x \<in> B" "y \<in> B" for x y k using assms(1) that unfolding plain_bases_def by blast
  show ?thesis
  proof (cases "m = 1 \<or> n = 1")
    case True
    then show ?thesis using eq no [OF assms(2,3), of n] no [OF assms(3,2), of m] by (auto simp: discriminated_def split: if_splits)
  next
    case False
    then have "a @ CHR ''#'' # show_int (int m) = b @ CHR ''#'' # show_int (int n)" using eq by (simp add: discriminated_def)
    then have "a = b \<and> show_int (int m) = show_int (int n)" using split_last_unique [OF show_nat_no_hash show_nat_no_hash] by blast
    then show ?thesis using show_int_inj by (metis of_nat_eq_iff)
  qed
qed

lemma counter_update: "counter (AList.update b n cs) b' = (if b' = b then n else counter cs b')"
  by (simp add: counter_def update_conv')

lemma assign_keys_step: "assign_keys cs (b # bs) = discriminated b (counter cs b + 1) # assign_keys (AList.update b (counter cs b + 1) cs) bs"
  by (simp add: discriminate_def discriminated_def Let_def)

lemma assign_keys_later: "k \<in> set (assign_keys cs bs) \<Longrightarrow> \<exists>b \<in> set bs. \<exists>n > counter cs b. k = discriminated b n"
proof (induction bs arbitrary: cs)
  case (Cons b bs)
  show ?case
  proof (cases "k = discriminated b (counter cs b + 1)")
    case False
    then have "k \<in> set (assign_keys (AList.update b (counter cs b + 1) cs) bs)" using Cons.prems unfolding assign_keys_step by simp
    from Cons.IH [OF this] obtain b' n where "b' \<in> set bs" "n > counter (AList.update b (counter cs b + 1) cs) b'" "k = discriminated b' n" by blast
    moreover from this have "n > counter cs b'" by (simp add: counter_update split: if_splits)
    ultimately show ?thesis by (intro bexI [of _ b'] exI [of _ n]) auto
  qed (auto intro!: bexI [of _ b])
qed simp

text \<open>
  The symbols of one file get different keys. Whatever base keys occur, and however often, no two of the keys the assigner gives out are the same, and the first
  occurrence keeps its base key, provided no base key already has the form of a discriminated one.
\<close>

theorem discriminators_distinct:
  assumes "plain_bases (set bases)"
  shows "distinct (assign_keys [] bases) \<and> (bases \<noteq> [] \<longrightarrow> hd (assign_keys [] bases) = hd bases)"
proof -
  have "distinct (assign_keys cs bs)" if "set bs \<subseteq> set bases" for cs bs
    using that
  proof (induction bs arbitrary: cs)
    case (Cons b bs)
    have "discriminated b (counter cs b + 1) \<notin> set (assign_keys (AList.update b (counter cs b + 1) cs) bs)"
    proof
      assume "discriminated b (counter cs b + 1) \<in> set (assign_keys (AList.update b (counter cs b + 1) cs) bs)"
      then obtain b' n where n: "b' \<in> set bs" "n > counter (AList.update b (counter cs b + 1) cs) b'"
        "discriminated b (counter cs b + 1) = discriminated b' n" using assign_keys_later by blast
      then have "b = b' \<and> counter cs b + 1 = n" using discriminated_inj [OF assms] Cons.prems by auto
      then show False using n(2) by (auto simp: counter_update)
    qed
    then show ?case using Cons unfolding assign_keys_step by simp
  qed simp
  moreover have "hd (assign_keys [] bases) = hd bases" if "bases \<noteq> []"
    using that by (cases bases) (simp_all add: discriminate_def counter_def Let_def)
  ultimately show ?thesis by blast
qed

theorem discriminators_distinct_witness:
  "assign_keys [] [''a.ts::f'', ''a.ts::g'', ''a.ts::f''] = [''a.ts::f'', ''a.ts::g'', ''a.ts::f#2'']
   \<and> distinct (assign_keys [] [''a.ts::f'', ''a.ts::g'', ''a.ts::f''])"
proof -
  have "a \<noteq> b @ ''#'' @ s" if "a \<in> {''a.ts::f'', ''a.ts::g''}" for a b s :: string
  proof
    assume "a = b @ ''#'' @ s"
    then have "CHR ''#'' \<in> set a" by simp
    then show False using that by auto
  qed
  then have "plain_bases (set [''a.ts::f'', ''a.ts::g'', ''a.ts::f''])" unfolding plain_bases_def by auto
  from discriminators_distinct [OF this] show ?thesis by (intro conjI) (code_simp, blast)
qed

end
