(* ===== verification/Store_Growth.thy ===== *)
theory Store_Growth
  imports Snapshot_Store
begin

text \<open>
  What the producers that run over a building snapshot may rely on: a successful addition keeps every row that was there, changes no node, observation or snapshot, and
  leaves the added edge or assertion behind, with its evidence and its derivation. The facts are stated for the objects in memory, which is what
  the same session reads afterwards.
\<close>

section \<open>Growth\<close>

definition extends :: "(ri_edge \<Rightarrow> bool) \<Rightarrow> (ri_assertion \<Rightarrow> bool) \<Rightarrow> db \<Rightarrow> db \<Rightarrow> bool" where
  "extends E A d d' \<longleftrightarrow> db_repositories d' = db_repositories d \<and> db_snapshots d' = db_snapshots d
     \<and> db_nodes d' = db_nodes d \<and> db_observations d' = db_observations d
     \<and> set (db_edges d) \<subseteq> set (db_edges d') \<and> set (db_assertions d) \<subseteq> set (db_assertions d')
     \<and> set (db_evidence d) \<subseteq> set (db_evidence d') \<and> set (db_derivations d) \<subseteq> set (db_derivations d')
     \<and> set (db_diagnostics d) \<subseteq> set (db_diagnostics d')
     \<and> (\<forall>e \<in> set (db_edges d'). e \<in> set (db_edges d) \<or> E e) \<and> (\<forall>a \<in> set (db_assertions d'). a \<in> set (db_assertions d) \<or> A a)"

lemma extends_refl [simp]: "extends E A d d"
  by (simp add: extends_def)

lemma extends_trans: "extends E A d d' \<Longrightarrow> extends E A d' d'' \<Longrightarrow> extends E A d d''"
  unfolding extends_def by (intro conjI) (simp_all, blast+)

definition adds :: "(ri_edge \<Rightarrow> bool) \<Rightarrow> (ri_assertion \<Rightarrow> bool) \<Rightarrow> 'a store_action \<Rightarrow> bool" where
  "adds E A m \<longleftrightarrow> (\<forall>s y s'. m s = (Inr y, s') \<longrightarrow> extends E A (se_mem s) (se_mem s'))"

named_theorems adds_intros \<open>which actions only add\<close>

lemma addsD: "adds E A m \<Longrightarrow> m s = (Inr y, s') \<Longrightarrow> extends E A (se_mem s) (se_mem s')"
  by (simp add: adds_def)

lemma adds_bindS [adds_intros]: "adds E A m \<Longrightarrow> (\<And>x. adds E A (f x)) \<Longrightarrow> adds E A (bindS m f)"
  unfolding adds_def bindS_Inr using extends_trans by blast

lemma adds_bindS_with:
  assumes "adds E A m" and "\<And>x s s'. m s = (Inr x, s') \<Longrightarrow> adds E A (f x)" shows "adds E A (bindS m f)"
  using assms unfolding adds_def bindS_Inr using extends_trans by blast

lemma adds_if [adds_intros]: "(b \<Longrightarrow> adds E A m) \<Longrightarrow> (\<not> b \<Longrightarrow> adds E A m') \<Longrightarrow> adds E A (if b then m else m')"
  by simp

lemma adds_case_option [adds_intros]:
  "(x = None \<Longrightarrow> adds E A m) \<Longrightarrow> (\<And>y. x = Some y \<Longrightarrow> adds E A (f y)) \<Longrightarrow> adds E A (case x of None \<Rightarrow> m | Some y \<Rightarrow> f y)"
  by (cases x) simp_all

lemma adds_forS [adds_intros]: "(\<And>x. x \<in> set xs \<Longrightarrow> adds E A (f x)) \<Longrightarrow> adds E A (forS f xs)"
proof (induction xs)
  case (Cons x xs)
  then show ?case by (simp add: adds_bindS)
qed (simp add: adds_def returnS_def)

lemma adds_steps [adds_intros]:
  "adds E A (returnS x)" "adds E A (raiseS e)" "adds E A (liftS r)" "adds E A (canonS c)" "adds E A (unless b e)"
  "adds E A (the_snapshot sid)" "adds E A (require_building sid)" "adds E A flush" "adds E A (query q)"
  by (auto simp: adds_def returnS_def raiseS_def liftS_def canonS_Inr unless_def the_snapshot_def require_building_def bindS_Inr
      flush_Inr query_Inr split: if_splits option.splits)

lemma adds_insert_row: "(\<And>i d. extends E A d (ins i d)) \<Longrightarrow> adds E A (insert_row table row_id ins)"
  by (auto simp: adds_def insert_row_def Let_def)

lemma adds_rows [adds_intros]:
  "adds E A (insert_row db_evidence ee_id (add_evidence_row r))"
  "adds E A (insert_row db_derivations dv_id (add_derivation_row v))"
  "adds E A (insert_row db_diagnostics dg_id (add_diagnostic_row g))"
  by (rule adds_insert_row, auto simp: extends_def add_evidence_row_def add_derivation_row_def add_diagnostic_row_def)+

lemma adds_edge_row: "(\<And>i. E (r\<lparr>eg_id := i\<rparr>)) \<Longrightarrow> adds E A (insert_row db_edges eg_id (add_edge_row r))"
  by (rule adds_insert_row) (auto simp: extends_def add_edge_row_def)

lemma adds_assertion_row: "(\<And>i. A (r\<lparr>as_id := i\<rparr>)) \<Longrightarrow> adds E A (insert_row db_assertions as_id (add_assertion_row r))"
  by (rule adds_insert_row) (auto simp: extends_def add_assertion_row_def)

lemma adds_evidence [adds_intros]: "adds E A (add_evidence U sid r n g b)"
  unfolding add_evidence_def by (intro adds_intros)

lemma adds_derivation [adds_intros]: "adds E A (add_derivation U sid r e a)"
  unfolding add_derivation_def by (intro adds_intros)

lemma adds_diagnostic [adds_intros]: "adds E A (add_diagnostic U sid c k sv m pr p sp su ob de ss os)"
  unfolding add_diagnostic_def by (intro adds_intros)

section \<open>Edges\<close>

text \<open>The row of an edge that \<^verbatim>\<open>add_edge\<close> was asked for.\<close>

definition edge_fields :: "unicode \<Rightarrow> string \<Rightarrow> string \<Rightarrow> string \<Rightarrow> string \<Rightarrow> string \<Rightarrow> string \<Rightarrow> ri_edge \<Rightarrow> bool" where
  "edge_fields U sid sk okind prd ver tc e \<longleftrightarrow> eg_snapshot_id e = sid \<and> eg_subject_kind e = u_nfc U sk \<and> eg_object_kind e = u_nfc U okind
     \<and> eg_truth_class e = tc \<and> eg_producer e = u_nfc U prd \<and> eg_producer_version e = u_nfc U ver"

definition edge_identity :: "unicode \<Rightarrow> digest \<Rightarrow> string \<Rightarrow> string \<Rightarrow> string \<Rightarrow> string \<Rightarrow> string \<Rightarrow> string \<Rightarrow> bool" where
  "edge_identity U H sk skey p okind okey eid \<longleftrightarrow> (\<exists>a q b. normalize_stable_key U (u_nfc U sk) skey = Inr a \<and> validate_predicate U p = Inr q
     \<and> normalize_stable_key U (u_nfc U okind) okey = Inr b \<and> compute_edge_id U H a q b = Inr eid)"

text \<open>The identity columns of a stored edge, each end given by its kind and key.\<close>

type_synonym stable_key = string

definition edge_row_for :: "unicode \<Rightarrow> digest \<Rightarrow> string \<Rightarrow> string \<Rightarrow> stable_key \<Rightarrow> string \<Rightarrow> string \<Rightarrow> stable_key
    \<Rightarrow> string \<Rightarrow> string \<Rightarrow> string \<Rightarrow> ri_edge \<Rightarrow> bool" where
  "edge_row_for U H sid sk skey p okind okey prd ver tc e \<longleftrightarrow> edge_fields U sid sk okind prd ver tc e
     \<and> edge_identity U H sk skey p okind okey (eg_edge_id e)
     \<and> normalize_stable_key U (u_nfc U sk) skey = Inr (eg_subject_key e) \<and> validate_predicate U p = Inr (eg_predicate e)
     \<and> normalize_stable_key U (u_nfc U okind) okey = Inr (eg_object_key e)"

text \<open>Evidence and derivations of an edge.\<close>

definition evidenced :: "unicode \<Rightarrow> string \<Rightarrow> int \<Rightarrow> evidence_arg \<Rightarrow> db \<Rightarrow> bool" where
  "evidenced U sid i r d \<longleftrightarrow> (\<exists>row x. evidence_row U sid r None (Some i) None = Inr row \<and> x \<in> set (db_evidence d) \<and> ee_snapshot_id x = sid
     \<and> ee_edge_ref x = Some i \<and> evidence_fact x = evidence_fact row)"

definition derived :: "unicode \<Rightarrow> string \<Rightarrow> int option \<Rightarrow> int option \<Rightarrow> reference \<Rightarrow> db \<Rightarrow> bool" where
  "derived U sid i a ref d \<longleftrightarrow> (\<exists>row x. derivation_row U sid ref i a = Inr row \<and> x \<in> set (db_derivations d) \<and> dv_snapshot_id x = sid
     \<and> (if i \<noteq> None then dv_edge_ref x = i else dv_assertion_ref x = a) \<and> dv_ref_kind x = dv_ref_kind row \<and> dv_ref_identity x = dv_ref_identity row)"

lemma evidenced_extends: "evidenced U sid i r d \<Longrightarrow> extends E A d d' \<Longrightarrow> evidenced U sid i r d'"
  unfolding evidenced_def extends_def by blast

lemma derived_extends: "derived U sid i a r d \<Longrightarrow> extends E A d d' \<Longrightarrow> derived U sid i a r d'"
  unfolding derived_def extends_def by blast

lemma add_evidence_evidenced: "add_evidence U sid r None (Some i) None s = (Inr y, s') \<Longrightarrow> evidenced U sid i r (se_mem s')"
proof -
  assume "add_evidence U sid r None (Some i) None s = (Inr y, s')"
  then obtain row e where row: "evidence_row U sid r None (Some i) None = Inr row"
    and e: "find (\<lambda>e. ee_snapshot_id e = sid \<and> same_parent row e \<and> evidence_fact e = evidence_fact row) (db_evidence (se_mem s')) = Some e"
    using add_evidence_Inr by blast
  have "ee_edge_ref row = Some i" "ee_node_ref row = None" using evidence_row_Inr [OF row] by simp_all
  moreover have "e \<in> set (db_evidence (se_mem s')) \<and> ee_snapshot_id e = sid \<and> same_parent row e \<and> evidence_fact e = evidence_fact row"
    using e by (auto simp: find_Some_iff)
  ultimately have "e \<in> set (db_evidence (se_mem s'))" "ee_snapshot_id e = sid" "ee_edge_ref e = Some i" "evidence_fact e = evidence_fact row"
    by (simp_all add: same_parent_def)
  then show ?thesis using row unfolding evidenced_def by blast
qed

lemma add_derivation_derived: "add_derivation U sid r i a s = (Inr y, s') \<Longrightarrow> derived U sid i a r (se_mem s')"
proof -
  assume ok: "add_derivation U sid r i a s = (Inr y, s')"
  let ?P = "\<lambda>row x. dv_snapshot_id x = sid \<and> (if i \<noteq> None then dv_edge_ref x = i else dv_assertion_ref x = a)
         \<and> dv_ref_kind x = dv_ref_kind row \<and> dv_ref_identity x = dv_ref_identity row"
  obtain row s1 where row: "derivation_row U sid r i a = Inr row"
    and rest: "(case find (?P row) (db_derivations (se_mem s1)) of Some x \<Rightarrow> returnS (dv_id x)
       | None \<Rightarrow> bindS (insert_row db_derivations dv_id (add_derivation_row row)) (\<lambda>i. bindS flush (\<lambda>_. returnS i))) s1 = (Inr y, s')"
    using ok unfolding add_derivation_def bindS_Inr query_Inr liftS_def by auto
  have r: "dv_snapshot_id row = sid" "dv_edge_ref row = i" "dv_assertion_ref row = a"
    using row unfolding derivation_row_def by (simp_all split: option.splits if_splits) fastforce+
  have "\<exists>x \<in> set (db_derivations (se_mem s')). ?P row x"
  proof (cases "find (?P row) (db_derivations (se_mem s1))")
    case (Some x)
    then have "x \<in> set (db_derivations (se_mem s1)) \<and> ?P row x" by (auto simp: find_Some_iff)
    then show ?thesis using rest Some by (auto simp: returnS_def)
  next
    case None
    then have "row\<lparr>dv_id := y\<rparr> \<in> set (db_derivations (se_mem s'))"
      using rest by (auto simp: bindS_Inr returnS_def insert_row_def Let_def flush_Inr add_derivation_row_def)
    then show ?thesis using r by (intro bexI [of _ "row\<lparr>dv_id := y\<rparr>"]) auto
  qed
  then show ?thesis using row unfolding derived_def by blast
qed

lemma forS_all:
  assumes "forS f xs s = (Inr u, s')" and "\<And>x s y s'. x \<in> set xs \<Longrightarrow> f x s = (Inr y, s') \<Longrightarrow> P x (se_mem s')"
    and "\<And>x. adds E A (f x)" and "\<And>x d d'. P x d \<Longrightarrow> extends E A d d' \<Longrightarrow> P x d'"
  shows "\<forall>x \<in> set xs. P x (se_mem s')"
  using assms(1,2)
proof (induction xs arbitrary: s)
  case (Cons x xs)
  obtain y s1 where x: "f x s = (Inr y, s1)" and r: "forS f xs s1 = (Inr u, s')" using Cons.prems(1) by (auto simp: bindS_Inr)
  have "extends E A (se_mem s1) (se_mem s')" using addsD [OF adds_forS r] assms(3) by blast
  then have "P x (se_mem s')" using Cons.prems(2) [OF _ x] assms(4) by simp
  then show ?case using Cons.IH [OF r] Cons.prems(2) by simp
qed simp

lemma adds_canonS: "(\<And>x. c = Inr x \<Longrightarrow> adds E A (f x)) \<Longrightarrow> adds E A (bindS (canonS c) f)"
  by (rule adds_bindS_with [OF adds_steps(4)]) (simp add: canonS_Inr)

lemma adds_edge:
  assumes "\<And>e. edge_row_for U H sid sk skey p okind okey prd ver tc e \<Longrightarrow> E e"
  shows "adds E A (add_edge U H sid sk skey p okind okey prd ver es ds tc)"
  unfolding add_edge_def Let_def
  apply (rule adds_bindS [OF adds_steps(7)])
  apply (rule adds_canonS, rule adds_canonS, rule adds_canonS, rule adds_canonS)
  apply (rule adds_bindS [OF adds_steps(9)])
  apply (intro adds_intros adds_edge_row assms)
  apply (auto simp: edge_row_for_def edge_fields_def edge_identity_def)
  done

lemma add_edge_Inr:
  assumes ok: "add_edge U H sid sk skey p okind okey prd ver es ds tc s = (Inr i, s')"
  shows "\<exists>e \<in> set (db_edges (se_mem s')). eg_id e = i \<and> edge_fields U sid sk okind prd ver tc e
    \<and> edge_identity U H sk skey p okind okey (eg_edge_id e)
    \<and> (\<forall>r \<in> set es. evidenced U sid i r (se_mem s')) \<and> (\<forall>r \<in> set ds. derived U sid (Some i) None r (se_mem s'))"
proof -
  let ?attach = "\<lambda>i. bindS (forS (\<lambda>e. add_evidence U sid e None (Some i) None) es) (\<lambda>_.
             bindS (forS (\<lambda>r. add_derivation U sid r (Some i) None) ds) (\<lambda>_. returnS i))"
  let ?row = "\<lambda>a q b eid. \<lparr> eg_id = 0, eg_snapshot_id = sid, eg_edge_id = eid, eg_subject_kind = u_nfc U sk, eg_subject_key = a,
     eg_predicate = q, eg_object_kind = u_nfc U okind, eg_object_key = b, eg_truth_class = tc, eg_producer = u_nfc U prd,
     eg_producer_version = u_nfc U ver \<rparr>"
  obtain a q b eid s1 where id: "edge_identity U H sk skey p okind okey eid"
    and rest: "(case find (\<lambda>e. eg_snapshot_id e = sid \<and> eg_edge_id e = eid) (db_edges (se_mem s1)) of
         Some e \<Rightarrow>
           if (eg_subject_kind e, eg_object_kind e, eg_truth_class e, eg_producer e, eg_producer_version e)
                \<noteq> (u_nfc U sk, u_nfc U okind, tc, u_nfc U prd, u_nfc U ver)
           then raiseS (SnapshotSealError ''conflicting edge records share identity'')
           else ?attach (eg_id e)
       | None \<Rightarrow> bindS (insert_row db_edges eg_id (add_edge_row (?row a q b eid))) (\<lambda>i. bindS flush (\<lambda>_. ?attach i))) s1 = (Inr i, s')"
    using ok unfolding add_edge_def Let_def bindS_Inr [of "require_building _"] bindS_Inr [of "canonS _"] bindS_Inr [of "query _"] canonS_Inr query_Inr
    by (auto simp: edge_identity_def)
  have "\<exists>e s2. e \<in> set (db_edges (se_mem s2)) \<and> edge_fields U sid sk okind prd ver tc e \<and> eg_edge_id e = eid \<and> ?attach (eg_id e) s2 = (Inr i, s')"
  proof (cases "find (\<lambda>e. eg_snapshot_id e = sid \<and> eg_edge_id e = eid) (db_edges (se_mem s1))")
    case (Some e)
    then have "e \<in> set (db_edges (se_mem s1)) \<and> eg_snapshot_id e = sid \<and> eg_edge_id e = eid" by (auto simp: find_Some_iff)
    then show ?thesis using rest Some by (intro exI [of _ e] exI [of _ s1]) (auto simp: edge_fields_def raiseS_def split: if_splits)
  next
    case None
    then obtain j s2 s3 where ins: "insert_row db_edges eg_id (add_edge_row (?row a q b eid)) s1 = (Inr j, s2)" "flush s2 = (Inr (), s3)"
      and att: "?attach j s3 = (Inr i, s')" using rest by (auto simp: bindS_Inr [of "insert_row _ _ _"] bindS_Inr [of flush])
    have "(?row a q b eid)\<lparr>eg_id := j\<rparr> \<in> set (db_edges (se_mem s3))"
      using ins by (auto simp: insert_row_def Let_def flush_Inr add_edge_row_def)
    then show ?thesis using att
      by (intro exI [of _ "(?row a q b eid)\<lparr>eg_id := j\<rparr>"] exI [of _ s3]) (simp add: edge_fields_def)
  qed
  then obtain e s2 where e: "e \<in> set (db_edges (se_mem s2))" "edge_fields U sid sk okind prd ver tc e" "eg_edge_id e = eid"
    and att: "?attach (eg_id e) s2 = (Inr i, s')" by blast
  obtain s3 where ev: "forS (\<lambda>r. add_evidence U sid r None (Some i) None) es s2 = (Inr (), s3)"
    and de: "forS (\<lambda>r. add_derivation U sid r (Some i) None) ds s3 = (Inr (), s')" and i: "eg_id e = i"
    using att by (auto simp: bindS_Inr returnS_def)
  have "adds (\<lambda>_. False) (\<lambda>_. False) (forS (\<lambda>r. add_evidence U sid r None (Some i) None) es)"
    "adds (\<lambda>_. False) (\<lambda>_. False) (forS (\<lambda>r. add_derivation U sid r (Some i) None) ds)" by (intro adds_intros)+
  then have x: "extends (\<lambda>_. False) (\<lambda>_. False) (se_mem s2) (se_mem s3)" "extends (\<lambda>_. False) (\<lambda>_. False) (se_mem s3) (se_mem s')"
    using ev de unfolding adds_def by blast+
  have "\<forall>r \<in> set es. evidenced U sid i r (se_mem s3)"
    by (rule forS_all [OF ev, where E = "\<lambda>_. False" and A = "\<lambda>_. False"]) (auto intro: add_evidence_evidenced adds_intros evidenced_extends)
  moreover have "\<forall>r \<in> set ds. derived U sid (Some i) None r (se_mem s')"
    by (rule forS_all [OF de, where E = "\<lambda>_. False" and A = "\<lambda>_. False"]) (auto intro: add_derivation_derived adds_intros derived_extends)
  moreover have "e \<in> set (db_edges (se_mem s'))" using e(1) x unfolding extends_def by blast
  ultimately show ?thesis using evidenced_extends [OF _ x(2)] e i id by blast
qed

section \<open>Assertions\<close>

definition assertion_row_for :: "unicode \<Rightarrow> string \<Rightarrow> string \<Rightarrow> string \<Rightarrow> string \<Rightarrow> (string \<times> pyval) list \<Rightarrow> string \<Rightarrow> string \<Rightarrow> string \<Rightarrow> string list
    \<Rightarrow> string list \<Rightarrow> ri_assertion \<Rightarrow> bool" where
  "assertion_row_for U sid sk skey p val prd ver tc ss os a \<longleftrightarrow> as_snapshot_id a = sid \<and> as_subject_kind a = u_nfc U sk
     \<and> normalize_stable_key U (u_nfc U sk) skey = Inr (as_subject_key a) \<and> validate_predicate U p = Inr (as_predicate a)
     \<and> normalize_declared_arrays U ss os (PDict val) = Inr (as_value a) \<and> as_truth_class a = tc \<and> as_producer a = u_nfc U prd
     \<and> as_producer_version a = u_nfc U ver"

lemma adds_assertion:
  assumes "\<And>a. assertion_row_for U sid sk skey p val prd ver tc ss os a \<Longrightarrow> A a"
  shows "adds E A (add_assertion U H sid sk skey p val prd ver ds tc ss os)"
  unfolding add_assertion_def Let_def
  apply (rule adds_bindS [OF adds_steps(7)])
  apply (rule adds_canonS, rule adds_canonS, rule adds_canonS, rule adds_canonS)
  apply (rule adds_bindS [OF adds_steps(9)])
  apply (intro adds_intros adds_assertion_row assms)
  apply (auto simp: assertion_row_for_def)
  done

end
