(* ===== verification/Relation_Resolver.thy ===== *)
theory Relation_Resolver
  imports Source_Naming Store_Growth
begin

text \<open>
  Relationship resolution over a building snapshot (\<^verbatim>\<open>app/intelligence/resolution.py\<close>).

  The pass reads nodes, observations and evidence of the snapshot once, decides for every observation which edges or which diagnostic it gives, and adds
  them in order. The decisions read nothing the additions write, so each \<^verbatim>\<open>_resolve_...\<close> method is a function from what was read to the list of facts
  it attempts; \<^verbatim>\<open>resolve\<close> adds them one after the other and counts them. A dictionary is an association list in insertion order. The
  cooperative cancellation check is left out.
\<close>

section \<open>Model\<close>

subsection \<open>Inputs\<close>

record observed_input =
  oi_observation :: ri_observation
  oi_evidence :: ri_evidence

definition evidence_sort_key :: "ri_evidence \<Rightarrow> string \<times> int \<times> int \<times> string \<times> string \<times> string" where
  "evidence_sort_key e = (ee_path e, ee_start_line e, ee_end_line e, ee_granularity e, ee_extractor e, ee_extractor_version e)"

text \<open>An observation is an input with the first of its evidence records; one without evidence is none.\<close>

definition observed_inputs :: "ri_observation list \<Rightarrow> ri_evidence list \<Rightarrow> observed_input list" where
  "observed_inputs observations evidence = List.map_filter (\<lambda>ob.
     case sort_key evidence_sort_key (filter (\<lambda>e. ee_observation_ref e = Some (ob_id ob)) evidence) of
       [] \<Rightarrow> None | e # _ \<Rightarrow> Some \<lparr> oi_observation = ob, oi_evidence = e \<rparr>) observations"

definition inputs_of_kind :: "string \<Rightarrow> observed_input list \<Rightarrow> observed_input list" where
  "inputs_of_kind k = filter (\<lambda>i. ob_observed_kind (oi_observation i) = k)"

type_synonym node_table = "(string \<times> ri_node) list"

definition nodes_by_key :: "ri_node list \<Rightarrow> node_table" where
  "nodes_by_key nodes = fold (\<lambda>n. AList.update (nd_stable_key n) n) nodes []"

text \<open>\<^verbatim>\<open>evidence_by_node.get(node.id, ())\<close>\<close>

definition evidence_of_node :: "ri_evidence list \<Rightarrow> ri_node \<Rightarrow> ri_evidence list" where
  "evidence_of_node evidence n = filter (\<lambda>e. ee_node_ref e = Some (nd_id n)) evidence"

subsection \<open>Facts\<close>

datatype resolved_fact =
    Edge observed_input ri_node string ri_node
  | Diagnostic observed_input string string string "string list"

definition RI_RES_UNRESOLVED :: string where "RI_RES_UNRESOLVED = ''RI-RES-UNRESOLVED''"
definition RI_RES_AMBIGUOUS :: string where "RI_RES_AMBIGUOUS = ''RI-RES-AMBIGUOUS''"

definition unresolved :: "observed_input \<Rightarrow> string \<Rightarrow> resolved_fact list" where
  "unresolved inp message = [Diagnostic inp RI_RES_UNRESOLVED ''unresolved reference'' message []]"

definition ambiguous :: "observed_input \<Rightarrow> string \<Rightarrow> string list \<Rightarrow> resolved_fact list" where
  "ambiguous inp message candidates = [Diagnostic inp RI_RES_AMBIGUOUS ''ambiguous resolution'' message candidates]"

definition resolver_name :: string where "resolver_name = ''relationship-resolver''"
definition resolver_version :: string where "resolver_version = ''1.1.0''"
definition resolver_producer :: string where "resolver_producer = resolver_name @ ''@'' @ resolver_version"

definition resolver_evidence :: "ri_evidence \<Rightarrow> evidence_arg" where
  "resolver_evidence e = \<lparr> ev_path = ee_path e, ev_start_line = ee_start_line e, ev_end_line = ee_end_line e,
     ev_granularity = ee_granularity e, ev_extractor = resolver_name, ev_extractor_version = resolver_version,
     ev_logical_line_count = ee_logical_line_count e \<rparr>"

definition diagnostic_details :: "observed_input \<Rightarrow> string list \<Rightarrow> (string \<times> pyval) list" where
  "diagnostic_details inp candidates = (''observation_id'', PStr (ob_observation_id (oi_observation inp)))
     # (if candidates \<noteq> [] then [(''candidates'', PList (map PStr (sort candidates)))] else [])"

text \<open>\<^verbatim>\<open>_add_edge\<close> and \<^verbatim>\<open>_diagnostic\<close>\<close>

fun add_resolved :: "unicode \<Rightarrow> digest \<Rightarrow> string \<Rightarrow> resolved_fact \<Rightarrow> int store_action" where
  "add_resolved U H sid (Edge inp subject predicate obj) =
     add_edge U H sid (nd_node_kind subject) (nd_stable_key subject) predicate (nd_node_kind obj) (nd_stable_key obj)
       resolver_name resolver_version [resolver_evidence (oi_evidence inp)]
       [[(''kind'', ''observation''), (''observation_id'', ob_observation_id (oi_observation inp))]] ''resolved''"
| "add_resolved U H sid (Diagnostic inp code category message candidates) =
     add_diagnostic U sid code category ''warning'' message resolver_producer (Some (ee_path (oi_evidence inp)))
       (Some (ee_start_line (oi_evidence inp), ee_end_line (oi_evidence inp))) (Some (ob_subject_key (oi_observation inp))) None
       (Some (diagnostic_details inp candidates)) [] []"

subsection \<open>Candidates\<close>

definition resolve_candidates :: "observed_input \<Rightarrow> ri_node \<Rightarrow> string \<Rightarrow> ri_node list \<Rightarrow> resolved_fact list" where
  "resolve_candidates inp subject predicate candidates =
     (let unique = nodes_by_key candidates; ordered = map (\<lambda>k. the (map_of unique k)) (sort (map fst unique)) in
      if ordered = [] then unresolved inp (predicate @ '' has no resolvable target'')
      else if length ordered > 1 then ambiguous inp (predicate @ '' has more than one candidate target'') (map fst unique)
      else [Edge inp subject predicate (hd ordered)])"

text \<open>\<^verbatim>\<open>_relative_file_candidates\<close>\<close>

definition source_suffixes :: "string \<Rightarrow> string list" where
  "source_suffixes root =
     (if endswith ''.ts'' root \<or> endswith ''.tsx'' root \<or> endswith ''.py'' root then [root]
      else [root @ ''.ts'', root @ ''.tsx'', root @ ''.py'', root @ ''/index.ts'', root @ ''/index.tsx'', root @ ''/__init__.py''])"

definition relative_roots :: "string \<Rightarrow> string \<Rightarrow> string list" where
  "relative_roots specifier source_path =
     (let remainder = lstrip_char (CHR ''.'') specifier; leading = length specifier - length remainder; directory = dirname source_path in
      if startswith ''/'' remainder then [normpath (path_join directory [specifier])]
      else let directory = (dirname ^^ (leading - 1)) directory; parts = filter (\<lambda>p. p \<noteq> []) (split_char (CHR ''.'') remainder) in
           map (\<lambda>n. path_join directory (take n parts)) (List.rev [1..<Suc (length parts)]))"

definition relative_file_candidates :: "string \<Rightarrow> string \<Rightarrow> string list" where
  "relative_file_candidates specifier source_path = concat (map source_suffixes (relative_roots specifier source_path))"

definition python_absolute_file_candidates :: "string list \<Rightarrow> string \<Rightarrow> string list" where
  "python_absolute_file_candidates roots specifier =
     (let m = replace_char (CHR ''.'') (CHR ''/'') specifier in
      concat (map (\<lambda>root. let prefix = (if root \<noteq> [] then root @ ''/'' else []) in
        [prefix @ m @ ''.py'', prefix @ m @ ''/__init__.py'']) roots))"

definition package_dirs :: "string list \<Rightarrow> string list" where
  "package_dirs paths = map dirname (filter (\<lambda>p. basename p = ''__init__.py'') paths)"

definition python_source_roots :: "string list \<Rightarrow> string list" where
  "python_source_roots paths =
     sort (remdups ([] # filter (\<lambda>parent. parent \<notin> set (package_dirs paths)) (map dirname (package_dirs paths))))"

text \<open>\<^verbatim>\<open>re.fullmatch(r"[A-Za-z_][A-Za-z0-9_.]*", specifier)\<close>\<close>

definition dotted_name_char :: "char \<Rightarrow> bool" where
  "dotted_name_char c \<longleftrightarrow> ascii_letter c \<or> c = CHR ''_'' \<or> c = CHR ''.'' \<or> (let n = (of_char c :: int) in 48 \<le> n \<and> n \<le> 57)"

definition dotted_name :: "string \<Rightarrow> bool" where
  "dotted_name s = (case s of [] \<Rightarrow> False | c # cs \<Rightarrow> (ascii_letter c \<or> c = CHR ''_'') \<and> list_all dotted_name_char cs)"

type_synonym import_binding = "string \<times> string \<times> string"

definition file_candidates :: "string list \<Rightarrow> string \<Rightarrow> string \<Rightarrow> import_binding list \<Rightarrow> string list" where
  "file_candidates roots specifier source_path bindings =
     (if startswith ''.'' specifier then relative_file_candidates specifier source_path
      else if endswith ''.py'' source_path \<and> dotted_name specifier
      then python_absolute_file_candidates roots specifier
        @ concat (map (\<lambda>(binding_specifier, imported, local).
            if binding_specifier \<noteq> [] \<and> binding_specifier @ ''.'' @ imported = specifier
            then python_absolute_file_candidates roots binding_specifier else []) bindings)
      else [])"

definition import_candidates :: "unicode \<Rightarrow> string list \<Rightarrow> string \<Rightarrow> string \<Rightarrow> node_table \<Rightarrow> import_binding list \<Rightarrow> ri_node list" where
  "import_candidates U roots specifier source_path nodes bindings =
     (let files = map snd (filter (\<lambda>(key, n). key \<in> set (map (\<lambda>p. ''file:'' @ p) (file_candidates roots specifier source_path bindings))
            \<and> nd_node_kind n = ''file'') nodes) in
      if files \<noteq> [] then files
      else let package = package_root specifier source_path in
        filter (\<lambda>n. nd_node_kind n = ''dependency''
          \<and> (nd_stable_key n = ''dep:npm:'' @ package \<or> nd_stable_key n = ''dep:pypi:'' @ fold_pypi U package)) (map snd nodes))"

text \<open>\<^verbatim>\<open>bool((node.properties or {}).get("default_export"))\<close>; a float carries its text.\<close>

fun truthy :: "pyval \<Rightarrow> bool" where
  "truthy PNone = False"
| "truthy (PBool b) = b"
| "truthy (PInt i) = (i \<noteq> 0)"
| "truthy (PFloat t) = (t \<noteq> ''0.0'' \<and> t \<noteq> ''-0.0'')"
| "truthy (PStr s) = (s \<noteq> [])"
| "truthy (PList xs) = (xs \<noteq> [])"
| "truthy (PDict kvs) = (kvs \<noteq> [])"
| "truthy (POther t) = True"

definition default_export :: "ri_node \<Rightarrow> bool" where
  "default_export n = (case nd_properties n of None \<Rightarrow> False
     | Some ps \<Rightarrow> (case map_of ps ''default_export'' of None \<Rightarrow> False | Some v \<Rightarrow> truthy v))"

text \<open>The symbols of a file that an import of a name can mean.\<close>

definition exported_symbols :: "node_table \<Rightarrow> string \<Rightarrow> string \<Rightarrow> ri_node list" where
  "exported_symbols nodes path imported =
     (let inside = (\<lambda>n. nd_node_kind n = ''symbol'' \<and> startswith (path @ ''::'') (nd_stable_key n)) in
      if imported = ''default'' then filter (\<lambda>n. inside n \<and> default_export n) (map snd nodes)
      else case map_of nodes (path @ ''::'' @ imported) of
          Some n \<Rightarrow> if nd_node_kind n = ''symbol'' then [n] else filter (\<lambda>n. inside n \<and> nd_name n = Some imported) (map snd nodes)
        | None \<Rightarrow> filter (\<lambda>n. inside n \<and> nd_name n = Some imported) (map snd nodes))"

definition bound_candidates :: "unicode \<Rightarrow> string list \<Rightarrow> string \<Rightarrow> string \<Rightarrow> node_table \<Rightarrow> import_binding list \<Rightarrow> ri_node list" where
  "bound_candidates U roots referent source_path nodes bindings =
     concat (map (\<lambda>(specifier, imported, local).
       if local \<noteq> referent then []
       else concat (map (\<lambda>target. if nd_node_kind target \<noteq> ''file'' then []
              else exported_symbols nodes (removeprefix ''file:'' (nd_stable_key target)) imported)
            (import_candidates U roots specifier source_path nodes []))) bindings)"

definition reference_candidates :: "unicode \<Rightarrow> string list \<Rightarrow> string \<Rightarrow> string \<Rightarrow> node_table \<Rightarrow> import_binding list \<Rightarrow> ri_node list" where
  "reference_candidates U roots referent source_path nodes bindings =
     (let symbol_at = (\<lambda>k. case map_of nodes k of Some n \<Rightarrow> if nd_node_kind n = ''symbol'' then Some n else None | None \<Rightarrow> None) in
      case symbol_at referent of
        Some n \<Rightarrow> [n]
      | None \<Rightarrow> (case symbol_at (source_path @ ''::'' @ referent) of
          Some n \<Rightarrow> [n]
        | None \<Rightarrow> if map_of nodes (''file:'' @ source_path) = None then []
            else bound_candidates U roots referent source_path nodes bindings))"

subsection \<open>Subjects\<close>

definition source_file :: "observed_input \<Rightarrow> node_table \<Rightarrow> ri_node option" where
  "source_file inp nodes =
     (let fallback = map_of nodes (''file:'' @ ee_path (oi_evidence inp)) in
      case map_of nodes (ob_subject_key (oi_observation inp)) of
        Some n \<Rightarrow> if nd_node_kind n = ''file'' then Some n else fallback
      | None \<Rightarrow> fallback)"

text \<open>\<^verbatim>\<open>value.split("|", 2)\<close>: further bars belong to the third part.\<close>

definition parse_import_binding :: "string option \<Rightarrow> import_binding option" where
  "parse_import_binding val = Option.bind val (\<lambda>v.
     Option.bind (split_once ''|'' v) (\<lambda>(a, rest). Option.bind (split_once ''|'' rest) (\<lambda>(b, c).
       if a \<noteq> [] \<and> b \<noteq> [] \<and> c \<noteq> [] then Some (a, b, c) else None)))"

definition encloses :: "ri_evidence \<Rightarrow> ri_evidence \<Rightarrow> bool" where
  "encloses outer inner \<longleftrightarrow> ee_path outer = ee_path inner \<and> ee_start_line outer \<le> ee_start_line inner \<and> ee_end_line outer \<ge> ee_end_line inner"

definition span_candidates :: "observed_input \<Rightarrow> node_table \<Rightarrow> ri_evidence list \<Rightarrow> (int \<times> string \<times> ri_node) list" where
  "span_candidates inp nodes evidence = concat (map (\<lambda>n. if nd_node_kind n \<noteq> ''symbol'' then []
       else map (\<lambda>e. (ee_end_line e - ee_start_line e, nd_stable_key n, n))
              (filter (\<lambda>e. encloses e (oi_evidence inp)) (evidence_of_node evidence n))) (map snd nodes))"

definition containing_symbol :: "observed_input \<Rightarrow> node_table \<Rightarrow> ri_evidence list \<Rightarrow> ri_node option" where
  "containing_symbol inp nodes evidence =
     (case sort_key (\<lambda>(width, key, n). (width, key)) (span_candidates inp nodes evidence) of
        [] \<Rightarrow> None
      | [(width, key, n)] \<Rightarrow> Some n
      | (width, key, n) # (width', key', n') # _ \<Rightarrow> if width = width' then None else Some n)"

definition reference_subject :: "observed_input \<Rightarrow> node_table \<Rightarrow> ri_evidence list \<Rightarrow> ri_node option" where
  "reference_subject inp nodes evidence =
     (let observed = map_of nodes (ob_subject_key (oi_observation inp)); found = containing_symbol inp nodes evidence in
      case observed of
        Some n \<Rightarrow> if nd_node_kind n = ''symbol'' then Some n
          else if found = None \<and> (nd_node_kind n = ''file'' \<or> nd_node_kind n = ''module'') then Some n else found
      | None \<Rightarrow> found)"

subsection \<open>One observation\<close>

definition resolve_definition :: "observed_input \<Rightarrow> node_table \<Rightarrow> resolved_fact list" where
  "resolve_definition inp nodes =
     (let none = unresolved inp ''definition has no resolvable symbol parent'' in
      case map_of nodes (ob_subject_key (oi_observation inp)) of
        None \<Rightarrow> none
      | Some symbol \<Rightarrow>
          if nd_node_kind symbol \<noteq> ''symbol'' then none
          else case split_once ''::'' (nd_stable_key symbol) of
            None \<Rightarrow> none
          | Some (path, qualified) \<Rightarrow>
              let parent_key = (if CHR ''.'' \<in> set qualified then path @ ''::'' @ rsplit_head (CHR ''.'') qualified else ''file:'' @ path) in
              case map_of nodes parent_key of
                None \<Rightarrow> unresolved inp ''definition parent is absent from the snapshot''
              | Some parent \<Rightarrow> [Edge inp parent ''contains'' symbol, Edge inp parent ''defines'' symbol])"

type_synonym bindings = "(string \<times> import_binding) list"

definition bindings_of :: "bindings \<Rightarrow> string \<Rightarrow> import_binding list" where
  "bindings_of bs key = map snd (filter (\<lambda>(k, b). k = key) bs)"

definition resolve_import :: "unicode \<Rightarrow> string list \<Rightarrow> observed_input \<Rightarrow> node_table \<Rightarrow> bindings \<Rightarrow> resolved_fact list" where
  "resolve_import U roots inp nodes bs =
     (case source_file inp nodes of
        None \<Rightarrow> unresolved inp ''import source file is absent from the snapshot''
      | Some subject \<Rightarrow> (case ob_referent_text (oi_observation inp) of
          None \<Rightarrow> unresolved inp ''import has no module specifier''
        | Some specifier \<Rightarrow>
            if specifier = [] then unresolved inp ''import has no module specifier''
            else resolve_candidates inp subject ''imports''
              (import_candidates U roots specifier (ee_path (oi_evidence inp)) nodes (bindings_of bs (nd_stable_key subject)))))"

definition resolve_observed_reference :: "unicode \<Rightarrow> string list \<Rightarrow> observed_input \<Rightarrow> node_table \<Rightarrow> ri_evidence list \<Rightarrow> bindings \<Rightarrow> string
    \<Rightarrow> resolved_fact list" where
  "resolve_observed_reference U roots inp nodes evidence bs predicate =
     (case reference_subject inp nodes evidence of
        None \<Rightarrow> unresolved inp (predicate @ '' source symbol is absent from the snapshot'')
      | Some subject \<Rightarrow> (case ob_referent_text (oi_observation inp) of
          None \<Rightarrow> unresolved inp (predicate @ '' has no reference text'')
        | Some referent \<Rightarrow>
            if referent = [] then unresolved inp (predicate @ '' has no reference text'')
            else let path = ee_path (oi_evidence inp) in
              resolve_candidates inp subject predicate (reference_candidates U roots referent path nodes (bindings_of bs (''file:'' @ path)))))"

definition resolve_dependency :: "observed_input \<Rightarrow> node_table \<Rightarrow> resolved_fact list" where
  "resolve_dependency inp nodes =
     (case (map_of nodes (ob_subject_key (oi_observation inp)), map_of nodes ''repo:root'') of
        (Some dependency, Some repository) \<Rightarrow>
          if nd_node_kind dependency \<noteq> ''dependency'' then unresolved inp ''dependency declaration is incomplete''
          else [Edge inp repository ''depends_on'' dependency]
      | _ \<Rightarrow> unresolved inp ''dependency declaration is incomplete'')"

definition resolve_http_call :: "observed_input \<Rightarrow> node_table \<Rightarrow> ri_evidence list \<Rightarrow> resolved_fact list" where
  "resolve_http_call inp nodes evidence =
     (case Option.bind (ob_referent_text (oi_observation inp)) (\<lambda>r. if r = [] then None else parse_referent r) of
        None \<Rightarrow> unresolved inp ''calls_service has no parsable destination''
      | Some destination \<Rightarrow> (case reference_subject inp nodes evidence of
          None \<Rightarrow> unresolved inp ''calls_service source is absent from the snapshot''
        | Some subject \<Rightarrow> (case map_of nodes (''svc:'' @ ht_origin destination) of
            None \<Rightarrow> unresolved inp ''calls_service target service is absent from the snapshot''
          | Some service \<Rightarrow>
              if nd_node_kind service \<noteq> ''service'' then unresolved inp ''calls_service target service is absent from the snapshot''
              else [Edge inp subject ''calls_service'' service])))"

definition resolve_iac_resource :: "observed_input \<Rightarrow> node_table \<Rightarrow> resolved_fact list" where
  "resolve_iac_resource inp nodes =
     (case (map_of nodes (ob_subject_key (oi_observation inp)), map_of nodes ''repo:root'') of
        (Some resource, Some repository) \<Rightarrow>
          if nd_node_kind resource \<noteq> ''iac_resource'' then unresolved inp ''iac resource declaration is incomplete''
          else [Edge inp repository ''declares'' resource]
      | _ \<Rightarrow> unresolved inp ''iac resource declaration is incomplete'')"

definition resolve_route :: "unicode \<Rightarrow> string list \<Rightarrow> observed_input \<Rightarrow> observed_input list \<Rightarrow> node_table \<Rightarrow> bindings \<Rightarrow> resolved_fact list" where
  "resolve_route U roots route handlers nodes bs =
     (case map_of nodes (ob_subject_key (oi_observation route)) of
        None \<Rightarrow> unresolved route ''route declaration is absent from the snapshot''
      | Some route_node \<Rightarrow>
          if nd_node_kind route_node \<noteq> ''symbol'' then unresolved route ''route declaration is absent from the snapshot''
          else case handlers of
            [] \<Rightarrow> unresolved route ''route has no observed handler reference''
          | _ # _ # _ \<Rightarrow> ambiguous route ''route has more than one handler reference'' []
          | [handler] \<Rightarrow> (case ob_referent_text (oi_observation handler) of
              None \<Rightarrow> unresolved handler ''route handler has no reference text''
            | Some referent \<Rightarrow>
                if referent = [] then unresolved handler ''route handler has no reference text''
                else let path = ee_path (oi_evidence handler) in
                  resolve_candidates handler route_node ''routes_to''
                    (reference_candidates U roots referent path nodes (bindings_of bs (''file:'' @ path)))))"

subsection \<open>The pass\<close>

definition reference_input_key :: "observed_input \<Rightarrow> string \<times> string option \<times> string \<times> int \<times> int \<times> int" where
  "reference_input_key inp = (ob_subject_key (oi_observation inp), ob_referent_text (oi_observation inp), ee_path (oi_evidence inp),
     ee_start_line (oi_evidence inp), ee_end_line (oi_evidence inp), ob_ordinal (oi_observation inp))"

definition bindings_by_file :: "observed_input list \<Rightarrow> node_table \<Rightarrow> bindings" where
  "bindings_by_file inputs nodes = List.map_filter (\<lambda>inp.
     case (source_file inp nodes, parse_import_binding (ob_referent_text (oi_observation inp))) of
       (Some source, Some b) \<Rightarrow> Some (nd_stable_key source, b) | _ \<Rightarrow> None) (inputs_of_kind ''import_binding'' inputs)"

definition resolve_call :: "unicode \<Rightarrow> string list \<Rightarrow> observed_input \<Rightarrow> node_table \<Rightarrow> ri_evidence list \<Rightarrow> bindings
    \<Rightarrow> observed_input list \<Rightarrow> resolved_fact list" where
  "resolve_call U roots inp nodes evidence bs inputs =
     (if reference_input_key inp \<in> set (map reference_input_key (inputs_of_kind ''call_shadowed'' inputs))
      then unresolved inp ''calls target is shadowed by a local binding''
      else resolve_observed_reference U roots inp nodes evidence bs ''calls'')"

text \<open>\<^verbatim>\<open>self._python_roots\<close> of a pass.\<close>

definition snapshot_roots :: "ri_node list \<Rightarrow> string list" where
  "snapshot_roots node_rows =
     python_source_roots (map (\<lambda>n. removeprefix ''file:'' (nd_stable_key n)) (filter (\<lambda>n. nd_node_kind n = ''file'') node_rows))"

text \<open>The facts of one pass, in the order they are added.\<close>

definition resolved_facts :: "unicode \<Rightarrow> ri_node list \<Rightarrow> ri_observation list \<Rightarrow> ri_evidence list \<Rightarrow> resolved_fact list" where
  "resolved_facts U node_rows observations evidence =
     (let nodes = nodes_by_key node_rows;
          roots = snapshot_roots node_rows;
          inputs = observed_inputs observations evidence;
          bs = bindings_by_file inputs nodes;
          each = (\<lambda>kind f. concat (map f (inputs_of_kind kind inputs)));
          reference = (\<lambda>predicate inp. resolve_observed_reference U roots inp nodes evidence bs predicate) in
      each ''definition'' (\<lambda>inp. resolve_definition inp nodes)
      @ each ''import'' (\<lambda>inp. resolve_import U roots inp nodes bs)
      @ each ''call'' (\<lambda>inp. resolve_call U roots inp nodes evidence bs inputs)
      @ each ''implements'' (reference ''implements'')
      @ each ''dependency'' (\<lambda>inp. resolve_dependency inp nodes)
      @ each ''injects'' (reference ''injects'')
      @ each ''http_call'' (\<lambda>inp. resolve_http_call inp nodes evidence)
      @ each ''iac_resource'' (\<lambda>inp. resolve_iac_resource inp nodes)
      @ each ''route'' (\<lambda>inp. resolve_route U roots inp (filter (\<lambda>h. ob_subject_key (oi_observation h) = ob_subject_key (oi_observation inp))
            (inputs_of_kind ''route_handler'' inputs)) nodes bs))"

fun is_edge :: "resolved_fact \<Rightarrow> bool" where
  "is_edge (Edge _ _ _ _) = True"
| "is_edge (Diagnostic _ _ _ _ _) = False"

record resolution_result =
  edges_added :: nat
  diagnostics_added :: nat

definition resolve :: "unicode \<Rightarrow> digest \<Rightarrow> string \<Rightarrow> resolution_result store_action" where
  "resolve U H sid =
     bindS (the_snapshot sid) (\<lambda>snapshot.
       if sn_state snapshot \<noteq> ''building'' then raiseS (SnapshotStateError ''relationship resolution requires a building snapshot'')
       else if resolver_producer \<notin> set (sn_producer_version_set snapshot)
       then raiseS (ValueError ''snapshot producer_version_set is missing the resolver'')
       else
         bindS (query (\<lambda>d. filter (\<lambda>n. nd_snapshot_id n = sid) (db_nodes d))) (\<lambda>nodes.
         bindS (query (\<lambda>d. sort_key ob_observation_id (filter (\<lambda>ob. ob_snapshot_id ob = sid) (db_observations d)))) (\<lambda>observations.
         bindS (query (\<lambda>d. filter (\<lambda>e. ee_snapshot_id e = sid) (db_evidence d))) (\<lambda>evidence.
           let facts = resolved_facts U nodes observations evidence in
           bindS (forS (add_resolved U H sid) facts) (\<lambda>_.
             returnS \<lparr> edges_added = length (filter is_edge facts), diagnostics_added = length (filter (Not \<circ> is_edge) facts) \<rparr>)))))"

section \<open>Candidates\<close>

lemma set_update_fresh: "distinct (map fst xs) \<Longrightarrow> set (AList.update k v xs) = insert (k, v) {(k', v'). (k', v') \<in> set xs \<and> k' \<noteq> k}"
  by (induction xs) (auto simp: image_iff)

lemma update_absent: "k \<notin> fst ` set xs \<Longrightarrow> AList.update k v xs = xs @ [(k, v)]"
  by (induction xs) auto

lemma nodes_by_key_aux:
  assumes "distinct (map fst t)" and "\<forall>(k, n) \<in> set t. k = nd_stable_key n"
  shows "distinct (map fst (fold (\<lambda>n. AList.update (nd_stable_key n) n) ns t))
    \<and> (\<forall>(k, n) \<in> set (fold (\<lambda>n. AList.update (nd_stable_key n) n) ns t). k = nd_stable_key n \<and> n \<in> snd ` set t \<union> set ns)
    \<and> fst ` set (fold (\<lambda>n. AList.update (nd_stable_key n) n) ns t) = fst ` set t \<union> nd_stable_key ` set ns"
  using assms
proof (induction ns arbitrary: t)
  case (Cons n ns)
  let ?t = "AList.update (nd_stable_key n) n t"
  have t: "distinct (map fst ?t)" "set ?t = insert (nd_stable_key n, n) {(k', v'). (k', v') \<in> set t \<and> k' \<noteq> nd_stable_key n}"
    using Cons.prems(1) by (simp_all add: distinct_update set_update_fresh)
  have "\<forall>(k, m) \<in> set ?t. k = nd_stable_key m" using Cons.prems(2) t(2) by auto
  note ih = Cons.IH [OF t(1) this]
  have "snd ` set ?t \<subseteq> insert n (snd ` set t)" using t(2) by force
  moreover have "fst ` set ?t = insert (nd_stable_key n) (fst ` set t)" using t(2) by force
  ultimately show ?case using ih by (auto 0 4)
qed (force simp: image_iff)

lemma nodes_by_key_props:
  shows "distinct (map fst (nodes_by_key ns))"
    and "(k, n) \<in> set (nodes_by_key ns) \<Longrightarrow> k = nd_stable_key n \<and> n \<in> set ns"
    and "fst ` set (nodes_by_key ns) = nd_stable_key ` set ns"
  using nodes_by_key_aux [of "[]" ns] by (auto simp: nodes_by_key_def)

lemma nodes_by_key_distinct:
  assumes "distinct (map nd_stable_key ns)"
  shows "nodes_by_key ns = map (\<lambda>n. (nd_stable_key n, n)) ns"
proof -
  have "fold (\<lambda>n. AList.update (nd_stable_key n) n) ns t = t @ map (\<lambda>n. (nd_stable_key n, n)) ns"
    if "distinct (map nd_stable_key ns)" "fst ` set t \<inter> nd_stable_key ` set ns = {}" for t
    using that by (induction ns arbitrary: t) (auto simp: update_absent)
  then show ?thesis using assms by (simp add: nodes_by_key_def)
qed

lemma node_at: "map_of (nodes_by_key ns) k = Some n \<Longrightarrow> nd_stable_key n = k \<and> n \<in> set ns"
  using nodes_by_key_props(2) map_of_SomeD by metis

lemma resolve_candidates_cases:
  obtains (none) "cs = []" "resolve_candidates inp subject p cs = unresolved inp (p @ '' has no resolvable target'')"
  | (one) n where "n \<in> set cs" "nd_stable_key ` set cs = {nd_stable_key n}" "resolve_candidates inp subject p cs = [Edge inp subject p n]"
  | (many) a b where "a \<in> set cs" "b \<in> set cs" "nd_stable_key a \<noteq> nd_stable_key b"
      "resolve_candidates inp subject p cs = ambiguous inp (p @ '' has more than one candidate target'') (map fst (nodes_by_key cs))"
proof -
  let ?u = "nodes_by_key cs"
  note props = nodes_by_key_props [where ns = cs]
  have len: "length (sort (map fst ?u)) = length ?u" by simp
  consider "?u = []" | k n where "?u = [(k, n)]" | x y zs where "?u = x # y # zs" by (metis list.exhaust surj_pair)
  then show thesis
  proof cases
    case 1
    then have "cs = []" using props(3) by auto
    with 1 show thesis using none by (simp add: resolve_candidates_def)
  next
    case 2
    then have kn: "k = nd_stable_key n" "n \<in> set cs" using props(2) [of k n] by auto
    have "nd_stable_key ` set cs = {nd_stable_key n}" using 2 props(3) kn by auto
    with 2 kn show thesis using one by (simp add: resolve_candidates_def)
  next
    case 3
    obtain k n k' n' where xy: "x = (k, n)" "y = (k', n')" by fastforce
    have n: "k = nd_stable_key n" "n \<in> set cs" "k' = nd_stable_key n'" "n' \<in> set cs" using 3 xy props(2) by auto
    have "k \<noteq> k'" using props(1) 3 xy by auto
    moreover have "resolve_candidates inp subject p cs = ambiguous inp (p @ '' has more than one candidate target'') (map fst ?u)"
      using 3 by (simp add: resolve_candidates_def Let_def del: sort_key_simps) (simp flip: length_0_conv)
    ultimately show thesis using many n by metis
  qed
qed

section \<open>One input at a time\<close>

definition pass_bindings :: "ri_node list \<Rightarrow> observed_input list \<Rightarrow> bindings" where
  "pass_bindings ns inputs = bindings_by_file inputs (nodes_by_key ns)"

definition handlers_of :: "observed_input list \<Rightarrow> observed_input \<Rightarrow> observed_input list" where
  "handlers_of inputs inp = filter (\<lambda>h. ob_subject_key (oi_observation h) = ob_subject_key (oi_observation inp)) (inputs_of_kind ''route_handler'' inputs)"

definition relation_kinds :: "string list" where
  "relation_kinds = [''definition'', ''import'', ''call'', ''implements'', ''dependency'', ''injects'', ''http_call'', ''iac_resource'', ''route'']"

definition resolve_one :: "unicode \<Rightarrow> ri_node list \<Rightarrow> observed_input list \<Rightarrow> ri_evidence list \<Rightarrow> string \<Rightarrow> observed_input \<Rightarrow> resolved_fact list" where
  "resolve_one U ns inputs evidence kind inp =
     (let nodes = nodes_by_key ns; roots = snapshot_roots ns; bs = pass_bindings ns inputs in
      if kind = ''definition'' then resolve_definition inp nodes
      else if kind = ''import'' then resolve_import U roots inp nodes bs
      else if kind = ''call'' then resolve_call U roots inp nodes evidence bs inputs
      else if kind \<in> {''implements'', ''injects''} then resolve_observed_reference U roots inp nodes evidence bs kind
      else if kind = ''dependency'' then resolve_dependency inp nodes
      else if kind = ''http_call'' then resolve_http_call inp nodes evidence
      else if kind = ''iac_resource'' then resolve_iac_resource inp nodes
      else resolve_route U roots inp (handlers_of inputs inp) nodes bs)"

lemma resolved_facts_by_kind:
  "resolved_facts U ns obs ev = concat (map (\<lambda>k. concat (map (resolve_one U ns (observed_inputs obs ev) ev k) (inputs_of_kind k (observed_inputs obs ev)))) relation_kinds)"
  by (simp add: resolved_facts_def resolve_one_def [abs_def] pass_bindings_def handlers_of_def relation_kinds_def Let_def)

lemma resolved_facts_iff:
  "f \<in> set (resolved_facts U ns obs ev) \<longleftrightarrow> (\<exists>inp \<in> set (observed_inputs obs ev). ob_observed_kind (oi_observation inp) \<in> set relation_kinds
     \<and> f \<in> set (resolve_one U ns (observed_inputs obs ev) ev (ob_observed_kind (oi_observation inp)) inp))"
  by (auto simp: resolved_facts_by_kind inputs_of_kind_def)

fun fact_input :: "resolved_fact \<Rightarrow> observed_input" where
  "fact_input (Edge inp _ _ _) = inp"
| "fact_input (Diagnostic inp _ _ _ _) = inp"

text \<open>What one input may give: one diagnostic, or edges whose ends satisfy a condition.\<close>

definition outcome :: "observed_input set \<Rightarrow> (observed_input \<Rightarrow> ri_node \<Rightarrow> string \<Rightarrow> ri_node \<Rightarrow> bool) \<Rightarrow> resolved_fact list \<Rightarrow> bool" where
  "outcome I Q fs \<longleftrightarrow> fs \<noteq> [] \<and> (\<forall>f \<in> set fs. fact_input f \<in> I)
     \<and> ((\<exists>d. fs = [d] \<and> \<not> is_edge d) \<or> (\<forall>f \<in> set fs. \<exists>i s p n. f = Edge i s p n \<and> Q i s p n))"

lemma outcome_unresolved [simp]: "inp \<in> I \<Longrightarrow> outcome I Q (unresolved inp m)"
  by (simp add: outcome_def unresolved_def)

lemma outcome_ambiguous [simp]: "inp \<in> I \<Longrightarrow> outcome I Q (ambiguous inp m cs)"
  by (simp add: outcome_def ambiguous_def)

lemma outcome_candidates:
  assumes "inp \<in> I" and "\<And>n. n \<in> set cs \<Longrightarrow> nd_stable_key ` set cs = {nd_stable_key n} \<Longrightarrow> Q inp subject p n"
  shows "outcome I Q (resolve_candidates inp subject p cs)"
  by (rule resolve_candidates_cases [of cs inp subject p]) (use assms in \<open>auto simp: outcome_def unresolved_def ambiguous_def\<close>)

section \<open>Every edge is justified, every input accounted for\<close>

text \<open>What proves that a reference of an input means a symbol: its own key, a definition of the file, or an import binding of the file for that very name.\<close>

definition imported_symbol :: "string list \<Rightarrow> ri_node list \<Rightarrow> string \<Rightarrow> string \<Rightarrow> string \<Rightarrow> ri_node \<Rightarrow> bool" where
  "imported_symbol roots ns path specifier imported n \<longleftrightarrow>
     (\<exists>f \<in> set ns. \<exists>q. nd_node_kind f = ''file'' \<and> nd_stable_key f = ''file:'' @ q \<and> q \<in> set (file_candidates roots specifier path [])
       \<and> startswith (q @ ''::'') (nd_stable_key n)
       \<and> (if imported = ''default'' then default_export n else nd_stable_key n = q @ ''::'' @ imported \<or> nd_name n = Some imported))"

definition proven_target :: "string list \<Rightarrow> ri_node list \<Rightarrow> bindings \<Rightarrow> string \<Rightarrow> string \<Rightarrow> ri_node \<Rightarrow> bool" where
  "proven_target roots ns bs path referent n \<longleftrightarrow> n \<in> set ns \<and> nd_node_kind n = ''symbol''
     \<and> (nd_stable_key n = referent \<or> nd_stable_key n = path @ ''::'' @ referent
        \<or> (\<exists>specifier imported. (specifier, imported, referent) \<in> set (bindings_of bs (''file:'' @ path)) \<and> imported_symbol roots ns path specifier imported n))"

lemma import_candidates_file:
  assumes "t \<in> set (import_candidates U roots specifier path (nodes_by_key ns) bs)" and "nd_node_kind t = ''file''"
  shows "t \<in> set ns \<and> (\<exists>q \<in> set (file_candidates roots specifier path bs). nd_stable_key t = ''file:'' @ q)"
  using assms nodes_by_key_props(2) [of _ _ ns] by (auto simp: import_candidates_def Let_def split: if_splits)

lemma import_candidates_in: "t \<in> set (import_candidates U roots specifier path (nodes_by_key ns) bs) \<Longrightarrow> t \<in> set ns"
  using nodes_by_key_props(2) [of _ _ ns] by (auto simp: import_candidates_def Let_def split: if_splits)

lemma removeprefix_append [simp]: "removeprefix p (p @ s) = s"
  by (simp add: removeprefix_def startswith_iff)

lemma exported_symbols_in:
  assumes "n \<in> set (exported_symbols (nodes_by_key ns) q imported)"
  shows "n \<in> set ns \<and> nd_node_kind n = ''symbol'' \<and> startswith (q @ ''::'') (nd_stable_key n)
    \<and> (if imported = ''default'' then default_export n else nd_stable_key n = q @ ''::'' @ imported \<or> nd_name n = Some imported)"
  using assms nodes_by_key_props(2) [of _ _ ns] node_at [of ns "q @ ''::'' @ imported"]
  by (auto simp: exported_symbols_def Let_def startswith_iff split: if_splits option.splits)

lemma reference_candidates_proven:
  assumes "n \<in> set (reference_candidates U roots referent path (nodes_by_key ns) (bindings_of bs (''file:'' @ path)))"
  shows "proven_target roots ns bs path referent n"
proof -
  consider "map_of (nodes_by_key ns) referent = Some n" "nd_node_kind n = ''symbol''"
    | "map_of (nodes_by_key ns) (path @ ''::'' @ referent) = Some n" "nd_node_kind n = ''symbol''"
    | "n \<in> set (bound_candidates U roots referent path (nodes_by_key ns) (bindings_of bs (''file:'' @ path)))"
    using assms by (auto simp: reference_candidates_def Let_def split: option.splits if_splits)
  then show ?thesis
  proof cases
    case 3
    then obtain specifier imported t where b: "(specifier, imported, referent) \<in> set (bindings_of bs (''file:'' @ path))"
      and t: "t \<in> set (import_candidates U roots specifier path (nodes_by_key ns) [])" "nd_node_kind t = ''file''"
      and e: "n \<in> set (exported_symbols (nodes_by_key ns) (removeprefix ''file:'' (nd_stable_key t)) imported)"
      by (auto simp: bound_candidates_def split: if_splits)
    obtain q where q: "t \<in> set ns" "q \<in> set (file_candidates roots specifier path [])" "nd_stable_key t = ''file:'' @ q"
      using import_candidates_file [OF t] by blast
    have e: "n \<in> set (exported_symbols (nodes_by_key ns) q imported)" using e unfolding q(3) removeprefix_append .
    have "imported_symbol roots ns path specifier imported n"
      unfolding imported_symbol_def using q t(2) exported_symbols_in [OF e] by blast
    then show ?thesis using exported_symbols_in [OF e] b unfolding proven_target_def by blast
  qed (use node_at in \<open>auto simp: proven_target_def\<close>)
qed

text \<open>The condition on an edge of the pass.\<close>

definition shadowed :: "observed_input list \<Rightarrow> observed_input \<Rightarrow> bool" where
  "shadowed inputs inp \<longleftrightarrow> (\<exists>i \<in> set inputs. ob_observed_kind (oi_observation i) = ''call_shadowed'' \<and> reference_input_key inp = reference_input_key i)"

definition reference_predicates :: "string set" where
  "reference_predicates = {''calls'', ''implements'', ''injects'', ''routes_to''}"

definition justified :: "unicode \<Rightarrow> ri_node list \<Rightarrow> observed_input list \<Rightarrow> observed_input \<Rightarrow> ri_node \<Rightarrow> string \<Rightarrow> ri_node \<Rightarrow> bool" where
  "justified U ns inputs inp s p n \<longleftrightarrow> s \<in> set ns \<and> n \<in> set ns \<and> (p = ''calls'' \<longrightarrow> \<not> shadowed inputs inp)
     \<and> (p \<in> reference_predicates \<longrightarrow> (\<exists>referent. ob_referent_text (oi_observation inp) = Some referent \<and> referent \<noteq> []
          \<and> (let path = ee_path (oi_evidence inp); bs = pass_bindings ns inputs in proven_target (snapshot_roots ns) ns bs path referent n
             \<and> nd_stable_key ` set (reference_candidates U (snapshot_roots ns) referent path (nodes_by_key ns) (bindings_of bs (''file:'' @ path)))
               = {nd_stable_key n})))"

lemma reference_subject_in: "reference_subject inp (nodes_by_key ns) ev = Some s \<Longrightarrow> s \<in> set ns"
proof -
  have c: "n \<in> set ns" if "containing_symbol inp (nodes_by_key ns) ev = Some n" for n
  proof -
    let ?c = "span_candidates inp (nodes_by_key ns) ev"
    define xs where "xs = sort_key (\<lambda>(width, key, n). (width, key)) ?c"
    have "(case xs of [] \<Rightarrow> None | [(width, key, n)] \<Rightarrow> Some n
        | (width, key, n) # (width', key', n') # _ \<Rightarrow> if width = width' then None else Some n) = Some n"
      using that unfolding containing_symbol_def xs_def .
    then have "n \<in> snd ` snd ` set xs" by (auto split: list.splits if_splits prod.splits)
    then have "n \<in> snd ` snd ` set (sort_key (\<lambda>(width, key, n). (width, key)) ?c)" unfolding xs_def .
    then have "n \<in> snd ` snd ` set ?c" by simp
    then show ?thesis using nodes_by_key_props(2) [of _ _ ns] by (auto simp: span_candidates_def split: if_splits)
  qed
  show "reference_subject inp (nodes_by_key ns) ev = Some s \<Longrightarrow> s \<in> set ns"
    using c node_at by (auto simp: reference_subject_def Let_def split: option.splits if_splits)
qed

lemma source_file_in: "source_file inp (nodes_by_key ns) = Some s \<Longrightarrow> s \<in> set ns"
  using node_at by (auto simp: source_file_def Let_def split: option.splits if_splits)

abbreviation pass_candidates :: "unicode \<Rightarrow> ri_node list \<Rightarrow> observed_input list \<Rightarrow> string \<Rightarrow> string \<Rightarrow> ri_node list" where
  "pass_candidates U ns inputs path referent \<equiv>
     reference_candidates U (snapshot_roots ns) referent path (nodes_by_key ns) (bindings_of (pass_bindings ns inputs) (''file:'' @ path))"

lemma reference_justified:
  assumes "s \<in> set ns" and "p = ''calls'' \<longrightarrow> \<not> shadowed inputs inp" and "ob_referent_text (oi_observation inp) = Some referent" "referent \<noteq> []"
    and "n \<in> set (pass_candidates U ns inputs (ee_path (oi_evidence inp)) referent)"
    and "nd_stable_key ` set (pass_candidates U ns inputs (ee_path (oi_evidence inp)) referent) = {nd_stable_key n}"
  shows "justified U ns inputs inp s p n"
proof -
  note t = reference_candidates_proven [OF assms(5)]
  have "n \<in> set ns" using t unfolding proven_target_def by blast
  then show ?thesis unfolding justified_def Let_def using t assms by blast
qed

lemma outcome_reference:
  assumes "inp \<in> I" and "p = ''calls'' \<longrightarrow> \<not> shadowed inputs inp"
  shows "outcome I (justified U ns inputs) (resolve_observed_reference U (snapshot_roots ns) inp (nodes_by_key ns) ev (pass_bindings ns inputs) p)"
proof (cases "reference_subject inp (nodes_by_key ns) ev")
  case (Some subject)
  show ?thesis
  proof (cases "ob_referent_text (oi_observation inp)")
    case None
    then show ?thesis using assms(1) Some by (simp add: resolve_observed_reference_def)
  next
    case (Some referent)
    have "outcome I (justified U ns inputs)
        (resolve_candidates inp subject p (pass_candidates U ns inputs (ee_path (oi_evidence inp)) referent))" if "referent \<noteq> []"
      by (rule outcome_candidates [OF assms(1)])
        (rule reference_justified [OF reference_subject_in [OF \<open>reference_subject inp (nodes_by_key ns) ev = Some subject\<close>] assms(2) Some that])
    then show ?thesis
      using assms(1) Some \<open>reference_subject inp (nodes_by_key ns) ev = Some subject\<close>
      unfolding resolve_observed_reference_def Let_def by simp
  qed
qed (use assms(1) in \<open>simp add: resolve_observed_reference_def\<close>)

lemma plain_edge_justified: "s \<in> set ns \<Longrightarrow> n \<in> set ns \<Longrightarrow> p \<notin> reference_predicates \<Longrightarrow> justified U ns inputs inp s p n"
  by (auto simp: justified_def reference_predicates_def)

lemma outcome_edges:
  "fs \<noteq> [] \<Longrightarrow> (\<And>f. f \<in> set fs \<Longrightarrow> \<exists>s p n. f = Edge inp s p n \<and> s \<in> set ns \<and> n \<in> set ns \<and> p \<notin> reference_predicates) \<Longrightarrow> inp \<in> I
     \<Longrightarrow> outcome I (justified U ns inputs) fs"
  using plain_edge_justified unfolding outcome_def by fastforce

lemma outcome_two_edges:
  "inp \<in> I \<Longrightarrow> s \<in> set ns \<Longrightarrow> n \<in> set ns \<Longrightarrow> outcome I (justified U ns inputs) [Edge inp s ''contains'' n, Edge inp s ''defines'' n]"
  by (rule outcome_edges [where inp = inp]) (auto simp: reference_predicates_def)

lemma outcome_edge:
  "inp \<in> I \<Longrightarrow> s \<in> set ns \<Longrightarrow> n \<in> set ns \<Longrightarrow> p \<notin> reference_predicates \<Longrightarrow> outcome I (justified U ns inputs) [Edge inp s p n]"
  by (rule outcome_edges [where inp = inp]) auto

lemmas node_at_in = node_at [THEN conjunct2]

lemma outcome_definition: "inp \<in> I \<Longrightarrow> outcome I (justified U ns inputs) (resolve_definition inp (nodes_by_key ns))"
  unfolding resolve_definition_def Let_def
  by (auto split: option.split dest: node_at_in intro!: outcome_two_edges)

lemma outcome_import:
  assumes "inp \<in> I" shows "outcome I (justified U ns inputs) (resolve_import U roots inp (nodes_by_key ns) bs)"
proof -
  have "outcome I (justified U ns inputs) (resolve_candidates inp s ''imports'' (import_candidates U roots specifier path (nodes_by_key ns) b))"
    if "source_file inp (nodes_by_key ns) = Some s" for s specifier path b
    by (rule outcome_candidates [OF assms], rule plain_edge_justified [OF source_file_in [OF that] import_candidates_in])
      (auto simp: reference_predicates_def)
  then show ?thesis using assms unfolding resolve_import_def by (auto split: option.split)
qed

lemma outcome_dependency: "inp \<in> I \<Longrightarrow> outcome I (justified U ns inputs) (resolve_dependency inp (nodes_by_key ns))"
  unfolding resolve_dependency_def
  by (auto split: option.split dest: node_at_in intro!: outcome_edge simp: reference_predicates_def)

lemma outcome_iac: "inp \<in> I \<Longrightarrow> outcome I (justified U ns inputs) (resolve_iac_resource inp (nodes_by_key ns))"
  unfolding resolve_iac_resource_def
  by (auto split: option.split dest: node_at_in intro!: outcome_edge simp: reference_predicates_def)

lemma outcome_http: "inp \<in> I \<Longrightarrow> outcome I (justified U ns inputs) (resolve_http_call inp (nodes_by_key ns) ev)"
  unfolding resolve_http_call_def
  by (auto split: option.split dest: node_at_in reference_subject_in intro!: outcome_edge simp: reference_predicates_def)

lemma outcome_call:
  "inp \<in> I \<Longrightarrow> outcome I (justified U ns inputs) (resolve_call U (snapshot_roots ns) inp (nodes_by_key ns) ev (pass_bindings ns inputs) inputs)"
  unfolding resolve_call_def
  by (auto intro!: outcome_reference simp: shadowed_def inputs_of_kind_def image_iff)

lemma outcome_route:
  assumes "inp \<in> I" "set hs \<subseteq> I"
  shows "outcome I (justified U ns inputs) (resolve_route U (snapshot_roots ns) inp hs (nodes_by_key ns) (pass_bindings ns inputs))"
proof (cases "\<exists>r h referent. map_of (nodes_by_key ns) (ob_subject_key (oi_observation inp)) = Some r \<and> hs = [h]
    \<and> ob_referent_text (oi_observation h) = Some referent \<and> referent \<noteq> []")
  case True
  then obtain r h referent where r: "map_of (nodes_by_key ns) (ob_subject_key (oi_observation inp)) = Some r" and hs: "hs = [h]"
    and t: "ob_referent_text (oi_observation h) = Some referent" "referent \<noteq> []" by blast
  have h: "h \<in> I" using assms(2) hs by simp
  have "outcome I (justified U ns inputs)
      (resolve_candidates h r ''routes_to'' (pass_candidates U ns inputs (ee_path (oi_evidence h)) referent))"
    by (rule outcome_candidates [OF h], rule reference_justified) (use node_at [OF r] t in simp_all)
  then show ?thesis using assms(1) r t unfolding resolve_route_def hs Let_def by simp
next
  case False
  then show ?thesis using assms unfolding resolve_route_def Let_def by (auto split: option.splits list.splits)
qed

lemma outcome_one:
  assumes "inp \<in> set inputs"
  shows "outcome (insert inp (set (handlers_of inputs inp))) (justified U ns inputs) (resolve_one U ns inputs ev kind inp)"
  unfolding resolve_one_def Let_def
  by (simp add: outcome_definition outcome_import outcome_call outcome_reference outcome_dependency outcome_http outcome_iac outcome_route
      subset_insertI)



section \<open>The order of the rows\<close>

text \<open>The store looks at the candidates of a diagnostic only in sorted order.\<close>

fun norm_fact :: "resolved_fact \<Rightarrow> resolved_fact" where
  "norm_fact (Edge i s p n) = Edge i s p n"
| "norm_fact (Diagnostic i c g m cs) = Diagnostic i c g m (sort cs)"

lemma sort_Nil_iff [simp]: "sort xs = [] \<longleftrightarrow> xs = []"
  by (metis length_0_conv length_sort)

lemma add_resolved_norm: "add_resolved U H sid (norm_fact f) = add_resolved U H sid f"
  by (cases f) (simp_all add: diagnostic_details_def sorted_sort_id)

lemma sort_remdups_set: "set xs = set ys \<Longrightarrow> sort (remdups xs) = sort (remdups (ys :: 'a :: linorder list))"
  by (simp flip: sorted_list_of_set_sort_remdups)

lemma sort_distinct_set: "distinct xs \<Longrightarrow> distinct ys \<Longrightarrow> set xs = set ys \<Longrightarrow> sort xs = sort (ys :: 'a :: linorder list)"
  using sort_remdups_set [of xs ys] by (simp add: distinct_remdups_id)

lemma resolve_candidates_set:
  assumes eq: "set cs' = set cs" and inj: "inj_on nd_stable_key (set cs)"
  shows "map norm_fact (resolve_candidates i s p cs') = map norm_fact (resolve_candidates i s p cs)"
proof -
  have keys: "sort (map fst (nodes_by_key cs')) = sort (map fst (nodes_by_key cs))"
    using nodes_by_key_props(1,3) [of cs] nodes_by_key_props(1,3) [of cs'] by (intro sort_distinct_set) (simp_all add: eq)
  show ?thesis
  proof (rule resolve_candidates_cases [of cs i s p]; rule resolve_candidates_cases [of cs' i s p])
    fix n n' assume "n \<in> set cs" "nd_stable_key ` set cs = {nd_stable_key n}" "resolve_candidates i s p cs = [Edge i s p n]"
      and "n' \<in> set cs'" "nd_stable_key ` set cs' = {nd_stable_key n'}" "resolve_candidates i s p cs' = [Edge i s p n']"
    moreover have "n = n'" using calculation inj eq by (metis inj_on_contraD singleton_inject)
    ultimately show ?thesis by simp
  next
    fix n a b assume "nd_stable_key ` set cs = {nd_stable_key n}" "a \<in> set cs'" "b \<in> set cs'" "nd_stable_key a \<noteq> nd_stable_key b"
    then show ?thesis using eq by (metis image_eqI singletonD)
  next
    fix a b n assume "a \<in> set cs" "b \<in> set cs" "nd_stable_key a \<noteq> nd_stable_key b" "nd_stable_key ` set cs' = {nd_stable_key n}"
    then show ?thesis using eq by (metis image_eqI singletonD)
  qed (use eq keys in \<open>simp_all add: ambiguous_def\<close>)
qed

text \<open>Two lists of node rows with the same rows.\<close>

definition same_rows :: "ri_node list \<Rightarrow> ri_node list \<Rightarrow> ri_evidence list \<Rightarrow> ri_evidence list \<Rightarrow> bool" where
  "same_rows ns ns' ev ev' \<longleftrightarrow> mset ns' = mset ns \<and> mset ev' = mset ev \<and> distinct (map nd_stable_key ns)"

lemma same_rowsD:
  assumes "same_rows ns ns' ev ev'"
  shows "set ns' = set ns" "distinct (map nd_stable_key ns')" "distinct (map nd_stable_key ns)" "inj_on nd_stable_key (set ns)"
proof -
  show "set ns' = set ns" using assms mset_eq_setD by (auto simp: same_rows_def)
  have "mset (map nd_stable_key ns') = mset (map nd_stable_key ns)" using assms by (simp add: same_rows_def)
  then show "distinct (map nd_stable_key ns')" using assms mset_eq_imp_distinct_iff unfolding same_rows_def by blast
  show "distinct (map nd_stable_key ns)" "inj_on nd_stable_key (set ns)" using assms by (simp_all add: same_rows_def distinct_map)
qed

lemma lookup_row: "distinct (map nd_stable_key ns) \<Longrightarrow> map_of (nodes_by_key ns) k = Some n \<longleftrightarrow> n \<in> set ns \<and> nd_stable_key n = k"
  by (auto simp: nodes_by_key_distinct comp_def intro!: map_of_is_SomeI dest!: map_of_SomeD)

lemma option_eqI: "(\<And>n. a = Some n \<longleftrightarrow> b = Some n) \<Longrightarrow> a = b"
  by (cases a; cases b) auto

lemma same_lookup: "same_rows ns ns' ev ev' \<Longrightarrow> map_of (nodes_by_key ns') = map_of (nodes_by_key ns)"
proof (rule ext, rule option_eqI)
  fix k n assume s: "same_rows ns ns' ev ev'"
  show "map_of (nodes_by_key ns') k = Some n \<longleftrightarrow> map_of (nodes_by_key ns) k = Some n"
    using lookup_row same_rowsD [OF s] by simp
qed

lemma same_table: "same_rows ns ns' ev ev' \<Longrightarrow> set (nodes_by_key ns') = set (nodes_by_key ns)"
  by (simp add: nodes_by_key_distinct same_rowsD)

lemma same_roots: "same_rows ns ns' ev ev' \<Longrightarrow> snapshot_roots ns' = snapshot_roots ns"
  unfolding snapshot_roots_def python_source_roots_def package_dirs_def by (rule sort_remdups_set) (simp add: same_rowsD(1))

lemma same_bindings: "same_rows ns ns' ev ev' \<Longrightarrow> pass_bindings ns' inputs = pass_bindings ns inputs"
  by (simp add: pass_bindings_def bindings_by_file_def source_file_def same_lookup)

lemma same_spans:
  assumes "same_rows ns ns' ev ev'"
  shows "mset (span_candidates inp (nodes_by_key ns') ev') = mset (span_candidates inp (nodes_by_key ns) ev)"
proof -
  let ?f = "\<lambda>ev n. if nd_node_kind n \<noteq> ''symbol'' then [] else map (\<lambda>e. (ee_end_line e - ee_start_line e, nd_stable_key n, n))
      (filter (\<lambda>e. encloses e (oi_evidence inp)) (evidence_of_node ev n))"
  have mset_concat_map: "mset (concat (map f xs)) = (\<Sum>x\<in>#mset xs. mset (f x))" for f :: "ri_node \<Rightarrow> 'z list" and xs by (induction xs) auto
  have f: "mset (?f ev' n) = mset (?f ev n)" for n using assms by (simp add: evidence_of_node_def same_rows_def)
  have "mset ns' = mset ns" using assms by (simp add: same_rows_def)
  then have "mset (concat (map (?f ev') ns')) = mset (concat (map (?f ev) ns))" unfolding mset_concat_map f by simp
  then show ?thesis using same_rowsD [OF assms] by (simp add: span_candidates_def nodes_by_key_distinct comp_def)
qed

lemma same_subject:
  assumes "same_rows ns ns' ev ev'"
  shows "reference_subject inp (nodes_by_key ns') ev' = reference_subject inp (nodes_by_key ns) ev"
proof -
  have "inj_on (\<lambda>(width, key, n). (width, key)) (set (span_candidates inp (nodes_by_key ns) ev))"
    using same_rowsD [OF assms] by (auto simp: span_candidates_def nodes_by_key_distinct inj_on_def split: if_splits)
  then have "containing_symbol inp (nodes_by_key ns') ev' = containing_symbol inp (nodes_by_key ns) ev"
    unfolding containing_symbol_def by (simp only: sort_key_mset_unique [OF _ same_spans [OF assms]])
  then show ?thesis by (simp add: reference_subject_def same_lookup [OF assms])
qed

lemma same_import_candidates:
  assumes "same_rows ns ns' ev ev'"
  shows "set (import_candidates U roots specifier path (nodes_by_key ns') b) = set (import_candidates U roots specifier path (nodes_by_key ns) b)"
proof -
  have f: "set (filter P (nodes_by_key ns')) = set (filter P (nodes_by_key ns))" for P using same_table [OF assms] by simp
  then have "filter P (nodes_by_key ns') = [] \<longleftrightarrow> filter P (nodes_by_key ns) = []" for P by (metis set_empty)
  then show ?thesis using same_table [OF assms] unfolding import_candidates_def Let_def by simp
qed

lemma same_exported:
  "same_rows ns ns' ev ev' \<Longrightarrow> set (exported_symbols (nodes_by_key ns') q imported) = set (exported_symbols (nodes_by_key ns) q imported)"
  by (simp add: exported_symbols_def Let_def same_lookup same_table split: option.split)

lemma same_bound:
  "same_rows ns ns' ev ev' \<Longrightarrow>
     set (bound_candidates U roots referent path (nodes_by_key ns') b) = set (bound_candidates U roots referent path (nodes_by_key ns) b)"
  by (simp add: bound_candidates_def same_import_candidates same_exported case_prod_unfold)

lemma same_reference_candidates:
  "same_rows ns ns' ev ev' \<Longrightarrow>
     set (reference_candidates U roots referent path (nodes_by_key ns') b) = set (reference_candidates U roots referent path (nodes_by_key ns) b)"
  by (auto simp: reference_candidates_def Let_def same_lookup same_bound split: option.split)

lemma reference_candidates_in:
  "n \<in> set (reference_candidates U roots referent path (nodes_by_key ns) (bindings_of bs (''file:'' @ path))) \<Longrightarrow> n \<in> set ns"
  using reference_candidates_proven unfolding proven_target_def by blast

lemma same_resolve_candidates:
  assumes s: "same_rows ns ns' ev ev'" and "set cs' = set cs" and "\<And>n. n \<in> set cs \<Longrightarrow> n \<in> set ns"
  shows "map norm_fact (resolve_candidates i sub p cs') = map norm_fact (resolve_candidates i sub p cs)"
  using resolve_candidates_set [OF assms(2)] inj_on_subset [OF same_rowsD(4) [OF s]] assms(3) by blast

lemma same_observed_reference:
  assumes s: "same_rows ns ns' ev ev'"
  shows "map norm_fact (resolve_observed_reference U roots inp (nodes_by_key ns') ev' bs p)
    = map norm_fact (resolve_observed_reference U roots inp (nodes_by_key ns) ev bs p)"
proof -
  have "map norm_fact (resolve_candidates inp r p (reference_candidates U roots referent path (nodes_by_key ns') (bindings_of bs (''file:'' @ path))))
      = map norm_fact (resolve_candidates inp r p (reference_candidates U roots referent path (nodes_by_key ns) (bindings_of bs (''file:'' @ path))))" for r referent path
    by (rule same_resolve_candidates [OF s same_reference_candidates [OF s]]) (erule reference_candidates_in)
  then show ?thesis unfolding resolve_observed_reference_def Let_def same_subject [OF s] by (simp split: option.split)
qed

lemma same_import:
  assumes s: "same_rows ns ns' ev ev'"
  shows "map norm_fact (resolve_import U roots inp (nodes_by_key ns') bs) = map norm_fact (resolve_import U roots inp (nodes_by_key ns) bs)"
proof -
  have "source_file inp (nodes_by_key ns') = source_file inp (nodes_by_key ns)" by (simp add: source_file_def same_lookup [OF s])
  moreover have "map norm_fact (resolve_candidates inp r ''imports'' (import_candidates U roots specifier path (nodes_by_key ns') b))
      = map norm_fact (resolve_candidates inp r ''imports'' (import_candidates U roots specifier path (nodes_by_key ns) b))" for r specifier path b
    by (rule same_resolve_candidates [OF s same_import_candidates [OF s]]) (erule import_candidates_in)
  ultimately show ?thesis unfolding resolve_import_def by (simp split: option.split)
qed

lemma same_route:
  assumes s: "same_rows ns ns' ev ev'"
  shows "map norm_fact (resolve_route U roots inp hs (nodes_by_key ns') bs) = map norm_fact (resolve_route U roots inp hs (nodes_by_key ns) bs)"
proof -
  have "map norm_fact (resolve_candidates h r p (reference_candidates U roots referent path (nodes_by_key ns') (bindings_of bs (''file:'' @ path))))
      = map norm_fact (resolve_candidates h r p (reference_candidates U roots referent path (nodes_by_key ns) (bindings_of bs (''file:'' @ path))))" for h r p referent path
    by (rule same_resolve_candidates [OF s same_reference_candidates [OF s]]) (erule reference_candidates_in)
  then show ?thesis unfolding resolve_route_def same_lookup [OF s] Let_def by (simp split: option.split list.split)
qed

lemma same_lookups:
  assumes s: "same_rows ns ns' ev ev'"
  shows "resolve_definition inp (nodes_by_key ns') = resolve_definition inp (nodes_by_key ns)"
    and "resolve_dependency inp (nodes_by_key ns') = resolve_dependency inp (nodes_by_key ns)"
    and "resolve_iac_resource inp (nodes_by_key ns') = resolve_iac_resource inp (nodes_by_key ns)"
    and "resolve_http_call inp (nodes_by_key ns') ev' = resolve_http_call inp (nodes_by_key ns) ev"
  unfolding resolve_definition_def resolve_dependency_def resolve_iac_resource_def resolve_http_call_def same_lookup [OF s] same_subject [OF s]
  by (rule refl)+

lemma same_one:
  assumes s: "same_rows ns ns' ev ev'"
  shows "map norm_fact (resolve_one U ns' inputs ev' kind inp) = map norm_fact (resolve_one U ns inputs ev kind inp)"
  unfolding resolve_one_def Let_def same_roots [OF s] same_bindings [OF s] resolve_call_def
  by (simp add: same_import [OF s] same_observed_reference [OF s] same_route [OF s] same_lookups [OF s])

text \<open>The facts of a pass over the rows of a snapshot.\<close>

definition pass_facts :: "unicode \<Rightarrow> string \<Rightarrow> db \<Rightarrow> resolved_fact list" where
  "pass_facts U sid d = resolved_facts U (filter (\<lambda>n. nd_snapshot_id n = sid) (db_nodes d))
     (sort_key ob_observation_id (filter (\<lambda>ob. ob_snapshot_id ob = sid) (db_observations d))) (filter (\<lambda>e. ee_snapshot_id e = sid) (db_evidence d))"

lemma unique_per_snapshot:
  assumes "unique_index w (\<lambda>r. (f r, k r)) rows"
  shows "inj_on k {r \<in> set rows. w r \<and> f r = sid}"
  using assms by (auto simp: unique_index_def distinct_map inj_on_def)

lemma same_inputs:
  assumes ids: "inj_on (\<lambda>e. (ee_observation_ref e, evidence_sort_key e)) {e \<in> set ev. ee_observation_ref e \<noteq> None}" and "mset ev' = mset ev"
  shows "observed_inputs obs ev' = observed_inputs obs ev"
proof -
  have "sort_key evidence_sort_key (filter (\<lambda>e. ee_observation_ref e = Some i) ev') = sort_key evidence_sort_key (filter (\<lambda>e. ee_observation_ref e = Some i) ev)" for i
    using ids assms(2) by (intro sort_key_mset_unique) (auto simp: inj_on_def)
  then show ?thesis by (simp add: observed_inputs_def)
qed


section \<open>The pass on the store\<close>

definition fact_stored :: "unicode \<Rightarrow> digest \<Rightarrow> string \<Rightarrow> resolved_fact \<Rightarrow> db \<Rightarrow> bool" where
  "fact_stored U H sid f d = (case f of
     Edge inp s p n \<Rightarrow> (\<exists>e \<in> set (db_edges d).
         edge_fields U sid (nd_node_kind s) (nd_node_kind n) resolver_name resolver_version ''resolved'' e
       \<and> edge_identity U H (nd_node_kind s) (nd_stable_key s) p (nd_node_kind n) (nd_stable_key n) (eg_edge_id e)
       \<and> evidenced U sid (eg_id e) (resolver_evidence (oi_evidence inp)) d
       \<and> derived U sid (Some (eg_id e)) None
           [(''kind'', ''observation''), (''observation_id'', ob_observation_id (oi_observation inp))] d)
   | Diagnostic inp c g m cs \<Rightarrow> True)"

text \<open>The edge rows that a list of facts asks for.\<close>

definition asked_for :: "unicode \<Rightarrow> digest \<Rightarrow> string \<Rightarrow> resolved_fact list \<Rightarrow> ri_edge \<Rightarrow> bool" where
  "asked_for U H sid F e \<longleftrightarrow> (\<exists>inp s p n. Edge inp s p n \<in> set F
     \<and> edge_row_for U H sid (nd_node_kind s) (nd_stable_key s) p (nd_node_kind n) (nd_stable_key n) resolver_name resolver_version ''resolved'' e)"

lemma fact_stored_extends: "fact_stored U H sid f d \<Longrightarrow> extends E A d d' \<Longrightarrow> fact_stored U H sid f d'"
proof (cases f)
  case (Edge inp su p n)
  assume st: "fact_stored U H sid f d" and x: "extends E A d d'"
  note mono = evidenced_extends [OF _ x] derived_extends [OF _ x]
  have "set (db_edges d) \<subseteq> set (db_edges d')" using x unfolding extends_def by blast
  then show ?thesis using st mono unfolding Edge fact_stored_def resolved_fact.case by blast
qed (simp add: fact_stored_def)

lemma add_resolved_stored: "add_resolved U H sid f s = (Inr i, s') \<Longrightarrow> fact_stored U H sid f (se_mem s')"
proof (cases f)
  case (Edge inp su p n)
  assume "add_resolved U H sid f s = (Inr i, s')"
  from add_edge_Inr [OF this [unfolded Edge add_resolved.simps]]
  show ?thesis unfolding Edge fact_stored_def resolved_fact.case by (elim bexE) (rule bexI, simp_all)
qed (simp add: fact_stored_def)

lemma adds_resolved: "f \<in> set F \<Longrightarrow> adds (asked_for U H sid F) A (add_resolved U H sid f)"
proof (cases f)
  case (Edge inp su p n)
  assume "f \<in> set F"
  then show ?thesis unfolding Edge add_resolved.simps by (intro adds_edge) (unfold asked_for_def, blast)
qed (auto intro: adds_intros)

lemma resolve_Inr:
  assumes "resolve U H sid s = (Inr r, s')"
  obtains s1 where "se_mem s1 = se_mem s" "forS (add_resolved U H sid) (pass_facts U sid (se_mem s)) s1 = (Inr (), s')"
    "edges_added r = length (filter is_edge (pass_facts U sid (se_mem s)))"
    "diagnostics_added r = length (filter (Not \<circ> is_edge) (pass_facts U sid (se_mem s)))"
    "\<exists>sn. find_snapshot (se_mem s) sid = Some sn \<and> sn_state sn = ''building'' \<and> resolver_producer \<in> set (sn_producer_version_set sn)"
proof -
  obtain sn where sn: "find_snapshot (se_mem s) sid = Some sn" "sn_state sn = ''building''" "resolver_producer \<in> set (sn_producer_version_set sn)"
    and rest: "bindS (query (\<lambda>d. filter (\<lambda>n. nd_snapshot_id n = sid) (db_nodes d))) (\<lambda>nodes.
         bindS (query (\<lambda>d. sort_key ob_observation_id (filter (\<lambda>ob. ob_snapshot_id ob = sid) (db_observations d)))) (\<lambda>observations.
         bindS (query (\<lambda>d. filter (\<lambda>e. ee_snapshot_id e = sid) (db_evidence d))) (\<lambda>evidence.
           let facts = resolved_facts U nodes observations evidence in
           bindS (forS (add_resolved U H sid) facts) (\<lambda>_.
             returnS \<lparr> edges_added = length (filter is_edge facts), diagnostics_added = length (filter (Not \<circ> is_edge) facts) \<rparr>)))) s = (Inr r, s')"
    using assms unfolding resolve_def
    by (auto simp: bindS_Inr [of "the_snapshot _"] the_snapshot_def raiseS_def split: option.splits if_splits)
  obtain s1 s2 s3 where fl: "flush s = (Inr (), s1)" "flush s1 = (Inr (), s2)" "flush s2 = (Inr (), s3)"
    and run: "(let facts = resolved_facts U (filter (\<lambda>n. nd_snapshot_id n = sid) (db_nodes (se_mem s1)))
           (sort_key ob_observation_id (filter (\<lambda>ob. ob_snapshot_id ob = sid) (db_observations (se_mem s2))))
           (filter (\<lambda>e. ee_snapshot_id e = sid) (db_evidence (se_mem s3))) in
           bindS (forS (add_resolved U H sid) facts) (\<lambda>_.
             returnS \<lparr> edges_added = length (filter is_edge facts), diagnostics_added = length (filter (Not \<circ> is_edge) facts) \<rparr>)) s3 = (Inr r, s')"
    using rest unfolding bindS_Inr [of "query _"] query_Inr by auto
  have m: "se_mem s1 = se_mem s" "se_mem s2 = se_mem s" "se_mem s3 = se_mem s" using fl by (auto simp: flush_Inr)
  have run: "bindS (forS (add_resolved U H sid) (pass_facts U sid (se_mem s))) (\<lambda>_.
             returnS \<lparr> edges_added = length (filter is_edge (pass_facts U sid (se_mem s))),
               diagnostics_added = length (filter (Not \<circ> is_edge) (pass_facts U sid (se_mem s))) \<rparr>) s3 = (Inr r, s')"
    using run unfolding m Let_def pass_facts_def .
  show thesis by (rule that [OF m(3)]) (use run sn in \<open>auto simp: bindS_Inr returnS_def\<close>)
qed


lemma keeps_resolve [keeps_intros]: "keeps (sound d0) (resolve U H sid)"
proof -
  have "keeps (sound d0) (add_resolved U H sid f)" for f by (cases f) (auto intro!: keeps_intros)
  then show ?thesis unfolding resolve_def Let_def by (intro keeps_intros)
qed

section \<open>A snapshot to resolve\<close>

definition sample_file :: "int \<Rightarrow> string \<Rightarrow> ri_node" where
  "sample_file i path = \<lparr> nd_id = i, nd_snapshot_id = ''b'', nd_stable_key = ''file:'' @ path, nd_node_kind = ''file'',
     nd_name = Some path, nd_language = None, nd_truth_class = ''observed'', nd_properties = None \<rparr>"

definition sample_symbol :: "int \<Rightarrow> string \<Rightarrow> string \<Rightarrow> ri_node" where
  "sample_symbol i key name = \<lparr> nd_id = i, nd_snapshot_id = ''b'', nd_stable_key = key, nd_node_kind = ''symbol'',
     nd_name = Some name, nd_language = None, nd_truth_class = ''observed'', nd_properties = None \<rparr>"

definition sample_observation :: "int \<Rightarrow> string \<Rightarrow> string \<Rightarrow> string \<Rightarrow> string \<Rightarrow> ri_observation" where
  "sample_observation i kind skind subject referent = \<lparr> ob_id = i, ob_snapshot_id = ''b'', ob_observation_id = sample_sha @ show_int i, ob_observed_kind = kind,
     ob_subject_kind = skind, ob_subject_key = subject, ob_referent_text = Some referent, ob_ordinal = 1 \<rparr>"

definition sample_observed_at :: "int \<Rightarrow> int \<Rightarrow> ri_evidence" where
  "sample_observed_at i line = \<lparr> ee_id = i, ee_snapshot_id = ''b'', ee_node_ref = None, ee_edge_ref = None, ee_observation_ref = Some i,
     ee_path = ''a.py'', ee_start_line = line, ee_end_line = line, ee_logical_line_count = 9, ee_granularity = ''span'',
     ee_extractor = ''p'', ee_extractor_version = ''1'' \<rparr>"

text \<open>\<^verbatim>\<open>a.py\<close> imports \<^verbatim>\<open>g\<close> from \<^verbatim>\<open>b.py\<close> and calls it in \<^verbatim>\<open>f\<close>.\<close>

definition sample_sources :: db where
  "sample_sources = empty_db\<lparr>db_repositories := db_repositories sample_db,
     db_snapshots := [(sample_snapshot ''b'' ''building'')\<lparr>sn_producer_version_set := [''p@1'', ''relationship-resolver@1.1.0'', ''role-classifier@1.0.0'']\<rparr>],
     db_nodes := [sample_file 1 ''a.py'', sample_file 2 ''b.py'', sample_symbol 3 ''a.py::f'' ''f'', sample_symbol 4 ''b.py::g'' ''g''],
     db_observations := [sample_observation 1 ''call'' ''symbol'' ''a.py::f'' ''g'', sample_observation 2 ''import_binding'' ''file'' ''file:a.py'' ''b|g|g''],
     db_evidence := [sample_observed_at 1 4, sample_observed_at 2 1]\<rparr>"

lemma constraints_sample_sources: "constraints sample_sources"
  by code_simp

definition sample_input :: observed_input where
  "sample_input = \<lparr> oi_observation = sample_observation 1 ''call'' ''symbol'' ''a.py::f'' ''g'', oi_evidence = sample_observed_at 1 4 \<rparr>"

lemma sample_pass_facts:
  "pass_facts ascii_unicode ''b'' sample_sources
   = [Edge sample_input (sample_symbol 3 ''a.py::f'' ''f'') ''calls'' (sample_symbol 4 ''b.py::g'' ''g'')]"
  by code_simp





text \<open>
  The import fallback is wider than its documentation. For \<^verbatim>\<open>from b import g\<close> where \<^verbatim>\<open>b.py\<close> has no \<^verbatim>\<open>g\<close> but a class with a method of that name, the
  call \<^verbatim>\<open>g()\<close> is resolved to the method, although the resolver promises no candidate when the exported symbol cannot be resolved.
\<close>

theorem binding_borrows_nested_symbol:
  "reference_candidates U [[]] ''g'' ''a.py''
     (nodes_by_key [sample_file 1 ''a.py'', sample_file 2 ''b.py'', sample_symbol 4 ''b.py::C.g'' ''g'']) [(''b'', ''g'', ''g'')]
   = [sample_symbol 4 ''b.py::C.g'' ''g'']"
  by code_simp

text \<open>
  A relative import that leaves the repository is resolved at its root: \<^verbatim>\<open>from ...b import x\<close> in the top-level file \<^verbatim>\<open>a.py\<close>, an error in Python,
  names the file \<^verbatim>\<open>b.py\<close>.
\<close>

theorem relative_import_beyond_root:
  "import_candidates U [[]] ''...b'' ''a.py'' (nodes_by_key [sample_file 1 ''a.py'', sample_file 2 ''b.py'']) [] = [sample_file 2 ''b.py'']"
  by code_simp

end
