(* ===== verification/Role_Classifier.thy ===== *)
theory Role_Classifier
  imports Relation_Resolver
begin

text \<open>
  Heuristic roles of files and symbols (\<^verbatim>\<open>app/intelligence/classification.py\<close>): the rules as predicates on paths and names, the classification of a building
  snapshot, and the layer a role is shown under.

  Every regular expression of the module is a disjunction of literals with optional anchors, searched with \<^verbatim>\<open>re.IGNORECASE\<close>. Python compares such literals after
  folding each character on its own; besides the ASCII capitals exactly four characters fold to ASCII letters (dotted capital I, dotless i, long s and the Kelvin sign), in UTF-8
  the byte sequences below.
\<close>

section \<open>Model\<close>

subsection \<open>Case-insensitive search\<close>

fun re_fold :: "string \<Rightarrow> string" where
  "re_fold [] = []"
| "re_fold (a # s) =
     (if startswith [CHR 0xC4, CHR 0xB0] (a # s) \<or> startswith [CHR 0xC4, CHR 0xB1] (a # s) then CHR ''i'' # re_fold (drop 1 s)
      else if startswith [CHR 0xC5, CHR 0xBF] (a # s) then CHR ''s'' # re_fold (drop 1 s)
      else if startswith [CHR 0xE2, CHR 0x84, CHR 0xAA] (a # s) then CHR ''k'' # re_fold (drop 2 s)
      else (let n = (of_char a :: int) in if 65 \<le> n \<and> n \<le> 90 then char_of (n + 32) else a) # re_fold s)"

definition has_literal :: "string list \<Rightarrow> string \<Rightarrow> bool" where
  "has_literal literals s \<longleftrightarrow> list_ex (\<lambda>l. occurs_in l s) literals"

text \<open>\<^verbatim>\<open>(^|/)literal\<close>\<close>

definition starts_segment :: "string list \<Rightarrow> string \<Rightarrow> bool" where
  "starts_segment literals s \<longleftrightarrow> list_ex (\<lambda>l. startswith l s \<or> occurs_in (''/'' @ l) s) literals"

text \<open>\<^verbatim>\<open>(^|/)literal$\<close>, where the end is also before a final line break.\<close>

definition last_segment :: "string list \<Rightarrow> string \<Rightarrow> bool" where
  "last_segment literals s \<longleftrightarrow> list_ex (\<lambda>l. list_ex (\<lambda>e. s = l @ e \<or> endswith (''/'' @ l @ e) s) [[], [CHR 0x0A]]) literals"

subsection \<open>Rules\<close>

definition entrypoint_names :: "string list" where
  "entrypoint_names = concat (map (\<lambda>m. map (\<lambda>e. m @ ''.'' @ e) [''py'', ''ts'', ''tsx'', ''js'', ''jsx'']) [''main'', ''app'', ''index''])"

definition file_rules :: "((string \<Rightarrow> bool) \<times> string) list" where
  "file_rules =
    [(starts_segment [''readme''], ''documentation''),
     (starts_segment [''test'', ''spec'', ''__tests__''], ''test''),
     (last_segment entrypoint_names, ''entrypoint''),
     (has_literal [''middleware''], ''middleware''),
     (has_literal [''/controller/'', ''/controllers/'', ''controller''], ''controller''),
     (has_literal [''/route/'', ''/routes/'', ''/api/'', ''route''], ''route''),
     (has_literal [''/service/'', ''/services/'', ''service''], ''service''),
     (has_literal [''/repositorie/'', ''/repositories/'', ''repository'', ''repo''], ''repository''),
     (has_literal [''/model/'', ''/models/'', ''/schema/'', ''/schemas/'', ''model''], ''model''),
     (has_literal [''dto''], ''dto''),
     (has_literal [''interface''], ''interface''),
     (has_literal [''enum''], ''enum''),
     (has_literal [''/config'', ''settings''], ''configuration''),
     (has_literal [''/util/'', ''/utils/'', ''/lib/'', ''util''], ''utility'')]"

definition file_role :: "string \<Rightarrow> string option" where
  "file_role path = map_option snd (find (\<lambda>(pattern, role). pattern (re_fold path)) file_rules)"

definition symbol_suffix_rules :: "(string \<times> string) list" where
  "symbol_suffix_rules = [(''Middleware'', ''middleware''), (''Service'', ''service''), (''Repository'', ''repository''),
     (''Controller'', ''controller''), (''Model'', ''model''), (''DTO'', ''dto''), (''Dto'', ''dto'')]"

definition symbol_role :: "string \<Rightarrow> string option" where
  "symbol_role name = map_option snd (find (\<lambda>(suffix, role). endswith suffix name \<and> length suffix < length name) symbol_suffix_rules)"

definition auth_dependency_pattern :: "string \<Rightarrow> bool" where
  "auth_dependency_pattern name \<longleftrightarrow> has_literal [''auth'', ''current_user'', ''get_current_'', ''superuser'', ''credential'', ''token'', ''permission'',
     ''require_user'', ''verify'', ''oauth''] (re_fold name)"

subsection \<open>Layers\<close>

definition layer_by_role :: "(string \<times> string) list" where
  "layer_by_role = [(''entrypoint'', ''presentation''), (''controller'', ''presentation''), (''route'', ''presentation''),
     (''service'', ''business-logic''), (''model'', ''domain''), (''dto'', ''domain''), (''interface'', ''domain''), (''enum'', ''domain''),
     (''repository'', ''infrastructure''), (''configuration'', ''infrastructure''), (''test'', ''infrastructure''), (''middleware'', ''infrastructure'')]"

definition layer_order :: "(string \<times> int) list" where
  "layer_order = [(''presentation'', 0), (''business-logic'', 1), (''domain'', 2), (''infrastructure'', 3), (''shared'', 4), (''external'', 5)]"

definition layer_for_role :: "string option \<Rightarrow> string" where
  "layer_for_role role = (case map_of layer_by_role (case role of None \<Rightarrow> [] | Some r \<Rightarrow> r) of None \<Rightarrow> ''shared'' | Some l \<Rightarrow> l)"

subsection \<open>The pass\<close>

definition classifier_name :: string where "classifier_name = ''role-classifier''"
definition classifier_version :: string where "classifier_version = ''1.0.0''"
definition classifier_producer :: string where "classifier_producer = classifier_name @ ''@'' @ classifier_version"

definition assert_classification :: "unicode \<Rightarrow> digest \<Rightarrow> string \<Rightarrow> ri_node \<Rightarrow> string \<Rightarrow> int store_action" where
  "assert_classification U H sid n role =
     add_assertion U H sid (nd_node_kind n) (nd_stable_key n) ''classified_as''
       [(''classification'', PStr role), (''confidence'', PStr ''heuristic'')] classifier_name classifier_version
       [[(''kind'', ''node''), (''stable_key'', nd_stable_key n)]] ''inferred'' [] []"

text \<open>The roles one node gets, in order.\<close>

definition node_roles :: "string list \<Rightarrow> ri_node \<Rightarrow> string list" where
  "node_roles injected n =
     (if nd_node_kind n = ''file'' \<and> startswith ''file:'' (nd_stable_key n)
      then (case file_role (removeprefix ''file:'' (nd_stable_key n)) of None \<Rightarrow> [] | Some role \<Rightarrow> [role])
      else if nd_node_kind n = ''symbol'' \<and> nd_name n \<noteq> None \<and> nd_name n \<noteq> Some []
      then (case symbol_role (the (nd_name n)) of None \<Rightarrow> [] | Some role \<Rightarrow> [role])
        @ (if nd_stable_key n \<in> set injected \<and> auth_dependency_pattern (the (nd_name n)) then [''auth_dependency''] else [])
      else [])"

definition classify_roles :: "unicode \<Rightarrow> digest \<Rightarrow> string \<Rightarrow> nat store_action" where
  "classify_roles U H sid =
     bindS (the_snapshot sid) (\<lambda>snapshot.
       if sn_state snapshot \<noteq> ''building'' then raiseS (SnapshotStateError ''role classification requires a building snapshot'')
       else if classifier_producer \<notin> set (sn_producer_version_set snapshot)
       then raiseS (ValueError ''snapshot producer_version_set is missing the classifier'')
       else
         bindS (query (\<lambda>d. filter (\<lambda>n. nd_snapshot_id n = sid) (db_nodes d))) (\<lambda>nodes.
         bindS (query (\<lambda>d. map eg_object_key (filter (\<lambda>e. eg_snapshot_id e = sid \<and> eg_predicate e = ''injects'') (db_edges d)))) (\<lambda>injected.
           let roles = concat (map (\<lambda>n. map (Pair n) (node_roles injected n)) nodes) in
           bindS (forS (\<lambda>(n, role). assert_classification U H sid n role) roles) (\<lambda>_. returnS (length roles)))))"

section \<open>Only labelled, only by rule\<close>

text \<open>The roles that exist.\<close>

definition known_roles :: "string list" where
  "known_roles = map snd file_rules @ map snd symbol_suffix_rules @ [''auth_dependency'']"

lemma find_in: "find P xs = Some x \<Longrightarrow> x \<in> set xs \<and> P x"
  by (auto simp: find_Some_iff)

lemma rule_roles:
  "file_role path = Some role \<Longrightarrow> role \<in> set (map snd file_rules)"
  "symbol_role name = Some role \<Longrightarrow> role \<in> set (map snd symbol_suffix_rules)"
  by (auto simp: file_role_def symbol_role_def intro: rev_image_eqI dest!: find_in)

lemma node_roles_known:
  assumes "role \<in> set (node_roles injected n)" shows "role \<in> set known_roles"
proof -
  have "(\<exists>path. file_role path = Some role) \<or> (\<exists>name. symbol_role name = Some role) \<or> role = ''auth_dependency''"
    using assms unfolding node_roles_def by (auto split: if_splits option.splits)
  then show ?thesis unfolding known_roles_def using rule_roles by auto
qed

text \<open>What an assertion of the classifier is: a labelled guess about a node of the snapshot that a rule gives this role.\<close>

definition classification_of :: "unicode \<Rightarrow> string \<Rightarrow> db \<Rightarrow> ri_assertion \<Rightarrow> bool" where
  "classification_of U sid d a \<longleftrightarrow> (\<exists>n \<in> set (db_nodes d). \<exists>role \<in> set known_roles. nd_snapshot_id n = sid
     \<and> role \<in> set (node_roles (map eg_object_key (filter (\<lambda>e. eg_snapshot_id e = sid \<and> eg_predicate e = ''injects'') (db_edges d))) n)
     \<and> assertion_row_for U sid (nd_node_kind n) (nd_stable_key n) ''classified_as''
         [(''classification'', PStr role), (''confidence'', PStr ''heuristic'')] classifier_name classifier_version ''inferred'' [] [] a)"

lemma classify_Inr:
  assumes "classify_roles U H sid s = (Inr k, s')"
  obtains s1 roles where "se_mem s1 = se_mem s" "forS (\<lambda>(n, role). assert_classification U H sid n role) roles s1 = (Inr (), s')" "k = length roles"
    "roles = concat (map (\<lambda>n. map (Pair n) (node_roles (map eg_object_key (filter (\<lambda>e. eg_snapshot_id e = sid \<and> eg_predicate e = ''injects'')
       (db_edges (se_mem s)))) n)) (filter (\<lambda>n. nd_snapshot_id n = sid) (db_nodes (se_mem s))))"
proof -
  let ?inj = "\<lambda>d. map eg_object_key (filter (\<lambda>e. eg_snapshot_id e = sid \<and> eg_predicate e = ''injects'') (db_edges d))"
  obtain s1 s2 where fl: "flush s = (Inr (), s1)" "flush s1 = (Inr (), s2)"
    and run: "(let roles = concat (map (\<lambda>n. map (Pair n) (node_roles (?inj (se_mem s2)) n)) (filter (\<lambda>n. nd_snapshot_id n = sid) (db_nodes (se_mem s1)))) in
           bindS (forS (\<lambda>(n, role). assert_classification U H sid n role) roles) (\<lambda>_. returnS (length roles))) s2 = (Inr k, s')"
    using assms unfolding classify_roles_def
    by (auto simp: bindS_Inr [of "the_snapshot _"] bindS_Inr [of "query _"] query_Inr the_snapshot_def raiseS_def split: option.splits if_splits)
  have m: "se_mem s1 = se_mem s" "se_mem s2 = se_mem s" using fl by (auto simp: flush_Inr)
  show thesis
    by (rule that [OF m(2) _ _ refl]) (use run [unfolded m Let_def] in \<open>auto simp: bindS_Inr returnS_def\<close>)
qed

text \<open>
  A heuristic never passes for a fact. A successful classification changes no node, edge, observation or snapshot and loses no row; every assertion it adds
  is inferred, carries the classifier's name and the marker \<^verbatim>\<open>confidence: heuristic\<close>, and gives a node of the snapshot one of the known roles by a rule that
  matches the node; a node that no rule matches gets none.
\<close>

theorem classification_is_labelled:
  assumes "classify_roles U H sid s = (Inr k, s')"
  shows "extends (\<lambda>_. False) (classification_of U sid (se_mem s)) (se_mem s) (se_mem s')
    \<and> (\<forall>a \<in> set (db_assertions (se_mem s')). a \<in> set (db_assertions (se_mem s)) \<or>
         as_truth_class a = ''inferred'' \<and> as_producer a = u_nfc U classifier_name \<and> validate_predicate U ''classified_as'' = Inr (as_predicate a)
       \<and> (\<exists>role \<in> set known_roles. normalize_declared_arrays U [] []
            (PDict [(''classification'', PStr role), (''confidence'', PStr ''heuristic'')]) = Inr (as_value a)))"
proof -
  obtain s1 roles where m: "se_mem s1 = se_mem s" and run: "forS (\<lambda>(n, role). assert_classification U H sid n role) roles s1 = (Inr (), s')"
    and roles: "roles = concat (map (\<lambda>n. map (Pair n) (node_roles (map eg_object_key (filter (\<lambda>e. eg_snapshot_id e = sid \<and> eg_predicate e = ''injects'')
       (db_edges (se_mem s)))) n)) (filter (\<lambda>n. nd_snapshot_id n = sid) (db_nodes (se_mem s))))"
    by (rule classify_Inr [OF assms])
  have "adds (\<lambda>_. False) (classification_of U sid (se_mem s)) (case r of (n, role) \<Rightarrow> assert_classification U H sid n role)"
    if "r \<in> set roles" for r
  proof -
    obtain n role where r: "r = (n, role)" and n: "n \<in> set (db_nodes (se_mem s))" "nd_snapshot_id n = sid"
      and role: "role \<in> set (node_roles (map eg_object_key (filter (\<lambda>e. eg_snapshot_id e = sid \<and> eg_predicate e = ''injects'') (db_edges (se_mem s)))) n)"
      using \<open>r \<in> set roles\<close> unfolding roles by auto
    show ?thesis unfolding r prod.case assert_classification_def
      by (rule adds_assertion) (use n role node_roles_known [OF role] in \<open>auto simp: classification_of_def\<close>)
  qed
  then have "adds (\<lambda>_. False) (classification_of U sid (se_mem s)) (forS (\<lambda>(n, role). assert_classification U H sid n role) roles)"
    by (rule adds_forS)
  then have x: "extends (\<lambda>_. False) (classification_of U sid (se_mem s)) (se_mem s) (se_mem s')" using run m unfolding adds_def by metis
  then have "\<forall>a \<in> set (db_assertions (se_mem s')). a \<in> set (db_assertions (se_mem s)) \<or> classification_of U sid (se_mem s) a"
    by (simp add: extends_def)
  then show ?thesis using x unfolding classification_of_def assertion_row_for_def by blast
qed

theorem classification_is_labelled_witness:
  "\<exists>k s'. classify_roles ascii_unicode (\<lambda>_. replicate 64 (CHR ''0'')) ''b'' (new_session (sample_sources\<lparr>db_nodes := [sample_file 1 ''a_service.py'', sample_file 2 ''b.py''],
        db_observations := [], db_evidence := []\<rparr>)) = (Inr k, s')
     \<and> k = 1 \<and> (\<exists>a. db_assertions (se_mem s') = [a] \<and> as_truth_class a = ''inferred'')"
proof -
  let ?s = "new_session (sample_sources\<lparr>db_nodes := [sample_file 1 ''a_service.py'', sample_file 2 ''b.py''], db_observations := [], db_evidence := []\<rparr>)"
  let ?r = "classify_roles ascii_unicode (\<lambda>_. replicate 64 (CHR ''0'')) ''b'' ?s"
  have "fst ?r = Inr 1" "length (db_assertions (se_mem (snd ?r))) = 1" by code_simp+
  then obtain s' a where r: "?r = (Inr 1, s')" and a: "db_assertions (se_mem s') = [a]" by (cases ?r) (auto simp: length_Suc_conv)
  have "db_assertions (se_mem ?s) = []" by (simp add: new_session_def sample_sources_def empty_db_def)
  then have "as_truth_class a = ''inferred''" using classification_is_labelled [OF r] a by auto
  then show ?thesis using r a by blast
qed

end
