(* ===== verification/Snapshot_Projection.thy ===== *)
theory Snapshot_Projection
  imports Snapshot_Query Role_Classifier
begin

text \<open>
  The projection of a sealed snapshot that product documentation and free-form answers share
  (\<^verbatim>\<open>SnapshotQueryService.product_projection\<close>): files with their roles, modules, dependencies, routes, frameworks.

  \<^verbatim>\<open>str.title\<close> is a table of the Unicode database and a parameter, like \<^const>\<open>u_lower\<close>.
\<close>

section \<open>Model\<close>

record snapshot_file_fact =
  ff_path :: string
  ff_language :: "string option"
  ff_role :: "string option"
  ff_role_confidence :: "string option"

record snapshot_dependency_declaration =
  dd_version :: "string option"
  dd_dependency_type :: "string option"
  dd_manifest_path :: "string option"
  dd_workspace_path :: "string option"
  dd_start_line :: "int option"
  dd_end_line :: "int option"
  dd_extractor :: "string option"
  dd_extractor_version :: "string option"

record snapshot_dependency_fact =
  df_stable_key :: string
  df_name :: string
  df_ecosystem :: "string option"
  df_declarations :: "snapshot_dependency_declaration list"

record snapshot_route_fact =
  rf_path :: string
  rf_evidence_paths :: "string list"

record snapshot_module_fact =
  mf_name :: string
  mf_role :: string
  mf_paths :: "string list"
  mf_layer :: string

record snapshot_file_relationship_fact =
  fr_subject_path :: string
  fr_predicate :: string
  fr_object_path :: string

record product_snapshot_projection =
  pp_snapshot_id :: string
  pp_schema_version :: string
  pp_repository_id :: string
  pp_revision_kind :: string
  pp_revision_value :: string
  pp_revision_ref :: "string option"
  pp_canonical_graph_hash :: string
  pp_primary_language :: string
  pp_frameworks :: "string list"
  pp_entry_points :: "string list"
  pp_modules :: "snapshot_module_fact list"
  pp_files :: "snapshot_file_fact list"
  pp_dependencies :: "snapshot_dependency_fact list"
  pp_routes :: "snapshot_route_fact list"
  pp_diagnostics :: "(string \<times> string \<times> string option) list"
  pp_file_relationships :: "snapshot_file_relationship_fact list"

subsection \<open>Roles of files\<close>

text \<open>\<^verbatim>\<open>value or {}\<close>, then an attribute that only dictionaries have.\<close>


definition dict_or_empty :: "pyval \<Rightarrow> query_error + (string \<times> pyval) list" where
  "dict_or_empty v = (if \<not> truthy v then Inr [] else case v of PDict kvs \<Rightarrow> Inr kvs | _ \<Rightarrow> Inl AttributeError)"

definition get_str :: "(string \<times> pyval) list \<Rightarrow> string \<Rightarrow> string option" where
  "get_str kvs k = (case map_of kvs k of Some (PStr s) \<Rightarrow> Some s | _ \<Rightarrow> None)"

text \<open>\<^verbatim>\<open>isinstance(v, int)\<close> holds of booleans, which equal 0 and 1.\<close>

definition get_int :: "(string \<times> pyval) list \<Rightarrow> string \<Rightarrow> int option" where
  "get_int kvs k = (case map_of kvs k of Some (PInt i) \<Rightarrow> Some i | Some (PBool b) \<Rightarrow> Some (of_bool b) | _ \<Rightarrow> None)"

type_synonym roles = "string \<rightharpoonup> string \<times> string option"

fun file_roles :: "ri_assertion list \<Rightarrow> roles \<Rightarrow> query_error + roles" where
  "file_roles [] roles = Inr roles"
| "file_roles (a # as) roles = bindR (dict_or_empty (as_value a)) (\<lambda>v.
     case get_str v ''classification'' of
       Some c \<Rightarrow> if c = [] then file_roles as roles else file_roles as (roles(as_subject_key a \<mapsto> (c, get_str v ''confidence'')))
     | None \<Rightarrow> file_roles as roles)"

definition file_fact :: "roles \<Rightarrow> ri_node \<Rightarrow> snapshot_file_fact" where
  "file_fact roles n = \<lparr> ff_path = removeprefix ''file:'' (nd_stable_key n), ff_language = nd_language n,
     ff_role = map_option fst (roles (nd_stable_key n)), ff_role_confidence = (case roles (nd_stable_key n) of None \<Rightarrow> None | Some (r, c) \<Rightarrow> c) \<rparr>"

subsection \<open>Dependencies\<close>

definition project_declaration :: "(string \<times> pyval) list \<Rightarrow> snapshot_dependency_declaration" where
  "project_declaration raw = \<lparr> dd_version = get_str raw ''version'', dd_dependency_type = get_str raw ''dependency_type'',
     dd_manifest_path = get_str raw ''manifest_path'', dd_workspace_path = get_str raw ''workspace_path'',
     dd_start_line = get_int raw ''start_line'', dd_end_line = get_int raw ''end_line'',
     dd_extractor = get_str raw ''extractor'', dd_extractor_version = get_str raw ''extractor_version'' \<rparr>"

definition project_dependency :: "ri_node \<Rightarrow> snapshot_dependency_fact" where
  "project_dependency n =
     (let properties = (case nd_properties n of None \<Rightarrow> [] | Some ps \<Rightarrow> ps);
          raw_declarations = (case map_of properties ''declarations'' of Some (PList raws) \<Rightarrow> raws | _ \<Rightarrow> [PDict properties]) in
      \<lparr> df_stable_key = nd_stable_key n,
        df_name = (case nd_name n of None \<Rightarrow> nd_stable_key n | Some s \<Rightarrow> if s = [] then nd_stable_key n else s),
        df_ecosystem = get_str properties ''ecosystem'',
        df_declarations = concat (map (\<lambda>raw. case raw of PDict kvs \<Rightarrow> [project_declaration kvs] | _ \<Rightarrow> []) raw_declarations) \<rparr>)"

subsection \<open>Summaries\<close>

text \<open>\<^verbatim>\<open>Counter(xs).most_common(1)\<close>: the most frequent element, of equally frequent ones the first.\<close>

definition most_common :: "'a list \<Rightarrow> 'a option" where
  "most_common xs = find (\<lambda>x. list_all (\<lambda>y. count_list xs y \<le> count_list xs x) xs) xs"

definition primary_language :: "(string \<Rightarrow> string) \<Rightarrow> snapshot_file_fact list \<Rightarrow> string" where
  "primary_language title files =
     (case most_common (concat (map (\<lambda>f. case ff_language f of None \<Rightarrow> [] | Some l \<Rightarrow> if l = [] then [] else [l]) files)) of
        None \<Rightarrow> ''Unknown''
      | Some l \<Rightarrow> (case map_of [(''python'', ''Python''), (''typescript'', ''TypeScript'')] l of Some n \<Rightarrow> n | None \<Rightarrow> title l))"

definition framework_by_dependency :: "(string \<times> string) list" where
  "framework_by_dependency = [(''react'', ''React''), (''next'', ''Next.js''), (''vue'', ''Vue''), (''fastapi'', ''FastAPI''),
     (''django'', ''Django''), (''flask'', ''Flask'')]"

definition project_frameworks :: "unicode \<Rightarrow> snapshot_dependency_fact list \<Rightarrow> string list" where
  "project_frameworks U dependencies = (let dependency_names = map (\<lambda>p. u_lower U (df_name p)) dependencies in
     sort (map snd (filter (\<lambda>(name, framework). name \<in> set dependency_names) framework_by_dependency)))"

definition project_entry_points :: "snapshot_file_fact list \<Rightarrow> string list" where
  "project_entry_points files = sort (map ff_path (filter (\<lambda>f. ff_role f = Some ''entrypoint'') files))"

subsection \<open>Modules\<close>

definition strip_char :: "char \<Rightarrow> string \<Rightarrow> string" where
  "strip_char c s = rev (dropWhile (\<lambda>x. x = c) (rev (dropWhile (\<lambda>x. x = c) s)))"

definition module_key :: "unicode \<Rightarrow> snapshot_file_fact \<Rightarrow> string" where
  "module_key U f =
     (let parts = filter (\<lambda>p. p \<noteq> []) (split_char (CHR ''/'') (strip_char (CHR ''/'') (ff_path f))) in
      if ff_role f \<in> {Some ''controller'', Some ''route''} then ''api''
      else if ff_role f \<in> {Some ''service'', Some ''repository'', Some ''middleware'', Some ''configuration'', Some ''test'', Some ''documentation''}
        then the (ff_role f)
      else if ff_role f \<in> {Some ''model'', Some ''dto'', Some ''interface'', Some ''enum''} then ''domain''
      else case parts of
        [] \<Rightarrow> ''repository''
      | [a] \<Rightarrow> u_lower U a
      | a # b # _ \<Rightarrow> if a \<in> {''app'', ''src'', ''backend'', ''frontend'', ''apps''} then u_lower U b else u_lower U a)"

text \<open>A \<^verbatim>\<open>defaultdict(list)\<close> filled file by file.\<close>

fun add_member :: "string \<Rightarrow> 'a \<Rightarrow> (string \<times> 'a list) list \<Rightarrow> (string \<times> 'a list) list" where
  "add_member k x [] = [(k, [x])]"
| "add_member k x ((k', xs) # g) = (if k = k' then (k', xs @ [x]) # g else (k', xs) # add_member k x g)"

definition grouped_by :: "('a \<Rightarrow> string) \<Rightarrow> 'a list \<Rightarrow> (string \<times> 'a list) list" where
  "grouped_by key xs = fold (\<lambda>x. add_member (key x) x) xs []"

definition module_role :: "snapshot_file_fact list \<Rightarrow> string" where
  "module_role members =
     (let meaningful_roles = filter (\<lambda>r. r \<notin> {None, Some ''unknown'', Some ''documentation'', Some ''test''}) (map ff_role members) in
      case most_common meaningful_roles of
        Some (Some r) \<Rightarrow> r
      | _ \<Rightarrow> (case ff_role (hd members) of None \<Rightarrow> ''unknown'' | Some r \<Rightarrow> if r = [] then ''unknown'' else r))"

definition project_modules :: "unicode \<Rightarrow> (string \<Rightarrow> string) \<Rightarrow> snapshot_file_fact list \<Rightarrow> snapshot_module_fact list" where
  "project_modules U title files = map (\<lambda>(key, members).
       \<lparr> mf_name = title (replace_char (CHR ''-'') (CHR '' '') key), mf_role = module_role members,
         mf_paths = sort (map ff_path members), mf_layer = layer_for_role (Some (module_role members)) \<rparr>)
     (sort_key fst (grouped_by (module_key U) files))"

subsection \<open>The projection\<close>

definition projected_nodes :: "ri_snapshot \<Rightarrow> db \<Rightarrow> ri_node list" where
  "projected_nodes s d = sort_key (\<lambda>n. (nd_node_kind n, nd_stable_key n, nd_id n))
     (filter (\<lambda>n. nd_snapshot_id n = sn_snapshot_id s \<and> nd_node_kind n \<in> {''file'', ''dependency''}) (db_nodes d))"

definition role_assertions :: "ri_snapshot \<Rightarrow> db \<Rightarrow> ri_assertion list" where
  "role_assertions s d = sort_key (\<lambda>a. (as_subject_key a, as_assertion_id a, as_id a))
     (filter (\<lambda>a. as_snapshot_id a = sn_snapshot_id s \<and> as_subject_kind a = ''file'' \<and> as_predicate a = ''classified_as'') (db_assertions d))"

definition projected_routes :: "ri_snapshot \<Rightarrow> db \<Rightarrow> snapshot_route_fact list" where
  "projected_routes s d =
     (let route_observations = sort_key (\<lambda>b. (ob_subject_key b, nulls_first (ob_referent_text b), ob_observation_id b, ob_id b))
            (filter (\<lambda>b. ob_snapshot_id b = sn_snapshot_id s \<and> ob_observed_kind b = ''route'') (db_observations d));
          route_evidence = evidence_for s ee_observation_ref (map ob_id route_observations) d in
      map (\<lambda>b. \<lparr> rf_path = (case ob_referent_text b of None \<Rightarrow> ''Not available'' | Some t \<Rightarrow> if t = [] then ''Not available'' else t),
         rf_evidence_paths = sorted_list_of_set (set (map ee_path (route_evidence (ob_id b)))) \<rparr>) route_observations)"

definition projected_relationships :: "ri_snapshot \<Rightarrow> db \<Rightarrow> snapshot_file_relationship_fact list" where
  "projected_relationships s d = map (\<lambda>e. \<lparr> fr_subject_path = removeprefix ''file:'' (eg_subject_key e), fr_predicate = eg_predicate e,
       fr_object_path = removeprefix ''file:'' (eg_object_key e) \<rparr>)
     (sort_key edge_order (filter (\<lambda>e. eg_snapshot_id e = sn_snapshot_id s \<and> eg_predicate e \<in> set (map fst ARCHITECTURE_RELATIONSHIP_EDGE_TYPES)
        \<and> eg_subject_kind e = ''file'' \<and> eg_object_kind e = ''file'') (db_edges d)))"

definition product_projection :: "unicode \<Rightarrow> (string \<Rightarrow> string) \<Rightarrow> string \<Rightarrow> string \<Rightarrow> product_snapshot_projection query" where
  "product_projection U title owner_id repository_id d =
     bindR (require_sealed_snapshot_for_current_revision owner_id repository_id d) (\<lambda>s.
     let nodes = projected_nodes s d in
     bindR (file_roles (role_assertions s d) Map.empty) (\<lambda>roles.
     let files = map (file_fact roles) (filter (\<lambda>n. nd_node_kind n = ''file'' \<and> startswith ''file:'' (nd_stable_key n)) nodes);
         dependencies = map project_dependency (filter (\<lambda>n. nd_node_kind n = ''dependency'') nodes) in
     Inr \<lparr> pp_snapshot_id = sn_snapshot_id s, pp_schema_version = sn_schema_version s, pp_repository_id = sn_repository_id s,
       pp_revision_kind = sn_revision_kind s, pp_revision_value = sn_revision_value s, pp_revision_ref = sn_revision_ref s,
       pp_canonical_graph_hash = (case sn_canonical_graph_hash s of None \<Rightarrow> [] | Some h \<Rightarrow> h),
       pp_primary_language = primary_language title files,
       pp_frameworks = project_frameworks U dependencies,
       pp_entry_points = project_entry_points files,
       pp_modules = project_modules U title files,
       pp_files = files,
       pp_dependencies = dependencies,
       pp_routes = projected_routes s d,
       pp_diagnostics = map (\<lambda>r. (dg_code r, dg_message r, dg_path r))
         (sort_key diagnostic_order (filter (\<lambda>r. dg_snapshot_id r = sn_snapshot_id s) (db_diagnostics d))),
       pp_file_relationships = projected_relationships s d \<rparr>))"

section \<open>Modules partition the files\<close>

lemma add_member_mset: "mset (concat (map snd (add_member k x g))) = add_mset x (mset (concat (map snd g)))"
  by (induction k x g rule: add_member.induct) auto

lemma add_member_keys: "set (map fst (add_member k x g)) = insert k (set (map fst g))"
  by (induction k x g rule: add_member.induct) auto

lemma add_member_distinct: "distinct (map fst g) \<Longrightarrow> distinct (map fst (add_member k x g))"
proof (induction k x g rule: add_member.induct)
  case (2 k x k' xs g)
  then show ?case using add_member_keys [of k x g] by auto
qed simp

definition keyed :: "('a \<Rightarrow> string) \<Rightarrow> (string \<times> 'a list) list \<Rightarrow> bool" where
  "keyed key g \<longleftrightarrow> list_all (\<lambda>(k, xs). xs \<noteq> [] \<and> list_all (\<lambda>y. key y = k) xs) g"

lemma add_member_keyed: "keyed key g \<Longrightarrow> keyed key (add_member (key x) x g)"
  unfolding keyed_def by (induction "key x" x g rule: add_member.induct) auto

lemma grouped_fold_mset: "mset (concat (map snd (fold (\<lambda>x. add_member (key x) x) xs g))) = mset xs + mset (concat (map snd g))"
  by (induction xs arbitrary: g) (simp_all add: add_member_mset)

lemma grouped_fold_keys: "distinct (map fst g) \<Longrightarrow> distinct (map fst (fold (\<lambda>x. add_member (key x) x) xs g))"
  by (induction xs arbitrary: g) (simp_all add: add_member_distinct)

lemma grouped_fold_keyed: "keyed key g \<Longrightarrow> keyed key (fold (\<lambda>x. add_member (key x) x) xs g)"
  by (induction xs arbitrary: g) (simp_all add: add_member_keyed)

lemma grouped_by_keys: "distinct (map fst (grouped_by key xs))"
  using grouped_fold_keys [of "[]" key xs] by (simp add: grouped_by_def)

lemma grouped_by_mset: "mset (concat (map snd (grouped_by key xs))) = mset xs"
  using grouped_fold_mset [of key xs "[]"] by (simp add: grouped_by_def)

lemma grouped_by_group:
  assumes "(k, ys) \<in> set (grouped_by key xs)" shows "ys \<noteq> []" "y \<in> set ys \<Longrightarrow> key y = k"
proof -
  have "keyed key (grouped_by key xs)" unfolding grouped_by_def by (rule grouped_fold_keyed) (simp add: keyed_def)
  then show "ys \<noteq> []" "y \<in> set ys \<Longrightarrow> key y = k" using assms by (auto simp: keyed_def list_all_iff)
qed

lemma mset_concat_perm: "mset xs = mset ys \<Longrightarrow> mset (concat (map h xs)) = mset (concat (map h ys))"
proof -
  have sum: "mset (concat (map h xs)) = sum_mset (image_mset (\<lambda>x. mset (h x)) (mset xs))" for xs by (induction xs) auto
  assume "mset xs = mset ys"
  then show ?thesis unfolding sum by simp
qed

lemma concat_sorted_paths: "mset (concat (map (\<lambda>p. sort (map f (snd p))) g)) = image_mset f (mset (concat (map snd g)))"
  by (induction g) auto

lemma project_modules_mset: "mset (concat (map mf_paths (project_modules U title files))) = mset (map ff_path files)"
proof -
  let ?g = "grouped_by (module_key U) files" and ?h = "\<lambda>p. sort (map ff_path (snd p))"
  have "map mf_paths (project_modules U title files) = map ?h (sort_key fst ?g)"
    by (simp add: project_modules_def comp_def case_prod_beta)
  then have "mset (concat (map mf_paths (project_modules U title files))) = mset (concat (map ?h ?g))"
    using mset_concat_perm [of "sort_key fst ?g" ?g ?h] by simp
  also have "\<dots> = image_mset ff_path (mset (concat (map snd ?g)))" by (rule concat_sorted_paths)
  finally show ?thesis by (simp add: grouped_by_mset)
qed

lemma removeprefix_path: "startswith p s \<Longrightarrow> s = p @ removeprefix p s"
  by (auto simp: removeprefix_def string_simps)

lemma prefixed_nodes:
  assumes "A = {n \<in> B. P n \<and> startswith p (key n)}"
  shows "(\<lambda>n. removeprefix p (key n)) ` A = {path. \<exists>n \<in> B. P n \<and> key n = p @ path}"
proof (intro set_eqI iffI)
  fix path assume "path \<in> {path. \<exists>n \<in> B. P n \<and> key n = p @ path}"
  then obtain n where n: "n \<in> B" "P n" "key n = p @ path" by blast
  then have "n \<in> A" "removeprefix p (key n) = path" using assms by (auto simp: string_simps removeprefix_append)
  then show "path \<in> (\<lambda>n. removeprefix p (key n)) ` A" by blast
qed (use assms removeprefix_path in blast)

text \<open>
  The module inventory is a partition. In every projection the files are exactly the file nodes of the snapshot, each once, and the
  modules together list exactly these files, each in one module; no module is empty and its layer is that of its role.
\<close>

theorem modules_partition_files:
  assumes "product_projection U title owner_id repository_id d = Inr p" and "constraints d"
  shows "mset (concat (map mf_paths (pp_modules p))) = mset (map ff_path (pp_files p))
    \<and> distinct (concat (map mf_paths (pp_modules p)))
    \<and> set (map ff_path (pp_files p)) = {path. \<exists>n \<in> set (db_nodes d). nd_snapshot_id n = pp_snapshot_id p \<and> nd_node_kind n = ''file''
         \<and> nd_stable_key n = ''file:'' @ path}
    \<and> (\<forall>m \<in> set (pp_modules p). mf_paths m \<noteq> [] \<and> mf_layer m = layer_for_role (Some (mf_role m)))"
proof -
  obtain s roles where p: "pp_modules p = project_modules U title (pp_files p)" "pp_snapshot_id p = sn_snapshot_id s"
    "pp_files p = map (file_fact roles) (filter (\<lambda>n. nd_node_kind n = ''file'' \<and> startswith ''file:'' (nd_stable_key n)) (projected_nodes s d))"
  proof -
    from assms(1) obtain s roles where "require_sealed_snapshot_for_current_revision owner_id repository_id d = Inr s"
      "file_roles (role_assertions s d) Map.empty = Inr roles"
      by (auto simp: product_projection_def Let_def result_simps)
    then show thesis using assms(1) by (intro that [of s roles]) (auto simp: product_projection_def Let_def)
  qed
  define ns where "ns = filter (\<lambda>n. nd_node_kind n = ''file'' \<and> startswith ''file:'' (nd_stable_key n)) (projected_nodes s d)"
  have ns: "n \<in> set ns \<longleftrightarrow> n \<in> set (db_nodes d) \<and> nd_snapshot_id n = sn_snapshot_id s \<and> nd_node_kind n = ''file''
      \<and> startswith ''file:'' (nd_stable_key n)" for n
    by (auto simp: ns_def projected_nodes_def)
  have paths: "map ff_path (pp_files p) = map (\<lambda>n. removeprefix ''file:'' (nd_stable_key n)) ns"
    by (simp add: p(3) ns_def file_fact_def)
  have uq: "distinct (map (\<lambda>n. (nd_snapshot_id n, nd_stable_key n)) (db_nodes d))"
    using assms(2) by (simp add: constraints_def uq_ri_nodes_def unique_index_def)
  then have "distinct ns" by (simp add: ns_def projected_nodes_def distinct_map)
  moreover have "inj_on (\<lambda>n. removeprefix ''file:'' (nd_stable_key n)) (set ns)"
  proof (rule inj_onI)
    fix m n assume mn: "m \<in> set ns" "n \<in> set ns" "removeprefix ''file:'' (nd_stable_key m) = removeprefix ''file:'' (nd_stable_key n)"
    then have "nd_stable_key m = nd_stable_key n" using removeprefix_path ns by metis
    moreover have "inj_on (\<lambda>n. (nd_snapshot_id n, nd_stable_key n)) (set (db_nodes d))" using uq by (simp add: distinct_map)
    ultimately show "m = n" using mn(1,2) ns by (auto elim!: inj_onD)
  qed
  ultimately have "distinct (map ff_path (pp_files p))" unfolding paths by (simp add: distinct_map)
  moreover have m: "mset (concat (map mf_paths (pp_modules p))) = mset (map ff_path (pp_files p))"
    unfolding p(1) by (rule project_modules_mset)
  ultimately have "distinct (concat (map mf_paths (pp_modules p)))" by (metis mset_eq_imp_distinct_iff)
  moreover have "set (map ff_path (pp_files p)) = {path. \<exists>n \<in> set (db_nodes d). nd_snapshot_id n = pp_snapshot_id p \<and> nd_node_kind n = ''file''
         \<and> nd_stable_key n = ''file:'' @ path}"
  proof -
    have "set ns = {n \<in> set (db_nodes d). (nd_snapshot_id n = sn_snapshot_id s \<and> nd_node_kind n = ''file'') \<and> startswith ''file:'' (nd_stable_key n)}"
      using ns by blast
    from prefixed_nodes [OF this] show ?thesis unfolding paths p(2) set_map by (simp only: conj_assoc)
  qed
  moreover have "mf_paths m \<noteq> [] \<and> mf_layer m = layer_for_role (Some (mf_role m))" if "m \<in> set (pp_modules p)" for m
    using that grouped_by_group(1) unfolding p(1) by (force simp: project_modules_def)
  ultimately show ?thesis using m by blast
qed

definition sample_classified :: db where
  "sample_classified = sample_imports\<lparr>db_assertions := [\<lparr> as_id = 1, as_snapshot_id = ''c'', as_assertion_id = ''x'', as_subject_kind = ''file'',
     as_subject_key = ''file:a'', as_predicate = ''classified_as'', as_value = PDict [(''classification'', PStr ''route'')],
     as_truth_class = ''inferred'', as_producer = ''p'', as_producer_version = ''1'' \<rparr>]\<rparr>"

text \<open>The classified file is in the module of the interface, the others in one each, named after their first path segment.\<close>

theorem modules_partition_files_witness:
  "case product_projection ascii_unicode id ''u'' ''r'' sample_classified of
     Inr p \<Rightarrow> map mf_paths (pp_modules p) = [[''a''], [''b''], [''c'']] \<and> map mf_role (pp_modules p) = [''route'', ''unknown'', ''unknown'']
       \<and> mset (concat (map mf_paths (pp_modules p))) = mset (map ff_path (pp_files p))
   | Inl _ \<Rightarrow> False"
proof -
  have "case product_projection ascii_unicode id ''u'' ''r'' sample_classified of
      Inr p \<Rightarrow> map mf_paths (pp_modules p) = [[''a''], [''b''], [''c'']] \<and> map mf_role (pp_modules p) = [''route'', ''unknown'', ''unknown'']
    | Inl _ \<Rightarrow> False" by code_simp
  moreover have "constraints sample_classified" by code_simp
  ultimately show ?thesis
    using modules_partition_files [of ascii_unicode id "''u''" "''r''" sample_classified] by (auto split: sum.splits)
qed

end
