(* ===== verification/Auth_Service.thy ===== *)
theory Auth_Service
  imports Job_Model
begin

text \<open>
  Accounts and login sessions (\<^verbatim>\<open>app/auth/service.py\<close>): registration behind the approval list, login, and the rotation of refresh tokens.

  A session of the database has what is committed and what the transaction sees. \<^verbatim>\<open>others\<close> is what other requests commit at the points where a request has read but not
  yet written: the code is safe there only as far as the unique columns and the guarded update make it. Password hashing (argon2), access tokens (JWT) and
  the random values (uuid4, token_urlsafe) come from other packages and the operating system: they are parameters or arguments. One reading of the clock serves a
  request.

  The operations refine an abstract protocol of session families, whatever the interleaving; the invariants are proved on the protocol.
\<close>

section \<open>Model\<close>

subsection \<open>Tables\<close>

record user_row =
  ur_id :: string
  ur_email :: string
  ur_password_hash :: "string option"
  ur_is_active :: bool

record approved_email =
  ae_id :: string
  ae_email :: string
  ae_note :: "string option"
  ae_added_by :: "string option"
  ae_used_at :: "instant option"
  ae_used_by_user_id :: "string option"

record refresh_token =
  rt_id :: string
  rt_user_id :: string
  rt_token_hash :: string
  rt_family_id :: string
  rt_expires_at :: instant
  rt_used_at :: "instant option"
  rt_revoked_at :: "instant option"

record auth_db =
  ad_users :: "user_row list"
  ad_approved :: "approved_email list"
  ad_tokens :: "refresh_token list"

definition SEED_USER_ID :: string where
  "SEED_USER_ID = ''00000000-0000-0000-0000-000000000000''"

text \<open>Primary keys, unique columns and foreign keys.\<close>

definition auth_ok :: "auth_db \<Rightarrow> bool" where
  "auth_ok d \<longleftrightarrow> distinct (map ur_id (ad_users d)) \<and> distinct (map ur_email (ad_users d))
     \<and> distinct (map ae_id (ad_approved d)) \<and> distinct (map ae_email (ad_approved d))
     \<and> distinct (map rt_id (ad_tokens d)) \<and> distinct (map rt_token_hash (ad_tokens d))
     \<and> list_all (\<lambda>t. rt_user_id t \<in> set (map ur_id (ad_users d))) (ad_tokens d)
     \<and> list_all (\<lambda>a. set_option (ae_used_by_user_id a) \<subseteq> set (map ur_id (ad_users d))) (ad_approved d)"

datatype auth_error =
    AuthIntegrityError
  | AuthConflict string
  | AuthValidation string
  | AuthUnauthorized string
  | AuthStaleData

definition INVALID_CREDENTIALS :: string where "INVALID_CREDENTIALS = ''Invalid email or password.''"
definition INVALID_REFRESH :: string where "INVALID_REFRESH = ''Invalid refresh token.''"
definition EMAIL_NOT_APPROVED :: string where
  "EMAIL_NOT_APPROVED = ''This email hasn'' @ [CHR 0x27] @ ''t been approved on this PARTHA install yet. Ask whoever runs it to approve it.''"
definition EMAIL_EXISTS :: string where "EMAIL_EXISTS = ''An account with this email already exists.''"

subsection \<open>The session\<close>

text \<open>\<^verbatim>\<open>au_hash_checks\<close> counts the password verifications of a request: what its duration tells an observer.\<close>

record auth_session =
  au_committed :: auth_db
  au_view :: auth_db
  au_hash_checks :: nat

type_synonym 'a auth_action = "(auth_session, auth_error, 'a) action"

definition open_auth :: "auth_db \<Rightarrow> auth_session" where
  "open_auth d = \<lparr> au_committed = d, au_view = d, au_hash_checks = 0 \<rparr>"

definition au_edit :: "(auth_db \<Rightarrow> auth_db) \<Rightarrow> unit auth_action" where
  "au_edit f s = (Inr (), s\<lparr>au_view := f (au_view s)\<rparr>)"

definition au_rollback :: "unit auth_action" where
  "au_rollback s = (Inr (), s\<lparr>au_view := au_committed s\<rparr>)"

definition au_flush :: "unit auth_action" where
  "au_flush s = (if auth_ok (au_view s) then (Inr (), s) else (Inl AuthIntegrityError, s))"

definition au_commit :: "unit auth_action" where
  "au_commit s = (if auth_ok (au_view s) then (Inr (), s\<lparr>au_committed := au_view s\<rparr>) else (Inl AuthIntegrityError, s\<lparr>au_view := au_committed s\<rparr>))"

text \<open>Other requests commit while this one has nothing pending.\<close>

definition meanwhile :: "(auth_db \<Rightarrow> auth_db) \<Rightarrow> unit auth_action" where
  "meanwhile others s = (Inr (), s\<lparr>au_committed := others (au_committed s), au_view := others (au_committed s)\<rparr>)"

definition on_view :: "(auth_db \<Rightarrow> 'a) \<Rightarrow> 'a auth_action" where
  "on_view f = getS (\<lambda>s. f (au_view s))"

definition user_by_id :: "string \<Rightarrow> auth_db \<Rightarrow> user_row option" where
  "user_by_id uid d = find (\<lambda>u. ur_id u = uid) (ad_users d)"

definition user_by_email :: "string \<Rightarrow> auth_db \<Rightarrow> user_row option" where
  "user_by_email email d = find (\<lambda>u. ur_email u = email) (ad_users d)"

subsection \<open>Addresses\<close>

text \<open>The form under which an address is stored and looked up.\<close>

definition normalized_email :: "unicode \<Rightarrow> string \<Rightarrow> string" where
  "normalized_email U email = u_lower U (strip email)"

subsection \<open>Session families\<close>

record auth_settings =
  st_app_env :: string
  st_refresh_token_ttl_seconds :: int
  st_access_token :: "string \<Rightarrow> string"
  st_hash_password :: "string \<Rightarrow> string"
  st_verify_password :: "string \<Rightarrow> string \<Rightarrow> bool"

definition hash_refresh_token :: "digest \<Rightarrow> string \<Rightarrow> string" where
  "hash_refresh_token H raw = H raw"

text \<open>Random values of one request: the raw token, its row id, the id of a new family, of a new user and of a new approval.\<close>

record drawn =
  dr_raw :: string
  dr_id :: string
  dr_family :: string
  dr_user :: string
  dr_approval :: string

definition issue_refresh :: "digest \<Rightarrow> auth_settings \<Rightarrow> drawn \<Rightarrow> instant \<Rightarrow> string \<Rightarrow> string option \<Rightarrow> string auth_action" where
  "issue_refresh H S w now user_id family_id =
     bindS (au_edit (\<lambda>d. d\<lparr>ad_tokens := ad_tokens d @ [\<lparr> rt_id = dr_id w, rt_user_id = user_id, rt_token_hash = hash_refresh_token H (dr_raw w),
         rt_family_id = (case family_id of None \<Rightarrow> dr_family w | Some f \<Rightarrow> if f = [] then dr_family w else f),
         rt_expires_at = now + seconds (st_refresh_token_ttl_seconds S), rt_used_at = None, rt_revoked_at = None \<rparr>]\<rparr>))
       (\<lambda>_. returnS (dr_raw w))"

type_synonym opened = "user_row \<times> string \<times> string"

definition open_login :: "digest \<Rightarrow> auth_settings \<Rightarrow> drawn \<Rightarrow> instant \<Rightarrow> user_row \<Rightarrow> opened auth_action" where
  "open_login H S w now user =
     bindS (issue_refresh H S w now (ur_id user) None) (\<lambda>raw_refresh.
     bindS au_commit (\<lambda>_. returnS (user, st_access_token S (ur_id user), raw_refresh)))"

definition verify_password :: "auth_settings \<Rightarrow> string \<Rightarrow> string \<Rightarrow> bool auth_action" where
  "verify_password S password_hash password s = (Inr (st_verify_password S password_hash password), s\<lparr>au_hash_checks := Suc (au_hash_checks s)\<rparr>)"

definition burn_password_check :: "string \<Rightarrow> unit auth_action" where
  "burn_password_check password s = (Inr (), s\<lparr>au_hash_checks := Suc (au_hash_checks s)\<rparr>)"

definition login :: "unicode \<Rightarrow> digest \<Rightarrow> auth_settings \<Rightarrow> (auth_db \<Rightarrow> auth_db) \<Rightarrow> drawn \<Rightarrow> instant \<Rightarrow> string \<Rightarrow> string \<Rightarrow> opened auth_action" where
  "login U H S others w now email password =
     (let invalid = raiseS (AuthUnauthorized INVALID_CREDENTIALS) in
      bindS (on_view (user_by_email (normalized_email U email))) (\<lambda>user.
        if user = None \<or> ur_password_hash (the user) = None then bindS (burn_password_check password) (\<lambda>_. invalid)
        else bindS (verify_password S (the (ur_password_hash (the user))) password) (\<lambda>ok.
          if \<not> ok then invalid
          else if \<not> ur_is_active (the user) then invalid
          else bindS (meanwhile others) (\<lambda>_. open_login H S w now (the user)))))"

subsection \<open>Registration\<close>

definition ensure_email_available :: "string \<Rightarrow> unit auth_action" where
  "ensure_email_available email = bindS (on_view (user_by_email email)) (\<lambda>existing.
     if existing \<noteq> None then raiseS (AuthConflict EMAIL_EXISTS) else returnS ())"

text \<open>An approval that is in the table, or one that was added to the session and is still pending.\<close>

datatype approval = Stored (approved: approved_email) | Pending (approved: approved_email)

definition approval_for :: "string \<Rightarrow> auth_db \<Rightarrow> approved_email option" where
  "approval_for email d = find (\<lambda>a. ae_email a = email) (ad_approved d)"

definition real_user_count :: "auth_db \<Rightarrow> nat" where
  "real_user_count d = length (filter (\<lambda>u. ur_id u \<noteq> SEED_USER_ID) (ad_users d))"

definition new_approval :: "string \<Rightarrow> string \<Rightarrow> string \<Rightarrow> string \<Rightarrow> approved_email" where
  "new_approval aid email note added_by =
     \<lparr> ae_id = aid, ae_email = email, ae_note = Some note, ae_added_by = Some added_by, ae_used_at = None, ae_used_by_user_id = None \<rparr>"

definition first_user_bootstrap :: "drawn \<Rightarrow> string \<Rightarrow> approval option auth_action" where
  "first_user_bootstrap w email = bindS (on_view real_user_count) (\<lambda>n.
     if n \<noteq> 0 then returnS None
     else returnS (Some (Pending (new_approval (dr_approval w) email
       ''Auto-approved: first user on this instance becomes its owner (#388).'' ''first-user-bootstrap''))))"

definition require_approval :: "auth_settings \<Rightarrow> drawn \<Rightarrow> string \<Rightarrow> approval auth_action" where
  "require_approval S w email = bindS (on_view (approval_for email)) (\<lambda>approval. case approval of
     Some a \<Rightarrow> returnS (Stored a)
   | None \<Rightarrow>
       if st_app_env S = ''development''
       then returnS (Pending (new_approval (dr_approval w) email
         ''Auto-approved: local development (#384). Never happens outside APP_ENV=development.'' ''dev-bypass''))
       else bindS (first_user_bootstrap w email) (\<lambda>bootstrap. case bootstrap of
         Some b \<Rightarrow> returnS b
       | None \<Rightarrow> raiseS (AuthValidation EMAIL_NOT_APPROVED)))"

definition insert_account :: "user_row \<Rightarrow> approval \<Rightarrow> auth_db \<Rightarrow> auth_db" where
  "insert_account user approval d = d\<lparr>ad_users := ad_users d @ [user],
     ad_approved := ad_approved d @ (case approval of Stored _ \<Rightarrow> [] | Pending a \<Rightarrow> [a])\<rparr>"

definition on_integrity_error :: "'a auth_action \<Rightarrow> 'a auth_action \<Rightarrow> 'a auth_action" where
  "on_integrity_error m handler s = (case m s of (Inl AuthIntegrityError, s') \<Rightarrow> handler s' | r \<Rightarrow> r)"

definition conflict_or_reraise :: "string \<Rightarrow> unit auth_action" where
  "conflict_or_reraise email = bindS au_rollback (\<lambda>_. bindS (on_view (user_by_email email)) (\<lambda>u.
     if u \<noteq> None then raiseS (AuthConflict EMAIL_EXISTS) else raiseS AuthIntegrityError))"

text \<open>The UPDATE of the approval row by primary key; a row that is gone raises when the session flushes.\<close>

definition stamp_approval :: "string \<Rightarrow> instant \<Rightarrow> string \<Rightarrow> unit auth_action" where
  "stamp_approval aid now uid s =
     (if aid \<notin> set (map ae_id (ad_approved (au_view s))) then (Inl AuthStaleData, s\<lparr>au_view := au_committed s\<rparr>)
      else au_edit (\<lambda>d. d\<lparr>ad_approved := map (\<lambda>a. if ae_id a = aid then a\<lparr>ae_used_at := Some now, ae_used_by_user_id := Some uid\<rparr> else a) (ad_approved d)\<rparr>) s)"

definition create_approved_user :: "digest \<Rightarrow> auth_settings \<Rightarrow> (auth_db \<Rightarrow> auth_db) \<Rightarrow> drawn \<Rightarrow> instant \<Rightarrow> user_row \<Rightarrow> approval \<Rightarrow> opened auth_action" where
  "create_approved_user H S others w now user approval =
     bindS (meanwhile others) (\<lambda>_.
     bindS (au_edit (insert_account user approval)) (\<lambda>_.
     bindS (on_integrity_error au_flush (conflict_or_reraise (ur_email user))) (\<lambda>_.
     bindS (stamp_approval (ae_id (approved approval)) now (ur_id user)) (\<lambda>_.
     bindS (on_integrity_error au_commit (conflict_or_reraise (ur_email user))) (\<lambda>_.
     bindS (meanwhile others) (\<lambda>_. open_login H S w now user))))))"

definition register_with :: "unicode \<Rightarrow> digest \<Rightarrow> auth_settings \<Rightarrow> (auth_db \<Rightarrow> auth_db) \<Rightarrow> drawn \<Rightarrow> instant \<Rightarrow> string \<Rightarrow> string option \<Rightarrow> opened auth_action" where
  "register_with U H S others w now email password_hash =
     (let normalized = normalized_email U email in
      bindS (ensure_email_available normalized) (\<lambda>_.
      bindS (require_approval S w normalized) (\<lambda>approval.
      create_approved_user H S others w now
        \<lparr> ur_id = dr_user w, ur_email = normalized, ur_password_hash = password_hash, ur_is_active = True \<rparr> approval)))"

definition register :: "unicode \<Rightarrow> digest \<Rightarrow> auth_settings \<Rightarrow> (auth_db \<Rightarrow> auth_db) \<Rightarrow> drawn \<Rightarrow> instant \<Rightarrow> string \<Rightarrow> string \<Rightarrow> opened auth_action" where
  "register U H S others w now email password = register_with U H S others w now email (Some (st_hash_password S password))"

definition register_oauth_user :: "unicode \<Rightarrow> digest \<Rightarrow> auth_settings \<Rightarrow> (auth_db \<Rightarrow> auth_db) \<Rightarrow> drawn \<Rightarrow> instant \<Rightarrow> string \<Rightarrow> opened auth_action" where
  "register_oauth_user U H S others w now email = register_with U H S others w now email None"

subsection \<open>Rotation and revocation\<close>

definition mark_revoked :: "instant \<Rightarrow> string list \<Rightarrow> auth_db \<Rightarrow> auth_db" where
  "mark_revoked now ids d = d\<lparr>ad_tokens := map (\<lambda>t. if rt_id t \<in> set ids then t\<lparr>rt_revoked_at := Some now\<rparr> else t) (ad_tokens d)\<rparr>"

text \<open>The UPDATEs of the changed rows by primary key; a row that is gone raises.\<close>

definition write_revoked :: "instant \<Rightarrow> string list \<Rightarrow> unit auth_action" where
  "write_revoked now ids s = (if \<not> set ids \<subseteq> set (map rt_id (ad_tokens (au_view s))) then (Inl AuthStaleData, s\<lparr>au_view := au_committed s\<rparr>)
     else au_edit (mark_revoked now ids) s)"

text \<open>\<^verbatim>\<open>_revoke_family\<close>: the rows are read, then those that were read and not yet revoked are written by primary key.\<close>

definition revoke_family :: "(auth_db \<Rightarrow> auth_db) \<Rightarrow> string \<Rightarrow> instant \<Rightarrow> unit auth_action" where
  "revoke_family others family_id now =
     bindS (on_view (\<lambda>d. map rt_id (filter (\<lambda>t. rt_family_id t = family_id \<and> rt_revoked_at t = None) (ad_tokens d)))) (\<lambda>ids.
     bindS (meanwhile others) (\<lambda>_.
     bindS (write_revoked now ids) (\<lambda>_. au_commit)))"

text \<open>\<^verbatim>\<open>_claim_token\<close>: the guarded update; only its row count tells who won.\<close>

definition claim_token :: "string \<Rightarrow> instant \<Rightarrow> bool auth_action" where
  "claim_token token_id now =
     bindS (on_view (\<lambda>d. length (filter (\<lambda>t. rt_id t = token_id \<and> rt_used_at t = None) (ad_tokens d)))) (\<lambda>rowcount.
     bindS (au_edit (\<lambda>d. d\<lparr>ad_tokens := map (\<lambda>t. if rt_id t = token_id \<and> rt_used_at t = None then t\<lparr>rt_used_at := Some now\<rparr> else t)
         (ad_tokens d)\<rparr>)) (\<lambda>_. returnS (rowcount = 1)))"

definition token_by_hash :: "string \<Rightarrow> auth_db \<Rightarrow> refresh_token option" where
  "token_by_hash h d = find (\<lambda>t. rt_token_hash t = h) (ad_tokens d)"

definition refresh :: "digest \<Rightarrow> auth_settings \<Rightarrow> (auth_db \<Rightarrow> auth_db) \<Rightarrow> drawn \<Rightarrow> instant \<Rightarrow> string \<Rightarrow> opened auth_action" where
  "refresh H S others w now raw_token =
     (let invalid = raiseS (AuthUnauthorized INVALID_REFRESH) in
      bindS (on_view (token_by_hash (hash_refresh_token H raw_token))) (\<lambda>row. case row of
        None \<Rightarrow> invalid
      | Some r \<Rightarrow>
          if rt_revoked_at r \<noteq> None \<or> rt_expires_at r \<le> now then invalid
          else if rt_used_at r \<noteq> None then bindS (revoke_family others (rt_family_id r) now) (\<lambda>_. invalid)
          else bindS (on_view (user_by_id (rt_user_id r))) (\<lambda>user.
            if user = None \<or> \<not> ur_is_active (the user) then bindS (revoke_family others (rt_family_id r) now) (\<lambda>_. invalid)
            else bindS (meanwhile others) (\<lambda>_.
              bindS (claim_token (rt_id r) now) (\<lambda>won.
                if \<not> won then bindS (revoke_family others (rt_family_id r) now) (\<lambda>_. invalid)
                else bindS (issue_refresh H S w now (ur_id (the user)) (Some (rt_family_id r))) (\<lambda>raw_successor.
                  bindS au_commit (\<lambda>_. returnS (the user, st_access_token S (ur_id (the user)), raw_successor))))))))"

definition logout :: "digest \<Rightarrow> (auth_db \<Rightarrow> auth_db) \<Rightarrow> instant \<Rightarrow> string option \<Rightarrow> unit auth_action" where
  "logout H others now raw_token = (case raw_token of
     None \<Rightarrow> returnS ()
   | Some raw \<Rightarrow> if raw = [] then returnS ()
       else bindS (on_view (token_by_hash (hash_refresh_token H raw))) (\<lambda>row. case row of
         None \<Rightarrow> returnS ()
       | Some r \<Rightarrow> bindS (revoke_family others (rt_family_id r) now) (\<lambda>_. au_commit)))"

section \<open>The protocol of session families\<close>

definition spend :: "string \<Rightarrow> instant \<Rightarrow> refresh_token \<Rightarrow> refresh_token" where
  "spend tid now t = (if rt_id t = tid \<and> rt_used_at t = None then t\<lparr>rt_used_at := Some now\<rparr> else t)"

inductive session_step :: "auth_db \<Rightarrow> auth_db \<Rightarrow> bool" where
  open_family: "rt_used_at n = None \<Longrightarrow> rt_family_id n \<noteq> [] \<Longrightarrow> rt_family_id n \<notin> rt_family_id ` set (ad_tokens d) \<Longrightarrow>
    auth_ok (d\<lparr>ad_tokens := ad_tokens d @ [n]\<rparr>) \<Longrightarrow> session_step d (d\<lparr>ad_tokens := ad_tokens d @ [n]\<rparr>)"
| rotate: "t \<in> set (ad_tokens d) \<Longrightarrow> rt_used_at t = None \<Longrightarrow> rt_used_at n = None \<Longrightarrow> rt_family_id n = rt_family_id t \<Longrightarrow>
    rt_user_id n = rt_user_id t \<Longrightarrow> auth_ok (d\<lparr>ad_tokens := map (spend (rt_id t) now) (ad_tokens d) @ [n]\<rparr>) \<Longrightarrow>
    session_step d (d\<lparr>ad_tokens := map (spend (rt_id t) now) (ad_tokens d) @ [n]\<rparr>)"
| revoke: "session_step d (mark_revoked now ids d)"
| accounts: "auth_ok (d\<lparr>ad_users := us, ad_approved := as\<rparr>) \<Longrightarrow> session_step d (d\<lparr>ad_users := us, ad_approved := as\<rparr>)"
| delete_tokens: "session_step d (d\<lparr>ad_tokens := filter p (ad_tokens d)\<rparr>)"
| delete_user: "auth_ok (d\<lparr>ad_users := us, ad_approved := as, ad_tokens := filter p (ad_tokens d)\<rparr>) \<Longrightarrow>
    session_step d (d\<lparr>ad_users := us, ad_approved := as, ad_tokens := filter p (ad_tokens d)\<rparr>)"

definition live :: "refresh_token \<Rightarrow> bool" where
  "live t \<longleftrightarrow> rt_used_at t = None"

text \<open>The tokens of a family: at most one that was not spent, and one user. No family has an empty name.\<close>

definition family_user :: "refresh_token \<Rightarrow> string \<times> string" where
  "family_user t = (rt_family_id t, rt_user_id t)"

definition chain_rows :: "refresh_token list \<Rightarrow> bool" where
  "chain_rows ts \<longleftrightarrow> distinct (map rt_family_id (filter live ts)) \<and> inj_on fst (family_user ` set ts) \<and> [] \<notin> fst ` family_user ` set ts"

definition chains :: "auth_db \<Rightarrow> bool" where
  "chains d \<longleftrightarrow> chain_rows (ad_tokens d)"

lemma mark_revoked_tables:
  "map rt_id (ad_tokens (mark_revoked now ids d)) = map rt_id (ad_tokens d)"
  "map rt_token_hash (ad_tokens (mark_revoked now ids d)) = map rt_token_hash (ad_tokens d)"
  "map rt_user_id (ad_tokens (mark_revoked now ids d)) = map rt_user_id (ad_tokens d)"
  "map family_user (ad_tokens (mark_revoked now ids d)) = map family_user (ad_tokens d)"
  "map rt_family_id (filter live (ad_tokens (mark_revoked now ids d))) = map rt_family_id (filter live (ad_tokens d))"
  "ad_users (mark_revoked now ids d) = ad_users d" "ad_approved (mark_revoked now ids d) = ad_approved d"
proof -
  show "map rt_family_id (filter live (ad_tokens (mark_revoked now ids d))) = map rt_family_id (filter live (ad_tokens d))"
    unfolding mark_revoked_def by (induction "ad_tokens d" arbitrary: d) (auto simp: live_def comp_def filter_map intro!: map_cong filter_cong)
qed (auto simp: mark_revoked_def family_user_def)

lemma live_after_spend: "filter live (map (spend i now) ts) = filter (\<lambda>u. live u \<and> rt_id u \<noteq> i) ts"
  by (induction ts) (auto simp: spend_def live_def)

lemma spend_fields [simp]:
  "rt_id (spend i now t) = rt_id t" "rt_family_id (spend i now t) = rt_family_id t" "rt_user_id (spend i now t) = rt_user_id t"
  "rt_token_hash (spend i now t) = rt_token_hash t"
  by (simp_all add: spend_def)

lemma distinct_map_filter: "distinct (map f xs) \<Longrightarrow> distinct (map f (filter p xs))"
  by (induction xs) auto

lemma chain_rows_filter: "chain_rows ts \<Longrightarrow> chain_rows (filter p ts)"
  using distinct_map_filter [of rt_family_id "filter live ts" p]
  by (auto simp: chain_rows_def conj_commute elim: inj_on_subset)

lemma chain_rows_open:
  "chain_rows ts \<Longrightarrow> rt_used_at n = None \<Longrightarrow> rt_family_id n \<noteq> [] \<Longrightarrow> rt_family_id n \<notin> rt_family_id ` set ts \<Longrightarrow> chain_rows (ts @ [n])"
  by (auto simp: chain_rows_def live_def family_user_def image_iff)

lemma chains_mark_revoked: "chains (mark_revoked now ids d) = chains d"
  unfolding chains_def chain_rows_def mark_revoked_tables(5) set_map [symmetric] mark_revoked_tables(4) ..

lemma chain_rows_rotate:
  assumes c: "chain_rows ts" and t: "t \<in> set ts" "rt_used_at t = None"
    and n: "rt_used_at n = None" "rt_family_id n = rt_family_id t" "rt_user_id n = rt_user_id t"
  shows "chain_rows (map (spend (rt_id t) now) ts @ [n])"
proof -
  let ?ls = "filter (\<lambda>u. live u \<and> rt_id u \<noteq> rt_id t) ts"
  have d: "distinct (map rt_family_id (filter live ts))" using c by (simp add: chain_rows_def)
  have ne: "rt_family_id u \<noteq> rt_family_id t" if "u \<in> set ?ls" for u
  proof
    assume "rt_family_id u = rt_family_id t"
    moreover have "u \<in> set (filter live ts)" "t \<in> set (filter live ts)" using that t by (auto simp: live_def)
    ultimately have "u = t" using d by (meson distinct_map inj_onD)
    then show False using that by simp
  qed
  have "distinct (map rt_family_id ?ls)"
    using distinct_map_filter [OF d, of "\<lambda>u. rt_id u \<noteq> rt_id t"] by (simp add: conj_commute)
  moreover have "rt_family_id n \<notin> rt_family_id ` set ?ls"
    unfolding n(2) by (rule notI, erule imageE) (drule ne, simp)
  ultimately have "distinct (map rt_family_id (?ls @ [n]))" by simp
  moreover have "filter live (map (spend (rt_id t) now) ts @ [n]) = ?ls @ [n]" using n(1) by (simp add: live_after_spend) (simp add: live_def)
  moreover have "family_user ` set (map (spend (rt_id t) now) ts @ [n]) = family_user ` set ts"
  proof -
    have "family_user n = family_user t" "family_user ` set (map (spend (rt_id t) now) ts) = family_user ` set ts"
      by (simp_all add: family_user_def n(2,3) image_image)
    then show ?thesis using t(1) by (auto simp: insert_absorb)
  qed
  ultimately show ?thesis using c by (simp only: chain_rows_def simp_thms)
qed

lemma auth_ok_mark_revoked: "auth_ok (mark_revoked now ids d) = auth_ok d"
proof -
  have "list_all (\<lambda>t. rt_user_id t \<in> U) (ad_tokens (mark_revoked now ids d)) = list_all (\<lambda>t. rt_user_id t \<in> U) (ad_tokens d)" for U
  proof -
    have l: "list_all (\<lambda>t. rt_user_id t \<in> U) ts \<longleftrightarrow> set (map rt_user_id ts) \<subseteq> U" for ts by (auto simp: list_all_iff)
    show ?thesis unfolding l mark_revoked_tables(3) ..
  qed
  then show ?thesis by (simp add: auth_ok_def mark_revoked_tables)
qed

lemma session_step_ok: "session_step d d' \<Longrightarrow> auth_ok d \<Longrightarrow> auth_ok d'"
proof (induction rule: session_step.induct)
  case (delete_tokens d p)
  then show ?case by (simp add: auth_ok_def list_all_iff distinct_map_filter)
qed (simp_all add: auth_ok_mark_revoked)

lemma session_step_chains: "session_step d d' \<Longrightarrow> chains d \<Longrightarrow> chains d'"
proof (induction rule: session_step.induct)
  case (revoke now ids d)
  then show ?case by (simp only: chains_mark_revoked)
qed (simp_all add: chains_def chain_rows_open chain_rows_rotate chain_rows_filter)

lemma session_run: "session_step\<^sup>*\<^sup>* d d' \<Longrightarrow> auth_ok d \<Longrightarrow> chains d \<Longrightarrow> auth_ok d' \<and> chains d'"
  by (induction rule: rtranclp_induct) (auto intro: session_step_ok session_step_chains)

section \<open>Every request follows the protocol\<close>

text \<open>
  What the environment of a request \<^term>\<open>w\<close> may do at the points where it gets in between: any run of the protocol, with row ids and
  family names of its own (they are fresh UUIDs), so that a row id keeps its family and user.
\<close>

definition lawful_others :: "drawn \<Rightarrow> (auth_db \<Rightarrow> auth_db) \<Rightarrow> bool" where
  "lawful_others w others \<longleftrightarrow> (\<forall>d. auth_ok d \<longrightarrow> session_step\<^sup>*\<^sup>* d (others d)
     \<and> (dr_family w \<notin> rt_family_id ` set (ad_tokens d) \<longrightarrow> dr_family w \<notin> rt_family_id ` set (ad_tokens (others d)))
     \<and> (\<forall>t \<in> set (ad_tokens d). \<forall>u \<in> set (ad_tokens (others d)). rt_id u = rt_id t \<longrightarrow> family_user u = family_user t))"

definition follows :: "auth_db \<Rightarrow> auth_session \<Rightarrow> bool" where
  "follows d0 s \<longleftrightarrow> session_step\<^sup>*\<^sup>* d0 (au_committed s) \<and> auth_ok (au_committed s) \<and> chains (au_committed s)"

text \<open>Nothing pending; and, before a family is opened, its name is unused; and only accounts and approvals pending.\<close>

definition clean :: "auth_db \<Rightarrow> auth_session \<Rightarrow> bool" where
  "clean d0 s \<longleftrightarrow> follows d0 s \<and> au_view s = au_committed s"

definition unopened :: "drawn \<Rightarrow> auth_db \<Rightarrow> auth_session \<Rightarrow> bool" where
  "unopened w d0 s \<longleftrightarrow> clean d0 s \<and> dr_family w \<notin> rt_family_id ` set (ad_tokens (au_committed s))"

definition accounts_pending :: "drawn \<Rightarrow> auth_db \<Rightarrow> auth_session \<Rightarrow> bool" where
  "accounts_pending w d0 s \<longleftrightarrow> follows d0 s \<and> dr_family w \<notin> rt_family_id ` set (ad_tokens (au_committed s))
     \<and> ad_tokens (au_view s) = ad_tokens (au_committed s)"

text \<open>An action that leads from one property of the state to another, whether or not it raises.\<close>

definition leads :: "('s \<Rightarrow> bool) \<Rightarrow> ('s \<Rightarrow> bool) \<Rightarrow> ('s, 'e, 'a) action \<Rightarrow> bool" where
  "leads P Q m \<longleftrightarrow> (\<forall>s. P s \<longrightarrow> Q (snd (m s)))"

lemma leads_bindS: "keeps P m \<Longrightarrow> (\<And>s. P s \<Longrightarrow> Q s) \<Longrightarrow> (\<And>x. leads P Q (f x)) \<Longrightarrow> leads P Q (bindS m f)"
  unfolding leads_def keeps_def bindS_def by (auto split: prod.splits sum.splits)

lemma leads_then: "leads P P' m \<Longrightarrow> (\<And>s. P' s \<Longrightarrow> Q s) \<Longrightarrow> (\<And>x. leads P' Q (f x)) \<Longrightarrow> leads P Q (bindS m f)"
  unfolding leads_def bindS_def by (auto split: prod.splits sum.splits)

lemma keeps_leads: "keeps P m \<Longrightarrow> (\<And>s. P s \<Longrightarrow> Q s) \<Longrightarrow> leads P Q m"
  by (auto simp: leads_def keeps_def)

lemma leads_if: "(b \<Longrightarrow> leads P Q m) \<Longrightarrow> (\<not> b \<Longrightarrow> leads P Q m') \<Longrightarrow> leads P Q (if b then m else m')"
  by simp

lemma leads_raiseS: "(\<And>s. P s \<Longrightarrow> Q s) \<Longrightarrow> leads P Q (raiseS e)"
  by (rule keeps_leads [OF keeps_raiseS])

lemma keeps_on_view [keeps_intros]: "keeps P (on_view f)"
  unfolding on_view_def by (rule keeps_getS)

lemma clean_follows: "clean d0 s \<Longrightarrow> follows d0 s"
  by (simp add: clean_def)

lemma unopened_clean: "unopened w d0 s \<Longrightarrow> clean d0 s"
  by (simp add: unopened_def)

lemma follows_run:
  "follows d0 s \<Longrightarrow> session_step\<^sup>*\<^sup>* (au_committed s) d \<Longrightarrow> au_committed s' = d \<Longrightarrow> follows d0 s'"
  unfolding follows_def using session_run rtranclp_trans by metis

lemma keeps_meanwhile_clean [keeps_intros]: "lawful_others w others \<Longrightarrow> keeps (clean d0) (meanwhile others)"
  by (rule keepsI) (auto simp: clean_def meanwhile_def lawful_others_def follows_def dest: session_run intro: rtranclp_trans)

lemma keeps_meanwhile_unopened [keeps_intros]: "lawful_others w others \<Longrightarrow> keeps (unopened w d0) (meanwhile others)"
  by (rule keepsI) (auto simp: unopened_def clean_def meanwhile_def lawful_others_def follows_def dest: session_run intro: rtranclp_trans)

lemma leads_meanwhile: "lawful_others w others \<Longrightarrow> leads (accounts_pending w d0) (unopened w d0) (meanwhile others)"
  unfolding leads_def
  by (auto simp: unopened_def clean_def meanwhile_def lawful_others_def follows_def accounts_pending_def dest: session_run intro: rtranclp_trans)

lemma keeps_commit_clean [keeps_intros]: "keeps (clean d0) au_commit"
  by (rule keepsI) (simp add: clean_def au_commit_def follows_def)

lemma keeps_write_revoked: "keeps (clean d0) (bindS (write_revoked now ids) (\<lambda>_. au_commit))"
proof (rule keepsI)
  fix s assume c: "clean d0 s"
  let ?d = "mark_revoked now ids (au_committed s)"
  have "session_step\<^sup>*\<^sup>* (au_committed s) ?d" by (rule r_into_rtranclp [of session_step, OF revoke])
  from follows_run [OF clean_follows [OF c] this, of "s\<lparr>au_committed := ?d, au_view := ?d\<rparr>"]
  have "follows d0 (s\<lparr>au_committed := ?d, au_view := ?d\<rparr>)" by simp
  then show "clean d0 (snd (bindS (write_revoked now ids) (\<lambda>_. au_commit) s))"
    using c by (auto simp: bindS_def write_revoked_def au_edit_def au_commit_def clean_def follows_def auth_ok_mark_revoked)
qed

lemma keeps_revoke_family [keeps_intros]: "lawful_others w others \<Longrightarrow> keeps (clean d0) (revoke_family others f now)"
  unfolding revoke_family_def by (intro keeps_bindS keeps_on_view keeps_write_revoked) (rule keeps_meanwhile_clean)

lemma keeps_logout: "lawful_others w others \<Longrightarrow> keeps (clean d0) (logout H others now raw)"
  unfolding logout_def by (cases raw) (auto intro!: keeps_intros split: option.split intro: keeps_revoke_family)

lemma leads_open_login: 
  assumes "dr_family w \<noteq> []"
  shows "leads (unopened w d0) (follows d0) (open_login H S w now user)"
  unfolding leads_def
proof (intro allI impI)
  fix s assume u: "unopened w d0 s"
  let ?n = "\<lparr> rt_id = dr_id w, rt_user_id = ur_id user, rt_token_hash = hash_refresh_token H (dr_raw w), rt_family_id = dr_family w,
     rt_expires_at = now + seconds (st_refresh_token_ttl_seconds S), rt_used_at = None, rt_revoked_at = None \<rparr>"
  let ?d = "(au_committed s)\<lparr>ad_tokens := ad_tokens (au_committed s) @ [?n]\<rparr>"
  have "follows d0 (s\<lparr>au_view := ?d, au_committed := ?d\<rparr>)" if "auth_ok ?d"
  proof (rule follows_run)
    show "follows d0 s" using u by (simp add: unopened_def clean_def)
    show "session_step\<^sup>*\<^sup>* (au_committed s) ?d" using u assms that by (intro r_into_rtranclp open_family) (auto simp: unopened_def)
  qed simp
  then show "follows d0 (snd (open_login H S w now user s))"
    using u by (auto simp: open_login_def issue_refresh_def bindS_def au_edit_def au_commit_def returnS_def unopened_def clean_def follows_def)
qed

lemma unopened_follows: "unopened w d0 s \<Longrightarrow> follows d0 s"
  by (simp add: unopened_def clean_def)

lemma keeps_hash_check [keeps_intros]: "keeps (unopened w d0) (verify_password S h p)" "keeps (unopened w d0) (burn_password_check p)"
  by (rule keepsI, simp add: verify_password_def burn_password_check_def unopened_def clean_def follows_def)+

lemma leads_login:
  assumes "lawful_others w others" and "dr_family w \<noteq> []"
  shows "leads (unopened w d0) (follows d0) (login U H S others w now email password)"
  unfolding login_def Let_def
  by (intro leads_bindS leads_if leads_raiseS keeps_on_view unopened_follows keeps_hash_check keeps_meanwhile_unopened [OF assms(1)]
      leads_open_login [OF assms(2)])

lemma accounts_pending_follows: "accounts_pending w d0 s \<Longrightarrow> follows d0 s"
  by (simp add: accounts_pending_def)

lemma unopened_pending: "unopened w d0 s \<Longrightarrow> accounts_pending w d0 s"
  by (simp add: unopened_def clean_def accounts_pending_def)

lemma keeps_insert_account: "keeps (accounts_pending w d0) (au_edit (insert_account user approval))"
  by (rule keepsI) (simp add: accounts_pending_def au_edit_def insert_account_def follows_def)

lemma keeps_flush_pending: "keeps (accounts_pending w d0) au_flush"
  by (rule keepsI) (simp add: au_flush_def)

lemma keeps_rollback_pending: "keeps (accounts_pending w d0) au_rollback"
  by (rule keepsI) (simp add: au_rollback_def accounts_pending_def follows_def)

lemma keeps_stamp: "keeps (accounts_pending w d0) (stamp_approval aid now uid)"
  by (rule keepsI) (simp add: stamp_approval_def au_edit_def accounts_pending_def follows_def)

lemma keeps_commit_pending: "keeps (accounts_pending w d0) au_commit"
proof (rule keepsI)
  fix s assume p: "accounts_pending w d0 s"
  have "follows d0 (s\<lparr>au_committed := au_view s\<rparr>)" if ok: "auth_ok (au_view s)"
  proof (rule follows_run)
    show "follows d0 s" using p by (simp add: accounts_pending_def)
    have v: "au_view s = (au_committed s)\<lparr>ad_users := ad_users (au_view s), ad_approved := ad_approved (au_view s)\<rparr>"
      using p by (simp add: accounts_pending_def)
    show "session_step\<^sup>*\<^sup>* (au_committed s) (au_view s)"
      by (subst v) (rule r_into_rtranclp [of session_step, OF accounts], use v ok in simp)
  qed simp
  then show "accounts_pending w d0 (snd (au_commit s))"
    using p by (auto simp: au_commit_def accounts_pending_def follows_def)
qed

lemma keeps_on_integrity_error: "keeps P m \<Longrightarrow> keeps P h \<Longrightarrow> keeps P (on_integrity_error m h)"
  by (auto simp: keeps_def on_integrity_error_def split: prod.splits sum.splits auth_error.splits)

lemma keeps_conflict: "keeps (accounts_pending w d0) (conflict_or_reraise email)"
  unfolding conflict_or_reraise_def by (intro keeps_intros keeps_rollback_pending)

lemma leads_create:
  assumes "lawful_others w others" and "dr_family w \<noteq> []"
  shows "leads (unopened w d0) (follows d0) (create_approved_user H S others w now user approval)"
  unfolding create_approved_user_def
proof (rule leads_bindS [OF keeps_meanwhile_unopened [OF assms(1)] unopened_follows], assumption)
  fix x :: unit
  let ?rest = "bindS (au_edit (insert_account user approval)) (\<lambda>_.
     bindS (on_integrity_error au_flush (conflict_or_reraise (ur_email user))) (\<lambda>_.
     bindS (stamp_approval (ae_id (approved approval)) now (ur_id user)) (\<lambda>_.
     bindS (on_integrity_error au_commit (conflict_or_reraise (ur_email user))) (\<lambda>_.
     bindS (meanwhile others) (\<lambda>_. open_login H S w now user)))))"
  have "leads (accounts_pending w d0) (follows d0) ?rest"
    by (intro leads_bindS accounts_pending_follows keeps_insert_account keeps_on_integrity_error keeps_flush_pending keeps_conflict keeps_stamp
        keeps_commit_pending leads_then [OF leads_meanwhile [OF assms(1)] unopened_follows leads_open_login [OF assms(2)]])
  then show "leads (unopened w d0) (follows d0) ?rest" unfolding leads_def using unopened_pending by blast
qed

lemma leads_register:
  assumes "lawful_others w others" and "dr_family w \<noteq> []"
  shows "leads (unopened w d0) (follows d0) (register_with U H S others w now email h)"
  unfolding register_with_def Let_def ensure_email_available_def require_approval_def first_user_bootstrap_def
  by (intro leads_bindS unopened_follows leads_create [OF assms] keeps_intros keeps_on_view)

subsection \<open>Rotation\<close>

lemma count_by_id:
  assumes "distinct (map rt_id ts)"
  shows "length (filter (\<lambda>t. rt_id t = i \<and> rt_used_at t = None) ts) \<le> 1"
proof -
  have "distinct (map rt_id (filter (\<lambda>t. rt_id t = i \<and> rt_used_at t = None) ts))" using assms by (rule distinct_map_filter)
  from distinct_card [OF this] have "length (filter (\<lambda>t. rt_id t = i \<and> rt_used_at t = None) ts)
      = card (rt_id ` set (filter (\<lambda>t. rt_id t = i \<and> rt_used_at t = None) ts))" by simp
  also have "\<dots> \<le> card {i}" by (rule card_mono) auto
  finally show ?thesis by simp
qed

definition rotate_token :: "digest \<Rightarrow> auth_settings \<Rightarrow> (auth_db \<Rightarrow> auth_db) \<Rightarrow> drawn \<Rightarrow> instant \<Rightarrow> refresh_token \<Rightarrow> user_row \<Rightarrow> opened auth_action" where
  "rotate_token H S others w now r user =
     bindS (claim_token (rt_id r) now) (\<lambda>won.
       if \<not> won then bindS (revoke_family others (rt_family_id r) now) (\<lambda>_. raiseS (AuthUnauthorized INVALID_REFRESH))
       else bindS (issue_refresh H S w now (ur_id user) (Some (rt_family_id r))) (\<lambda>raw_successor.
         bindS au_commit (\<lambda>_. returnS (user, st_access_token S (ur_id user), raw_successor))))"

definition successor :: "digest \<Rightarrow> auth_settings \<Rightarrow> drawn \<Rightarrow> instant \<Rightarrow> refresh_token \<Rightarrow> user_row \<Rightarrow> refresh_token" where
  "successor H S w now r user = \<lparr> rt_id = dr_id w, rt_user_id = ur_id user, rt_token_hash = hash_refresh_token H (dr_raw w),
     rt_family_id = rt_family_id r, rt_expires_at = now + seconds (st_refresh_token_ttl_seconds S), rt_used_at = None, rt_revoked_at = None \<rparr>"

lemma rotate_token_lost:
  assumes "filter (\<lambda>t. rt_id t = rt_id r \<and> rt_used_at t = None) (ad_tokens (au_view s)) = []"
  shows "rotate_token H S others w now r user s = bindS (revoke_family others (rt_family_id r) now) (\<lambda>_. raiseS (AuthUnauthorized INVALID_REFRESH)) s"
proof -
  have "map (\<lambda>t. if rt_id t = rt_id r \<and> rt_used_at t = None then t\<lparr>rt_used_at := Some now\<rparr> else t) (ad_tokens (au_view s)) = ad_tokens (au_view s)"
    using assms by (intro map_idI) (auto simp: filter_empty_conv)
  then have "claim_token (rt_id r) now s = (Inr False, s)"
    using assms by (simp add: claim_token_def on_view_def action_defs au_edit_def)
  then show ?thesis by (simp add: rotate_token_def bindS_def [of "claim_token (rt_id r) now"])
qed

lemma spend_fun: "(\<lambda>t. if rt_id t = i \<and> rt_used_at t = None then t\<lparr>rt_used_at := Some now\<rparr> else t) = spend i now"
  by (simp add: spend_def fun_eq_iff)

lemma rotate_token_won:
  assumes "distinct (map rt_id (ad_tokens (au_view s)))" and "filter (\<lambda>t. rt_id t = rt_id r \<and> rt_used_at t = None) (ad_tokens (au_view s)) \<noteq> []"
    and "rt_family_id r \<noteq> []"
  shows "rotate_token H S others w now r user s =
     (let d = (au_view s)\<lparr>ad_tokens := map (spend (rt_id r) now) (ad_tokens (au_view s)) @ [successor H S w now r user]\<rparr> in
      if auth_ok d then (Inr (user, st_access_token S (ur_id user), dr_raw w), s\<lparr>au_view := d, au_committed := d\<rparr>)
      else (Inl AuthIntegrityError, s\<lparr>au_view := au_committed s\<rparr>))"
proof -
  have "length (filter (\<lambda>t. rt_id t = rt_id r \<and> rt_used_at t = None) (ad_tokens (au_view s))) = 1"
    using count_by_id [OF assms(1), of "rt_id r"] assms(2)
    by (cases "length (filter (\<lambda>t. rt_id t = rt_id r \<and> rt_used_at t = None) (ad_tokens (au_view s)))") (simp_all del: filter_empty_conv)
  then have claim: "claim_token (rt_id r) now s
      = (Inr True, s\<lparr>au_view := (au_view s)\<lparr>ad_tokens := map (spend (rt_id r) now) (ad_tokens (au_view s))\<rparr>\<rparr>)"
    unfolding claim_token_def on_view_def getS_def bindS_def au_edit_def returnS_def spend_fun by simp
  show ?thesis
    unfolding rotate_token_def bindS_def [of "claim_token (rt_id r) now"] claim
    using assms(3) by (simp add: issue_refresh_def action_defs au_edit_def au_commit_def successor_def Let_def)
qed

lemma bindS_on_view: "bindS (on_view f) g s = g (f (au_view s)) s"
  by (simp add: on_view_def action_defs)

lemma bindS_meanwhile: "bindS (meanwhile others) g s
    = g () (s\<lparr>au_committed := others (au_committed s), au_view := others (au_committed s)\<rparr>)"
  by (simp add: meanwhile_def bindS_def)

lemma refresh_cases:
  "refresh H S others w now raw s = (case token_by_hash (hash_refresh_token H raw) (au_view s) of
     None \<Rightarrow> (Inl (AuthUnauthorized INVALID_REFRESH), s)
   | Some r \<Rightarrow>
       if rt_revoked_at r \<noteq> None \<or> rt_expires_at r \<le> now then (Inl (AuthUnauthorized INVALID_REFRESH), s)
       else if rt_used_at r \<noteq> None \<or> (case user_by_id (rt_user_id r) (au_view s) of None \<Rightarrow> True | Some u \<Rightarrow> \<not> ur_is_active u)
         then bindS (revoke_family others (rt_family_id r) now) (\<lambda>_. raiseS (AuthUnauthorized INVALID_REFRESH)) s
       else rotate_token H S others w now r (the (user_by_id (rt_user_id r) (au_view s)))
         (s\<lparr>au_committed := others (au_committed s), au_view := others (au_committed s)\<rparr>))"
  unfolding refresh_def Let_def bindS_on_view rotate_token_def
  by (auto simp: bindS_on_view bindS_meanwhile raiseS_def split: option.split)

lemma token_by_hash_Some: "token_by_hash h d = Some r \<Longrightarrow> r \<in> set (ad_tokens d) \<and> rt_token_hash r = h"
  by (auto simp: token_by_hash_def find_Some_iff)

lemma user_by_id_Some: "user_by_id i d = Some u \<Longrightarrow> u \<in> set (ad_users d) \<and> ur_id u = i"
  by (auto simp: user_by_id_def find_Some_iff)

lemma chains_named: "chains d \<Longrightarrow> t \<in> set (ad_tokens d) \<Longrightarrow> rt_family_id t \<noteq> []"
  by (force simp: chains_def chain_rows_def family_user_def image_iff)

lemma rotate_token_clean:
  assumes c: "clean d0 s" and l: "lawful_others w others" and named: "rt_family_id r \<noteq> []"
    and same: "\<And>t. t \<in> set (ad_tokens (au_committed s)) \<Longrightarrow> rt_id t = rt_id r \<Longrightarrow> family_user t = (rt_family_id r, ur_id user)"
  shows "clean d0 (snd (rotate_token H S others w now r user s))"
proof (cases "filter (\<lambda>t. rt_id t = rt_id r \<and> rt_used_at t = None) (ad_tokens (au_view s)) = []")
  case True
  have "keeps (clean d0) (bindS (revoke_family others (rt_family_id r) now) (\<lambda>_. raiseS (AuthUnauthorized INVALID_REFRESH) :: opened auth_action))"
    by (intro keeps_bindS keeps_revoke_family [OF l] keeps_raiseS)
  then show ?thesis using c by (simp add: rotate_token_lost [OF True] keeps_def)
next
  case False
  let ?d = "(au_committed s)\<lparr>ad_tokens := map (spend (rt_id r) now) (ad_tokens (au_committed s)) @ [successor H S w now r user]\<rparr>"
  have v: "au_view s = au_committed s" and ok: "auth_ok (au_committed s)" using c by (simp_all add: clean_def follows_def)
  obtain t where t: "t \<in> set (ad_tokens (au_committed s))" "rt_id t = rt_id r" "rt_used_at t = None"
    using False v by (auto simp: filter_empty_conv)
  have "follows d0 (s\<lparr>au_view := ?d, au_committed := ?d\<rparr>)" if "auth_ok ?d"
  proof (rule follows_run [OF clean_follows [OF c]])
    have "session_step (au_committed s) ((au_committed s)\<lparr>ad_tokens := map (spend (rt_id t) now) (ad_tokens (au_committed s)) @ [successor H S w now r user]\<rparr>)"
      using same [OF t(1,2)] t that by (intro rotate) (auto simp: successor_def family_user_def)
    then show "session_step\<^sup>*\<^sup>* (au_committed s) ?d" unfolding t(2) by (rule r_into_rtranclp)
  qed simp
  then show ?thesis
    using rotate_token_won [OF _ False named] ok c by (auto simp: v auth_ok_def Let_def clean_def follows_def)
qed

lemma keeps_refresh:
  assumes l: "lawful_others w others"
  shows "keeps (clean d0) (refresh H S others w now raw)"
proof (rule keepsI)
  fix s assume c: "clean d0 s"
  have v: "au_view s = au_committed s" and ok: "auth_ok (au_committed s)" and ch: "chains (au_committed s)"
    using c by (simp_all add: clean_def follows_def)
  have revoked: "clean d0 (snd (bindS (revoke_family others f now) (\<lambda>_. raiseS (AuthUnauthorized INVALID_REFRESH) :: opened auth_action) s))" for f
  proof -
    have "keeps (clean d0) (bindS (revoke_family others f now) (\<lambda>_. raiseS (AuthUnauthorized INVALID_REFRESH) :: opened auth_action))"
      by (intro keeps_bindS keeps_revoke_family [OF l] keeps_raiseS)
    then show ?thesis using c by (simp add: keeps_def)
  qed
  have between: "clean d0 (s\<lparr>au_committed := others (au_committed s), au_view := others (au_committed s)\<rparr>)"
    using keeps_meanwhile_clean [OF l, of d0] c by (simp add: keeps_def meanwhile_def)
  have "clean d0 (snd (rotate_token H S others w now r u (s\<lparr>au_committed := others (au_committed s), au_view := others (au_committed s)\<rparr>)))"
    if r: "token_by_hash h (au_view s) = Some r" and u: "user_by_id (rt_user_id r) (au_view s) = Some u" for h r u
  proof (rule rotate_token_clean [OF between l])
    have rr: "r \<in> set (ad_tokens (au_committed s))" using token_by_hash_Some [OF r] v by simp
    then show "rt_family_id r \<noteq> []" by (rule chains_named [OF ch])
    fix t assume t: "t \<in> set (ad_tokens (au_committed (s\<lparr>au_committed := others (au_committed s), au_view := others (au_committed s)\<rparr>)))" "rt_id t = rt_id r"
    then have "family_user t = family_user r" using l ok rr unfolding lawful_others_def by simp
    then show "family_user t = (rt_family_id r, ur_id u)" using user_by_id_Some [OF u] by (simp add: family_user_def)
  qed
  then show "clean d0 (snd (refresh H S others w now raw s))"
    using c revoked by (auto simp: refresh_cases split: option.split)
qed

text \<open>
  The authentication service follows the session protocol. Whatever other requests commit in between, what a registration, login,
  refresh or logout commits is a run of the protocol: a family is opened under a new name, a token that nobody has spent is spent and
  replaced by one successor in its family and for its user, tokens are revoked, accounts change.
\<close>

theorem auth_refines_protocol:
  assumes "lawful_others w others" and "auth_ok d" and "chains d" and "dr_family w \<noteq> []" and "dr_family w \<notin> rt_family_id ` set (ad_tokens d)"
  shows "session_step\<^sup>*\<^sup>* d (au_committed (snd (register U H S others w now email password (open_auth d))))
    \<and> session_step\<^sup>*\<^sup>* d (au_committed (snd (register_oauth_user U H S others w now email (open_auth d))))
    \<and> session_step\<^sup>*\<^sup>* d (au_committed (snd (login U H S others w now email password (open_auth d))))
    \<and> session_step\<^sup>*\<^sup>* d (au_committed (snd (refresh H S others w now raw (open_auth d))))
    \<and> session_step\<^sup>*\<^sup>* d (au_committed (snd (logout H others now cookie (open_auth d))))"
proof -
  have c: "clean d (open_auth d)" using assms(2,3) by (simp add: clean_def follows_def open_auth_def)
  then have u: "unopened w d (open_auth d)" using assms(5) by (simp add: unopened_def open_auth_def)
  have "follows d (snd (refresh H S others w now raw (open_auth d)))" "follows d (snd (logout H others now cookie (open_auth d)))"
    using keeps_refresh [OF assms(1)] keeps_logout [OF assms(1)] c unfolding keeps_def clean_def by blast+
  moreover have "follows d (snd (login U H S others w now email password (open_auth d)))"
    "follows d (snd (register_with U H S others w now email h (open_auth d)))" for h
    using leads_login [OF assms(1,4)] leads_register [OF assms(1,4)] u unfolding leads_def by blast+
  ultimately show ?thesis by (simp add: follows_def register_def register_oauth_user_def)
qed

text \<open>Requests of the service, each with an environment that follows the protocol.\<close>

inductive auth_request :: "unicode \<Rightarrow> digest \<Rightarrow> auth_settings \<Rightarrow> auth_db \<Rightarrow> auth_db \<Rightarrow> bool" for U H S where
  req_register: "lawful_others w others \<Longrightarrow> dr_family w \<noteq> [] \<Longrightarrow> dr_family w \<notin> rt_family_id ` set (ad_tokens d) \<Longrightarrow>
    auth_request U H S d (au_committed (snd (register U H S others w now email password (open_auth d))))"
| req_oauth: "lawful_others w others \<Longrightarrow> dr_family w \<noteq> [] \<Longrightarrow> dr_family w \<notin> rt_family_id ` set (ad_tokens d) \<Longrightarrow>
    auth_request U H S d (au_committed (snd (register_oauth_user U H S others w now email (open_auth d))))"
| req_login: "lawful_others w others \<Longrightarrow> dr_family w \<noteq> [] \<Longrightarrow> dr_family w \<notin> rt_family_id ` set (ad_tokens d) \<Longrightarrow>
    auth_request U H S d (au_committed (snd (login U H S others w now email password (open_auth d))))"
| req_refresh: "lawful_others w others \<Longrightarrow> auth_request U H S d (au_committed (snd (refresh H S others w now raw (open_auth d))))"
| req_logout: "lawful_others w others \<Longrightarrow> auth_request U H S d (au_committed (snd (logout H others now cookie (open_auth d))))"

lemma clean_open: "auth_ok d \<Longrightarrow> chains d \<Longrightarrow> clean d (open_auth d)"
  by (simp add: clean_def follows_def open_auth_def)

lemma request_follows:
  assumes "auth_request U H S d d'" and "auth_ok d" and "chains d"
  shows "session_step\<^sup>*\<^sup>* d d'"
proof -
  note c = clean_open [OF assms(2,3)]
  have u: "unopened w d (open_auth d)" if "dr_family w \<notin> rt_family_id ` set (ad_tokens d)" for w
    using c that by (simp add: unopened_def open_auth_def)
  show ?thesis
    using assms(1)
  proof cases
    case (req_register w others now email password)
    then show ?thesis using leads_register u [of w] unfolding leads_def follows_def register_def by blast
  next
    case (req_oauth w others now email)
    then show ?thesis using leads_register u [of w] unfolding leads_def follows_def register_oauth_user_def by blast
  next
    case (req_login w others now email password)
    then show ?thesis using leads_login u [of w] unfolding leads_def follows_def by blast
  next
    case (req_refresh w others now raw)
    then show ?thesis using keeps_refresh c unfolding keeps_def clean_def follows_def by blast
  next
    case (req_logout w others now cookie)
    then show ?thesis using keeps_logout c unfolding keeps_def clean_def follows_def by blast
  qed
qed

lemma requests_follow: "(auth_request U H S)\<^sup>*\<^sup>* d0 d \<Longrightarrow> auth_ok d0 \<Longrightarrow> chains d0 \<Longrightarrow> auth_ok d \<and> chains d"
  by (induction rule: rtranclp_induct) (auto dest: request_follows session_run)

text \<open>
  After any number of requests, however they interleave with others, a session family belongs to one user and has at most one refresh
  token that was not spent: a token is never accepted twice.
\<close>

theorem one_live_token_per_family:
  assumes "(auth_request U H S)\<^sup>*\<^sup>* d0 d" and "auth_ok d0" and "chains d0"
    and "t \<in> set (ad_tokens d)" and "u \<in> set (ad_tokens d)" and "rt_family_id t = rt_family_id u"
  shows "rt_user_id t = rt_user_id u \<and> (rt_used_at t = None \<and> rt_used_at u = None \<longrightarrow> t = u)"
proof -
  have c: "distinct (map rt_family_id (filter live (ad_tokens d)))" "inj_on fst (family_user ` set (ad_tokens d))"
    using requests_follow [OF assms(1-3)] by (simp_all add: chains_def chain_rows_def)
  have "family_user t = family_user u"
    by (rule inj_onD [OF c(2) _ imageI [OF assms(4)] imageI [OF assms(5)]]) (simp add: family_user_def assms(6))
  moreover have "t = u" if "rt_used_at t = None \<and> rt_used_at u = None"
  proof (rule inj_onD [of rt_family_id "set (filter live (ad_tokens d))"])
    show "inj_on rt_family_id (set (filter live (ad_tokens d)))" using c(1) by (simp add: distinct_map)
  qed (use assms(4-6) that in \<open>simp_all add: live_def\<close>)
  ultimately show ?thesis by (simp add: family_user_def)
qed

section \<open>Replay and logout\<close>

lemma open_auth_views [simp]: "au_view (open_auth d) = d" "au_committed (open_auth d) = d" "au_hash_checks (open_auth d) = 0"
  by (simp_all add: open_auth_def)

definition revocable :: "string \<Rightarrow> auth_db \<Rightarrow> string list" where
  "revocable f d = map rt_id (filter (\<lambda>t. rt_family_id t = f \<and> rt_revoked_at t = None) (ad_tokens d))"

lemma revoke_family_alone:
  assumes "auth_ok (au_view s)" and "au_view s = au_committed s"
  shows "revoke_family id f now s = (Inr (), s\<lparr>au_view := mark_revoked now (revocable f (au_view s)) (au_view s),
    au_committed := mark_revoked now (revocable f (au_view s)) (au_view s)\<rparr>)"
  using assms unfolding revoke_family_def bindS_on_view bindS_meanwhile revocable_def [symmetric]
  by (auto simp: bindS_def write_revoked_def au_edit_def au_commit_def auth_ok_mark_revoked revocable_def)

lemma all_revoked:
  "t \<in> set (ad_tokens (mark_revoked now (revocable f d) d)) \<Longrightarrow> rt_family_id t = f \<Longrightarrow> rt_revoked_at t \<noteq> None"
  by (auto simp: mark_revoked_def revocable_def split: if_splits)


lemma auth_ok_rotate:
  assumes "auth_ok d" and "dr_id w \<notin> rt_id ` set (ad_tokens d)" and "hash_refresh_token H (dr_raw w) \<notin> rt_token_hash ` set (ad_tokens d)"
    and "ur_id user \<in> ur_id ` set (ad_users d)"
  shows "auth_ok (d\<lparr>ad_tokens := map (spend i now) (ad_tokens d) @ [successor H S w now r user]\<rparr>)"
  using assms by (auto simp: auth_ok_def successor_def list_all_iff comp_def)

lemma token_by_hash_row: "auth_ok d \<Longrightarrow> t \<in> set (ad_tokens d) \<Longrightarrow> token_by_hash (rt_token_hash t) d = Some t"
proof -
  assume d: "auth_ok d" "t \<in> set (ad_tokens d)"
  have inj: "inj_on rt_token_hash (set (ad_tokens d))" using d(1) by (simp add: auth_ok_def distinct_map)
  have "token_by_hash (rt_token_hash t) d \<noteq> None" using d(2) by (auto simp: token_by_hash_def find_None_iff)
  then obtain r where "token_by_hash (rt_token_hash t) d = Some r" by blast
  then show ?thesis using token_by_hash_Some inj d(2) by (metis inj_onD)
qed

lemma logout_alone:
  assumes "auth_ok d" and "token_by_hash (hash_refresh_token H raw) d = Some r" and "raw \<noteq> []"
  shows "logout H id now (Some raw) (open_auth d) = (Inr (), (open_auth d)\<lparr>au_view := mark_revoked now (revocable (rt_family_id r) d) d,
     au_committed := mark_revoked now (revocable (rt_family_id r) d) d\<rparr>)"
  using assms revoke_family_alone [of "open_auth d" "rt_family_id r" now]
  by (simp add: logout_def bindS_on_view bindS_def [of "revoke_family id (rt_family_id r) now"] au_commit_def auth_ok_mark_revoked)

definition unused_draws :: "digest \<Rightarrow> drawn \<Rightarrow> auth_db \<Rightarrow> bool" where
  "unused_draws H w d \<longleftrightarrow> dr_id w \<notin> rt_id ` set (ad_tokens d) \<and> hash_refresh_token H (dr_raw w) \<notin> rt_token_hash ` set (ad_tokens d)"

text \<open>
  A logout can be overtaken. A refresh that read its token before a logout of the same session commits, and claims it after, succeeds:
  the guarded update asks only whether the token was spent. The logout has answered with success and everything it saw is revoked, yet
  the session has a token that is neither spent nor revoked, which the next refresh accepts.
\<close>

theorem rotation_survives_logout:
  assumes "auth_ok d" and "chains d" and "raw \<noteq> []"
    and r: "token_by_hash (hash_refresh_token H raw) d = Some r" "rt_revoked_at r = None" "rt_used_at r = None" "now < rt_expires_at r"
    and u: "user_by_id (rt_user_id r) d = Some user" "ur_is_active user" and w: "unused_draws H w d"
  shows "\<exists>d' s. logout H id now (Some raw) (open_auth d) = (Inr (), s) \<and> au_committed s = d'
    \<and> (\<forall>t \<in> set (ad_tokens d'). rt_family_id t = rt_family_id r \<longrightarrow> rt_revoked_at t \<noteq> None)
    \<and> fst (refresh H S (\<lambda>_. d') w now raw (open_auth d)) = Inr (user, st_access_token S (ur_id user), dr_raw w)
    \<and> token_by_hash (hash_refresh_token H (dr_raw w)) (au_committed (snd (refresh H S (\<lambda>_. d') w now raw (open_auth d))))
        = Some (successor H S w now r user)
    \<and> rt_revoked_at (successor H S w now r user) = None \<and> rt_used_at (successor H S w now r user) = None"
proof -
  let ?d = "mark_revoked now (revocable (rt_family_id r) d) d" and ?n = "successor H S w now r user"
  let ?e = "?d\<lparr>ad_tokens := map (spend (rt_id r) now) (ad_tokens ?d) @ [?n]\<rparr>"
  let ?s = "(open_auth d)\<lparr>au_committed := ?d, au_view := ?d\<rparr>"
  have rd: "r \<in> set (ad_tokens d)" using token_by_hash_Some [OF r(1)] by simp
  have ids: "rt_id ` set (ad_tokens ?d) = rt_id ` set (ad_tokens d)" "rt_token_hash ` set (ad_tokens ?d) = rt_token_hash ` set (ad_tokens d)"
    by (metis mark_revoked_tables(1) set_map, metis mark_revoked_tables(2) set_map)
  have ok: "auth_ok ?d" using assms(1) by (simp add: auth_ok_mark_revoked)
  have user: "ur_id user \<in> ur_id ` set (ad_users ?d)" using imageI [OF conjunct1 [OF user_by_id_Some [OF u(1)]], of ur_id] by (simp only: mark_revoked_tables(6))
  have e: "auth_ok ?e" by (rule auth_ok_rotate [OF ok _ _ user]) (use w ids in \<open>simp_all add: unused_draws_def\<close>)
  have "r\<lparr>rt_revoked_at := Some now\<rparr> \<in> set (ad_tokens ?d)" using rd r(2) by (force simp: mark_revoked_def revocable_def)
  then have claimable: "filter (\<lambda>t. rt_id t = rt_id r \<and> rt_used_at t = None) (ad_tokens (au_view ?s)) \<noteq> []"
    using r(3) by (auto simp: filter_empty_conv intro!: bexI [of _ "r\<lparr>rt_revoked_at := Some now\<rparr>"])
  have named: "rt_family_id r \<noteq> []" by (rule chains_named [OF assms(2) rd])
  have "refresh H S (\<lambda>_. ?d) w now raw (open_auth d) = rotate_token H S (\<lambda>_. ?d) w now r user ?s"
    using r u by (simp add: refresh_cases)
  also have "\<dots> = (Inr (user, st_access_token S (ur_id user), dr_raw w), ?s\<lparr>au_view := ?e, au_committed := ?e\<rparr>)"
    using rotate_token_won [OF _ claimable named, of H S "\<lambda>_. ?d" w now user] ok e by (simp add: auth_ok_def [of ?d] Let_def)
  finally have fin: "refresh H S (\<lambda>_. ?d) w now raw (open_auth d)
      = (Inr (user, st_access_token S (ur_id user), dr_raw w), ?s\<lparr>au_view := ?e, au_committed := ?e\<rparr>)" .
  have "token_by_hash (rt_token_hash ?n) ?e = Some ?n" by (rule token_by_hash_row [OF e]) simp
  then have "token_by_hash (hash_refresh_token H (dr_raw w)) ?e = Some ?n" by (simp add: successor_def)
  then show ?thesis
    using logout_alone [OF assms(1) r(1) assms(3), of now] fin all_revoked
    by (intro exI [of _ ?d] exI [of _ "(open_auth d)\<lparr>au_view := ?d, au_committed := ?d\<rparr>"]) (auto simp: successor_def)
qed

section \<open>Login and registration\<close>

definition credentials_valid :: "unicode \<Rightarrow> auth_settings \<Rightarrow> auth_db \<Rightarrow> string \<Rightarrow> string \<Rightarrow> bool" where
  "credentials_valid U S d email password \<longleftrightarrow> (case user_by_email (normalized_email U email) d of None \<Rightarrow> False
     | Some u \<Rightarrow> (case ur_password_hash u of None \<Rightarrow> False | Some h \<Rightarrow> st_verify_password S h password \<and> ur_is_active u))"

lemma open_login_result:
  "open_login H S w now user s =
     (let d = (au_view s)\<lparr>ad_tokens := ad_tokens (au_view s) @ [(successor H S w now undefined user)\<lparr>rt_family_id := dr_family w\<rparr>]\<rparr> in
      if auth_ok d then (Inr (user, st_access_token S (ur_id user), dr_raw w), s\<lparr>au_view := d, au_committed := d\<rparr>)
      else (Inl AuthIntegrityError, s\<lparr>au_view := au_committed s\<rparr>))"
  by (simp add: open_login_def issue_refresh_def action_defs au_edit_def au_commit_def successor_def Let_def)

lemma login_cases:
  "login U H S others w now email password (open_auth d) =
     (if credentials_valid U S d email password
      then open_login H S w now (the (user_by_email (normalized_email U email) d)) ((open_auth (others d))\<lparr>au_hash_checks := 1\<rparr>)
      else (Inl (AuthUnauthorized INVALID_CREDENTIALS), (open_auth d)\<lparr>au_hash_checks := 1\<rparr>))"
  unfolding login_def Let_def bindS_on_view credentials_valid_def
  by (auto simp: action_defs burn_password_check_def verify_password_def meanwhile_def open_auth_def split: option.split)

text \<open>
  Login failures are uniform. A login costs exactly one password verification, and every failing one, whether the address is
  unknown, the account has no password, the password is wrong or the account is disabled, has the same result and the same effect: the error,
  that one verification, nothing committed. With valid credentials it opens a session for the account of the normalized address.
\<close>

theorem login_uniform:
  "login U H S others w now email password (open_auth d) =
     (if credentials_valid U S d email password
      then open_login H S w now (the (user_by_email (normalized_email U email) d)) ((open_auth (others d))\<lparr>au_hash_checks := 1\<rparr>)
      else (Inl (AuthUnauthorized INVALID_CREDENTIALS), (open_auth d)\<lparr>au_hash_checks := 1\<rparr>))
   \<and> au_hash_checks (snd (login U H S others w now email password (open_auth d))) = 1"
  by (simp add: login_cases open_login_result Let_def)

definition may_register :: "auth_settings \<Rightarrow> string \<Rightarrow> auth_db \<Rightarrow> bool" where
  "may_register S email d \<longleftrightarrow> approval_for email d \<noteq> None \<or> st_app_env S = ''development'' \<or> real_user_count d = 0"

definition approval_of :: "auth_settings \<Rightarrow> drawn \<Rightarrow> string \<Rightarrow> auth_db \<Rightarrow> approval" where
  "approval_of S w email d = (case approval_for email d of
     Some a \<Rightarrow> Stored a
   | None \<Rightarrow> if st_app_env S = ''development''
       then Pending (new_approval (dr_approval w) email ''Auto-approved: local development (#384). Never happens outside APP_ENV=development.'' ''dev-bypass'')
       else Pending (new_approval (dr_approval w) email ''Auto-approved: first user on this instance becomes its owner (#388).'' ''first-user-bootstrap''))"

lemma require_approval_result:
  "require_approval S w email s = (if may_register S email (au_view s) then (Inr (approval_of S w email (au_view s)), s)
     else (Inl (AuthValidation EMAIL_NOT_APPROVED), s))"
  unfolding require_approval_def first_user_bootstrap_def bindS_on_view may_register_def approval_of_def
  by (auto simp: action_defs on_view_def split: option.split)

lemma register_with_cases:
  "register_with U H S others w now email h (open_auth d) =
     (let e = normalized_email U email in
      if user_by_email e d \<noteq> None then (Inl (AuthConflict EMAIL_EXISTS), open_auth d)
      else if \<not> may_register S e d then (Inl (AuthValidation EMAIL_NOT_APPROVED), open_auth d)
      else create_approved_user H S others w now \<lparr> ur_id = dr_user w, ur_email = e, ur_password_hash = h, ur_is_active = True \<rparr>
        (approval_of S w e d) (open_auth d))"
  by (simp add: register_with_def Let_def ensure_email_available_def on_view_def action_defs require_approval_result)

lemma user_by_email_Some: "user_by_email e d \<noteq> None \<longleftrightarrow> e \<in> ur_email ` set (ad_users d)"
  by (auto simp: user_by_email_def find_None_iff image_iff)

lemma create_raced:
  assumes "user_by_email (ur_email user) (others (au_committed s)) \<noteq> None"
  shows "create_approved_user H S others w now user a s
     = (Inl (AuthConflict EMAIL_EXISTS), s\<lparr>au_committed := others (au_committed s), au_view := others (au_committed s)\<rparr>)"
proof -
  have "\<not> auth_ok (insert_account user a (others (au_committed s)))"
    using assms unfolding user_by_email_Some by (auto simp: auth_ok_def insert_account_def)
  then show ?thesis
    using assms by (simp add: create_approved_user_def bindS_meanwhile)
      (simp add: bindS_def au_edit_def on_integrity_error_def au_flush_def conflict_or_reraise_def au_rollback_def on_view_def getS_def raiseS_def)
qed

definition stamped :: "string \<Rightarrow> instant \<Rightarrow> string \<Rightarrow> auth_db \<Rightarrow> auth_db" where
  "stamped aid now uid d = d\<lparr>ad_approved := map (\<lambda>a. if ae_id a = aid then a\<lparr>ae_used_at := Some now, ae_used_by_user_id := Some uid\<rparr> else a) (ad_approved d)\<rparr>"

lemma create_alone:
  assumes "auth_ok (insert_account user a d)" and "ae_id (approved a) \<in> set (map ae_id (ad_approved (insert_account user a d)))"
    and "auth_ok (stamped (ae_id (approved a)) now (ur_id user) (insert_account user a d))"
  shows "create_approved_user H S id w now user a (open_auth d)
     = open_login H S w now user (open_auth (stamped (ae_id (approved a)) now (ur_id user) (insert_account user a d)))"
  using assms
  by (simp add: create_approved_user_def bindS_meanwhile)
    (simp add: bindS_def au_edit_def on_integrity_error_def au_flush_def stamp_approval_def au_commit_def meanwhile_def open_auth_def stamped_def)

definition fresh_account :: "drawn \<Rightarrow> auth_db \<Rightarrow> bool" where
  "fresh_account w d \<longleftrightarrow> dr_user w \<notin> ur_id ` set (ad_users d) \<and> dr_approval w \<notin> ae_id ` set (ad_approved d)"

lemma approval_of_facts:
  shows "ae_email (approved (approval_of S w e d)) = e"
    and "approval_of S w e d = Stored a \<Longrightarrow> a \<in> set (ad_approved d)"
    and "approval_of S w e d = Pending a \<Longrightarrow> ae_id a = dr_approval w \<and> ae_used_by_user_id a = None \<and> e \<notin> ae_email ` set (ad_approved d)"
  by (auto simp: approval_of_def new_approval_def approval_for_def find_Some_iff find_None_iff split: option.splits if_splits)

lemma insert_account_ok:
  assumes "auth_ok d" and "fresh_account w d" and "user_by_email e d = None"
  shows "auth_ok (insert_account \<lparr> ur_id = dr_user w, ur_email = e, ur_password_hash = h, ur_is_active = True \<rparr> (approval_of S w e d) d)"
proof (cases "approval_of S w e d")
  case (Stored a)
  then show ?thesis
    using assms user_by_email_Some [of e d] by (auto simp: auth_ok_def insert_account_def fresh_account_def list_all_iff)
next
  case (Pending a)
  then show ?thesis
    using assms user_by_email_Some [of e d] approval_of_facts(1) [of S w e d] approval_of_facts(3) [OF Pending]
    by (auto simp: auth_ok_def insert_account_def fresh_account_def list_all_iff)
qed

lemma stamped_ok: "auth_ok d \<Longrightarrow> uid \<in> ur_id ` set (ad_users d) \<Longrightarrow> auth_ok (stamped aid now uid d)"
  by (auto simp: auth_ok_def stamped_def list_all_iff comp_def if_distrib [of ae_id] if_distrib [of ae_email] cong: if_cong)

lemma find_SomeD: "find P xs = Some x \<Longrightarrow> P x" "find P xs = Some x \<Longrightarrow> x \<in> set xs"
  by (auto simp: find_Some_iff)

lemma approval_stamped:
  assumes "auth_ok d" and "fresh_account w d"
  shows "\<exists>a. approval_for e (stamped (ae_id (approved (approval_of S w e d))) now uid (insert_account user (approval_of S w e d) d)) = Some a
    \<and> ae_used_by_user_id a = Some uid \<and> ae_used_at a = Some now"
proof -
  let ?p = "approval_of S w e d"
  let ?rows = "ad_approved (insert_account user ?p d)"
  let ?st = "\<lambda>a. if ae_id a = ae_id (approved ?p) then a\<lparr>ae_used_at := Some now, ae_used_by_user_id := Some uid\<rparr> else a"
  have mem: "approved ?p \<in> set ?rows" using approval_of_facts(2) [of S w e d] by (cases ?p) (auto simp: insert_account_def)
  have only: "a = approved ?p" if "a \<in> set ?rows" "ae_email a = e" for a
  proof (cases ?p)
    case (Stored b)
    then have "b \<in> set (ad_approved d)" "ae_email b = e" using approval_of_facts(2) [OF Stored] approval_of_facts(1) [of S w e d] by auto
    then show ?thesis using that assms(1) Stored by (auto simp: insert_account_def auth_ok_def distinct_map dest: inj_onD)
  next
    case (Pending b)
    then show ?thesis using that approval_of_facts(3) [OF Pending] by (auto simp: insert_account_def image_iff)
  qed
  have "approval_for e (stamped (ae_id (approved ?p)) now uid (insert_account user ?p d)) = find (\<lambda>a. ae_email a = e) (map ?st ?rows)"
    by (simp add: approval_for_def stamped_def)
  moreover have "find (\<lambda>a. ae_email a = e) (map ?st ?rows) \<noteq> None"
    using mem approval_of_facts(1) [of S w e d] by (auto simp: find_None_iff)
  ultimately obtain b where b0: "approval_for e (stamped (ae_id (approved ?p)) now uid (insert_account user ?p d)) = Some b"
    "find (\<lambda>a. ae_email a = e) (map ?st ?rows) = Some b"
    by (cases "find (\<lambda>a. ae_email a = e) (map ?st ?rows)") simp_all
  note b = b0(1) find_SomeD(2) [OF b0(2)] find_SomeD(1) [OF b0(2)]
  then obtain a where "a \<in> set ?rows" "b = ?st a" by auto
  moreover from this b(3) have "ae_email a = e" by (simp split: if_splits)
  ultimately show ?thesis using only b(1) by auto
qed

text \<open>
  Registration is gated. A taken address is a conflict and an address that nobody approved is rejected, each without any effect,
  unless the instance is a development one or has no real account yet; a registration that another one for the same address overtakes is a conflict
  and commits nothing of its own. Otherwise, undisturbed, it creates the account, stamps the approval of the address with it and opens one session for it.
\<close>

theorem registration_gate:
  assumes "e = normalized_email U email" and "r = register_with U H S others w now email h (open_auth d)"
  shows "(user_by_email e d \<noteq> None \<longrightarrow> r = (Inl (AuthConflict EMAIL_EXISTS), open_auth d))
    \<and> (user_by_email e d = None \<and> \<not> may_register S e d \<longrightarrow> r = (Inl (AuthValidation EMAIL_NOT_APPROVED), open_auth d))
    \<and> (user_by_email e d = None \<and> may_register S e d \<and> user_by_email e (others d) \<noteq> None
        \<longrightarrow> fst r = Inl (AuthConflict EMAIL_EXISTS) \<and> au_committed (snd r) = others d)
    \<and> (user_by_email e d = None \<and> may_register S e d \<and> others = id \<and> auth_ok d \<and> fresh_account w d \<and> unused_draws H w d
        \<longrightarrow> (\<exists>n a. fst r = Inr (\<lparr> ur_id = dr_user w, ur_email = e, ur_password_hash = h, ur_is_active = True \<rparr>, st_access_token S (dr_user w), dr_raw w)
          \<and> ad_users (au_committed (snd r)) = ad_users d @ [\<lparr> ur_id = dr_user w, ur_email = e, ur_password_hash = h, ur_is_active = True \<rparr>]
          \<and> approval_for e (au_committed (snd r)) = Some a \<and> ae_used_by_user_id a = Some (dr_user w) \<and> ae_used_at a = Some now
          \<and> ad_tokens (au_committed (snd r)) = ad_tokens d @ [n] \<and> rt_user_id n = dr_user w))"
proof -
  let ?u = "\<lparr> ur_id = dr_user w, ur_email = e, ur_password_hash = h, ur_is_active = True \<rparr>" and ?a = "approval_of S w e d"
  have r: "r = (if user_by_email e d \<noteq> None then (Inl (AuthConflict EMAIL_EXISTS), open_auth d)
      else if \<not> may_register S e d then (Inl (AuthValidation EMAIL_NOT_APPROVED), open_auth d)
      else create_approved_user H S others w now ?u ?a (open_auth d))"
    unfolding assms register_with_cases Let_def ..
  have raced: "create_approved_user H S others w now ?u ?a (open_auth d)
      = (Inl (AuthConflict EMAIL_EXISTS), (open_auth d)\<lparr>au_committed := others d, au_view := others d\<rparr>)" if "user_by_email e (others d) \<noteq> None"
    using create_raced [of ?u others "open_auth d" H S w now ?a] that by simp
  have alone: "\<exists>n a. fst r = Inr (?u, st_access_token S (dr_user w), dr_raw w) \<and> ad_users (au_committed (snd r)) = ad_users d @ [?u]
      \<and> approval_for e (au_committed (snd r)) = Some a \<and> ae_used_by_user_id a = Some (dr_user w) \<and> ae_used_at a = Some now
      \<and> ad_tokens (au_committed (snd r)) = ad_tokens d @ [n] \<and> rt_user_id n = dr_user w"
    if h: "user_by_email e d = None" "may_register S e d" "others = id" "auth_ok d" "fresh_account w d" "unused_draws H w d"
  proof -
    let ?i = "insert_account ?u ?a d" and ?n = "(successor H S w now undefined ?u)\<lparr>rt_family_id := dr_family w\<rparr>"
    let ?s = "stamped (ae_id (approved ?a)) now (dr_user w) ?i"
    have i: "auth_ok ?i" by (rule insert_account_ok [OF h(4,5,1)])
    then have s: "auth_ok ?s" by (rule stamped_ok) (simp add: insert_account_def)
    have "ae_id (approved ?a) \<in> set (map ae_id (ad_approved ?i))"
      using approval_of_facts(2) [of S w e d] by (cases ?a) (auto simp: insert_account_def)
    then have run: "r = open_login H S w now ?u (open_auth ?s)"
      unfolding r using h(1-3) create_alone [OF i, where H = H and S = S and w = w and now = now] s by simp
    have tabs: "ad_tokens ?s = ad_tokens d" "ad_users ?s = ad_users d @ [?u]" by (simp_all add: stamped_def insert_account_def)
    have "auth_ok (?s\<lparr>ad_tokens := ad_tokens ?s @ [?n]\<rparr>)"
      using s h(6) unfolding unused_draws_def by (auto simp: auth_ok_def tabs successor_def)
    then have fin: "r = (Inr (?u, st_access_token S (dr_user w), dr_raw w),
        (open_auth ?s)\<lparr>au_view := ?s\<lparr>ad_tokens := ad_tokens ?s @ [?n]\<rparr>, au_committed := ?s\<lparr>ad_tokens := ad_tokens ?s @ [?n]\<rparr>\<rparr>)"
      unfolding run open_login_result by (simp add: Let_def)
    have ap: "approval_for e (?s\<lparr>ad_tokens := ts\<rparr>) = approval_for e ?s" for ts by (simp add: approval_for_def)
    from approval_stamped [OF h(4,5), where e = e and S = S and now = now and uid = "dr_user w" and user = ?u]
    obtain a where "approval_for e ?s = Some a" "ae_used_by_user_id a = Some (dr_user w)" "ae_used_at a = Some now" by blast
    then show ?thesis unfolding fin by (intro exI [of _ ?n] exI [of _ a]) (simp add: ap tabs successor_def)
  qed
  show ?thesis using r raced alone by auto
qed

section \<open>Examples\<close>

definition sample_settings :: auth_settings where
  "sample_settings = \<lparr> st_app_env = ''production'', st_refresh_token_ttl_seconds = 60, st_access_token = (\<lambda>u. ''jwt:'' @ u),
     st_hash_password = (\<lambda>p. ''h:'' @ p), st_verify_password = (\<lambda>h p. h = ''h:'' @ p) \<rparr>"

definition sample_user :: user_row where
  "sample_user = \<lparr> ur_id = ''u1'', ur_email = ''a@x'', ur_password_hash = Some ''h:pw'', ur_is_active = True \<rparr>"

definition spent_token :: refresh_token where
  "spent_token = \<lparr> rt_id = ''t0'', rt_user_id = ''u1'', rt_token_hash = ''r0'', rt_family_id = ''f'', rt_expires_at = 100,
     rt_used_at = Some 1, rt_revoked_at = None \<rparr>"

definition live_token :: refresh_token where
  "live_token = \<lparr> rt_id = ''t1'', rt_user_id = ''u1'', rt_token_hash = ''r1'', rt_family_id = ''f'', rt_expires_at = 100,
     rt_used_at = None, rt_revoked_at = None \<rparr>"

definition sample_auth :: auth_db where
  "sample_auth = \<lparr> ad_users = [sample_user], ad_approved = [\<lparr> ae_id = ''a1'', ae_email = ''b@x'', ae_note = None, ae_added_by = None,
     ae_used_at = None, ae_used_by_user_id = None \<rparr>], ad_tokens = [spent_token, live_token] \<rparr>"

definition sample_draws :: drawn where
  "sample_draws = \<lparr> dr_raw = ''r2'', dr_id = ''t2'', dr_family = ''g'', dr_user = ''u2'', dr_approval = ''a2'' \<rparr>"

lemma sample_auth_ok: "auth_ok sample_auth" "chains sample_auth"
proof -
  show "auth_ok sample_auth" by code_simp
  show "chains sample_auth"
    by (simp add: chains_def chain_rows_def sample_auth_def spent_token_def live_token_def live_def family_user_def inj_on_def)
qed

lemma lawful_id: "lawful_others w id"
proof -
  have "family_user u = family_user t" if "auth_ok d" "t \<in> set (ad_tokens d)" "u \<in> set (ad_tokens d)" "rt_id u = rt_id t" for d t u
  proof -
    have "inj_on rt_id (set (ad_tokens d))" using that(1) by (simp add: auth_ok_def distinct_map)
    from inj_onD [OF this that(4,3,2)] have "u = t" .
    then show ?thesis by simp
  qed
  then show ?thesis unfolding lawful_others_def by (metis id_apply rtranclp.rtrancl_refl)
qed

abbreviation refreshed :: auth_db where
  "refreshed \<equiv> au_committed (snd (refresh id sample_settings id sample_draws 5 ''r1'' (open_auth sample_auth)))"

theorem auth_refines_protocol_witness: "session_step\<^sup>*\<^sup>* sample_auth refreshed"
proof -
  have "dr_family sample_draws \<noteq> []" "dr_family sample_draws \<notin> rt_family_id ` set (ad_tokens sample_auth)" by code_simp+
  then show ?thesis using auth_refines_protocol [OF lawful_id sample_auth_ok] by blast
qed

theorem one_live_token_per_family_witness:
  "rt_user_id live_token = rt_user_id (successor id sample_settings sample_draws 5 live_token sample_user)"
proof -
  have "auth_request ascii_unicode id sample_settings sample_auth refreshed" by (rule req_refresh [OF lawful_id])
  then have run: "(auth_request ascii_unicode id sample_settings)\<^sup>*\<^sup>* sample_auth refreshed" by (rule r_into_rtranclp)
  have "spent_token \<in> set (ad_tokens refreshed)"
    "successor id sample_settings sample_draws 5 live_token sample_user \<in> set (ad_tokens refreshed)"
    "rt_family_id spent_token = rt_family_id (successor id sample_settings sample_draws 5 live_token sample_user)" by code_simp+
  from one_live_token_per_family [OF run sample_auth_ok this]
  show ?thesis by (simp add: spent_token_def live_token_def)
qed


theorem rotation_survives_logout_witness:
  "\<exists>d'. fst (refresh id sample_settings (\<lambda>_. d') sample_draws 5 ''r1'' (open_auth sample_auth)) = Inr (sample_user, ''jwt:u1'', ''r2'')"
proof -
  have "token_by_hash (hash_refresh_token id ''r1'') sample_auth = Some live_token" "rt_revoked_at live_token = None"
    "rt_used_at live_token = None" "5 < rt_expires_at live_token" "user_by_id (rt_user_id live_token) sample_auth = Some sample_user"
    "ur_is_active sample_user" "unused_draws id sample_draws sample_auth" by code_simp+
  from rotation_survives_logout [OF sample_auth_ok _ this, of sample_settings]
  show ?thesis by (auto simp: sample_settings_def sample_user_def sample_draws_def)
qed

theorem registration_gate_witness:
  "fst (register_with ascii_unicode id sample_settings id sample_draws 5 '' B@x '' None (open_auth sample_auth))
     = Inr (\<lparr> ur_id = ''u2'', ur_email = ''b@x'', ur_password_hash = None, ur_is_active = True \<rparr>, ''jwt:u2'', ''r2'')
   \<and> fst (register_with ascii_unicode id sample_settings id sample_draws 5 ''c@x'' None (open_auth sample_auth)) = Inl (AuthValidation EMAIL_NOT_APPROVED)"
proof -
  have b: "normalized_email ascii_unicode '' B@x '' = ''b@x''" "normalized_email ascii_unicode ''c@x'' = ''c@x''" by code_simp+
  have "user_by_email ''b@x'' sample_auth = None" "may_register sample_settings ''b@x'' sample_auth" "fresh_account sample_draws sample_auth"
    "unused_draws id sample_draws sample_auth" "user_by_email ''c@x'' sample_auth = None" "\<not> may_register sample_settings ''c@x'' sample_auth"
    by code_simp+
  moreover have "dr_user sample_draws = ''u2''" "dr_raw sample_draws = ''r2''" "st_access_token sample_settings ''u2'' = ''jwt:u2''" by code_simp+
  ultimately show ?thesis
    using registration_gate [OF b(1) [symmetric] refl, where H = id and S = sample_settings and others = id and w = sample_draws and now = 5 and h = None and d = sample_auth]
      registration_gate [OF b(2) [symmetric] refl, where H = id and S = sample_settings and others = id and w = sample_draws and now = 5 and h = None and d = sample_auth]
      sample_auth_ok(1)
    by fastforce
qed

end
