(* ===== verification/Oauth_Service.thy ===== *)
theory Oauth_Service
  imports Auth_Service
begin

text \<open>
  Sign-in and account linking through external providers (\<^verbatim>\<open>app/services/oauth_service.py\<close>), on the tables of identities, flows and
  pending links beside those of accounts and sessions.

  The provider clients (token exchange, signature checks) are a parameter: a client either gives the identity it verified or raises. As in \<open>Auth_Service\<close>, \<^verbatim>\<open>others\<close> is
  what other requests commit where a request has read and not yet written.
\<close>

section \<open>Model\<close>

subsection \<open>Tables\<close>

datatype flow_intent = LoginIntent | LinkIntent

record oauth_identity =
  oi_id :: string
  oi_user_id :: string
  oi_provider :: string
  oi_subject :: string
  oi_email :: "string option"
  oi_created_at :: instant

record oauth_flow =
  fl_id :: string
  fl_state_hash :: string
  fl_provider :: string
  fl_code_verifier :: string
  fl_nonce :: string
  fl_intent :: flow_intent
  fl_link_user_id :: "string option"
  fl_redirect_base :: string
  fl_created_at :: instant
  fl_expires_at :: instant

record oauth_pending =
  pk_id :: string
  pk_provider :: string
  pk_subject :: string
  pk_email :: string
  pk_display_name :: "string option"
  pk_created_at :: instant
  pk_expires_at :: instant

record oauth_db =
  od_auth :: auth_db
  od_identities :: "oauth_identity list"
  od_flows :: "oauth_flow list"
  od_pendings :: "oauth_pending list"

abbreviation od_users :: "oauth_db \<Rightarrow> user_row list" where
  "od_users d \<equiv> ad_users (od_auth d)"

definition oauth_ok :: "oauth_db \<Rightarrow> bool" where
  "oauth_ok d \<longleftrightarrow> auth_ok (od_auth d)
     \<and> distinct (map oi_id (od_identities d))
     \<and> distinct (map (\<lambda>i. (oi_provider i, oi_subject i)) (od_identities d))
     \<and> distinct (map (\<lambda>i. (oi_provider i, oi_user_id i)) (od_identities d))
     \<and> list_all (\<lambda>i. oi_user_id i \<in> set (map ur_id (od_users d))) (od_identities d)
     \<and> distinct (map fl_id (od_flows d)) \<and> distinct (map fl_state_hash (od_flows d))
     \<and> list_all (\<lambda>f. set_option (fl_link_user_id f) \<subseteq> set (map ur_id (od_users d))) (od_flows d)
     \<and> distinct (map pk_id (od_pendings d))"

datatype oauth_error = AuthE auth_error | OauthNotFound string

definition INVALID_OAUTH_STATE :: string where
  "INVALID_OAUTH_STATE = ''This sign-in link has expired or was already used. Please try again.''"
definition PROVIDER_UNAVAILABLE :: string where
  "PROVIDER_UNAVAILABLE = ''This sign-in method isn'' @ [CHR 0x27] @ ''t available right now.''"
definition ALREADY_LINKED :: string where
  "ALREADY_LINKED = ''This provider account is already linked to a different account.''"
definition ONLY_WAY_IN :: string where
  "ONLY_WAY_IN = ''This is your only way to sign in to this account. Link another provider before removing it.''"

definition FLOW_TTL_SECONDS :: int where "FLOW_TTL_SECONDS = 600"
definition PENDING_LINK_TTL_SECONDS :: int where "PENDING_LINK_TTL_SECONDS = 600"

subsection \<open>The session\<close>

record oauth_session =
  oa_committed :: oauth_db
  oa_view :: oauth_db
  oa_hash_checks :: nat

type_synonym 'a oauth_action = "(oauth_session, oauth_error, 'a) action"

definition open_oauth :: "oauth_db \<Rightarrow> oauth_session" where
  "open_oauth d = \<lparr> oa_committed = d, oa_view = d, oa_hash_checks = 0 \<rparr>"

definition on_odb :: "(oauth_db \<Rightarrow> 'a) \<Rightarrow> 'a oauth_action" where
  "on_odb f = getS (\<lambda>s. f (oa_view s))"

definition oa_edit :: "(oauth_db \<Rightarrow> oauth_db) \<Rightarrow> unit oauth_action" where
  "oa_edit f s = (Inr (), s\<lparr>oa_view := f (oa_view s)\<rparr>)"

definition oa_commit :: "unit oauth_action" where
  "oa_commit s = (if oauth_ok (oa_view s) then (Inr (), s\<lparr>oa_committed := oa_view s\<rparr>)
     else (Inl (AuthE AuthIntegrityError), s\<lparr>oa_view := oa_committed s\<rparr>))"

definition oa_meanwhile :: "(oauth_db \<Rightarrow> oauth_db) \<Rightarrow> unit oauth_action" where
  "oa_meanwhile others s = (Inr (), s\<lparr>oa_committed := others (oa_committed s), oa_view := others (oa_committed s)\<rparr>)"

text \<open>
  A call of the account service on the same session. It is only called with nothing pending in the tables of this module, so
  its commits write the account tables only.
\<close>

definition on_auth :: "'a auth_action \<Rightarrow> 'a oauth_action" where
  "on_auth m s = (case m \<lparr> au_committed = od_auth (oa_committed s), au_view = od_auth (oa_view s), au_hash_checks = oa_hash_checks s \<rparr> of
     (r, a) \<Rightarrow> (map_sum AuthE id r, s\<lparr> oa_committed := (oa_committed s)\<lparr>od_auth := au_committed a\<rparr>,
       oa_view := (oa_view s)\<lparr>od_auth := au_view a\<rparr>, oa_hash_checks := au_hash_checks a \<rparr>))"

text \<open>\<^verbatim>\<open>try: ... except E: handler\<close> on the whole result.\<close>

definition recover :: "'a oauth_action \<Rightarrow> (oauth_error \<Rightarrow> 'b oauth_action) \<Rightarrow> ('a \<Rightarrow> 'b oauth_action) \<Rightarrow> 'b oauth_action" where
  "recover m handler k s = (case m s of (Inl e, s') \<Rightarrow> handler e s' | (Inr x, s') \<Rightarrow> k x s')"

subsection \<open>Providers\<close>

record identity_info =
  ii_subject :: string
  ii_email :: "string option"
  ii_email_verified :: bool
  ii_display_name :: "string option"

text \<open>A client: whether it is configured, the URL it sends the browser to, and the identity behind a code (\<^term>\<open>None\<close>: it raised).\<close>

record provider_client =
  pv_is_configured :: bool
  pv_authorize_url :: "string \<Rightarrow> string \<Rightarrow> string \<Rightarrow> string \<Rightarrow> string"
  pv_resolve_identity :: "string \<Rightarrow> string \<Rightarrow> string \<Rightarrow> string \<Rightarrow> identity_info option"

record oauth_env =
  oe_unicode :: unicode
  oe_digest :: digest
  oe_settings :: auth_settings
  oe_public_base_url :: string
  oe_providers :: "(string \<times> provider_client) list"

definition configured_providers :: "oauth_env \<Rightarrow> string list" where
  "configured_providers E = map fst (filter (pv_is_configured \<circ> snd) (oe_providers E))"

definition redirect_uri :: "oauth_env \<Rightarrow> string \<Rightarrow> string" where
  "redirect_uri E provider = List.rev (dropWhile (\<lambda>c. c = CHR ''/'') (List.rev (oe_public_base_url E)))
     @ ''/auth/oauth/'' @ provider @ ''/callback''"

definition require_client :: "oauth_env \<Rightarrow> string \<Rightarrow> oauth_error + provider_client" where
  "require_client E provider = (case map_of (oe_providers E) provider of
     Some client \<Rightarrow> if pv_is_configured client then Inr client else Inl (AuthE (AuthValidation PROVIDER_UNAVAILABLE))
   | None \<Rightarrow> Inl (AuthE (AuthValidation PROVIDER_UNAVAILABLE)))"

text \<open>Random values of one request.\<close>

record oauth_drawn =
  ow_auth :: drawn
  ow_state :: string
  ow_verifier :: string
  ow_challenge :: string
  ow_nonce :: string
  ow_flow :: string
  ow_identity :: string
  ow_pending :: string

subsection \<open>Starting a flow\<close>

definition hash_state :: "digest \<Rightarrow> string \<Rightarrow> string" where
  "hash_state H raw = hash_refresh_token H raw"

definition new_flow :: "oauth_env \<Rightarrow> oauth_drawn \<Rightarrow> instant \<Rightarrow> string \<Rightarrow> flow_intent \<Rightarrow> string \<Rightarrow> string option \<Rightarrow> oauth_flow" where
  "new_flow E w now provider intent redirect_base link_user_id =
     \<lparr> fl_id = ow_flow w, fl_state_hash = hash_state (oe_digest E) (ow_state w), fl_provider = provider, fl_code_verifier = ow_verifier w,
       fl_nonce = ow_nonce w, fl_intent = intent, fl_link_user_id = link_user_id, fl_redirect_base = redirect_base,
       fl_created_at = now, fl_expires_at = now + seconds FLOW_TTL_SECONDS \<rparr>"

definition start_flow :: "oauth_env \<Rightarrow> oauth_drawn \<Rightarrow> instant \<Rightarrow> string \<Rightarrow> flow_intent \<Rightarrow> string \<Rightarrow> string option \<Rightarrow> string oauth_action" where
  "start_flow E w now provider intent redirect_base link_user_id =
     bindS (liftS (require_client E provider)) (\<lambda>client.
     bindS (oa_edit (\<lambda>d. d\<lparr>od_flows := od_flows d @ [new_flow E w now provider intent redirect_base link_user_id]\<rparr>)) (\<lambda>_.
     bindS oa_commit (\<lambda>_.
     returnS (pv_authorize_url client (redirect_uri E provider) (ow_state w) (ow_challenge w) (ow_nonce w)))))"

subsection \<open>Completing a flow\<close>

datatype login_result =
    SessionResult opened
  | LinkedResult user_row
  | PendingResult string
  | ErrorResult string

definition identity_for :: "string \<Rightarrow> string \<Rightarrow> oauth_db \<Rightarrow> oauth_identity option" where
  "identity_for provider subject d = find (\<lambda>i. oi_provider i = provider \<and> oi_subject i = subject) (od_identities d)"

definition oauth_user :: "string \<Rightarrow> oauth_db \<Rightarrow> user_row option" where
  "oauth_user uid d = user_by_id uid (od_auth d)"

definition oauth_user_by_email :: "string \<Rightarrow> oauth_db \<Rightarrow> user_row option" where
  "oauth_user_by_email email d = user_by_email email (od_auth d)"

definition add_identity :: "oauth_drawn \<Rightarrow> instant \<Rightarrow> string \<Rightarrow> string \<Rightarrow> string \<Rightarrow> string option \<Rightarrow> oauth_db \<Rightarrow> oauth_db" where
  "add_identity w now uid provider subject email d = d\<lparr>od_identities := od_identities d @
     [\<lparr> oi_id = ow_identity w, oi_user_id = uid, oi_provider = provider, oi_subject = subject, oi_email = email, oi_created_at = now \<rparr>]\<rparr>"

definition add_pending :: "oauth_drawn \<Rightarrow> instant \<Rightarrow> string \<Rightarrow> identity_info \<Rightarrow> string \<Rightarrow> oauth_db \<Rightarrow> oauth_db" where
  "add_pending w now provider info email d = d\<lparr>od_pendings := od_pendings d @
     [\<lparr> pk_id = ow_pending w, pk_provider = provider, pk_subject = ii_subject info, pk_email = email,
        pk_display_name = ii_display_name info, pk_created_at = now, pk_expires_at = now + seconds PENDING_LINK_TTL_SECONDS \<rparr>]\<rparr>"

text \<open>The address the provider vouches for.\<close>

definition verified_email :: "identity_info \<Rightarrow> string option" where
  "verified_email info = (case ii_email info of None \<Rightarrow> None
     | Some e \<Rightarrow> if e \<noteq> [] \<and> ii_email_verified info then Some e else None)"

text \<open>An account is created only behind the approval list, and its identity is recorded in a second transaction.\<close>

definition create_from_identity :: "oauth_env \<Rightarrow> (auth_db \<Rightarrow> auth_db) \<Rightarrow> (oauth_db \<Rightarrow> oauth_db) \<Rightarrow> oauth_drawn \<Rightarrow> instant \<Rightarrow> string \<Rightarrow> identity_info \<Rightarrow> login_result oauth_action" where
  "create_from_identity E others_auth others w now provider info = (case verified_email info of
       None \<Rightarrow> returnS (ErrorResult ''email_not_approved'')
     | Some email \<Rightarrow> recover (on_auth (register_oauth_user (oe_unicode E) (oe_digest E) (oe_settings E) others_auth (ow_auth w) now email))
         (\<lambda>e. case e of
             AuthE (AuthValidation m) \<Rightarrow> returnS (ErrorResult ''email_not_approved'')
           | AuthE (AuthConflict m) \<Rightarrow> returnS (ErrorResult ''email_already_registered'')
           | e' \<Rightarrow> raiseS e')
         (\<lambda>opened. bindS (oa_meanwhile others) (\<lambda>_.
           bindS (oa_edit (add_identity w now (ur_id (fst opened)) provider (ii_subject info) (ii_email info))) (\<lambda>_.
           bindS oa_commit (\<lambda>_. returnS (SessionResult opened))))))"

definition complete_login :: "oauth_env \<Rightarrow> (auth_db \<Rightarrow> auth_db) \<Rightarrow> (oauth_db \<Rightarrow> oauth_db) \<Rightarrow> oauth_drawn \<Rightarrow> instant \<Rightarrow> string \<Rightarrow> identity_info \<Rightarrow> login_result oauth_action" where
  "complete_login E others_auth others w now provider info =
     bindS (on_odb (identity_for provider (ii_subject info))) (\<lambda>existing. case existing of
       Some i \<Rightarrow> bindS (on_odb (oauth_user (oi_user_id i))) (\<lambda>user.
         if user = None \<or> \<not> ur_is_active (the user) \<or> ur_id (the user) = SEED_USER_ID
         then returnS (ErrorResult ''account_unavailable'')
         else bindS (oa_meanwhile others) (\<lambda>_.
           bindS (on_auth (open_login (oe_digest E) (oe_settings E) (ow_auth w) now (the user))) (\<lambda>opened.
           returnS (SessionResult opened))))
     | None \<Rightarrow> bindS (on_odb (\<lambda>d. Option.bind (verified_email info) (\<lambda>e. oauth_user_by_email (normalized_email (oe_unicode E) e) d))) (\<lambda>matched.
         if matched \<noteq> None \<and> ur_id (the matched) \<noteq> SEED_USER_ID
         then bindS (oa_meanwhile others) (\<lambda>_.
           bindS (oa_edit (add_pending w now provider info (ur_email (the matched)))) (\<lambda>_.
           bindS oa_commit (\<lambda>_. returnS (PendingResult (ow_pending w)))))
         else create_from_identity E others_auth others w now provider info))"

definition complete_link :: "(oauth_db \<Rightarrow> oauth_db) \<Rightarrow> oauth_drawn \<Rightarrow> instant \<Rightarrow> string \<Rightarrow> identity_info \<Rightarrow> string option \<Rightarrow> login_result oauth_action" where
  "complete_link others w now provider info link_user_id =
     (if link_user_id = None \<or> link_user_id = Some [] then returnS (ErrorResult ''missing_link_target'')
      else bindS (on_odb (oauth_user (the link_user_id))) (\<lambda>user.
        if user = None \<or> \<not> ur_is_active (the user) then returnS (ErrorResult ''account_unavailable'')
        else bindS (oa_meanwhile others) (\<lambda>_.
          bindS (oa_edit (add_identity w now (ur_id (the user)) provider (ii_subject info) (ii_email info))) (\<lambda>_.
          recover oa_commit
            (\<lambda>e. if e = AuthE AuthIntegrityError then returnS (ErrorResult ''already_linked'') else raiseS e)
            (\<lambda>_. returnS (LinkedResult (the user)))))))"

definition flow_by_hash :: "string \<Rightarrow> oauth_db \<Rightarrow> oauth_flow option" where
  "flow_by_hash h d = find (\<lambda>f. fl_state_hash f = h) (od_flows d)"

text \<open>
  \<^verbatim>\<open>db.delete(flow)\<close> by primary key; that the row is already gone is only a warning.
\<close>

definition delete_flow :: "oauth_flow \<Rightarrow> oauth_db \<Rightarrow> oauth_db" where
  "delete_flow f d = d\<lparr>od_flows := filter (\<lambda>g. fl_id g \<noteq> fl_id f) (od_flows d)\<rparr>"

definition resolve_callback :: "oauth_env \<Rightarrow> (auth_db \<Rightarrow> auth_db) \<Rightarrow> (oauth_db \<Rightarrow> oauth_db) \<Rightarrow> oauth_drawn \<Rightarrow> instant \<Rightarrow> string \<Rightarrow> oauth_flow \<Rightarrow> string option \<Rightarrow> login_result oauth_action" where
  "resolve_callback E others_auth others w now provider flow code =
     (if code = None \<or> code = Some [] then returnS (ErrorResult ''missing_code'')
      else case require_client E provider of
        Inl _ \<Rightarrow> returnS (ErrorResult ''provider_unavailable'')
      | Inr client \<Rightarrow> (case pv_resolve_identity client (the code) (redirect_uri E provider) (fl_code_verifier flow) (fl_nonce flow) of
          None \<Rightarrow> returnS (ErrorResult ''exchange_failed'')
        | Some info \<Rightarrow> (case fl_intent flow of
              LinkIntent \<Rightarrow> complete_link others w now provider info (fl_link_user_id flow)
            | LoginIntent \<Rightarrow> complete_login E others_auth others w now provider info)))"

text \<open>\<^verbatim>\<open>rivals\<close> is what other requests commit between the read of the flow and its deletion.\<close>

definition complete_callback :: "oauth_env \<Rightarrow> (oauth_db \<Rightarrow> oauth_db) \<Rightarrow> (auth_db \<Rightarrow> auth_db) \<Rightarrow> (oauth_db \<Rightarrow> oauth_db) \<Rightarrow> oauth_drawn \<Rightarrow> instant
    \<Rightarrow> string \<Rightarrow> string \<Rightarrow> string option \<Rightarrow> string option \<Rightarrow> (string \<times> login_result) oauth_action" where
  "complete_callback E rivals others_auth others w now provider state code provider_error =
     bindS (on_odb (flow_by_hash (hash_state (oe_digest E) state))) (\<lambda>found.
       if found = None \<or> fl_expires_at (the found) \<le> now then raiseS (AuthE (AuthValidation INVALID_OAUTH_STATE))
       else bindS (oa_meanwhile rivals) (\<lambda>_.
         bindS (oa_edit (delete_flow (the found))) (\<lambda>_.
         bindS oa_commit (\<lambda>_.
         bindS (oa_meanwhile others) (\<lambda>_.
         bindS (case provider_error of
             Some e \<Rightarrow> returnS (ErrorResult e)
           | None \<Rightarrow> resolve_callback E others_auth others w now provider (the found) code) (\<lambda>result.
         returnS (fl_redirect_base (the found), result)))))))"

subsection \<open>Confirming and removing links\<close>

definition pending_by_id :: "string \<Rightarrow> oauth_db \<Rightarrow> oauth_pending option" where
  "pending_by_id pid d = find (\<lambda>p. pk_id p = pid) (od_pendings d)"

definition delete_pending :: "oauth_pending \<Rightarrow> oauth_db \<Rightarrow> oauth_db" where
  "delete_pending p d = d\<lparr>od_pendings := filter (\<lambda>q. pk_id q \<noteq> pk_id p) (od_pendings d)\<rparr>"

definition confirm_pending_link :: "oauth_env \<Rightarrow> (oauth_db \<Rightarrow> oauth_db) \<Rightarrow> oauth_drawn \<Rightarrow> instant \<Rightarrow> string \<Rightarrow> string \<Rightarrow> opened oauth_action" where
  "confirm_pending_link E others w now pending_link_id password =
     (let invalid = raiseS (AuthE (AuthUnauthorized INVALID_OAUTH_STATE)) in
      bindS (on_odb (pending_by_id pending_link_id)) (\<lambda>pending.
        if pending = None \<or> pk_expires_at (the pending) \<le> now then bindS (on_auth (burn_password_check password)) (\<lambda>_. invalid)
        else bindS (on_odb (oauth_user_by_email (pk_email (the pending)))) (\<lambda>user.
          if user = None \<or> ur_password_hash (the user) = None then bindS (on_auth (burn_password_check password)) (\<lambda>_. invalid)
          else bindS (on_auth (verify_password (oe_settings E) (the (ur_password_hash (the user))) password)) (\<lambda>ok.
            if \<not> ok \<or> \<not> ur_is_active (the user) then invalid
            else bindS (oa_meanwhile others) (\<lambda>_.
              bindS (oa_edit (add_identity w now (ur_id (the user)) (pk_provider (the pending)) (pk_subject (the pending)) (Some (pk_email (the pending))))) (\<lambda>_.
              bindS (oa_edit (delete_pending (the pending))) (\<lambda>_.
              recover oa_commit
                (\<lambda>e. if e = AuthE AuthIntegrityError then raiseS (AuthE (AuthConflict ALREADY_LINKED)) else raiseS e)
                (\<lambda>_. on_auth (open_login (oe_digest E) (oe_settings E) (ow_auth w) now (the user))))))))))"

definition linked_identities :: "string \<Rightarrow> oauth_db \<Rightarrow> oauth_identity list" where
  "linked_identities uid d = filter (\<lambda>i. oi_user_id i = uid) (od_identities d)"

definition unlink :: "(oauth_db \<Rightarrow> oauth_db) \<Rightarrow> user_row \<Rightarrow> string \<Rightarrow> unit oauth_action" where
  "unlink others user provider =
     bindS (on_odb (\<lambda>d. find (\<lambda>i. oi_provider i = provider) (linked_identities (ur_id user) d))) (\<lambda>identity. case identity of
       None \<Rightarrow> raiseS (OauthNotFound (''No linked '' @ provider @ '' account.''))
     | Some i \<Rightarrow> bindS (on_odb (\<lambda>d. find (\<lambda>i. oi_provider i \<noteq> provider) (linked_identities (ur_id user) d))) (\<lambda>remaining.
         if ur_password_hash user = None \<and> remaining = None then raiseS (AuthE (AuthValidation ONLY_WAY_IN))
         else bindS (oa_meanwhile others) (\<lambda>_.
           bindS (oa_edit (\<lambda>d. d\<lparr>od_identities := filter (\<lambda>j. oi_id j \<noteq> oi_id i) (od_identities d)\<rparr>)) (\<lambda>_. oa_commit))))"

section \<open>Running the requests\<close>

lemma bindS_on_odb: "bindS (on_odb f) g s = g (f (oa_view s)) s"
  by (simp add: on_odb_def action_defs)

lemma bindS_oa_edit: "bindS (oa_edit f) g s = g () (s\<lparr>oa_view := f (oa_view s)\<rparr>)"
  by (simp add: oa_edit_def action_defs)

lemma bindS_oa_meanwhile: "bindS (oa_meanwhile others) g s = g () (s\<lparr>oa_committed := others (oa_committed s), oa_view := others (oa_committed s)\<rparr>)"
  by (simp add: oa_meanwhile_def action_defs)

lemma bindS_Inr_iff: "bindS m f s = (Inr x, s') \<longleftrightarrow> (\<exists>y s1. m s = (Inr y, s1) \<and> f y s1 = (Inr x, s'))"
  by (auto simp: bindS_def split: prod.splits sum.splits)

lemma open_oauth_views [simp]: "oa_view (open_oauth d) = d" "oa_committed (open_oauth d) = d" "oa_hash_checks (open_oauth d) = 0"
  by (simp_all add: open_oauth_def)

lemmas step_simps = bindS_on_odb bindS_oa_edit bindS_oa_meanwhile

text \<open>The other tables are untouched by the account service.\<close>

lemma on_auth_tables:
  assumes "on_auth m s = (r, s')"
  shows "od_identities (oa_committed s') = od_identities (oa_committed s)" "od_flows (oa_committed s') = od_flows (oa_committed s)"
    "od_pendings (oa_committed s') = od_pendings (oa_committed s)"
  using assms by (auto simp: on_auth_def split: prod.splits)

lemma find_identity: "identity_for p q d = Some i \<Longrightarrow> i \<in> set (od_identities d) \<and> oi_provider i = p \<and> oi_subject i = q"
  using find_SomeD [of "\<lambda>i. oi_provider i = p \<and> oi_subject i = q" "od_identities d" i] by (simp add: identity_for_def)

lemma open_login_user: "open_login H S w now user s = (Inr (u, tok, raw), s') \<Longrightarrow> u = user"
  by (simp add: open_login_result Let_def split: if_splits)

lemma on_auth_Inr_iff: "on_auth m s = (Inr x, s') \<longleftrightarrow> (\<exists>a. m \<lparr> au_committed = od_auth (oa_committed s), au_view = od_auth (oa_view s),
      au_hash_checks = oa_hash_checks s \<rparr> = (Inr x, a)
    \<and> s' = s\<lparr> oa_committed := (oa_committed s)\<lparr>od_auth := au_committed a\<rparr>, oa_view := (oa_view s)\<lparr>od_auth := au_view a\<rparr>,
      oa_hash_checks := au_hash_checks a \<rparr>)"
  by (auto simp: on_auth_def map_sum_def split: prod.splits sum.splits)

lemma create_user_result: "create_approved_user H S others w now user approval s = (Inr (u, tok, raw), s') \<Longrightarrow> u = user"
  unfolding create_approved_user_def bindS_Inr_iff
  by (elim exE conjE) (rule open_login_user [where s' = s'], assumption)

lemma register_result:
  assumes "register_oauth_user U H S others w now email (open_auth d) = (Inr (u, tok, raw), s')"
  defines "e \<equiv> normalized_email U email"
  shows "user_by_email e d = None" "may_register S e d"
    "u = \<lparr> ur_id = dr_user w, ur_email = e, ur_password_hash = None, ur_is_active = True \<rparr>"
  using assms create_user_result unfolding register_oauth_user_def register_with_cases Let_def
  by (fastforce split: if_splits)+

section \<open>Signing in\<close>

lemma login_cases_session:
  assumes "complete_login E others_auth others w now provider info (open_oauth d) = (Inr (SessionResult (u, tok, raw)), s')"
  shows "(\<exists>i \<in> set (od_identities d). oi_provider i = provider \<and> oi_subject i = ii_subject info \<and> oi_user_id i = ur_id u
      \<and> u \<in> set (od_users d) \<and> ur_is_active u \<and> ur_id u \<noteq> SEED_USER_ID)
    \<or> identity_for provider (ii_subject info) d = None \<and> (\<exists>email e. verified_email info = Some email
      \<and> e = normalized_email (oe_unicode E) email \<and> oauth_user_by_email e d = None \<and> may_register (oe_settings E) e (od_auth d)
      \<and> u = \<lparr> ur_id = dr_user (ow_auth w), ur_email = e, ur_password_hash = None, ur_is_active = True \<rparr>)"
proof (cases "identity_for provider (ii_subject info) d")
  case (Some i)
  then obtain user where user: "oauth_user (oi_user_id i) d = Some user" "ur_is_active user" "ur_id user \<noteq> SEED_USER_ID"
    and run: "on_auth (open_login (oe_digest E) (oe_settings E) (ow_auth w) now user)
      ((open_oauth d)\<lparr>oa_committed := others d, oa_view := others d\<rparr>) = (Inr (u, tok, raw), s')"
    using assms by (auto simp: complete_login_def step_simps returnS_def bindS_Inr_iff split: if_splits)
  from run have "u = user" unfolding on_auth_Inr_iff using open_login_user by blast
  moreover have "user \<in> set (od_users d)" "ur_id user = oi_user_id i"
    using user(1) user_by_id_Some by (simp_all add: oauth_user_def)
  ultimately show ?thesis using user find_identity [OF Some] by auto
next
  case None
  then have "create_from_identity E others_auth others w now provider info (open_oauth d) = (Inr (SessionResult (u, tok, raw)), s')"
    using assms by (auto simp: complete_login_def step_simps returnS_def bindS_Inr_iff split: if_splits)
  then obtain email o1 s1 where email: "verified_email info = Some email"
    and run: "on_auth (register_oauth_user (oe_unicode E) (oe_digest E) (oe_settings E) others_auth (ow_auth w) now email) (open_oauth d) = (Inr o1, s1)"
    and o1: "o1 = (u, tok, raw)"
    by (auto simp: create_from_identity_def recover_def step_simps returnS_def raiseS_def bindS_Inr_iff
      split: option.splits prod.splits sum.splits oauth_error.splits auth_error.splits)
  from run o1 obtain a where "register_oauth_user (oe_unicode E) (oe_digest E) (oe_settings E) others_auth (ow_auth w) now email (open_auth (od_auth d))
      = (Inr (u, tok, raw), a)"
    by (auto simp: on_auth_Inr_iff open_auth_def)
  from register_result [OF this] show ?thesis using None email by (simp add: oauth_user_by_email_def)
qed
text \<open>
  C36: No silent merge. A sign-in through a provider opens a session for an existing account only if that account has the identity the
  provider vouched for linked already (by provider and subject, never by address) and is active and real. The only other session it opens is for
  the account it creates in the same request: without a password, for the normalized address the provider verified, which no account had
  and which the approval list (or the exceptions of the list) admits.
\<close>

theorem sign_in_needs_identity_or_approval:
  assumes "complete_login E others_auth others w now provider info (open_oauth d) = (Inr (SessionResult (u, tok, raw)), s')"
  shows "(\<exists>i \<in> set (od_identities d). oi_provider i = provider \<and> oi_subject i = ii_subject info \<and> oi_user_id i = ur_id u
      \<and> u \<in> set (od_users d) \<and> ur_is_active u \<and> ur_id u \<noteq> SEED_USER_ID)
    \<or> identity_for provider (ii_subject info) d = None \<and> (\<exists>email e. verified_email info = Some email
      \<and> e = normalized_email (oe_unicode E) email \<and> oauth_user_by_email e d = None \<and> may_register (oe_settings E) e (od_auth d)
      \<and> u = \<lparr> ur_id = dr_user (ow_auth w), ur_email = e, ur_password_hash = None, ur_is_active = True \<rparr>)"
  by (rule login_cases_session [OF assms])

section \<open>Confirming a link\<close>

text \<open>The pending link and the account behind it that the password confirms.\<close>

definition confirmable :: "oauth_env \<Rightarrow> oauth_db \<Rightarrow> instant \<Rightarrow> string \<Rightarrow> string \<Rightarrow> (oauth_pending \<times> user_row) option" where
  "confirmable E d now pid password = (case pending_by_id pid d of
     None \<Rightarrow> None
   | Some p \<Rightarrow> if pk_expires_at p \<le> now then None else (case oauth_user_by_email (pk_email p) d of
       None \<Rightarrow> None
     | Some u \<Rightarrow> (case ur_password_hash u of
         None \<Rightarrow> None
       | Some h \<Rightarrow> if st_verify_password (oe_settings E) h password \<and> ur_is_active u then Some (p, u) else None)))"

definition confirmed :: "oauth_drawn \<Rightarrow> instant \<Rightarrow> oauth_pending \<Rightarrow> user_row \<Rightarrow> oauth_db \<Rightarrow> oauth_db" where
  "confirmed w now p u d = delete_pending p (add_identity w now (ur_id u) (pk_provider p) (pk_subject p) (Some (pk_email p)) d)"

lemma on_auth_checks:
  "on_auth (burn_password_check password) s = (Inr (), s\<lparr>oa_hash_checks := Suc (oa_hash_checks s)\<rparr>)"
  "on_auth (verify_password S h password) s = (Inr (st_verify_password S h password), s\<lparr>oa_hash_checks := Suc (oa_hash_checks s)\<rparr>)"
  by (simp_all add: on_auth_def burn_password_check_def verify_password_def)

lemma bindS_checks:
  "bindS (on_auth (burn_password_check password)) f s = f () (s\<lparr>oa_hash_checks := Suc (oa_hash_checks s)\<rparr>)"
  "bindS (on_auth (verify_password S h password)) g s = g (st_verify_password S h password) (s\<lparr>oa_hash_checks := Suc (oa_hash_checks s)\<rparr>)"
  by (simp_all add: bindS_def on_auth_checks)

lemma confirm_cases:
  "confirm_pending_link E others w now pid password (open_oauth d) = (case confirmable E d now pid password of
       None \<Rightarrow> (Inl (AuthE (AuthUnauthorized INVALID_OAUTH_STATE)), (open_oauth d)\<lparr>oa_hash_checks := 1\<rparr>)
     | Some (p, u) \<Rightarrow>
         if oauth_ok (confirmed w now p u (others d))
         then on_auth (open_login (oe_digest E) (oe_settings E) (ow_auth w) now u) ((open_oauth (confirmed w now p u (others d)))\<lparr>oa_hash_checks := 1\<rparr>)
         else (Inl (AuthE (AuthConflict ALREADY_LINKED)), (open_oauth (others d))\<lparr>oa_hash_checks := 1\<rparr>))"
  unfolding confirm_pending_link_def Let_def bindS_on_odb confirmable_def
  by (auto simp: bindS_checks step_simps recover_def oa_commit_def raiseS_def open_oauth_def confirmed_def split: option.split)

text \<open>
  C37: Confirming a link is as uniform as a login. It costs exactly one password verification. Without a live pending link, an account
  behind it that has a password and is active, and that password, the error is always the same and nothing is written. Otherwise the
  identity is added and the pending link removed in one transaction, and a session of that account is opened; if an identity
  constraint refuses it, the conflict is reported and nothing of it is kept.
\<close>

theorem confirm_link_uniform:
  "confirm_pending_link E others w now pid password (open_oauth d) = (case confirmable E d now pid password of
       None \<Rightarrow> (Inl (AuthE (AuthUnauthorized INVALID_OAUTH_STATE)), (open_oauth d)\<lparr>oa_hash_checks := 1\<rparr>)
     | Some (p, u) \<Rightarrow>
         if oauth_ok (confirmed w now p u (others d))
         then on_auth (open_login (oe_digest E) (oe_settings E) (ow_auth w) now u) ((open_oauth (confirmed w now p u (others d)))\<lparr>oa_hash_checks := 1\<rparr>)
         else (Inl (AuthE (AuthConflict ALREADY_LINKED)), (open_oauth (others d))\<lparr>oa_hash_checks := 1\<rparr>))"
  by (rule confirm_cases)

section \<open>Flows\<close>

text \<open>What other requests do never issues a state value again.\<close>

definition no_reissue :: "string \<Rightarrow> (oauth_db \<Rightarrow> oauth_db) \<Rightarrow> bool" where
  "no_reissue h f \<longleftrightarrow> (\<forall>d. {g \<in> set (od_flows (f d)). fl_state_hash g = h} \<subseteq> set (od_flows d))"

lemma flow_by_hash_None: "flow_by_hash h d = None \<longleftrightarrow> h \<notin> fl_state_hash ` set (od_flows d)"
  by (auto simp: flow_by_hash_def find_None_iff image_iff)

lemma flow_by_hash_Some: "flow_by_hash h d = Some f \<Longrightarrow> f \<in> set (od_flows d) \<and> fl_state_hash f = h"
  using find_SomeD [of "\<lambda>f. fl_state_hash f = h" "od_flows d" f] by (simp add: flow_by_hash_def)

lemma no_reissue_None: "no_reissue h f \<Longrightarrow> flow_by_hash h d = None \<Longrightarrow> flow_by_hash h (f d) = None"
  unfolding flow_by_hash_None no_reissue_def by blast

lemma callback_refused:
  "flow_by_hash (hash_state (oe_digest E) state) d = None \<Longrightarrow>
   complete_callback E rivals others_auth others w now provider state code perr (open_oauth d)
     = (Inl (AuthE (AuthValidation INVALID_OAUTH_STATE)), open_oauth d)"
  by (simp add: complete_callback_def bindS_on_odb raiseS_def)

text \<open>What a request writes to the table of flows once its own deletion is committed.\<close>

lemma keeps_oa_steps [keeps_intros]: "keeps P (on_odb f)"
  unfolding on_odb_def by (rule keeps_getS)

definition flowless :: "string \<Rightarrow> oauth_session \<Rightarrow> bool" where
  "flowless h s \<longleftrightarrow> flow_by_hash h (oa_committed s) = None \<and> flow_by_hash h (oa_view s) = None"

lemma flow_by_hash_cong: "od_flows d = od_flows d' \<Longrightarrow> flow_by_hash h d = flow_by_hash h d'"
  by (simp add: flow_by_hash_def)

lemma flowless_edit: "(\<And>d. od_flows (f d) = od_flows d) \<Longrightarrow> keeps (flowless h) (oa_edit f)"
  by (rule keepsI) (simp add: oa_edit_def flowless_def flow_by_hash_def)

lemma flowless_commit: "keeps (flowless h) oa_commit"
  by (rule keepsI) (simp add: oa_commit_def flowless_def)

lemma flowless_meanwhile: "no_reissue h others \<Longrightarrow> keeps (flowless h) (oa_meanwhile others)"
  by (rule keepsI) (simp add: oa_meanwhile_def flowless_def no_reissue_None)

lemma flowless_on_auth: "keeps (flowless h) (on_auth m)"
  by (rule keepsI) (auto simp: on_auth_def flowless_def flow_by_hash_def split: prod.split)

lemma keeps_recover: "keeps P m \<Longrightarrow> (\<And>e. keeps P (handler e)) \<Longrightarrow> (\<And>x. keeps P (k x)) \<Longrightarrow> keeps P (recover m handler k)"
  by (auto simp: keeps_def recover_def split: prod.splits sum.splits)

lemma edits_keep_flows [simp]:
  "od_flows (add_identity w now uid provider subject email d) = od_flows d"
  "od_flows (add_pending w now provider info address d) = od_flows d"
  "od_flows (delete_pending p d) = od_flows d"
  by (simp_all add: add_identity_def add_pending_def delete_pending_def)

lemma keeps_handler:
  "keeps P (case e of AuthE (AuthValidation m) \<Rightarrow> returnS a | AuthE (AuthConflict m) \<Rightarrow> returnS b | e' \<Rightarrow> raiseS e')"
  by (auto simp: keeps_returnS keeps_raiseS split: oauth_error.split auth_error.split)

lemma flowless_resolve:
  assumes "no_reissue h others"
  shows "keeps (flowless h) (resolve_callback E others_auth others w now provider f code)"
proof -
  note steps = keeps_returnS keeps_raiseS keeps_oa_steps flowless_commit flowless_on_auth flowless_meanwhile [OF assms] flowless_edit edits_keep_flows
  have create: "keeps (flowless h) (create_from_identity E others_auth others w now provider info)" for info
    unfolding create_from_identity_def by (auto intro!: keeps_recover keeps_handler keeps_bindS steps split: option.split)
  have "keeps (flowless h) (complete_login E others_auth others w now provider info)" for info
    unfolding complete_login_def by (auto intro!: create keeps_bindS keeps_if steps split: option.split)
  moreover have "keeps (flowless h) (complete_link others w now provider info uid)" for info uid
    unfolding complete_link_def by (auto intro!: keeps_recover keeps_bindS keeps_if steps split: option.split)
  ultimately show ?thesis
    unfolding resolve_callback_def by (auto intro!: keeps_returnS split: option.split sum.split flow_intent.split)
qed
definition answer_callback :: "oauth_env \<Rightarrow> (auth_db \<Rightarrow> auth_db) \<Rightarrow> (oauth_db \<Rightarrow> oauth_db) \<Rightarrow> oauth_drawn \<Rightarrow> instant
    \<Rightarrow> string \<Rightarrow> oauth_flow \<Rightarrow> string option \<Rightarrow> string option \<Rightarrow> (string \<times> login_result) oauth_action" where
  "answer_callback E others_auth others w now provider flow code provider_error =
     bindS (case provider_error of Some e \<Rightarrow> returnS (ErrorResult e) | None \<Rightarrow> resolve_callback E others_auth others w now provider flow code)
       (\<lambda>result. returnS (fl_redirect_base flow, result))"

lemma delete_flow_ok: "oauth_ok d \<Longrightarrow> oauth_ok (delete_flow f d)"
  by (auto simp: oauth_ok_def delete_flow_def distinct_map_filter list_all_iff)

lemma bindS_oa_commit: "oauth_ok (oa_view s) \<Longrightarrow> bindS oa_commit g s = g () (s\<lparr>oa_committed := oa_view s\<rparr>)"
  by (simp add: bindS_def oa_commit_def)

lemma callback_accepted:
  assumes "flow_by_hash (hash_state (oe_digest E) state) d = Some f" and "now < fl_expires_at f" and "oauth_ok (rivals d)"
  shows "complete_callback E rivals others_auth others w now provider state code perr (open_oauth d)
    = answer_callback E others_auth others w now provider f code perr (open_oauth (others (delete_flow f (rivals d))))"
  unfolding complete_callback_def answer_callback_def step_simps open_oauth_views assms(1) option.sel
  using assms(2) delete_flow_ok [OF assms(3), of f] by (simp add: open_oauth_def step_simps bindS_oa_commit)

lemma flow_consumed:
  assumes "flow_by_hash h d = Some f" and "distinct (map fl_state_hash (od_flows d))" and "no_reissue h rivals" and "no_reissue h others"
  shows "flow_by_hash h (others (delete_flow f (rivals d))) = None"
proof -
  have "g = f" if "g \<in> set (od_flows (rivals d))" "fl_state_hash g = h" for g
  proof (rule inj_onD [of fl_state_hash "set (od_flows d)"])
    show "inj_on fl_state_hash (set (od_flows d))" using assms(2) by (simp add: distinct_map)
  qed (use that assms(1,3) flow_by_hash_Some in \<open>auto simp: no_reissue_def\<close>)
  then have "flow_by_hash h (delete_flow f (rivals d)) = None" by (auto simp: flow_by_hash_None delete_flow_def)
  then show ?thesis by (rule no_reissue_None [OF assms(4)])
qed


text \<open>
  The deletion claims nothing: if another callback with the same state has deleted the flow since this one read it, this one is answered
  all the same. And the provider a flow was started for plays no part in the answer.
\<close>

lemma flow_race_answered:
  assumes "flow_by_hash (hash_state (oe_digest E) state) d = Some f" and "now < fl_expires_at f" and "oauth_ok d"
  shows "complete_callback E (delete_flow f) others_auth others w now provider state code perr (open_oauth d)
    = complete_callback E id others_auth others w now provider state code perr (open_oauth d)"
  using assms callback_accepted [OF assms(1,2), of id] callback_accepted [OF assms(1,2), of "delete_flow f"] delete_flow_ok
  by (simp add: delete_flow_def)

lemma flow_provider_unused:
  "answer_callback E others_auth others w now provider (f\<lparr>fl_provider := p\<rparr>) code perr
    = answer_callback E others_auth others w now provider f code perr"
  by (cases f) (simp add: answer_callback_def resolve_callback_def cong: option.case_cong sum.case_cong flow_intent.case_cong)

section \<open>Accounts without a way in\<close>

text \<open>An account that has neither a password nor a linked identity.\<close>

definition orphan :: "oauth_db \<Rightarrow> user_row \<Rightarrow> bool" where
  "orphan d u \<longleftrightarrow> u \<in> set (od_users d) \<and> ur_password_hash u = None \<and> linked_identities (ur_id u) d = []"

lemma user_of_id: "auth_ok d \<Longrightarrow> u \<in> set (ad_users d) \<Longrightarrow> v \<in> set (ad_users d) \<Longrightarrow> ur_id u = ur_id v \<Longrightarrow> u = v"
  by (auto simp: auth_ok_def distinct_map dest: inj_onD)

lemma user_of_email: "auth_ok d \<Longrightarrow> u \<in> set (ad_users d) \<Longrightarrow> user_by_email (ur_email u) d = Some v \<Longrightarrow> u = v"
  using find_SomeD [of "\<lambda>v. ur_email v = ur_email u" "ad_users d" v]
  by (auto simp: user_by_email_def auth_ok_def distinct_map dest: inj_onD)

text \<open>
  C39: An account without a way in stays locked. Whoever signs in with its address and any password is refused, no pending link for its
  address can be confirmed, and no sign-in through a provider opens a session for it.
\<close>

theorem orphan_locked_out:
  assumes "oauth_ok d" and "orphan d u" and "dr_user (ow_auth w) \<noteq> ur_id u"
  shows "(normalized_email (oe_unicode E) email = ur_email u \<longrightarrow>
      fst (login (oe_unicode E) (oe_digest E) (oe_settings E) others_auth (ow_auth w) now email password (open_auth (od_auth d)))
        = Inl (AuthUnauthorized INVALID_CREDENTIALS))
    \<and> (pending_by_id pid d = Some p \<and> pk_email p = ur_email u \<longrightarrow>
      fst (confirm_pending_link E others w now pid password (open_oauth d)) = Inl (AuthE (AuthUnauthorized INVALID_OAUTH_STATE)))
    \<and> (complete_login E others_auth others w now provider info (open_oauth d) = (Inr (SessionResult (v, tok, raw)), s') \<longrightarrow> ur_id v \<noteq> ur_id u)"
proof (intro conjI impI)
  have ok: "auth_ok (od_auth d)" using assms(1) by (simp add: oauth_ok_def)
  have u: "u \<in> set (od_users d)" "ur_password_hash u = None" using assms(2) by (simp_all add: orphan_def)
  have row: "v = u" if "user_by_email (ur_email u) (od_auth d) = Some v" for v using user_of_email [OF ok u(1) that] by simp
  show "fst (login (oe_unicode E) (oe_digest E) (oe_settings E) others_auth (ow_auth w) now email password (open_auth (od_auth d)))
      = Inl (AuthUnauthorized INVALID_CREDENTIALS)" if "normalized_email (oe_unicode E) email = ur_email u"
  proof -
    have "\<not> credentials_valid (oe_unicode E) (oe_settings E) (od_auth d) email password"
      using row u(2) by (auto simp: credentials_valid_def that split: option.split)
    then show ?thesis by (subst login_cases) simp
  qed
  show "fst (confirm_pending_link E others w now pid password (open_oauth d)) = Inl (AuthE (AuthUnauthorized INVALID_OAUTH_STATE))"
    if "pending_by_id pid d = Some p \<and> pk_email p = ur_email u"
  proof -
    have "confirmable E d now pid password = None"
      using row u(2) that by (auto simp: confirmable_def oauth_user_by_email_def split: option.split)
    then show ?thesis by (simp add: confirm_cases)
  qed
  show "ur_id v \<noteq> ur_id u" if run: "complete_login E others_auth others w now provider info (open_oauth d) = (Inr (SessionResult (v, tok, raw)), s')"
    using login_cases_session [OF run] assms(2,3) by (auto simp: orphan_def linked_identities_def filter_empty_conv)
qed
section \<open>Removing a link\<close>

definition without_identity :: "oauth_identity \<Rightarrow> oauth_db \<Rightarrow> oauth_db" where
  "without_identity i d = d\<lparr>od_identities := filter (\<lambda>j. oi_id j \<noteq> oi_id i) (od_identities d)\<rparr>"

definition link_of :: "string \<Rightarrow> string \<Rightarrow> oauth_db \<Rightarrow> oauth_identity option" where
  "link_of uid provider d = find (\<lambda>i. oi_provider i = provider) (linked_identities uid d)"

lemma link_of_Some: "link_of uid provider d = Some i \<Longrightarrow> i \<in> set (linked_identities uid d) \<and> oi_provider i = provider"
  using find_SomeD [of "\<lambda>i. oi_provider i = provider"] by (auto simp: link_of_def)

lemma other_link: "find (\<lambda>i. oi_provider i \<noteq> provider) xs = None \<longleftrightarrow> filter (\<lambda>i. oi_provider i \<noteq> provider) xs = []"
  by (auto simp: find_None_iff filter_empty_conv)

lemma without_identity_ok: "oauth_ok d \<Longrightarrow> oauth_ok (without_identity i d)"
  by (auto simp: oauth_ok_def without_identity_def distinct_map_filter list_all_iff)

lemma unlink_cases:
  assumes "oauth_ok (others d)"
  shows "unlink others user provider (open_oauth d) = (case link_of (ur_id user) provider d of
       None \<Rightarrow> (Inl (OauthNotFound (''No linked '' @ provider @ '' account.'')), open_oauth d)
     | Some i \<Rightarrow> if ur_password_hash user = None \<and> filter (\<lambda>j. oi_provider j \<noteq> provider) (linked_identities (ur_id user) d) = []
         then (Inl (AuthE (AuthValidation ONLY_WAY_IN)), open_oauth d)
         else (Inr (), open_oauth (without_identity i (others d))))"
  using without_identity_ok [OF assms] unfolding unlink_def step_simps link_of_def [symmetric] other_link
  by (auto simp: raiseS_def step_simps oa_commit_def open_oauth_def without_identity_def split: option.split)

text \<open>An account has at most one identity of a provider, so taking out its row takes out the provider.\<close>

lemma linked_without:
  assumes "oauth_ok d" and "link_of uid provider d = Some i"
  shows "linked_identities uid (without_identity i d) = filter (\<lambda>j. oi_provider j \<noteq> provider) (linked_identities uid d)"
proof -
  have i: "i \<in> set (od_identities d)" "oi_user_id i = uid" "oi_provider i = provider"
    using link_of_Some [OF assms(2)] by (auto simp: linked_identities_def)
  have "oi_id j \<noteq> oi_id i \<longleftrightarrow> oi_provider j \<noteq> provider" if j: "j \<in> set (od_identities d)" "oi_user_id j = uid" for j
  proof -
    have "inj_on oi_id (set (od_identities d))" "inj_on (\<lambda>i. (oi_provider i, oi_user_id i)) (set (od_identities d))"
      using assms(1) by (simp_all add: oauth_ok_def distinct_map)
    then have "oi_id j = oi_id i \<longleftrightarrow> j = i" "(oi_provider j, oi_user_id j) = (oi_provider i, oi_user_id i) \<longleftrightarrow> j = i"
      using i(1) j(1) by (auto dest: inj_onD)
    then show ?thesis using i j by auto
  qed
  then show ?thesis by (auto simp: linked_identities_def without_identity_def intro!: filter_cong)
qed

text \<open>Two requests that remove the two links of an account without a password, each reading before the other has written.\<close>

lemma unlink_race:
  assumes "oauth_ok d" and "linked_identities (ur_id user) d = [a, b]" and "ur_password_hash user = None"
  defines "other \<equiv> \<lambda>d. oa_committed (snd (unlink id user (oi_provider b) (open_oauth d)))"
  shows "\<exists>s'. unlink other user (oi_provider a) (open_oauth d) = (Inr (), s') \<and> linked_identities (ur_id user) (oa_committed s') = []"
proof -
  have "a \<in> set (linked_identities (ur_id user) d)" "b \<in> set (linked_identities (ur_id user) d)" using assms(2) by simp_all
  then have ab: "a \<in> set (od_identities d)" "b \<in> set (od_identities d)" "oi_user_id a = ur_id user" "oi_user_id b = ur_id user"
    by (simp_all add: linked_identities_def)
  have "distinct (map (\<lambda>i. (oi_provider i, oi_user_id i)) (linked_identities (ur_id user) d))"
    using assms(1) unfolding oauth_ok_def linked_identities_def by (simp add: distinct_map_filter)
  then have ne: "oi_provider a \<noteq> oi_provider b" using ab by (simp add: assms(2))
  have la: "link_of (ur_id user) (oi_provider a) d = Some a" and lb: "link_of (ur_id user) (oi_provider b) d = Some b"
    using ne by (simp_all add: link_of_def assms(2))
  have other: "other d = without_identity b d"
    using unlink_cases [of id d user "oi_provider b"] assms(1) ne by (simp add: other_def lb assms(2))
  have run: "unlink other user (oi_provider a) (open_oauth d) = (Inr (), open_oauth (without_identity a (without_identity b d)))"
    using unlink_cases [of other d user "oi_provider a"] without_identity_ok [OF assms(1)] ne[symmetric] by (simp add: other la assms(2))
  have lb': "linked_identities (ur_id user) (without_identity b d) = [a]" using linked_without [OF assms(1) lb] ne by (simp add: assms(2))
  have "linked_identities (ur_id user) (without_identity a (without_identity b d)) = []"
    using linked_without [OF without_identity_ok [OF assms(1)], of "ur_id user" "oi_provider a" b a] lb' by (simp add: link_of_def)
  then show ?thesis using run by simp
qed

text \<open>
  Removing a link that runs alone never takes the last way in. Success leaves exactly the account's identities of the other providers, and
  at least one if the account has no password; the unknown provider and the last way in are errors that change nothing.
\<close>

theorem unlink_keeps_way_in:
  assumes "oauth_ok d" and "unlink id user provider (open_oauth d) = (r, s')"
  shows "case r of
      Inr _ \<Rightarrow> linked_identities (ur_id user) (oa_committed s') = filter (\<lambda>i. oi_provider i \<noteq> provider) (linked_identities (ur_id user) d)
        \<and> \<not> (ur_password_hash user = None \<and> linked_identities (ur_id user) (oa_committed s') = []) \<and> oauth_ok (oa_committed s')
    | Inl e \<Rightarrow> oa_committed s' = d \<and> (if provider \<in> oi_provider ` set (linked_identities (ur_id user) d)
        then e = AuthE (AuthValidation ONLY_WAY_IN) else e = OauthNotFound (''No linked '' @ provider @ '' account.''))"
proof -
  have "link_of (ur_id user) provider d = None \<longleftrightarrow> provider \<notin> oi_provider ` set (linked_identities (ur_id user) d)"
    by (auto simp: link_of_def find_None_iff image_iff)
  then show ?thesis
    using assms(2) linked_without [OF assms(1)] without_identity_ok [OF assms(1)] unlink_cases [of id d user provider] assms(1)
    by (auto split: option.splits if_splits)
qed
section \<open>Session families under every request\<close>

text \<open>The account tables of the session.\<close>

definition auth_part :: "oauth_session \<Rightarrow> auth_session" where
  "auth_part s = \<lparr> au_committed = od_auth (oa_committed s), au_view = od_auth (oa_view s), au_hash_checks = oa_hash_checks s \<rparr>"

definition lawful_oauth :: "drawn \<Rightarrow> (oauth_db \<Rightarrow> oauth_db) \<Rightarrow> bool" where
  "lawful_oauth w others \<longleftrightarrow> (\<forall>d. auth_ok (od_auth d) \<longrightarrow> session_step\<^sup>*\<^sup>* (od_auth d) (od_auth (others d))
     \<and> (dr_family w \<notin> rt_family_id ` set (ad_tokens (od_auth d)) \<longrightarrow> dr_family w \<notin> rt_family_id ` set (ad_tokens (od_auth (others d)))))"

definition o_unopened :: "drawn \<Rightarrow> auth_db \<Rightarrow> oauth_session \<Rightarrow> bool" where
  "o_unopened w d0 s \<longleftrightarrow> unopened w d0 (auth_part s)"
definition o_clean :: "auth_db \<Rightarrow> oauth_session \<Rightarrow> bool" where
  "o_clean d0 s \<longleftrightarrow> clean d0 (auth_part s)"
definition o_follows :: "auth_db \<Rightarrow> oauth_session \<Rightarrow> bool" where
  "o_follows d0 s \<longleftrightarrow> follows d0 (auth_part s)"

lemma auth_part_on_auth: "auth_part (snd (on_auth m s)) = snd (m (auth_part s))"
  by (simp add: on_auth_def auth_part_def split: prod.split)

lemma leads_on_auth: "leads P Q m \<Longrightarrow> leads (\<lambda>s. P (auth_part s)) (\<lambda>s. Q (auth_part s)) (on_auth m)"
  by (simp add: leads_def auth_part_on_auth)

lemma o_weaken: "o_unopened w d0 s \<Longrightarrow> o_clean d0 s" "o_clean d0 s \<Longrightarrow> o_follows d0 s" "o_unopened w d0 s \<Longrightarrow> o_follows d0 s"
  by (simp_all add: o_unopened_def o_clean_def o_follows_def unopened_clean clean_follows unopened_follows)

lemma auth_part_same: "auth_part s' = auth_part s \<Longrightarrow> o_unopened w d0 s' = o_unopened w d0 s \<and> o_clean d0 s' = o_clean d0 s"
  by (simp add: o_unopened_def o_clean_def)

lemma oa_edit_part: "(\<And>d. od_auth (f d) = od_auth d) \<Longrightarrow> auth_part (snd (oa_edit f s)) = auth_part s"
  by (simp add: oa_edit_def auth_part_def)

lemma oa_commit_part: "od_auth (oa_view s) = od_auth (oa_committed s) \<Longrightarrow> auth_part (snd (oa_commit s)) = auth_part s"
  by (simp add: oa_commit_def auth_part_def)

lemma keeps_oa_edit:
  assumes "\<And>d. od_auth (f d) = od_auth d"
  shows "keeps (o_unopened w d0) (oa_edit f)" "keeps (o_clean d0) (oa_edit f)"
  using auth_part_same [OF oa_edit_part [of f, OF assms]] by (simp_all add: keeps_def)

lemma keeps_oa_commit: "keeps (o_unopened w d0) oa_commit" "keeps (o_clean d0) oa_commit"
proof -
  have same: "o_unopened w d0 (snd (oa_commit s)) = o_unopened w d0 s" "o_clean d0 (snd (oa_commit s)) = o_clean d0 s" if "o_clean d0 s" for s
  proof -
    have "od_auth (oa_view s) = od_auth (oa_committed s)" using that by (simp add: o_clean_def clean_def auth_part_def)
    from auth_part_same [OF oa_commit_part [OF this]]
    show "o_unopened w d0 (snd (oa_commit s)) = o_unopened w d0 s" "o_clean d0 (snd (oa_commit s)) = o_clean d0 s" by simp_all
  qed
  show "keeps (o_clean d0) oa_commit" using same by (intro keepsI) simp
  show "keeps (o_unopened w d0) oa_commit" using same(1) o_weaken(1) by (intro keepsI) blast
qed

lemma meanwhile_part:
  assumes "lawful_oauth w others" and "o_follows d0 s"
  shows "o_clean d0 (snd (oa_meanwhile others s))" and "o_unopened w d0 s \<Longrightarrow> o_unopened w d0 (snd (oa_meanwhile others s))"
proof -
  let ?d = "od_auth (oa_committed s)" and ?d' = "od_auth (others (oa_committed s))" and ?a = "auth_part (snd (oa_meanwhile others s))"
  have a: "au_committed ?a = ?d'" "au_view ?a = ?d'" "au_committed (auth_part s) = ?d" by (simp_all add: auth_part_def oa_meanwhile_def)
  have f: "follows d0 (auth_part s)" using assms(2) by (simp add: o_follows_def)
  then have "auth_ok ?d" by (simp add: follows_def a)
  then have step: "session_step\<^sup>*\<^sup>* ?d ?d'"
    and fam: "dr_family w \<notin> rt_family_id ` set (ad_tokens ?d) \<Longrightarrow> dr_family w \<notin> rt_family_id ` set (ad_tokens ?d')"
    using assms(1) by (simp_all add: lawful_oauth_def)
  have "follows d0 ?a" by (rule follows_run [OF f]) (use step a in simp_all)
  then show c: "o_clean d0 (snd (oa_meanwhile others s))" by (simp add: o_clean_def clean_def a)
  show "o_unopened w d0 (snd (oa_meanwhile others s))" if "o_unopened w d0 s"
    using c fam that by (simp add: o_unopened_def o_clean_def unopened_def a)
qed

lemma leads_oa_meanwhile:
  assumes "lawful_oauth w others"
  shows "leads (o_follows d0) (o_clean d0) (oa_meanwhile others)" "keeps (o_unopened w d0) (oa_meanwhile others)" "keeps (o_clean d0) (oa_meanwhile others)"
  using meanwhile_part [OF assms] o_weaken by (simp_all add: leads_def keeps_def)

lemma leads_recover:
  "leads P P' m \<Longrightarrow> (\<And>e. leads P' Q (handler e)) \<Longrightarrow> (\<And>x. leads P' Q (k x)) \<Longrightarrow> leads P Q (recover m handler k)"
  unfolding leads_def recover_def by (auto split: prod.splits sum.splits)

lemma leads_option: "leads P Q a \<Longrightarrow> (\<And>x. leads P Q (b x)) \<Longrightarrow> leads P Q (case r of None \<Rightarrow> a | Some x \<Rightarrow> b x)"
  by (simp split: option.split)

lemma leads_returnS: "(\<And>s. P s \<Longrightarrow> Q s) \<Longrightarrow> leads P Q (returnS x)"
  by (rule keeps_leads [OF keeps_returnS])
lemma edits_keep_accounts [simp]:
  "od_auth (add_identity w now uid provider subject email d) = od_auth d"
  "od_auth (add_pending w now provider info address d) = od_auth d"
  "od_auth (delete_pending p d) = od_auth d" "od_auth (delete_flow f d) = od_auth d"
  by (simp_all add: add_identity_def add_pending_def delete_pending_def delete_flow_def)

lemma leads_handler: "leads P P (case e of AuthE (AuthValidation m) \<Rightarrow> returnS a | AuthE (AuthConflict m) \<Rightarrow> returnS b | e' \<Rightarrow> raiseS e')"
  by (rule keeps_leads [OF keeps_handler])

text \<open>The name of the family a request would open is not empty, and its environment follows the protocol.\<close>

definition request_env :: "drawn \<Rightarrow> (auth_db \<Rightarrow> auth_db) \<Rightarrow> (oauth_db \<Rightarrow> oauth_db) \<Rightarrow> bool" where
  "request_env w others_auth others \<longleftrightarrow> dr_family w \<noteq> [] \<and> lawful_others w others_auth \<and> lawful_oauth w others"

lemma leads_o_open:
  assumes "request_env w others_auth others"
  shows "leads (o_unopened w d0) (o_follows d0) (on_auth (open_login H S w now user))"
    and "leads (o_unopened w d0) (o_follows d0) (on_auth (register_oauth_user U H S others_auth w now email))"
    and "keeps (o_unopened w d0) (on_auth (verify_password S h p))" and "keeps (o_unopened w d0) (on_auth (burn_password_check p))"
proof -
  have w: "dr_family w \<noteq> []" "lawful_others w others_auth" using assms by (simp_all add: request_env_def)
  show "leads (o_unopened w d0) (o_follows d0) (on_auth (open_login H S w now user))"
    using leads_on_auth [OF leads_open_login [OF w(1)]] by (simp add: leads_def o_unopened_def o_follows_def)
  show "leads (o_unopened w d0) (o_follows d0) (on_auth (register_oauth_user U H S others_auth w now email))"
    using leads_on_auth [OF leads_register [OF w(2,1)]] by (simp add: leads_def o_unopened_def o_follows_def register_oauth_user_def)
  show "keeps (o_unopened w d0) (on_auth (verify_password S h p))" "keeps (o_unopened w d0) (on_auth (burn_password_check p))"
    using keeps_hash_check by (simp_all add: keeps_def auth_part_on_auth o_unopened_def)
qed

lemma leads_complete:
  assumes "request_env (ow_auth w) others_auth others"
  shows "leads (o_unopened (ow_auth w) d0) (o_follows d0) (resolve_callback E others_auth others w now provider f code)"
proof -
  have lo: "lawful_oauth (ow_auth w) others" using assms by (simp add: request_env_def)
  note steps = leads_bindS leads_if leads_option leads_returnS leads_raiseS o_weaken(3) keeps_oa_steps keeps_oa_commit
    keeps_oa_edit edits_keep_accounts leads_oa_meanwhile(2,3) [OF lo] leads_o_open [OF assms]
  have after: "leads (o_follows d0) (o_follows d0) (bindS (oa_meanwhile others) (\<lambda>_. bindS (oa_edit (add_identity w now uid provider subject email))
      (\<lambda>_. bindS oa_commit (\<lambda>_. returnS x))))" for uid subject email and x :: login_result
    by (rule leads_then [OF leads_oa_meanwhile(1) [OF lo] o_weaken(2)], assumption)
      (intro leads_bindS leads_returnS o_weaken(2) keeps_oa_edit keeps_oa_commit edits_keep_accounts)
  have create: "leads (o_unopened (ow_auth w) d0) (o_follows d0) (create_from_identity E others_auth others w now provider info)" for info
    unfolding create_from_identity_def
    by (intro leads_option leads_returnS o_weaken(3) leads_recover [OF leads_o_open(2) [OF assms]] leads_handler after)
  have opened: "leads (o_unopened (ow_auth w) d0) (o_follows d0) (bindS (on_auth (open_login H S (ow_auth w) now user)) (\<lambda>o1. returnS (f o1)))"
    for H S user and f :: "opened \<Rightarrow> login_result"
    by (rule leads_then [OF leads_o_open(1) [OF assms]], assumption) (rule leads_returnS, assumption)
  have login: "leads (o_unopened (ow_auth w) d0) (o_follows d0) (complete_login E others_auth others w now provider info)" for info
    unfolding complete_login_def by (intro opened create steps)

  have commit: "leads (o_unopened (ow_auth w) d0) (o_unopened (ow_auth w) d0) oa_commit" by (rule keeps_leads [OF keeps_oa_commit(1)])
  have link: "leads (o_unopened (ow_auth w) d0) (o_follows d0) (complete_link others w now provider info uid)" for info uid
    unfolding complete_link_def
    by (intro steps leads_recover [OF commit])
  show ?thesis
    unfolding resolve_callback_def using login link by (auto intro: leads_returnS o_weaken split: option.split sum.split flow_intent.split)
qed
lemma leads_callback:
  assumes "request_env (ow_auth w) others_auth others" and "lawful_oauth (ow_auth w) rivals"
  shows "leads (o_unopened (ow_auth w) d0) (o_follows d0) (complete_callback E rivals others_auth others w now provider state code perr)"
proof -
  have lo: "lawful_oauth (ow_auth w) others" using assms(1) by (simp add: request_env_def)
  have answer: "leads (o_unopened (ow_auth w) d0) (o_follows d0) (bindS (case perr of Some e \<Rightarrow> returnS (ErrorResult e)
      | None \<Rightarrow> resolve_callback E others_auth others w now provider f code) (\<lambda>result. returnS (fl_redirect_base f, result)))" for f
    by (rule leads_then [of _ "o_follows d0"], intro leads_option leads_complete [OF assms(1)] leads_returnS o_weaken(3))
      (auto intro: leads_returnS)
  show ?thesis
    unfolding complete_callback_def
    by (intro answer leads_bindS leads_if leads_raiseS o_weaken(3) keeps_oa_steps keeps_oa_commit keeps_oa_edit edits_keep_accounts
        leads_oa_meanwhile(2) [OF lo] leads_oa_meanwhile(2) [OF assms(2)])
qed

lemma leads_confirm:
  assumes "request_env (ow_auth w) others_auth others"
  shows "leads (o_unopened (ow_auth w) d0) (o_follows d0) (confirm_pending_link E others w now pid password)"
proof -
  have lo: "lawful_oauth (ow_auth w) others" using assms by (simp add: request_env_def)
  have commit: "leads (o_unopened (ow_auth w) d0) (o_unopened (ow_auth w) d0) oa_commit" by (rule keeps_leads [OF keeps_oa_commit(1)])
  show ?thesis
    unfolding confirm_pending_link_def Let_def
    by (intro leads_recover [OF commit] leads_bindS leads_if leads_raiseS o_weaken(3) keeps_oa_steps keeps_oa_edit edits_keep_accounts
        leads_oa_meanwhile(2) [OF lo] leads_o_open [OF assms])
qed

text \<open>The requests of the product that touch accounts, sessions and links.\<close>

inductive account_request :: "oauth_env \<Rightarrow> oauth_db \<Rightarrow> oauth_db \<Rightarrow> bool" for E where
  req_password: "auth_request (oe_unicode E) (oe_digest E) (oe_settings E) (od_auth d) a \<Longrightarrow> account_request E d (d\<lparr>od_auth := a\<rparr>)"
| req_start: "account_request E d (oa_committed (snd (start_flow E w now provider intent base uid (open_oauth d))))"
| req_callback: "request_env (ow_auth w) others_auth others \<Longrightarrow> lawful_oauth (ow_auth w) rivals \<Longrightarrow>
    dr_family (ow_auth w) \<notin> rt_family_id ` set (ad_tokens (od_auth d)) \<Longrightarrow>
    account_request E d (oa_committed (snd (complete_callback E rivals others_auth others w now provider state code perr (open_oauth d))))"
| req_confirm: "request_env (ow_auth w) others_auth others \<Longrightarrow> dr_family (ow_auth w) \<notin> rt_family_id ` set (ad_tokens (od_auth d)) \<Longrightarrow>
    account_request E d (oa_committed (snd (confirm_pending_link E others w now pid password (open_oauth d))))"
| req_unlink: "lawful_oauth w others \<Longrightarrow> account_request E d (oa_committed (snd (unlink others user provider (open_oauth d))))"

lemma o_clean_open: "auth_ok (od_auth d) \<Longrightarrow> chains (od_auth d) \<Longrightarrow> o_clean (od_auth d) (open_oauth d)"
  by (simp add: o_clean_def auth_part_def clean_def follows_def)

lemma o_unopened_open: "auth_ok (od_auth d) \<Longrightarrow> chains (od_auth d) \<Longrightarrow> dr_family w \<notin> rt_family_id ` set (ad_tokens (od_auth d)) \<Longrightarrow>
    o_unopened w (od_auth d) (open_oauth d)"
  using o_clean_open [of d] by (simp add: o_unopened_def o_clean_def unopened_def auth_part_def)

lemma keeps_start: "keeps (o_clean d0) (start_flow E w now provider intent base uid)"
  unfolding start_flow_def by (intro keeps_bindS keeps_liftS keeps_returnS keeps_oa_commit keeps_oa_edit) simp

lemma keeps_unlink: "lawful_oauth w others \<Longrightarrow> keeps (o_clean d0) (unlink others user provider)"
  unfolding unlink_def
  by (intro keeps_bindS keeps_oa_steps keeps_case_option keeps_raiseS keeps_if leads_oa_meanwhile(3) keeps_oa_edit keeps_oa_commit) simp_all

lemma account_request_follows:
  assumes "account_request E d d'" and "auth_ok (od_auth d)" and "chains (od_auth d)"
  shows "session_step\<^sup>*\<^sup>* (od_auth d) (od_auth d')"
proof -
  have reached: "session_step\<^sup>*\<^sup>* (od_auth d) (od_auth (oa_committed s))" if "o_follows (od_auth d) s" for s
    using that by (simp add: o_follows_def follows_def auth_part_def)
  note clean = o_clean_open [OF assms(2,3)] and unopened = o_unopened_open [OF assms(2,3)]
  show ?thesis
    using assms(1)
  proof cases
    case (req_password a)
    then show ?thesis using request_follows [OF _ assms(2,3)] by simp
  next
    case (req_start w now provider intent base uid)
    then show ?thesis using reached o_weaken(2) keeps_start clean unfolding keeps_def by blast
  next
    case (req_callback w others_auth others rivals now provider state code perr)
    then show ?thesis using reached leads_callback unopened unfolding leads_def by blast
  next
    case (req_confirm w others_auth others now pid password)
    then show ?thesis using reached leads_confirm unopened unfolding leads_def by blast
  next
    case (req_unlink w others user provider)
    then show ?thesis using reached o_weaken(2) keeps_unlink clean unfolding keeps_def by blast
  qed
qed

lemma account_requests_follow: "(account_request E)\<^sup>*\<^sup>* d0 d \<Longrightarrow> auth_ok (od_auth d0) \<Longrightarrow> chains (od_auth d0) \<Longrightarrow>
    session_step\<^sup>*\<^sup>* (od_auth d0) (od_auth d) \<and> auth_ok (od_auth d) \<and> chains (od_auth d)"
  by (induction rule: rtranclp_induct) (auto dest: account_request_follows session_run intro: rtranclp_trans)

text \<open>
  C35: After any sequence of registrations, logins, refreshes, logouts, provider callbacks, confirmed and removed links, however other
  requests interleave with each of them, a session family belongs to one user and has at most one refresh token that was not spent.
\<close>

theorem families_across_sign_ins:
  assumes "(account_request E)\<^sup>*\<^sup>* d0 d" and "auth_ok (od_auth d0)" and "chains (od_auth d0)"
    and "t \<in> set (ad_tokens (od_auth d))" and "u \<in> set (ad_tokens (od_auth d))" and "rt_family_id t = rt_family_id u"
  shows "rt_user_id t = rt_user_id u \<and> (rt_used_at t = None \<and> rt_used_at u = None \<longrightarrow> t = u)"
  using one_live_token_per_family [OF rtranclp.rtrancl_refl _ _ assms(4-6)] account_requests_follow [OF assms(1-3)] by blast
section \<open>Witnesses\<close>

definition sample_client :: provider_client where
  "sample_client = \<lparr> pv_is_configured = True, pv_authorize_url = (\<lambda>redirect state challenge nonce. ''https://p/?state='' @ state),
     pv_resolve_identity = (\<lambda>code redirect verifier nonce. if code = ''bad'' then None
       else Some \<lparr> ii_subject = code, ii_email = Some (code @ ''@x''), ii_email_verified = True, ii_display_name = None \<rparr>) \<rparr>"

definition sample_env :: oauth_env where
  "sample_env = \<lparr> oe_unicode = ascii_unicode, oe_digest = id, oe_settings = sample_settings, oe_public_base_url = ''https://partha/'',
     oe_providers = [(''github'', sample_client), (''google'', sample_client)] \<rparr>"

text \<open>Accounts with a password, with neither password nor identity, and with two identities; a live flow and a pending link.\<close>

definition locked_user :: user_row where
  "locked_user = \<lparr> ur_id = ''u3'', ur_email = ''c@x'', ur_password_hash = None, ur_is_active = True \<rparr>"

definition linked_user :: user_row where
  "linked_user = \<lparr> ur_id = ''u4'', ur_email = ''d@x'', ur_password_hash = None, ur_is_active = True \<rparr>"

definition sample_identity :: "string \<Rightarrow> string \<Rightarrow> oauth_identity" where
  "sample_identity i p = \<lparr> oi_id = i, oi_user_id = ''u4'', oi_provider = p, oi_subject = ''octo'', oi_email = None, oi_created_at = 0 \<rparr>"

definition sample_flow :: oauth_flow where
  "sample_flow = \<lparr> fl_id = ''f1'', fl_state_hash = ''st'', fl_provider = ''github'', fl_code_verifier = ''v'', fl_nonce = ''n'', fl_intent = LoginIntent,
     fl_link_user_id = None, fl_redirect_base = ''app'', fl_created_at = 0, fl_expires_at = 100 \<rparr>"

definition sample_pending :: oauth_pending where
  "sample_pending = \<lparr> pk_id = ''p1'', pk_provider = ''github'', pk_subject = ''cc'', pk_email = ''c@x'', pk_display_name = None,
     pk_created_at = 0, pk_expires_at = 100 \<rparr>"

definition sample_oauth :: oauth_db where
  "sample_oauth = \<lparr> od_auth = sample_auth\<lparr>ad_users := [sample_user, locked_user, linked_user]\<rparr>,
     od_identities = [sample_identity ''i1'' ''github'', sample_identity ''i2'' ''google''], od_flows = [sample_flow], od_pendings = [sample_pending] \<rparr>"

definition sample_oauth_draws :: oauth_drawn where
  "sample_oauth_draws = \<lparr> ow_auth = sample_draws, ow_state = ''s2'', ow_verifier = ''v2'', ow_challenge = ''c2'', ow_nonce = ''n2'', ow_flow = ''f2'',
     ow_identity = ''i9'', ow_pending = ''p2'' \<rparr>"

lemma sample_oauth_ok: "oauth_ok sample_oauth" "auth_ok (od_auth sample_oauth)" "chains (od_auth sample_oauth)"
proof -
  show "oauth_ok sample_oauth" by code_simp
  then show "auth_ok (od_auth sample_oauth)" by (simp add: oauth_ok_def)
  show "chains (od_auth sample_oauth)" using sample_auth_ok(2) by (simp add: sample_oauth_def chains_def)
qed

lemma no_reissue_id: "no_reissue h id"
  by (auto simp: no_reissue_def)

lemma lawful_oauth_id: "lawful_oauth w id"
  by (simp add: lawful_oauth_def)

abbreviation sample_callback where
  "sample_callback code \<equiv> complete_callback sample_env id id id sample_oauth_draws 5 ''github'' ''st'' (Some code) None (open_oauth sample_oauth)"

abbreviation octo :: identity_info where
  "octo \<equiv> \<lparr> ii_subject = ''octo'', ii_email = None, ii_email_verified = False, ii_display_name = None \<rparr>"

theorem sign_in_needs_identity_or_approval_witness:
  "\<exists>i \<in> set (od_identities sample_oauth). oi_subject i = ''octo'' \<and> oi_user_id i = ur_id linked_user \<and> ur_is_active linked_user"
proof -
  let ?run = "complete_login sample_env id id sample_oauth_draws 5 ''google'' octo (open_oauth sample_oauth)"
  have "fst ?run = Inr (SessionResult (linked_user, ''jwt:u4'', ''r2''))" by code_simp
  then have run: "?run = (Inr (SessionResult (linked_user, ''jwt:u4'', ''r2'')), snd ?run)" by (simp add: prod_eq_iff)
  have "identity_for ''google'' (ii_subject octo) sample_oauth \<noteq> None" by code_simp
  with sign_in_needs_identity_or_approval [OF run] show ?thesis by auto
qed


theorem orphan_locked_out_witness:
  "orphan sample_oauth locked_user
   \<and> fst (login ascii_unicode id sample_settings id sample_draws 5 '' C@x'' ''pw'' (open_auth (od_auth sample_oauth))) = Inl (AuthUnauthorized INVALID_CREDENTIALS)
   \<and> fst (confirm_pending_link sample_env id sample_oauth_draws 5 ''p1'' ''pw'' (open_oauth sample_oauth)) = Inl (AuthE (AuthUnauthorized INVALID_OAUTH_STATE))"
proof -
  have o: "orphan sample_oauth locked_user" and w: "dr_user (ow_auth sample_oauth_draws) \<noteq> ur_id locked_user"
    and e: "normalized_email (oe_unicode sample_env) '' C@x'' = ur_email locked_user"
    and p: "pending_by_id ''p1'' sample_oauth = Some sample_pending \<and> pk_email sample_pending = ur_email locked_user" by code_simp+
  have env: "oe_unicode sample_env = ascii_unicode" "oe_digest sample_env = id" "oe_settings sample_env = sample_settings"
    "ow_auth sample_oauth_draws = sample_draws" by (simp_all add: sample_env_def sample_oauth_draws_def)
  note locked = orphan_locked_out [where E = sample_env, OF sample_oauth_ok(1) o w, unfolded env]
  have "fst (login ascii_unicode id sample_settings id sample_draws 5 '' C@x'' ''pw'' (open_auth (od_auth sample_oauth))) = Inl (AuthUnauthorized INVALID_CREDENTIALS)"
    using locked [THEN conjunct1] e unfolding env by blast
  moreover have "fst (confirm_pending_link sample_env id sample_oauth_draws 5 ''p1'' ''pw'' (open_oauth sample_oauth)) = Inl (AuthE (AuthUnauthorized INVALID_OAUTH_STATE))"
    using locked [THEN conjunct2, THEN conjunct1] p by blast
  ultimately show ?thesis using o by simp
qed

text \<open>
  Such an account comes about when the second transaction of a sign-up fails: the account is committed, the identity is not.
\<close>

lemma orphan_reached:
  "let run = complete_login sample_env id (add_identity (sample_oauth_draws\<lparr>ow_identity := ''i7''\<rparr>) 5 ''u1'' ''google'' ''b'' None) sample_oauth_draws 5 ''google''
       \<lparr> ii_subject = ''b'', ii_email = Some ''b@x'', ii_email_verified = True, ii_display_name = None \<rparr> (open_oauth sample_oauth)
   in fst run = Inl (AuthE AuthIntegrityError)
     \<and> orphan (oa_committed (snd run)) \<lparr> ur_id = ''u2'', ur_email = ''b@x'', ur_password_hash = None, ur_is_active = True \<rparr>"
  by code_simp

theorem unlink_keeps_way_in_witness:
  "linked_identities ''u4'' (oa_committed (snd (unlink id linked_user ''github'' (open_oauth sample_oauth)))) = [sample_identity ''i2'' ''google'']"
proof -
  let ?run = "unlink id linked_user ''github'' (open_oauth sample_oauth)"
  have "fst ?run = Inr ()" by code_simp
  moreover have "ur_id linked_user = ''u4''" by (simp add: linked_user_def)
  moreover have "filter (\<lambda>i. oi_provider i \<noteq> ''github'') (linked_identities ''u4'' sample_oauth) = [sample_identity ''i2'' ''google'']" by code_simp
  ultimately show ?thesis using unlink_keeps_way_in [OF sample_oauth_ok(1) prod.collapse [symmetric], of linked_user "''github''"] by simp
qed

theorem families_across_sign_ins_witness:
  "\<exists>d. (account_request sample_env)\<^sup>*\<^sup>* sample_oauth d \<and> length (ad_tokens (od_auth d)) = 3
     \<and> (\<forall>t u. t \<in> set (ad_tokens (od_auth d)) \<and> u \<in> set (ad_tokens (od_auth d)) \<and> rt_family_id t = rt_family_id u \<longrightarrow> rt_user_id t = rt_user_id u)"
proof (intro exI conjI allI impI)
  let ?d = "oa_committed (snd (sample_callback ''octo''))"
  have "dr_family (ow_auth sample_oauth_draws) \<noteq> []"
    and new: "dr_family (ow_auth sample_oauth_draws) \<notin> rt_family_id ` set (ad_tokens (od_auth sample_oauth))" by code_simp+
  then have "request_env (ow_auth sample_oauth_draws) id id" by (simp add: request_env_def lawful_id lawful_oauth_id)
  from req_callback [OF this lawful_oauth_id new]
  show run: "(account_request sample_env)\<^sup>*\<^sup>* sample_oauth ?d" by (rule r_into_rtranclp)
  show "length (ad_tokens (od_auth ?d)) = 3" by code_simp
  show "rt_user_id t = rt_user_id u" if "t \<in> set (ad_tokens (od_auth ?d)) \<and> u \<in> set (ad_tokens (od_auth ?d)) \<and> rt_family_id t = rt_family_id u" for t u
    using families_across_sign_ins [OF run sample_oauth_ok(2,3)] that by blast
qed

end
