(* ===== verification/Repo_Lineage.thy ===== *)
theory Repo_Lineage
  imports Job_Model Py_Values
begin

text \<open>
  Repositories and their lineages (\<^verbatim>\<open>app/repositories/repository_repository.py\<close>, \<^verbatim>\<open>app/models/repository.py\<close>,
  \<^verbatim>\<open>app/models/repository_lineage.py\<close>): an import of a known source and branch becomes the next revision of its lineage.

  A request reads, other requests commit (\<open>others\<close>), and from its first write on it holds the write lock until it commits; a database that
  does not lock the rows of a \<^verbatim>\<open>SELECT ... FOR UPDATE\<close> lets others in after that read too.
\<close>

section \<open>Model\<close>

subsection \<open>Tables\<close>

record revision_row =
  rv_id :: string
  rv_owner_id :: string
  rv_name :: string
  rv_source :: string
  rv_source_url :: "string option"
  rv_branch :: "string option"
  rv_revision_kind :: "string option"
  rv_revision_value :: "string option"
  rv_revision_ref :: "string option"
  rv_lineage_id :: "string option"
  rv_sequence :: "int option"
  rv_local_path :: string
  rv_uploaded_at :: instant

record lineage_row =
  ln_id :: string
  ln_owner_id :: string
  ln_source_key :: "string option"
  ln_branch :: "string option"
  ln_display_name :: string
  ln_latest :: "string option"
  ln_next_sequence :: int
  ln_created_at :: instant

record lineage_db =
  ld_rows :: "revision_row list"
  ld_lineages :: "lineage_row list"

text \<open>The CHECK constraints of a repository row.\<close>

definition hex_only :: "string \<Rightarrow> bool" where
  "hex_only s = list_all (\<lambda>c. c \<in> set ''0123456789abcdef'') s"

definition ck_upload_revision :: "revision_row \<Rightarrow> bool" where
  "ck_upload_revision r \<longleftrightarrow> (rv_revision_kind r = Some ''upload'' \<longrightarrow> rv_revision_ref r = None
     \<and> (\<forall>v \<in> set_option (rv_revision_value r). length v = 71 \<and> startswith ''sha256:'' v \<and> hex_only (drop 7 v)))"

definition ck_git_revision :: "revision_row \<Rightarrow> bool" where
  "ck_git_revision r \<longleftrightarrow> (rv_revision_kind r = Some ''git'' \<longrightarrow>
     (\<forall>v \<in> set_option (rv_revision_value r). length v = 40 \<and> hex_only v)
     \<and> (\<forall>f \<in> set_option (rv_revision_ref r). startswith ''refs/'' f))"

definition ck_repository :: "revision_row \<Rightarrow> bool" where
  "ck_repository r \<longleftrightarrow> (\<forall>k \<in> set_option (rv_revision_kind r). k \<in> {''git'', ''upload''})
     \<and> (if rv_revision_kind r = None then rv_revision_value r = None \<and> rv_revision_ref r = None else rv_revision_value r \<noteq> None)
     \<and> ck_upload_revision r \<and> ck_git_revision r
     \<and> (if rv_lineage_id r = None then rv_sequence r = None else (case rv_sequence r of None \<Rightarrow> False | Some n \<Rightarrow> 1 \<le> n))"

definition ck_lineage :: "lineage_row \<Rightarrow> bool" where
  "ck_lineage l \<longleftrightarrow> (ln_source_key l = None) = (ln_branch l = None) \<and> 1 \<le> ln_next_sequence l"

text \<open>What every statement is checked against, and the two deferred foreign keys that a commit is checked against.\<close>

definition in_lineage :: "string \<Rightarrow> revision_row \<Rightarrow> bool" where
  "in_lineage lid r \<longleftrightarrow> rv_lineage_id r = Some lid"

definition lineage_key :: "lineage_row \<Rightarrow> string \<times> string option \<times> string option" where
  "lineage_key l = (ln_owner_id l, ln_source_key l, ln_branch l)"

definition statements_ok :: "lineage_db \<Rightarrow> bool" where
  "statements_ok d \<longleftrightarrow> distinct (map rv_id (ld_rows d)) \<and> list_all ck_repository (ld_rows d)
     \<and> distinct (map (\<lambda>r. (rv_lineage_id r, rv_sequence r)) (filter (\<lambda>r. rv_lineage_id r \<noteq> None) (ld_rows d)))
     \<and> distinct (map ln_id (ld_lineages d)) \<and> list_all ck_lineage (ld_lineages d)
     \<and> distinct (map lineage_key (filter (\<lambda>l. ln_source_key l \<noteq> None) (ld_lineages d)))"

definition fk_repositories_lineage_owner :: "lineage_db \<Rightarrow> bool" where
  "fk_repositories_lineage_owner d \<longleftrightarrow> list_all (\<lambda>r. case rv_lineage_id r of None \<Rightarrow> True
     | Some i \<Rightarrow> (i, rv_owner_id r) \<in> set (map (\<lambda>l. (ln_id l, ln_owner_id l)) (ld_lineages d))) (ld_rows d)"

definition fk_lineages_latest_member :: "lineage_db \<Rightarrow> bool" where
  "fk_lineages_latest_member d \<longleftrightarrow> list_all (\<lambda>l. case ln_latest l of None \<Rightarrow> True
     | Some i \<Rightarrow> (i, Some (ln_id l)) \<in> set (map (\<lambda>r. (rv_id r, rv_lineage_id r)) (ld_rows d))) (ld_lineages d)"

definition lineages_ok :: "lineage_db \<Rightarrow> bool" where
  "lineages_ok d \<longleftrightarrow> statements_ok d \<and> fk_repositories_lineage_owner d \<and> fk_lineages_latest_member d"

datatype lineage_error =
    LnIntegrityError
  | LineageDuplicateRevision revision_row
  | LineageVanished
  | NoResultFound
  | LnStaleData

subsection \<open>The session\<close>

record lineage_session =
  ls_committed :: lineage_db
  ls_view :: lineage_db

type_synonym 'a lineage_action = "(lineage_session, lineage_error, 'a) action"

definition open_lineages :: "lineage_db \<Rightarrow> lineage_session" where
  "open_lineages d = \<lparr> ls_committed = d, ls_view = d \<rparr>"

definition on_ldb :: "(lineage_db \<Rightarrow> 'a) \<Rightarrow> 'a lineage_action" where
  "on_ldb f = getS (\<lambda>s. f (ls_view s))"

definition ls_edit :: "(lineage_db \<Rightarrow> lineage_db) \<Rightarrow> unit lineage_action" where
  "ls_edit f s = (Inr (), s\<lparr>ls_view := f (ls_view s)\<rparr>)"

definition ls_flush :: "unit lineage_action" where
  "ls_flush s = (if statements_ok (ls_view s) then (Inr (), s) else (Inl LnIntegrityError, s))"

definition ls_commit :: "unit lineage_action" where
  "ls_commit s = (if lineages_ok (ls_view s) then (Inr (), s\<lparr>ls_committed := ls_view s\<rparr>) else (Inl LnIntegrityError, s))"

definition ls_rollback :: "unit lineage_action" where
  "ls_rollback s = (Inr (), s\<lparr>ls_view := ls_committed s\<rparr>)"

definition ls_meanwhile :: "(lineage_db \<Rightarrow> lineage_db) \<Rightarrow> unit lineage_action" where
  "ls_meanwhile others s = (Inr (), s\<lparr>ls_committed := others (ls_committed s), ls_view := others (ls_committed s)\<rparr>)"

subsection \<open>Reading\<close>

definition list_for_owner :: "string \<Rightarrow> lineage_db \<Rightarrow> revision_row list" where
  "list_for_owner owner d = sort_key (\<lambda>r. - rv_uploaded_at r) (filter (\<lambda>r. rv_owner_id r = owner) (ld_rows d))"

definition row_for_owner :: "string \<Rightarrow> string \<Rightarrow> lineage_db \<Rightarrow> revision_row option" where
  "row_for_owner rid owner d = (case find (\<lambda>r. rv_id r = rid) (ld_rows d) of
     None \<Rightarrow> None | Some r \<Rightarrow> if rv_owner_id r = owner then Some r else None)"

definition lineage_for_owner :: "string \<Rightarrow> string \<Rightarrow> lineage_db \<Rightarrow> lineage_row option" where
  "lineage_for_owner lid owner d = find (\<lambda>l. ln_id l = lid \<and> ln_owner_id l = owner) (ld_lineages d)"

text \<open>\<^verbatim>\<open>ORDER BY sequence DESC\<close>\<close>

definition by_sequence_desc :: "revision_row list \<Rightarrow> revision_row list" where
  "by_sequence_desc = sort_key (\<lambda>r. - the (rv_sequence r))"

definition list_lineage_members :: "string \<Rightarrow> string \<Rightarrow> lineage_db \<Rightarrow> revision_row list" where
  "list_lineage_members lid owner d = by_sequence_desc (filter (\<lambda>r. in_lineage lid r \<and> rv_owner_id r = owner) (ld_rows d))"

definition find_by_revision_for_owner :: "string \<Rightarrow> string \<Rightarrow> lineage_db \<Rightarrow> revision_row option" where
  "find_by_revision_for_owner v owner d = find (\<lambda>r. rv_revision_value r = Some v \<and> rv_owner_id r = owner) (ld_rows d)"

definition find_lineage :: "string \<Rightarrow> string \<Rightarrow> string option \<Rightarrow> lineage_db \<Rightarrow> lineage_row option" where
  "find_lineage owner key branch d = find (\<lambda>l. lineage_key l = (owner, Some key, branch)) (ld_lineages d)"

subsection \<open>Adding\<close>

definition set_lineage :: "string \<Rightarrow> (lineage_row \<Rightarrow> lineage_row) \<Rightarrow> lineage_db \<Rightarrow> lineage_db" where
  "set_lineage lid f d = d\<lparr>ld_lineages := map (\<lambda>l. if ln_id l = lid then f l else l) (ld_lineages d)\<rparr>"

definition insert_revision :: "revision_row \<Rightarrow> lineage_db \<Rightarrow> lineage_db" where
  "insert_revision r d = d\<lparr>ld_rows := ld_rows d @ [r]\<rparr>"

definition insert_lineage :: "lineage_row \<Rightarrow> lineage_db \<Rightarrow> lineage_db" where
  "insert_lineage l d = d\<lparr>ld_lineages := ld_lineages d @ [l]\<rparr>"

definition add_row :: "revision_row \<Rightarrow> revision_row lineage_action" where
  "add_row r = bindS (ls_edit (insert_revision r)) (\<lambda>_. bindS ls_commit (\<lambda>_. returnS r))"

definition new_lineage :: "string \<Rightarrow> instant \<Rightarrow> string \<Rightarrow> string \<Rightarrow> string option \<Rightarrow> string \<Rightarrow> lineage_row" where
  "new_lineage lid now owner key branch display_name = \<lparr> ln_id = lid, ln_owner_id = owner, ln_source_key = Some key, ln_branch = branch,
     ln_display_name = display_name, ln_latest = None, ln_next_sequence = 1, ln_created_at = now \<rparr>"

text \<open>\<^verbatim>\<open>UPDATE ... SET next_sequence = next_sequence + 1\<close>, its row count, and the number it allocated.\<close>

definition allocate_sequence :: "string \<Rightarrow> string \<Rightarrow> int lineage_action" where
  "allocate_sequence lid owner =
     bindS (on_ldb (\<lambda>d. length (filter (\<lambda>l. ln_id l = lid \<and> ln_owner_id l = owner) (ld_lineages d)))) (\<lambda>rowcount.
     bindS (ls_edit (\<lambda>d. d\<lparr>ld_lineages := map (\<lambda>l. if ln_id l = lid \<and> ln_owner_id l = owner
         then l\<lparr>ln_next_sequence := ln_next_sequence l + 1\<rparr> else l) (ld_lineages d)\<rparr>)) (\<lambda>_.
     if rowcount \<noteq> 1 then raiseS LineageVanished
     else bindS (on_ldb (\<lambda>d. find (\<lambda>l. ln_id l = lid) (ld_lineages d))) (\<lambda>refreshed. case refreshed of
       None \<Rightarrow> raiseS LineageVanished
     | Some l \<Rightarrow> returnS (ln_next_sequence l - 1))))"

text \<open>From the first write on the transaction holds the lock: allocation, duplicate check, insertion, latest pointer.\<close>

definition add_to_lineage :: "revision_row \<Rightarrow> string \<Rightarrow> string \<Rightarrow> revision_row lineage_action" where
  "add_to_lineage r owner lid =
     bindS (allocate_sequence lid owner) (\<lambda>allocated.
     bindS (on_ldb (\<lambda>d. find (\<lambda>x. in_lineage lid x \<and> rv_revision_value x = rv_revision_value r) (ld_rows d))) (\<lambda>existing. case existing of
       Some x \<Rightarrow> bindS ls_rollback (\<lambda>_. raiseS (LineageDuplicateRevision x))
     | None \<Rightarrow> bindS (ls_edit (insert_revision (r\<lparr>rv_lineage_id := Some lid, rv_sequence := Some allocated\<rparr>))) (\<lambda>_.
         bindS ls_flush (\<lambda>_.
         bindS (ls_edit (set_lineage lid (\<lambda>l. l\<lparr>ln_latest := Some (rv_id r)\<rparr>))) (\<lambda>_.
         bindS ls_commit (\<lambda>_. returnS (r\<lparr>rv_lineage_id := Some lid, rv_sequence := Some allocated\<rparr>)))))))"

definition add_with_lineage_once :: "(lineage_db \<Rightarrow> lineage_db) \<Rightarrow> string \<Rightarrow> instant \<Rightarrow> revision_row \<Rightarrow> string \<Rightarrow> string \<Rightarrow> string option \<Rightarrow> string
    \<Rightarrow> revision_row lineage_action" where
  "add_with_lineage_once others new_id now r owner key branch display_name =
     bindS (on_ldb (find_lineage owner key branch)) (\<lambda>found.
     bindS (ls_meanwhile others) (\<lambda>_.
     bindS (case found of
         Some l \<Rightarrow> returnS (ln_id l)
       | None \<Rightarrow> bindS (ls_edit (insert_lineage (new_lineage new_id now owner key branch display_name))) (\<lambda>_.
           bindS ls_flush (\<lambda>_. returnS new_id))) (add_to_lineage r owner)))"

text \<open>The retries: each attempt with a lineage id and an environment of its own.\<close>

definition MAX_LINEAGE_RETRIES :: nat where "MAX_LINEAGE_RETRIES = 5"

fun lineage_attempts :: "(string \<Rightarrow> (lineage_db \<Rightarrow> lineage_db) \<Rightarrow> 'a lineage_action) \<Rightarrow> (string \<times> (lineage_db \<Rightarrow> lineage_db)) list \<Rightarrow> 'a lineage_action" where
  "lineage_attempts once [] = raiseS LnIntegrityError"
| "lineage_attempts once ((lid, others) # rest) = (\<lambda>s. case once lid others s of
     (Inl LnIntegrityError, s') \<Rightarrow> bindS ls_rollback (\<lambda>_. lineage_attempts once rest) s'
   | r \<Rightarrow> r)"

definition add_with_lineage :: "(nat \<Rightarrow> lineage_db \<Rightarrow> lineage_db) \<Rightarrow> (nat \<Rightarrow> string) \<Rightarrow> instant \<Rightarrow> revision_row \<Rightarrow> string \<Rightarrow> string option \<Rightarrow> string option \<Rightarrow> string
    \<Rightarrow> revision_row lineage_action" where
  "add_with_lineage others ids now r owner source_key branch display_name = (case source_key of
     None \<Rightarrow> add_row r
   | Some key \<Rightarrow> lineage_attempts (\<lambda>new_id f. add_with_lineage_once f new_id now r owner key branch display_name)
       (map (\<lambda>i. (ids i, others i)) [0..<MAX_LINEAGE_RETRIES]))"

subsection \<open>Deleting\<close>

text \<open>A DELETE that matches no row is only a warning; an UPDATE that matches none raises.\<close>

definition delete_row :: "string \<Rightarrow> lineage_db \<Rightarrow> lineage_db" where
  "delete_row rid d = d\<lparr>ld_rows := filter (\<lambda>r. rv_id r \<noteq> rid) (ld_rows d)\<rparr>"

definition write_latest :: "string \<Rightarrow> string option \<Rightarrow> unit lineage_action" where
  "write_latest lid latest s = (if lid \<notin> set (map ln_id (ld_lineages (ls_view s))) then (Inl LnStaleData, s)
     else ls_edit (set_lineage lid (\<lambda>l. l\<lparr>ln_latest := latest\<rparr>)) s)"

text \<open>\<open>others\<close> comes between the read of the lineage and the first write: the identity where \<^verbatim>\<open>FOR UPDATE\<close> locks.\<close>

definition delete_with_lineage_update :: "(lineage_db \<Rightarrow> lineage_db) \<Rightarrow> revision_row \<Rightarrow> unit lineage_action" where
  "delete_with_lineage_update others r =
     bindS (case rv_lineage_id r of
       None \<Rightarrow> ls_meanwhile others
     | Some lid \<Rightarrow> bindS (on_ldb (\<lambda>d. find (\<lambda>l. ln_id l = lid) (ld_lineages d))) (\<lambda>found. case found of
         None \<Rightarrow> raiseS NoResultFound
       | Some l \<Rightarrow> if ln_latest l = Some (rv_id r)
           then bindS (on_ldb (\<lambda>d. by_sequence_desc (filter (\<lambda>x. in_lineage lid x \<and> rv_id x \<noteq> rv_id r) (ld_rows d)))) (\<lambda>others_rows.
             bindS (ls_meanwhile others) (\<lambda>_. write_latest lid (case others_rows of [] \<Rightarrow> None | x # _ \<Rightarrow> Some (rv_id x))))
           else ls_meanwhile others)) (\<lambda>_.
     bindS (ls_edit (delete_row (rv_id r))) (\<lambda>_. ls_commit))"
section \<open>The protocol of lineages\<close>

definition members :: "string \<Rightarrow> lineage_db \<Rightarrow> revision_row list" where
  "members lid d = filter (in_lineage lid) (ld_rows d)"

definition newest_member :: "revision_row list \<Rightarrow> revision_row option" where
  "newest_member rs = (case by_sequence_desc rs of [] \<Rightarrow> None | r # _ \<Rightarrow> Some r)"

text \<open>A revision that is imported into a lineage, and a revision that is removed.\<close>

definition imported :: "string \<Rightarrow> revision_row \<Rightarrow> lineage_db \<Rightarrow> lineage_db" where
  "imported lid r d = set_lineage lid (\<lambda>l. l\<lparr>ln_next_sequence := ln_next_sequence l + 1, ln_latest := Some (rv_id r)\<rparr>) (insert_revision r d)"

definition removed :: "string \<Rightarrow> lineage_db \<Rightarrow> lineage_db" where
  "removed rid d = (let d' = delete_row rid d in d'\<lparr>ld_lineages := map (\<lambda>l. if ln_latest l = Some rid
     then l\<lparr>ln_latest := map_option rv_id (newest_member (members (ln_id l) d'))\<rparr> else l) (ld_lineages d')\<rparr>)"

text \<open>The columns that identify a revision.\<close>

definition revision_key :: "revision_row \<Rightarrow> string \<times> string \<times> string option \<times> int option \<times> string option" where
  "revision_key r = (rv_id r, rv_owner_id r, rv_lineage_id r, rv_sequence r, rv_revision_value r)"

inductive lineage_step :: "lineage_db \<Rightarrow> lineage_db \<Rightarrow> bool" where
  step_open: "ln_latest l = None \<Longrightarrow> ln_next_sequence l = 1 \<Longrightarrow> lineages_ok (insert_lineage l d) \<Longrightarrow> lineage_step d (insert_lineage l d)"
| step_import: "l \<in> set (ld_lineages d) \<Longrightarrow> rv_lineage_id r = Some (ln_id l) \<Longrightarrow> rv_sequence r = Some (ln_next_sequence l) \<Longrightarrow>
    rv_revision_value r \<notin> rv_revision_value ` set (members (ln_id l) d) \<Longrightarrow> lineages_ok (imported (ln_id l) r d) \<Longrightarrow>
    lineage_step d (imported (ln_id l) r d)"
| step_standalone: "rv_lineage_id r = None \<Longrightarrow> lineages_ok (insert_revision r d) \<Longrightarrow> lineage_step d (insert_revision r d)"
| step_remove: "lineages_ok (removed rid d) \<Longrightarrow> lineage_step d (removed rid d)"
| step_touch: "(\<And>r. revision_key (f r) = revision_key r) \<Longrightarrow> lineages_ok (d\<lparr>ld_rows := map f (ld_rows d)\<rparr>) \<Longrightarrow>
    lineage_step d (d\<lparr>ld_rows := map f (ld_rows d)\<rparr>)"

text \<open>
  What a lineage promises: its members have sequence numbers it has allocated, no two of them the same revision, and it points to the one
  with the highest number.
\<close>

definition lineage_kept :: "lineage_db \<Rightarrow> lineage_row \<Rightarrow> bool" where
  "lineage_kept d l \<longleftrightarrow> (\<forall>r \<in> set (members (ln_id l) d). the (rv_sequence r) < ln_next_sequence l)
     \<and> distinct (map rv_revision_value (members (ln_id l) d)) \<and> ln_latest l = map_option rv_id (newest_member (members (ln_id l) d))"

definition lineage_inv :: "lineage_db \<Rightarrow> bool" where
  "lineage_inv d \<longleftrightarrow> lineages_ok d \<and> (\<forall>l \<in> set (ld_lineages d). lineage_kept d l)"

lemma newest_member_None [simp]: "newest_member rs = None \<longleftrightarrow> rs = []"
  by (auto simp: newest_member_def by_sequence_desc_def split: list.splits) (metis set_empty set_sort)

lemma newest_member_Nil [simp]: "newest_member [] = None"
  by (simp add: newest_member_def by_sequence_desc_def)

lemma newest_member_Some:
  assumes "newest_member rs = Some r"
  shows "r \<in> set rs" and "x \<in> set rs \<Longrightarrow> the (rv_sequence x) \<le> the (rv_sequence r)"
proof -
  obtain rest where s: "by_sequence_desc rs = r # rest" using assms by (auto simp: newest_member_def split: list.splits)
  then have "set rs = set (r # rest)" by (metis by_sequence_desc_def set_sort)
  moreover have "sorted (map (\<lambda>r. - the (rv_sequence r)) (r # rest))" using sorted_sort_key s by (metis by_sequence_desc_def)
  ultimately show "r \<in> set rs" and "x \<in> set rs \<Longrightarrow> the (rv_sequence x) \<le> the (rv_sequence r)" by auto
qed

lemma newest_member_eqI:
  assumes "r \<in> set rs" and "\<And>x. x \<in> set rs \<Longrightarrow> x \<noteq> r \<Longrightarrow> the (rv_sequence x) < the (rv_sequence r)"
  shows "newest_member rs = Some r"
proof -
  obtain n where n: "newest_member rs = Some n" using assms(1) by (cases "newest_member rs") auto
  have "n = r" using newest_member_Some [OF n] assms by (metis leD)
  then show ?thesis using n by simp
qed

lemma lineage_keyed:
  assumes "statements_ok d" and "l \<in> set (ld_lineages d)" and "m \<in> set (ld_lineages d)" and "ln_id l = ln_id m"
  shows "l = m"
  using assms by (auto simp: statements_ok_def distinct_map dest: inj_onD)

lemma sequences_distinct:
  assumes "statements_ok d" and "r \<in> set (members lid d)" and "x \<in> set (members lid d)" and "the (rv_sequence r) = the (rv_sequence x)"
  shows "r = x"
proof -
  have k: "rv_lineage_id r = Some lid" "rv_lineage_id x = Some lid" "r \<in> set (ld_rows d)" "x \<in> set (ld_rows d)"
    using assms(2,3) by (auto simp: members_def in_lineage_def)
  have "ck_repository r" "ck_repository x" using assms(1) k by (auto simp: statements_ok_def list_all_iff)
  then have "rv_sequence r = rv_sequence x" using k assms(4) by (auto simp: ck_repository_def split: option.splits)
  moreover have "inj_on (\<lambda>r. (rv_lineage_id r, rv_sequence r)) (set (filter (\<lambda>r. rv_lineage_id r \<noteq> None) (ld_rows d)))"
    using assms(1) unfolding statements_ok_def distinct_map by blast
  ultimately show ?thesis using k inj_onD [of "\<lambda>r. (rv_lineage_id r, rv_sequence r)" _ r x] by simp
qed
subsection \<open>The steps keep the promise\<close>

lemma members_insert_revision: "members lid (insert_revision r d) = members lid d @ (if in_lineage lid r then [r] else [])"
  by (simp add: members_def insert_revision_def)

lemma members_set_lineage [simp]: "members lid (set_lineage i f d) = members lid d"
  by (simp add: members_def set_lineage_def)

lemma members_insert_lineage [simp]: "members lid (insert_lineage l d) = members lid d"
  by (simp add: members_def insert_lineage_def)

lemma members_delete_row: "members lid (delete_row rid d) = filter (\<lambda>r. rv_id r \<noteq> rid) (members lid d)"
  by (simp add: members_def delete_row_def conj_commute)

lemma lineages_set_lineage: "l \<in> set (ld_lineages (set_lineage i f d)) \<longleftrightarrow> (\<exists>m \<in> set (ld_lineages d). l = (if ln_id m = i then f m else m))"
proof -
  have "ld_lineages (set_lineage i f d) = map (\<lambda>m. if ln_id m = i then f m else m) (ld_lineages d)" by (simp add: set_lineage_def)
  then show ?thesis by (simp only: set_map image_iff)
qed

text \<open>A new lineage has no members: its first one would have violated the foreign key.\<close>

lemma no_members:
  assumes "fk_repositories_lineage_owner d" and "i \<notin> ln_id ` set (ld_lineages d)"
  shows "members i d = []"
  using assms by (force simp: fk_repositories_lineage_owner_def members_def in_lineage_def filter_empty_conv list_all_iff)

lemma kept_open:
  assumes "lineage_inv d" and "ln_latest l = None" and "lineages_ok (insert_lineage l d)"
  shows "lineage_inv (insert_lineage l d)"
proof -
  have "ln_id l \<notin> ln_id ` set (ld_lineages d)"
    using assms(3) by (auto simp: lineages_ok_def statements_ok_def insert_lineage_def)
  then have "members (ln_id l) d = []" using assms(1) no_members by (simp add: lineage_inv_def lineages_ok_def)
  then have "lineage_kept (insert_lineage l d) l" using assms(2) by (simp add: lineage_kept_def)
  moreover have "lineage_kept (insert_lineage l d) m" if "m \<in> set (ld_lineages d)" for m
    using assms(1) that by (simp add: lineage_inv_def lineage_kept_def)
  ultimately show ?thesis using assms(3) by (auto simp: lineage_inv_def insert_lineage_def)
qed

lemma kept_import:
  assumes inv: "lineage_inv d" and l: "l \<in> set (ld_lineages d)" and r: "rv_lineage_id r = Some (ln_id l)" "rv_sequence r = Some (ln_next_sequence l)"
    and new: "rv_revision_value r \<notin> rv_revision_value ` set (members (ln_id l) d)" and ok: "lineages_ok (imported (ln_id l) r d)"
  shows "lineage_inv (imported (ln_id l) r d)"
proof -
  have st: "statements_ok d" using inv by (simp add: lineage_inv_def lineages_ok_def)
  have kept: "lineage_kept d m" if "m \<in> set (ld_lineages d)" for m using inv that by (simp add: lineage_inv_def)
  have "lineage_kept (imported (ln_id l) r d) m'" if m': "m' \<in> set (ld_lineages (imported (ln_id l) r d))" for m'
  proof -
    from m' obtain m where m: "m \<in> set (ld_lineages d)"
      and m'_eq: "m' = (if ln_id m = ln_id l then m\<lparr>ln_next_sequence := ln_next_sequence m + 1, ln_latest := Some (rv_id r)\<rparr> else m)"
      by (auto simp: imported_def lineages_set_lineage insert_revision_def)
    show ?thesis
    proof (cases "ln_id m = ln_id l")
      case True
      then have ml: "m = l" by (rule lineage_keyed [OF st m l])
      have mem: "members (ln_id l) (imported (ln_id l) r d) = members (ln_id l) d @ [r]"
        using r by (simp add: imported_def members_insert_revision in_lineage_def)
      have lt: "the (rv_sequence x) < the (rv_sequence r)" if "x \<in> set (members (ln_id l) d)" for x
        using kept [OF l] that r by (simp add: lineage_kept_def)
      have "newest_member (members (ln_id l) d @ [r]) = Some r" by (rule newest_member_eqI) (use lt in auto)
      then show ?thesis using kept [OF l] mem lt new r by (force simp: lineage_kept_def m'_eq ml)
    next
      case False
      then have "members (ln_id m) (imported (ln_id l) r d) = members (ln_id m) d"
        using r by (simp add: imported_def members_insert_revision in_lineage_def)
      then show ?thesis using kept [OF m] False by (simp add: lineage_kept_def m'_eq)
    qed
  qed
  then show ?thesis using ok by (simp add: lineage_inv_def)
qed

lemma kept_standalone:
  assumes "lineage_inv d" and "rv_lineage_id r = None" and "lineages_ok (insert_revision r d)"
  shows "lineage_inv (insert_revision r d)"
  using assms by (auto simp: lineage_inv_def lineage_kept_def members_insert_revision in_lineage_def) (simp_all add: insert_revision_def)
lemma kept_remove:
  assumes inv: "lineage_inv d" and ok: "lineages_ok (removed rid d)"
  shows "lineage_inv (removed rid d)"
proof -
  have st: "statements_ok d" using inv by (simp add: lineage_inv_def lineages_ok_def)
  have mem: "members i (removed rid d) = filter (\<lambda>r. rv_id r \<noteq> rid) (members i d)" for i
    unfolding removed_def Let_def members_delete_row [symmetric] by (simp add: members_def)
  have "lineage_kept (removed rid d) m'" if m': "m' \<in> set (ld_lineages (removed rid d))" for m'
  proof -
    from m' obtain m where m: "m \<in> set (ld_lineages d)"
      and m'_eq: "m' = (if ln_latest m = Some rid then m\<lparr>ln_latest := map_option rv_id (newest_member (members (ln_id m) (delete_row rid d)))\<rparr> else m)"
      by (auto simp: removed_def Let_def delete_row_def)
    have kept: "lineage_kept d m" using inv m by (simp add: lineage_inv_def)
    have "ln_latest m' = map_option rv_id (newest_member (filter (\<lambda>r. rv_id r \<noteq> rid) (members (ln_id m) d)))"
    proof (cases "ln_latest m = Some rid")
      case True
      then show ?thesis by (simp add: m'_eq members_delete_row)
    next
      case False
      show ?thesis
      proof (cases "newest_member (members (ln_id m) d)")
        case None
        then show ?thesis using kept False by (simp add: m'_eq lineage_kept_def)
      next
        case (Some n)
        then have "rv_id n \<noteq> rid" using kept False by (auto simp: lineage_kept_def)
        moreover have "the (rv_sequence x) < the (rv_sequence n)" if "x \<in> set (members (ln_id m) d)" "x \<noteq> n" for x
          using newest_member_Some [OF Some] sequences_distinct [OF st that(1)] that by (metis order_le_less)
        ultimately have "newest_member (filter (\<lambda>r. rv_id r \<noteq> rid) (members (ln_id m) d)) = Some n"
          using newest_member_Some(1) [OF Some] by (intro newest_member_eqI) auto
        then show ?thesis using kept False Some by (simp add: m'_eq lineage_kept_def)
      qed
    qed
    moreover have "ln_id m' = ln_id m" "ln_next_sequence m' = ln_next_sequence m" by (simp_all add: m'_eq)
    ultimately show ?thesis using kept by (auto simp: lineage_kept_def mem distinct_map_filter)
  qed
  then show ?thesis using ok by (simp add: lineage_inv_def)
qed

lemma kept_touch:
  assumes inv: "lineage_inv d" and f: "\<And>r. revision_key (f r) = revision_key r" and ok: "lineages_ok (d\<lparr>ld_rows := map f (ld_rows d)\<rparr>)"
  shows "lineage_inv (d\<lparr>ld_rows := map f (ld_rows d)\<rparr>)"
proof -
  have k: "rv_id (f r) = rv_id r" "rv_lineage_id (f r) = rv_lineage_id r" "rv_sequence (f r) = rv_sequence r"
    "rv_revision_value (f r) = rv_revision_value r" for r
    using f [of r] by (simp_all add: revision_key_def)
  have mem: "members i (d\<lparr>ld_rows := map f (ld_rows d)\<rparr>) = map f (members i d)" for i
    by (simp add: members_def filter_map comp_def in_lineage_def [abs_def] k)
  have "newest_member (map f rs) = map_option f (newest_member rs)" for rs
    by (simp add: newest_member_def by_sequence_desc_def sort_key_map [symmetric] comp_def k split: list.split)
  then show ?thesis
    using inv ok by (auto simp: lineage_inv_def lineage_kept_def mem comp_def k option.map_comp)
qed

lemma step_keeps: "lineage_step d d' \<Longrightarrow> lineage_inv d \<Longrightarrow> lineage_inv d'"
  by (induction rule: lineage_step.induct) (simp_all add: kept_open kept_import kept_standalone kept_remove kept_touch)

lemma steps_keep: "lineage_step\<^sup>*\<^sup>* d d' \<Longrightarrow> lineage_inv d \<Longrightarrow> lineage_inv d'"
  by (induction rule: rtranclp_induct) (auto dest: step_keeps)

text \<open>A lineage stays, and its counter never goes back.\<close>

definition goes_on :: "lineage_row \<Rightarrow> lineage_db \<Rightarrow> bool" where
  "goes_on l d \<longleftrightarrow> (\<exists>m \<in> set (ld_lineages d). ln_id m = ln_id l \<and> lineage_key m = lineage_key l \<and> ln_next_sequence l \<le> ln_next_sequence m)"

lemma goes_on_trans: "goes_on l d \<Longrightarrow> (\<And>m. m \<in> set (ld_lineages d) \<Longrightarrow> goes_on m d') \<Longrightarrow> goes_on l d'"
  unfolding goes_on_def by (metis order_trans)

lemma step_goes_on: "lineage_step d d' \<Longrightarrow> l \<in> set (ld_lineages d) \<Longrightarrow> goes_on l d'"
proof (induction rule: lineage_step.induct)
  case (step_import k d r)
  let ?m = "if ln_id l = ln_id k then l\<lparr>ln_next_sequence := ln_next_sequence l + 1, ln_latest := Some (rv_id r)\<rparr> else l"
  have "?m \<in> set (ld_lineages (imported (ln_id k) r d))"
    using step_import.prems unfolding imported_def lineages_set_lineage by (auto simp: insert_revision_def)
  moreover have "ln_id ?m = ln_id l \<and> lineage_key ?m = lineage_key l \<and> ln_next_sequence l \<le> ln_next_sequence ?m"
    by (simp add: lineage_key_def)
  ultimately show ?case unfolding goes_on_def by blast
next
  case (step_remove rid d)
  let ?m = "if ln_latest l = Some rid then l\<lparr>ln_latest := map_option rv_id (newest_member (members (ln_id l) (delete_row rid d)))\<rparr> else l"
  have "?m \<in> set (ld_lineages (removed rid d))"
    using step_remove.prems by (simp add: removed_def Let_def delete_row_def)
  moreover have "ln_id ?m = ln_id l \<and> lineage_key ?m = lineage_key l \<and> ln_next_sequence l \<le> ln_next_sequence ?m"
    by (simp add: lineage_key_def)
  ultimately show ?case unfolding goes_on_def by blast
qed (auto simp: goes_on_def insert_lineage_def insert_revision_def)

lemma steps_go_on: "lineage_step\<^sup>*\<^sup>* d d' \<Longrightarrow> l \<in> set (ld_lineages d) \<Longrightarrow> goes_on l d'"
proof (induction rule: rtranclp_induct)
  case base
  then show ?case by (auto simp: goes_on_def)
next
  case (step e d')
  then show ?case by (metis goes_on_trans step_goes_on)
qed
section \<open>Adding a revision\<close>

lemma bindS_on_ldb: "bindS (on_ldb f) g s = g (f (ls_view s)) s"
  by (simp add: on_ldb_def action_defs)

lemma bindS_ls_edit: "bindS (ls_edit f) g s = g () (s\<lparr>ls_view := f (ls_view s)\<rparr>)"
  by (simp add: ls_edit_def action_defs)

lemma bindS_ls_meanwhile: "bindS (ls_meanwhile others) g s = g () (s\<lparr>ls_committed := others (ls_committed s), ls_view := others (ls_committed s)\<rparr>)"
  by (simp add: ls_meanwhile_def action_defs)

lemma bindS_ls_rollback: "bindS ls_rollback g s = g () (s\<lparr>ls_view := ls_committed s\<rparr>)"
  by (simp add: ls_rollback_def action_defs)

lemmas lineage_steps = bindS_on_ldb bindS_ls_edit bindS_ls_meanwhile bindS_ls_rollback

lemma filter_eq_one: "distinct xs \<Longrightarrow> x \<in> set xs \<Longrightarrow> filter (\<lambda>y. y = x) xs = [x]"
  by (induction xs) (auto simp: filter_empty_conv)

text \<open>A lineage among those with distinct ids.\<close>

lemma lineage_selected:
  assumes "distinct (map ln_id ls)" and "l \<in> set ls"
  shows "filter (\<lambda>m. ln_id m = ln_id l \<and> ln_owner_id m = ln_owner_id l) ls = [l]" and "find (\<lambda>m. ln_id m = ln_id l) ls = Some l"
    and "map (\<lambda>m. if ln_id m = ln_id l \<and> ln_owner_id m = ln_owner_id l then f m else m) ls = map (\<lambda>m. if ln_id m = ln_id l then f m else m) ls"
proof -
  have eq: "m = l" if "m \<in> set ls" "ln_id m = ln_id l" for m using assms that by (auto simp: distinct_map dest: inj_onD)
  then have "ln_id m = ln_id l \<and> ln_owner_id m = ln_owner_id l \<longleftrightarrow> ln_id m = ln_id l" if "m \<in> set ls" for m using that by blast
  then show "map (\<lambda>m. if ln_id m = ln_id l \<and> ln_owner_id m = ln_owner_id l then f m else m) ls = map (\<lambda>m. if ln_id m = ln_id l then f m else m) ls"
    by (intro map_cong) auto
  have "filter (\<lambda>m. ln_id m = ln_id l \<and> ln_owner_id m = ln_owner_id l) ls = filter (\<lambda>m. m = l) ls"
    using eq by (intro filter_cong) auto
  also have "\<dots> = [l]" using assms by (intro filter_eq_one) (simp_all add: distinct_map)
  finally show "filter (\<lambda>m. ln_id m = ln_id l \<and> ln_owner_id m = ln_owner_id l) ls = [l]" .
  show "find (\<lambda>m. ln_id m = ln_id l) ls = Some l"
  proof (cases "find (\<lambda>m. ln_id m = ln_id l) ls")
    case None
    then show ?thesis using assms(2) by (auto simp: find_None_iff)
  next
    case (Some m)
    then have "m \<in> set ls" "ln_id m = ln_id l" by (auto simp: find_Some_iff)
    then show ?thesis using Some eq by simp
  qed
qed

definition bumped :: "string \<Rightarrow> lineage_db \<Rightarrow> lineage_db" where
  "bumped lid = set_lineage lid (\<lambda>l. l\<lparr>ln_next_sequence := ln_next_sequence l + 1\<rparr>)"

lemma distinct_set_lineage: "(\<And>l. ln_id (f l) = ln_id l) \<Longrightarrow> map ln_id (ld_lineages (set_lineage i f d)) = map ln_id (ld_lineages d)"
  by (simp add: set_lineage_def)

lemma allocate_result:
  assumes "distinct (map ln_id (ld_lineages (ls_view s)))" and "l \<in> set (ld_lineages (ls_view s))"
  shows "allocate_sequence (ln_id l) (ln_owner_id l) s = (Inr (ln_next_sequence l), s\<lparr>ls_view := bumped (ln_id l) (ls_view s)\<rparr>)"
proof -
  let ?b = "l\<lparr>ln_next_sequence := ln_next_sequence l + 1\<rparr>" and ?ls = "ld_lineages (bumped (ln_id l) (ls_view s))"
  have view: "(ls_view s)\<lparr>ld_lineages := map (\<lambda>m. if ln_id m = ln_id l \<and> ln_owner_id m = ln_owner_id l
      then m\<lparr>ln_next_sequence := ln_next_sequence m + 1\<rparr> else m) (ld_lineages (ls_view s))\<rparr> = bumped (ln_id l) (ls_view s)"
    by (simp only: bumped_def set_lineage_def lineage_selected(3) [OF assms])
  have "distinct (map ln_id ?ls)" using assms(1) distinct_set_lineage by (simp add: bumped_def)
  moreover have "?b \<in> set ?ls" using assms(2) unfolding bumped_def lineages_set_lineage by auto
  ultimately have "find (\<lambda>m. ln_id m = ln_id l) ?ls = Some ?b" using lineage_selected(2) [of ?ls ?b] by simp
  then show ?thesis
    by (simp add: allocate_sequence_def lineage_steps lineage_selected(1) [OF assms] view returnS_def)
qed

lemma bumped_then_latest: "rv_id r = i \<Longrightarrow> set_lineage lid (\<lambda>l. l\<lparr>ln_latest := Some i\<rparr>) (insert_revision r (bumped lid d)) = imported lid r d"
  by (auto simp: imported_def bumped_def set_lineage_def insert_revision_def)

lemma statements_imported: "statements_ok (imported lid r d) = statements_ok (insert_revision r (bumped lid d))"
proof -
  let ?f = "\<lambda>l. if ln_id l = lid then l\<lparr>ln_next_sequence := ln_next_sequence l + 1, ln_latest := Some (rv_id r)\<rparr> else l"
  let ?g = "\<lambda>l. if ln_id l = lid then l\<lparr>ln_next_sequence := ln_next_sequence l + 1\<rparr> else l"
  have "ln_id (?f l) = ln_id l" "ln_id (?g l) = ln_id l" "lineage_key (?f l) = lineage_key l" "lineage_key (?g l) = lineage_key l"
    "ln_source_key (?f l) = ln_source_key l" "ln_source_key (?g l) = ln_source_key l" "ck_lineage (?f l) = ck_lineage (?g l)" for l
    by (auto simp: lineage_key_def ck_lineage_def)
  then show ?thesis
    unfolding statements_ok_def imported_def bumped_def set_lineage_def insert_revision_def
    by (simp add: filter_map comp_def list.pred_map)
qed
definition same_revision :: "string \<Rightarrow> revision_row \<Rightarrow> lineage_db \<Rightarrow> revision_row option" where
  "same_revision lid r d = find (\<lambda>x. in_lineage lid x \<and> rv_revision_value x = rv_revision_value r) (ld_rows d)"

definition placed :: "revision_row \<Rightarrow> lineage_row \<Rightarrow> revision_row" where
  "placed r l = r\<lparr>rv_lineage_id := Some (ln_id l), rv_sequence := Some (ln_next_sequence l)\<rparr>"

lemma placed_fields [simp]:
  "rv_id (placed r l) = rv_id r" "rv_lineage_id (placed r l) = Some (ln_id l)" "rv_sequence (placed r l) = Some (ln_next_sequence l)"
  "rv_revision_value (placed r l) = rv_revision_value r" "rv_owner_id (placed r l) = rv_owner_id r"
  by (simp_all add: placed_def)

lemma bumped_rows [simp]: "ld_rows (bumped lid d) = ld_rows d"
  by (simp add: bumped_def set_lineage_def)

lemma add_to_lineage_result:
  assumes "distinct (map ln_id (ld_lineages (ls_view s)))" and "l \<in> set (ld_lineages (ls_view s))"
  shows "\<exists>v. add_to_lineage r (ln_owner_id l) (ln_id l) s = (case same_revision (ln_id l) r (ls_view s) of
      Some x \<Rightarrow> (Inl (LineageDuplicateRevision x), s\<lparr>ls_view := ls_committed s\<rparr>)
    | None \<Rightarrow> let d = imported (ln_id l) (placed r l) (ls_view s) in
        if lineages_ok d then (Inr (placed r l), open_lineages d) else (Inl LnIntegrityError, s\<lparr>ls_view := v\<rparr>))"
proof (cases "same_revision (ln_id l) r (ls_view s)")
  case (Some x)
  then show ?thesis
    by (simp add: add_to_lineage_def bindS_def [of "allocate_sequence _ _"] allocate_result [OF assms] lineage_steps same_revision_def raiseS_def)
next
  case None
  let ?p = "placed r l" and ?d = "imported (ln_id l) (placed r l) (ls_view s)" and ?s1 = "s\<lparr>ls_view := insert_revision (placed r l) (bumped (ln_id l) (ls_view s))\<rparr>"
  have latest: "set_lineage (ln_id l) (\<lambda>l. l\<lparr>ln_latest := Some (rv_id r)\<rparr>) (insert_revision ?p (bumped (ln_id l) (ls_view s))) = ?d"
    by (rule bumped_then_latest) simp
  have run: "add_to_lineage r (ln_owner_id l) (ln_id l) s = bindS ls_flush (\<lambda>_.
      bindS (ls_edit (set_lineage (ln_id l) (\<lambda>l. l\<lparr>ln_latest := Some (rv_id r)\<rparr>))) (\<lambda>_. bindS ls_commit (\<lambda>_. returnS ?p))) ?s1"
    using None
    by (simp add: add_to_lineage_def bindS_def [of "allocate_sequence _ _"] allocate_result [OF assms] lineage_steps same_revision_def placed_def)
  show ?thesis
  proof (cases "lineages_ok ?d")
    case True
    then have "statements_ok (ls_view ?s1)" using statements_imported by (simp add: lineages_ok_def)
    then have "add_to_lineage r (ln_owner_id l) (ln_id l) s = (Inr ?p, open_lineages ?d)"
      unfolding run using True by (simp add: bindS_def [of ls_flush] ls_flush_def lineage_steps latest)
        (simp add: bindS_def ls_commit_def returnS_def open_lineages_def)
    then show ?thesis using None True by simp
  next
    case False
    have "\<exists>v. add_to_lineage r (ln_owner_id l) (ln_id l) s = (Inl LnIntegrityError, s\<lparr>ls_view := v\<rparr>)"
    proof (cases "statements_ok (ls_view ?s1)")
      case True
      then show ?thesis unfolding run using False by (simp add: bindS_def [of ls_flush] ls_flush_def lineage_steps latest)
        (auto simp: bindS_def ls_commit_def)
    next
      case False
      then show ?thesis unfolding run by (auto simp: bindS_def [of ls_flush] ls_flush_def)
    qed
    then show ?thesis using None False by simp
  qed
qed

text \<open>The lineage an attempt finds or opens, in the database it writes to.\<close>

lemma find_lineage_Some:
  assumes "find_lineage owner key branch d = Some l"
  shows "l \<in> set (ld_lineages d)" and "lineage_key l = (owner, Some key, branch)"
  using assms by (auto simp: find_lineage_def find_Some_iff)

lemma imported_ok:
  assumes inv: "lineage_inv d" and l: "l \<in> set (ld_lineages d)" and r: "rv_owner_id r = ln_owner_id l" "rv_id r \<notin> rv_id ` set (ld_rows d)"
    and ck: "ck_repository (placed r l)"
  shows "lineages_ok (imported (ln_id l) (placed r l) d)"
proof -
  let ?p = "placed r l" and ?d = "imported (ln_id l) (placed r l) d"
  have ok: "statements_ok d" "fk_repositories_lineage_owner d" "fk_lineages_latest_member d" and kept: "lineage_kept d l"
    using inv l by (simp_all add: lineage_inv_def lineages_ok_def)
  have "(Some (ln_id l), Some (ln_next_sequence l)) \<notin> (\<lambda>x. (rv_lineage_id x, rv_sequence x)) ` set (ld_rows d)"
  proof
    assume "(Some (ln_id l), Some (ln_next_sequence l)) \<in> (\<lambda>x. (rv_lineage_id x, rv_sequence x)) ` set (ld_rows d)"
    then obtain x where "x \<in> set (members (ln_id l) d)" "rv_sequence x = Some (ln_next_sequence l)" by (auto simp: members_def in_lineage_def)
    then show False using kept by (auto simp: lineage_kept_def)
  qed
  moreover have "list_all ck_lineage (ld_lineages (bumped (ln_id l) d))"
  proof -
    have "ck_lineage m \<Longrightarrow> ck_lineage (if ln_id m = ln_id l then m\<lparr>ln_next_sequence := ln_next_sequence m + 1\<rparr> else m)" for m
      by (auto simp: ck_lineage_def)
    then show ?thesis using ok(1) by (auto simp: statements_ok_def list_all_iff bumped_def lineages_set_lineage simp del: if_split)
  qed
  moreover have "map lineage_key (filter (\<lambda>l. ln_source_key l \<noteq> None) (ld_lineages (bumped (ln_id l) d)))
      = map lineage_key (filter (\<lambda>l. ln_source_key l \<noteq> None) (ld_lineages d))"
    unfolding bumped_def set_lineage_def by (simp add: filter_map comp_def lineage_key_def if_distrib cong: if_cong)
  moreover have "map ln_id (ld_lineages (bumped (ln_id l) d)) = map ln_id (ld_lineages d)" using distinct_set_lineage by (simp add: bumped_def)
  ultimately have "statements_ok ?d"
    using ok(1) r(2) ck unfolding statements_imported by (auto simp: statements_ok_def insert_revision_def)
  moreover have "fk_repositories_lineage_owner ?d"
  proof -
    have owners: "map (\<lambda>l. (ln_id l, ln_owner_id l)) (ld_lineages ?d) = map (\<lambda>l. (ln_id l, ln_owner_id l)) (ld_lineages d)"
      by (simp add: imported_def set_lineage_def insert_revision_def)
    have rows: "ld_rows ?d = ld_rows d @ [?p]" by (simp add: imported_def set_lineage_def insert_revision_def)
    show ?thesis using ok(2) l r(1) unfolding fk_repositories_lineage_owner_def owners rows by simp
  qed
  moreover have "fk_lineages_latest_member ?d"
    using ok(3) unfolding fk_lineages_latest_member_def list_all_iff imported_def lineages_set_lineage
    by (auto simp: set_lineage_def insert_revision_def split: option.splits)
  ultimately show ?thesis by (simp add: lineages_ok_def)
qed
lemma find_lineage_eq:
  assumes "statements_ok d" and "l \<in> set (ld_lineages d)" and "lineage_key l = (owner, Some key, branch)"
  shows "find_lineage owner key branch d = Some l"
proof (cases "find_lineage owner key branch d")
  case None
  then show ?thesis using assms(2,3) by (auto simp: find_lineage_def find_None_iff)
next
  case (Some m)
  note m = find_lineage_Some [OF Some]
  have "inj_on lineage_key (set (filter (\<lambda>l. ln_source_key l \<noteq> None) (ld_lineages d)))"
    using assms(1) unfolding statements_ok_def distinct_map by blast
  moreover have "ln_source_key l \<noteq> None" "ln_source_key m \<noteq> None" using assms(3) m(2) by (auto simp: lineage_key_def)
  ultimately have "l = m" using assms(2,3) m by (simp add: inj_on_def)
  then show ?thesis using Some by simp
qed

definition lawful_lineages :: "(lineage_db \<Rightarrow> lineage_db) \<Rightarrow> bool" where
  "lawful_lineages f \<longleftrightarrow> (\<forall>d. lineage_inv d \<longrightarrow> lineage_step\<^sup>*\<^sup>* d (f d))"

text \<open>Ids of a request are fresh: no row has them, and nobody else takes them.\<close>

definition unused_ids :: "string \<Rightarrow> string set \<Rightarrow> lineage_db \<Rightarrow> bool" where
  "unused_ids rid lids d \<longleftrightarrow> rid \<notin> rv_id ` set (ld_rows d) \<and> lids \<inter> ln_id ` set (ld_lineages d) = {}"

definition leaves_unused :: "string \<Rightarrow> string set \<Rightarrow> (lineage_db \<Rightarrow> lineage_db) \<Rightarrow> bool" where
  "leaves_unused rid lids f \<longleftrightarrow> (\<forall>d. unused_ids rid lids d \<longrightarrow> unused_ids rid lids (f d))"

text \<open>A row of the owner that meets the constraints once it is placed in a lineage.\<close>

definition importable :: "string \<Rightarrow> revision_row \<Rightarrow> bool" where
  "importable owner r \<longleftrightarrow> rv_owner_id r = owner \<and> ck_repository (r\<lparr>rv_lineage_id := Some [], rv_sequence := Some 1\<rparr>)"

lemma importable_placed: "importable owner r \<Longrightarrow> ck_lineage l \<Longrightarrow> ck_repository (placed r l)"
  by (simp add: importable_def ck_repository_def placed_def ck_lineage_def ck_upload_revision_def ck_git_revision_def cong: if_cong)

text \<open>What an import has come to, and what it has written.\<close>

definition import_settled :: "string \<Rightarrow> string \<Rightarrow> string \<Rightarrow> revision_row \<Rightarrow> lineage_db \<Rightarrow> lineage_error + revision_row \<Rightarrow> lineage_db \<Rightarrow> bool" where
  "import_settled owner key branch r d res d' \<longleftrightarrow> lineage_step\<^sup>*\<^sup>* d d' \<and> (\<exists>l. find_lineage owner key (Some branch) d' = Some l \<and> (case res of
       Inr r' \<Rightarrow> r' \<in> set (members (ln_id l) d') \<and> ln_latest l = Some (rv_id r)
         \<and> r' = r\<lparr>rv_lineage_id := Some (ln_id l), rv_sequence := Some (ln_next_sequence l - 1)\<rparr>
     | Inl e \<Rightarrow> \<exists>x \<in> set (members (ln_id l) d'). e = LineageDuplicateRevision x \<and> rv_revision_value x = rv_revision_value r))"

lemma import_settled_in_lineage:
  assumes inv: "lineage_inv d" and l: "l \<in> set (ld_lineages d)" "lineage_key l = (owner, Some key, Some branch)"
    and r: "importable owner r" "rv_id r \<notin> rv_id ` set (ld_rows d)" and steps: "lineage_step\<^sup>*\<^sup>* d0 c" "lineage_step\<^sup>*\<^sup>* c d"
    and s: "ls_view s = d" "ls_committed s = c" and same: "same_revision (ln_id l) r d \<noteq> None \<longrightarrow> c = d"
  shows "case add_to_lineage r owner (ln_id l) s of (res, s') \<Rightarrow> import_settled owner key branch r d0 res (ls_committed s')"
proof -
  have st: "statements_ok d" and kept: "lineage_kept d l" using inv l by (simp_all add: lineage_inv_def lineages_ok_def)
  then have ids: "distinct (map ln_id (ld_lineages (ls_view s)))" and ck: "ck_lineage l"
    using l by (simp_all add: statements_ok_def list_all_iff s)
  have owner: "ln_owner_id l = owner" using l(2) by (simp add: lineage_key_def)
  have "\<exists>v. add_to_lineage r owner (ln_id l) s = (case same_revision (ln_id l) r d of
      Some x \<Rightarrow> (Inl (LineageDuplicateRevision x), s\<lparr>ls_view := ls_committed s\<rparr>)
    | None \<Rightarrow> let d = imported (ln_id l) (placed r l) d in
        if lineages_ok d then (Inr (placed r l), open_lineages d) else (Inl LnIntegrityError, s\<lparr>ls_view := v\<rparr>))"
    using add_to_lineage_result [OF ids, of l r] l(1) unfolding s owner by blast
  then obtain v where run: "add_to_lineage r owner (ln_id l) s = (case same_revision (ln_id l) r d of
      Some x \<Rightarrow> (Inl (LineageDuplicateRevision x), s\<lparr>ls_view := ls_committed s\<rparr>)
    | None \<Rightarrow> let d = imported (ln_id l) (placed r l) d in
        if lineages_ok d then (Inr (placed r l), open_lineages d) else (Inl LnIntegrityError, s\<lparr>ls_view := v\<rparr>))" by blast
  show ?thesis
  proof (cases "same_revision (ln_id l) r d")
    case (Some x)
    then have "x \<in> set (members (ln_id l) d)" "rv_revision_value x = rv_revision_value r"
      by (auto simp: same_revision_def find_Some_iff members_def)
    moreover have "c = d" using same Some by simp
    ultimately have "import_settled owner key branch r d0 (Inl (LineageDuplicateRevision x)) d" unfolding import_settled_def
      using steps find_lineage_eq [OF st l] by (intro conjI exI [of _ l]) auto
    then show ?thesis using run Some same by (simp add: s)
  next
    case None
    let ?d = "imported (ln_id l) (placed r l) d" and ?m = "l\<lparr>ln_next_sequence := ln_next_sequence l + 1, ln_latest := Some (rv_id r)\<rparr>"
    have ok: "lineages_ok ?d" by (rule imported_ok [OF inv l(1)]) (use r owner ck in \<open>simp_all add: importable_placed importable_def\<close>)
    have "rv_revision_value (placed r l) \<notin> rv_revision_value ` set (members (ln_id l) d)"
      using None by (auto simp: same_revision_def find_None_iff members_def)
    then have "lineage_step d ?d" using l(1) ok by (intro step_import) simp_all
    then have "lineage_step\<^sup>*\<^sup>* d0 ?d" using steps by (meson rtranclp.rtrancl_into_rtrancl rtranclp_trans)
    moreover have "find_lineage owner key (Some branch) ?d = Some ?m"
    proof (rule find_lineage_eq)
      show "statements_ok ?d" using ok by (simp add: lineages_ok_def)
      show "?m \<in> set (ld_lineages ?d)" using l(1) unfolding imported_def lineages_set_lineage by (auto simp: insert_revision_def)
    qed (use l(2) in \<open>simp add: lineage_key_def\<close>)
    moreover have "placed r l \<in> set (members (ln_id l) ?d)" by (simp add: imported_def members_insert_revision in_lineage_def)
    moreover have "placed r l = r\<lparr>rv_lineage_id := Some (ln_id ?m), rv_sequence := Some (ln_next_sequence ?m - 1)\<rparr>" by (simp add: placed_def)
    ultimately have "import_settled owner key branch r d0 (Inr (placed r l)) ?d" unfolding import_settled_def
      by (intro conjI exI [of _ ?m]) simp_all
    then show ?thesis using run None ok by (simp add: open_lineages_def Let_def)
  qed
qed
lemma opened_tables: "ld_rows (insert_lineage l d) = ld_rows d" "ld_lineages (insert_lineage l d) = ld_lineages d @ [l]"
  by (simp_all add: insert_lineage_def)

lemma opened_ok:
  assumes "lineage_inv d" and "find_lineage owner key (Some branch) d = None" and "lid \<notin> ln_id ` set (ld_lineages d)"
  shows "lineages_ok (insert_lineage (new_lineage lid now owner key (Some branch) name) d)"
proof -
  have ok: "statements_ok d" "fk_repositories_lineage_owner d" "fk_lineages_latest_member d"
    using assms(1) by (simp_all add: lineage_inv_def lineages_ok_def)
  have "lineage_key (new_lineage lid now owner key (Some branch) name) \<notin> lineage_key ` set (ld_lineages d)"
    using assms(2) by (auto simp: find_lineage_def find_None_iff lineage_key_def new_lineage_def)
  then have "statements_ok (insert_lineage (new_lineage lid now owner key (Some branch) name) d)"
    using ok(1) assms(3) by (auto simp: statements_ok_def insert_lineage_def new_lineage_def ck_lineage_def)
  moreover have "fk_repositories_lineage_owner (insert_lineage (new_lineage lid now owner key (Some branch) name) d)"
    using ok(2) unfolding fk_repositories_lineage_owner_def list_all_iff by (auto simp: insert_lineage_def split: option.splits)
  moreover have "fk_lineages_latest_member (insert_lineage (new_lineage lid now owner key (Some branch) name) d)"
    using ok(3) unfolding fk_lineages_latest_member_def opened_tables by (simp add: new_lineage_def)
  ultimately show ?thesis by (simp add: lineages_ok_def)
qed

lemma bindS_ls_flush: "bindS ls_flush g s = (if statements_ok (ls_view s) then g () s else (Inl LnIntegrityError, s))"
  by (simp add: bindS_def ls_flush_def)

text \<open>One attempt settles the import, or another request opened the lineage since it looked.\<close>

lemma once_settles:
  assumes inv: "lineage_inv d" and o1: "lawful_lineages others" and r: "importable owner r"
    and free: "unused_ids (rv_id r) {lid} (others d)" and d0: "lineage_step\<^sup>*\<^sup>* d0 d"
    and run: "add_with_lineage_once others lid now r owner key (Some branch) name (open_lineages d) = (res, s')"
  shows "import_settled owner key branch r d0 res (ls_committed s')
    \<or> res = Inl LnIntegrityError \<and> ls_committed s' = others d \<and> find_lineage owner key (Some branch) d = None
      \<and> find_lineage owner key (Some branch) (others d) \<noteq> None"
proof -
  let ?d = "others d" and ?new = "new_lineage lid now owner key (Some branch) name"
  have steps: "lineage_step\<^sup>*\<^sup>* d ?d" using o1 inv by (simp add: lawful_lineages_def)
  have inv1: "lineage_inv ?d" by (rule steps_keep [OF steps inv])
  have d1: "lineage_step\<^sup>*\<^sup>* d0 ?d" using d0 steps by (rule rtranclp_trans)
  have rid: "rv_id r \<notin> rv_id ` set (ld_rows ?d)" and lid: "lid \<notin> ln_id ` set (ld_lineages ?d)" using free by (auto simp: unused_ids_def)
  show ?thesis
  proof (cases "find_lineage owner key (Some branch) d")
    case (Some l)
    note l = find_lineage_Some [OF Some]
    from steps_go_on [OF steps l(1)] obtain m where m: "m \<in> set (ld_lineages ?d)" "ln_id m = ln_id l" "lineage_key m = (owner, Some key, Some branch)"
      using l(2) by (auto simp: goes_on_def)
    have "add_with_lineage_once others lid now r owner key (Some branch) name (open_lineages d) = add_to_lineage r owner (ln_id m) (open_lineages ?d)"
      using Some m(2) by (simp add: add_with_lineage_once_def lineage_steps open_lineages_def) (simp add: bindS_def returnS_def)
    then show ?thesis
      using import_settled_in_lineage [OF inv1 m(1,3) r rid d1 rtranclp.rtrancl_refl, of "open_lineages ?d"] run by (simp add: open_lineages_def)
  next
    case None
    have start: "add_with_lineage_once others lid now r owner key (Some branch) name (open_lineages d)
        = bindS (bindS ls_flush (\<lambda>_. returnS lid)) (add_to_lineage r owner) \<lparr> ls_committed = ?d, ls_view = insert_lineage ?new ?d \<rparr>"
      using None by (simp add: add_with_lineage_once_def lineage_steps open_lineages_def) (simp add: bindS_def [of "bindS _ _"] lineage_steps)
    show ?thesis
    proof (cases "find_lineage owner key (Some branch) ?d")
      case None
      let ?s = "\<lparr> ls_committed = ?d, ls_view = insert_lineage ?new ?d \<rparr>"
      have ok: "lineages_ok (insert_lineage ?new ?d)" by (rule opened_ok [OF inv1 None lid])
      have inv2: "lineage_inv (insert_lineage ?new ?d)" by (rule kept_open [OF inv1 _ ok]) (simp add: new_lineage_def)
      have "lineage_step ?d (insert_lineage ?new ?d)" by (rule step_open [OF _ _ ok]) (simp_all add: new_lineage_def)
      then have step: "lineage_step\<^sup>*\<^sup>* ?d (insert_lineage ?new ?d)" by (rule r_into_rtranclp)
      have "members lid ?d = []" using no_members lid inv1 by (simp add: lineage_inv_def lineages_ok_def)
      then have none: "same_revision lid r (insert_lineage ?new ?d) = None"
        by (auto simp: same_revision_def find_None_iff members_def filter_empty_conv insert_lineage_def)
      have "add_with_lineage_once others lid now r owner key (Some branch) name (open_lineages d) = add_to_lineage r owner lid ?s"
        unfolding start using ok by (simp add: bindS_def ls_flush_def returnS_def lineages_ok_def)
      moreover have mem: "?new \<in> set (ld_lineages (insert_lineage ?new ?d))" and new_key: "lineage_key ?new = (owner, Some key, Some branch)"
        and new_id: "ln_id ?new = lid"
        by (simp_all add: insert_lineage_def new_lineage_def lineage_key_def)
      have rid2: "rv_id r \<notin> rv_id ` set (ld_rows (insert_lineage ?new ?d))" using rid by (simp add: insert_lineage_def)
      have "case add_to_lineage r owner (ln_id ?new) ?s of (res, s') \<Rightarrow> import_settled owner key branch r d0 res (ls_committed s')"
        by (rule import_settled_in_lineage [OF inv2 mem new_key r rid2 d1 step]) (simp_all add: none new_id)
      ultimately show ?thesis using run by (auto simp: new_id split: prod.splits)
    next
      case (Some m)
      note m = find_lineage_Some [OF Some]
      have "\<not> statements_ok (insert_lineage ?new ?d)"
      proof -
        have "lineage_key ?new = lineage_key m" "ln_source_key m \<noteq> None" using m(2) by (auto simp: lineage_key_def new_lineage_def)
        moreover have "ln_source_key ?new \<noteq> None" by (simp add: new_lineage_def)
        ultimately show ?thesis using m(1) unfolding statements_ok_def opened_tables by (auto simp: image_iff)
      qed
      then show ?thesis using None Some run unfolding start by (auto simp: bindS_def ls_flush_def)
    qed
  qed
qed
lemma attempts_step:
  "lineage_attempts once ((lid, others) # rest) (open_lineages d) = (case once lid others (open_lineages d) of
     (Inl LnIntegrityError, s') \<Rightarrow> lineage_attempts once rest (open_lineages (ls_committed s')) | r \<Rightarrow> r)"
proof -
  have "s'\<lparr>ls_view := ls_committed s'\<rparr> = open_lineages (ls_committed s')" for s' by (simp add: open_lineages_def)
  then show ?thesis by (auto simp: lineage_steps split: prod.split sum.split lineage_error.split)
qed

text \<open>What is assumed of the environment of an import: it follows the protocol and leaves the import's own ids alone.\<close>

definition import_env :: "string \<Rightarrow> (nat \<Rightarrow> lineage_db \<Rightarrow> lineage_db) \<Rightarrow> (nat \<Rightarrow> string) \<Rightarrow> bool" where
  "import_env rid others ids \<longleftrightarrow> (\<forall>i. lawful_lineages (others i) \<and> leaves_unused rid (range ids) (others i))"

lemma unused_sub: "unused_ids rid A d \<Longrightarrow> B \<subseteq> A \<Longrightarrow> unused_ids rid B d"
  by (auto simp: unused_ids_def)

lemma add_with_lineage_settles:
  assumes inv: "lineage_inv d" and env: "import_env (rv_id r) others ids" and r: "importable owner r" and free: "unused_ids (rv_id r) (range ids) d"
    and run: "add_with_lineage others ids now r owner (Some key) (Some branch) name (open_lineages d) = (res, s')"
  shows "import_settled owner key branch r d res (ls_committed s')"
proof -
  let ?once = "\<lambda>new_id f. add_with_lineage_once f new_id now r owner key (Some branch) name"
  have env_i: "lawful_lineages (others i)" "leaves_unused (rv_id r) (range ids) (others i)" for i using env by (simp_all add: import_env_def)
  have attempts: "map (\<lambda>i. (ids i, others i)) [0..<MAX_LINEAGE_RETRIES] = (ids 0, others 0) # (ids 1, others 1) # map (\<lambda>i. (ids i, others i)) [2, 3, 4]"
    by (simp add: MAX_LINEAGE_RETRIES_def upt_conv_Cons numeral_eq_Suc)
  have free0: "unused_ids (rv_id r) (range ids) (others 0 d)" using env_i(2) free by (simp add: leaves_unused_def)
  have free1: "unused_ids (rv_id r) (range ids) (others 1 (others 0 d))" using env_i(2) free0 by (simp add: leaves_unused_def)
  have run': "lineage_attempts ?once ((ids 0, others 0) # (ids 1, others 1) # map (\<lambda>i. (ids i, others i)) [2, 3, 4]) (open_lineages d) = (res, s')"
    using run unfolding add_with_lineage_def by (simp only: option.case attempts)
  obtain res0 s0 where once0: "?once (ids 0) (others 0) (open_lineages d) = (res0, s0)" by (metis surj_pair)
  note first = once_settles [OF inv env_i(1) r unused_sub [OF free0] rtranclp.rtrancl_refl once0]
  show ?thesis
  proof (cases "res0 = Inl LnIntegrityError")
    case False
    then have "(res, s') = (res0, s0)"
      using run' once0 unfolding attempts_step by (auto split: sum.splits lineage_error.splits)
    then show ?thesis using first False by simp
  next
    case True
    then have race: "ls_committed s0 = others 0 d" "find_lineage owner key (Some branch) (others 0 d) \<noteq> None"
      using first by (auto simp: import_settled_def)
    have steps0: "lineage_step\<^sup>*\<^sup>* d (others 0 d)" using env_i(1) inv by (simp add: lawful_lineages_def)
    obtain res1 s1 where once1: "?once (ids 1) (others 1) (open_lineages (others 0 d)) = (res1, s1)" by (metis surj_pair)
    have second: "import_settled owner key branch r d res1 (ls_committed s1)"
      using once_settles [OF steps_keep [OF steps0 inv] env_i(1) r unused_sub [OF free1] steps0 once1] race(2) by auto
    then have "res1 \<noteq> Inl LnIntegrityError" by (auto simp: import_settled_def)
    moreover have "lineage_attempts ?once ((ids 1, others 1) # map (\<lambda>i. (ids i, others i)) [2, 3, 4]) (open_lineages (others 0 d)) = (res, s')"
      using run' once0 True race(1) unfolding attempts_step by simp
    ultimately have "(res, s') = (res1, s1)"
      using once1 unfolding attempts_step by (auto split: sum.splits lineage_error.splits)
    then show ?thesis using second by simp
  qed
qed
section \<open>Deleting a revision\<close>

lemma removed_tables:
  "ld_rows (removed rid d) = filter (\<lambda>r. rv_id r \<noteq> rid) (ld_rows d)"
  "ld_lineages (removed rid d) = map (\<lambda>l. if ln_latest l = Some rid
     then l\<lparr>ln_latest := map_option rv_id (newest_member (members (ln_id l) (delete_row rid d)))\<rparr> else l) (ld_lineages d)"
  by (simp_all add: removed_def Let_def delete_row_def)

lemma statements_fewer:
  assumes "statements_ok d" and "ld_rows d' = filter P (ld_rows d)"
    and keys: "map (\<lambda>l. (ln_id l, lineage_key l)) (ld_lineages d') = map (\<lambda>l. (ln_id l, lineage_key l)) (ld_lineages d)"
    and "list_all ck_lineage (ld_lineages d')"
  shows "statements_ok d'"
proof -
  have ids: "map ln_id (ld_lineages d') = map ln_id (ld_lineages d)" using arg_cong [OF keys, of "map fst"] by (simp add: comp_def)
  have k: "map lineage_key (filter (\<lambda>l. ln_source_key l \<noteq> None) ls) = filter (\<lambda>k. fst (snd k) \<noteq> None) (map snd (map (\<lambda>l. (ln_id l, lineage_key l)) ls))" for ls
    by (induction ls) (auto simp: lineage_key_def)
  have key: "map lineage_key (filter (\<lambda>l. ln_source_key l \<noteq> None) (ld_lineages d')) = map lineage_key (filter (\<lambda>l. ln_source_key l \<noteq> None) (ld_lineages d))"
    unfolding k keys ..
  have swap: "filter (\<lambda>r. rv_lineage_id r \<noteq> None) (filter P (ld_rows d)) = filter P (filter (\<lambda>r. rv_lineage_id r \<noteq> None) (ld_rows d))"
    by (simp add: conj_commute)
  show ?thesis
    using assms(1,4) unfolding statements_ok_def assms(2) ids key swap
    by (simp add: distinct_map_filter list_all_iff del: filter_filter)
qed

lemma removed_ok:
  assumes "lineages_ok d"
  shows "lineages_ok (removed rid d)"
proof -
  let ?f = "\<lambda>l. if ln_latest l = Some rid then l\<lparr>ln_latest := map_option rv_id (newest_member (members (ln_id l) (delete_row rid d)))\<rparr> else l"
  have ok: "statements_ok d" "fk_repositories_lineage_owner d" "fk_lineages_latest_member d" using assms by (simp_all add: lineages_ok_def)
  have f: "ln_id (?f l) = ln_id l" "ln_owner_id (?f l) = ln_owner_id l" "ln_source_key (?f l) = ln_source_key l" "lineage_key (?f l) = lineage_key l"
    "ck_lineage (?f l) = ck_lineage l" for l
    by (auto simp: lineage_key_def ck_lineage_def)
  have "statements_ok (removed rid d)"
  proof (rule statements_fewer [OF ok(1) removed_tables(1)])
    show "map (\<lambda>l. (ln_id l, lineage_key l)) (ld_lineages (removed rid d)) = map (\<lambda>l. (ln_id l, lineage_key l)) (ld_lineages d)"
      unfolding removed_tables map_map comp_def f ..
    show "list_all ck_lineage (ld_lineages (removed rid d))"
      using ok(1) unfolding removed_tables list.pred_map comp_def f statements_ok_def by blast
  qed
  moreover have "fk_repositories_lineage_owner (removed rid d)"
    using ok(2) unfolding fk_repositories_lineage_owner_def removed_tables map_map comp_def f by (simp add: list_all_iff)
  moreover have "fk_lineages_latest_member (removed rid d)"
    unfolding fk_lineages_latest_member_def list_all_iff
  proof
    fix m assume "m \<in> set (ld_lineages (removed rid d))"
    then obtain l where l: "l \<in> set (ld_lineages d)" and m: "m = ?f l" by (auto simp: removed_tables)
    show "case ln_latest m of None \<Rightarrow> True | Some i \<Rightarrow> (i, Some (ln_id m)) \<in> set (map (\<lambda>r. (rv_id r, rv_lineage_id r)) (ld_rows (removed rid d)))"
    proof (cases "ln_latest l = Some rid")
      case True
      then show ?thesis
        by (auto simp: m members_def delete_row_def in_lineage_def removed_tables dest!: newest_member_Some(1) split: option.split)
    next
      case False
      then show ?thesis using ok(3) l by (auto simp: m fk_lineages_latest_member_def list_all_iff removed_tables image_iff split: option.splits)
    qed
  qed
  ultimately show ?thesis by (simp add: lineages_ok_def)
qed
lemma latest_in_lineage:
  assumes "lineages_ok d" and "r \<in> set (ld_rows d)" and "l \<in> set (ld_lineages d)" and "ln_latest l = Some (rv_id r)"
  shows "rv_lineage_id r = Some (ln_id l)"
proof -
  obtain x where x: "x \<in> set (ld_rows d)" "rv_id x = rv_id r" "rv_lineage_id x = Some (ln_id l)"
  proof -
    have "fk_lineages_latest_member d" using assms(1) by (simp add: lineages_ok_def)
    then have all: "\<forall>l \<in> set (ld_lineages d). case ln_latest l of None \<Rightarrow> True
        | Some i \<Rightarrow> (i, Some (ln_id l)) \<in> set (map (\<lambda>r. (rv_id r, rv_lineage_id r)) (ld_rows d))"
      unfolding fk_lineages_latest_member_def list_all_iff .
    from bspec [OF all assms(3)] have "(rv_id r, Some (ln_id l)) \<in> set (map (\<lambda>r. (rv_id r, rv_lineage_id r)) (ld_rows d))"
      unfolding assms(4) option.case .
    then obtain x where "x \<in> set (ld_rows d)" "(rv_id r, Some (ln_id l)) = (rv_id x, rv_lineage_id x)" unfolding set_map by blast
    then show thesis using that by simp
  qed
  have "inj_on rv_id (set (ld_rows d))" using assms(1) by (simp add: lineages_ok_def statements_ok_def distinct_map)
  then have "x = r" using x assms(2) by (auto dest: inj_onD)
  then show ?thesis using x by simp
qed

lemma removed_plain:
  assumes "\<And>l. l \<in> set (ld_lineages d) \<Longrightarrow> ln_latest l \<noteq> Some rid"
  shows "removed rid d = delete_row rid d"
proof -
  have "map (\<lambda>l. if ln_latest l = Some rid then f l else l) (ld_lineages d) = ld_lineages d" for f using assms by (intro map_idI) auto
  then show ?thesis by (simp add: removed_def Let_def delete_row_def)
qed

lemma removed_latest:
  assumes "lineages_ok d" and "r \<in> set (ld_rows d)" and "l \<in> set (ld_lineages d)" and "ln_latest l = Some (rv_id r)"
  shows "removed (rv_id r) d = delete_row (rv_id r) (set_lineage (ln_id l)
    (\<lambda>m. m\<lparr>ln_latest := map_option rv_id (newest_member (members (ln_id l) (delete_row (rv_id r) d)))\<rparr>) d)"
proof -
  have "ln_latest m = Some (rv_id r) \<longleftrightarrow> ln_id m = ln_id l" if "m \<in> set (ld_lineages d)" for m
    using latest_in_lineage [OF assms(1,2) that] latest_in_lineage [OF assms] lineage_keyed [OF _ that assms(3)] assms(1,4)
    by (auto simp: lineages_ok_def)
  then have maps: "map (\<lambda>m. if ln_latest m = Some (rv_id r) then m\<lparr>ln_latest := map_option rv_id (newest_member (members (ln_id m) (delete_row (rv_id r) d)))\<rparr> else m) (ld_lineages d)
      = map (\<lambda>m. if ln_id m = ln_id l then m\<lparr>ln_latest := map_option rv_id (newest_member (members (ln_id l) (delete_row (rv_id r) d)))\<rparr> else m) (ld_lineages d)"
    by (intro map_cong) auto
  have "removed (rv_id r) d = (delete_row (rv_id r) d)\<lparr>ld_lineages := map (\<lambda>m. if ln_latest m = Some (rv_id r)
      then m\<lparr>ln_latest := map_option rv_id (newest_member (members (ln_id m) (delete_row (rv_id r) d)))\<rparr> else m) (ld_lineages d)\<rparr>"
    by (simp add: removed_def Let_def delete_row_def)
  then show ?thesis unfolding maps by (simp add: delete_row_def set_lineage_def)
qed

lemma bindS_bindS: "bindS (bindS m f) g = bindS m (\<lambda>x. bindS (f x) g)"
  by (simp add: bindS_def fun_eq_iff split: prod.split sum.split)

lemma bindS_write_latest: "lid \<in> set (map ln_id (ld_lineages (ls_view s))) \<Longrightarrow>
    bindS (write_latest lid x) g s = g () (s\<lparr>ls_view := set_lineage lid (\<lambda>l. l\<lparr>ln_latest := x\<rparr>) (ls_view s)\<rparr>)"
  by (simp add: bindS_def write_latest_def ls_edit_def)

lemma delete_locked:
  assumes inv: "lineage_inv d" and r: "r \<in> set (ld_rows d)"
  shows "delete_with_lineage_update id r (open_lineages d) = (Inr (), open_lineages (removed (rv_id r) d))"
proof -
  have ok: "lineages_ok d" using inv by (simp add: lineage_inv_def)
  have finish: "bindS (ls_edit (delete_row (rv_id r))) (\<lambda>_. ls_commit) \<lparr> ls_committed = d, ls_view = v \<rparr> = (Inr (), open_lineages (removed (rv_id r) d))"
    if "delete_row (rv_id r) v = removed (rv_id r) d" for v
    using removed_ok [OF ok, of "rv_id r"] that by (simp add: lineage_steps ls_commit_def open_lineages_def)
  show ?thesis
  proof (cases "rv_lineage_id r")
    case None
    then have "removed (rv_id r) d = delete_row (rv_id r) d" using latest_in_lineage [OF ok r] by (intro removed_plain) auto
    then show ?thesis
      using None finish [of d] by (simp add: delete_with_lineage_update_def open_lineages_def lineage_steps)
  next
    case (Some lid)
    then obtain l where l: "l \<in> set (ld_lineages d)" "ln_id l = lid"
      using ok r by (force simp: lineages_ok_def fk_repositories_lineage_owner_def list_all_iff)
    have ids: "distinct (map ln_id (ld_lineages d))" using ok by (simp add: lineages_ok_def statements_ok_def)
    have find: "find (\<lambda>m. ln_id m = lid) (ld_lineages d) = Some l" using lineage_selected(2) [OF ids l(1)] l(2) by simp
    show ?thesis
    proof (cases "ln_latest l = Some (rv_id r)")
      case True
      have "filter (\<lambda>x. in_lineage lid x \<and> rv_id x \<noteq> rv_id r) (ld_rows d) = members lid (delete_row (rv_id r) d)"
        by (simp add: members_def delete_row_def conj_commute)
      then have "(case by_sequence_desc (filter (\<lambda>x. in_lineage lid x \<and> rv_id x \<noteq> rv_id r) (ld_rows d)) of [] \<Rightarrow> None | x # _ \<Rightarrow> Some (rv_id x))
          = map_option rv_id (newest_member (members lid (delete_row (rv_id r) d)))"
        by (simp add: newest_member_def split: list.split)
      moreover have "lid \<in> set (map ln_id (ld_lineages d))" using l by auto
      ultimately show ?thesis
        using Some find True removed_latest [OF ok r l(1) True] finish [of "set_lineage lid (\<lambda>m. m\<lparr>ln_latest := map_option rv_id (newest_member (members lid (delete_row (rv_id r) d)))\<rparr>) d"] l(2)
        by (simp add: delete_with_lineage_update_def open_lineages_def lineage_steps bindS_bindS bindS_write_latest)
    next
      case False
      have "ln_latest m \<noteq> Some (rv_id r)" if m: "m \<in> set (ld_lineages d)" for m
      proof
        assume latest: "ln_latest m = Some (rv_id r)"
        then have "ln_id m = ln_id l" using latest_in_lineage [OF ok r m] Some l(2) by simp
        then have "m = l" using lineage_keyed [OF _ m l(1)] ok by (simp add: lineages_ok_def)
        then show False using latest False by simp
      qed
      then have "removed (rv_id r) d = delete_row (rv_id r) d" by (rule removed_plain)
      then show ?thesis
        using Some find False finish [of d] by (simp add: delete_with_lineage_update_def open_lineages_def lineage_steps bindS_bindS)
    qed
  qed
qed
section \<open>What a lineage promises\<close>

text \<open>
  C13: An import always settles. Whatever other requests do in between, an import of a source and branch ends in one of two ways: its
  row is in the lineage of that source and branch, numbered with the number the lineage allocated last and the lineage's latest; or the lineage
  already has that revision and the error names it. A race for the first import of a source never surfaces: what it writes is a run of the
  protocol of lineages, and it is settled at the second attempt at the latest.
\<close>

theorem import_settles:
  assumes "lineage_inv d" and "import_env (rv_id r) others ids" and "importable owner r" and "unused_ids (rv_id r) (range ids) d"
    and "add_with_lineage others ids now r owner (Some key) (Some branch) name (open_lineages d) = (res, s')"
  shows "lineage_step\<^sup>*\<^sup>* d (ls_committed s')
    \<and> (\<exists>l. find_lineage owner key (Some branch) (ls_committed s') = Some l \<and> (case res of
        Inr r' \<Rightarrow> r' = r\<lparr>rv_lineage_id := Some (ln_id l), rv_sequence := Some (ln_next_sequence l - 1)\<rparr>
          \<and> r' \<in> set (ld_rows (ls_committed s')) \<and> ln_latest l = Some (rv_id r)
      | Inl e \<Rightarrow> \<exists>x \<in> set (ld_rows (ls_committed s')). e = LineageDuplicateRevision x
          \<and> rv_lineage_id x = Some (ln_id l) \<and> rv_revision_value x = rv_revision_value r))"
proof -
  from add_with_lineage_settles [OF assms] obtain l where l: "lineage_step\<^sup>*\<^sup>* d (ls_committed s')"
    "find_lineage owner key (Some branch) (ls_committed s') = Some l" and res: "case res of
       Inr r' \<Rightarrow> r' \<in> set (members (ln_id l) (ls_committed s')) \<and> ln_latest l = Some (rv_id r)
         \<and> r' = r\<lparr>rv_lineage_id := Some (ln_id l), rv_sequence := Some (ln_next_sequence l - 1)\<rparr>
     | Inl e \<Rightarrow> \<exists>x \<in> set (members (ln_id l) (ls_committed s')). e = LineageDuplicateRevision x \<and> rv_revision_value x = rv_revision_value r"
    unfolding import_settled_def by blast
  from res have "case res of
        Inr r' \<Rightarrow> r' = r\<lparr>rv_lineage_id := Some (ln_id l), rv_sequence := Some (ln_next_sequence l - 1)\<rparr>
          \<and> r' \<in> set (ld_rows (ls_committed s')) \<and> ln_latest l = Some (rv_id r)
      | Inl e \<Rightarrow> \<exists>x \<in> set (ld_rows (ls_committed s')). e = LineageDuplicateRevision x
          \<and> rv_lineage_id x = Some (ln_id l) \<and> rv_revision_value x = rv_revision_value r"
    by (auto simp: members_def in_lineage_def split: sum.splits)
  then show ?thesis using l by blast
qed

text \<open>The requests that write repositories, where \<^verbatim>\<open>FOR UPDATE\<close> locks.\<close>

inductive lineage_request :: "lineage_db \<Rightarrow> lineage_db \<Rightarrow> bool" where
  req_import: "import_env (rv_id r) others ids \<Longrightarrow> importable owner r \<Longrightarrow> unused_ids (rv_id r) (range ids) d \<Longrightarrow>
    lineage_request d (ls_committed (snd (add_with_lineage others ids now r owner (Some key) (Some branch) name (open_lineages d))))"
| req_upload: "rv_lineage_id r = None \<Longrightarrow>
    lineage_request d (ls_committed (snd (add_with_lineage others ids now r owner None branch name (open_lineages d))))"
| req_delete: "r \<in> set (ld_rows d) \<Longrightarrow> lineage_request d (ls_committed (snd (delete_with_lineage_update id r (open_lineages d))))"
| req_analysis: "(\<And>r. revision_key (f r) = revision_key r) \<Longrightarrow> lineages_ok (d\<lparr>ld_rows := map f (ld_rows d)\<rparr>) \<Longrightarrow>
    lineage_request d (d\<lparr>ld_rows := map f (ld_rows d)\<rparr>)"

lemma lineage_request_follows: "lineage_request d d' \<Longrightarrow> lineage_inv d \<Longrightarrow> lineage_step\<^sup>*\<^sup>* d d'"
proof (induction rule: lineage_request.induct)
  case (req_import r others ids owner d now key branch name)
  then show ?case using add_with_lineage_settles [OF req_import(4) req_import(1-3) prod.collapse [symmetric]] by (simp add: import_settled_def)
next
  case (req_upload r d others ids now owner branch name)
  then show ?case
    by (auto simp: add_with_lineage_def add_row_def lineage_steps bindS_def [of ls_commit] ls_commit_def open_lineages_def returnS_def
      intro: step_standalone r_into_rtranclp)
next
  case (req_delete r d)
  then have "lineage_step d (removed (rv_id r) d)" using removed_ok [of d "rv_id r"] by (intro step_remove) (simp add: lineage_inv_def)
  then show ?case using req_delete by (simp add: delete_locked open_lineages_def [of "removed _ _"] r_into_rtranclp)
next
  case (req_analysis f d)
  then show ?case by (auto intro: step_touch r_into_rtranclp)
qed

lemma lineage_requests_follow: "lineage_request\<^sup>*\<^sup>* d d' \<Longrightarrow> lineage_inv d \<Longrightarrow> lineage_step\<^sup>*\<^sup>* d d' \<and> lineage_inv d'"
  by (induction rule: rtranclp_induct) (auto dest: lineage_request_follows steps_keep intro: rtranclp_trans)

lemma step_members:
  assumes "lineage_step d d'" and "r \<in> set (members lid d')"
  shows "(\<exists>x \<in> set (members lid d). revision_key x = revision_key r) \<or> (\<exists>l \<in> set (ld_lineages d). ln_id l = lid \<and> rv_sequence r = Some (ln_next_sequence l))"
  using assms
proof (induction rule: lineage_step.induct)
  case (step_import l d x)
  then show ?case by (auto simp: imported_def members_insert_revision in_lineage_def split: if_splits)
next
  case (step_standalone x d)
  then show ?case by (auto simp: members_insert_revision in_lineage_def split: if_splits)
next
  case (step_remove rid d)
  then show ?case by (auto simp: members_def removed_tables)
next
  case (step_touch f d)
  have "rv_lineage_id (f x) = rv_lineage_id x" for x using step_touch(1) [of x] by (simp add: revision_key_def)
  then show ?case using step_touch by (auto simp: members_def in_lineage_def)
qed auto

lemma steps_members:
  assumes "lineage_step\<^sup>*\<^sup>* d d'" and "lineage_inv d" and "l \<in> set (ld_lineages d)" and "r \<in> set (members (ln_id l) d')"
  shows "(\<exists>x \<in> set (members (ln_id l) d). revision_key x = revision_key r) \<or> ln_next_sequence l \<le> the (rv_sequence r)"
  using assms
proof (induction arbitrary: r rule: rtranclp_induct)
  case base
  then show ?case by blast
next
  case (step e d')
  from step_members [OF step(2) step(6)] show ?case
  proof
    assume "\<exists>x \<in> set (members (ln_id l) e). revision_key x = revision_key r"
    then obtain x where x: "x \<in> set (members (ln_id l) e)" "revision_key x = revision_key r" by blast
    then have "rv_sequence x = rv_sequence r" by (simp add: revision_key_def)
    then show ?thesis using step.IH [OF step(4,5) x(1)] x(2) by simp
  next
    assume "\<exists>m \<in> set (ld_lineages e). ln_id m = ln_id l \<and> rv_sequence r = Some (ln_next_sequence m)"
    then obtain m where m: "m \<in> set (ld_lineages e)" "ln_id m = ln_id l" "rv_sequence r = Some (ln_next_sequence m)" by blast
    obtain k where k: "k \<in> set (ld_lineages e)" "ln_id k = ln_id l" "ln_next_sequence l \<le> ln_next_sequence k"
      using steps_go_on [OF step(1,5)] by (auto simp: goes_on_def)
    have "m = k" using lineage_keyed [OF _ m(1) k(1)] m(2) k(2) steps_keep [OF step(1,4)] by (simp add: lineage_inv_def lineages_ok_def)
    then show ?thesis using k m by simp
  qed
qed

text \<open>
  C15: A revision number is never used twice. Whatever is imported, deleted or analysed after some point in time, a revision that is in
  a lineage afterwards either was there before, with the same id, commit and number, or has a higher number than every one the lineage had allocated by
  then, those of deleted revisions included.
\<close>

theorem sequences_never_reused:
  assumes "lineage_request\<^sup>*\<^sup>* d d'" and "lineage_inv d" and "l \<in> set (ld_lineages d)" and "r \<in> set (members (ln_id l) d')"
  shows "(\<exists>x \<in> set (members (ln_id l) d). revision_key x = revision_key r) \<or> ln_next_sequence l \<le> the (rv_sequence r)"
  using steps_members [OF _ assms(2-4)] lineage_requests_follow [OF assms(1,2)] by blast

section \<open>Witnesses\<close>

definition sample_commit :: "char \<Rightarrow> string" where
  "sample_commit c = replicate 40 c"

definition sample_revision :: "string \<Rightarrow> char \<Rightarrow> revision_row" where
  "sample_revision i c = \<lparr> rv_id = i, rv_owner_id = ''u'', rv_name = ''repo'', rv_source = ''github'', rv_source_url = Some ''https://github.com/o/r'',
     rv_branch = None, rv_revision_kind = Some ''git'', rv_revision_value = Some (sample_commit c), rv_revision_ref = Some ''refs/heads/main'',
     rv_lineage_id = None, rv_sequence = None, rv_local_path = ''p'', rv_uploaded_at = 0 \<rparr>"

definition no_repositories :: lineage_db where
  "no_repositories = \<lparr> ld_rows = [], ld_lineages = [] \<rparr>"

abbreviation sample_import where
  "sample_import lid i c d \<equiv> add_with_lineage (\<lambda>_. id) (\<lambda>_. lid) 0 (sample_revision i c) ''u'' (Some ''github.com/o/r'') (Some ''refs/heads/main'') ''repo'' (open_lineages d)"

abbreviation two_revisions :: lineage_db where
  "two_revisions \<equiv> ls_committed (snd (sample_import ''L2'' ''r2'' (CHR ''b'') (ls_committed (snd (sample_import ''L1'' ''r1'' (CHR ''a'') no_repositories)))))"

lemma no_repositories_inv: "lineage_inv no_repositories"
  by (simp add: lineage_inv_def lineages_ok_def statements_ok_def fk_repositories_lineage_owner_def fk_lineages_latest_member_def no_repositories_def)

lemma import_env_id: "import_env rid (\<lambda>_. id) ids"
  by (simp add: import_env_def lawful_lineages_def leaves_unused_def)

lemma sample_importable: "c \<in> {CHR ''a'', CHR ''b'', CHR ''c''} \<Longrightarrow> importable ''u'' (sample_revision i c)"
  by (auto simp: importable_def sample_revision_def ck_repository_def ck_upload_revision_def ck_git_revision_def sample_commit_def hex_only_def list_all_iff)

lemma sample_request:
  assumes "c \<in> {CHR ''a'', CHR ''b'', CHR ''c''}" and "unused_ids i {lid} d"
  shows "lineage_request d (ls_committed (snd (sample_import lid i c d)))"
  using req_import [of "sample_revision i c" "\<lambda>_. id" "\<lambda>_. lid" "''u''" d] import_env_id sample_importable [OF assms(1)] assms(2)
  by (simp add: sample_revision_def)

lemma two_revisions_reached: "lineage_request\<^sup>*\<^sup>* no_repositories two_revisions" "lineage_inv two_revisions"
proof -
  let ?one = "ls_committed (snd (sample_import ''L1'' ''r1'' (CHR ''a'') no_repositories))"
  have one: "lineage_request no_repositories ?one" by (rule sample_request) (simp_all add: unused_ids_def no_repositories_def)
  have "rv_id ` set (ld_rows ?one) = {''r1''}" "ln_id ` set (ld_lineages ?one) = {''L1''}" by code_simp+
  then have "lineage_request ?one two_revisions" by (intro sample_request) (simp_all add: unused_ids_def)
  then show all: "lineage_request\<^sup>*\<^sup>* no_repositories two_revisions" using one by (meson r_into_rtranclp rtranclp.rtrancl_into_rtrancl)
  show "lineage_inv two_revisions" using lineage_requests_follow [OF all no_repositories_inv] by simp
qed

text \<open>
  Without row locks (SQLite ignores \<^verbatim>\<open>FOR UPDATE\<close>), an import that commits between the read and the writes of a deletion leaves
  the lineage pointing to an old revision.
\<close>

lemma unlocked_delete_stale:
  "let run = delete_with_lineage_update (\<lambda>d. ls_committed (snd (sample_import ''L3'' ''r3'' (CHR ''c'') d)))
       ((sample_revision ''r2'' (CHR ''b''))\<lparr>rv_lineage_id := Some ''L1'', rv_sequence := Some 2\<rparr>) (open_lineages two_revisions)
   in fst run = Inr () \<and> map ln_latest (ld_lineages (ls_committed (snd run))) = [Some ''r1'']
     \<and> map rv_id (by_sequence_desc (members ''L1'' (ls_committed (snd run)))) = [''r3'', ''r1'']"
  by code_simp

theorem import_settles_witness:
  "\<exists>l. find_lineage ''u'' ''github.com/o/r'' (Some ''refs/heads/main'') two_revisions = Some l \<and> ln_latest l = Some ''r2''"
proof -
  let ?one = "ls_committed (snd (sample_import ''L1'' ''r1'' (CHR ''a'') no_repositories))"
  let ?run = "sample_import ''L2'' ''r2'' (CHR ''b'') ?one"
  have "lineage_request no_repositories ?one" by (rule sample_request) (simp_all add: unused_ids_def no_repositories_def)
  then have inv: "lineage_inv ?one" using lineage_requests_follow [OF r_into_rtranclp no_repositories_inv] by blast
  have "rv_id ` set (ld_rows ?one) = {''r1''}" "ln_id ` set (ld_lineages ?one) = {''L1''}" by code_simp+
  then have free: "unused_ids (rv_id (sample_revision ''r2'' (CHR ''b''))) (range (\<lambda>_ :: nat. ''L2'')) ?one"
    by (simp add: unused_ids_def sample_revision_def)
  have imp: "importable ''u'' (sample_revision ''r2'' (CHR ''b''))" by (rule sample_importable) simp
  have "case fst ?run of Inl _ \<Rightarrow> False | Inr _ \<Rightarrow> True" by code_simp
  then obtain x where "fst ?run = Inr x" by (metis old.sum.exhaust old.sum.simps(5))
  then have "?run = (Inr x, snd ?run)" by (metis prod.collapse)
  from import_settles [OF inv import_env_id imp free this] show ?thesis by (auto simp: sample_revision_def)
qed


theorem sequences_never_reused_witness:
  "\<exists>d'. lineage_request\<^sup>*\<^sup>* two_revisions d' \<and> map rv_id (members ''L1'' d') = [''r1''] \<and> (\<forall>r \<in> set (members ''L1'' d'). the (rv_sequence r) \<noteq> 2)"
proof (intro exI conjI ballI)
  let ?r2 = "(sample_revision ''r2'' (CHR ''b''))\<lparr>rv_lineage_id := Some ''L1'', rv_sequence := Some 2\<rparr>"
  let ?d = "ls_committed (snd (delete_with_lineage_update id ?r2 (open_lineages two_revisions)))"
  have "?r2 \<in> set (ld_rows two_revisions)" by code_simp
  then have req: "lineage_request two_revisions ?d" by (rule req_delete)
  then show run: "lineage_request\<^sup>*\<^sup>* two_revisions ?d" by (rule r_into_rtranclp)
  show gone: "map rv_id (members ''L1'' ?d) = [''r1'']" by code_simp
  fix r assume r: "r \<in> set (members ''L1'' ?d)"
  let ?l = "hd (ld_lineages two_revisions)"
  have l: "?l \<in> set (ld_lineages two_revisions)" "ln_id ?l = ''L1''" "ln_next_sequence ?l = 3" by code_simp+
  from imageI [OF r, of rv_id] have "rv_id r \<in> set (map rv_id (members ''L1'' ?d))" unfolding set_map .
  then have id: "rv_id r = ''r1''" unfolding gone by simp
  have one: "\<forall>x \<in> set (members ''L1'' two_revisions). rv_id x = ''r1'' \<longrightarrow> the (rv_sequence x) = 1" by code_simp
  from sequences_never_reused [OF run two_revisions_reached(2) l(1), unfolded l(2,3), OF r]
  have "(\<exists>x \<in> set (members ''L1'' two_revisions). rv_id x = rv_id r \<and> rv_sequence x = rv_sequence r) \<or> 3 \<le> the (rv_sequence r)"
    unfolding revision_key_def prod.inject by blast
  then show "the (rv_sequence r) \<noteq> 2"
  proof (elim disjE bexE conjE)
    fix x assume x: "x \<in> set (members ''L1'' two_revisions)" "rv_id x = rv_id r" "rv_sequence x = rv_sequence r"
    from bspec [OF one x(1)] have "the (rv_sequence x) = 1" using x(2) unfolding id by (rule mp)
    then show ?thesis unfolding x(3) by simp
  qed linarith
qed

end
