(* ===== verification/Ip_Literals.thy ===== *)
theory Ip_Literals
  imports Py_Values "HOL-Library.Word"
begin

text \<open>
  Internet addresses and networks as Python's \<^verbatim>\<open>ipaddress\<close> has them (3.12): reading and printing of literals,
  membership in a network, and the classes of addresses that the destination policy asks for.
\<close>

unbundle bit_operations_syntax

section \<open>Positional notation\<close>

fun digits_of :: "int \<Rightarrow> nat \<Rightarrow> int \<Rightarrow> int list" where
  "digits_of b 0 n = []"
| "digits_of b (Suc k) n = digits_of b k (n div b) @ [n mod b]"

definition from_digits :: "int \<Rightarrow> int list \<Rightarrow> int" where
  "from_digits b = foldl (\<lambda>n d. n * b + d) 0"

lemma from_digits_snoc [simp]: "from_digits b (ds @ [d]) = from_digits b ds * b + d"
  by (simp add: from_digits_def)

lemma from_digits_Nil [simp]: "from_digits b [] = 0"
  by (simp add: from_digits_def)

lemma from_digits_of: "0 < b \<Longrightarrow> from_digits b (digits_of b k n) = n mod b ^ k"
  by (induction k arbitrary: n) (simp_all add: zmod_zmult2_eq mult.commute)

lemma length_digits_of [simp]: "length (digits_of b k n) = k"
  by (induction k arbitrary: n) simp_all

lemma digits_of_bounds: "0 < b \<Longrightarrow> d \<in> set (digits_of b k n) \<Longrightarrow> 0 \<le> d \<and> d < b"
  by (induction k arbitrary: n) auto

subsection \<open>Decimal\<close>

definition digit :: "char \<Rightarrow> bool" where
  "digit c \<longleftrightarrow> (let n = (of_char c :: int) in 48 \<le> n \<and> n \<le> 57)"

text \<open>\<^verbatim>\<open>s.isascii() and s.isdigit()\<close>\<close>

definition all_digits :: "string \<Rightarrow> bool" where
  "all_digits s \<longleftrightarrow> s \<noteq> [] \<and> list_all digit s"

definition dec_value :: "string \<Rightarrow> int" where
  "dec_value s = from_digits 10 (map (\<lambda>c. of_char c - 48) s)"

lemma of_digit_char: "0 \<le> d \<Longrightarrow> d < 10 \<Longrightarrow> (of_char (digit_char d) :: int) = 48 + d"
  unfolding digit_char_def by (subst of_char_of) simp

lemma digit_digit_char: "0 \<le> d \<Longrightarrow> d < 10 \<Longrightarrow> digit (digit_char d)"
  by (simp add: digit_def of_digit_char)

lemma all_digits_show: "0 \<le> n \<Longrightarrow> all_digits (show_digits n)"
proof (induction n rule: show_digits.induct)
  case (1 n)
  then show ?case
    by (subst show_digits.simps) (auto simp: all_digits_def digit_digit_char)
qed

lemma dec_value_show: "0 \<le> n \<Longrightarrow> dec_value (show_digits n) = n"
proof (induction n rule: show_digits.induct)
  case (1 n)
  then show ?case
    by (subst show_digits.simps) (auto simp: dec_value_def of_digit_char from_digits_def)
qed

lemma length_show_digits: "0 \<le> n \<Longrightarrow> n < 10 ^ Suc k \<Longrightarrow> length (show_digits n) \<le> Suc k"
proof (induction k arbitrary: n)
  case (Suc k)
  show ?case
  proof (cases "n < 10")
    case False
    then have "length (show_digits (n div 10)) \<le> Suc k"
      using Suc by (intro Suc.IH) auto
    then show ?thesis using False by (subst show_digits.simps) simp
  qed (simp add: show_digits.simps)
qed (simp add: show_digits.simps)

lemma show_digits_lead: "0 < n \<Longrightarrow> hd (show_digits n) \<noteq> CHR ''0''"
proof (induction n rule: show_digits.induct)
  case (1 n)
  have ne: "show_digits (n div 10) \<noteq> []" if "0 \<le> n"
    using all_digits_show [of "n div 10"] that by (simp add: all_digits_def)
  have "digit_char n \<noteq> CHR ''0''" if "n < 10"
    using of_digit_char [of n] that 1(2) by auto
  then show ?case
    using 1 ne by (subst show_digits.simps) (auto simp: pos_imp_zdiv_pos_iff)
qed

subsection \<open>Hexadecimal\<close>

definition hex_digit :: "char \<Rightarrow> bool" where
  "hex_digit c \<longleftrightarrow> (let n = (of_char c :: int) in 48 \<le> n \<and> n \<le> 57 \<or> 65 \<le> n \<and> n \<le> 70 \<or> 97 \<le> n \<and> n \<le> 102)"

definition hex_value :: "char \<Rightarrow> int" where
  "hex_value c = (let n = of_char c in if n \<le> 57 then n - 48 else if n \<le> 70 then n - 55 else n - 87)"

text \<open>The digits that are printed: no capitals.\<close>

definition low_hex :: "char \<Rightarrow> bool" where
  "low_hex c \<longleftrightarrow> digit c \<or> (let n = (of_char c :: int) in 97 \<le> n \<and> n \<le> 102)"

lemma low_hex_digit: "low_hex c \<Longrightarrow> hex_digit c"
  by (auto simp: low_hex_def hex_digit_def digit_def Let_def)

text \<open>\<^verbatim>\<open>'%x' % n\<close> on a non-negative number.\<close>

function show_hex :: "int \<Rightarrow> string" where
  "show_hex n = (if n < 16 then [hex_char n] else show_hex (n div 16) @ [hex_char (n mod 16)])"
  by pat_completeness auto
termination
  by (relation "measure nat") auto

declare show_hex.simps [simp del]

lemma of_hex_char: "0 \<le> d \<Longrightarrow> d < 16 \<Longrightarrow> (of_char (hex_char d) :: int) = (if d < 10 then 48 + d else 87 + d)"
  unfolding hex_char_def by (simp add: of_char_of)

lemma hex_char_ok:
  assumes "0 \<le> d" "d < 16"
  shows "low_hex (hex_char d)" "hex_value (hex_char d) = d" "hex_char d = CHR ''0'' \<longleftrightarrow> d = 0"
proof -
  show "low_hex (hex_char d)" "hex_value (hex_char d) = d"
    using assms by (simp_all add: low_hex_def digit_def hex_value_def of_hex_char Let_def)
  have "hex_char 0 = CHR ''0''" by code_simp
  moreover have "d = 0" if "hex_char d = CHR ''0''"
    using of_hex_char [OF assms] that assms by (auto split: if_splits)
  ultimately show "hex_char d = CHR ''0'' \<longleftrightarrow> d = 0" by auto
qed

lemma show_hex_ok: "0 \<le> n \<Longrightarrow> show_hex n \<noteq> [] \<and> list_all low_hex (show_hex n)
    \<and> from_digits 16 (map hex_value (show_hex n)) = n \<and> (show_hex n = ''0'' \<longleftrightarrow> n = 0)"
proof (induction n rule: show_hex.induct)
  case (1 n)
  show ?case
  proof (cases "n < 16")
    case True
    then show ?thesis using 1(2) hex_char_ok [of n] by (simp add: show_hex.simps [of n] from_digits_def)
  next
    case False
    then have "show_hex (n div 16) \<noteq> []" using 1 by simp
    then show ?thesis
      using 1 False hex_char_ok [of "n mod 16"] by (simp add: show_hex.simps [of n] append_eq_Cons_conv)
  qed
qed

lemma length_show_hex: "0 \<le> n \<Longrightarrow> n < 16 ^ Suc k \<Longrightarrow> length (show_hex n) \<le> Suc k"
proof (induction k arbitrary: n)
  case (Suc k)
  show ?case
  proof (cases "n < 16")
    case False
    then have "length (show_hex (n div 16)) \<le> Suc k"
      using Suc by (intro Suc.IH) auto
    then show ?thesis using False by (subst show_hex.simps) simp
  qed (simp add: show_hex.simps)
qed (simp add: show_hex.simps)

section \<open>Literals\<close>

datatype address = V4 "32 word" | V6 "128 word" "string option"

subsection \<open>Reading\<close>

definition parse_octet :: "string \<Rightarrow> int option" where
  "parse_octet s = (if \<not> all_digits s \<or> 3 < length s \<or> s \<noteq> ''0'' \<and> hd s = CHR ''0'' \<or> 255 < dec_value s then None
     else Some (dec_value s))"

text \<open>\<^verbatim>\<open>_BaseV4._ip_int_from_string\<close>\<close>

definition v4_int :: "string \<Rightarrow> int option" where
  "v4_int s = (let os = split_char (CHR ''.'') s in
     if length os \<noteq> 4 then None else map_option (from_digits 256) (those (map parse_octet os)))"

definition v4_word :: "string \<Rightarrow> 32 word option" where
  "v4_word s = (if CHR ''/'' \<in> set s then None else map_option word_of_int (v4_int s))"

definition parse_hextet :: "string \<Rightarrow> int option" where
  "parse_hextet s = (if s = [] \<or> \<not> list_all hex_digit s \<or> 4 < length s then None
     else Some (from_digits 16 (map hex_value s)))"

text \<open>A dotted last part stands for two hextets.\<close>

definition v4_suffix :: "string list \<Rightarrow> string list option" where
  "v4_suffix parts = (if CHR ''.'' \<in> set (last parts) then
       map_option (\<lambda>w. butlast parts @ [show_hex (uint (drop_bit 16 w AND 0xFFFF)), show_hex (uint (w AND 0xFFFF))])
         (v4_word (last parts))
     else Some parts)"

text \<open>
  How many parts precede the omitted run, how many hextets it stands for and how many parts follow. A run is an empty part
  between two others; at either end the empty part beside it belongs to the separator.
\<close>

definition inner_gaps :: "string list \<Rightarrow> nat list" where
  "inner_gaps parts = filter (\<lambda>i. parts ! i = []) [1..<length parts - 1]"

definition v6_layout :: "string list \<Rightarrow> (nat \<times> nat \<times> nat) option" where
  "v6_layout parts = (case inner_gaps parts of
       [] \<Rightarrow> if length parts \<noteq> 8 \<or> hd parts = [] \<or> last parts = [] then None else Some (8, 0, 0)
     | [i] \<Rightarrow> let hi = (if hd parts = [] then i - 1 else i);
                 lo = (if last parts = [] then length parts - i - 2 else length parts - i - 1)
              in if hd parts = [] \<and> hi \<noteq> 0 \<or> last parts = [] \<and> lo \<noteq> 0 \<or> 7 < hi + lo then None
                 else Some (hi, 8 - (hi + lo), lo)
     | _ \<Rightarrow> None)"

definition those_hextets :: "string list \<Rightarrow> int list option" where
  "those_hextets ps = those (map parse_hextet ps)"

definition v6_of_parts :: "string list \<Rightarrow> int option" where
  "v6_of_parts parts = (if 9 < length parts then None else
     Option.bind (v6_layout parts) (\<lambda>(hi, gap, lo).
     Option.bind (those_hextets (take hi parts)) (\<lambda>a.
     Option.bind (those_hextets (drop (length parts - lo) parts)) (\<lambda>b.
     Some (from_digits 65536 (a @ replicate gap 0 @ b))))))"

definition v6_int :: "string \<Rightarrow> int option" where
  "v6_int s = (let parts = split_char (CHR '':'') s in
     if length parts < 3 then None else Option.bind (v4_suffix parts) v6_of_parts)"

definition split_scope :: "string \<Rightarrow> (string \<times> string option) option" where
  "split_scope s = (case split_once ''%'' s of
       None \<Rightarrow> Some (s, None)
     | Some (a, z) \<Rightarrow> if z = [] \<or> CHR ''%'' \<in> set z then None else Some (a, Some z))"

definition v6_address :: "string \<Rightarrow> address option" where
  "v6_address s = (if CHR ''/'' \<in> set s then None else
     Option.bind (split_scope s) (\<lambda>(a, z). map_option (\<lambda>n. V6 (word_of_int n) z) (v6_int a)))"

definition ip_address :: "string \<Rightarrow> address option" where
  "ip_address s = (case v4_word s of Some w \<Rightarrow> Some (V4 w) | None \<Rightarrow> v6_address s)"

subsection \<open>Printing\<close>

definition show_v4 :: "32 word \<Rightarrow> string" where
  "show_v4 w = join ''.'' (map show_int (digits_of 256 4 (uint w)))"

text \<open>The first longest run of zero hextets, as its start and its length.\<close>

fun longest_run :: "nat \<Rightarrow> string list \<Rightarrow> nat \<times> nat \<Rightarrow> nat \<Rightarrow> nat \<times> nat" where
  "longest_run i [] best cur = best"
| "longest_run i (h # hs) best cur =
     (if h = ''0'' then longest_run (Suc i) hs (if snd best < Suc cur then (i - cur, Suc cur) else best) (Suc cur)
      else longest_run (Suc i) hs best 0)"

definition compress_hextets :: "string list \<Rightarrow> string list" where
  "compress_hextets hs = (let (s, l) = longest_run 0 hs (0, 0) 0 in
     if 1 < l then (if s = 0 then [[]] else []) @ take s hs @ [[]] @ drop (s + l) hs @ (if s + l = length hs then [[]] else [])
     else hs)"

definition show_v6 :: "128 word \<Rightarrow> string" where
  "show_v6 w = join '':'' (compress_hextets (map show_hex (digits_of 65536 8 (uint w))))"

fun show_ip :: "address \<Rightarrow> string" where
  "show_ip (V4 w) = show_v4 w"
| "show_ip (V6 w z) = show_v6 w @ (case z of None \<Rightarrow> [] | Some z \<Rightarrow> CHR ''%'' # z)"

subsection \<open>What is printed is read back\<close>

lemma those_map_Some: "(\<And>x. x \<in> set xs \<Longrightarrow> f x = Some (g x)) \<Longrightarrow> those (map f xs) = Some (map g xs)"
  by (induction xs) auto

lemma show_int_digits: "0 \<le> n \<Longrightarrow> show_int n = show_digits n"
  by (simp add: show_int_def)

lemma digit_no_sep: "digit c \<Longrightarrow> c \<noteq> CHR ''.'' \<and> c \<noteq> CHR ''/'' \<and> c \<noteq> CHR '':''"
  by (auto simp: digit_def)

lemma hex_no_sep: "low_hex c \<Longrightarrow> c \<noteq> CHR ''.'' \<and> c \<noteq> CHR ''/'' \<and> c \<noteq> CHR '':'' \<and> c \<noteq> CHR ''%''"
  by (auto simp: low_hex_def digit_def)

lemma parse_octet_show:
  assumes "0 \<le> d" "d < 256"
  shows "parse_octet (show_int d) = Some d"
proof -
  have "length (show_digits d) \<le> Suc 2" using assms by (intro length_show_digits) auto
  moreover have "show_digits 0 = ''0''" by code_simp
  ultimately show ?thesis
    using assms all_digits_show [of d] show_digits_lead [of d] dec_value_show [of d]
    by (cases "d = 0") (auto simp: parse_octet_def show_int_digits dec_value_show)
qed

lemma v4_int_show: "v4_int (show_v4 w) = Some (uint w)"
proof -
  let ?ds = "digits_of 256 4 (uint w)"
  have b: "0 \<le> d \<and> d < 256" if "d \<in> set ?ds" for d using digits_of_bounds [OF _ that] by simp
  have dots: "CHR ''.'' \<notin> set s" if s: "s \<in> set (map show_int ?ds)" for s
  proof -
    obtain d where "d \<in> set ?ds" and "s = show_int d" using s by auto
    then have d: "s = show_digits d" "0 \<le> d" using b by (simp_all add: show_int_digits)
    then show ?thesis using all_digits_show [of d] digit_no_sep by (auto simp: all_digits_def list_all_iff)
  qed
  have "map show_int ?ds \<noteq> []" using length_digits_of [of 256 4 "uint w"] by (metis list.map_disc_iff list.size(3) zero_neq_numeral)
  then have sp: "split_char (CHR ''.'') (show_v4 w) = map show_int ?ds"
    unfolding show_v4_def using dots by (intro split_join) auto
  have "those (map parse_octet (map show_int ?ds)) = Some (map (\<lambda>d. d) ?ds)"
    using b by (simp only: map_map) (rule those_map_Some, simp add: parse_octet_show)
  then have "those (map parse_octet (map show_int ?ds)) = Some ?ds" by simp
  moreover have "uint w mod 4294967296 = uint w" using uint_lt2p [of w] by simp
  ultimately show ?thesis by (simp add: v4_int_def sp from_digits_of)
qed

lemma v4_word_show: "v4_word (show_v4 w) = Some w"
proof -
  have "CHR ''/'' \<notin> set (show_v4 w)"
  proof
    assume "CHR ''/'' \<in> set (show_v4 w)"
    then obtain d where d: "d \<in> set (digits_of 256 4 (uint w))" and "CHR ''/'' \<in> set (show_int d)"
      unfolding show_v4_def using set_join by fastforce
    moreover from d have "0 \<le> d" using digits_of_bounds [OF _ d] by simp
    ultimately show False
      using all_digits_show [of d] digit_no_sep by (auto simp: show_int_digits all_digits_def list_all_iff)
  qed
  then show ?thesis by (simp add: v4_word_def v4_int_show)
qed

lemma longest_run_ok:
  assumes "longest_run i hs best cur = (s, l)" "full = pre @ hs" "length pre = i" "cur \<le> i"
    and "\<forall>j. i - cur \<le> j \<and> j < i \<longrightarrow> full ! j = ''0''"
    and "fst best + snd best \<le> i" "\<forall>j. fst best \<le> j \<and> j < fst best + snd best \<longrightarrow> full ! j = ''0''"
  shows "s + l \<le> length full \<and> (\<forall>j. s \<le> j \<and> j < s + l \<longrightarrow> full ! j = ''0'')"
  using assms
proof (induction hs arbitrary: i best cur pre)
  case (Cons h hs)
  let ?best = "if h = ''0'' then if snd best < Suc cur then (i - cur, Suc cur) else best else best"
  let ?cur = "if h = ''0'' then Suc cur else 0"
  have h: "full ! i = h" using Cons.prems(2,3) by (simp add: nth_append)
  have run: "full ! j = ''0''" if "h = ''0''" "i - cur \<le> j" "j < Suc i" for j
    using that h Cons.prems(5) by (cases "j = i") auto
  show ?case
  proof (rule Cons.IH [of "Suc i" ?best ?cur "pre @ [h]"])
    show "longest_run (Suc i) hs ?best ?cur = (s, l)" using Cons.prems(1) by (simp split: if_splits)
    show "\<forall>j. Suc i - ?cur \<le> j \<and> j < Suc i \<longrightarrow> full ! j = ''0''" using run by auto
    show "\<forall>j. fst ?best \<le> j \<and> j < fst ?best + snd ?best \<longrightarrow> full ! j = ''0''"
      using run Cons.prems(4,7) by simp
  qed (use Cons.prems in auto)
qed simp

lemma filter_upt_single:
  assumes "m \<le> k" "k < n" "\<And>i. m \<le> i \<Longrightarrow> i < n \<Longrightarrow> P i \<longleftrightarrow> i = k"
  shows "filter P [m..<n] = [k]"
proof -
  have "filter P [m..<n] = filter (\<lambda>i. i = k) [m..<n]" using assms(3) by (intro filter_cong) auto
  also have "\<dots> = [k]" using assms(1,2) by (induction n) (auto simp: filter_empty_conv less_Suc_eq_le le_less)
  finally show ?thesis .
qed

lemma inner_gaps_one:
  assumes "a \<noteq> []" "b \<noteq> []" "[] \<notin> set (tl a)" "[] \<notin> set (butlast b)"
  shows "inner_gaps (a @ [[]] @ b) = [length a]"
  unfolding inner_gaps_def
proof (rule filter_upt_single)
  fix i assume i: "1 \<le> i" "i < length (a @ [[]] @ b) - 1"
  show "(a @ [[]] @ b) ! i = [] \<longleftrightarrow> i = length a"
  proof (cases i "length a" rule: linorder_cases)
    case less
    then have "tl a ! (i - 1) \<in> set (tl a)" using i(1) by (intro nth_mem) auto
    then have "a ! i \<in> set (tl a)" using i(1) less by (simp add: nth_tl)
    then show ?thesis using less assms(3) by (auto simp: nth_append)
  next
    case greater
    define j where "j = i - length a - 1"
    have j: "i = length a + Suc j" "j < length (butlast b)" using greater i(2) by (auto simp: j_def)
    then have "b ! j \<in> set (butlast b)" using nth_mem [OF j(2)] by (simp add: nth_butlast)
    then show ?thesis using j(1) assms(4) by (auto simp: nth_append)
  qed (simp add: nth_append)
qed (use assms in \<open>auto simp: Suc_le_eq\<close>)

lemma hextets_read:
  assumes "\<And>d. d \<in> set ds \<Longrightarrow> 0 \<le> d \<and> d < 65536"
  shows "those_hextets (map show_hex ds) = Some ds"
proof -
  have "parse_hextet (show_hex d) = Some d" if "d \<in> set ds" for d
    using assms [OF that] show_hex_ok [of d] length_show_hex [of d 3]
    by (auto simp: parse_hextet_def list_all_iff low_hex_digit)
  then have "those (map (\<lambda>d. parse_hextet (show_hex d)) ds) = Some (map (\<lambda>d. d) ds)" by (rule those_map_Some)
  then show ?thesis by (simp add: those_hextets_def comp_def)
qed

lemma compressed_read:
  assumes ds: "\<And>d. d \<in> set ds \<Longrightarrow> 0 \<le> d \<and> d < 65536" and len: "length ds = 8"
    and run: "s + l \<le> 8" "1 < l" "\<And>j. s \<le> j \<Longrightarrow> j < s + l \<Longrightarrow> ds ! j = 0"
    and a: "a = (if s = 0 then [[]] else map show_hex (take s ds))"
    and b: "b = (if s + l = 8 then [[]] else map show_hex (drop (s + l) ds))"
  shows "v6_of_parts (a @ [[]] @ b) = Some (from_digits 65536 ds)"
proof -
  let ?cs = "a @ [[]] @ b"
  have nonempty: "[] \<notin> set (map show_hex xs)" if "set xs \<subseteq> set ds" for xs
    using that ds show_hex_ok by fastforce
  have A: "[] \<notin> set (map show_hex (take s ds))" and B: "[] \<notin> set (map show_hex (drop (s + l) ds))"
    by (rule nonempty, simp add: set_take_subset set_drop_subset)+
  have ne: "a \<noteq> []" "b \<noteq> []" using a b len run(1) by auto
  have sub: "set (tl xs) \<subseteq> set xs" "set (butlast xs) \<subseteq> set xs" for xs :: "string list"
    by (cases xs) (auto dest: in_set_butlastD)
  have hd_a: "hd a = [] \<longleftrightarrow> s = 0" and tl_a: "[] \<notin> set (tl a)"
    using A a sub(1) [of a] hd_in_set [OF ne(1)] by (cases "s = 0"; auto simp del: set_map)+
  have last_b: "last b = [] \<longleftrightarrow> s + l = 8" and bl_b: "[] \<notin> set (butlast b)"
    using B b sub(2) [of b] last_in_set [OF ne(2)] by (cases "s + l = 8"; auto simp del: set_map)+
  have lens: "length a = max 1 s" "length b = max 1 (8 - (s + l))" using a b len run(1) by auto
  have layout: "v6_layout ?cs = Some (s, l, 8 - (s + l))"
    using inner_gaps_one [OF ne tl_a bl_b] ne hd_a last_b lens run(1,2) by (auto simp: v6_layout_def Let_def)
  have "take s ?cs = map show_hex (take s ds)"
    using a lens(1) by (cases "s = 0") (simp_all add: take_map)
  then have hi: "those_hextets (take s ?cs) = Some (take s ds)"
    using ds by (metis hextets_read in_set_takeD)
  have "drop (length ?cs - (8 - (s + l))) ?cs = map show_hex (drop (s + l) ds)"
  proof (cases "s + l = 8")
    case False
    then have "length b = 8 - (s + l)" using lens(2) run(1) by simp
    then have "drop (length ?cs - (8 - (s + l))) ?cs = b" by simp
    then show ?thesis using b False by simp
  qed (use len in simp)
  then have lo: "those_hextets (drop (length ?cs - (8 - (s + l))) ?cs) = Some (drop (s + l) ds)"
    using ds by (metis hextets_read in_set_dropD)
  have "take l (drop s ds) = replicate l 0"
    using run len by (intro replicate_eqI) (auto simp: in_set_conv_nth)
  then have "take s ds @ replicate l 0 @ drop (s + l) ds = ds"
    by (metis append_take_drop_id drop_drop add.commute)
  moreover have "length ?cs \<le> 9" using lens run(1,2) by auto
  ultimately show ?thesis using layout hi lo by (simp add: v6_of_parts_def)
qed

lemma compress_read:
  assumes ds: "\<And>d. d \<in> set ds \<Longrightarrow> 0 \<le> d \<and> d < 65536" and len: "length ds = 8"
  defines "cs \<equiv> compress_hextets (map show_hex ds)"
  shows "v6_of_parts cs = Some (from_digits 65536 ds)" "3 \<le> length cs" "\<And>p. p \<in> set cs \<Longrightarrow> list_all low_hex p"
proof -
  let ?hs = "map show_hex ds"
  obtain s l where sl: "longest_run 0 ?hs (0, 0) 0 = (s, l)" by fastforce
  have R: "s + l \<le> length ?hs \<and> (\<forall>j. s \<le> j \<and> j < s + l \<longrightarrow> ?hs ! j = ''0'')"
    by (rule longest_run_ok [OF sl, of ?hs "[]"]) simp_all
  have run: "s + l \<le> 8" using R len by simp
  have zero: "ds ! j = 0" if "s \<le> j" "j < s + l" for j
  proof -
    have "?hs ! j = ''0''" using R that by blast
    then show ?thesis using that run len ds [of "ds ! j"] show_hex_ok [of "ds ! j"] by simp
  qed
  have hex: "list_all low_hex p" if "p \<in> set ?hs" for p using that ds show_hex_ok by auto
  have gaps: "inner_gaps ?hs = []" "hd ?hs \<noteq> []" "last ?hs \<noteq> []"
  proof -
    have "?hs ! i \<noteq> []" if "i < 8" for i using that len ds [of "ds ! i"] show_hex_ok [of "ds ! i"] by simp
    moreover have "?hs \<noteq> []" using len by auto
    ultimately show "inner_gaps ?hs = []" "hd ?hs \<noteq> []" "last ?hs \<noteq> []"
      using len by (auto simp: inner_gaps_def filter_empty_conv hd_conv_nth last_conv_nth)
  qed
  have plain: "v6_of_parts ?hs = Some (from_digits 65536 ds)"
    using gaps len hextets_read [OF ds] by (simp add: v6_of_parts_def v6_layout_def those_hextets_def)
  define a where "a = (if s = 0 then [[]] else map show_hex (take s ds))"
  define b where "b = (if s + l = 8 then [[]] else map show_hex (drop (s + l) ds))"
  have cs: "cs = (if 1 < l then a @ [[]] @ b else ?hs)"
    using len run by (auto simp: cs_def compress_hextets_def sl a_def b_def take_map drop_map)
  show "v6_of_parts cs = Some (from_digits 65536 ds)"
    using cs plain compressed_read [OF ds len run _ zero a_def b_def] by simp
  have "1 \<le> length a" "1 \<le> length b" using len run by (auto simp: a_def b_def)
  then show "3 \<le> length cs" using cs len by simp
  show "list_all low_hex p" if "p \<in> set cs" for p
    using that hex cs by (auto simp: a_def b_def split: if_splits dest: in_set_takeD in_set_dropD)
qed

lemma v6_int_show: "v6_int (show_v6 w) = Some (uint w)"
  and show_v6_chars: "c \<in> set (show_v6 w) \<Longrightarrow> low_hex c \<or> c = CHR '':''"
proof -
  let ?ds = "digits_of 65536 8 (uint w)"
  define cs where "cs = compress_hextets (map show_hex ?ds)"
  have b: "\<And>d. d \<in> set ?ds \<Longrightarrow> 0 \<le> d \<and> d < 65536" by (rule digits_of_bounds [rotated]) simp_all
  note R = compress_read [OF b, of ?ds, folded cs_def, simplified]
  have colons: "\<forall>p \<in> set cs. CHR '':'' \<notin> set p" "\<forall>p \<in> set cs. CHR ''.'' \<notin> set p"
    using R(3) hex_no_sep by (auto simp: list_all_iff)
  have "cs \<noteq> []" using R(2) by auto
  then have sp: "split_char (CHR '':'') (show_v6 w) = cs"
    unfolding show_v6_def cs_def [symmetric] using colons(1) by (rule split_join)
  have "CHR ''.'' \<notin> set (last cs)" using colons(2) \<open>cs \<noteq> []\<close> by simp
  moreover have "uint w mod 340282366920938463463374607431768211456 = uint w" using uint_lt2p [of w] by simp
  ultimately show "v6_int (show_v6 w) = Some (uint w)"
    using R(1,2) by (simp add: v6_int_def sp v4_suffix_def from_digits_of)
  show "low_hex c \<or> c = CHR '':''" if "c \<in> set (show_v6 w)"
    using that R(3) set_join [of "'':''" cs] unfolding show_v6_def cs_def [symmetric]
    by (auto simp: list_all_iff)
qed

lemma show_v6_colon: "CHR '':'' \<in> set (show_v6 w)"
proof (rule ccontr)
  assume "CHR '':'' \<notin> set (show_v6 w)"
  then have "v6_int (show_v6 w) = None" by (simp add: v6_int_def split_char_id)
  then show False by (simp add: v6_int_show)
qed

lemma show_v4_chars: "c \<in> set (show_v4 w) \<Longrightarrow> digit c \<or> c = CHR ''.''"
proof -
  assume "c \<in> set (show_v4 w)"
  then consider d where "d \<in> set (digits_of 256 4 (uint w))" "c \<in> set (show_int d)" | "c = CHR ''.''"
    unfolding show_v4_def using set_join by fastforce
  then show ?thesis
  proof cases
    case 1
    then have "0 \<le> d" using digits_of_bounds [OF _ 1(1)] by simp
    then show ?thesis using 1(2) all_digits_show [of d] by (auto simp: show_int_digits all_digits_def list_all_iff)
  qed simp
qed

lemma those_SomeD: "those ys = Some zs \<Longrightarrow> y \<in> set ys \<Longrightarrow> \<exists>z. y = Some z"
  by (induction ys arbitrary: zs) (auto split: option.splits)

lemma v4_word_chars:
  assumes "v4_word s = Some w" "c \<in> set s"
  shows "digit c \<or> c = CHR ''.''"
proof -
  have "c \<in> set (join ''.'' (split_char (CHR ''.'') s))" using assms(2) by (simp add: join_split)
  then consider p where "p \<in> set (split_char (CHR ''.'') s)" "c \<in> set p" | "c = CHR ''.''"
    using set_join by fastforce
  then show ?thesis
  proof cases
    case 1
    obtain ns where "those (map parse_octet (split_char (CHR ''.'') s)) = Some ns"
      using assms(1) by (auto simp: v4_word_def v4_int_def Let_def split: if_splits)
    then obtain n where "parse_octet p = Some n" using those_SomeD 1(1) by fastforce
    then show ?thesis using 1(2) by (auto simp: parse_octet_def all_digits_def list_all_iff split: if_splits)
  qed simp
qed

theorem ip_address_show:
  assumes "\<And>w z. a \<noteq> V6 w (Some z)"
  shows "ip_address (show_ip a) = Some a"
proof (cases a)
  case (V4 w)
  then show ?thesis by (simp add: ip_address_def v4_word_show)
next
  case (V6 w z)
  then have z: "z = None" using assms by (cases z) auto
  have no: "v4_word (show_v6 w) = None"
    using v4_word_chars [of "show_v6 w" _ "CHR '':''"] show_v6_colon [of w]
    by (cases "v4_word (show_v6 w)") (auto simp: digit_def)
  have "CHR ''/'' \<notin> set (show_v6 w)" "CHR ''%'' \<notin> set (show_v6 w)"
    using show_v6_chars [of "CHR ''/''" w] show_v6_chars [of "CHR ''%''" w] by (auto simp: low_hex_def digit_def)
  moreover have "split_once ''%'' (show_v6 w) = None"
    using calculation(2) by (auto simp: split_once_None occurs_in_iff)
  ultimately have "v6_address (show_v6 w) = Some (V6 w None)"
    by (simp add: v6_address_def split_scope_def v6_int_show)
  then show ?thesis using V6 z no by (simp add: ip_address_def)
qed

section \<open>Networks\<close>

datatype network = Net4 "32 word" nat | Net6 "128 word" nat

definition netmask :: "nat \<Rightarrow> 'a::len word" where
  "netmask p = NOT (mask (LENGTH('a) - p))"

fun in_network :: "address \<Rightarrow> network \<Rightarrow> bool" where
  "in_network (V4 w) (Net4 b p) = (w AND netmask p = b)"
| "in_network (V6 w z) (Net6 b p) = (w AND netmask p = b)"
| "in_network _ _ = False"

text \<open>The base has no bit outside the mask: what \<^verbatim>\<open>strict\<close> demands.\<close>

fun strict_network :: "network \<Rightarrow> bool" where
  "strict_network (Net4 b p) = (b AND netmask p = b)"
| "strict_network (Net6 b p) = (b AND netmask p = b)"

subsection \<open>Reading networks\<close>

definition prefix_of_string :: "nat \<Rightarrow> string \<Rightarrow> nat option" where
  "prefix_of_string m s = (if all_digits s \<and> dec_value s \<le> int m then Some (nat (dec_value s)) else None)"

text \<open>A dotted mask is a netmask or, inverted, a hostmask.\<close>

definition prefix_of_mask :: "32 word \<Rightarrow> nat option" where
  "prefix_of_mask w = (case find (\<lambda>p. netmask p = w) [0..<33] of
       Some p \<Rightarrow> Some p | None \<Rightarrow> find (\<lambda>p. netmask p = NOT w) [0..<33])"

definition v4_prefix :: "string \<Rightarrow> nat option" where
  "v4_prefix s = (case prefix_of_string 32 s of
       Some p \<Rightarrow> Some p | None \<Rightarrow> Option.bind (map_option word_of_int (v4_int s)) prefix_of_mask)"

text \<open>A literal with its mask; without one the whole width counts.\<close>

definition split_mask :: "string \<Rightarrow> (string \<times> string option) option" where
  "split_mask s = (case split_char (CHR ''/'') s of
       [a] \<Rightarrow> Some (a, None) | [a, m] \<Rightarrow> Some (a, Some m) | _ \<Rightarrow> None)"

definition v4_network :: "string \<Rightarrow> network option" where
  "v4_network s = Option.bind (split_mask s) (\<lambda>(a, m). Option.bind (v4_word a) (\<lambda>w.
     map_option (Net4 w) (case m of None \<Rightarrow> Some 32 | Some m \<Rightarrow> v4_prefix m)))"

definition v6_network :: "string \<Rightarrow> network option" where
  "v6_network s = Option.bind (split_mask s) (\<lambda>(a, m). Option.bind (v6_address a) (\<lambda>ip.
     case ip of V6 w z \<Rightarrow> map_option (Net6 w) (case m of None \<Rightarrow> Some 128 | Some m \<Rightarrow> prefix_of_string 128 m)
       | V4 w \<Rightarrow> None))"

text \<open>\<^verbatim>\<open>ip_network(s, strict=True)\<close>; host bits raise at once, without a second attempt.\<close>

definition ip_network :: "string \<Rightarrow> network option" where
  "ip_network s = Option.bind (case v4_network s of Some n \<Rightarrow> Some n | None \<Rightarrow> v6_network s)
     (\<lambda>n. if strict_network n then Some n else None)"

subsection \<open>A network is an interval\<close>

lemma and_netmask:
  fixes w :: "'a::len word"
  shows "uint (w AND netmask p) = uint w div 2 ^ (LENGTH('a) - p) * 2 ^ (LENGTH('a) - p)"
proof -
  let ?k = "LENGTH('a) - p"
  have "uint (w AND netmask p) = push_bit ?k (drop_bit ?k (uint w))"
    by (rule bit_eqI) (auto simp: netmask_def bit_simps dest: bit_imp_le_length)
  then show ?thesis by (simp add: push_bit_eq_mult drop_bit_eq_div)
qed

lemma div_block:
  fixes n b k :: int
  assumes "0 < k" "b div k * k = b"
  shows "n div k * k = b \<longleftrightarrow> b \<le> n \<and> n < b + k"
proof
  have n: "n = n div k * k + n mod k" "0 \<le> n mod k" "n mod k < k" using assms(1) by simp_all
  show "b \<le> n \<and> n < b + k" if "n div k * k = b" using n that by linarith
  assume "b \<le> n \<and> n < b + k"
  then have "(n - b) div k = 0" by (simp add: div_pos_pos_trivial)
  moreover have "n = (n - b) + b div k * k" using assms(2) by simp
  then have "n div k = (n - b) div k + b div k" using assms(1) by (metis div_mult_self1 less_irrefl mult.commute add.commute)
  ultimately show "n div k * k = b" using assms(2) by simp
qed

lemma in_block_iff:
  fixes w b :: "'a::len word"
  assumes "b AND netmask p = b"
  shows "w AND netmask p = b \<longleftrightarrow> uint b \<le> uint w \<and> uint w < uint b + 2 ^ (LENGTH('a) - p)"
proof -
  have "uint b div 2 ^ (LENGTH('a) - p) * 2 ^ (LENGTH('a) - p) = uint b"
    using and_netmask [of b p] assms by simp
  moreover have "w AND netmask p = b \<longleftrightarrow> uint (w AND netmask p) = uint b" by (rule word_uint_eq_iff)
  ultimately show ?thesis using div_block [of "2 ^ (LENGTH('a) - p)" "uint b" "uint w"] by (simp only: and_netmask) simp
qed

text \<open>
  The first and the last address of a network: \<^verbatim>\<open>network_address\<close> and \<^verbatim>\<open>broadcast_address\<close>.
\<close>

theorem in_network_interval:
  "b AND netmask p = b \<Longrightarrow> in_network (V4 w) (Net4 b p) \<longleftrightarrow> uint b \<le> uint w \<and> uint w < uint b + 2 ^ (32 - p)"
  "c AND netmask p = c \<Longrightarrow> in_network (V6 v z) (Net6 c p) \<longleftrightarrow> uint c \<le> uint v \<and> uint v < uint c + 2 ^ (128 - p)"
  by (simp_all add: in_block_iff)

section \<open>Classes of addresses\<close>

definition private_v4 :: "network list" where
  "private_v4 = [Net4 0x00000000 8, Net4 0x0A000000 8, Net4 0x7F000000 8, Net4 0xA9FE0000 16, Net4 0xAC100000 12,
     Net4 0xC0000000 24, Net4 0xC00000AA 31, Net4 0xC0000200 24, Net4 0xC0A80000 16, Net4 0xC6120000 15,
     Net4 0xC6336400 24, Net4 0xCB007100 24, Net4 0xF0000000 4, Net4 0xFFFFFFFF 32]"

definition private_v4_exceptions :: "network list" where
  "private_v4_exceptions = [Net4 0xC0000009 32, Net4 0xC000000A 32]"

definition private_v6 :: "network list" where
  "private_v6 = [Net6 1 128, Net6 0 128, Net6 0xFFFF00000000 96, Net6 0x64FF9B000100000000000000000000 48,
     Net6 0x01000000000000000000000000000000 64, Net6 0x20010000000000000000000000000000 23,
     Net6 0x20010DB8000000000000000000000000 32, Net6 0x20020000000000000000000000000000 16,
     Net6 0xFC000000000000000000000000000000 7, Net6 0xFE800000000000000000000000000000 10]"

definition private_v6_exceptions :: "network list" where
  "private_v6_exceptions = [Net6 0x20010001000000000000000000000001 128, Net6 0x20010001000000000000000000000002 128,
     Net6 0x20010003000000000000000000000000 32, Net6 0x20010004011200000000000000000000 48,
     Net6 0x20010020000000000000000000000000 28, Net6 0x20010030000000000000000000000000 28]"

definition reserved_v6 :: "network list" where
  "reserved_v6 = [Net6 0 8, Net6 0x01000000000000000000000000000000 8, Net6 0x02000000000000000000000000000000 7,
     Net6 0x04000000000000000000000000000000 6, Net6 0x08000000000000000000000000000000 5,
     Net6 0x10000000000000000000000000000000 4, Net6 0x40000000000000000000000000000000 3,
     Net6 0x60000000000000000000000000000000 3, Net6 0x80000000000000000000000000000000 3,
     Net6 0xA0000000000000000000000000000000 3, Net6 0xC0000000000000000000000000000000 3,
     Net6 0xE0000000000000000000000000000000 4, Net6 0xF0000000000000000000000000000000 5,
     Net6 0xF8000000000000000000000000000000 6, Net6 0xFE000000000000000000000000000000 9]"

definition in_any :: "address \<Rightarrow> network list \<Rightarrow> bool" where
  "in_any a ns = list_ex (in_network a) ns"

definition ipv4_mapped :: "128 word \<Rightarrow> 32 word option" where
  "ipv4_mapped w = (if drop_bit 32 w \<noteq> 0xFFFF then None else Some (ucast w))"

fun is_unspecified :: "address \<Rightarrow> bool" where
  "is_unspecified (V4 w) = (w = 0)"
| "is_unspecified (V6 w z) = (w = 0)"

fun is_loopback :: "address \<Rightarrow> bool" where
  "is_loopback (V4 w) = in_network (V4 w) (Net4 0x7F000000 8)"
| "is_loopback (V6 w z) = (w = 1)"

fun is_link_local :: "address \<Rightarrow> bool" where
  "is_link_local (V4 w) = in_network (V4 w) (Net4 0xA9FE0000 16)"
| "is_link_local (V6 w z) = in_network (V6 w z) (Net6 0xFE800000000000000000000000000000 10)"

fun is_multicast :: "address \<Rightarrow> bool" where
  "is_multicast (V4 w) = in_network (V4 w) (Net4 0xE0000000 4)"
| "is_multicast (V6 w z) = in_network (V6 w z) (Net6 0xFF000000000000000000000000000000 8)"

fun is_reserved :: "address \<Rightarrow> bool" where
  "is_reserved (V4 w) = in_network (V4 w) (Net4 0xF0000000 4)"
| "is_reserved (V6 w z) = in_any (V6 w z) reserved_v6"

definition is_private_v4 :: "32 word \<Rightarrow> bool" where
  "is_private_v4 w \<longleftrightarrow> in_any (V4 w) private_v4 \<and> \<not> in_any (V4 w) private_v4_exceptions"

fun is_private :: "address \<Rightarrow> bool" where
  "is_private (V4 w) = is_private_v4 w"
| "is_private (V6 w z) = (case ipv4_mapped w of Some v \<Rightarrow> is_private_v4 v
     | None \<Rightarrow> in_any (V6 w z) private_v6 \<and> \<not> in_any (V6 w z) private_v6_exceptions)"

fun is_global :: "address \<Rightarrow> bool" where
  "is_global (V4 w) = (\<not> in_network (V4 w) (Net4 0x64400000 10) \<and> \<not> is_private (V4 w))"
| "is_global (V6 w z) = (\<not> is_private (V6 w z))"

subsection \<open>The blocks by their leading digits\<close>

definition octets :: "32 word \<Rightarrow> int list" where
  "octets w = digits_of 256 4 (uint w)"

definition hextets :: "128 word \<Rightarrow> int list" where
  "hextets w = digits_of 65536 8 (uint w)"

lemma strict_blocks:
  "list_all strict_network private_v4" "list_all strict_network private_v4_exceptions"
  "strict_network (Net4 0x64400000 10)" "strict_network (Net4 0xE0000000 4)"
  "list_all strict_network private_v6" "list_all strict_network reserved_v6"
  "strict_network (Net6 0xFF000000000000000000000000000000 8)"
  by code_simp+

lemma in_strict_block:
  "strict_network (Net4 b p) \<Longrightarrow> in_network (V4 w) (Net4 b p) \<longleftrightarrow> uint b \<le> uint w \<and> uint w < uint b + 2 ^ (32 - p)"
  "strict_network (Net6 c p) \<Longrightarrow> in_network (V6 v z) (Net6 c p) \<longleftrightarrow> uint c \<le> uint v \<and> uint v < uint c + 2 ^ (128 - p)"
  by (simp_all add: in_block_iff)

lemmas v4_blocks = strict_blocks(1,2) [unfolded private_v4_def private_v4_exceptions_def list.pred_inject]
  strict_blocks(3,4)

lemma octets_nth:
  obtains a b c d where "octets w = [a, b, c, d]" "uint w = ((a * 256 + b) * 256 + c) * 256 + d"
    "0 \<le> a" "a < 256" "0 \<le> b" "b < 256" "0 \<le> c" "c < 256" "0 \<le> d" "d < 256"
proof -
  have len: "length (octets w) = 4" by (simp add: octets_def)
  then obtain a b c d where o: "octets w = [a, b, c, d]"
    by (auto simp: numeral_eq_Suc length_Suc_conv)
  have "from_digits 256 (octets w) = uint w"
    using uint_lt2p [of w] by (simp add: octets_def from_digits_of)
  then have "uint w = ((a * 256 + b) * 256 + c) * 256 + d" by (simp add: o from_digits_def)
  moreover have "0 \<le> x \<and> x < 256" if "x \<in> set (octets w)" for x
    using digits_of_bounds [of 256 x 4 "uint w"] that by (simp add: octets_def)
  ultimately show thesis using that o by simp
qed

text \<open>The addresses that are not publicly routable unicast, by octets.\<close>

fun public_v4 :: "int list \<Rightarrow> bool" where
  "public_v4 [a, b, c, d] \<longleftrightarrow> 1 \<le> a \<and> a < 224 \<and> a \<noteq> 10 \<and> a \<noteq> 127
     \<and> \<not> (a = 100 \<and> 64 \<le> b \<and> b < 128) \<and> \<not> (a = 169 \<and> b = 254) \<and> \<not> (a = 172 \<and> 16 \<le> b \<and> b < 32)
     \<and> \<not> (a = 192 \<and> b = 0 \<and> c = 0 \<and> d \<noteq> 9 \<and> d \<noteq> 10) \<and> \<not> (a = 192 \<and> b = 0 \<and> c = 2) \<and> \<not> (a = 192 \<and> b = 168)
     \<and> \<not> (a = 198 \<and> (b = 18 \<or> b = 19)) \<and> \<not> (a = 198 \<and> b = 51 \<and> c = 100) \<and> \<not> (a = 203 \<and> b = 0 \<and> c = 113)"
| "public_v4 _ = False"

lemma digit_blocks:
  fixes a b c d :: int
  assumes "0 \<le> a" "a < 256" "0 \<le> b" "b < 256" "0 \<le> c" "c < 256" "0 \<le> d" "d < 256"
    and n: "n = ((a * 256 + b) * 256 + c) * 256 + d"
  shows "n < 16777216 \<longleftrightarrow> a = 0"
    "167772160 \<le> n \<and> n < 184549376 \<longleftrightarrow> a = 10"
    "2130706432 \<le> n \<and> n < 2147483648 \<longleftrightarrow> a = 127"
    "2851995648 \<le> n \<and> n < 2852061184 \<longleftrightarrow> a = 169 \<and> b = 254"
    "2886729728 \<le> n \<and> n < 2887778304 \<longleftrightarrow> a = 172 \<and> 16 \<le> b \<and> b < 32"
    "3221225472 \<le> n \<and> n < 3221225728 \<longleftrightarrow> a = 192 \<and> b = 0 \<and> c = 0"
    "3221225642 \<le> n \<and> n < 3221225644 \<longleftrightarrow> a = 192 \<and> b = 0 \<and> c = 0 \<and> (d = 170 \<or> d = 171)"
    "3221225984 \<le> n \<and> n < 3221226240 \<longleftrightarrow> a = 192 \<and> b = 0 \<and> c = 2"
    "3232235520 \<le> n \<and> n < 3232301056 \<longleftrightarrow> a = 192 \<and> b = 168"
    "3323068416 \<le> n \<and> n < 3323199488 \<longleftrightarrow> a = 198 \<and> (b = 18 \<or> b = 19)"
    "3325256704 \<le> n \<and> n < 3325256960 \<longleftrightarrow> a = 198 \<and> b = 51 \<and> c = 100"
    "3405803776 \<le> n \<and> n < 3405804032 \<longleftrightarrow> a = 203 \<and> b = 0 \<and> c = 113"
    "4026531840 \<le> n \<and> n < 4294967296 \<longleftrightarrow> 240 \<le> a"
    "3221225481 \<le> n \<and> n < 3221225482 \<longleftrightarrow> a = 192 \<and> b = 0 \<and> c = 0 \<and> d = 9"
    "3221225482 \<le> n \<and> n < 3221225483 \<longleftrightarrow> a = 192 \<and> b = 0 \<and> c = 0 \<and> d = 10"
    "1681915904 \<le> n \<and> n < 1686110208 \<longleftrightarrow> a = 100 \<and> 64 \<le> b \<and> b < 128"
    "3758096384 \<le> n \<and> n < 4026531840 \<longleftrightarrow> 224 \<le> a \<and> a < 240"
  subgoal using assms by (auto)
  subgoal using assms by (cases a "10::int" rule: linorder_cases; auto)
  subgoal using assms by (cases a "127::int" rule: linorder_cases; auto)
  subgoal using assms by (cases a "169::int" rule: linorder_cases; cases b "254::int" rule: linorder_cases; auto)
  subgoal using assms by (cases a "172::int" rule: linorder_cases; auto)
  subgoal using assms by (cases a "192::int" rule: linorder_cases; cases b "0::int" rule: linorder_cases; cases c "0::int" rule: linorder_cases; auto)
  subgoal using assms by (cases a "192::int" rule: linorder_cases; cases b "0::int" rule: linorder_cases; cases c "0::int" rule: linorder_cases; auto)
  subgoal using assms by (cases a "192::int" rule: linorder_cases; cases b "0::int" rule: linorder_cases; cases c "2::int" rule: linorder_cases; auto)
  subgoal using assms by (cases a "192::int" rule: linorder_cases; cases b "168::int" rule: linorder_cases; auto)
  subgoal using assms by (cases a "198::int" rule: linorder_cases; cases b "18::int" rule: linorder_cases; auto)
  subgoal using assms by (cases a "198::int" rule: linorder_cases; cases b "51::int" rule: linorder_cases; cases c "100::int" rule: linorder_cases; auto)
  subgoal using assms by (cases a "203::int" rule: linorder_cases; cases b "0::int" rule: linorder_cases; cases c "113::int" rule: linorder_cases; auto)
  subgoal using assms by (cases a "240::int" rule: linorder_cases; auto)
  subgoal using assms by (cases a "192::int" rule: linorder_cases; cases b "0::int" rule: linorder_cases; cases c "0::int" rule: linorder_cases; auto)
  subgoal using assms by (cases a "192::int" rule: linorder_cases; cases b "0::int" rule: linorder_cases; cases c "0::int" rule: linorder_cases; auto)
  subgoal using assms by (cases a "100::int" rule: linorder_cases; auto)
  subgoal using assms by (cases a "224::int" rule: linorder_cases; auto)
  done

lemma hd_digits_of: "0 < b \<Longrightarrow> hd (digits_of b (Suc k) n) = n div b ^ k mod b"
proof (induction k arbitrary: n)
  case (Suc k)
  have ne: "digits_of b (Suc k) m \<noteq> []" for m by simp
  have "hd (digits_of b (Suc (Suc k)) n) = hd (digits_of b (Suc k) (n div b))"
    using ne [of "n div b"] by (subst digits_of.simps) (simp add: hd_append)
  also have "\<dots> = n div b div b ^ k mod b" using Suc by simp
  finally show ?case using Suc.prems by (simp add: zdiv_zmult2_eq)
qed simp

lemma le_div_block: "0 < (k::int) \<Longrightarrow> q \<le> n div k \<longleftrightarrow> q * k \<le> n"
proof
  assume k: "0 < k" and "q \<le> n div k"
  then have "q * k \<le> n div k * k" by (simp add: mult_right_mono)
  then show "q * k \<le> n" using k pos_mod_sign [of k n] div_mult_mod_eq [of n k] by linarith
next
  assume "0 < k" and "q * k \<le> n"
  then show "q \<le> n div k" using zdiv_mono1 [of "q * k" n k] by simp
qed

lemma hd_hextets: "hd (hextets w) = uint w div 2 ^ 112"
proof -
  have "uint w div 2 ^ 112 < 65536"
    using uint_lt2p [of w] le_div_block [of "2 ^ 112" 65536 "uint w"] by simp
  moreover have "(8::nat) = Suc 7" by simp
  then have "hd (hextets w) = uint w div 65536 ^ 7 mod 65536"
    unfolding hextets_def by (simp only: hd_digits_of zero_less_numeral)
  ultimately show ?thesis by (simp add: pos_imp_zdiv_nonneg_iff)
qed

text \<open>A block whose mask ends in the first hextet is decided by it.\<close>

lemma in_wide_block:
  assumes "strict_network (Net6 c p)" "p \<le> 16"
  shows "in_network (V6 w z) (Net6 c p) \<longleftrightarrow>
    uint c div 2 ^ 112 \<le> hd (hextets w) \<and> hd (hextets w) < uint c div 2 ^ 112 + 2 ^ (16 - p)"
proof -
  define k :: int where "k = 2 ^ 112"
  have "128 - p = (16 - p) + 112" using assms(2) by simp
  then have pow: "(2::int) ^ (128 - p) = 2 ^ (16 - p) * k" by (simp only: power_add k_def)
  have "uint c div 2 ^ (128 - p) * 2 ^ (128 - p) = uint c"
    using assms(1) and_netmask [of c p] by simp
  then have "k dvd uint c" unfolding pow by (metis dvd_triv_right mult.assoc)
  then obtain q where q: "uint c = q * k" by (metis dvd_def mult.commute)
  have "uint c div k = q" using q by (simp add: k_def)
  moreover have "uint c \<le> uint w \<and> uint w < uint c + 2 ^ (16 - p) * k
      \<longleftrightarrow> q \<le> uint w div k \<and> uint w div k < q + 2 ^ (16 - p)"
    using le_div_block [of k q "uint w"] le_div_block [of k "q + 2 ^ (16 - p)" "uint w"]
    by (auto simp: q k_def not_le [symmetric] distrib_right)
  ultimately show ?thesis
    unfolding hd_hextets k_def [symmetric] in_strict_block(2) [OF assms(1)] pow by simp
qed

end
