(* ===== verification/Egress_Policy.thy ===== *)
theory Egress_Policy
  imports Ip_Literals
begin

text \<open>
  The destination policy of outbound requests to AI providers (\<^verbatim>\<open>app/core/ai_egress.py\<close>): normalization of URLs, the classes of
  addresses a connection may use, and the checks before a configuration is saved and before a request is sent.
\<close>

section \<open>Names outside the repository\<close>

text \<open>
  The Unicode tables behind \<^verbatim>\<open>str.lower\<close>, the compatibility normalization that \<^verbatim>\<open>urlsplit\<close> consults, and the
  IDNA encoding of names that are not ASCII (for ASCII names the codec only checks the length of the labels).
\<close>

record names =
  nm_unicode :: unicode
  nm_nfkc :: "string \<Rightarrow> string"
  nm_idna :: "string \<Rightarrow> string option"

definition lowers_ascii :: "names \<Rightarrow> bool" where
  "lowers_ascii N \<longleftrightarrow> (\<forall>s. ascii s \<longrightarrow> u_lower (nm_unicode N) s = u_lower ascii_unicode s)"

definition short_label :: "string \<Rightarrow> bool" where
  "short_label l \<longleftrightarrow> length l < 64"

definition idna_encode :: "names \<Rightarrow> string \<Rightarrow> string option" where
  "idna_encode N host = (if \<not> ascii host then nm_idna N host
     else let ls = split_char (CHR ''.'') host in
       if list_all (\<lambda>l. l \<noteq> [] \<and> short_label l) (butlast ls) \<and> short_label (last ls) then Some host else None)"

section \<open>Splitting URLs\<close>

text \<open>\<^verbatim>\<open>urllib.parse.urlsplit\<close> and the properties of its result.\<close>

record split_url =
  su_scheme :: string
  su_netloc :: string
  su_path :: string
  su_query :: string
  su_fragment :: string

text \<open>\<^verbatim>\<open>s.partition(c)\<close> without the separator, and the last part of \<^verbatim>\<open>s.rpartition(c)\<close>.\<close>

definition before :: "char \<Rightarrow> string \<Rightarrow> string" where
  "before c s = takeWhile (\<lambda>x. x \<noteq> c) s"

definition after :: "char \<Rightarrow> string \<Rightarrow> string" where
  "after c s = drop 1 (dropWhile (\<lambda>x. x \<noteq> c) s)"

definition after_last :: "char \<Rightarrow> string \<Rightarrow> string" where
  "after_last c s = rev (takeWhile (\<lambda>x. x \<noteq> c) (rev s))"

definition scheme_char :: "char \<Rightarrow> bool" where
  "scheme_char c \<longleftrightarrow> ascii_letter c \<or> digit c \<or> c \<in> set ''+-.''"

definition split_scheme :: "names \<Rightarrow> string \<Rightarrow> string \<times> string" where
  "split_scheme N url = (let a = before (CHR '':'') url in
     if CHR '':'' \<in> set url \<and> a \<noteq> [] \<and> ascii_letter (hd a) \<and> list_all scheme_char a
     then (u_lower (nm_unicode N) a, after (CHR '':'') url) else ([], url))"

definition netloc_end :: "char \<Rightarrow> bool" where
  "netloc_end c \<longleftrightarrow> c \<in> set ''/?#''"

definition split_netloc :: "string \<Rightarrow> string \<times> string" where
  "split_netloc url = (if startswith ''//'' url
     then (takeWhile (\<lambda>c. \<not> netloc_end c) (drop 2 url), dropWhile (\<lambda>c. \<not> netloc_end c) (drop 2 url)) else ([], url))"

text \<open>A literal of a future version: \<^verbatim>\<open>v\<close>, hexadecimal digits, a dot and something.\<close>

definition future_literal :: "string \<Rightarrow> bool" where
  "future_literal h \<longleftrightarrow> (let r = dropWhile hex_digit (tl h) in
     takeWhile hex_digit (tl h) \<noteq> [] \<and> startswith ''.'' r \<and> tl r \<noteq> [])"

definition bracketed_host_ok :: "string \<Rightarrow> bool" where
  "bracketed_host_ok h = (if startswith ''v'' h then future_literal h
     else case ip_address h of Some (V6 w z) \<Rightarrow> True | _ \<Rightarrow> False)"

definition bracketed_netloc_ok :: "string \<Rightarrow> bool" where
  "bracketed_netloc_ok netloc = (let hp = after_last (CHR ''@'') netloc in
     if CHR ''['' \<in> set hp then
       let b = after (CHR ''['') hp; port = after (CHR '']'') b in
       before (CHR ''['') hp = [] \<and> (port = [] \<or> hd port = CHR '':'') \<and> bracketed_host_ok (before (CHR '']'') b)
     else bracketed_host_ok (before (CHR '':'') hp))"

definition netloc_ok :: "names \<Rightarrow> string \<Rightarrow> bool" where
  "netloc_ok N netloc \<longleftrightarrow> (CHR ''['' \<in> set netloc \<longleftrightarrow> CHR '']'' \<in> set netloc)
     \<and> (CHR ''['' \<in> set netloc \<longrightarrow> bracketed_netloc_ok netloc)
     \<and> (ascii netloc \<or> (let n = filter (\<lambda>c. c \<notin> set ''@:#?'') netloc; m = nm_nfkc N n in
          n = m \<or> list_all (\<lambda>c. c \<notin> set m) ''/?#@:''))"

definition clean_url :: "string \<Rightarrow> string" where
  "clean_url url = filter (\<lambda>c. c \<notin> {CHR 0x09, CHR 0x0D, CHR 0x0A}) (dropWhile (\<lambda>c. (of_char c :: int) \<le> 32) url)"

definition urlsplit :: "names \<Rightarrow> string \<Rightarrow> split_url option" where
  "urlsplit N s = (let (scheme, url) = split_scheme N (clean_url s); (netloc, rest) = split_netloc url in
     if \<not> netloc_ok N netloc then None
     else Some \<lparr> su_scheme = scheme, su_netloc = netloc, su_path = before (CHR ''?'') (before (CHR ''#'') rest),
       su_query = after (CHR ''?'') (before (CHR ''#'') rest), su_fragment = after (CHR ''#'') rest \<rparr>)"

text \<open>The name and the port, both as written; an empty port counts as none.\<close>

definition hostinfo :: "string \<Rightarrow> string \<times> string option" where
  "hostinfo netloc = (let hp = after_last (CHR ''@'') netloc; b = after (CHR ''['') hp;
       (h, p) = (if CHR ''['' \<in> set hp then (before (CHR '']'') b, after (CHR '':'') (after (CHR '']'') b))
                 else (before (CHR '':'') hp, after (CHR '':'') hp))
     in (h, if p = [] then None else Some p))"

definition hostname :: "names \<Rightarrow> split_url \<Rightarrow> string option" where
  "hostname N u = (let h = fst (hostinfo (su_netloc u)) in
     if h = [] then None
     else Some (u_lower (nm_unicode N) (before (CHR ''%'') h) @ dropWhile (\<lambda>c. c \<noteq> CHR ''%'') h))"

text \<open>\<^term>\<open>None\<close> is the error, \<^term>\<open>Some None\<close> an absent port.\<close>

definition port_of :: "split_url \<Rightarrow> int option option" where
  "port_of u = (case snd (hostinfo (su_netloc u)) of
       None \<Rightarrow> Some None
     | Some p \<Rightarrow> if all_digits p \<and> dec_value p \<le> 65535 then Some (Some (dec_value p)) else None)"

text \<open>\<^verbatim>\<open>urlunsplit\<close> of a hierarchical URL without fragment; the network location is never empty here.\<close>

definition urlunsplit :: "string \<Rightarrow> string \<Rightarrow> string \<Rightarrow> string \<Rightarrow> string" where
  "urlunsplit scheme netloc path query = scheme @ ''://'' @ netloc
     @ (if path \<noteq> [] \<and> hd path \<noteq> CHR ''/'' then CHR ''/'' # path else path)
     @ (if query = [] then [] else CHR ''?'' # query)"

section \<open>Destinations\<close>

datatype hint = NotAllowlisted | HostedMode | OutsideCidrs | Unresolved

datatype denial = Denied "hint option"

type_synonym 'a checked = "denial + 'a"

record destination =
  ds_scheme :: string
  ds_host :: string
  ds_port :: int
  ds_path :: string
  ds_query :: string

definition default_port :: "string \<Rightarrow> int" where
  "default_port scheme = (if scheme = ''http'' then 80 else 443)"

definition is_ip_literal :: "destination \<Rightarrow> bool" where
  "is_ip_literal d \<longleftrightarrow> ip_address (ds_host d) \<noteq> None"

definition authority_of :: "string \<Rightarrow> string \<Rightarrow> int \<Rightarrow> string" where
  "authority_of scheme host port =
     (if CHR '':'' \<in> set host then ''['' @ host @ '']'' else host)
     @ (if port \<noteq> default_port scheme then CHR '':'' # show_int port else [])"

definition authority :: "destination \<Rightarrow> string" where
  "authority d = authority_of (ds_scheme d) (ds_host d) (ds_port d)"

definition base_url :: "destination \<Rightarrow> string" where
  "base_url d = urlunsplit (ds_scheme d) (authority d) (ds_path d) []"

definition request_url :: "destination \<Rightarrow> string" where
  "request_url d = urlunsplit (ds_scheme d) (authority d) (ds_path d) (ds_query d)"

definition pinned_authority :: "destination \<Rightarrow> address \<Rightarrow> string" where
  "pinned_authority d a = (case a of V6 w z \<Rightarrow> ''['' @ show_ip a @ '']'' | V4 w \<Rightarrow> show_ip a)
     @ (if ds_port d \<noteq> default_port (ds_scheme d) then CHR '':'' # show_int (ds_port d) else [])"

definition pinned_request_url :: "destination \<Rightarrow> address \<Rightarrow> string" where
  "pinned_request_url d a = urlunsplit (ds_scheme d) (pinned_authority d a) (ds_path d) (ds_query d)"

record pinned =
  pn_destination :: destination
  pn_address :: address

definition connection_url :: "pinned \<Rightarrow> string" where
  "connection_url p = pinned_request_url (pn_destination p) (pn_address p)"

section \<open>Normalization\<close>

definition deny :: "'a checked" where
  "deny = Inl (Denied None)"

definition deny_hint :: "hint \<Rightarrow> 'a checked" where
  "deny_hint h = Inl (Denied (Some h))"

definition ldh :: "char \<Rightarrow> bool" where
  "ldh c \<longleftrightarrow> digit c \<or> (let n = (of_char c :: int) in 97 \<le> n \<and> n \<le> 122)"

text \<open>\<^verbatim>\<open>_HOST_LABEL\<close>: letters, digits and inner hyphens, at most 63 characters.\<close>

definition host_label :: "string \<Rightarrow> bool" where
  "host_label l \<longleftrightarrow> l \<noteq> [] \<and> length l \<le> 63 \<and> ldh (hd l) \<and> ldh (last l) \<and> list_all (\<lambda>c. ldh c \<or> c = CHR ''-'') l"

definition numeric_dotted :: "string \<Rightarrow> bool" where
  "numeric_dotted s \<longleftrightarrow> s \<noteq> [] \<and> list_all (\<lambda>c. digit c \<or> c = CHR ''.'') s"

definition canonical_name :: "names \<Rightarrow> string \<Rightarrow> string checked" where
  "canonical_name N host =
     (if numeric_dotted host \<or> startswith ''0x'' (u_lower (nm_unicode N) host) then deny
      else case idna_encode N host of
        None \<Rightarrow> deny
      | Some e \<Rightarrow> if \<not> ascii e then deny else let h = u_lower (nm_unicode N) e in
          if 253 < length h \<or> h = [] \<or> startswith ''.'' h \<or> endswith ''.'' h
            \<or> list_ex (\<lambda>l. \<not> host_label l) (split_char (CHR ''.'') h) then deny else Inr h)"

definition canonical_host :: "names \<Rightarrow> string \<Rightarrow> string checked" where
  "canonical_host N raw = (if endswith ''..'' raw then deny else
     let host = (if endswith ''.'' raw then butlast raw else raw) in
     if host = [] then deny
     else case ip_address host of Some a \<Rightarrow> Inr (show_ip a) | None \<Rightarrow> canonical_name N host)"

text \<open>\<^verbatim>\<open>path.rstrip("/")\<close>\<close>

definition rstrip_slash :: "string \<Rightarrow> string" where
  "rstrip_slash p = rev (dropWhile (\<lambda>c. c = CHR ''/'') (rev p))"

definition normalise_path :: "string \<Rightarrow> string checked" where
  "normalise_path p = (if p = [] then Inr ''/''
     else if \<not> startswith ''/'' p \<or> CHR 0x5C \<in> set p \<or> CHR ''%'' \<in> set p then deny
     else let segs = split_char (CHR ''/'') p in
       if ''.'' \<in> set segs \<or> ''..'' \<in> set segs then deny
       else if [] \<in> set (butlast (tl segs)) then deny
       else Inr (if rstrip_slash p = [] then ''/'' else rstrip_slash p))"

text \<open>What is rejected before the URL is split.\<close>

definition raw_ok :: "bool \<Rightarrow> string \<Rightarrow> bool" where
  "raw_ok allow_query s \<longleftrightarrow> s \<noteq> [] \<and> strip s = s \<and> list_all (\<lambda>c. 32 < (of_char c :: int)) s
     \<and> CHR 0x5C \<notin> set s \<and> CHR ''%'' \<notin> set s \<and> CHR ''#'' \<notin> set s \<and> (allow_query \<or> CHR ''?'' \<notin> set s)"

definition split_ok :: "bool \<Rightarrow> split_url \<Rightarrow> bool" where
  "split_ok allow_query u \<longleftrightarrow> su_scheme u \<in> {''http'', ''https''} \<and> su_netloc u \<noteq> [] \<and> su_fragment u = []
     \<and> CHR ''@'' \<notin> set (su_netloc u) \<and> (allow_query \<or> su_query u = [])"

definition normalise_split :: "names \<Rightarrow> bool \<Rightarrow> split_url \<Rightarrow> destination checked" where
  "normalise_split N allow_query u = (if \<not> split_ok allow_query u then deny else
     case (hostname N u, port_of u) of
       (Some raw, Some port) \<Rightarrow>
         if endswith '':'' (after_last (CHR ''@'') (su_netloc u)) then deny
         else bindR (canonical_host N raw) (\<lambda>host.
           let p = (case port of None \<Rightarrow> default_port (su_scheme u) | Some p \<Rightarrow> p) in
           if p < 1 \<or> 65535 < p then deny
           else bindR (normalise_path (su_path u)) (\<lambda>path.
             Inr \<lparr> ds_scheme = su_scheme u, ds_host = host, ds_port = p, ds_path = path,
               ds_query = (if allow_query then su_query u else []) \<rparr>))
     | _ \<Rightarrow> deny)"

definition normalise_url :: "names \<Rightarrow> bool \<Rightarrow> string option \<Rightarrow> destination checked" where
  "normalise_url N allow_query v = (case v of
       None \<Rightarrow> deny
     | Some s \<Rightarrow> if \<not> raw_ok allow_query s then deny
         else case urlsplit N s of None \<Rightarrow> deny | Some u \<Rightarrow> normalise_split N allow_query u)"

definition normalize_base_url :: "names \<Rightarrow> string option \<Rightarrow> destination checked" where
  "normalize_base_url N v = normalise_url N False v"

definition normalize_request_url :: "names \<Rightarrow> string option \<Rightarrow> destination checked" where
  "normalize_request_url N v = normalise_url N True v"

section \<open>Addresses a connection may use\<close>

definition permitted_plain :: "bool \<Rightarrow> address \<Rightarrow> bool" where
  "permitted_plain internal a =
     (if is_unspecified a \<or> is_multicast a \<or> is_link_local a then False
      else if internal \<and> is_loopback a then True
      else if is_reserved a then False
      else if internal then is_global a \<or> is_private a
      else is_global a)"

text \<open>A scoped address is never permitted; an IPv4-mapped one is judged by the address inside.\<close>

fun permitted_class :: "bool \<Rightarrow> address \<Rightarrow> bool" where
  "permitted_class internal (V6 w (Some z)) = False"
| "permitted_class internal (V6 w None) = (case ipv4_mapped w of
       Some v \<Rightarrow> permitted_plain internal (V4 v) | None \<Rightarrow> permitted_plain internal (V6 w None))"
| "permitted_class internal (V4 w) = permitted_plain internal (V4 w)"

section \<open>The policy\<close>

text \<open>The resolver answers with literals or raises (\<^term>\<open>None\<close>).\<close>

type_synonym resolver = "string \<Rightarrow> int \<Rightarrow> string list option"

record policy =
  pl_self_hosted :: bool
  pl_base_urls :: "string list"
  pl_cidrs :: "network list"
  pl_resolver :: resolver

datatype config_error = InvalidMode | InvalidBaseUrl | InvalidCidr

record egress_settings =
  es_mode :: string
  es_base_urls :: "string list"
  es_cidrs :: "string list"

definition from_settings :: "names \<Rightarrow> egress_settings \<Rightarrow> resolver \<Rightarrow> config_error + policy" where
  "from_settings N st r = (let mode = u_lower (nm_unicode N) (es_mode st) in
     if mode \<noteq> ''hosted'' \<and> mode \<noteq> ''self_hosted'' then Inl InvalidMode
     else case mapR (\<lambda>v. bindR (normalize_base_url N (Some v)) (\<lambda>d. Inr (base_url d))) (es_base_urls st) of
       Inl _ \<Rightarrow> Inl InvalidBaseUrl
     | Inr urls \<Rightarrow> (case those (map ip_network (es_cidrs st)) of
         None \<Rightarrow> Inl InvalidCidr
       | Some nets \<Rightarrow> Inr \<lparr> pl_self_hosted = (mode = ''self_hosted''), pl_base_urls = urls, pl_cidrs = nets, pl_resolver = r \<rparr>))"

record provider_config =
  pc_provider :: string
  pc_base_url :: "string option"

record fixed_destination =
  fx_scheme :: string
  fx_host :: string
  fx_base_path :: string

definition fixed_destinations :: "(string \<times> fixed_destination) list" where
  "fixed_destinations =
    [(''openai'', \<lparr> fx_scheme = ''https'', fx_host = ''api.openai.com'', fx_base_path = ''/v1'' \<rparr>),
     (''anthropic'', \<lparr> fx_scheme = ''https'', fx_host = ''api.anthropic.com'', fx_base_path = ''/v1'' \<rparr>),
     (''gemini'', \<lparr> fx_scheme = ''https'', fx_host = ''generativelanguage.googleapis.com'', fx_base_path = ''/v1beta'' \<rparr>),
     (''openrouter'', \<lparr> fx_scheme = ''https'', fx_host = ''openrouter.ai'', fx_base_path = ''/api/v1'' \<rparr>)]"

definition under_path :: "string \<Rightarrow> string \<Rightarrow> bool" where
  "under_path path base \<longleftrightarrow> path = base \<or> startswith (base @ ''/'') path"

definition validate_fixed_request :: "provider_config \<Rightarrow> destination \<Rightarrow> fixed_destination \<Rightarrow> unit checked" where
  "validate_fixed_request c d fx =
     (if pc_base_url c \<noteq> None then deny
      else if ds_scheme d \<noteq> fx_scheme fx \<or> ds_host d \<noteq> fx_host fx then deny
      else if ds_port d \<noteq> default_port (fx_scheme fx) then deny
      else if \<not> under_path (ds_path d) (fx_base_path fx) then deny
      else Inr ())"

definition require_under_base :: "destination \<Rightarrow> destination \<Rightarrow> unit checked" where
  "require_under_base d base =
     (if ds_scheme d \<noteq> ds_scheme base \<or> ds_host d \<noteq> ds_host base \<or> ds_port d \<noteq> ds_port base
        \<or> ds_path base \<noteq> ''/'' \<and> \<not> under_path (ds_path d) (ds_path base) then deny else Inr ())"

definition configurable_base :: "names \<Rightarrow> policy \<Rightarrow> provider_config \<Rightarrow> destination checked" where
  "configurable_base N p c = (if pc_provider c \<noteq> ''ollama'' then deny
     else bindR (normalize_base_url N (pc_base_url c)) (\<lambda>base.
       if base_url base \<notin> set (pl_base_urls p) then deny_hint NotAllowlisted else Inr base))"

text \<open>The answers for a destination: a literal stands for itself, a name is resolved.\<close>

definition answers :: "policy \<Rightarrow> destination \<Rightarrow> bool \<Rightarrow> string list checked" where
  "answers p d configurable = (if is_ip_literal d then Inr [ds_host d]
     else case pl_resolver p (ds_host d) (ds_port d) of
       None \<Rightarrow> if configurable then deny_hint Unresolved else deny
     | Some as \<Rightarrow> Inr as)"

definition read_answer :: "string \<Rightarrow> address checked" where
  "read_answer s = (case ip_address s of None \<Rightarrow> deny | Some a \<Rightarrow> Inr a)"

definition check_classes :: "policy \<Rightarrow> bool \<Rightarrow> address list \<Rightarrow> unit checked" where
  "check_classes p configurable resolved =
     (if list_ex (\<lambda>a. \<not> permitted_class (configurable \<and> pl_self_hosted p) a) resolved
      then (if configurable \<and> \<not> pl_self_hosted p then deny_hint HostedMode else deny)
      else if configurable \<and> pl_self_hosted p \<and> (pl_cidrs p = [] \<or> list_ex (\<lambda>a. \<not> list_ex (in_network a) (pl_cidrs p)) resolved)
      then deny_hint OutsideCidrs else Inr ())"

definition validated_addresses :: "policy \<Rightarrow> destination \<Rightarrow> bool \<Rightarrow> address list checked" where
  "validated_addresses p d configurable =
     bindR (answers p d configurable) (\<lambda>xs. if xs = [] then deny
       else bindR (mapR read_answer xs) (\<lambda>as. let resolved = dedup_by id [] as in
         bindR (check_classes p configurable resolved) (\<lambda>_. Inr resolved)))"

definition validate_config :: "names \<Rightarrow> policy \<Rightarrow> provider_config \<Rightarrow> unit checked" where
  "validate_config N p c = (case map_of fixed_destinations (pc_provider c) of
       Some fx \<Rightarrow> if pc_base_url c \<noteq> None then deny else Inr ()
     | None \<Rightarrow> bindR (configurable_base N p c) (\<lambda>base.
         bindR (validated_addresses p base True) (\<lambda>_. Inr ())))"

definition request_addresses :: "names \<Rightarrow> policy \<Rightarrow> provider_config \<Rightarrow> destination \<Rightarrow> address list checked" where
  "request_addresses N p c d = (case map_of fixed_destinations (pc_provider c) of
       Some fx \<Rightarrow> bindR (validate_fixed_request c d fx) (\<lambda>_. validated_addresses p d False)
     | None \<Rightarrow> bindR (configurable_base N p c) (\<lambda>base.
         bindR (require_under_base d base) (\<lambda>_. validated_addresses p d True)))"

definition prepare_request :: "names \<Rightarrow> policy \<Rightarrow> provider_config \<Rightarrow> string \<Rightarrow> pinned checked" where
  "prepare_request N p c url = bindR (normalize_request_url N (Some url)) (\<lambda>d.
     bindR (request_addresses N p c d) (\<lambda>as. Inr \<lparr> pn_destination = d, pn_address = hd as \<rparr>))"

section \<open>The permitted addresses\<close>

text \<open>
  Written over octets and hextets, without the tables: a hosted deployment reaches public unicast addresses only; a self-hosted one also private
  and loopback ones. The range \<open>fec0::/10\<close> of the former site-local addresses is in neither table of the library.
\<close>

fun internal_v4 :: "int list \<Rightarrow> bool" where
  "internal_v4 [a, b, c, d] \<longleftrightarrow> [a, b, c, d] \<noteq> [0, 0, 0, 0] \<and> a < 224 \<and> \<not> (a = 169 \<and> b = 254)
     \<and> \<not> (a = 100 \<and> 64 \<le> b \<and> b < 128)"
| "internal_v4 _ = False"

definition safe_v4 :: "bool \<Rightarrow> int list \<Rightarrow> bool" where
  "safe_v4 internal os = (if internal then internal_v4 os else public_v4 os)"

definition safe_v6 :: "bool \<Rightarrow> 128 word \<Rightarrow> bool" where
  "safe_v6 internal w \<longleftrightarrow> (let h = hd (hextets w) in
     0x2000 \<le> h \<and> h < 0x4000 \<and> (internal \<or> h \<noteq> 0x2002) \<or> 0xFEC0 \<le> h \<and> h < 0xFF00
     \<or> internal \<and> (w = 1 \<or> 0xFC00 \<le> h \<and> h < 0xFE00))"

fun safe_target :: "bool \<Rightarrow> address \<Rightarrow> bool" where
  "safe_target internal (V4 w) = safe_v4 internal (octets w)"
| "safe_target internal (V6 w z) \<longleftrightarrow> z = None \<and> (case ipv4_mapped w of
       Some v \<Rightarrow> safe_v4 internal (octets v) | None \<Rightarrow> safe_v6 internal w)"

lemma permitted_v4: "permitted_plain internal (V4 w) \<longleftrightarrow> safe_v4 internal (octets w)"
proof -
  obtain a b c d where o: "octets w = [a, b, c, d]" and n: "uint w = ((a * 256 + b) * 256 + c) * 256 + d"
    and bounds: "0 \<le> a" "a < 256" "0 \<le> b" "b < 256" "0 \<le> c" "c < 256" "0 \<le> d" "d < 256"
    using octets_nth by blast
  have zero: "w = 0 \<longleftrightarrow> a = 0 \<and> b = 0 \<and> c = 0 \<and> d = 0"
  proof -
    have "w = 0 \<longleftrightarrow> uint w = 0" by (simp add: word_uint_eq_iff)
    then show ?thesis using bounds n
      by (cases a "0::int" rule: linorder_cases; cases b "0::int" rule: linorder_cases; cases c "0::int" rule: linorder_cases; auto)
  qed
  note blocks = in_strict_block(1) v4_blocks digit_blocks [OF bounds n]
  have classes: "is_unspecified (V4 w) \<longleftrightarrow> a = 0 \<and> b = 0 \<and> c = 0 \<and> d = 0" "is_loopback (V4 w) \<longleftrightarrow> a = 127"
    "is_link_local (V4 w) \<longleftrightarrow> a = 169 \<and> b = 254" "is_multicast (V4 w) \<longleftrightarrow> 224 \<le> a \<and> a < 240"
    "is_reserved (V4 w) \<longleftrightarrow> 240 \<le> a"
    "in_network (V4 w) (Net4 0x64400000 10) \<longleftrightarrow> a = 100 \<and> 64 \<le> b \<and> b < 128"
    by (simp_all add: zero blocks del: in_network.simps strict_network.simps)
  have "is_private (V4 w) \<longleftrightarrow> a = 0 \<or> a = 10 \<or> a = 127 \<or> a = 169 \<and> b = 254 \<or> a = 172 \<and> 16 \<le> b \<and> b < 32
      \<or> a = 192 \<and> b = 0 \<and> c = 0 \<and> d \<noteq> 9 \<and> d \<noteq> 10 \<or> a = 192 \<and> b = 0 \<and> c = 2 \<or> a = 192 \<and> b = 168
      \<or> a = 198 \<and> (b = 18 \<or> b = 19) \<or> a = 198 \<and> b = 51 \<and> c = 100 \<or> a = 203 \<and> b = 0 \<and> c = 113 \<or> 240 \<le> a"
    (is "_ \<longleftrightarrow> ?private")
  proof -
    have "4294967295 \<le> uint w \<and> uint w < 4294967296 \<longrightarrow> 240 \<le> a"
      using digit_blocks(13) [OF bounds n] by linarith
    then show ?thesis
      by (simp add: is_private_v4_def in_any_def private_v4_def private_v4_exceptions_def blocks
          del: in_network.simps strict_network.simps) (cases "a = 192"; auto)
  qed
  then have privs: "is_private (V4 w) = ?private" "is_global (V4 w) \<longleftrightarrow> \<not> (a = 100 \<and> 64 \<le> b \<and> b < 128) \<and> \<not> ?private"
    using classes(6) by (simp_all only: is_global.simps)
  show ?thesis
  proof (cases "a < 224")
    case True
    then have p: "is_private (V4 w) \<Longrightarrow> a \<noteq> 100" using privs(1) by auto
    have pos: "1 \<le> a \<longleftrightarrow> a \<noteq> 0" using bounds(1) by linarith
    show ?thesis
    proof (cases internal)
      case internal: True
      have "permitted_plain True (V4 w) \<longleftrightarrow> internal_v4 [a, b, c, d]"
        unfolding permitted_plain_def classes is_global.simps using True p by auto
      then show ?thesis using internal o by (simp add: safe_v4_def)
    next
      case hosted: False
      have "permitted_plain False (V4 w) \<longleftrightarrow> \<not> (a = 0 \<and> b = 0 \<and> c = 0 \<and> d = 0) \<and> \<not> (a = 169 \<and> b = 254) \<and> is_global (V4 w)"
        unfolding permitted_plain_def classes using True by auto
      also have "\<dots> \<longleftrightarrow> public_v4 [a, b, c, d]"
        unfolding privs public_v4.simps pos using True
        by (cases "a = 192"; cases "a = 198"; cases "a = 203"; cases "a = 172"; cases "a = 169"; cases "a = 100"; auto)
      finally show ?thesis using hosted o by (simp add: safe_v4_def)
    qed
  next
    case False
    then have "224 \<le> a \<and> a < 240 \<or> 240 \<le> a" by linarith
    then show ?thesis
      unfolding safe_v4_def o permitted_plain_def classes privs using False by auto
  qed
qed

lemmas v6_blocks = strict_blocks(5,6) [unfolded private_v6_def reserved_v6_def list.pred_inject] strict_blocks(7)

lemma v6_classes:
  fixes w :: "128 word"
  defines "h \<equiv> hd (hextets w)"
  shows "is_multicast (V6 w z) \<longleftrightarrow> 0xFF00 \<le> h \<and> h < 0x10000"
    "is_link_local (V6 w z) \<longleftrightarrow> 0xFE80 \<le> h \<and> h < 0xFEC0"
    "is_reserved (V6 w z) \<longleftrightarrow> 0 \<le> h \<and> h < 0x2000 \<or> 0x4000 \<le> h \<and> h < 0xFC00 \<or> 0xFE00 \<le> h \<and> h < 0xFE80"
      (is "?reserved \<longleftrightarrow> ?blocks")
    "in_network (V6 w z) (Net6 0x20020000000000000000000000000000 16) \<longleftrightarrow> h = 0x2002"
    "in_network (V6 w z) (Net6 0xFC000000000000000000000000000000 7) \<longleftrightarrow> 0xFC00 \<le> h \<and> h < 0xFE00"
proof -
  note wide = in_wide_block [where w = w and z = z, folded h_def] v6_blocks
  show "is_multicast (V6 w z) \<longleftrightarrow> 0xFF00 \<le> h \<and> h < 0x10000"
    "is_link_local (V6 w z) \<longleftrightarrow> 0xFE80 \<le> h \<and> h < 0xFEC0"
    "in_network (V6 w z) (Net6 0x20020000000000000000000000000000 16) \<longleftrightarrow> h = 0x2002"
    "in_network (V6 w z) (Net6 0xFC000000000000000000000000000000 7) \<longleftrightarrow> 0xFC00 \<le> h \<and> h < 0xFE00"
    by (simp_all add: wide del: in_network.simps strict_network.simps) linarith?
  have "?reserved \<longleftrightarrow> 0 \<le> h \<and> h < 0x100 \<or> 0x100 \<le> h \<and> h < 0x200 \<or> 0x200 \<le> h \<and> h < 0x400 \<or> 0x400 \<le> h \<and> h < 0x800
      \<or> 0x800 \<le> h \<and> h < 0x1000 \<or> 0x1000 \<le> h \<and> h < 0x2000 \<or> 0x4000 \<le> h \<and> h < 0x6000 \<or> 0x6000 \<le> h \<and> h < 0x8000
      \<or> 0x8000 \<le> h \<and> h < 0xA000 \<or> 0xA000 \<le> h \<and> h < 0xC000 \<or> 0xC000 \<le> h \<and> h < 0xE000 \<or> 0xE000 \<le> h \<and> h < 0xF000
      \<or> 0xF000 \<le> h \<and> h < 0xF800 \<or> 0xF800 \<le> h \<and> h < 0xFC00 \<or> 0xFE00 \<le> h \<and> h < 0xFE80"
    unfolding is_reserved.simps in_any_def reserved_v6_def
    by (simp add: wide del: in_network.simps strict_network.simps)
  moreover have "l \<le> h \<and> h < m \<or> m \<le> h \<and> h < r \<or> P \<longleftrightarrow> l \<le> h \<and> h < r \<or> P" if "l \<le> m" "m \<le> r" for l m r P
    using that by auto
  ultimately show "?reserved \<longleftrightarrow> ?blocks" by simp
qed

lemma v6_unspecified: "w = 0 \<or> w = 1 \<Longrightarrow> hd (hextets w) = 0"
  by (auto simp: hd_hextets)

lemma exception_block: "in_any (V6 w z) private_v6_exceptions \<Longrightarrow> hd (hextets w) = 0x2001"
proof -
  assume "in_any (V6 w z) private_v6_exceptions"
  moreover have "list_all strict_network private_v6_exceptions" by code_simp
  note blocks = in_strict_block(2) this [unfolded private_v6_exceptions_def list.pred_inject]
  ultimately have "0x2001 * 2 ^ 112 \<le> uint w" "uint w < 0x2002 * 2 ^ 112"
    by (auto simp: in_any_def private_v6_exceptions_def blocks simp del: in_network.simps strict_network.simps)
  then have "0x2001 \<le> uint w div 2 ^ 112" "\<not> 0x2002 \<le> uint w div 2 ^ 112"
    using le_div_block [of "2 ^ 112" "0x2001" "uint w"] le_div_block [of "2 ^ 112" "0x2002" "uint w"] by simp_all
  then show ?thesis unfolding hd_hextets by linarith
qed

lemma permitted_v6:
  assumes "ipv4_mapped w = None"
  shows "permitted_plain True (V6 w None) \<longleftrightarrow> safe_v6 True w"
    and "permitted_plain False (V6 w None) \<Longrightarrow> safe_v6 False w"
proof -
  define h where "h = hd (hextets w)"
  note classes = v6_classes [of w None, folded h_def]
  have "length (hextets w) = 8" unfolding hextets_def by (rule length_digits_of)
  then have "hextets w \<noteq> []" by auto
  then have "h \<in> set (digits_of 65536 8 (uint w))" unfolding h_def hextets_def [symmetric] by (rule hd_in_set)
  then have bounds: "0 \<le> h" "h < 0x10000" using digits_of_bounds [of 65536 h 8 "uint w"] by simp_all
  have zero: "w = 0 \<Longrightarrow> h = 0" "w = 1 \<Longrightarrow> h = 0" using v6_unspecified by (simp_all add: h_def)
  show "permitted_plain True (V6 w None) \<longleftrightarrow> safe_v6 True w"
    unfolding permitted_plain_def classes(1-3) is_global.simps is_unspecified.simps is_loopback.simps safe_v6_def
      h_def [symmetric] Let_def
    using bounds zero by auto
  have tables: "h = 0x2002 \<or> 0xFC00 \<le> h \<and> h < 0xFE00 \<Longrightarrow> in_any (V6 w None) private_v6"
    unfolding in_any_def private_v6_def using classes(4,5) by (auto simp del: in_network.simps)
  have exceptions: "h = 0x2002 \<or> 0xFC00 \<le> h \<and> h < 0xFE00 \<Longrightarrow> \<not> in_any (V6 w None) private_v6_exceptions"
    using exception_block [of w None] by (auto simp: h_def)
  have "is_private (V6 w None)" if "h = 0x2002 \<or> 0xFC00 \<le> h \<and> h < 0xFE00"
    using tables [OF that] exceptions [OF that] assms by simp
  then show "permitted_plain False (V6 w None) \<Longrightarrow> safe_v6 False w"
    unfolding permitted_plain_def classes(1-3) is_global.simps is_unspecified.simps is_loopback.simps safe_v6_def
      h_def [symmetric] Let_def
    using bounds zero by (auto split: if_splits)
qed

lemma permitted_safe: "permitted_class internal a \<Longrightarrow> safe_target internal a"
proof (induction internal a rule: permitted_class.induct)
  case (2 internal w)
  then show ?case by (cases internal) (auto simp: permitted_v4 permitted_v6 split: option.splits)
qed (simp_all add: permitted_v4)

section \<open>Normalization is idempotent\<close>

definition no_caps :: "string \<Rightarrow> bool" where
  "no_caps s \<longleftrightarrow> (\<forall>c \<in> set s. \<not> (65 \<le> (of_char c :: int) \<and> (of_char c :: int) \<le> 90))"

definition host_char :: "char \<Rightarrow> bool" where
  "host_char c \<longleftrightarrow> ldh c \<or> c \<in> set ''-.:''"

lemma host_char_range: "host_char c \<Longrightarrow> 32 < (of_char c :: int) \<and> (of_char c :: int) < 128
    \<and> \<not> (65 \<le> (of_char c :: int) \<and> (of_char c :: int) \<le> 90)"
  by (auto simp: host_char_def ldh_def digit_def Let_def)

lemma lower_fixed:
  assumes "lowers_ascii N" "ascii s" "no_caps s"
  shows "u_lower (nm_unicode N) s = s"
proof -
  have "u_lower ascii_unicode s = s"
    using assms(3) by (auto simp: ascii_unicode_def no_caps_def Let_def intro!: map_idI)
  then show ?thesis using assms(1,2) by (simp add: lowers_ascii_def)
qed

lemma lowered_char:
  fixes c :: char
  defines "d \<equiv> (let n = (of_char c :: int) in if 65 \<le> n \<and> n \<le> 90 then char_of (n + 32) else c)"
  assumes "(of_char c :: int) < 128"
  shows "(of_char d :: int) < 128" "\<not> (65 \<le> (of_char d :: int) \<and> (of_char d :: int) \<le> 90)"
    "digit d \<or> d = CHR ''.'' \<longleftrightarrow> digit c \<or> c = CHR ''.''"
proof -
  have "(of_char (char_of (of_char c + 32 :: int) :: char) :: int) = of_char c + 32"
    if "65 \<le> (of_char c :: int)" "(of_char c :: int) \<le> 90"
    using that by (simp add: of_char_of)
  moreover from this have "char_of (of_char c + 32 :: int) \<noteq> CHR ''.''"
    if "65 \<le> (of_char c :: int)" "(of_char c :: int) \<le> 90" using that by force
  ultimately show "(of_char d :: int) < 128" "\<not> (65 \<le> (of_char d :: int) \<and> (of_char d :: int) \<le> 90)"
    "digit d \<or> d = CHR ''.'' \<longleftrightarrow> digit c \<or> c = CHR ''.''"
    using assms(2) by (auto simp: d_def Let_def digit_def)
qed

lemma lower_ascii:
  assumes "lowers_ascii N" "ascii s"
  shows "ascii (u_lower (nm_unicode N) s)" "no_caps (u_lower (nm_unicode N) s)"
    "numeric_dotted (u_lower (nm_unicode N) s) \<longleftrightarrow> numeric_dotted s"
proof -
  have eq: "u_lower (nm_unicode N) s = map (\<lambda>c. let n = (of_char c :: int) in if 65 \<le> n \<and> n \<le> 90 then char_of (n + 32) else c) s"
    using assms by (simp add: lowers_ascii_def ascii_unicode_def)
  show "ascii (u_lower (nm_unicode N) s)" "no_caps (u_lower (nm_unicode N) s)"
    "numeric_dotted (u_lower (nm_unicode N) s) \<longleftrightarrow> numeric_dotted s"
    unfolding eq using assms(2) lowered_char
    by (auto simp: ascii_def no_caps_def numeric_dotted_def list_all_iff)
qed

subsection \<open>Hosts\<close>

lemma split_char_snoc: "split_char c (s @ [c]) = split_char c s @ [[]]"
  by (induction s) (auto split: list.splits)

lemma v4_no_trailing_dot: "v4_word s = Some w \<Longrightarrow> \<not> endswith ''.'' s"
proof
  assume w: "v4_word s = Some w" and "endswith ''.'' s"
  then obtain r where s: "s = r @ ''.''" by (auto simp: endswith_iff)
  obtain ns where "those (map parse_octet (split_char (CHR ''.'') s)) = Some ns"
    using w by (auto simp: v4_word_def v4_int_def Let_def split: if_splits)
  then have "\<exists>n. parse_octet [] = Some n"
    by (rule those_SomeD) (simp add: s split_char_snoc)
  then show False by (simp add: parse_octet_def all_digits_def)
qed

lemma v6_no_colon: "CHR '':'' \<notin> set s \<Longrightarrow> v6_address s = None"
proof -
  assume no: "CHR '':'' \<notin> set s"
  have "v6_int a = None" if "split_scope s = Some (a, z)" for a z
  proof -
    have "set a \<subseteq> set s"
      using that split_once_Some by (fastforce simp: split_scope_def split: option.splits if_splits)
    then have "CHR '':'' \<notin> set a" using no by auto
    then show ?thesis by (simp add: v6_int_def split_char_id)
  qed
  then show ?thesis by (cases "split_scope s") (auto simp: v6_address_def)
qed

lemma ip_address_scoped: "ip_address s = Some (V6 w (Some z)) \<Longrightarrow> CHR ''%'' \<in> set s"
  using split_once_Some [of "''%''" s]
  by (auto simp: ip_address_def v6_address_def split_scope_def bind_eq_Some_conv split: option.splits if_splits)

definition unscoped :: "address \<Rightarrow> bool" where
  "unscoped a \<longleftrightarrow> (\<forall>w z. a \<noteq> V6 w (Some z))"

lemma show_ip_shape:
  assumes "unscoped a"
  shows "\<And>c. c \<in> set (show_ip a) \<Longrightarrow> host_char c" "show_ip a \<noteq> []" "\<not> endswith ''.'' (show_ip a)"
    "CHR '':'' \<in> set (show_ip a) \<longleftrightarrow> (\<exists>w. a = V6 w None)"
proof -
  consider w where "a = V4 w" | w where "a = V6 w None"
    using assms by (metis address.exhaust option.exhaust unscoped_def)
  then have "(\<forall>c \<in> set (show_ip a). host_char c) \<and> show_ip a \<noteq> [] \<and> \<not> endswith ''.'' (show_ip a)
    \<and> (CHR '':'' \<in> set (show_ip a) \<longleftrightarrow> (\<exists>w. a = V6 w None))"
  proof cases
    case (1 w)
    have "\<forall>c \<in> set (show_v4 w). host_char c" "CHR '':'' \<notin> set (show_v4 w)"
      using show_v4_chars [of _ w] by (fastforce simp: host_char_def ldh_def digit_def)+
    moreover have "show_v4 w \<noteq> []" using v4_word_show [of w] by (auto simp: v4_word_def v4_int_def)
    ultimately show ?thesis using 1 v4_no_trailing_dot [OF v4_word_show] by simp
  next
    case (2 w)
    have "\<forall>c \<in> set (show_v6 w). host_char c"
      using show_v6_chars [of _ w] by (fastforce simp: host_char_def ldh_def low_hex_def Let_def)
    moreover have "CHR ''.'' \<notin> set (show_v6 w)"
      using show_v6_chars [of "CHR ''.''" w] by (auto simp: low_hex_def digit_def)
    ultimately show ?thesis using 2 show_v6_colon [of w] by (auto simp: endswith_iff)
  qed
  then show "\<And>c. c \<in> set (show_ip a) \<Longrightarrow> host_char c" "show_ip a \<noteq> []" "\<not> endswith ''.'' (show_ip a)"
    "CHR '':'' \<in> set (show_ip a) \<longleftrightarrow> (\<exists>w. a = V6 w None)" by blast+
qed

lemma canonical_ip:
  assumes "unscoped a"
  shows "canonical_host N (show_ip a) = Inr (show_ip a)"
proof -
  have "ip_address (show_ip a) = Some a" using assms by (intro ip_address_show) (simp add: unscoped_def)
  moreover have "\<not> endswith ''..'' (show_ip a)"
    using show_ip_shape(3) [OF assms] by (auto simp: endswith_iff)
  ultimately show ?thesis
    using show_ip_shape(2,3) [OF assms] by (simp add: canonical_host_def)
qed

lemma ip_address_name:
  assumes "\<not> numeric_dotted h" "CHR '':'' \<notin> set h" "h \<noteq> []"
  shows "ip_address h = None"
proof -
  have "v4_word h = None"
  proof (rule ccontr)
    assume "v4_word h \<noteq> None"
    then show False using assms(1,3) v4_word_chars by (auto simp: numeric_dotted_def list_all_iff)
  qed
  then show ?thesis using v6_no_colon [OF assms(2)] by (simp add: ip_address_def)
qed

lemma label_chars:
  assumes "\<And>l. l \<in> set (split_char (CHR ''.'') h) \<Longrightarrow> host_label l" "c \<in> set h"
  shows "ldh c \<or> c \<in> set ''-.''"
proof -
  have "c \<in> set (join ''.'' (split_char (CHR ''.'') h))" using assms(2) by (simp add: join_split)
  then consider l where "l \<in> set (split_char (CHR ''.'') h)" "c \<in> set l" | "c = CHR ''.''"
    using set_join by fastforce
  then show ?thesis
    by cases (use assms(1) in \<open>auto simp: host_label_def list_all_iff\<close>)
qed

lemma canonical_name_fixed:
  assumes N: "lowers_ascii N" and host: "ascii host" and h: "canonical_name N host = Inr h"
  shows "canonical_host N h = Inr h" "\<And>c. c \<in> set h \<Longrightarrow> ldh c \<or> c \<in> set ''-.''" "h \<noteq> []"
proof -
  have e: "h = u_lower (nm_unicode N) host" and num: "\<not> numeric_dotted host" and hexa: "\<not> startswith ''0x'' h"
    and len: "length h \<le> 253" "h \<noteq> []" and dots: "\<not> startswith ''.'' h" "\<not> endswith ''.'' h"
    and labels: "\<And>l. l \<in> set (split_char (CHR ''.'') h) \<Longrightarrow> host_label l"
    using h host by (auto simp: canonical_name_def deny_def idna_encode_def Let_def list_ex_iff split: if_splits)
  show "h \<noteq> []" by (fact len)
  note lower = lower_ascii [OF N host, folded e]
  have same: "u_lower (nm_unicode N) h = h" by (rule lower_fixed [OF N lower(1,2)])
  have num': "\<not> numeric_dotted h" using lower(3) num by simp
  show chars: "ldh c \<or> c \<in> set ''-.''" if "c \<in> set h" for c using label_chars [OF labels that] .
  have "CHR '':'' \<notin> set h" using chars [of "CHR '':''"] by (auto simp: ldh_def digit_def)
  then have ip: "ip_address h = None" by (rule ip_address_name [OF num' _ len(2)])
  have "l \<noteq> [] \<and> short_label l" if "l \<in> set (split_char (CHR ''.'') h)" for l
    using labels [OF that] by (simp add: host_label_def short_label_def)
  then have "list_all (\<lambda>l. l \<noteq> [] \<and> short_label l) (butlast (split_char (CHR ''.'') h))"
    "short_label (last (split_char (CHR ''.'') h))"
    by (auto simp: list_all_iff dest: in_set_butlastD)
  then have idna: "idna_encode N h = Some h" using lower(1) by (simp add: idna_encode_def)
  have "canonical_name N h = Inr h"
    using num' hexa idna lower(1) same len dots labels by (auto simp: canonical_name_def list_ex_iff)
  moreover have "\<not> endswith ''..'' h" using dots(2) by (auto simp: endswith_iff)
  ultimately show "canonical_host N h = Inr h" using dots(2) len(2) ip by (simp add: canonical_host_def)
qed

lemma canonical_host_fixed:
  assumes N: "lowers_ascii N" and raw: "ascii raw" "CHR ''%'' \<notin> set raw" and h: "canonical_host N raw = Inr h"
  shows "canonical_host N h = Inr h" "\<And>c. c \<in> set h \<Longrightarrow> host_char c" "h \<noteq> []"
    "CHR '':'' \<in> set h \<Longrightarrow> \<exists>w. h = show_v6 w"
proof -
  define host where "host = (if endswith ''.'' raw then butlast raw else raw)"
  have sub: "set host \<subseteq> set raw" by (auto simp: host_def dest: in_set_butlastD)
  have eq: "(case ip_address host of Some a \<Rightarrow> Inr (show_ip a) | None \<Rightarrow> canonical_name N host) = Inr h"
  proof -
    have "canonical_host N raw = (if endswith ''..'' raw \<or> host = [] then deny
        else case ip_address host of Some a \<Rightarrow> Inr (show_ip a) | None \<Rightarrow> canonical_name N host)"
      by (simp add: canonical_host_def host_def Let_def cong: option.case_cong)
    then show ?thesis using h by (cases "endswith ''..'' raw \<or> host = []") (auto simp: deny_def)
  qed
  consider a where "ip_address host = Some a" "h = show_ip a" | "canonical_name N host = Inr h"
    using eq by (cases "ip_address host") simp_all
  then have "canonical_host N h = Inr h \<and> (\<forall>c \<in> set h. host_char c) \<and> h \<noteq> [] \<and> (CHR '':'' \<in> set h \<longrightarrow> (\<exists>w. h = show_v6 w))"
  proof cases
    case 1
    have "unscoped a" using 1(1) sub raw(2) ip_address_scoped by (auto simp: unscoped_def)
    then show ?thesis using show_ip_shape [of a] canonical_ip [of a N] 1(2) by auto
  next
    case 2
    have "ascii host" using raw(1) sub by (auto simp: ascii_def)
    note C = canonical_name_fixed [OF N this 2]
    have "CHR '':'' \<notin> set h" using C(2) [of "CHR '':''"] by (auto simp: ldh_def digit_def)
    then show ?thesis using C by (auto simp: host_char_def)
  qed
  then show "canonical_host N h = Inr h" "\<And>c. c \<in> set h \<Longrightarrow> host_char c" "h \<noteq> []"
    "CHR '':'' \<in> set h \<Longrightarrow> \<exists>w. h = show_v6 w" by blast+
qed

subsection \<open>Paths\<close>

lemma split_char_replicate: "split_char c (s @ replicate k c) = split_char c s @ replicate k []"
proof (induction k)
  case (Suc k)
  have "s @ replicate (Suc k) c = (s @ replicate k c) @ [c]" by (simp add: replicate_append_same)
  then show ?case using Suc by (simp only: split_char_snoc) (simp add: replicate_append_same)
qed simp

lemma rstrip_slash_append:
  obtains k where "p = rstrip_slash p @ replicate k (CHR ''/'')"
    "rstrip_slash p = [] \<or> last (rstrip_slash p) \<noteq> CHR ''/''"
proof -
  let ?t = "takeWhile (\<lambda>c. c = CHR ''/'') (rev p)" and ?d = "dropWhile (\<lambda>c. c = CHR ''/'') (rev p)"
  have "?t = replicate (length ?t) (CHR ''/'')" by (rule replicate_eqI) (auto dest: set_takeWhileD)
  then have "rev ?t = replicate (length ?t) (CHR ''/'')" by (metis rev_replicate)
  moreover have "p = rev ?d @ rev ?t" by (metis rev_append rev_rev_ident takeWhile_dropWhile_id)
  ultimately have "p = rstrip_slash p @ replicate (length ?t) (CHR ''/'')"
    by (simp add: rstrip_slash_def)
  moreover have "?d = [] \<or> hd ?d \<noteq> CHR ''/''" using hd_dropWhile [of _ "rev p"] by blast
  then have "rstrip_slash p = [] \<or> last (rstrip_slash p) \<noteq> CHR ''/''"
    by (simp add: rstrip_slash_def last_rev)
  ultimately show thesis by (rule that)
qed

lemma rstrip_slash_id: "p \<noteq> [] \<Longrightarrow> last p \<noteq> CHR ''/'' \<Longrightarrow> rstrip_slash p = p"
  by (cases p rule: rev_cases) (simp_all add: rstrip_slash_def)

text \<open>What a normalized path promises: absolute, no dot segment, no empty segment inside, nothing escaped.\<close>

definition clean_path :: "string \<Rightarrow> bool" where
  "clean_path p \<longleftrightarrow> startswith ''/'' p \<and> CHR 0x5C \<notin> set p \<and> CHR ''%'' \<notin> set p
     \<and> ''.'' \<notin> set (split_char (CHR ''/'') p) \<and> ''..'' \<notin> set (split_char (CHR ''/'') p)
     \<and> [] \<notin> set (butlast (tl (split_char (CHR ''/'') p)))"

lemma clean_path_normal: "clean_path p \<Longrightarrow> normalise_path p = Inr (if rstrip_slash p = [] then ''/'' else rstrip_slash p)"
  by (cases p) (auto simp: clean_path_def normalise_path_def Let_def)

lemma normalise_path_clean:
  assumes "normalise_path p = Inr q"
  shows "clean_path q" "normalise_path q = Inr q" "set q \<subseteq> insert (CHR ''/'') (set p)"
proof -
  have root: "clean_path ''/''" "normalise_path ''/'' = Inr ''/''" by code_simp+
  have "clean_path q \<and> normalise_path q = Inr q \<and> set q \<subseteq> insert (CHR ''/'') (set p)"
  proof (cases "p = [] \<or> rstrip_slash p = []")
    case True
    then have "q = ''/''" using assms by (auto simp: normalise_path_def deny_def Let_def split: if_splits)
    then show ?thesis using root by simp
  next
    case False
    then have p: "clean_path p" and q: "q = rstrip_slash p" "q \<noteq> []"
      using assms by (auto simp: normalise_path_def clean_path_def deny_def Let_def split: if_splits)
    obtain k where k: "p = q @ replicate k (CHR ''/'')" and last: "last q \<noteq> CHR ''/''"
      using rstrip_slash_append q by metis
    define sq where "sq = split_char (CHR ''/'') q"
    have segs: "split_char (CHR ''/'') p = sq @ replicate k []" and "sq \<noteq> []"
      using k split_char_replicate by (simp_all add: sq_def)
    then have "set (butlast (tl sq)) \<subseteq> set (butlast (tl (split_char (CHR ''/'') p)))"
      by (cases k) (auto simp: butlast_append dest: in_set_butlastD)
    moreover have "startswith ''/'' q" using p k q(2) by (cases q) (auto simp: clean_path_def)
    ultimately have "clean_path q" using p k segs by (auto simp: clean_path_def sq_def [symmetric])
    then show ?thesis using clean_path_normal [of q] rstrip_slash_id [OF q(2) last] q(2) k by auto
  qed
  then show "clean_path q" "normalise_path q = Inr q" "set q \<subseteq> insert (CHR ''/'') (set p)" by blast+
qed

subsection \<open>URLs\<close>

lemma before_after [simp]:
  "c \<notin> set a \<Longrightarrow> before c (a @ c # b) = a" "c \<notin> set a \<Longrightarrow> after c (a @ c # b) = b"
  "c \<notin> set a \<Longrightarrow> before c a = a" "c \<notin> set a \<Longrightarrow> after c a = []" "c \<notin> set a \<Longrightarrow> after_last c a = a"
proof -
  assume c: "c \<notin> set a"
  then have "\<forall>x \<in> set a. x \<noteq> c" by auto
  then show "before c (a @ c # b) = a" "after c (a @ c # b) = b" "before c a = a" "after c a = []" "after_last c a = a"
    by (simp_all add: before_def after_def after_last_def takeWhile_append dropWhile_append takeWhile_eq_all_conv [THEN iffD2]
        dropWhile_eq_Nil_conv [THEN iffD2])
qed

lemma before_after_subset: "set (before c s) \<subseteq> set s" "set (after c s) \<subseteq> set s" "c \<notin> set (before c s)" "set (after_last c s) \<subseteq> set s"
  unfolding before_def after_def after_last_def
  by (auto dest: set_takeWhileD in_set_dropD set_dropWhileD)

lemma drop_spaces_id: "\<forall>w \<in> set ws. \<not> startswith w s \<Longrightarrow> drop_spaces k ws s = s"
proof -
  assume "\<forall>w \<in> set ws. \<not> startswith w s"
  then have "find (\<lambda>w. startswith w s) ws = None" by (auto simp: find_None_iff)
  then show ?thesis by (cases k) simp_all
qed

definition plain :: "string \<Rightarrow> bool" where
  "plain s \<longleftrightarrow> (\<forall>c \<in> set s. 32 < (of_char c :: int) \<and> (of_char c :: int) < 128)"

lemma plain_append [simp]: "plain (a @ b) \<longleftrightarrow> plain a \<and> plain b"
  by (auto simp: plain_def)

lemma plain_Cons [simp]: "plain (c # s) \<longleftrightarrow> (32 < (of_char c :: int) \<and> (of_char c :: int) < 128) \<and> plain s"
  by (auto simp: plain_def)

lemma plain_Nil [simp]: "plain []"
  by (simp add: plain_def)

lemma strip_plain: "plain s \<Longrightarrow> strip s = s"
proof -
  assume s: "plain s"
  define edge where "edge w \<longleftrightarrow> w \<noteq> [] \<and> (let n = (of_char (hd w) :: int) in n \<le> 32 \<or> 128 \<le> n)" for w :: string
  have "list_all edge py_whitespace" "list_all edge (map rev py_whitespace)"
    unfolding edge_def by code_simp+
  moreover have "\<not> startswith w t" if "edge w" "plain t" for w t
    using that by (cases w; cases t) (auto simp: edge_def Let_def)
  ultimately have "drop_spaces k py_whitespace t = t" "drop_spaces k (map rev py_whitespace) t = t" if "plain t" for k t
    using that by (auto simp: list_all_iff intro!: drop_spaces_id)
  moreover have "plain (rev s)" using s by (simp add: plain_def)
  ultimately show ?thesis using s by (simp add: strip_def Let_def)
qed

lemma clean_url_plain: "plain s \<Longrightarrow> clean_url s = s"
proof -
  assume s: "plain s"
  then have "dropWhile (\<lambda>c. (of_char c :: int) \<le> 32) s = s" by (cases s) auto
  moreover have "filter (\<lambda>c. c \<notin> {CHR 0x09, CHR 0x0D, CHR 0x0A}) s = s"
    using s by (intro filter_True) (auto simp: plain_def)
  ultimately show ?thesis by (simp add: clean_url_def)
qed

text \<open>What the parts of a normalized destination look like.\<close>

definition normal_destination :: "names \<Rightarrow> destination \<Rightarrow> bool" where
  "normal_destination N d \<longleftrightarrow> ds_scheme d \<in> {''http'', ''https''}
     \<and> canonical_host N (ds_host d) = Inr (ds_host d) \<and> (\<forall>c \<in> set (ds_host d). host_char c) \<and> ds_host d \<noteq> []
     \<and> (CHR '':'' \<in> set (ds_host d) \<longrightarrow> (\<exists>w. ds_host d = show_v6 w))
     \<and> 1 \<le> ds_port d \<and> ds_port d \<le> 65535
     \<and> normalise_path (ds_path d) = Inr (ds_path d) \<and> clean_path (ds_path d) \<and> plain (ds_path d)
     \<and> CHR ''?'' \<notin> set (ds_path d) \<and> CHR ''#'' \<notin> set (ds_path d)
     \<and> plain (ds_query d) \<and> CHR 0x5C \<notin> set (ds_query d) \<and> CHR ''%'' \<notin> set (ds_query d) \<and> CHR ''#'' \<notin> set (ds_query d)"

definition port_suffix :: "destination \<Rightarrow> string" where
  "port_suffix d = (if ds_port d \<noteq> default_port (ds_scheme d) then CHR '':'' # show_int (ds_port d) else [])"

lemma authority_parts: "authority d =
    (if CHR '':'' \<in> set (ds_host d) then CHR ''['' # ds_host d @ CHR '']'' # port_suffix d else ds_host d @ port_suffix d)"
  by (simp add: authority_def authority_of_def port_suffix_def)

lemma port_suffix_ok:
  assumes "1 \<le> ds_port d"
  shows "port_suffix d = [] \<and> ds_port d = default_port (ds_scheme d) \<or>
    port_suffix d = CHR '':'' # show_digits (ds_port d) \<and> all_digits (show_digits (ds_port d))"
    "\<And>c. c \<in> set (port_suffix d) \<Longrightarrow> digit c \<or> c = CHR '':''"
    "\<not> endswith '':'' (port_suffix d)"
proof -
  have digits: "all_digits (show_digits (ds_port d))" using assms by (intro all_digits_show) simp
  then show "port_suffix d = [] \<and> ds_port d = default_port (ds_scheme d) \<or>
    port_suffix d = CHR '':'' # show_digits (ds_port d) \<and> all_digits (show_digits (ds_port d))"
    using assms by (simp add: port_suffix_def show_int_digits)
  then show "\<And>c. c \<in> set (port_suffix d) \<Longrightarrow> digit c \<or> c = CHR '':''" "\<not> endswith '':'' (port_suffix d)"
    using digits digit_no_sep [of "CHR '':''"] by (auto simp: all_digits_def list_all_iff endswith_iff Cons_eq_append_conv)
qed

lemma endswith_append: "b \<noteq> [] \<Longrightarrow> endswith [c] (a @ b) \<longleftrightarrow> endswith [c] b"
  by (cases b rule: rev_cases) (auto simp: endswith_iff)

lemma endswith_Cons: "b \<noteq> [] \<Longrightarrow> endswith [c] (x # b) \<longleftrightarrow> endswith [c] b"
  using endswith_append [of b c "[x]"] by simp

lemma authority_ok:
  assumes "normal_destination N d"
  shows "\<And>c. c \<in> set (authority d) \<Longrightarrow> host_char c \<or> c \<in> set ''[]''" "authority d \<noteq> []"
    "hostinfo (authority d) = (ds_host d, if port_suffix d = [] then None else Some (show_digits (ds_port d)))"
    "\<not> endswith '':'' (authority d)"
    "CHR ''['' \<in> set (authority d) \<longleftrightarrow> CHR '':'' \<in> set (ds_host d)"
    "CHR '']'' \<in> set (authority d) \<longleftrightarrow> CHR '':'' \<in> set (ds_host d)"
proof -
  have host: "\<And>c. c \<in> set (ds_host d) \<Longrightarrow> host_char c" "ds_host d \<noteq> []" and port: "1 \<le> ds_port d"
    using assms by (auto simp: normal_destination_def)
  have special: "\<not> host_char c" if "c \<in> set ''[]@%''" for c
    using that by (auto simp: host_char_def ldh_def digit_def)
  have digits: "host_char c" if "c \<in> set (port_suffix d)" for c
    using port_suffix_ok(2) [OF port that] by (auto simp: host_char_def ldh_def)
  show chars: "host_char c \<or> c \<in> set ''[]''" if "c \<in> set (authority d)" for c
    using that host(1) digits by (auto simp: authority_parts split: if_splits)
  show "authority d \<noteq> []" using host(2) by (simp add: authority_parts)
  have no: "CHR ''['' \<notin> set (ds_host d)" "CHR '']'' \<notin> set (ds_host d)"
    "CHR ''['' \<notin> set (port_suffix d)" "CHR '']'' \<notin> set (port_suffix d)"
    using host(1) digits special by auto
  then show "CHR ''['' \<in> set (authority d) \<longleftrightarrow> CHR '':'' \<in> set (ds_host d)"
    "CHR '']'' \<in> set (authority d) \<longleftrightarrow> CHR '':'' \<in> set (ds_host d)"
    by (auto simp: authority_parts)
  have "CHR ''@'' \<notin> set (authority d)" using chars [of "CHR ''@''"] special [of "CHR ''@''"] by auto
  then have last: "after_last (CHR ''@'') (authority d) = authority d" by simp
  have suffix: "port_suffix d = [] \<or> port_suffix d = CHR '':'' # show_digits (ds_port d) \<and> show_digits (ds_port d) \<noteq> []"
    using port_suffix_ok(1) [OF port] by (auto simp: all_digits_def)
  show "hostinfo (authority d) = (ds_host d, if port_suffix d = [] then None else Some (show_digits (ds_port d)))"
  proof (cases "CHR '':'' \<in> set (ds_host d)")
    case True
    then have a: "authority d = CHR ''['' # ds_host d @ CHR '']'' # port_suffix d" by (simp add: authority_parts)
    have "after (CHR ''['') (authority d) = ds_host d @ CHR '']'' # port_suffix d" by (simp add: a after_def)
    moreover have "before (CHR '']'') (ds_host d @ CHR '']'' # port_suffix d) = ds_host d"
      "after (CHR '']'') (ds_host d @ CHR '']'' # port_suffix d) = port_suffix d" using no by simp_all
    moreover have "after (CHR '':'') (port_suffix d) = (if port_suffix d = [] then [] else show_digits (ds_port d))"
      using suffix by (auto simp: after_def)
    ultimately show ?thesis using suffix unfolding hostinfo_def last Let_def by (auto simp: a)
  next
    case False
    then have a: "authority d = ds_host d @ port_suffix d" by (simp add: authority_parts)
    have "CHR ''['' \<notin> set (authority d)" using no by (simp add: a)
    moreover have "before (CHR '':'') (authority d) = ds_host d"
      "after (CHR '':'') (authority d) = (if port_suffix d = [] then [] else show_digits (ds_port d))"
      using suffix False by (auto simp: a)
    ultimately show ?thesis using suffix unfolding hostinfo_def last Let_def by auto
  qed
  show "\<not> endswith '':'' (authority d)"
  proof (cases "port_suffix d = []")
    case True
    then show ?thesis by (auto simp: authority_parts endswith_iff)
  next
    case False
    then show ?thesis using port_suffix_ok(3) [OF port] by (simp add: authority_parts endswith_append endswith_Cons)
  qed
qed

lemma authority_plain:
  assumes "normal_destination N d"
  shows "plain (authority d)" "\<forall>c \<in> set (authority d). c \<notin> set ''/?#@%'' \<and> c \<noteq> CHR 0x5C" "ascii (authority d)"
proof -
  have "(32 < (of_char c :: int) \<and> (of_char c :: int) < 128) \<and> c \<notin> set ''/?#@%'' \<and> c \<noteq> CHR 0x5C"
    if "c \<in> set (authority d)" for c
    using authority_ok(1) [OF assms that] by (auto simp: host_char_def ldh_def digit_def Let_def)
  then show "plain (authority d)" "\<forall>c \<in> set (authority d). c \<notin> set ''/?#@%'' \<and> c \<noteq> CHR 0x5C" "ascii (authority d)"
    by (auto simp: plain_def ascii_def)
qed

lemma netloc_ok_authority:
  assumes "normal_destination N d"
  shows "netloc_ok N' (authority d)"
proof -
  note A = authority_ok [OF assms] and P = authority_plain [OF assms]
  have "bracketed_netloc_ok (authority d)" if br: "CHR ''['' \<in> set (authority d)"
  proof -
    have colon: "CHR '':'' \<in> set (ds_host d)" using br A(5) by simp
    then obtain w where w: "ds_host d = show_v6 w" using assms by (auto simp: normal_destination_def)
    have a: "authority d = CHR ''['' # ds_host d @ CHR '']'' # port_suffix d" using colon by (simp add: authority_parts)
    have "CHR '']'' \<notin> set (ds_host d)"
      using assms by (auto simp: normal_destination_def host_char_def ldh_def digit_def)
    moreover have "after_last (CHR ''@'') (authority d) = authority d" using P(2) by (intro before_after) auto
    moreover have "after (CHR ''['') (authority d) = ds_host d @ CHR '']'' # port_suffix d"
      "before (CHR ''['') (authority d) = []" by (simp_all add: a after_def before_def)
    moreover have "port_suffix d = [] \<or> hd (port_suffix d) = CHR '':''" by (simp add: port_suffix_def)
    moreover have "ip_address (show_v6 w) = Some (V6 w None)" using ip_address_show [of "V6 w None"] by simp
    moreover have "\<not> startswith ''v'' (show_v6 w)"
      using show_v6_chars [of "CHR ''v''" w] by (auto simp: startswith_iff low_hex_def digit_def)
    ultimately show ?thesis using br by (simp add: bracketed_netloc_ok_def w bracketed_host_ok_def)
  qed
  then show ?thesis using A(5,6) P(3) by (simp add: netloc_ok_def)
qed

lemma split_request_url:
  assumes N: "lowers_ascii N" and d: "normal_destination N d"
  shows "urlsplit N (request_url d) = Some \<lparr> su_scheme = ds_scheme d, su_netloc = authority d, su_path = ds_path d,
    su_query = ds_query d, su_fragment = [] \<rparr>" (is "_ = Some ?u")
    and "plain (request_url d)"
    and "set (request_url d) \<subseteq> set ''htps:/'' \<union> set (authority d) \<union> set (ds_path d)
      \<union> (if ds_query d = [] then {} else insert (CHR ''?'') (set (ds_query d)))"
proof -
  define tail where "tail = ds_path d @ (if ds_query d = [] then [] else CHR ''?'' # ds_query d)"
  note P = authority_plain [OF d]
  have scheme: "ds_scheme d = ''http'' \<or> ds_scheme d = ''https''" using d by (auto simp: normal_destination_def)
  obtain p where p: "ds_path d = CHR ''/'' # p"
    using d by (auto simp: normal_destination_def clean_path_def startswith_iff)
  then have url: "request_url d = ds_scheme d @ ''://'' @ authority d @ tail"
    by (simp add: request_url_def urlunsplit_def tail_def)
  have parts: "plain (ds_path d)" "plain (ds_query d)" "CHR ''?'' \<notin> set (ds_path d)" "CHR ''#'' \<notin> set (ds_path d)"
    "CHR ''#'' \<notin> set (ds_query d)" using d by (auto simp: normal_destination_def)
  show pl: "plain (request_url d)" using scheme P(1) parts by (auto simp: url tail_def)
  show "set (request_url d) \<subseteq> set ''htps:/'' \<union> set (authority d) \<union> set (ds_path d)
      \<union> (if ds_query d = [] then {} else insert (CHR ''?'') (set (ds_query d)))"
    using scheme by (auto simp: url tail_def split: if_splits)
  have "before (CHR '':'') (request_url d) = ds_scheme d" "after (CHR '':'') (request_url d) = ''//'' @ authority d @ tail"
    using scheme by (auto simp: url before_def after_def)
  moreover have "u_lower (nm_unicode N) (ds_scheme d) = ds_scheme d"
    using scheme by (intro lower_fixed [OF N]) (auto simp: ascii_def no_caps_def)
  moreover have "ascii_letter (hd (ds_scheme d))" "list_all scheme_char (ds_scheme d)" "ds_scheme d \<noteq> []"
    using scheme by (auto simp: ascii_letter_def scheme_char_def)
  moreover have "CHR '':'' \<in> set (request_url d)" by (simp add: url)
  ultimately have s: "split_scheme N (clean_url (request_url d)) = (ds_scheme d, ''//'' @ authority d @ tail)"
    unfolding clean_url_plain [OF pl] by (simp add: split_scheme_def)
  have stop: "\<forall>c \<in> set (authority d). \<not> netloc_end c" using P(2) by (auto simp: netloc_end_def)
  moreover obtain t where "tail = CHR ''/'' # t" by (simp add: tail_def p)
  moreover have "netloc_end (CHR ''/'')" by (simp add: netloc_end_def)
  ultimately have "takeWhile (\<lambda>c. \<not> netloc_end c) (authority d @ tail) = authority d"
    "dropWhile (\<lambda>c. \<not> netloc_end c) (authority d @ tail) = tail" by simp_all
  then have n: "split_netloc (''//'' @ authority d @ tail) = (authority d, tail)"
    by (simp add: split_netloc_def)
  have "CHR ''#'' \<notin> set tail" using parts by (auto simp: tail_def)
  then have "before (CHR ''#'') tail = tail" "after (CHR ''#'') tail = []" by simp_all
  moreover have "before (CHR ''?'') tail = ds_path d" "after (CHR ''?'') tail = ds_query d"
    using parts(3) by (auto simp: tail_def)
  ultimately show "urlsplit N (request_url d) = Some ?u"
    using netloc_ok_authority [OF d, of N] unfolding urlsplit_def s Let_def prod.case n by simp
qed

lemma host_string:
  assumes "\<forall>c \<in> set h. host_char c"
  shows "ascii h" "no_caps h" "CHR ''%'' \<notin> set h"
proof -
  show "ascii h" unfolding ascii_def using assms host_char_range by blast
  show "no_caps h" unfolding no_caps_def using assms host_char_range by blast
  have "\<not> host_char (CHR ''%'')" by (simp add: host_char_def ldh_def digit_def)
  then show "CHR ''%'' \<notin> set h" using assms by blast
qed

lemma normalise_normal:
  assumes N: "lowers_ascii N" and d: "normal_destination N d" and q: "allow_query \<or> ds_query d = []"
  shows "normalise_url N allow_query (Some (request_url d)) = Inr d"
proof -
  note P = authority_plain [OF d] and A = authority_ok [OF d] and S = split_request_url [OF N d]
  have scheme: "ds_scheme d = ''http'' \<or> ds_scheme d = ''https''" using d by (auto simp: normal_destination_def)
  have raw: "raw_ok allow_query (request_url d)"
  proof -
    have "CHR 0x5C \<notin> set (ds_path d)" "CHR ''%'' \<notin> set (ds_path d)" "CHR ''#'' \<notin> set (ds_path d)" "CHR ''?'' \<notin> set (ds_path d)"
      "CHR 0x5C \<notin> set (ds_query d)" "CHR ''%'' \<notin> set (ds_query d)" "CHR ''#'' \<notin> set (ds_query d)"
      using d by (auto simp: normal_destination_def clean_path_def)
    then have "c \<notin> set (request_url d)" if "c \<in> {CHR 0x5C, CHR ''%'', CHR ''#''}" for c
    proof -
      have "c \<notin> set ''htps:/''" "c \<notin> set (authority d)" "c \<noteq> CHR ''?''" using that P(2) by auto
      moreover have "c \<notin> set (ds_path d)" "c \<notin> set (ds_query d)"
        using that \<open>CHR 0x5C \<notin> set (ds_path d)\<close> \<open>CHR ''%'' \<notin> set (ds_path d)\<close> \<open>CHR ''#'' \<notin> set (ds_path d)\<close>
          \<open>CHR 0x5C \<notin> set (ds_query d)\<close> \<open>CHR ''%'' \<notin> set (ds_query d)\<close> \<open>CHR ''#'' \<notin> set (ds_query d)\<close> by blast+
      ultimately show ?thesis using S(3) by (cases "ds_query d = []") (auto dest!: subsetD)
    qed
    moreover have "CHR ''?'' \<notin> set (request_url d)" if "ds_query d = []"
    proof -
      have "CHR ''?'' \<notin> set ''htps:/''" "CHR ''?'' \<notin> set (authority d)" using P(2) by auto
      then show ?thesis using S(3) that \<open>CHR ''?'' \<notin> set (ds_path d)\<close> by auto
    qed
    moreover have "request_url d \<noteq> []" using scheme by (auto simp: request_url_def urlunsplit_def)
    ultimately show ?thesis
      using S(2) q strip_plain [OF S(2)] by (auto simp: raw_ok_def plain_def list_all_iff)
  qed
  have port: "port_of \<lparr> su_scheme = ds_scheme d, su_netloc = authority d, su_path = ds_path d, su_query = ds_query d, su_fragment = [] \<rparr>
      = Some (if port_suffix d = [] then None else Some (ds_port d))"
    using port_suffix_ok(1) [of d] d A(3) dec_value_show [of "ds_port d"]
    by (auto simp: port_of_def normal_destination_def)
  have host: "hostname N \<lparr> su_scheme = ds_scheme d, su_netloc = authority d, su_path = ds_path d, su_query = ds_query d, su_fragment = [] \<rparr>
      = Some (ds_host d)"
  proof -
    have c: "\<forall>c \<in> set (ds_host d). host_char c" and ne: "ds_host d \<noteq> []" using d by (simp_all add: normal_destination_def)
    note H = host_string [OF c]
    have "dropWhile (\<lambda>c. c \<noteq> CHR ''%'') (ds_host d) = []" using H(3) by (auto simp: dropWhile_eq_Nil_conv)
    then show ?thesis using ne by (simp add: hostname_def Let_def A(3) lower_fixed [OF N H(1,2)] H(3))
  qed
  have "split_ok allow_query \<lparr> su_scheme = ds_scheme d, su_netloc = authority d, su_path = ds_path d, su_query = ds_query d, su_fragment = [] \<rparr>"
    using scheme A(2) P(2) q by (auto simp: split_ok_def)
  moreover have "after_last (CHR ''@'') (authority d) = authority d" using P(2) by (intro before_after) auto
  moreover have "port_suffix d = [] \<longrightarrow> ds_port d = default_port (ds_scheme d)" by (simp add: port_suffix_def)
  moreover have "canonical_host N (ds_host d) = Inr (ds_host d)" "normalise_path (ds_path d) = Inr (ds_path d)"
    "1 \<le> ds_port d" "ds_port d \<le> 65535" using d by (auto simp: normal_destination_def)
  ultimately show ?thesis
    using raw S(1) host port A(4) q by (auto simp: normalise_url_def normalise_split_def)
qed

text \<open>What a successful normalization went through.\<close>

lemma normalise_url_Inr:
  assumes "normalise_url N allow_query v = Inr d"
  obtains s u raw where "v = Some s" "raw_ok allow_query s" "urlsplit N s = Some u" "split_ok allow_query u"
    "hostname N u = Some raw" "canonical_host N raw = Inr (ds_host d)" "ds_scheme d = su_scheme u"
    "1 \<le> ds_port d" "ds_port d \<le> 65535" "normalise_path (su_path u) = Inr (ds_path d)"
    "ds_query d = (if allow_query then su_query u else [])"
proof -
  obtain s where s: "v = Some s" "raw_ok allow_query s"
    using assms by (auto simp: normalise_url_def deny_def split: option.splits if_splits)
  obtain u where u: "urlsplit N s = Some u" "normalise_split N allow_query u = Inr d"
    using assms s by (cases "urlsplit N s") (auto simp: normalise_url_def deny_def)
  have ok: "split_ok allow_query u" using u(2) by (auto simp: normalise_split_def deny_def split: if_splits)
  obtain raw where raw: "hostname N u = Some raw"
    using u(2) ok by (cases "hostname N u") (auto simp: normalise_split_def deny_def split: option.splits)
  obtain port where port: "port_of u = Some port"
    using u(2) ok raw by (cases "port_of u") (auto simp: normalise_split_def deny_def)
  have "canonical_host N raw = Inr (ds_host d) \<and> ds_scheme d = su_scheme u \<and> 1 \<le> ds_port d \<and> ds_port d \<le> 65535
      \<and> normalise_path (su_path u) = Inr (ds_path d) \<and> ds_query d = (if allow_query then su_query u else [])"
    using u(2) ok raw port
    by (auto simp: normalise_split_def deny_def bindR_Inr Let_def split: if_splits)
  with s u(1) ok raw show thesis using that by blast
qed

lemma urlsplit_subset:
  assumes "urlsplit N s = Some u"
  shows "set (su_netloc u) \<subseteq> set s" "set (su_path u) \<subseteq> set s" "set (su_query u) \<subseteq> set s"
    "CHR ''?'' \<notin> set (su_path u)"
proof -
  obtain scheme url where sp: "split_scheme N (clean_url s) = (scheme, url)" by fastforce
  obtain netloc rest where n: "split_netloc url = (netloc, rest)" by fastforce
  define b where "b = before (CHR ''#'') rest"
  have clean: "set (clean_url s) \<subseteq> set s" by (auto simp: clean_url_def dest: set_dropWhileD)
  have "set url \<subseteq> set (clean_url s)"
    using sp before_after_subset(2) [of "CHR '':''" "clean_url s"] by (auto simp: split_scheme_def Let_def split: if_splits)
  with clean have url: "set url \<subseteq> set s" by (rule subset_trans [rotated])
  have "set netloc \<subseteq> set url \<and> set rest \<subseteq> set url"
    using n by (auto simp: split_netloc_def split: if_splits dest!: set_takeWhileD set_dropWhileD dest: in_set_dropD)
  with url have net: "set netloc \<subseteq> set s" and rest: "set rest \<subseteq> set s" by (meson subset_trans)+
  have "set b \<subseteq> set rest" unfolding b_def by (rule before_after_subset)
  with rest have b: "set b \<subseteq> set s" by (rule subset_trans [rotated])
  have u: "su_netloc u = netloc" "su_path u = before (CHR ''?'') b" "su_query u = after (CHR ''?'') b"
    using assms by (auto simp: urlsplit_def sp n b_def split: if_splits)
  show "set (su_netloc u) \<subseteq> set s" unfolding u by (rule net)
  show "set (su_path u) \<subseteq> set s" unfolding u using before_after_subset(1) b by (rule subset_trans)
  show "set (su_query u) \<subseteq> set s" unfolding u using before_after_subset(2) b by (rule subset_trans)
  show "CHR ''?'' \<notin> set (su_path u)" unfolding u by (rule before_after_subset)
qed

lemma hostname_chars:
  assumes N: "lowers_ascii N" and u: "ascii (su_netloc u)" "CHR ''%'' \<notin> set (su_netloc u)" and h: "hostname N u = Some raw"
  shows "ascii raw" "CHR ''%'' \<notin> set raw"
proof -
  define h0 where "h0 = fst (hostinfo (su_netloc u))"
  have sub: "set h0 \<subseteq> set (su_netloc u)"
  proof -
    define hp where "hp = after_last (CHR ''@'') (su_netloc u)"
    have "h0 = before (CHR '']'') (after (CHR ''['') hp) \<or> h0 = before (CHR '':'') hp"
      by (simp add: h0_def hostinfo_def hp_def Let_def)
    moreover have "set (before (CHR '']'') (after (CHR ''['') hp)) \<subseteq> set hp"
      using before_after_subset(1,2) by (rule subset_trans)
    moreover have "set hp \<subseteq> set (su_netloc u)" unfolding hp_def by (rule before_after_subset)
    ultimately show ?thesis using before_after_subset(1) [of "CHR '':''" hp] by auto
  qed
  then have no: "CHR ''%'' \<notin> set h0" and asc: "ascii h0" using u by (auto simp: ascii_def)
  then have raw: "raw = u_lower (nm_unicode N) h0"
    using h by (auto simp: hostname_def Let_def h0_def [symmetric] dropWhile_eq_Nil_conv split: if_splits)
  show "ascii raw" unfolding raw by (rule lower_ascii(1) [OF N asc])
  have "(if 65 \<le> (of_char c :: int) \<and> (of_char c :: int) \<le> 90 then char_of ((of_char c :: int) + 32) else c) \<noteq> CHR ''%''"
    if "c \<in> set h0" for c
  proof (cases "65 \<le> (of_char c :: int) \<and> (of_char c :: int) \<le> 90")
    case True
    then have "(of_char (char_of (of_char c + 32 :: int) :: char) :: int) = of_char c + 32" by (simp add: of_char_of)
    then have "char_of ((of_char c :: int) + 32) \<noteq> CHR ''%''" using True by fastforce
    then show ?thesis using True by simp
  next
    case False
    then show ?thesis using that no by auto
  qed
  then show "CHR ''%'' \<notin> set raw"
    using N asc by (force simp: raw lowers_ascii_def ascii_unicode_def Let_def)
qed

lemma normalised_is_normal:
  assumes N: "lowers_ascii N" and s: "ascii s" and d: "normalise_url N allow_query (Some s) = Inr d"
  shows "normal_destination N d"
proof -
  obtain s' u raw where "Some s = Some s'" and raw_ok: "raw_ok allow_query s'" and u: "urlsplit N s' = Some u" "split_ok allow_query u"
    and raw: "hostname N u = Some raw" "canonical_host N raw = Inr (ds_host d)" and scheme: "ds_scheme d = su_scheme u"
    and port: "1 \<le> ds_port d" "ds_port d \<le> 65535" and path: "normalise_path (su_path u) = Inr (ds_path d)"
    and query: "ds_query d = (if allow_query then su_query u else [])"
    using normalise_url_Inr [OF d] by metis
  then have [simp]: "s' = s" by simp
  note sub = urlsplit_subset [OF u(1)]
  have range: "32 < (of_char c :: int) \<and> (of_char c :: int) < 128 \<and> c \<noteq> CHR 0x5C \<and> c \<noteq> CHR ''%'' \<and> c \<noteq> CHR ''#''"
    if "c \<in> set s" for c using raw_ok s that by (auto simp: raw_ok_def ascii_def list_all_iff)
  have "ascii (su_netloc u)" "CHR ''%'' \<notin> set (su_netloc u)" using sub(1) range s by (auto simp: ascii_def)
  note H = canonical_host_fixed [OF N hostname_chars [OF N this raw(1)] raw(2)]
  note P = normalise_path_clean [OF path]
  have "CHR ''?'' \<notin> set (ds_path d)" "CHR ''#'' \<notin> set (ds_path d)" "plain (ds_path d)"
  proof -
    have c: "c = CHR ''/'' \<or> c \<in> set s" if "c \<in> set (ds_path d)" for c using that P(3) sub(2) by auto
    then show "plain (ds_path d)" "CHR ''#'' \<notin> set (ds_path d)" using range by (fastforce simp: plain_def)+
    show "CHR ''?'' \<notin> set (ds_path d)" using P(3) sub(4) by auto
  qed
  moreover have "plain (ds_query d)" "CHR 0x5C \<notin> set (ds_query d)" "CHR ''%'' \<notin> set (ds_query d)" "CHR ''#'' \<notin> set (ds_query d)"
    using query sub(3) range by (auto simp: plain_def)
  moreover have "ds_scheme d \<in> {''http'', ''https''}" using u(2) scheme by (simp add: split_ok_def)
  ultimately show ?thesis using H P(1,2) port by (simp add: normal_destination_def)
qed

section \<open>What the policy guarantees\<close>

lemma validated_ok:
  assumes "validated_addresses p d configurable = Inr as"
  defines "internal \<equiv> configurable \<and> pl_self_hosted p"
  shows "\<exists>xs. answers p d configurable = Inr xs \<and> xs \<noteq> [] \<and> ip_address (hd xs) = Some (hd as)
    \<and> (\<forall>x \<in> set xs. \<exists>a. ip_address x = Some a \<and> safe_target internal a
         \<and> (internal \<longrightarrow> (\<exists>n \<in> set (pl_cidrs p). in_network a n)))"
proof -
  obtain xs rs where xs: "answers p d configurable = Inr xs" "xs \<noteq> []" "mapR read_answer xs = Inr rs"
    and as: "as = dedup_by id [] rs" and ok: "check_classes p configurable as = Inr ()"
    using assms by (auto simp: validated_addresses_def bindR_Inr deny_def Let_def split: if_splits)
  have read: "list_all2 (\<lambda>x a. ip_address x = Some a) xs rs"
    using xs(3) by (auto simp: mapR_Inr read_answer_def deny_def elim!: list_all2_mono split: option.splits)
  have set_as: "set as = set rs" using dedup_by_keys [of id "[]" rs] by (simp add: as)
  have "ip_address (hd xs) = Some (hd as)"
    using read xs(2) by (cases xs; cases rs) (auto simp: as)
  moreover have "\<exists>a. ip_address x = Some a \<and> safe_target internal a \<and> (internal \<longrightarrow> (\<exists>n \<in> set (pl_cidrs p). in_network a n))"
    if x: "x \<in> set xs" for x
  proof -
    obtain a where a: "ip_address x = Some a" "a \<in> set as"
      using read x by (fastforce simp: set_as list_all2_conv_all_nth in_set_conv_nth)
    then have "permitted_class internal a" "internal \<longrightarrow> (\<exists>n \<in> set (pl_cidrs p). in_network a n)"
      using ok by (auto simp: check_classes_def deny_def deny_hint_def internal_def list_ex_iff split: if_splits)
    then show ?thesis using a(1) permitted_safe by blast
  qed
  ultimately show ?thesis using xs(1,2) by blast
qed

lemma prepare_request_Inr:
  assumes "prepare_request N p c url = Inr pd"
  obtains as where "normalize_request_url N (Some url) = Inr (pn_destination pd)"
    "request_addresses N p c (pn_destination pd) = Inr as" "pn_address pd = hd as"
  using assms by (auto simp: prepare_request_def bindR_Inr)

lemma request_addresses_Inr:
  assumes "request_addresses N p c d = Inr as"
  shows "validated_addresses p d (map_of fixed_destinations (pc_provider c) = None) = Inr as"
  using assms by (auto simp: request_addresses_def bindR_Inr split: option.splits)


definition plain_names :: names where
  "plain_names = \<lparr> nm_unicode = ascii_unicode, nm_nfkc = (\<lambda>s. s), nm_idna = (\<lambda>s. None) \<rparr>"

definition example_settings :: egress_settings where
  "example_settings = \<lparr> es_mode = ''Self_Hosted'', es_base_urls = [''http://Provider.example:11434/approved/''],
     es_cidrs = [''203.0.113.0/24'', ''fd00::/8''] \<rparr>"

definition example_resolver :: resolver where
  "example_resolver h p = (if h = ''provider.example'' then Some [''203.0.113.9'', ''fd00::7''] else None)"

definition example_policy :: policy where
  "example_policy = \<lparr> pl_self_hosted = True, pl_base_urls = [''http://provider.example:11434/approved''],
     pl_cidrs = [Net4 0xCB007100 24, Net6 0xFD000000000000000000000000000000 8], pl_resolver = example_resolver \<rparr>"

lemma example_policy_read: "from_settings plain_names example_settings example_resolver = Inr example_policy"
proof -
  have "u_lower (nm_unicode plain_names) (es_mode example_settings) = ''self_hosted''"
    "mapR (\<lambda>v. bindR (normalize_base_url plain_names (Some v)) (\<lambda>d. Inr (base_url d))) (es_base_urls example_settings)
       = Inr [''http://provider.example:11434/approved'']"
    "those (map ip_network (es_cidrs example_settings)) = Some [Net4 0xCB007100 24, Net6 0xFD000000000000000000000000000000 8]"
    by code_simp+
  then show ?thesis by (simp add: from_settings_def example_policy_def)
qed

definition example_config :: provider_config where
  "example_config = \<lparr> pc_provider = ''ollama'', pc_base_url = Some ''http://provider.example:11434/approved'' \<rparr>"

definition example_pinned :: pinned where
  "example_pinned = \<lparr> pn_destination = \<lparr> ds_scheme = ''http'', ds_host = ''provider.example'', ds_port = 11434,
     ds_path = ''/approved/api/chat'', ds_query = ''a=b'' \<rparr>, pn_address = V4 0xCB007109 \<rparr>"

lemma example_prepared:
  "prepare_request plain_names example_policy example_config ''http://provider.example:11434/approved/api/chat?a=b'' = Inr example_pinned"
  by code_simp


text \<open>
  C20: Which destination a request can have. A fixed provider is reached at its own origin over HTTPS on port 443, below its own base path, and
  accepts no configured URL. Otherwise the provider is the configurable one, the configured URL normalizes to an allowed base, and
  the request has the scheme, the host and the port of that base and a path at or below its path. No path has a dot segment, an empty inner
  segment or an escape, so being below a path cannot be undone by the server that resolves it.
\<close>

theorem destination_owned:
  assumes "prepare_request N p c url = Inr pd"
  shows "let d = pn_destination pd in clean_path (ds_path d) \<and>
    (case map_of fixed_destinations (pc_provider c) of
       Some fx \<Rightarrow> pc_base_url c = None \<and> ds_scheme d = ''https'' \<and> ds_host d = fx_host fx \<and> ds_port d = 443
         \<and> under_path (ds_path d) (fx_base_path fx)
     | None \<Rightarrow> pc_provider c = ''ollama'' \<and> (\<exists>base. normalize_base_url N (pc_base_url c) = Inr base
         \<and> base_url base \<in> set (pl_base_urls p) \<and> clean_path (ds_path base)
         \<and> ds_scheme d = ds_scheme base \<and> ds_host d = ds_host base \<and> ds_port d = ds_port base
         \<and> (ds_path base = ''/'' \<or> under_path (ds_path d) (ds_path base))))"
proof -
  obtain as where d: "normalize_request_url N (Some url) = Inr (pn_destination pd)"
    and as: "request_addresses N p c (pn_destination pd) = Inr as"
    using prepare_request_Inr [OF assms] .
  have clean: "clean_path (ds_path e)" if "normalise_url N q v = Inr e" for q v e
    using normalise_url_Inr [OF that] normalise_path_clean(1) by metis
  have fixed: "fx_scheme fx = ''https''" if "map_of fixed_destinations (pc_provider c) = Some fx" for fx
    using that by (auto simp: fixed_destinations_def split: if_splits)
  show ?thesis
  proof (cases "map_of fixed_destinations (pc_provider c)")
    case None
    then show ?thesis
      using as clean [OF d [unfolded normalize_request_url_def]] clean
      by (auto simp: request_addresses_def bindR_Inr configurable_base_def require_under_base_def normalize_base_url_def
          deny_def deny_hint_def Let_def split: if_splits)
  next
    case (Some fx)
    then show ?thesis
      using as clean [OF d [unfolded normalize_request_url_def]] fixed [OF Some]
      by (auto simp: request_addresses_def bindR_Inr validate_fixed_request_def deny_def Let_def default_port_def split: if_splits)
  qed
qed

theorem destination_owned_witness:
  "\<exists>base. normalize_base_url plain_names (pc_base_url example_config) = Inr base \<and> base_url base \<in> set (pl_base_urls example_policy)
     \<and> ds_host base = ''provider.example'' \<and> (ds_path base = ''/'' \<or> under_path ''/approved/api/chat'' (ds_path base))"
proof -
  have "map_of fixed_destinations (pc_provider example_config) = None"
    by (simp add: fixed_destinations_def example_config_def)
  then show ?thesis
    using destination_owned [OF example_prepared] by (auto simp: example_pinned_def)
qed


lemma plain_names_lower: "lowers_ascii plain_names"
  by (simp add: lowers_ascii_def plain_names_def)


text \<open>
  C21: The connection goes where the check looked. The URL that is handed to the transport is the request URL with the host replaced by the
  address that was validated: read again, it has the same scheme, port, path and query, and its host is a literal for exactly that
  address, so no second name resolution can lead elsewhere.
\<close>

theorem pinned_connection:
  assumes "lowers_ascii N" and "ascii url" and "prepare_request N p c url = Inr pd"
  shows "normalize_request_url N (Some (connection_url pd))
      = Inr (pn_destination pd \<lparr> ds_host := show_ip (pn_address pd) \<rparr>)
    \<and> ip_address (show_ip (pn_address pd)) = Some (pn_address pd)"
proof -
  let ?d = "pn_destination pd" and ?a = "pn_address pd"
  obtain as where d: "normalize_request_url N (Some url) = Inr ?d" and as: "request_addresses N p c ?d = Inr as" "?a = hd as"
    using prepare_request_Inr [OF assms(3)] .
  have "normal_destination N ?d"
    using normalised_is_normal [OF assms(1,2)] d by (simp add: normalize_request_url_def)
  moreover obtain internal where "safe_target internal ?a"
    using validated_ok [OF request_addresses_Inr [OF as(1)]] as(2) by (metis hd_in_set option.inject)
  then have a: "unscoped ?a" by (cases ?a) (auto simp: unscoped_def)
  note S = show_ip_shape [OF a]
  ultimately have n: "normal_destination N (?d \<lparr> ds_host := show_ip ?a \<rparr>)"
    using canonical_ip [OF a] S by (auto simp: normal_destination_def)
  have "connection_url pd = request_url (?d \<lparr> ds_host := show_ip ?a \<rparr>)"
  proof -
    have "(case ?a of V6 w z \<Rightarrow> ''['' @ show_ip ?a @ '']'' | V4 w \<Rightarrow> show_ip ?a)
        = (if CHR '':'' \<in> set (show_ip ?a) then ''['' @ show_ip ?a @ '']'' else show_ip ?a)"
    proof (cases ?a)
      case (V6 w z)
      then have "z = None" using a by (cases z) (auto simp: unscoped_def)
      then show ?thesis using V6 S(4) by simp
    qed (use S(4) in simp)
    then show ?thesis
      unfolding connection_url_def pinned_request_url_def request_url_def pinned_authority_def authority_def authority_of_def
      by simp
  qed
  moreover have "ip_address (show_ip ?a) = Some ?a"
    using a by (intro ip_address_show) (simp add: unscoped_def)
  ultimately show ?thesis using normalise_normal [OF assms(1) n] by (simp add: normalize_request_url_def)
qed

theorem pinned_connection_witness:
  "normalize_request_url plain_names (Some ''http://203.0.113.9:11434/approved/api/chat?a=b'')
     = Inr (pn_destination example_pinned \<lparr> ds_host := ''203.0.113.9'' \<rparr>)"
proof -
  have "ascii ''http://provider.example:11434/approved/api/chat?a=b''" by (simp add: ascii_def)
  note P = pinned_connection [OF plain_names_lower this example_prepared]
  have "connection_url example_pinned = ''http://203.0.113.9:11434/approved/api/chat?a=b''"
    "show_ip (pn_address example_pinned) = ''203.0.113.9''" by code_simp+
  then show ?thesis using P by simp
qed

lemma normalise_url_query:
  assumes "normalise_url N False v = Inr d"
  shows "normalise_url N True v = Inr d"
proof -
  obtain s u where s: "v = Some s" "raw_ok False s" "urlsplit N s = Some u" and u: "split_ok False u"
    using normalise_url_Inr [OF assms] by metis
  have ok: "raw_ok True s" "split_ok True u" "su_query u = []"
    using s u by (auto simp: raw_ok_def split_ok_def)
  have "normalise_split N True u = normalise_split N False u"
    unfolding normalise_split_def ok(3) if_cancel using u ok(2) by simp
  then show ?thesis using assms s ok(1) by (simp add: normalise_url_def)
qed

text \<open>
  What was saved can be used. A configuration that validation accepted can be used for a request to its own base URL as long as the
  resolver and the policy answer as they did: the request is prepared, and its destination is the normalized base.
\<close>

theorem saved_config_usable:
  assumes "validate_config N p c = Inr ()" and "pc_base_url c = Some url"
  shows "\<exists>pd. prepare_request N p c url = Inr pd \<and> normalize_base_url N (Some url) = Inr (pn_destination pd)"
proof -
  have none: "map_of fixed_destinations (pc_provider c) = None"
    using assms by (auto simp: validate_config_def deny_def split: option.splits)
  then obtain base as where base: "configurable_base N p c = Inr base" and as: "validated_addresses p base True = Inr as"
    using assms(1) by (auto simp: validate_config_def bindR_Inr)
  then have n: "normalize_base_url N (Some url) = Inr base"
    using assms(2) by (auto simp: configurable_base_def bindR_Inr deny_def deny_hint_def split: if_splits)
  then have d: "normalize_request_url N (Some url) = Inr base"
    using normalise_url_query by (simp add: normalize_base_url_def normalize_request_url_def)
  have "request_addresses N p c base = Inr as"
    using none base as by (simp add: request_addresses_def require_under_base_def under_path_def)
  then show ?thesis using d n by (simp add: prepare_request_def)
qed

theorem saved_config_usable_witness:
  "\<exists>pd. prepare_request plain_names example_policy example_config ''http://provider.example:11434/approved'' = Inr pd
     \<and> normalize_base_url plain_names (Some ''http://provider.example:11434/approved'') = Inr (pn_destination pd)"
proof (rule saved_config_usable)
  show "validate_config plain_names example_policy example_config = Inr ()" by code_simp
qed (simp add: example_config_def)

section \<open>Two gaps\<close>

text \<open>Deprecated site-local addresses are neither private nor reserved to the library, so a hosted deployment connects to them.\<close>

lemma hosted_admits_site_local: "permitted_class False (V6 0xFEC00000000000000000000000000001 None)"
  by code_simp

text \<open>
  The test for numeric names precedes the IDNA encoding, which maps full-width digits to ASCII ones: a name in full-width digits is accepted as
  the shortened IPv4 form that is rejected when it is written in ASCII, and the URL printed for it does not normalize.
\<close>

definition fullwidth_names :: names where
  "fullwidth_names = plain_names \<lparr> nm_idna := (\<lambda>s. if s = [CHR 0xEF, CHR 0xBC, CHR 0x91] @ ''27.1'' then Some ''127.1'' else None) \<rparr>"

lemma fullwidth_digits_accepted:
  "canonical_host fullwidth_names ([CHR 0xEF, CHR 0xBC, CHR 0x91] @ ''27.1'') = Inr ''127.1''"
  "canonical_host fullwidth_names ''127.1'' = deny"
  by code_simp+

end
