(* ===== verification/Repo_Import.thy ===== *)
theory Repo_Import
  imports Repo_Lineage Egress_Policy
begin

text \<open>
  Importing repositories (\<^verbatim>\<open>app/services/repository_service.py\<close>, \<^verbatim>\<open>app/github/client.py\<close>): the URLs and branch names that
  reach git, the revision that is imported, re-analysis, deletion and history, on the lineages of \<open>Repo_Lineage\<close> and the directories of the storage.

  What git, the archive and the parser answer is an argument; the code between their answers is modelled.
\<close>

section \<open>Model\<close>

datatype import_error =
    ImportInvalid string
  | ImportConflict string
  | ImportNotFound string
  | ImportFailed
  | ImportUnavailable
  | ImportLineage lineage_error

type_synonym 'a import_result = "import_error + 'a"

subsection \<open>GitHub URLs and branches\<close>

definition ONLY_GITHUB :: string where
  "ONLY_GITHUB = ''Only public GitHub repository HTTPS URLs are supported.''"
definition URL_HELP :: string where
  "URL_HELP = ''Use a public GitHub repository URL such as https://github.com/owner/repo, optionally followed by /tree/<branch>.''"
definition BRANCH_UNSUPPORTED :: string where
  "BRANCH_UNSUPPORTED = ''Branch name contains unsupported characters.''"

definition github_prefix :: string where
  "github_prefix = ''https://github.com/''"

definition github_char :: "char \<Rightarrow> bool" where
  "github_char c \<longleftrightarrow> ascii_letter c \<or> digit c \<or> c \<in> set ''_.-''"

definition github_word :: "string \<Rightarrow> bool" where
  "github_word s \<longleftrightarrow> s \<noteq> [] \<and> list_all github_char s"

text \<open>\<^verbatim>\<open>$\<close> also matches before a newline that ends the string.\<close>

definition before_newline :: "string \<Rightarrow> string" where
  "before_newline s = (if s \<noteq> [] \<and> last s = CHR 0x0A then butlast s else s)"

definition GITHUB_RE :: "string \<Rightarrow> bool" where
  "GITHUB_RE s = (let t = before_newline s in startswith github_prefix t
     \<and> (case split_char (CHR ''/'') (drop (length github_prefix) t) of
          [owner, repo] \<Rightarrow> github_word owner \<and> github_word repo
        | [owner, repo, tail] \<Rightarrow> github_word owner \<and> github_word repo \<and> tail \<in> {[], ''.git''}
        | _ \<Rightarrow> False))"

definition BRANCH_RE :: "string \<Rightarrow> bool" where
  "BRANCH_RE s = (let t = before_newline s in t \<noteq> [] \<and> list_all (\<lambda>c. github_char c \<or> c = CHR ''/'') t)"

definition removesuffix_git :: "string \<Rightarrow> string" where
  "removesuffix_git s = (if endswith ''.git'' s then take (length s - 4) s else s)"

definition validate_public_url :: "string \<Rightarrow> string import_result" where
  "validate_public_url url = (let normalized = removesuffix_git (rstrip_slash url) in
     if \<not> GITHUB_RE normalized then Inl (ImportInvalid ONLY_GITHUB) else Inr normalized)"

definition split_import_url :: "names \<Rightarrow> string \<Rightarrow> (string \<times> string option) import_result" where
  "split_import_url N url = (case urlsplit N (strip url) of
       None \<Rightarrow> Inl ImportFailed
     | Some parsed \<Rightarrow>
         let host = u_lower (nm_unicode N) (case hostname N parsed of None \<Rightarrow> [] | Some h \<Rightarrow> h);
             segments = filter (\<lambda>s. s \<noteq> []) (split_char (CHR ''/'') (su_path parsed)) in
         if su_scheme parsed \<noteq> ''https'' \<or> host \<notin> {''github.com'', ''www.github.com''} then Inl (ImportInvalid (ONLY_GITHUB @ '' '' @ URL_HELP))
         else (case segments of
           owner # repo # rest \<Rightarrow>
             if rest \<noteq> [] \<and> (hd rest \<noteq> ''tree'' \<or> length rest < 2)
             then Inl (ImportInvalid (''That GitHub URL points at a page, not a repository. '' @ URL_HELP))
             else bindR (validate_public_url (github_prefix @ owner @ ''/'' @ repo)) (\<lambda>u.
               Inr (u, if rest = [] then None else Some (join ''/'' (tl rest))))
         | _ \<Rightarrow> Inl (ImportInvalid (''That URL does not name a repository. '' @ URL_HELP))))"

definition validate_branch :: "string option \<Rightarrow> string option import_result" where
  "validate_branch branch = (case branch of
       None \<Rightarrow> Inr None
     | Some b \<Rightarrow> if b = [] then Inr None
         else if \<not> BRANCH_RE b \<or> occurs_in ''..'' b \<or> hd b \<in> set ''/-'' \<or> last b \<in> set ''/.'' then Inl (ImportInvalid BRANCH_UNSUPPORTED)
         else Inr (Some b))"

definition repository_name :: "string \<Rightarrow> string" where
  "repository_name url = removesuffix_git (last (split_char (CHR ''/'') (rstrip_slash url)))"

definition canonical_github_source :: "unicode \<Rightarrow> string \<Rightarrow> string import_result" where
  "canonical_github_source U url = (case split_once ''/'' (removeprefix github_prefix url) of
       None \<Rightarrow> Inl ImportFailed
     | Some (owner, repo) \<Rightarrow> Inr (''github.com/'' @ u_lower U owner @ ''/'' @ u_lower U repo))"

text \<open>The arguments git is run with.\<close>

definition clone_command :: "string \<Rightarrow> string \<Rightarrow> string option \<Rightarrow> string list" where
  "clone_command url destination branch = [''git'', ''clone'', ''--depth=1'', ''--single-branch'']
     @ (case branch of None \<Rightarrow> [] | Some b \<Rightarrow> if b = [] then [] else [''--branch'', b]) @ [url, destination]"

definition ls_remote_command :: "string \<Rightarrow> string option \<Rightarrow> string list" where
  "ls_remote_command url branch = [''git'', ''ls-remote'', ''--exit-code'', ''--'', url,
     (case branch of None \<Rightarrow> ''HEAD'' | Some b \<Rightarrow> if b = [] then ''HEAD'' else ''refs/heads/'' @ b)]"
subsection \<open>What git answers\<close>

text \<open>
  Of a cloned repository: the commit of \<^verbatim>\<open>HEAD\<close>, its symbolic ref, and the commit of a ref, as printed (\<^term>\<open>None\<close>: git failed).
\<close>

record git_clone =
  gc_head :: "string option"
  gc_symbolic :: "string option"
  gc_verify :: "string \<Rightarrow> string option"

definition read_head_commit :: "git_clone \<Rightarrow> string option" where
  "read_head_commit g = (case gc_head g of None \<Rightarrow> None | Some out \<Rightarrow> if strip out = [] then None else Some (strip out))"

text \<open>A ref that a detached \<^verbatim>\<open>HEAD\<close> may stand for, and the name it is recorded under.\<close>

definition ref_candidates :: "string \<Rightarrow> (string \<times> string) list" where
  "ref_candidates ref = [(''refs/heads/'' @ ref, ''refs/heads/'' @ ref), (''refs/tags/'' @ ref, ''refs/tags/'' @ ref),
     (''refs/remotes/origin/'' @ ref, ''refs/heads/'' @ ref)]"

definition confirms_head :: "git_clone \<Rightarrow> string \<Rightarrow> bool" where
  "confirms_head g candidate = (case (gc_verify g (candidate @ ''^{commit}''), gc_head g) of
     (Some resolved, Some head) \<Rightarrow> strip resolved \<noteq> [] \<and> strip resolved = strip head | _ \<Rightarrow> False)"

definition read_head_ref :: "git_clone \<Rightarrow> string option \<Rightarrow> string option" where
  "read_head_ref g requested_ref = (case gc_symbolic g of
       Some out \<Rightarrow> if startswith ''refs/'' (strip out) then Some (strip out) else None
     | None \<Rightarrow> (case requested_ref of
         None \<Rightarrow> None
       | Some r \<Rightarrow> if r = [] then None else map_option snd (find (\<lambda>c. confirms_head g (fst c)) (ref_candidates r))))"

text \<open>\<^verbatim>\<open>str.splitlines\<close>: the first line.\<close>

definition line_breaks :: "string list" where
  "line_breaks = map (\<lambda>n. [char_of (n :: nat)]) [10, 11, 12, 13, 28, 29, 30]
     @ [[CHR 0xC2, CHR 0x85], [CHR 0xE2, CHR 0x80, CHR 0xA8], [CHR 0xE2, CHR 0x80, CHR 0xA9]]"

fun first_line :: "string \<Rightarrow> string" where
  "first_line [] = []"
| "first_line (c # s) = (if list_ex (\<lambda>b. startswith b (c # s)) line_breaks then [] else c # first_line s)"

definition is_git_sha :: "string \<Rightarrow> bool" where
  "is_git_sha s \<longleftrightarrow> length s = 40 \<and> hex_only s"

text \<open>The commit in the output of \<^verbatim>\<open>git ls-remote\<close>.\<close>

definition remote_head_commit :: "string \<Rightarrow> string option" where
  "remote_head_commit stdout = (let sha = strip (before (CHR 0x09) (first_line (strip stdout))) in if is_git_sha sha then Some sha else None)"

definition git_revision :: "git_clone \<Rightarrow> string option \<Rightarrow> string option \<Rightarrow> (string \<times> string) import_result" where
  "git_revision g commit_sha requested_ref = (case commit_sha of
       None \<Rightarrow> Inl ImportFailed
     | Some sha \<Rightarrow> if \<not> is_git_sha sha then Inl ImportFailed
         else (case read_head_ref g requested_ref of
             None \<Rightarrow> Inl ImportFailed
           | Some ref \<Rightarrow> if startswith ''refs/'' ref then Inr (sha, ref) else Inl ImportFailed))"

subsection \<open>Directories\<close>

text \<open>The paths of the directories that exist under the storage root, and removing a tree.\<close>

definition delete_tree :: "string \<Rightarrow> string list \<Rightarrow> string list" where
  "delete_tree p dirs = filter (\<lambda>q. q \<noteq> p \<and> \<not> startswith (p @ ''/'') q) dirs"

definition repository_path :: "string \<Rightarrow> string \<Rightarrow> string" where
  "repository_path repositories_root rid = repositories_root @ ''/'' @ rid"

definition reset_repository_path :: "string \<Rightarrow> string \<Rightarrow> string list \<Rightarrow> string list" where
  "reset_repository_path repositories_root rid dirs = delete_tree (repository_path repositories_root rid) dirs @ [repository_path repositories_root rid]"

text \<open>The only child of an extracted archive, if it is a directory, is the repository.\<close>

definition normalise_single_root :: "string \<Rightarrow> (string \<times> bool) list \<Rightarrow> string" where
  "normalise_single_root destination children = (case children of [(n, True)] \<Rightarrow> destination @ ''/'' @ n | _ \<Rightarrow> destination)"

subsection \<open>The service\<close>

record import_session =
  is_lineages :: lineage_session
  is_dirs :: "string list"

type_synonym 'a import_action = "(import_session, import_error, 'a) action"

definition on_lineages :: "'a lineage_action \<Rightarrow> 'a import_action" where
  "on_lineages m s = (case m (is_lineages s) of (r, l) \<Rightarrow> (map_sum ImportLineage id r, s\<lparr>is_lineages := l\<rparr>))"

definition edit_dirs :: "(string list \<Rightarrow> string list) \<Rightarrow> unit import_action" where
  "edit_dirs f s = (Inr (), s\<lparr>is_dirs := f (is_dirs s)\<rparr>)"

text \<open>\<^verbatim>\<open>try: ... except E: handler; raise ...\<close>\<close>

definition cleanup :: "'a import_action \<Rightarrow> (import_error \<Rightarrow> import_error import_action) \<Rightarrow> 'a import_action" where
  "cleanup m handler s = (case m s of (Inl e, s') \<Rightarrow> bindS (handler e) raiseS s' | r \<Rightarrow> r)"

text \<open>
  The environment of a request: what the clone, the remote and the parser answer, the other requests, and its fresh values. A clone leaves
  its directory behind, or removes it and fails.
\<close>

record service_env =
  ie_names :: names
  ie_root :: string
  ie_clone :: "string \<Rightarrow> string option \<Rightarrow> git_clone import_result"
  ie_remote :: "string \<Rightarrow> string option \<Rightarrow> string import_result"
  ie_parse :: "string \<Rightarrow> nat import_result"
  ie_extract :: "(string \<times> bool) list import_result"
  ie_others :: "nat \<Rightarrow> lineage_db \<Rightarrow> lineage_db"
  ie_lineage_ids :: "nat \<Rightarrow> string"
  ie_id :: string
  ie_now :: instant

definition validate_parsed :: "nat \<Rightarrow> unit import_result" where
  "validate_parsed total_files = (if total_files = 0 then Inl (ImportInvalid ''Repository archive does not contain any readable files.'') else Inr ())"

definition get_row :: "string \<Rightarrow> string \<Rightarrow> revision_row import_action" where
  "get_row owner rid = bindS (on_lineages (on_ldb (row_for_owner rid owner))) (\<lambda>found. case found of
     None \<Rightarrow> raiseS (ImportNotFound rid) | Some r \<Rightarrow> returnS r)"

definition delete_repository_id :: "service_env \<Rightarrow> string \<Rightarrow> unit import_action" where
  "delete_repository_id E rid = edit_dirs (delete_tree (repository_path (ie_root E) rid))"

definition prepare_clone :: "service_env \<Rightarrow> string \<Rightarrow> string option \<Rightarrow> (string \<times> string) import_action" where
  "prepare_clone E url branch =
     bindS (liftS (ie_clone E url branch)) (\<lambda>g.
     bindS (liftS (git_revision g (read_head_commit g) branch)) (\<lambda>revision.
     bindS (liftS (bindR (ie_parse E (repository_path (ie_root E) (ie_id E))) validate_parsed)) (\<lambda>_. returnS revision)))"

definition github_row :: "service_env \<Rightarrow> string \<Rightarrow> string \<Rightarrow> string option \<Rightarrow> string \<Rightarrow> string \<Rightarrow> revision_row" where
  "github_row E owner url branch sha ref = \<lparr> rv_id = ie_id E, rv_owner_id = owner, rv_name = repository_name url, rv_source = ''github'',
     rv_source_url = Some url, rv_branch = branch, rv_revision_kind = Some ''git'', rv_revision_value = Some sha, rv_revision_ref = Some ref,
     rv_lineage_id = None, rv_sequence = None, rv_local_path = repository_path (ie_root E) (ie_id E), rv_uploaded_at = ie_now E \<rparr>"

text \<open>The directory is dropped and the error goes on; a revision that is there already is a conflict that names it.\<close>

definition drop_directory :: "service_env \<Rightarrow> (import_error \<Rightarrow> import_error) \<Rightarrow> import_error \<Rightarrow> import_error import_action" where
  "drop_directory E report e = bindS (delete_repository_id E (ie_id E)) (\<lambda>_. returnS (report e))"

definition as_conflict :: "import_error \<Rightarrow> import_error" where
  "as_conflict e = (case e of ImportLineage (LineageDuplicateRevision x) \<Rightarrow> ImportConflict (rv_id x) | e' \<Rightarrow> e')"

definition insert_github_revision :: "service_env \<Rightarrow> string \<Rightarrow> string \<Rightarrow> string option \<Rightarrow> string \<Rightarrow> string \<Rightarrow> revision_row import_action" where
  "insert_github_revision E owner url branch sha ref =
     bindS (liftS (canonical_github_source (nm_unicode (ie_names E)) url)) (\<lambda>key.
     on_lineages (add_with_lineage (ie_others E) (ie_lineage_ids E) (ie_now E) (github_row E owner url branch sha ref) owner
       (Some key) (Some ref) (repository_name url)))"

definition store_github_revision :: "service_env \<Rightarrow> string \<Rightarrow> string \<Rightarrow> string option \<Rightarrow> string \<Rightarrow> string \<Rightarrow> revision_row import_action" where
  "store_github_revision E owner url branch sha ref =
     cleanup (insert_github_revision E owner url branch sha ref) (drop_directory E as_conflict)"

definition import_github_revision :: "service_env \<Rightarrow> string \<Rightarrow> string \<Rightarrow> string option \<Rightarrow> revision_row import_action" where
  "import_github_revision E owner url branch =
     bindS (edit_dirs (reset_repository_path (ie_root E) (ie_id E))) (\<lambda>_.
     bindS (cleanup (prepare_clone E url branch) (drop_directory E id)) (\<lambda>(sha, ref).
     store_github_revision E owner url branch sha ref))"

definition import_github :: "service_env \<Rightarrow> string \<Rightarrow> string \<Rightarrow> string option \<Rightarrow> revision_row import_action" where
  "import_github E owner url branch =
     bindS (liftS (split_import_url (ie_names E) url)) (\<lambda>(repo_url, url_ref).
     bindS (liftS (validate_branch (case branch of None \<Rightarrow> url_ref | Some b \<Rightarrow> if b = [] then url_ref else Some b))) (\<lambda>b.
     import_github_revision E owner repo_url b))"

text \<open>An uploaded archive: its revision is the hash of its bytes, and it has no lineage.\<close>

definition repository_name_from_archive :: "unicode \<Rightarrow> (string \<Rightarrow> string) \<Rightarrow> string \<Rightarrow> string" where
  "repository_name_from_archive U stem filename = (case find (\<lambda>s. endswith s (u_lower U filename)) [''.tar.gz'', ''.tgz'', ''.zip'', ''.tar'', ''.gz''] of
     Some s \<Rightarrow> take (length filename - length s) filename | None \<Rightarrow> stem filename)"

definition upload_row :: "service_env \<Rightarrow> string \<Rightarrow> string \<Rightarrow> string \<Rightarrow> string \<Rightarrow> revision_row" where
  "upload_row E owner name content_hash root = \<lparr> rv_id = ie_id E, rv_owner_id = owner, rv_name = name, rv_source = ''upload'', rv_source_url = None,
     rv_branch = None, rv_revision_kind = Some ''upload'', rv_revision_value = Some content_hash, rv_revision_ref = None,
     rv_lineage_id = None, rv_sequence = None, rv_local_path = root, rv_uploaded_at = ie_now E \<rparr>"

definition prepare_upload :: "service_env \<Rightarrow> string \<Rightarrow> string \<Rightarrow> string import_action" where
  "prepare_upload E owner content_hash =
     bindS (on_lineages (on_ldb (find_by_revision_for_owner content_hash owner))) (\<lambda>existing. case existing of
       Some x \<Rightarrow> raiseS (ImportConflict (rv_id x))
     | None \<Rightarrow>
         bindS (edit_dirs (reset_repository_path (ie_root E) (ie_id E))) (\<lambda>_.
         bindS (liftS (ie_extract E)) (\<lambda>children.
         let root = normalise_single_root (repository_path (ie_root E) (ie_id E)) children in
         bindS (edit_dirs (\<lambda>dirs. dirs @ map (\<lambda>(n, d). repository_path (ie_root E) (ie_id E) @ ''/'' @ n) (filter snd children))) (\<lambda>_.
         bindS (liftS (bindR (ie_parse E root) validate_parsed)) (\<lambda>_. returnS root)))))"

definition import_upload :: "service_env \<Rightarrow> string \<Rightarrow> string \<Rightarrow> string \<Rightarrow> revision_row import_action" where
  "import_upload E owner name content_hash =
     bindS (cleanup (prepare_upload E owner content_hash) (drop_directory E id)) (\<lambda>root.
     on_lineages (add_row (upload_row E owner name content_hash root)))"

definition delete_repository :: "(lineage_db \<Rightarrow> lineage_db) \<Rightarrow> string \<Rightarrow> string \<Rightarrow> unit import_action" where
  "delete_repository others owner rid = bindS (get_row owner rid) (\<lambda>r.
     bindS (on_lineages (delete_with_lineage_update others r)) (\<lambda>_. edit_dirs (delete_tree (rv_local_path r))))"

subsection \<open>Re-analysis and history\<close>

datatype reanalysis = AlreadyCurrent revision_row string | RevisionImported revision_row string string

definition latest_in_lineage :: "string \<Rightarrow> revision_row \<Rightarrow> revision_row import_action" where
  "latest_in_lineage owner r = (case rv_lineage_id r of
     None \<Rightarrow> returnS r
   | Some lid \<Rightarrow> bindS (on_lineages (on_ldb (list_lineage_members lid owner))) (\<lambda>ms. returnS (case ms of [] \<Rightarrow> r | m # _ \<Rightarrow> m)))"

definition reanalyse :: "service_env \<Rightarrow> string \<Rightarrow> string \<Rightarrow> reanalysis import_action" where
  "reanalyse E owner rid = bindS (get_row owner rid) (\<lambda>r.
     if rv_source r \<noteq> ''github'' \<or> rv_source_url r = None \<or> rv_source_url r = Some [] then raiseS (ImportConflict (rv_id r))
     else bindS (latest_in_lineage owner r) (\<lambda>latest.
       bindS (liftS (validate_public_url (the (rv_source_url r)))) (\<lambda>url.
       bindS (liftS (validate_branch (rv_branch r))) (\<lambda>branch.
       bindS (liftS (ie_remote E url branch)) (\<lambda>stdout. case remote_head_commit stdout of
         None \<Rightarrow> raiseS ImportUnavailable
       | Some remote_head \<Rightarrow>
           if rv_revision_kind latest = Some ''git'' \<and> rv_revision_value latest = Some remote_head then returnS (AlreadyCurrent latest remote_head)
           else bindS (import_github_revision E owner url branch) (\<lambda>row. returnS (RevisionImported row remote_head (rv_id latest))))))))"

text \<open>One entry of a history: id, number, and whether it is the repository that was asked for.\<close>

definition lineage_entry :: "string \<Rightarrow> revision_row \<Rightarrow> string \<times> int option \<times> (string \<times> string) option \<times> bool" where
  "lineage_entry current r = (rv_id r, rv_sequence r, (case (rv_revision_kind r, rv_revision_value r) of
     (Some k, Some v) \<Rightarrow> if k \<noteq> [] \<and> v \<noteq> [] then Some (k, v) else None | _ \<Rightarrow> None), rv_id r = current)"

definition get_lineage :: "string \<Rightarrow> string \<Rightarrow> (bool \<times> (string \<times> int option \<times> (string \<times> string) option \<times> bool) list) import_action" where
  "get_lineage owner rid = bindS (get_row owner rid) (\<lambda>r. case rv_lineage_id r of
     None \<Rightarrow> returnS (False, [lineage_entry rid r])
   | Some lid \<Rightarrow> bindS (on_lineages (on_ldb (\<lambda>d. (lineage_for_owner lid owner d, list_lineage_members lid owner d)))) (\<lambda>(lineage, ms). case lineage of
       None \<Rightarrow> raiseS ImportFailed
     | Some _ \<Rightarrow> returnS (True, map (lineage_entry rid) ms)))"
section \<open>What reaches git\<close>

lemma GITHUB_RE_cases:
  assumes "GITHUB_RE s" and "CHR 0x0A \<notin> set s"
  obtains owner repo where "github_word owner" "github_word repo" "CHR ''/'' \<notin> set owner" "CHR ''/'' \<notin> set repo"
    "s = github_prefix @ owner @ ''/'' @ repo \<or> s = github_prefix @ owner @ ''/'' @ repo @ ''/'' \<or> s = github_prefix @ owner @ ''/'' @ repo @ ''/.git''"
proof -
  have t: "before_newline s = s" using assms(2) last_in_set by (fastforce simp: before_newline_def)
  then obtain rest where s: "s = github_prefix @ rest" using assms(1) by (auto simp: GITHUB_RE_def Let_def string_simps)
  have parts: "case split_char (CHR ''/'') rest of [owner, repo] \<Rightarrow> github_word owner \<and> github_word repo
      | [owner, repo, tail] \<Rightarrow> github_word owner \<and> github_word repo \<and> tail \<in> {[], ''.git''} | _ \<Rightarrow> False"
    using assms(1) t s by (simp add: GITHUB_RE_def Let_def)
  have j: "join ''/'' (split_char (CHR ''/'') rest) = rest" by (rule join_split)
  have no: "CHR ''/'' \<notin> set x" if "github_word x" for x
  proof -
    have "\<not> github_char (CHR ''/'')" by code_simp
    then show ?thesis using that by (auto simp: github_word_def list_all_iff)
  qed
  from parts consider owner repo where "split_char (CHR ''/'') rest = [owner, repo]" "github_word owner" "github_word repo"
    | owner repo tail where "split_char (CHR ''/'') rest = [owner, repo, tail]" "github_word owner" "github_word repo" "tail = [] \<or> tail = ''.git''"
    by (auto split: list.splits)
  then show ?thesis
  proof cases
    case 1
    then have "s = github_prefix @ owner @ ''/'' @ repo" using j s by auto
    then show ?thesis using that 1 no by blast
  next
    case 2
    then have "s = github_prefix @ owner @ ''/'' @ repo @ ''/'' @ tail" using j s by auto
    then show ?thesis using that 2 no by (metis append.right_neutral append_Cons append_Nil)
  qed
qed
lemma urlsplit_path:
  assumes "urlsplit N s = Some u"
  shows "CHR 0x0A \<notin> set (su_path u)"
proof -
  have before: "set (before c x) \<subseteq> set x" and after: "set (after c x) \<subseteq> set x" for c x
    by (auto simp: before_def after_def dest: set_takeWhileD set_dropWhileD in_set_dropD)
  obtain scheme url netloc rest where s: "split_scheme N (clean_url s) = (scheme, url)" "split_netloc url = (netloc, rest)"
    by (metis surj_pair)
  have "su_path u = before (CHR ''?'') (before (CHR ''#'') rest)" using assms by (auto simp: urlsplit_def s split: if_splits)
  then have "set (su_path u) \<subseteq> set rest" using before by (metis order_trans)
  moreover have "set rest \<subseteq> set url" using s(2) by (auto simp: split_netloc_def dest: set_dropWhileD in_set_dropD split: if_splits)
  moreover have "set url \<subseteq> set (clean_url s)" using s(1) after by (auto simp: split_scheme_def Let_def split: if_splits)
  moreover have "CHR 0x0A \<notin> set (clean_url s)" by (simp add: clean_url_def)
  ultimately show ?thesis by blast
qed

lemma count_list_take: "count_list (take n xs) x \<le> count_list xs x"
proof -
  have "count_list xs x = count_list (take n xs) x + count_list (drop n xs) x" by (metis append_take_drop_id count_list_append)
  then show ?thesis by simp
qed

text \<open>
  C18: What reaches git is a repository of GitHub and a branch. An accepted import URL becomes exactly
  \<^verbatim>\<open>https://github.com/<owner>/<repo>\<close> with an owner and a name of letters, digits, dots, dashes and underscores; an accepted branch never starts with a
  dash or a slash and has no dot-dot, so neither can be read as an option, a path or another host.
\<close>

theorem import_arguments_safe:
  assumes "split_import_url N url = Inr (repo_url, ref)" and "validate_branch b = Inr (Some branch)"
  shows "(\<exists>owner repo. github_word owner \<and> github_word repo \<and> repo_url = github_prefix @ owner @ ''/'' @ repo)
    \<and> branch \<noteq> [] \<and> hd branch \<notin> set ''-/'' \<and> \<not> occurs_in ''..'' branch \<and> list_all (\<lambda>c. github_char c \<or> c = CHR ''/'') (before_newline branch)"
proof
  from assms(1) obtain parsed owner repo rest where parsed: "urlsplit N (strip url) = Some parsed"
    and seg: "filter (\<lambda>s. s \<noteq> []) (split_char (CHR ''/'') (su_path parsed)) = owner # repo # rest"
    and valid: "validate_public_url (github_prefix @ owner @ ''/'' @ repo) = Inr repo_url"
    by (auto simp: split_import_url_def Let_def result_simps split: option.splits if_splits list.splits)
  have mem: "owner \<in> set (split_char (CHR ''/'') (su_path parsed))" "repo \<in> set (split_char (CHR ''/'') (su_path parsed))" "repo \<noteq> []"
    using arg_cong [OF seg, of set] by auto
  have slash: "CHR ''/'' \<notin> set owner" "CHR ''/'' \<notin> set repo" using mem split_char_no_sep by blast+
  have newline: "CHR 0x0A \<notin> set owner" "CHR 0x0A \<notin> set repo" using mem split_char_set urlsplit_path [OF parsed] by blast+
  let ?p = "github_prefix @ owner @ ''/'' @ repo"
  have "rstrip_slash ?p = ?p"
  proof -
    have "last repo \<noteq> CHR ''/''" using mem(3) slash(2) last_in_set by metis
    then show ?thesis using mem(3) by (cases repo rule: rev_cases) (simp_all add: rstrip_slash_def)
  qed
  then have u: "repo_url = removesuffix_git ?p" and re: "GITHUB_RE repo_url"
    using valid by (auto simp: validate_public_url_def Let_def split: if_splits)
  then obtain n where n: "repo_url = take n ?p" by (metis removesuffix_git_def take_all_iff order_refl)
  have count: "count_list repo_url (CHR ''/'') \<le> 4"
  proof -
    have "count_list ?p (CHR ''/'') = 4" using slash by (simp add: github_prefix_def count_list_0_iff)
    then show ?thesis using count_list_take n by metis
  qed
  have "CHR 0x0A \<notin> set repo_url"
    using newline unfolding n by (auto simp: github_prefix_def dest!: in_set_takeD)
  from GITHUB_RE_cases [OF re this] obtain o' r' where w: "github_word o'" "github_word r'" "CHR ''/'' \<notin> set o'" "CHR ''/'' \<notin> set r'"
    and shape: "repo_url = github_prefix @ o' @ ''/'' @ r' \<or> repo_url = github_prefix @ o' @ ''/'' @ r' @ ''/'' \<or> repo_url = github_prefix @ o' @ ''/'' @ r' @ ''/.git''"
    by blast
  have "repo_url = github_prefix @ o' @ ''/'' @ r'"
    using shape count w by (auto simp: github_prefix_def count_list_0_iff)
  then show "\<exists>owner repo. github_word owner \<and> github_word repo \<and> repo_url = github_prefix @ owner @ ''/'' @ repo" using w by blast
next
  show "branch \<noteq> [] \<and> hd branch \<notin> set ''-/'' \<and> \<not> occurs_in ''..'' branch \<and> list_all (\<lambda>c. github_char c \<or> c = CHR ''/'') (before_newline branch)"
    using assms(2) by (auto simp: validate_branch_def BRANCH_RE_def Let_def split: option.splits if_splits)
qed
lemma branch_newline_accepted: "validate_branch (Some (''main'' @ [CHR 0x0A])) = Inr (Some (''main'' @ [CHR 0x0A]))"
  by code_simp

section \<open>Imports\<close>

lemma bindS_on_lineages: "bindS (on_lineages (on_ldb f)) g s = g (f (ls_view (is_lineages s))) s"
  by (simp add: on_lineages_def on_ldb_def action_defs)

lemma bindS_edit_dirs: "bindS (edit_dirs f) g s = g () (s\<lparr>is_dirs := f (is_dirs s)\<rparr>)"
  by (simp add: edit_dirs_def action_defs)

lemma bindS_liftS: "bindS (liftS r) g s = (case r of Inl e \<Rightarrow> (Inl e, s) | Inr x \<Rightarrow> g x s)"
  by (simp add: action_defs split: sum.split)

lemma bindS_returnS: "bindS (returnS x) g s = g x s"
  by (simp add: action_defs)

lemmas import_steps = bindS_on_lineages bindS_edit_dirs bindS_liftS bindS_returnS

definition open_imports :: "lineage_db \<Rightarrow> string list \<Rightarrow> import_session" where
  "open_imports d dirs = \<lparr> is_lineages = open_lineages d, is_dirs = dirs \<rparr>"

text \<open>The directories of a repository id.\<close>

definition has_directory :: "string \<Rightarrow> string \<Rightarrow> string list \<Rightarrow> bool" where
  "has_directory root rid dirs \<longleftrightarrow> (\<exists>q \<in> set dirs. q = repository_path root rid \<or> startswith (repository_path root rid @ ''/'') q)"

lemma delete_tree_gone: "\<not> has_directory root rid (delete_tree (repository_path root rid) dirs)"
  by (auto simp: has_directory_def delete_tree_def)

lemma prepare_clone_state: "prepare_clone E url branch s = (r, s') \<Longrightarrow> s' = s"
  by (auto simp: prepare_clone_def import_steps returnS_def split: sum.splits)

lemma github_importable:
  assumes "git_revision g head_sha ref = Inr (sha, r)"
  shows "importable owner (github_row E owner url branch sha r)"
  using assms by (auto simp: git_revision_def is_git_sha_def importable_def github_row_def ck_repository_def ck_upload_revision_def ck_git_revision_def
      split: option.splits if_splits)

lemma prepare_clone_revision:
  assumes "prepare_clone E url branch s = (Inr (sha, ref), s')"
  shows "\<exists>g. ie_clone E url branch = Inr g \<and> git_revision g (read_head_commit g) branch = Inr (sha, ref)"
  using assms by (auto simp: prepare_clone_def import_steps returnS_def split: sum.splits)

text \<open>What is assumed of the environment: other requests follow the protocol of lineages and leave the ids of this one alone.\<close>

definition service_ok :: "service_env \<Rightarrow> lineage_db \<Rightarrow> bool" where
  "service_ok E d \<longleftrightarrow> import_env (ie_id E) (ie_others E) (ie_lineage_ids E) \<and> unused_ids (ie_id E) (range (ie_lineage_ids E)) d"

lemma cleanup_Inl: "m s = (Inl e, s1) \<Longrightarrow> cleanup m (drop_directory E f) s
    = (Inl (f e), s1\<lparr>is_dirs := delete_tree (repository_path (ie_root E) (ie_id E)) (is_dirs s1)\<rparr>)"
  by (simp add: cleanup_def drop_directory_def delete_repository_id_def edit_dirs_def action_defs)

lemma cleanup_Inr: "m s = (Inr x, s1) \<Longrightarrow> cleanup m h s = (Inr x, s1)"
  by (simp add: cleanup_def)

text \<open>Storing the revision: a row in its lineage, or the directory is dropped.\<close>

lemma store_github_settles:
  assumes "lineage_inv d" and "service_ok E d" and "git_revision g (read_head_commit g) branch = Inr (sha, ref)"
    and "store_github_revision E owner url branch sha ref \<lparr> is_lineages = open_lineages d, is_dirs = dirs \<rparr> = (res, s')"
  shows "(case res of
      Inl _ \<Rightarrow> is_dirs s' = delete_tree (repository_path (ie_root E) (ie_id E)) dirs
    | Inr row \<Rightarrow> is_dirs s' = dirs \<and> row \<in> set (ld_rows (ls_committed (is_lineages s'))) \<and> rv_id row = ie_id E
        \<and> rv_local_path row = repository_path (ie_root E) (ie_id E)) \<and> lineage_step\<^sup>*\<^sup>* d (ls_committed (is_lineages s'))"
proof -
  let ?s = "\<lparr> is_lineages = open_lineages d, is_dirs = dirs \<rparr>"
  show ?thesis
  proof (cases "canonical_github_source (nm_unicode (ie_names E)) url")
  case (Inl e)
  then have run: "insert_github_revision E owner url branch sha ref ?s = (Inl e, ?s)" by (simp add: insert_github_revision_def import_steps)
  from assms(4) [unfolded store_github_revision_def cleanup_Inl [of "insert_github_revision E owner url branch sha ref" ?s, OF run]] show ?thesis by (auto simp: open_lineages_def)
next
  case (Inr key)
  let ?row = "github_row E owner url branch sha ref"
  let ?add = "add_with_lineage (ie_others E) (ie_lineage_ids E) (ie_now E) ?row owner (Some key) (Some ref) (repository_name url)"
  obtain r2 l2 where add: "?add (open_lineages d) = (r2, l2)" by (metis surj_pair)
  have id: "rv_id ?row = ie_id E" "rv_local_path ?row = repository_path (ie_root E) (ie_id E)" by (simp_all add: github_row_def)
  have env: "import_env (rv_id ?row) (ie_others E) (ie_lineage_ids E)" "unused_ids (rv_id ?row) (range (ie_lineage_ids E)) d"
    using assms(2) by (simp_all add: service_ok_def id)
  have settled: "import_settled owner key ref ?row d r2 (ls_committed l2)"
    by (rule add_with_lineage_settles [OF assms(1) env(1) github_importable [OF assms(3)] env(2) add])
  have run: "insert_github_revision E owner url branch sha ref ?s = (map_sum ImportLineage id r2, ?s\<lparr>is_lineages := l2\<rparr>)"
    using Inr add by (simp add: insert_github_revision_def import_steps on_lineages_def)
  show ?thesis
  proof (cases r2)
    case (Inl e)
    from assms(4) [unfolded store_github_revision_def cleanup_Inl [of "insert_github_revision E owner url branch sha ref" ?s, OF run [unfolded Inl map_sum.simps]]] settled
    show ?thesis by (auto simp: import_settled_def)
  next
    case (Inr row)
    from assms(4) [unfolded store_github_revision_def cleanup_Inr [of "insert_github_revision E owner url branch sha ref" ?s, OF run [unfolded Inr map_sum.simps]]] settled id Inr
    show ?thesis by (auto simp: import_settled_def members_def)
  qed
qed
qed

text \<open>
  C16: A failed import leaves nothing behind. If the import of a GitHub revision raises, whatever the reason (clone, revision, parser,
  duplicate), no directory of its repository id is left and no row has that id; if it succeeds, the row is the numbered latest of its
  lineage, its directory exists, and every other directory is as it was.
\<close>

theorem import_all_or_nothing:
  assumes "lineage_inv d" and "service_ok E d"
    and "import_github_revision E owner url branch (open_imports d dirs) = (res, s')"
  shows "case res of
      Inl _ \<Rightarrow> is_dirs s' = delete_tree (repository_path (ie_root E) (ie_id E)) dirs \<and> \<not> has_directory (ie_root E) (ie_id E) (is_dirs s')
        \<and> (ls_committed (is_lineages s') = d \<or> lineage_step\<^sup>*\<^sup>* d (ls_committed (is_lineages s')))
    | Inr row \<Rightarrow> row \<in> set (ld_rows (ls_committed (is_lineages s'))) \<and> rv_id row = ie_id E
        \<and> is_dirs s' = delete_tree (repository_path (ie_root E) (ie_id E)) dirs @ [rv_local_path row]"
proof -
  let ?path = "repository_path (ie_root E) (ie_id E)" and ?dirs = "reset_repository_path (ie_root E) (ie_id E) dirs"
  let ?s = "\<lparr> is_lineages = open_lineages d, is_dirs = ?dirs \<rparr>"
  have clean: "delete_tree ?path ?dirs = delete_tree ?path dirs"
    by (simp add: reset_repository_path_def delete_tree_def)
  have gone: "\<not> has_directory (ie_root E) (ie_id E) (delete_tree ?path dirs)" by (rule delete_tree_gone)
  have start: "import_github_revision E owner url branch (open_imports d dirs)
      = bindS (cleanup (prepare_clone E url branch) (drop_directory E id)) (\<lambda>(sha, ref). store_github_revision E owner url branch sha ref) ?s"
    by (simp add: import_github_revision_def open_imports_def bindS_edit_dirs)
  obtain p s1 where prep1: "prepare_clone E url branch ?s = (p, s1)" by (metis surj_pair)
  then have prep: "prepare_clone E url branch ?s = (p, ?s)" using prepare_clone_state by blast
  show ?thesis
  proof (cases p)
    case (Inl e)
    from assms(3) [unfolded start] have "res = Inl e" "s' = ?s\<lparr>is_dirs := delete_tree ?path ?dirs\<rparr>"
      unfolding bindS_def [of "cleanup _ _"] cleanup_Inl [of "prepare_clone E url branch" ?s, OF prep [unfolded Inl]] by auto
    then show ?thesis using clean gone by (simp add: open_lineages_def)
  next
    case (Inr pair)
    obtain sha ref where pair: "pair = (sha, ref)" by (cases pair)
    from prepare_clone_revision [OF prep [unfolded Inr pair]]
    obtain g where g: "git_revision g (read_head_commit g) branch = Inr (sha, ref)" by blast
    from assms(3) [unfolded start] have "store_github_revision E owner url branch sha ref ?s = (res, s')"
      unfolding bindS_def [of "cleanup _ _"] cleanup_Inr [of "prepare_clone E url branch" ?s, OF prep [unfolded Inr pair]] by simp
    from store_github_settles [OF assms(1,2) g this] show ?thesis
      using clean gone by (auto simp: reset_repository_path_def split: sum.splits)
  qed
qed
section \<open>Re-analysis\<close>

text \<open>Without interference an import into a lineage that exists is determined.\<close>

lemma add_known:
  assumes "lineage_inv d" and "find_lineage owner key (Some branch) d = Some l" and "importable owner r" and "rv_id r \<notin> rv_id ` set (ld_rows d)"
  shows "add_with_lineage (\<lambda>_. id) ids now r owner (Some key) (Some branch) name (open_lineages d) = (case same_revision (ln_id l) r d of
      Some x \<Rightarrow> (Inl (LineageDuplicateRevision x), open_lineages d)
    | None \<Rightarrow> (Inr (placed r l), open_lineages (imported (ln_id l) (placed r l) d)))"
proof -
  note l = find_lineage_Some [OF assms(2)]
  have owner: "ln_owner_id l = owner" using l(2) by (simp add: lineage_key_def)
  have view: "ls_view (open_lineages d) = d" by (simp add: open_lineages_def)
  have ids: "distinct (map ln_id (ld_lineages d))" and ck: "ck_lineage l"
    using assms(1) l(1) by (simp_all add: lineage_inv_def lineages_ok_def statements_ok_def list_all_iff)
  have "lineages_ok (imported (ln_id l) (placed r l) d)"
    by (rule imported_ok [OF assms(1) l(1)]) (use assms(3,4) owner ck in \<open>simp_all add: importable_placed importable_def\<close>)
  then have run: "add_to_lineage r owner (ln_id l) (open_lineages d) = (case same_revision (ln_id l) r d of
      Some x \<Rightarrow> (Inl (LineageDuplicateRevision x), open_lineages d)
    | None \<Rightarrow> (Inr (placed r l), open_lineages (imported (ln_id l) (placed r l) d)))"
    using add_to_lineage_result [of "open_lineages d" l r] ids l(1) unfolding view owner
    by (auto simp: Let_def open_lineages_def split: option.splits)
  have "add_with_lineage_once id lid now r owner key (Some branch) name (open_lineages d) = add_to_lineage r owner (ln_id l) (open_lineages d)" for lid
    using assms(2) by (simp add: add_with_lineage_once_def lineage_steps open_lineages_def) (simp add: bindS_returnS)
  then show ?thesis
    using run by (simp add: add_with_lineage_def MAX_LINEAGE_RETRIES_def upt_conv_Cons attempts_step split: option.split)
qed

definition revision_in :: "string \<Rightarrow> string \<Rightarrow> lineage_db \<Rightarrow> revision_row option" where
  "revision_in lid sha d = find (\<lambda>x. in_lineage lid x \<and> rv_revision_value x = Some sha) (ld_rows d)"

text \<open>
  C17: Re-analysis has three outcomes. If the branch has not moved since the newest revision of the lineage, whichever of its
  revisions was asked about, that revision is reported and nothing changes. If the branch points to a new commit, it is imported as the next revision.
  If it points to the commit of an older revision, the conflict names that one and nothing is imported.
\<close>

theorem reanalysis_outcomes:
  assumes "lineage_inv d" and "ie_others E = (\<lambda>_. id)" and "ie_id E \<notin> rv_id ` set (ld_rows d)"
    and row: "row_for_owner rid owner d = Some r" "rv_source r = ''github''" "rv_source_url r = Some u" "rv_lineage_id r = Some (ln_id l)"
    and l: "find_lineage owner key (Some ref) d = Some l"
    and url: "validate_public_url u = Inr url" "validate_branch (rv_branch r) = Inr branch" "canonical_github_source (nm_unicode (ie_names E)) url = Inr key"
    and remote: "ie_remote E url branch = Inr stdout" "remote_head_commit stdout = Some sha"
    and clone: "ie_clone E url branch = Inr g" "git_revision g (read_head_commit g) branch = Inr (sha, ref)" "ie_parse E (repository_path (ie_root E) (ie_id E)) = Inr (Suc n)"
    and result: "reanalyse E owner rid (open_imports d dirs) = (res, s')"
  defines "latest \<equiv> hd (list_lineage_members (ln_id l) owner d)"
  shows "if rv_revision_kind latest = Some ''git'' \<and> rv_revision_value latest = Some sha then res = Inr (AlreadyCurrent latest sha) \<and> s' = open_imports d dirs
    else (case revision_in (ln_id l) sha d of
        Some x \<Rightarrow> res = Inl (ImportConflict (rv_id x)) \<and> ls_committed (is_lineages s') = d
      | None \<Rightarrow> res = Inr (RevisionImported (placed (github_row E owner url branch sha ref) l) sha (rv_id latest))
          \<and> ls_committed (is_lineages s') = imported (ln_id l) (placed (github_row E owner url branch sha ref) l) d)"
proof -
  let ?s = "open_imports d dirs" and ?row = "github_row E owner url branch sha ref"
  have u: "u \<noteq> []"
  proof
    assume "u = []"
    moreover have "validate_public_url [] = Inl (ImportInvalid ONLY_GITHUB)" by code_simp
    ultimately show False using url(1) by simp
  qed
  have mem: "r \<in> set (ld_rows d)" "rv_owner_id r = owner" using row(1) by (auto simp: row_for_owner_def find_Some_iff split: option.splits if_splits)
  then have "r \<in> set (list_lineage_members (ln_id l) owner d)"
    using row(4) by (simp add: list_lineage_members_def by_sequence_desc_def in_lineage_def)
  then obtain ms where ms: "list_lineage_members (ln_id l) owner d = latest # ms"
    unfolding latest_def by (metis list.exhaust_sel list.set(1) empty_iff)
  have view: "ls_view (is_lineages ?s) = d" by (simp add: open_imports_def open_lineages_def)
  have start: "(res, s') = (if rv_revision_kind latest = Some ''git'' \<and> rv_revision_value latest = Some sha then (Inr (AlreadyCurrent latest sha), ?s)
      else bindS (import_github_revision E owner url branch) (\<lambda>row. returnS (RevisionImported row sha (rv_id latest))) ?s)"
    unfolding result [symmetric] reanalyse_def get_row_def bindS_bindS bindS_on_lineages view row(1)
    using row u url(1,2) remote ms view
    by (simp add: import_steps latest_in_lineage_def bindS_bindS returnS_def)
  have prep: "prepare_clone E url branch s = (Inr (sha, ref), s)" for s
    using clone by (simp add: prepare_clone_def import_steps validate_parsed_def returnS_def)
  let ?dirs = "reset_repository_path (ie_root E) (ie_id E) dirs"
  let ?s1 = "\<lparr> is_lineages = open_lineages d, is_dirs = ?dirs \<rparr>"
  have import_run: "import_github_revision E owner url branch ?s = store_github_revision E owner url branch sha ref ?s1"
    by (simp add: import_github_revision_def bindS_edit_dirs open_imports_def bindS_def [of "cleanup _ _"] cleanup_Inr [of "prepare_clone E url branch" ?s1, OF prep])
  have add: "insert_github_revision E owner url branch sha ref ?s1 = (case revision_in (ln_id l) sha d of
      Some x \<Rightarrow> (Inl (ImportLineage (LineageDuplicateRevision x)), ?s1)
    | None \<Rightarrow> (Inr (placed ?row l), ?s1\<lparr>is_lineages := open_lineages (imported (ln_id l) (placed ?row l) d)\<rparr>))"
  proof -
    have "rv_id ?row \<notin> rv_id ` set (ld_rows d)" "rv_revision_value ?row = Some sha" using assms(3) by (simp_all add: github_row_def)
    then show ?thesis
      using add_known [OF assms(1) l github_importable [OF clone(2)], of E url branch] url(3) assms(2)
      by (simp add: insert_github_revision_def import_steps on_lineages_def revision_in_def same_revision_def split: option.split)
  qed
  show ?thesis
  proof (cases "rv_revision_kind latest = Some ''git'' \<and> rv_revision_value latest = Some sha")
    case True
    then show ?thesis using start by simp
  next
    case False
    have run: "(res, s') = bindS (store_github_revision E owner url branch sha ref) (\<lambda>row. returnS (RevisionImported row sha (rv_id latest))) ?s1"
      using import_run unfolding start if_not_P [OF False] by (simp add: bindS_def)
    show ?thesis
    proof (cases "revision_in (ln_id l) sha d")
      case None
      have "store_github_revision E owner url branch sha ref ?s1 = (Inr (placed ?row l), ?s1\<lparr>is_lineages := open_lineages (imported (ln_id l) (placed ?row l) d)\<rparr>)"
        unfolding store_github_revision_def by (rule cleanup_Inr) (simp add: add None)
      then show ?thesis using False None run by (simp add: bindS_def returnS_def open_lineages_def)
    next
      case (Some x)
      have "insert_github_revision E owner url branch sha ref ?s1 = (Inl (ImportLineage (LineageDuplicateRevision x)), ?s1)" by (simp add: add Some)
      then show ?thesis
        using False Some cleanup_Inl [of "insert_github_revision E owner url branch sha ref" ?s1]
        run by (simp add: bindS_def store_github_revision_def as_conflict_def open_lineages_def)
    qed
  qed
qed
section \<open>Witnesses\<close>

definition sample_clone :: "char \<Rightarrow> git_clone" where
  "sample_clone c = \<lparr> gc_head = Some (sample_commit c @ [CHR 0x0A]), gc_symbolic = Some (''refs/heads/main'' @ [CHR 0x0A]), gc_verify = (\<lambda>_. None) \<rparr>"

definition sample_service :: "char \<Rightarrow> service_env" where
  "sample_service c = \<lparr> ie_names = plain_names, ie_root = ''/s'', ie_clone = (\<lambda>_ _. Inr (sample_clone c)),
     ie_remote = (\<lambda>_ _. Inr (sample_commit c @ [CHR 0x09] @ ''HEAD'' @ [CHR 0x0A])), ie_parse = (\<lambda>_. Inr 3), ie_extract = Inr [(''proj'', True)],
     ie_others = (\<lambda>_. id), ie_lineage_ids = (\<lambda>_. ''L9''), ie_id = ''r9'', ie_now = 0 \<rparr>"

theorem import_arguments_safe_witness:
  "\<exists>owner repo. github_word owner \<and> github_word repo \<and> ''https://github.com/octo/hello'' = github_prefix @ owner @ ''/'' @ repo"
proof -
  have "split_import_url plain_names '' https://www.github.com/octo/hello.git/tree/fix/a '' = Inr (''https://github.com/octo/hello'', Some ''fix/a'')"
    "validate_branch (Some ''fix/a'') = Inr (Some ''fix/a'')" by code_simp+
  from import_arguments_safe [OF this] show ?thesis by blast
qed

lemma sample_service_ok: "service_ok (sample_service c) two_revisions"
proof -
  have "rv_id ` set (ld_rows two_revisions) = {''r1'', ''r2''}" "ln_id ` set (ld_lineages two_revisions) = {''L1''}" by code_simp+
  then have "unused_ids ''r9'' (range (\<lambda>_ :: nat. ''L9'')) two_revisions" unfolding unused_ids_def by simp
  then show ?thesis by (simp add: service_ok_def sample_service_def import_env_id)
qed

theorem import_all_or_nothing_witness:
  "has_directory ''/s'' ''r9'' [''/s/r9''] \<and> \<not> has_directory ''/s'' ''r9''
     (is_dirs (snd (import_github_revision (sample_service (CHR ''b'')) ''u'' ''https://github.com/o/r'' None (open_imports two_revisions [''/s/r1'']))))"
proof
  show "has_directory ''/s'' ''r9'' [''/s/r9'']" by code_simp
  let ?run = "import_github_revision (sample_service (CHR ''b'')) ''u'' ''https://github.com/o/r'' None (open_imports two_revisions [''/s/r1''])"
  have fail: "case fst ?run of Inl _ \<Rightarrow> True | Inr _ \<Rightarrow> False" by code_simp
  have env: "ie_root (sample_service (CHR ''b'')) = ''/s''" "ie_id (sample_service (CHR ''b'')) = ''r9''" by (simp_all add: sample_service_def)
  from fail obtain e where e: "fst ?run = Inl e" by (cases "fst ?run") simp_all
  from import_all_or_nothing [OF two_revisions_reached(2) sample_service_ok prod.collapse [symmetric],
      of "CHR ''b''" "''u''" "''https://github.com/o/r''" None "[''/s/r1'']", unfolded e sum.case env]
  show "\<not> has_directory ''/s'' ''r9'' (is_dirs (snd ?run))" by blast
qed

theorem reanalysis_outcomes_witness:
  "fst (reanalyse (sample_service (CHR ''a'')) ''u'' ''r2'' (open_imports two_revisions [])) = Inl (ImportConflict ''r1'')"
proof -
  let ?E = "sample_service (CHR ''a'')" and ?l = "hd (ld_lineages two_revisions)" and ?r = "last (ld_rows two_revisions)"
  have env: "ie_others ?E = (\<lambda>_. id)" "ie_remote ?E ''https://github.com/o/r'' None = Inr (sample_commit (CHR ''a'') @ [CHR 0x09] @ ''HEAD'' @ [CHR 0x0A])"
    "ie_clone ?E ''https://github.com/o/r'' None = Inr (sample_clone (CHR ''a''))" "ie_parse ?E (repository_path (ie_root ?E) (ie_id ?E)) = Inr (Suc 2)"
    by (simp_all add: sample_service_def)
  have unused: "ie_id ?E \<notin> rv_id ` set (ld_rows two_revisions)" by code_simp
  have row: "row_for_owner ''r2'' ''u'' two_revisions = Some ?r" "rv_source ?r = ''github''" "rv_source_url ?r = Some ''https://github.com/o/r''"
    "rv_lineage_id ?r = Some (ln_id ?l)" "find_lineage ''u'' ''github.com/o/r'' (Some ''refs/heads/main'') two_revisions = Some ?l" by code_simp+
  have url: "validate_public_url ''https://github.com/o/r'' = Inr ''https://github.com/o/r''" "validate_branch (rv_branch ?r) = Inr None"
    "canonical_github_source (nm_unicode (ie_names ?E)) ''https://github.com/o/r'' = Inr ''github.com/o/r''" by code_simp+
  have remote: "remote_head_commit (sample_commit (CHR ''a'') @ [CHR 0x09] @ ''HEAD'' @ [CHR 0x0A]) = Some (sample_commit (CHR ''a''))"
    and git: "git_revision (sample_clone (CHR ''a'')) (read_head_commit (sample_clone (CHR ''a''))) None = Inr (sample_commit (CHR ''a''), ''refs/heads/main'')"
    by code_simp+
  note outcome = reanalysis_outcomes [OF two_revisions_reached(2) env(1) unused row url env(2) remote env(3) git env(4) prod.collapse [symmetric], of "[]"]
  have moved: "rv_revision_value (hd (list_lineage_members (ln_id ?l) ''u'' two_revisions)) \<noteq> Some (sample_commit (CHR ''a''))"
    and older: "map_option rv_id (revision_in (ln_id ?l) (sample_commit (CHR ''a'')) two_revisions) = Some ''r1''" by code_simp+
  from older obtain x where x: "revision_in (ln_id ?l) (sample_commit (CHR ''a'')) two_revisions = Some x" "rv_id x = ''r1''" by blast
  from moved have "\<not> (rv_revision_kind (hd (list_lineage_members (ln_id ?l) ''u'' two_revisions)) = Some ''git''
      \<and> rv_revision_value (hd (list_lineage_members (ln_id ?l) ''u'' two_revisions)) = Some (sample_commit (CHR ''a'')))" by blast
  from outcome [unfolded if_not_P [OF this] x option.case] show ?thesis by blast
qed

text \<open>
  The repository of an upload is usually the only directory in its archive; deleting the repository removes that one and leaves
  the directory of the repository id.
\<close>

lemma upload_delete_leaves_directory:
  "let s = snd (import_upload (sample_service (CHR ''a'')) ''u'' ''proj'' (''sha256:'' @ replicate 64 (CHR ''0'')) (open_imports no_repositories []));
       s' = snd (delete_repository id ''u'' ''r9'' s)
   in map rv_local_path (ld_rows (ls_committed (is_lineages s))) = [''/s/r9/proj''] \<and> ld_rows (ls_committed (is_lineages s')) = [] \<and> is_dirs s' = [''/s/r9'']"
  by code_simp

end
