(* ===== verification/Source_Files.thy ===== *)
theory Source_Files
  imports Relation_Resolver
begin

text \<open>
  From the files of a checkout to the bytes that are analysed: the directory tree, the catalogue
  that \<^verbatim>\<open>parsers/repository_parser.py\<close> makes of it, the budget of
  \<^verbatim>\<open>analysis/resource_budget.py\<close> and the stream of \<^verbatim>\<open>analysis/source_stream.py\<close>
  that reads the catalogued files back. A directory is the list of its entries in the order the operating system gives
  them; a symbolic link carries what it leads to, if anything. The tree does not change
  while it is read.
\<close>

section \<open>Directory trees\<close>

datatype entry =
    RegularFile string
  | Folder "(string \<times> entry) list"
  | Link "entry option"
  | Device

type_synonym entries = "(string \<times> entry) list"

text \<open>\<^verbatim>\<open>Path.is_file\<close> follows a link.\<close>

fun is_file :: "entry \<Rightarrow> bool" where
  "is_file (RegularFile _) = True"
| "is_file (Link (Some e)) = is_file e"
| "is_file _ = False"

text \<open>
  What \<^verbatim>\<open>os.open\<close> with \<^verbatim>\<open>O_NOFOLLOW\<close> finds below a directory: the flag refuses a link in the last place only, a
  link before it is followed.
\<close>

datatype open_result = Missing | Refused | Opened entry

fun open_entry :: "entry \<Rightarrow> string list \<Rightarrow> open_result" where
  "open_entry (Link _) [] = Refused"
| "open_entry (Link None) (c # cs) = Missing"
| "open_entry (Link (Some e)) (c # cs) = open_entry e (c # cs)"
| "open_entry e [] = Opened e"
| "open_entry (Folder es) (c # cs) = (case map_of es c of None \<Rightarrow> Missing | Some e \<Rightarrow> open_entry e cs)"
| "open_entry _ (c # cs) = Refused"

text \<open>Whether \<^verbatim>\<open>lstat\<close> sees a link at one of the components.\<close>

fun through_link :: "entry \<Rightarrow> string list \<Rightarrow> bool" where
  "through_link (Link _) cs = True"
| "through_link (Folder es) (c # cs) = (case map_of es c of None \<Rightarrow> False | Some e \<Rightarrow> through_link e cs)"
| "through_link _ cs = False"

section \<open>The repository parser\<close>

definition IGNORED_DIRS :: "string list" where
  "IGNORED_DIRS = [''.git'', ''.hg'', ''.svn'', ''node_modules'', ''dist'', ''build'', ''.next'', ''.venv'', ''venv'', ''__pycache__'',
     ''.cache'', ''.mypy_cache'', ''.pytest_cache'', ''.tox'', ''vendor'', ''vendors'', ''generated'', ''__MACOSX'']"

definition is_macos_artifact :: "string \<Rightarrow> bool" where
  "is_macos_artifact name \<longleftrightarrow> name = ''.DS_Store'' \<or> startswith ''._'' name"

definition LANGUAGE_BY_EXTENSION :: "(string \<times> string) list" where
  "LANGUAGE_BY_EXTENSION = [(''py'', ''Python''), (''ts'', ''TypeScript''), (''tsx'', ''TypeScript''), (''js'', ''JavaScript''),
     (''jsx'', ''JavaScript''), (''go'', ''Go''), (''rs'', ''Rust''), (''java'', ''Java''), (''kt'', ''Kotlin''), (''swift'', ''Swift''),
     (''cs'', ''C#''), (''cpp'', ''C++''), (''c'', ''C''), (''html'', ''HTML''), (''css'', ''CSS''), (''scss'', ''SCSS''), (''json'', ''JSON''),
     (''yaml'', ''YAML''), (''yml'', ''YAML''), (''md'', ''Markdown''), (''sql'', ''SQL''), (''sh'', ''Shell'')]"

definition CONFIG_FILES :: "string list" where
  "CONFIG_FILES = [''package.json'', ''tsconfig.json'', ''vite.config.ts'', ''next.config.js'', ''pyproject.toml'', ''requirements.txt'',
     ''Dockerfile'', ''docker-compose.yml'', ''.env.example'', ''.gitignore'']"

definition passed_over :: "string \<Rightarrow> bool" where
  "passed_over name \<longleftrightarrow> name \<in> set IGNORED_DIRS \<or> is_macos_artifact name"

text \<open>\<^verbatim>\<open>Path.suffix\<close>: from the last dot on, unless it is the first or the last character.\<close>

definition path_suffix :: "string \<Rightarrow> string" where
  "path_suffix name = (let tail = takeWhile (\<lambda>c. c \<noteq> CHR ''.'') (rev name); i = length name - Suc (length tail) in
     if CHR ''.'' \<in> set name \<and> 0 < i \<and> tail \<noteq> [] then drop i name else [])"

definition file_extension :: "unicode \<Rightarrow> string \<Rightarrow> string option" where
  "file_extension U name = (if path_suffix name = [] then None else Some (u_lower U (drop 1 (path_suffix name))))"

datatype file_tree_node = FileTreeNode (tn_id: string) (tn_name: string) (tn_type: string) (tn_path: string)
  (tn_children: "file_tree_node list option") (tn_size: "int option") (tn_extension: "string option") (tn_language: "string option")

text \<open>
  \<^verbatim>\<open>_build_tree\<close>: the nodes and the skipped links. The identifiers are random, one for each place in the tree, hence
  a function of the place.
\<close>

definition child_order :: "unicode \<Rightarrow> string \<times> entry \<Rightarrow> bool \<times> string" where
  "child_order U = (\<lambda>(name, e). (is_file e, u_lower U name))"

definition relative_path :: "string list \<Rightarrow> string" where
  "relative_path parts = CHR ''/'' # replace_char (CHR 0x5C) (CHR ''/'') (join ''/'' parts)"

definition file_node :: "unicode \<Rightarrow> (string list \<Rightarrow> string) \<Rightarrow> string list \<Rightarrow> string \<Rightarrow> string \<Rightarrow> file_tree_node" where
  "file_node U ids parts name content = (let extension = file_extension U name in
     FileTreeNode (ids parts) name ''file'' (relative_path parts) None (Some (int (length content))) extension
       (map_of LANGUAGE_BY_EXTENSION (case extension of None \<Rightarrow> [] | Some x \<Rightarrow> x)))"

definition gather :: "('a list \<times> 'b list) list \<Rightarrow> 'a list \<times> 'b list" where
  "gather rs = (concat (map fst rs), concat (map snd rs))"

lemma child_size: "(name, e) \<in> set es \<Longrightarrow> size e < Suc (size_list (size_prod (\<lambda>_. 0) size) es)"
  by (induction es) auto

function build_child :: "unicode \<Rightarrow> (string list \<Rightarrow> string) \<Rightarrow> string list \<Rightarrow> string \<Rightarrow> entry \<Rightarrow> file_tree_node list \<times> string list" where
  "build_child U ids parts name e =
     (if passed_over name then ([], [])
      else case e of
        Link _ \<Rightarrow> ([], [relative_path (parts @ [name])])
      | Folder es \<Rightarrow>
          (case gather (map (\<lambda>(n, c). build_child U ids (parts @ [name]) n c) (sort_key (child_order U) es)) of
             (children, skipped) \<Rightarrow> ([FileTreeNode (ids (parts @ [name])) name ''folder'' (relative_path (parts @ [name]))
               (Some children) None None None], skipped))
      | RegularFile content \<Rightarrow> ([file_node U ids (parts @ [name]) name content], [])
      | Device \<Rightarrow> ([], []))"
  by pat_completeness auto
termination
  by (relation "measure (\<lambda>(U, ids, parts, name, e). size e)") (auto dest: child_size)

declare build_child.simps [simp del]

definition build_tree :: "unicode \<Rightarrow> (string list \<Rightarrow> string) \<Rightarrow> string list \<Rightarrow> entries \<Rightarrow> file_tree_node list \<times> string list" where
  "build_tree U ids parts es = gather (map (\<lambda>(n, c). build_child U ids parts n c) (sort_key (child_order U) es))"

text \<open>\<^verbatim>\<open>_enforce_file_count\<close>, in the order of the directory.\<close>

fun enforce_file_count :: "int \<Rightarrow> int \<Rightarrow> entries \<Rightarrow> (int \<times> int) + int" where
  "enforce_file_count mx n [] = Inr n"
| "enforce_file_count mx n ((name, e) # es) =
     (if passed_over name then enforce_file_count mx n es
      else case e of
        Folder cs \<Rightarrow> bindR (enforce_file_count mx n cs) (\<lambda>n. enforce_file_count mx n es)
      | RegularFile _ \<Rightarrow> if mx < n + 1 then Inl (mx, n + 1) else enforce_file_count mx (n + 1) es
      | _ \<Rightarrow> enforce_file_count mx n es)"

text \<open>\<^verbatim>\<open>_flatten\<close>\<close>

lemma option_child_size: "n \<in> set cs \<Longrightarrow> size n < Suc (size_list size cs)"
  by (induction cs) auto

function flatten :: "file_tree_node list \<Rightarrow> file_tree_node list" where
  "flatten [] = []"
| "flatten (n # ns) = n # (case tn_children n of None \<Rightarrow> [] | Some cs \<Rightarrow> flatten cs) @ flatten ns"
  by pat_completeness auto
termination
proof (relation "measure (size_list size)")
  fix n :: file_tree_node and ns cs assume "tn_children n = Some cs"
  then show "(cs, n # ns) \<in> measure (size_list size)" by (cases n) auto
qed auto


text \<open>UTF-8 as \<^verbatim>\<open>bytes.decode\<close> reads it: the length of the well-formed sequence at the head, 0 when there is none.\<close>

fun utf8_len :: "int list \<Rightarrow> nat" where
  "utf8_len [] = 0"
| "utf8_len (a # bs) =
     (let continues = (\<lambda>k. k \<le> length bs \<and> list_all (\<lambda>b. 128 \<le> b \<and> b < 192) (take k bs)); second = (case bs of [] \<Rightarrow> 0 | b # _ \<Rightarrow> b) in
      if a < 128 then 1
      else if 194 \<le> a \<and> a < 224 \<and> continues 1 then 2
      else if 224 \<le> a \<and> a < 240 \<and> continues 2 \<and> (a = 224 \<longrightarrow> 160 \<le> second) \<and> (a = 237 \<longrightarrow> second < 160) then 3
      else if 240 \<le> a \<and> a < 245 \<and> continues 3 \<and> (a = 240 \<longrightarrow> 144 \<le> second) \<and> (a = 244 \<longrightarrow> second < 144) then 4
      else 0)"

definition utf8_head :: "string \<Rightarrow> nat" where
  "utf8_head s = utf8_len (map of_char (take 4 s))"

function utf8_valid :: "string \<Rightarrow> bool" where
  "utf8_valid s = (if s = [] then True else if utf8_head s = 0 then False else utf8_valid (drop (utf8_head s) s))"
  by pat_completeness auto
termination
  by (relation "measure length") auto

function decode_ignore :: "string \<Rightarrow> string" where
  "decode_ignore [] = []"
| "decode_ignore (c # s) = (let k = utf8_head (c # s) in
     if k = 0 then decode_ignore s else take k (c # s) @ decode_ignore (drop k (c # s)))"
  by pat_completeness auto
termination
  by (relation "measure length") auto

declare utf8_valid.simps [simp del]

text \<open>The first \<open>n\<close> characters of a decoded text.\<close>

fun first_chars :: "nat \<Rightarrow> string \<Rightarrow> string" where
  "first_chars 0 s = []"
| "first_chars (Suc n) s = (case s of [] \<Rightarrow> [] | c # _ \<Rightarrow> take (cp_len c) s @ first_chars n (drop (cp_len c) s))"

text \<open>
  The heuristics over the root directory. \<^term>\<open>files\<close> gives the bytes of a candidate that \<^verbatim>\<open>_safe_file\<close> accepts (a
  regular file whose resolved path lies inside the root); \<^term>\<open>loads\<close> is \<^verbatim>\<open>json.loads\<close>, with \<^term>\<open>None\<close> for a
  \<^verbatim>\<open>JSONDecodeError\<close>. What the code does not catch leaves the function.
\<close>

datatype detection_error = UnicodeDecodeError | NoAttributeGet | NotAMapping

definition detect_package_manager :: "(string \<Rightarrow> string option) \<Rightarrow> string option" where
  "detect_package_manager files = (let present = (\<lambda>f. files f \<noteq> None) in
     if present ''pnpm-lock.yaml'' then Some ''pnpm''
     else if present ''yarn.lock'' then Some ''yarn''
     else if present ''package-lock.json'' \<or> present ''package.json'' then Some ''npm''
     else if present ''poetry.lock'' then Some ''poetry''
     else if present ''requirements.txt'' \<or> present ''pyproject.toml'' then Some ''pip''
     else None)"

text \<open>\<^verbatim>\<open>data.get(key, {})\<close> spread into a dictionary display.\<close>

definition spread :: "string \<Rightarrow> (string \<times> pyval) list \<Rightarrow> detection_error + string list" where
  "spread key data = (case map_of data key of None \<Rightarrow> Inr [] | Some (PDict kvs) \<Rightarrow> Inr (map fst kvs) | Some _ \<Rightarrow> Inl NotAMapping)"

definition package_dependencies :: "(string \<Rightarrow> pyval option) \<Rightarrow> string \<Rightarrow> detection_error + string list" where
  "package_dependencies loads bytes =
     (if \<not> utf8_valid bytes then Inl UnicodeDecodeError
      else case (case loads bytes of None \<Rightarrow> PDict [] | Some v \<Rightarrow> v) of
        PDict data \<Rightarrow> bindR (spread ''dependencies'' data) (\<lambda>a. bindR (spread ''devDependencies'' data) (\<lambda>b. Inr (a @ b)))
      | _ \<Rightarrow> Inl NoAttributeGet)"

definition python_framework :: "unicode \<Rightarrow> (string \<Rightarrow> string option) \<Rightarrow> string" where
  "python_framework U files =
     (let text = (\<lambda>f. case files f of None \<Rightarrow> [] | Some bytes \<Rightarrow> decode_ignore bytes);
          lowered = u_lower U (text ''pyproject.toml'' @ text ''requirements.txt'') in
      if occurs_in ''fastapi'' lowered then ''FastAPI'' else if occurs_in ''django'' lowered then ''Django''
      else if occurs_in ''flask'' lowered then ''Flask'' else ''Unknown'')"

definition detect_framework :: "unicode \<Rightarrow> (string \<Rightarrow> pyval option) \<Rightarrow> (string \<Rightarrow> string option) \<Rightarrow> detection_error + string" where
  "detect_framework U loads files = bindR (case files ''package.json'' of None \<Rightarrow> Inr [] | Some bytes \<Rightarrow> package_dependencies loads bytes) (\<lambda>deps.
     Inr (if ''next'' \<in> set deps then ''Next.js'' else if ''react'' \<in> set deps then ''React'' else if ''vue'' \<in> set deps then ''Vue''
       else python_framework U files))"

definition entry_points :: "string list" where
  "entry_points = [''src/main.tsx'', ''src/main.ts'', ''src/App.tsx'', ''src/app.py'', ''app/main.py'', ''main.py'', ''index.js'', ''package.json'']"

definition detect_entry_point :: "(string \<Rightarrow> string option) \<Rightarrow> string option" where
  "detect_entry_point files = map_option (\<lambda>c. CHR ''/'' # c) (find (\<lambda>c. files c \<noteq> None) entry_points)"

definition detect_license :: "unicode \<Rightarrow> (string \<Rightarrow> string option) \<Rightarrow> string option" where
  "detect_license U files = (case find (\<lambda>c. files c \<noteq> None) [''LICENSE'', ''LICENSE.md'', ''COPYING''] of None \<Rightarrow> None
     | Some c \<Rightarrow> (let text = u_lower U (first_chars 500 (decode_ignore (the (files c)))) in
         Some (if occurs_in ''mit license'' text then ''MIT'' else if occurs_in ''apache license'' text then ''Apache-2.0''
           else if occurs_in ''gnu general public license'' text then ''GPL'' else ''Custom'')))"

text \<open>\<^verbatim>\<open>Counter(...).most_common(1)\<close>: the first of the most frequent.\<close>

definition most_common_language :: "string list \<Rightarrow> string option" where
  "most_common_language xs = (case dedup_by (\<lambda>x. x) [] xs of [] \<Rightarrow> None
     | ks \<Rightarrow> Some (hd (sort_key (\<lambda>k. - int (count_list xs k)) ks)))"

record repository_meta =
  rm_language :: string
  rm_framework :: string
  rm_total_files :: nat
  rm_total_folders :: nat
  rm_entry_point :: "string option"
  rm_config_files :: "string list"
  rm_package_manager :: "string option"
  rm_has_readme :: bool
  rm_license_name :: "string option"
  rm_skipped_symlinks :: "string list"

datatype parse_error = RepositoryFileLimitExceeded int int | DetectionFailed detection_error

definition parse_meta :: "unicode \<Rightarrow> (string \<Rightarrow> string option) \<Rightarrow> string \<Rightarrow> file_tree_node list \<Rightarrow> string list \<Rightarrow> repository_meta" where
  "parse_meta U files framework flat skipped =
     (let file_nodes = filter (\<lambda>n. tn_type n = ''file'') flat in
      \<lparr> rm_language = (case most_common_language (List.map_filter tn_language file_nodes) of None \<Rightarrow> ''Unknown'' | Some l \<Rightarrow> l),
        rm_framework = framework, rm_total_files = length file_nodes,
        rm_total_folders = length (filter (\<lambda>n. tn_type n = ''folder'') flat), rm_entry_point = detect_entry_point files,
        rm_config_files = map (\<lambda>n. dropWhile (\<lambda>c. c = CHR ''/'') (tn_path n)) (filter (\<lambda>n. tn_name n \<in> set CONFIG_FILES) file_nodes),
        rm_package_manager = detect_package_manager files,
        rm_has_readme = list_ex (\<lambda>n. startswith ''readme'' (u_lower U (tn_name n))) file_nodes,
        rm_license_name = detect_license U files, rm_skipped_symlinks = sort skipped \<rparr>)"

definition parse :: "unicode \<Rightarrow> (string list \<Rightarrow> string) \<Rightarrow> (string \<Rightarrow> pyval option) \<Rightarrow> (string \<Rightarrow> string option) \<Rightarrow> int option \<Rightarrow> entries
    \<Rightarrow> parse_error + (file_tree_node list \<times> repository_meta \<times> int)" where
  "parse U ids loads files max_file_count root =
     bindR (case max_file_count of None \<Rightarrow> Inr 0
       | Some mx \<Rightarrow> (case enforce_file_count mx 0 root of Inl (limit, seen) \<Rightarrow> Inl (RepositoryFileLimitExceeded limit seen) | Inr n \<Rightarrow> Inr n)) (\<lambda>_.
     case build_tree U ids [] root of (tree, skipped) \<Rightarrow>
       let flat = flatten tree in
       bindR (case detect_framework U loads files of Inl e \<Rightarrow> Inl (DetectionFailed e) | Inr f \<Rightarrow> Inr f) (\<lambda>framework.
         Inr (tree, parse_meta U files framework flat skipped,
           sum_list (map (\<lambda>n. case tn_size n of None \<Rightarrow> 0 | Some k \<Rightarrow> k) (filter (\<lambda>n. tn_type n = ''file'') flat)))))"

text \<open>\<^verbatim>\<open>node.model_dump(mode="json", by_alias=True, exclude_none=True)\<close>, as the JSON column keeps it.\<close>

function dump_node :: "file_tree_node \<Rightarrow> pyval" where
  "dump_node (FileTreeNode i name kind path children bytes extension language) =
     PDict ([(''id'', PStr i), (''name'', PStr name), (''type'', PStr kind), (''path'', PStr path)]
       @ (case children of None \<Rightarrow> [] | Some cs \<Rightarrow> [(''children'', PList (map dump_node cs))])
       @ (case bytes of None \<Rightarrow> [] | Some k \<Rightarrow> [(''size'', PInt k)])
       @ (case extension of None \<Rightarrow> [] | Some x \<Rightarrow> [(''extension'', PStr x)])
       @ (case language of None \<Rightarrow> [] | Some l \<Rightarrow> [(''language'', PStr l)]))"
  by pat_completeness auto
termination
  by (relation "measure size") (auto dest: option_child_size)


section \<open>The budget of a run\<close>

datatype stream_error =
    AnalysisResourceExceeded string int int
  | BadValue string
  | UnsafeSourcePath string string
  | Cancelled

record resource_budget =
  bu_max_source :: int
  bu_max_rss :: int
  bu_max_time :: int
  bu_source :: int
  bu_peak_rss :: int
  bu_started :: int

text \<open>\<^verbatim>\<open>__post_init__\<close>, with the reading of the clock it takes.\<close>

definition new_budget :: "int \<Rightarrow> int \<Rightarrow> int \<Rightarrow> int \<Rightarrow> stream_error + resource_budget" where
  "new_budget max_source max_rss max_time started =
     (if max_source \<le> 0 \<or> max_rss \<le> 0 \<or> max_time \<le> 0 then Inl (BadValue ''analysis resource budgets must be greater than zero'')
      else Inr \<lparr> bu_max_source = max_source, bu_max_rss = max_rss, bu_max_time = max_time, bu_source = 0, bu_peak_rss = 0,
        bu_started = started \<rparr>)"

text \<open>What the environment answers to the n-th check: the clock, the resident set and the cancellation callback.\<close>

record readings =
  rd_clock :: "nat \<Rightarrow> int"
  rd_rss :: "nat \<Rightarrow> int"
  rd_cancelled :: "nat \<Rightarrow> bool"

record stream_state =
  ss_budget :: resource_budget
  ss_calls :: nat
  ss_yielded :: "(string \<times> string) list"

type_synonym 'a stream_action = "(stream_state, stream_error, 'a) action"

definition check :: "readings \<Rightarrow> unit stream_action" where
  "check R s =
     (let b = ss_budget s; n = ss_calls s; elapsed = rd_clock R n - bu_started b; rss = rd_rss R n; s = s\<lparr>ss_calls := Suc n\<rparr> in
      if bu_max_time b < elapsed then (Inl (AnalysisResourceExceeded ''elapsed_seconds'' (bu_max_time b) elapsed), s)
      else let s = s\<lparr>ss_budget := b\<lparr>bu_peak_rss := max (bu_peak_rss b) rss\<rparr>\<rparr> in
        if bu_max_rss b < rss then (Inl (AnalysisResourceExceeded ''rss_bytes'' (bu_max_rss b) rss), s) else (Inr (), s))"

definition charge_source :: "readings \<Rightarrow> int \<Rightarrow> unit stream_action" where
  "charge_source R k s =
     (if k < 0 then (Inl (BadValue ''source size cannot be negative''), s)
      else let b = ss_budget s; observed = bu_source b + k in
        if bu_max_source b < observed then (Inl (AnalysisResourceExceeded ''source_bytes'' (bu_max_source b) observed), s)
        else check R (s\<lparr>ss_budget := b\<lparr>bu_source := observed\<rparr>\<rparr>))"

section \<open>The stream of sources\<close>

text \<open>\<^verbatim>\<open>str(value)\<close>; the parameter is Python's rendering of containers and other objects.\<close>

fun py_str :: "(pyval \<Rightarrow> string) \<Rightarrow> pyval \<Rightarrow> string" where
  "py_str R (PStr s) = s"
| "py_str R (PInt i) = show_int i"
| "py_str R (PBool b) = (if b then ''True'' else ''False'')"
| "py_str R (PFloat r) = r"
| "py_str R PNone = ''None''"
| "py_str R v = R v"

text \<open>\<^verbatim>\<open>_iter_file_paths\<close> over the persisted file tree.\<close>

definition own_path :: "(pyval \<Rightarrow> string) \<Rightarrow> (string \<times> pyval) list \<Rightarrow> string list" where
  "own_path R kvs = (case map_of kvs ''path'' of None \<Rightarrow> []
     | Some p \<Rightarrow> if map_of kvs ''type'' = Some (PStr ''file'') \<and> truthy p then [py_str R p] else [])"

lemma child_value_size: "map_of kvs k = Some (PList cs) \<Longrightarrow> c \<in> set cs \<Longrightarrow> size c < size (PDict kvs)"
  by (induction kvs) (auto split: if_splits dest: size_pyval_elem)

function node_paths :: "(pyval \<Rightarrow> string) \<Rightarrow> pyval \<Rightarrow> string list" where
  "node_paths R v = (case v of PDict kvs \<Rightarrow>
       own_path R kvs @ (case map_of kvs ''children'' of Some (PList cs) \<Rightarrow> concat (map (node_paths R) cs) | _ \<Rightarrow> [])
     | _ \<Rightarrow> [])"
  by pat_completeness auto
termination
  by (relation "measure (\<lambda>(R, v). size v)") (auto dest: child_value_size)

declare node_paths.simps [simp del]

definition iter_file_paths :: "(pyval \<Rightarrow> string) \<Rightarrow> pyval list \<Rightarrow> string list" where
  "iter_file_paths R nodes = concat (map (node_paths R) nodes)"

definition manifest_path :: "unicode \<Rightarrow> string \<Rightarrow> stream_error + string" where
  "manifest_path U raw =
     (case normalize_repo_path U (if startswith ''/'' raw \<and> \<not> startswith ''//'' raw then drop 1 raw else raw) of
        Inl e \<Rightarrow> Inl (UnsafeSourcePath ''escapes the repository root'' raw)
      | Inr p \<Rightarrow> if p = [] then Inl (UnsafeSourcePath ''must not be empty'' raw) else Inr p)"

definition manifest_paths :: "unicode \<Rightarrow> (pyval \<Rightarrow> string) \<Rightarrow> pyval list \<Rightarrow> stream_error + string list" where
  "manifest_paths U R nodes = bindR (mapR (manifest_path U) (iter_file_paths R nodes)) (\<lambda>ps. Inr (sort (remdups ps)))"

definition posix_parts :: "string \<Rightarrow> string list" where
  "posix_parts p = filter (\<lambda>c. c \<noteq> [] \<and> c \<noteq> ''.'') (split_char (CHR ''/'') p)"

definition stream_checkpoint :: "readings \<Rightarrow> unit stream_action" where
  "stream_checkpoint R s = (if rd_cancelled R (ss_calls s) then (Inl Cancelled, s) else check R s)"

definition yield_source :: "string \<Rightarrow> string \<Rightarrow> unit stream_action" where
  "yield_source path source s = (Inr (), s\<lparr>ss_yielded := ss_yielded s @ [(path, source)]\<rparr>)"

text \<open>The body of the loop of \<^verbatim>\<open>__iter__\<close>. A path with a null byte reaches \<^verbatim>\<open>os.open\<close>, which raises a \<^verbatim>\<open>ValueError\<close>.\<close>

definition stream_path :: "readings \<Rightarrow> entries \<Rightarrow> nat \<Rightarrow> string \<Rightarrow> unit stream_action" where
  "stream_path R root max_file_bytes path =
     bindS (stream_checkpoint R) (\<lambda>_.
     if through_link (Folder root) (posix_parts path) then raiseS (UnsafeSourcePath ''traverses a symlink'' path)
     else if CHR 0x00 \<in> set path then raiseS (BadValue ''embedded null byte'')
     else case open_entry (Folder root) (posix_parts path) of
       Missing \<Rightarrow> returnS ()
     | Refused \<Rightarrow> raiseS (UnsafeSourcePath ''could not safely open'' path)
     | Opened (RegularFile content) \<Rightarrow>
         bindS (charge_source R (int (length content))) (\<lambda>_.
         bindS (stream_checkpoint R) (\<lambda>_. yield_source path (take (Suc max_file_bytes) content)))
     | Opened _ \<Rightarrow> raiseS (UnsafeSourcePath ''is not a regular file'' path))"

definition stream_sources :: "unicode \<Rightarrow> (pyval \<Rightarrow> string) \<Rightarrow> readings \<Rightarrow> entries \<Rightarrow> pyval list \<Rightarrow> nat \<Rightarrow> unit stream_action" where
  "stream_sources U R rd root file_tree max_file_bytes =
     bindS (liftS (guardR (0 < max_file_bytes) (BadValue ''max_file_bytes must be greater than zero''))) (\<lambda>_.
     bindS (liftS (manifest_paths U R file_tree)) (forS (stream_path rd root max_file_bytes)))"


section \<open>What the stream gives out\<close>

definition file_at :: "entries \<Rightarrow> string \<Rightarrow> string option" where
  "file_at root p = (if through_link (Folder root) (posix_parts p) then None
     else case open_entry (Folder root) (posix_parts p) of Opened (RegularFile content) \<Rightarrow> Some content | _ \<Rightarrow> None)"

definition absent :: "entries \<Rightarrow> string \<Rightarrow> bool" where
  "absent root p \<longleftrightarrow> open_entry (Folder root) (posix_parts p) = Missing"

definition file_size :: "entries \<Rightarrow> string \<Rightarrow> int" where
  "file_size root p = (case file_at root p of None \<Rightarrow> 0 | Some content \<Rightarrow> int (length content))"

definition same_run :: "stream_state \<Rightarrow> stream_state \<Rightarrow> bool" where
  "same_run s s' \<longleftrightarrow> ss_yielded s' = ss_yielded s \<and> bu_source (ss_budget s') = bu_source (ss_budget s)
     \<and> bu_max_source (ss_budget s') = bu_max_source (ss_budget s)"

text \<open>From one state to the next the sources \<^term>\<open>ys\<close> were yielded and paid for.\<close>

definition progress :: "entries \<Rightarrow> (string \<times> string) list \<Rightarrow> stream_state \<Rightarrow> stream_state \<Rightarrow> bool" where
  "progress root ys s s' \<longleftrightarrow> ss_yielded s' = ss_yielded s @ ys \<and> bu_max_source (ss_budget s') = bu_max_source (ss_budget s)
     \<and> bu_source (ss_budget s) + sum_list (map (\<lambda>y. file_size root (fst y)) ys) \<le> bu_source (ss_budget s')
     \<and> (bu_source (ss_budget s) \<le> bu_max_source (ss_budget s) \<longrightarrow> bu_source (ss_budget s') \<le> bu_max_source (ss_budget s))"

lemma progress_refl: "same_run s s' \<Longrightarrow> progress root [] s s'"
  by (simp add: progress_def same_run_def)

lemma progress_trans: "progress root ys s s' \<Longrightarrow> progress root zs s' s'' \<Longrightarrow> progress root (ys @ zs) s s''"
  by (auto simp: progress_def)

lemma same_run_trans: "same_run s s' \<Longrightarrow> same_run s' s'' \<Longrightarrow> same_run s s''"
  by (simp add: same_run_def)

lemma check_same_run: "check R s = (r, s') \<Longrightarrow> same_run s s'"
  by (auto simp: check_def same_run_def Let_def split: if_splits)

lemma checkpoint_same_run: "stream_checkpoint R s = (r, s') \<Longrightarrow> same_run s s'"
  by (auto simp: stream_checkpoint_def same_run_def split: if_splits dest: check_same_run [unfolded same_run_def])

lemma charge_progress:
  assumes "charge_source R k s = (r, s')"
  shows "ss_yielded s' = ss_yielded s \<and> bu_max_source (ss_budget s') = bu_max_source (ss_budget s)
    \<and> bu_source (ss_budget s) \<le> bu_source (ss_budget s')
    \<and> (bu_source (ss_budget s) \<le> bu_max_source (ss_budget s) \<longrightarrow> bu_source (ss_budget s') \<le> bu_max_source (ss_budget s))
    \<and> (r = Inr () \<longrightarrow> bu_source (ss_budget s') = bu_source (ss_budget s) + k)"
proof (cases "k < 0 \<or> bu_max_source (ss_budget s) < bu_source (ss_budget s) + k")
  case True
  then show ?thesis using assms by (auto simp: charge_source_def Let_def split: if_splits)
next
  case False
  let ?s = "s\<lparr>ss_budget := (ss_budget s)\<lparr>bu_source := bu_source (ss_budget s) + k\<rparr>\<rparr>"
  have "check R ?s = (r, s')" using False assms by (simp add: charge_source_def Let_def)
  from check_same_run [OF this] show ?thesis using False by (simp add: same_run_def)
qed

text \<open>One path: nothing, or the file it names.\<close>

lemma stream_path_step:
  assumes "stream_path R root mx p s = (r, s')"
  obtains ys where "progress root ys s s'" "ys = [] \<or> (\<exists>content. ys = [(p, take (Suc mx) content)] \<and> file_at root p = Some content)"
    "r = Inr () \<Longrightarrow> ys = [] \<Longrightarrow> absent root p"
proof -
  obtain r1 s1 where cp: "stream_checkpoint R s = (r1, s1)" by (metis surj_pair)
  have frame1: "same_run s s1" using cp by (rule checkpoint_same_run)
  show thesis
  proof (cases "\<exists>content. r1 = Inr () \<and> CHR 0x00 \<notin> set p \<and> file_at root p = Some content")
    case True
    then obtain content where c: "r1 = Inr ()" "CHR 0x00 \<notin> set p" "file_at root p = Some content" by blast
    then have at: "\<not> through_link (Folder root) (posix_parts p)" "open_entry (Folder root) (posix_parts p) = Opened (RegularFile content)"
      by (auto simp: file_at_def split: if_splits open_result.splits entry.splits)
    obtain r2 s2 where ch: "charge_source R (int (length content)) s1 = (r2, s2)" by (metis surj_pair)
    obtain r3 s3 where cp3: "stream_checkpoint R s2 = (r3, s3)" by (metis surj_pair)
    have whole: "(r, s') = (case r2 of Inl e \<Rightarrow> (Inl e, s2) | Inr _ \<Rightarrow> (case r3 of Inl e \<Rightarrow> (Inl e, s3)
        | Inr _ \<Rightarrow> yield_source p (take (Suc mx) content) s3))"
      using assms cp c(1,2) at ch cp3 by (auto simp: stream_path_def bindS_def split: sum.splits prod.splits)
    note paid = charge_progress [OF ch] and frame3 = checkpoint_same_run [OF cp3]
    show thesis
    proof (cases "r2 = Inr () \<and> r3 = Inr ()")
      case True
      then have "r = Inr ()" and s': "s' = s3\<lparr>ss_yielded := ss_yielded s3 @ [(p, take (Suc mx) content)]\<rparr>"
        using whole by (auto simp: yield_source_def)
      have "progress root [(p, take (Suc mx) content)] s s'"
        using paid frame1 frame3 True c(3) by (auto simp: progress_def same_run_def s' file_size_def)
      then show thesis using c(3) by (intro that) auto
    next
      case False
      then have "(r, s') = (r, s2) \<or> s' = s3" and fail: "r \<noteq> Inr ()" using whole by (auto split: sum.splits)
      then have "progress root [] s s'" using paid frame1 frame3 by (auto simp: progress_def same_run_def)
      then show thesis using fail by (intro that) auto
    qed
  next
    case False
    then have "s' = s1 \<and> (r = Inr () \<longrightarrow> absent root p)"
      using assms cp by (auto simp: stream_path_def bindS_def returnS_def raiseS_def file_at_def absent_def
          split: sum.splits if_splits open_result.splits entry.splits)
    then show thesis using progress_refl [OF frame1] by (intro that) auto
  qed
qed

lemma stream_paths_run:
  assumes "forS (stream_path R root mx) ps s = (r, s')" and "sorted_wrt (<) ps"
  shows "\<exists>ys. progress root ys s s' \<and> sorted_wrt (<) (map fst ys) \<and> fst ` set ys \<subseteq> set ps
    \<and> (\<forall>(p, c) \<in> set ys. \<exists>content. file_at root p = Some content \<and> c = take (Suc mx) content)
    \<and> (r = Inr () \<longrightarrow> (\<forall>p \<in> set ps. p \<in> fst ` set ys \<or> absent root p))"
  using assms
proof (induction ps arbitrary: s)
  case Nil
  then show ?case by (intro exI [of _ "[]"]) (simp add: returnS_def progress_def)
next
  case (Cons p ps)
  obtain r1 s1 where first: "stream_path R root mx p s = (r1, s1)" by (metis surj_pair)
  obtain ys where ys: "progress root ys s s1" "ys = [] \<or> (\<exists>content. ys = [(p, take (Suc mx) content)] \<and> file_at root p = Some content)"
    "r1 = Inr () \<Longrightarrow> ys = [] \<Longrightarrow> absent root p"
    using stream_path_step [OF first] by blast
  show ?case
  proof (cases r1)
    case (Inl e)
    then have "r = Inl e" "s' = s1" using Cons.prems(1) first by (auto simp: bindS_def)
    then show ?thesis using ys by (intro exI [of _ ys]) auto
  next
    case (Inr u)
    then have rest: "forS (stream_path R root mx) ps s1 = (r, s')" using Cons.prems(1) first by (simp add: bindS_def)
    obtain zs where zs: "progress root zs s1 s'" "sorted_wrt (<) (map fst zs)" "fst ` set zs \<subseteq> set ps"
      "\<forall>(p, c) \<in> set zs. \<exists>content. file_at root p = Some content \<and> c = take (Suc mx) content"
      "r = Inr () \<longrightarrow> (\<forall>p \<in> set ps. p \<in> fst ` set zs \<or> absent root p)"
      using Cons.IH [OF rest] Cons.prems(2) by auto
    have "progress root (ys @ zs) s s'" using progress_trans ys(1) zs(1) by blast
    moreover have "sorted_wrt (<) (map fst (ys @ zs))"
      using ys(2) zs(2,3) Cons.prems(2) by (auto simp: image_subset_iff)
    ultimately show ?thesis using ys(2,3) zs(3,4,5) Inr by (intro exI [of _ "ys @ zs"]) auto
  qed
qed

text \<open>A manifest path stays inside the repository.\<close>

lemma manifest_paths_ok:
  assumes "manifest_paths U R nodes = Inr ps"
  shows "sorted_wrt (<) ps \<and> (\<forall>p \<in> set ps. repo_path p \<and> p \<noteq> [])"
proof -
  obtain qs where qs: "mapR (manifest_path U) (iter_file_paths R nodes) = Inr qs" "ps = sort (remdups qs)"
    using assms by (auto simp: manifest_paths_def result_simps)
  have "repo_path p \<and> p \<noteq> []" if "manifest_path U raw = Inr p" for raw p
  proof -
    from that obtain t where "normalize_repo_path U t = Inr p" "p \<noteq> []"
      unfolding manifest_path_def by (split sum.splits) (auto split: if_splits)
    then show ?thesis using normalize_repo_path_repo_path by blast
  qed
  then have "repo_path p \<and> p \<noteq> []" if "p \<in> set qs" for p
    using that unfolding mapR_Inr_set [OF qs(1)] by blast
  moreover have "sorted_wrt (<) ps" using qs(2) by (simp add: strict_sorted_iff)
  ultimately show ?thesis using qs(2) by simp
qed


section \<open>Catalogue and stream together\<close>

text \<open>The regular files the parser should find: not passed over and not behind a link.\<close>

function catalogued_child :: "string list \<Rightarrow> string \<Rightarrow> entry \<Rightarrow> (string list \<times> string) list" where
  "catalogued_child parts name e = (if passed_over name then [] else case e of
      RegularFile content \<Rightarrow> [(parts @ [name], content)]
    | Folder es \<Rightarrow> concat (map (\<lambda>(n, c). catalogued_child (parts @ [name]) n c) es)
    | _ \<Rightarrow> [])"
  by pat_completeness auto
termination
  by (relation "measure (\<lambda>(parts, name, e). size e)") (auto dest: child_size)

declare catalogued_child.simps [simp del]

definition catalogued :: "entries \<Rightarrow> (string list \<times> string) list" where
  "catalogued root = concat (map (\<lambda>(n, c). catalogued_child [] n c) root)"

text \<open>No directory has two entries of one name.\<close>

function proper_tree :: "entry \<Rightarrow> bool" where
  "proper_tree e = (case e of Folder es \<Rightarrow> distinct (map fst es) \<and> list_all (\<lambda>(n, c). proper_tree c) es | _ \<Rightarrow> True)"
  by pat_completeness auto
termination
  by (relation "measure size") (auto dest: child_size)

declare proper_tree.simps [simp del]

text \<open>A path that the stream finds again under the name the parser gave it.\<close>

definition streamable :: "unicode \<Rightarrow> string list \<Rightarrow> bool" where
  "streamable U ps \<longleftrightarrow> (\<forall>n \<in> set ps. plain_segment n \<and> is_nfc U n \<and> CHR 0x00 \<notin> set n) \<and> \<not> has_drive U (join ''/'' ps)"

definition file_nodes :: "file_tree_node list \<Rightarrow> file_tree_node list" where
  "file_nodes tree = filter (\<lambda>n. tn_type n = ''file'') (flatten tree)"

lemma flatten_append: "flatten (xs @ ys) = flatten xs @ flatten ys"
  by (induction xs) auto

lemma file_nodes_concat: "file_nodes (concat xss) = concat (map file_nodes xss)"
  by (induction xss) (simp_all add: file_nodes_def flatten_append)

lemma file_nodes_folder: "file_nodes [FileTreeNode i name ''folder'' p (Some cs) a b c] = file_nodes cs"
  by (simp add: file_nodes_def)

lemma mset_concat_cong:
  "mset xs' = mset xs \<Longrightarrow> (\<And>x. x \<in> set xs \<Longrightarrow> mset (f x) = mset (g x)) \<Longrightarrow> mset (concat (map f xs')) = mset (concat (map g xs))"
proof -
  assume eq: "mset xs' = mset xs" and fg: "\<And>x. x \<in> set xs \<Longrightarrow> mset (f x) = mset (g x)"
  have "mset (concat (map f xs')) = \<Sum>\<^sub># (image_mset (\<lambda>x. mset (f x)) (mset xs'))"
    by (simp add: mset_concat comp_def flip: mset_map sum_mset_sum_list)
  also have "\<dots> = \<Sum>\<^sub># (image_mset (\<lambda>x. mset (g x)) (mset xs))" unfolding eq by (intro arg_cong [of _ _ "\<Sum>\<^sub>#"] image_mset_cong) (simp add: fg)
  also have "\<dots> = mset (concat (map g xs))" by (simp add: mset_concat comp_def flip: mset_map sum_mset_sum_list)
  finally show ?thesis .
qed

definition node_place :: "file_tree_node \<Rightarrow> string \<times> int option" where
  "node_place n = (tn_path n, tn_size n)"

definition file_place :: "string list \<times> string \<Rightarrow> string \<times> int option" where
  "file_place = (\<lambda>(ps, content). (relative_path ps, Some (int (length content))))"

lemma node_paths_folder: "node_paths R (dump_node (FileTreeNode i name ''folder'' p (Some cs) a b c)) = concat (map (node_paths R) (map dump_node cs))"
  by (simp add: node_paths.simps [of R "PDict _"] own_path_def split: option.splits)

lemma node_paths_file: "node_paths R (dump_node (FileTreeNode i name ''file'' (CHR ''/'' # p) None a b c)) = [CHR ''/'' # p]"
  by (simp add: node_paths.simps [of R "PDict _"] own_path_def split: option.splits)

lemma build_child_nodes:
  "concat (map (node_paths R) (map dump_node (fst (build_child U ids parts name e)))) = map tn_path (file_nodes (fst (build_child U ids parts name e)))
   \<and> mset (map node_place (file_nodes (fst (build_child U ids parts name e)))) = mset (map file_place (catalogued_child parts name e))"
proof (induction U ids parts name e rule: build_child.induct)
  case (1 U ids parts name e)
  note unfold = build_child.simps [of U ids parts name e] catalogued_child.simps [of parts name e]
  show ?case
  proof (cases "passed_over name")
    case True
    then show ?thesis by (simp add: unfold file_nodes_def)
  next
    case False
    show ?thesis
    proof (cases e)
      case (Folder es)
      let ?b = "\<lambda>(n, c). build_child U ids (parts @ [name]) n c"
      let ?cs = "concat (map (\<lambda>x. fst (?b x)) (sort_key (child_order U) es))"
      have node: "fst (build_child U ids parts name e) = [FileTreeNode (ids (parts @ [name])) name ''folder''
          (relative_path (parts @ [name])) (Some ?cs) None None None]"
        unfolding unfold using False Folder by (simp add: gather_def comp_def)
      have files: "file_nodes (fst (build_child U ids parts name e)) = concat (map (\<lambda>x. file_nodes (fst (?b x))) (sort_key (child_order U) es))"
        by (simp add: node file_nodes_folder file_nodes_concat comp_def)
      have IH: "concat (map (node_paths R) (map dump_node (fst (?b x)))) = map tn_path (file_nodes (fst (?b x)))"
        "mset (map node_place (file_nodes (fst (?b x)))) = mset (map file_place ((\<lambda>(n, c). catalogued_child (parts @ [name]) n c) x))"
        if "x \<in> set es" for x
        using 1 [OF False Folder, of x "fst x" "snd x"] that by (simp_all add: case_prod_beta)
      have paths: "concat (map (node_paths R) (map dump_node (fst (build_child U ids parts name e)))) = concat (map (node_paths R) (map dump_node ?cs))"
        by (simp only: node list.map concat.simps node_paths_folder append_Nil2)
      have found: "catalogued_child parts name e = concat (map (\<lambda>(n, c). catalogued_child (parts @ [name]) n c) es)"
        unfolding unfold using False Folder by simp
      have walk: "concat (map (node_paths R) (map dump_node (concat (map (\<lambda>x. fst (?b x)) xs)))) = map tn_path (concat (map (\<lambda>x. file_nodes (fst (?b x))) xs))"
        if "set xs \<subseteq> set es" for xs
        using that by (induction xs) (simp_all add: IH(1) del: map_map)
      have places: "mset (concat (map (\<lambda>x. map node_place (file_nodes (fst (?b x)))) (sort_key (child_order U) es)))
          = mset (concat (map (\<lambda>x. map file_place ((\<lambda>(n, c). catalogued_child (parts @ [name]) n c) x)) es))"
        by (rule mset_concat_cong, simp, rule IH(2))
      show ?thesis
      proof (intro conjI)
        show "concat (map (node_paths R) (map dump_node (fst (build_child U ids parts name e)))) = map tn_path (file_nodes (fst (build_child U ids parts name e)))"
          unfolding paths files by (rule walk) simp
        show "mset (map node_place (file_nodes (fst (build_child U ids parts name e)))) = mset (map file_place (catalogued_child parts name e))"
          unfolding files found map_concat map_map comp_def by (rule places)
      qed
    qed (unfold unfold, insert False, simp_all add: file_nodes_def file_node_def Let_def node_paths_file node_place_def file_place_def relative_path_def del: dump_node.simps)
  qed
qed


lemma build_tree_nodes:
  "iter_file_paths R (map dump_node (fst (build_tree U ids [] root))) = map tn_path (file_nodes (fst (build_tree U ids [] root)))"
  "mset (map node_place (file_nodes (fst (build_tree U ids [] root)))) = mset (map file_place (catalogued root))"
proof -
  let ?b = "\<lambda>(n, c). build_child U ids [] n c"
  have tree: "fst (build_tree U ids [] root) = concat (map (\<lambda>x. fst (?b x)) (sort_key (child_order U) root))"
    by (simp add: build_tree_def gather_def comp_def)
  have "concat (map (node_paths R) (map dump_node (concat (map (\<lambda>x. fst (?b x)) xs)))) = map tn_path (file_nodes (concat (map (\<lambda>x. fst (?b x)) xs)))" for xs
  proof (induction xs)
    case (Cons x xs)
    then show ?case using build_child_nodes [of R U ids "[]" "fst x" "snd x"]
      by (simp add: case_prod_beta file_nodes_def flatten_append)
  qed (simp add: file_nodes_def)
  then show "iter_file_paths R (map dump_node (fst (build_tree U ids [] root))) = map tn_path (file_nodes (fst (build_tree U ids [] root)))"
    by (simp only: iter_file_paths_def tree)
  have "mset (concat (map (\<lambda>x. map node_place (file_nodes (fst (?b x)))) (sort_key (child_order U) root)))
      = mset (concat (map (\<lambda>x. map file_place ((\<lambda>(n, c). catalogued_child [] n c) x)) root))"
    by (rule mset_concat_cong, simp, use build_child_nodes [of undefined U ids "[]"] in \<open>simp add: case_prod_beta\<close>)
  then show "mset (map node_place (file_nodes (fst (build_tree U ids [] root)))) = mset (map file_place (catalogued root))"
    by (simp only: tree file_nodes_concat catalogued_def map_concat map_map comp_def)
qed

text \<open>A catalogued file is found again at its place.\<close>

lemma catalogued_child_at:
  "(ps, content) \<in> set (catalogued_child parts name e) \<Longrightarrow> proper_tree e \<Longrightarrow>
     \<exists>rs. ps = parts @ name # rs \<and> open_entry e rs = Opened (RegularFile content) \<and> \<not> through_link e rs"
proof (induction parts name e arbitrary: ps rule: catalogued_child.induct)
  case (1 parts name e)
  from 1(2) have seen: "\<not> passed_over name" unfolding catalogued_child.simps [of parts name e] by (auto split: if_splits)
  show ?case
  proof (cases e)
    case (RegularFile b)
    with 1(2) seen show ?thesis unfolding catalogued_child.simps [of parts name e] by simp
  next
    case (Folder es)
    then obtain n c where c: "(n, c) \<in> set es" "(ps, content) \<in> set (catalogued_child (parts @ [name]) n c)"
      using 1(2) seen unfolding catalogued_child.simps [of parts name e] by auto
    have dir: "distinct (map fst es)" "proper_tree c"
      using 1(3) c(1) Folder unfolding proper_tree.simps [of e] by (auto simp: list_all_iff)
    obtain rs where rs: "ps = (parts @ [name]) @ n # rs" "open_entry c rs = Opened (RegularFile content)" "\<not> through_link c rs"
      using 1(1) [OF seen Folder c(1) refl c(2) dir(2)] by blast
    have "map_of es n = Some c" using dir(1) c(1) by simp
    then show ?thesis using rs Folder by simp
  qed (insert 1(2) seen, unfold catalogued_child.simps [of parts name e], simp_all)
qed

lemma catalogued_at:
  assumes "(ps, content) \<in> set (catalogued root)" and "proper_tree (Folder root)"
  shows "open_entry (Folder root) ps = Opened (RegularFile content)" "\<not> through_link (Folder root) ps" "ps \<noteq> []"
proof -
  obtain n c where c: "(n, c) \<in> set root" "(ps, content) \<in> set (catalogued_child [] n c)"
    using assms(1) by (auto simp: catalogued_def)
  have dir: "distinct (map fst root)" "proper_tree c"
    using assms(2) c(1) unfolding proper_tree.simps [of "Folder root"] by (auto simp: list_all_iff)
  obtain rs where rs: "ps = n # rs" "open_entry c rs = Opened (RegularFile content)" "\<not> through_link c rs"
    using catalogued_child_at [OF c(2) dir(2)] by auto
  have "map_of root n = Some c" using dir(1) c(1) by simp
  then show "open_entry (Folder root) ps = Opened (RegularFile content)" "\<not> through_link (Folder root) ps" "ps \<noteq> []"
    using rs by simp_all
qed

lemma streamable_parts:
  assumes "streamable U ps" and "ps \<noteq> []"
  shows "posix_parts (join ''/'' ps) = ps" "relative_path ps = CHR ''/'' # join ''/'' ps" "CHR 0x00 \<notin> set (join ''/'' ps)"
    "repo_path (join ''/'' ps)" "join ''/'' ps \<noteq> []" "\<not> startswith ''/'' (join ''/'' ps)"
proof -
  have plain: "\<forall>n \<in> set ps. plain_segment n" and nul: "\<forall>n \<in> set ps. CHR 0x00 \<notin> set n"
    using assms(1) by (simp_all add: streamable_def)
  show "posix_parts (join ''/'' ps) = ps"
    using plain assms(2) by (simp add: posix_parts_def plain_join_split plain_segment_def)
  show repo: "repo_path (join ''/'' ps)" using plain by (rule repo_path_join)
  show "relative_path ps = CHR ''/'' # join ''/'' ps"
    using repo_path_no_backslash [OF repo] by (simp add: relative_path_def replace_char_id)
  show "CHR 0x00 \<notin> set (join ''/'' ps)" using set_join [of "''/''" ps] nul by auto
  show "join ''/'' ps \<noteq> []" using plain assms(2) by (cases ps rule: remdups_adj.cases) (auto simp: plain_segment_def)
  show "\<not> startswith ''/'' (join ''/'' ps)" using repo by (rule repo_path_no_leading_slash)
qed

lemma manifest_path_streamable:
  assumes "unicode_ok U" and "streamable U ps" and "ps \<noteq> []"
  shows "manifest_path U (relative_path ps) = Inr (join ''/'' ps)"
proof -
  note parts = streamable_parts [OF assms(2,3)]
  have "is_nfc U (join ''/'' ps)"
    using is_nfc_join [OF assms(3) unicode_okD(3) [OF assms(1)]] assms(2) by (simp add: streamable_def)
  then have "normalize_repo_path U (join ''/'' ps) = Inr (join ''/'' ps)"
    using parts(4) assms(2) by (intro normalize_repo_path_id) (simp_all add: is_nfc_def streamable_def)
  moreover have "\<not> startswith ''//'' (relative_path ps)" "startswith ''/'' (relative_path ps)" "drop 1 (relative_path ps) = join ''/'' ps"
    using parts(5,6) by (cases "join ''/'' ps"; simp add: parts(2))+
  ultimately show ?thesis using parts(5) by (simp add: manifest_path_def)
qed


text \<open>A run that is neither cancelled nor slow nor large, whenever it is asked.\<close>

definition roomy :: "readings \<Rightarrow> resource_budget \<Rightarrow> bool" where
  "roomy rd b \<longleftrightarrow> (\<forall>n. \<not> rd_cancelled rd n \<and> rd_clock rd n - bu_started b \<le> bu_max_time b \<and> rd_rss rd n \<le> bu_max_rss b)"

lemma roomy_check:
  assumes "roomy rd (ss_budget s)"
  obtains s' where "check rd s = (Inr (), s')" "same_run s s'" "roomy rd (ss_budget s')"
proof -
  have "\<not> bu_max_time (ss_budget s) < rd_clock rd (ss_calls s) - bu_started (ss_budget s)" "\<not> bu_max_rss (ss_budget s) < rd_rss rd (ss_calls s)"
    using assms by (simp_all add: roomy_def not_less)
  then have "\<exists>s'. check rd s = (Inr (), s') \<and> roomy rd (ss_budget s')" using assms by (simp add: check_def roomy_def Let_def)
  then show thesis using that check_same_run by blast
qed

lemma roomy_checkpoint:
  assumes "roomy rd (ss_budget s)"
  obtains s' where "stream_checkpoint rd s = (Inr (), s')" "same_run s s'" "roomy rd (ss_budget s')"
  using roomy_check [OF assms] assms by (metis stream_checkpoint_def roomy_def)

lemma roomy_charge:
  assumes "roomy rd (ss_budget s)" and "0 \<le> k" and "bu_source (ss_budget s) + k \<le> bu_max_source (ss_budget s)"
  obtains s' where "charge_source rd k s = (Inr (), s')" "roomy rd (ss_budget s')" "bu_source (ss_budget s') = bu_source (ss_budget s) + k"
    "bu_max_source (ss_budget s') = bu_max_source (ss_budget s)"
proof -
  let ?s = "s\<lparr>ss_budget := (ss_budget s)\<lparr>bu_source := bu_source (ss_budget s) + k\<rparr>\<rparr>"
  have "roomy rd (ss_budget ?s)" using assms(1) by (simp add: roomy_def)
  then obtain s' where "check rd ?s = (Inr (), s')" "same_run ?s s'" "roomy rd (ss_budget s')" by (rule roomy_check)
  then show thesis using assms(2,3) by (intro that [of s']) (simp_all add: charge_source_def Let_def same_run_def)
qed

lemma stream_path_ok:
  assumes "roomy rd (ss_budget s)" and "file_at root p = Some content" and "CHR 0x00 \<notin> set p"
    and "bu_source (ss_budget s) + file_size root p \<le> bu_max_source (ss_budget s)"
  obtains s' where "stream_path rd root mx p s = (Inr (), s')" "roomy rd (ss_budget s')"
    "bu_source (ss_budget s') = bu_source (ss_budget s) + file_size root p" "bu_max_source (ss_budget s') = bu_max_source (ss_budget s)"
proof -
  have at: "\<not> through_link (Folder root) (posix_parts p)" "open_entry (Folder root) (posix_parts p) = Opened (RegularFile content)"
    using assms(2) by (auto simp: file_at_def split: if_splits open_result.splits entry.splits)
  obtain s1 where s1: "stream_checkpoint rd s = (Inr (), s1)" "same_run s s1" "roomy rd (ss_budget s1)" using assms(1) by (rule roomy_checkpoint)
  have "bu_source (ss_budget s1) + int (length content) \<le> bu_max_source (ss_budget s1)"
    using assms(2,4) s1(2) by (simp add: same_run_def file_size_def)
  then obtain s2 where s2: "charge_source rd (int (length content)) s1 = (Inr (), s2)" "roomy rd (ss_budget s2)"
      "bu_source (ss_budget s2) = bu_source (ss_budget s1) + int (length content)" "bu_max_source (ss_budget s2) = bu_max_source (ss_budget s1)"
    using roomy_charge [OF s1(3), of "int (length content)"] by auto
  obtain s3 where s3: "stream_checkpoint rd s2 = (Inr (), s3)" "same_run s2 s3" "roomy rd (ss_budget s3)" using s2(2) by (rule roomy_checkpoint)
  have "stream_path rd root mx p s = (Inr (), s3\<lparr>ss_yielded := ss_yielded s3 @ [(p, take (Suc mx) content)]\<rparr>)"
    using at assms(3) s1(1) s2(1) s3(1) by (simp add: stream_path_def bindS_def yield_source_def)
  then show thesis using assms(2) s1(2) s2(3,4) s3(2,3) by (intro that [of "s3\<lparr>ss_yielded := ss_yielded s3 @ [(p, take (Suc mx) content)]\<rparr>"])
      (auto simp: same_run_def file_size_def)
qed

lemma stream_paths_ok:
  assumes "roomy rd (ss_budget s)" and "\<forall>p \<in> set ps. (\<exists>content. file_at root p = Some content) \<and> CHR 0x00 \<notin> set p"
    and "bu_source (ss_budget s) + sum_list (map (file_size root) ps) \<le> bu_max_source (ss_budget s)"
  shows "\<exists>s'. forS (stream_path rd root mx) ps s = (Inr (), s')"
  using assms
proof (induction ps arbitrary: s)
  case (Cons p ps)
  have "0 \<le> sum_list (map (file_size root) ps)"
    by (rule sum_list_nonneg) (auto simp: file_size_def split: option.splits)
  then have "bu_source (ss_budget s) + file_size root p \<le> bu_max_source (ss_budget s)" using Cons.prems(3) by simp
  moreover obtain content where "file_at root p = Some content" "CHR 0x00 \<notin> set p" using Cons.prems(2) by auto
  ultimately obtain s1 where s1: "stream_path rd root mx p s = (Inr (), s1)" "roomy rd (ss_budget s1)"
      "bu_source (ss_budget s1) = bu_source (ss_budget s) + file_size root p" "bu_max_source (ss_budget s1) = bu_max_source (ss_budget s)"
    using stream_path_ok [OF Cons.prems(1)] by metis
  have "\<exists>s'. forS (stream_path rd root mx) ps s1 = (Inr (), s')"
    using Cons.prems(2,3) s1(2,3,4) by (intro Cons.IH) simp_all
  then show ?case using s1(1) by (simp add: bindS_def)
qed (simp add: returnS_def)

lemma sum_list_mset: "mset xs = mset ys \<Longrightarrow> sum_list (map f xs) = sum_list (map f ys)" for f :: "'a \<Rightarrow> int"
  by (metis mset_map sum_mset_sum_list)

lemma sum_list_remdups_le:
  "(\<And>x. x \<in> set xs \<Longrightarrow> 0 \<le> f x) \<Longrightarrow> sum_list (map f (remdups xs)) \<le> sum_list (map f xs)" for f :: "'a \<Rightarrow> int"
proof (induction xs)
  case (Cons x xs)
  have "0 \<le> f x" "sum_list (map f (remdups xs)) \<le> sum_list (map f xs)" using Cons by simp_all
  then show ?case by simp
qed simp

text \<open>Number and size of the catalogued files.\<close>

lemma catalogue_totals:
  assumes "parse U ids loads files limit root = Inr (tree, meta, bytes)"
  shows "tree = fst (build_tree U ids [] root)" "rm_total_files meta = length (catalogued root)"
    "bytes = sum_list (map (\<lambda>x. int (length (snd x))) (catalogued root))"
proof -
  show tree: "tree = fst (build_tree U ids [] root)"
    using assms by (auto simp: parse_def result_simps Let_def split: prod.splits)
  have meta: "rm_total_files meta = length (file_nodes tree)"
    and bytes: "bytes = sum_list (map (\<lambda>n. case tn_size n of None \<Rightarrow> 0 | Some k \<Rightarrow> k) (file_nodes tree))"
    using assms by (auto simp: parse_def parse_meta_def file_nodes_def result_simps Let_def split: prod.splits)
  let ?key = "\<lambda>(p, k). case k of None \<Rightarrow> 0 | Some k \<Rightarrow> (k :: int)"
  note places = build_tree_nodes(2) [of U ids root, folded tree]
  show "rm_total_files meta = length (catalogued root)" using mset_eq_length [OF places] meta by simp
  have "sum_list (map ?key (map node_place (file_nodes tree))) = sum_list (map ?key (map file_place (catalogued root)))"
    by (rule sum_list_mset [OF places])
  then show "bytes = sum_list (map (\<lambda>x. int (length (snd x))) (catalogued root))"
    by (simp add: bytes node_place_def file_place_def comp_def case_prod_beta)
qed

text \<open>Every catalogued file is where its path says.\<close>

lemma catalogued_found:
  assumes "\<forall>(ps, content) \<in> set (catalogued root). streamable U ps" and "proper_tree (Folder root)" and "(qs, content) \<in> set (catalogued root)"
  shows "file_at root (join ''/'' qs) = Some content \<and> CHR 0x00 \<notin> set (join ''/'' qs)"
proof -
  note at = catalogued_at [OF assms(3,2)]
  have "streamable U qs" using assms(1,3) by blast
  note parts = streamable_parts [OF this at(3)]
  show ?thesis using at(1,2) parts(3) by (simp add: file_at_def parts(1))
qed

text \<open>The manifest of a persisted tree is the catalogue.\<close>

lemma manifest_of_tree:
  assumes "unicode_ok U" and "proper_tree (Folder root)" and "\<forall>(ps, content) \<in> set (catalogued root). streamable U ps"
  obtains ps where "manifest_paths U R (map dump_node (fst (build_tree U ids [] root))) = Inr (sort (remdups ps))"
    "mset ps = mset (map (\<lambda>x. join ''/'' (fst x)) (catalogued root))"
proof -
  define qs where "qs = iter_file_paths R (map dump_node (fst (build_tree U ids [] root)))"
  have "mset (map fst (map node_place (file_nodes (fst (build_tree U ids [] root))))) = mset (map fst (map file_place (catalogued root)))"
    using build_tree_nodes(2) by (simp only: mset_map)
  then have qs: "mset qs = mset (map (\<lambda>x. relative_path (fst x)) (catalogued root))"
    by (simp add: qs_def build_tree_nodes(1) node_place_def file_place_def comp_def case_prod_beta)
  have "mapR (manifest_path U) (map (\<lambda>x. relative_path (fst x)) (catalogued root)) = Inr (map (\<lambda>x. join ''/'' (fst x)) (catalogued root))"
    unfolding mapR_Inr list_all2_map1 list_all2_map2
    using assms(3) catalogued_at(3) [OF _ assms(2)] manifest_path_streamable [OF assms(1)] by (auto simp: list_all2_same)
  then obtain ps where "mapR (manifest_path U) qs = Inr ps" "mset ps = mset (map (\<lambda>x. join ''/'' (fst x)) (catalogued root))"
    using mapR_perm qs by blast
  then show thesis using that by (simp add: manifest_paths_def qs_def)
qed

text \<open>Its files cost at most what the parser added up.\<close>

lemma catalogue_cost:
  assumes "mset ps = mset (map (\<lambda>x. join ''/'' (fst x)) (catalogued root))"
    and "\<And>qs content. (qs, content) \<in> set (catalogued root) \<Longrightarrow> file_at root (join ''/'' qs) = Some content"
  shows "sum_list (map (file_size root) (sort (remdups ps))) \<le> sum_list (map (\<lambda>x. int (length (snd x))) (catalogued root))"
proof -
  have "sum_list (map (file_size root) (sort (remdups ps))) = sum_list (map (file_size root) (remdups ps))"
    by (rule sum_list_mset) simp
  also have "\<dots> \<le> sum_list (map (file_size root) ps)"
    by (rule sum_list_remdups_le) (simp add: file_size_def split: option.splits)
  also have "\<dots> = sum_list (map (file_size root) (map (\<lambda>x. join ''/'' (fst x)) (catalogued root)))"
    using assms(1) by (rule sum_list_mset)
  also have "\<dots> = sum_list (map (\<lambda>x. int (length (snd x))) (catalogued root))"
    unfolding map_map by (intro arg_cong [of _ _ sum_list] map_cong) (auto simp: file_size_def assms(2))
  finally show ?thesis .
qed

lemma yields_exactly:
  assumes "fst ` set ys \<subseteq> set P" and "\<forall>(p, c) \<in> set ys. \<exists>content. file_at root p = Some content \<and> c = take n content"
    and "\<forall>p \<in> set P. p \<in> fst ` set ys \<or> absent root p"
    and "set P = (\<lambda>x. f (fst x)) ` C" and "\<And>q content. (q, content) \<in> C \<Longrightarrow> file_at root (f q) = Some content"
  shows "set ys = {(f q, take n content) | q content. (q, content) \<in> C}"
proof (intro set_eqI iffI)
  fix y assume y: "y \<in> set ys"
  then obtain q content where q: "(q, content) \<in> C" "fst y = f q" using assms(1,4) by force
  then show "y \<in> {(f q, take n content) | q content. (q, content) \<in> C}" using assms(2,5) y by (cases y) fastforce
next
  fix y assume "y \<in> {(f q, take n content) | q content. (q, content) \<in> C}"
  then obtain q content where q: "(q, content) \<in> C" "y = (f q, take n content)" by blast
  have at: "file_at root (f q) = Some content" using assms(5) q(1) .
  then have "\<not> absent root (f q)" by (auto simp: file_at_def absent_def split: if_splits)
  moreover have "f q \<in> set P" using assms(4) q(1) by force
  ultimately obtain c where c: "(f q, c) \<in> set ys" using assms(3) by force
  with assms(2) at have "c = take n content" by fastforce
  with c q(2) show "y \<in> set ys" by simp
qed

section \<open>Properties\<close>

text \<open>
  C26: Whatever the persisted file tree says and whenever the stream is stopped, by the budget, a cancellation or an unsafe path, what it has given
  out until then are, in strictly increasing order and hence never twice, repository-relative paths, each with the bytes of a regular file that is reached through no
  symbolic link, cut one byte above the limit; the sizes of these files together stay within the source budget. If it runs to its end,
  every path of the file tree was given out or names nothing.
\<close>

theorem stream_safe:
  assumes run: "stream_sources U R rd root tree mx s = (r, s')" and start: "ss_yielded s = []" "bu_source (ss_budget s) = 0" "0 < bu_max_source (ss_budget s)"
  shows "sorted_wrt (<) (map fst (ss_yielded s'))
    \<and> (\<forall>(p, source) \<in> set (ss_yielded s'). repo_path p \<and> p \<noteq> [] \<and> (\<exists>content. file_at root p = Some content \<and> source = take (Suc mx) content))
    \<and> sum_list (map (\<lambda>y. file_size root (fst y)) (ss_yielded s')) \<le> bu_max_source (ss_budget s)
    \<and> (r = Inr () \<longrightarrow> (\<exists>ps. manifest_paths U R tree = Inr ps \<and> (\<forall>p \<in> set ps. p \<in> fst ` set (ss_yielded s') \<or> absent root p)))"
proof (cases "\<exists>ps. 0 < mx \<and> manifest_paths U R tree = Inr ps")
  case False
  then have "s' = s" "r \<noteq> Inr ()"
    using run by (auto simp: stream_sources_def bindS_def liftS_def guardR_def split: if_splits sum.splits)
  then show ?thesis using start by simp
next
  case True
  then obtain ps where ps: "0 < mx" "manifest_paths U R tree = Inr ps" by blast
  then have loop: "forS (stream_path rd root mx) ps s = (r, s')"
    using run by (simp add: stream_sources_def bindS_def liftS_def guardR_def)
  have sorted: "sorted_wrt (<) ps" "\<forall>p \<in> set ps. repo_path p \<and> p \<noteq> []" using manifest_paths_ok [OF ps(2)] by simp_all
  obtain ys where ys: "progress root ys s s'" "sorted_wrt (<) (map fst ys)" "fst ` set ys \<subseteq> set ps"
    "\<forall>(p, c) \<in> set ys. \<exists>content. file_at root p = Some content \<and> c = take (Suc mx) content"
    "r = Inr () \<longrightarrow> (\<forall>p \<in> set ps. p \<in> fst ` set ys \<or> absent root p)"
    using stream_paths_run [OF loop sorted(1)] by blast
  have out: "ss_yielded s' = ys" "sum_list (map (\<lambda>y. file_size root (fst y)) ys) \<le> bu_source (ss_budget s')"
      "bu_source (ss_budget s') \<le> bu_max_source (ss_budget s)"
    using ys(1) start by (simp_all add: progress_def case_prod_beta)
  have paid: "sum_list (map (\<lambda>y. file_size root (fst y)) ys) \<le> bu_max_source (ss_budget s)" using out(2,3) by (rule order.trans)
  have "repo_path p \<and> p \<noteq> []" if "(p, source) \<in> set ys" for p source
  proof -
    have "p \<in> set ps" using ys(3) imageI [OF that, of fst] by auto
    then show ?thesis using sorted(2) by blast
  qed
  then have "\<forall>(p, source) \<in> set ys. repo_path p \<and> p \<noteq> [] \<and> (\<exists>content. file_at root p = Some content \<and> source = take (Suc mx) content)"
    using ys(4) by blast
  then show ?thesis unfolding out(1) using ys(2,5) paid ps(2) by (intro conjI impI exI [of _ ps]) simp_all
qed




lemma enforce_file_count_exact:
  "n \<le> mx \<Longrightarrow> enforce_file_count mx n es =
     (let k = n + int (length (concat (map (\<lambda>(n, c). catalogued_child parts n c) es))) in if k \<le> mx then Inr k else Inl (mx, mx + 1))"
proof (induction mx n es arbitrary: parts rule: enforce_file_count.induct)
  case (1 mx n)
  then show ?case by (simp add: Let_def)
next
  case (2 mx n name e es)
  let ?rest = "\<lambda>n. enforce_file_count mx n es"
  let ?len = "\<lambda>parts es. int (length (concat (map (\<lambda>(n, c). catalogued_child parts n c) es)))"
  show ?case
  proof (cases "passed_over name")
    case True
    then show ?thesis using 2(1) [OF True 2(7), of parts] by (simp add: catalogued_child.simps [of parts name e])
  next
    case seen: False
    show ?thesis
    proof (cases e)
      case (Folder cs)
      have child: "int (length (catalogued_child parts name e)) = ?len (parts @ [name]) cs"
        unfolding catalogued_child.simps [of parts name e] using seen Folder by simp
      have inner: "enforce_file_count mx n cs = (let k = n + ?len (parts @ [name]) cs in if k \<le> mx then Inr k else Inl (mx, mx + 1))"
        using 2(3) [OF seen Folder 2(7)] .
      show ?thesis
      proof (cases "n + ?len (parts @ [name]) cs \<le> mx")
        case True
        then have "enforce_file_count mx n cs = Inr (n + ?len (parts @ [name]) cs)" using inner by (simp add: Let_def)
        then show ?thesis using 2(4) [OF seen Folder, of "n + ?len (parts @ [name]) cs" parts] True child seen Folder
          by (simp add: Let_def algebra_simps)
      next
        case False
        then show ?thesis using inner child seen Folder by (simp add: Let_def)
      qed
    next
      case (RegularFile content)
      have child: "length (catalogued_child parts name e) = 1"
        unfolding catalogued_child.simps [of parts name e] using seen RegularFile by simp
      show ?thesis
      proof (cases "mx < n + 1")
        case False
        then show ?thesis using 2(2) [OF seen RegularFile False, of parts] child seen RegularFile by (simp add: Let_def algebra_simps)
      qed (use 2(7) child seen RegularFile in \<open>simp add: Let_def\<close>)
    next
      case (Link b)
      have "catalogued_child parts name e = []" unfolding catalogued_child.simps [of parts name e] using Link by simp
      then show ?thesis using 2(5) [OF seen Link 2(7), of parts] seen Link by simp
    next
      case Device
      have "catalogued_child parts name e = []" unfolding catalogued_child.simps [of parts name e] using Device by simp
      then show ?thesis using 2(6) [OF seen Device 2(7), of parts] seen Device by simp
    qed
  qed
qed


text \<open>
  C27: An import is refused for its number of files exactly when the regular files that would be catalogued are more than the limit, and the
  count stops at the first file above it; an accepted import reports exactly the number and the total size of the catalogued files.
\<close>

theorem file_limit_exact:
  assumes "0 \<le> mx"
  shows "(\<exists>limit seen. parse U ids loads files (Some mx) root = Inl (RepositoryFileLimitExceeded limit seen)) = (mx < int (length (catalogued root)))
    \<and> (case parse U ids loads files (Some mx) root of
         Inl (RepositoryFileLimitExceeded limit seen) \<Rightarrow> limit = mx \<and> seen = mx + 1
       | Inl (DetectionFailed _) \<Rightarrow> True
       | Inr (tree, meta, bytes) \<Rightarrow> rm_total_files meta = length (catalogued root) \<and> bytes = sum_list (map (\<lambda>x. int (length (snd x))) (catalogued root)))"
proof -
  have counted: "enforce_file_count mx 0 root = (if int (length (catalogued root)) \<le> mx then Inr (int (length (catalogued root))) else Inl (mx, mx + 1))"
    using enforce_file_count_exact [OF assms, of root "[]"] by (simp add: catalogued_def Let_def)
  show ?thesis
  proof (cases "int (length (catalogued root)) \<le> mx")
    case False
    then have "parse U ids loads files (Some mx) root = Inl (RepositoryFileLimitExceeded mx (mx + 1))" by (simp add: parse_def counted)
    then show ?thesis using False by simp
  next
    case True
    then have "parse U ids loads files (Some mx) root \<noteq> Inl (RepositoryFileLimitExceeded limit seen)" for limit seen
      by (auto simp: parse_def counted result_simps Let_def split: prod.splits sum.splits)
    then show ?thesis using True catalogue_totals [of U ids loads files "Some mx" root] by (auto split: sum.splits prod.splits parse_error.splits)
  qed
qed

text \<open>
  Names that path normalization rewrites: a file whose name holds a backslash is catalogued under a path that does not exist and is left out without a word; a
  file in the root whose second character is a colon stops the analysis of the whole repository.
\<close>

definition idle :: readings where
  "idle = \<lparr> rd_clock = \<lambda>_. 0, rd_rss = \<lambda>_. 0, rd_cancelled = \<lambda>_. False \<rparr>"

definition fresh_run :: "int \<Rightarrow> stream_state" where
  "fresh_run limit = \<lparr> ss_budget = \<lparr> bu_max_source = limit, bu_max_rss = 1, bu_max_time = 1, bu_source = 0, bu_peak_rss = 0, bu_started = 0 \<rparr>,
     ss_calls = 0, ss_yielded = [] \<rparr>"

definition analysed :: "entries \<Rightarrow> (stream_error + unit) \<times> (string \<times> string) list" where
  "analysed root = (case stream_sources ascii_unicode (\<lambda>_. []) idle root (map dump_node (fst (build_tree ascii_unicode (join ''/'') [] root))) 8 (fresh_run 100) of
     (r, s) \<Rightarrow> (r, ss_yielded s))"

lemma backslash_name_lost: "analysed [([CHR ''a'', CHR 0x5C, CHR ''b''], RegularFile ''x'')] = (Inr (), [])"
  by code_simp

lemma colon_name_stops_analysis:
  "analysed [(''x:1'', RegularFile ''x''), (''ok.py'', RegularFile ''y'')] = (Inl (UnsafeSourcePath ''escapes the repository root'' ''/x:1''), [])"
  by code_simp

text \<open>A \<^verbatim>\<open>package.json\<close> that is not an object ends the import with an exception nobody expects.\<close>

lemma package_array_raises:
  assumes "files ''package.json'' = Some bytes" "utf8_valid bytes" "loads bytes = Some (PList xs)"
  shows "detect_framework U loads files = Inl NoAttributeGet"
  using assms by (simp add: detect_framework_def package_dependencies_def)

section \<open>Witnesses\<close>

definition sample_root :: entries where
  "sample_root = [(''src'', Folder [(''main.py'', RegularFile ''x = 10000''), (''up'', Link (Some (RegularFile ''secret'')))]), (''.git'', Folder [(''HEAD'', RegularFile ''ref'')]),
     (''README.md'', RegularFile ''hello'')]"

definition sample_tree :: "file_tree_node list" where
  "sample_tree = fst (build_tree ascii_unicode (join ''/'') [] sample_root)"

definition sample_parse :: "parse_error + (file_tree_node list \<times> repository_meta \<times> int)" where
  "sample_parse = parse ascii_unicode (join ''/'') (\<lambda>_. None) (\<lambda>_. None) (Some 2) sample_root"

theorem stream_safe_witness:
  "case stream_sources ascii_unicode (\<lambda>_. []) idle sample_root (map dump_node sample_tree) 8 (fresh_run 100) of (r, s') \<Rightarrow>
     r = Inr () \<and> map fst (ss_yielded s') = [''README.md'', ''src/main.py''] \<and> sorted_wrt (<) (map fst (ss_yielded s'))
     \<and> sum_list (map (\<lambda>y. file_size sample_root (fst y)) (ss_yielded s')) \<le> 100"
proof -
  obtain r s' where run: "stream_sources ascii_unicode (\<lambda>_. []) idle sample_root (map dump_node sample_tree) 8 (fresh_run 100) = (r, s')" by (metis surj_pair)
  have "case stream_sources ascii_unicode (\<lambda>_. []) idle sample_root (map dump_node sample_tree) 8 (fresh_run 100) of (r, s') \<Rightarrow>
      r = Inr () \<and> map fst (ss_yielded s') = [''README.md'', ''src/main.py'']" by code_simp
  moreover have start: "ss_yielded (fresh_run 100) = []" "bu_source (ss_budget (fresh_run 100)) = 0" "bu_max_source (ss_budget (fresh_run 100)) = 100"
    by (simp_all add: fresh_run_def)
  ultimately show ?thesis using stream_safe [OF run] by (simp add: run start)
qed


theorem file_limit_exact_witness:
  "(\<exists>limit seen. parse ascii_unicode (join ''/'') (\<lambda>_. None) (\<lambda>_. None) (Some 1) sample_root = Inl (RepositoryFileLimitExceeded limit seen))
     = (1 < int (length (catalogued sample_root))) \<and> length (catalogued sample_root) = 2"
proof -
  have "length (catalogued sample_root) = 2" by code_simp
  then show ?thesis using file_limit_exact [of 1 ascii_unicode "join ''/''" "\<lambda>_. None" "\<lambda>_. None" sample_root] by simp
qed

end
