(* ===== verification/Spec2Isabelle.thy ===== *)
theory Spec2Isabelle
  imports Job_Worker Rate_Limit Snapshot_Projection Oauth_Service Repo_Import Source_Files
begin

text \<open>
  PARTHA, the intelligence core of the backend (\<^verbatim>\<open>src/apps/backend/app\<close>).

  \<^bold>\<open>The program.\<close> PARTHA analyses a repository at one revision and keeps what it found as an immutable, content-addressed
  snapshot: nodes (files, symbols, routes, dependencies), edges and assertions about them, the observations and the
  evidence that prove them, and the derivations that say which fact follows from which. A
  repository is imported from GitHub or as an archive and becomes a revision of a lineage
  (\<^verbatim>\<open>services/repository_service.py\<close>, \<^verbatim>\<open>repositories/repository_repository.py\<close>); its files are catalogued
  (\<^verbatim>\<open>parsers/repository_parser.py\<close>) and read back when they are analysed (\<^verbatim>\<open>analysis/source_stream.py\<close>). A user then submits an
  analysis job (\<^verbatim>\<open>services/analysis_job_service.py\<close>); worker processes claim jobs from the table under a lease
  (\<^verbatim>\<open>workers/control_plane.py\<close>) and run them stage by stage (\<^verbatim>\<open>workers/analysis_worker.py\<close>): extraction fills a
  building snapshot through \<^verbatim>\<open>SnapshotStore\<close>, the relationship resolver and the role classifier add edges and assertions, and
  sealing validates the graph, hashes it canonically and freezes it. Readers (\<^verbatim>\<open>intelligence/query_service.py\<close>) only
  see sealed snapshots of their own user. Around this stand the login sessions (\<^verbatim>\<open>auth/service.py\<close>), the sign-in
  through identity providers (\<^verbatim>\<open>services/oauth_service.py\<close>), the request budgets (\<^verbatim>\<open>core/rate_limit.py\<close>) and the policy for outbound
  requests to AI providers (\<^verbatim>\<open>core/ai_egress.py\<close>).

  \<^bold>\<open>Theories, in dependency order.\<close>

  \<^item> \<open>Partha_Prelude\<close>: results of fallible code, state-and-exception actions, the string operations of Python that the
    sources call, stable sorting with de-duplication, and the collections of facts the other theories use.
  \<^item> \<open>Py_Values\<close>: dynamically typed values, the Unicode tables as a parameter, decimal and JSON literals.
  \<^item> \<open>Canonical_Path\<close>, \<open>Canonical_Json\<close>, \<open>Canonical_Keys\<close>, \<open>Canonical_Graph\<close>: \<^verbatim>\<open>intelligence/canonical.py\<close>. Path
    normalization and its exact error condition; canonical JSON bytes, equal exactly for equal normalized values; stable
    keys and identities, injective up to a collision of SHA-256 (the parameter \<open>H\<close>); the canonical graph hash, which does
    not depend on the order of insertion.
  \<^item> \<open>Snapshot_Model\<close>: \<^verbatim>\<open>models/snapshot.py\<close>, one record per row and the constraints of the tables.
  \<^item> \<open>Snapshot_Session\<close>: the session of the ORM as three layers (committed rows, flushed rows, objects in memory)
    and the guard of completed snapshots; a flush that succeeds never changes a completed row.
  \<^item> \<open>Snapshot_Store\<close>: lookup, creation and filling of snapshots and the retention sweep
    (\<^verbatim>\<open>intelligence/snapshot_store.py\<close>, \<^verbatim>\<open>intelligence/retention.py\<close>).
  \<^item> \<open>Derivation_Graph\<close>, \<open>Snapshot_Seal\<close>: the search for a cycle of derivations, which is shown to decide acyclicity; sealing, its
    rejections, and the theorem that completed snapshots stay as they are under every sequence of operations.
  \<^item> \<open>Source_Naming\<close>, \<open>Store_Growth\<close>, \<open>Relation_Resolver\<close>: \<^verbatim>\<open>extraction/naming.py\<close> and
    \<^verbatim>\<open>intelligence/resolution.py\<close>. What an addition to the store guarantees, and the resolution pass: each edge is
    justified, the store receives exactly the edges and diagnostics asked for, the order of the rows does not matter.
  \<^item> \<open>Role_Classifier\<close>: \<^verbatim>\<open>intelligence/classification.py\<close>.
  \<^item> \<open>Snapshot_Query\<close>, \<open>Snapshot_Projection\<close>: \<^verbatim>\<open>intelligence/query_service.py\<close>. Resolution of snapshots, pages, citations,
    the bounded impact walk (compared with shortest paths) and the projection for documentation; the answers depend on
    nothing that belongs to another user, and those about a sealed snapshot are final.
  \<^item> \<open>Job_Model\<close>, \<open>Job_Queue\<close>, \<open>Job_Service\<close>, \<open>Job_Worker\<close>: \<^verbatim>\<open>models/analysis_job.py\<close>,
    \<^verbatim>\<open>workers/control_plane.py\<close>, \<^verbatim>\<open>services/analysis_job_service.py\<close> and
    \<^verbatim>\<open>workers/analysis_worker.py\<close>. The queue refines an abstract lease protocol whose steps are an inductive relation; submission yields
    one effective job under every interference of other sessions; a worker is fenced off from rows it does not own;
    attempts are bounded and every outcome of a failed run is given by cases.
  \<^item> \<open>Rate_Limit\<close>: \<^verbatim>\<open>core/rate_limit.py\<close>, both stores and the middleware, with the bound on bursts.
  \<^item> \<open>Auth_Service\<close>: \<^verbatim>\<open>auth/service.py\<close> and its tables; registration, login and the rotation of refresh tokens
    as a refinement of a protocol of session families, under interference.
  \<^item> \<open>Oauth_Service\<close>: \<^verbatim>\<open>services/oauth_service.py\<close> over the same tables. What a provider sign-in, a callback and a pending
    link can and cannot do, and the session invariant across both kinds of sign-in.
  \<^item> \<open>Ip_Literals\<close>, \<open>Egress_Policy\<close>: \<^verbatim>\<open>core/ai_egress.py\<close> over a model of the address classes and of the URL parsing of the standard library. Where a
    prepared request can go, that its connection is pinned to a validated address, and that normalized URLs read back as themselves.
  \<^item> \<open>Repo_Lineage\<close>, \<open>Repo_Import\<close>: \<^verbatim>\<open>repositories/repository_repository.py\<close>, \<^verbatim>\<open>github/client.py\<close> and
    \<^verbatim>\<open>services/repository_service.py\<close>. The numbering of revisions as an invariant over all requests, imports under races, what a failed import leaves
    behind, and which arguments can reach git.
  \<^item> \<open>Source_Files\<close>: \<^verbatim>\<open>parsers/repository_parser.py\<close>, \<^verbatim>\<open>analysis/resource_budget.py\<close> and \<^verbatim>\<open>analysis/source_stream.py\<close> over
    directory trees with links. What the stream may give out, that it gives out what the parser catalogued, and the limit on the number of files.

  \<^bold>\<open>Correspondence.\<close> A class with columns is a record with the same field names; an exception class is a constructor of the error
  type of its component; a method that talks to the database maps the state to a result and the next
  state, and keeps the state reached so far when it raises. A transaction that may be overtaken takes what
  the other sessions commit in between as an argument (a function on the state restricted by what those sessions can do), so that a
  theorem about it holds for every interleaving at the points where the code commits or reads again. Compare-and-swap
  statements are single steps. Times are integers of microseconds; strings are their UTF-8 bytes.

  \<^bold>\<open>Loops and bounds.\<close> Loops over rows are structural recursions. The cycle search recurses in the
  depth of the path it follows; its fuel is one more than the number of derived facts, and it is proved that this is never used up. The impact walk recurses on the
  depth the request bounds (at most the limit of the code). Walks over directory trees, file trees and JSON values recurse on the size of the value. The retry delay, the budgets of requests and the limits of pages are those of the
  source. Python integers are unbounded, hence \<open>int\<close>.

  \<^bold>\<open>Parameters.\<close> SHA-256, the Unicode tables, argon2, the encoding of JSON web tokens, the Redis server, the clock, random tokens and UUIDs, name
  resolution and the IDNA encoding of non-ASCII names, the answers of git, of identity providers and of the archive libraries, the resident set of the process and Python's rendering of containers as text are
  arguments of the definitions that use them, with their documented behaviour as named hypotheses where a theorem relies on it; each such theorem has a witness that
  instantiates them with a concrete function.

  \<^bold>\<open>Not modelled.\<close> The extractors (\<^verbatim>\<open>extraction/\<close>) are parsers of source languages over tree-sitter and of manifest formats: they enter the
  worker as the parameter that fills the snapshot. The analyses of \<^verbatim>\<open>analysis/\<close> (the budget and the stream apart) and \<^verbatim>\<open>insights/\<close> and the reviews are heuristics over text without a contract
  beyond their output; the providers and the orchestration of \<^verbatim>\<open>ai/\<close> and the clients of the identity providers are conversations with services that are not in the
  repository. Deleting an account is the cascade of foreign keys that the migrations define. The manifests, graphs, reports and citations built over the query service keep no
  state of their own. The routes of \<^verbatim>\<open>api/\<close> translate HTTP into the calls modelled here. Migrations, configuration and logging
  have no behaviour of their own to verify. Left out of the modelled files: the cancellation callbacks polled inside long passes, the
  pragmas of SQLite, column widths and bookkeeping timestamps of the snapshot tables, and in the worker the refinement of \<^verbatim>\<open>repo_metadata\<close> after completion.

  \<^bold>\<open>Plan.\<close> Where the development could grow next: the dispatch of \<^verbatim>\<open>extraction/pipeline.py\<close> between the stream and the store, the merge of
  dependency facts, revision manifests over the query service, and the deletion of accounts.
\<close>

end
